(* ===== verification/Prelude.thy ===== *)
theory Prelude
  imports Main "HOL-Library.Word"
begin

text \<open>
  Shared vocabulary of the development: the outcome of running a piece of kernel C code
  (a returned value, a \<open>BUG()\<close>, an access the language leaves undefined, or no return at
  all), the C objects the sources manipulate through raw memory (bytes, little-endian
  \<open>int\<close>s, NUL-terminated strings, fixed-size buffers), and the generic list facts the
  components use.
\<close>

named_theorems buf_simps \<open>lengths and slices of byte buffers\<close>

section \<open>Outcomes of C code\<close>

text \<open>
  \<open>Ret x\<close>: the code returns \<open>x\<close>.  \<open>Bug\<close>: it reaches \<open>BUG()\<close>.  \<open>Fault\<close>: it dereferences
  NULL, divides by zero or leaves an array or a buffer.  \<open>Hang\<close>: it never returns.
\<close>

datatype 'a outcome = Ret 'a | Bug | Fault | Hang

primrec obind :: "'a outcome \<Rightarrow> ('a \<Rightarrow> 'b outcome) \<Rightarrow> 'b outcome" where
  "obind (Ret x) f = f x"
| "obind Bug f = Bug"
| "obind Fault f = Fault"
| "obind Hang f = Hang"

lemma obind_assoc: "obind (obind m f) g = obind m (\<lambda>x. obind (f x) g)"
  by (cases m) simp_all

lemma obind_Ret_right [simp]: "obind m Ret = m"
  by (cases m) simp_all

lemma obind_eq_Ret: "obind m f = Ret y \<longleftrightarrow> (\<exists>x. m = Ret x \<and> f x = Ret y)"
  by (cases m) simp_all

lemma obind_cong [fundef_cong]:
  "m = m' \<Longrightarrow> (\<And>x. m' = Ret x \<Longrightarrow> f x = f' x) \<Longrightarrow> obind m f = obind m' f'"
  by (cases m') simp_all

text \<open>A \<open>for\<close> loop over a list of indices whose body may fail.\<close>

primrec ofold :: "('x \<Rightarrow> 's \<Rightarrow> 's outcome) \<Rightarrow> 'x list \<Rightarrow> 's \<Rightarrow> 's outcome" where
  "ofold f [] s = Ret s"
| "ofold f (x # xs) s = obind (f x s) (ofold f xs)"

lemma ofold_append: "ofold f (xs @ ys) s = obind (ofold f xs s) (ofold f ys)"
  by (induction xs arbitrary: s) (auto simp: obind_assoc intro: obind_cong)

lemma ofold_invariant:
  assumes "\<And>x t t'. x \<in> set xs \<Longrightarrow> I t \<Longrightarrow> f x t = Ret t' \<Longrightarrow> I t'"
    and "I s" and "ofold f xs s = Ret s'"
  shows "I s'"
  using assms
proof (induction xs arbitrary: s)
  case Nil
  then show ?case by simp
next
  case (Cons x xs)
  from Cons.prems(3) obtain t where t: "f x s = Ret t" and rest: "ofold f xs t = Ret s'"
    by (auto simp: obind_eq_Ret)
  have "I t" using Cons.prems(1)[OF _ Cons.prems(2) t] by simp
  have step: "\<And>x t t'. x \<in> set xs \<Longrightarrow> I t \<Longrightarrow> f x t = Ret t' \<Longrightarrow> I t'"
    using Cons.prems(1) by (meson list.set_intros(2))
  from Cons.IH[OF step \<open>I t\<close> rest] show ?case by simp
qed

text \<open>Array accesses by a C \<open>int\<close> index.\<close>

definition in_range :: "int \<Rightarrow> 'a list \<Rightarrow> bool" where
  "in_range i xs \<longleftrightarrow> 0 \<le> i \<and> i < int (length xs)"

definition arr_get :: "'a list \<Rightarrow> int \<Rightarrow> 'a outcome" where
  "arr_get xs i = (if in_range i xs then Ret (xs ! nat i) else Fault)"

definition arr_upd :: "'a list \<Rightarrow> int \<Rightarrow> ('a \<Rightarrow> 'a) \<Rightarrow> 'a list outcome" where
  "arr_upd xs i f = (if in_range i xs then Ret (xs[nat i := f (xs ! nat i)]) else Fault)"

lemma in_range_int [simp]: "in_range (int i) xs \<longleftrightarrow> i < length xs"
  by (simp add: in_range_def)

lemma not_in_range_neg [simp]: "\<not> in_range (- 1) xs" "i < 0 \<Longrightarrow> \<not> in_range i xs"
  by (simp_all add: in_range_def)

lemma arr_get_int [simp]: "i < length xs \<Longrightarrow> arr_get xs (int i) = Ret (xs ! i)"
  by (simp add: arr_get_def)

lemma arr_upd_int [simp]: "i < length xs \<Longrightarrow> arr_upd xs (int i) f = Ret (xs[i := f (xs ! i)])"
  by (simp add: arr_upd_def)

lemma arr_get_neg [simp]: "arr_get xs (- 1) = Fault"
  by (simp add: arr_get_def)

lemma arr_upd_neg [simp]: "arr_upd xs (- 1) f = Fault"
  by (simp add: arr_upd_def)

text \<open>Division of a C \<open>int\<close> by a positive one truncates towards zero.\<close>

definition c_div :: "int \<Rightarrow> nat \<Rightarrow> int" where
  "c_div a n = (if a < 0 then - ((- a) div int n) else a div int n)"

lemma c_div_int [simp]: "c_div (int a) n = int (a div n)"
  by (simp add: c_div_def zdiv_int)

section \<open>Bytes and C integers in memory\<close>

type_synonym byte = "8 word"

text \<open>The value of an unsigned 32-bit quantity read as a C \<open>int\<close> (and of a wider one truncated to it).\<close>

definition s32 :: "int \<Rightarrow> int" where
  "s32 x = (let u = x mod 4294967296 in if u < 2147483648 then u else u - 4294967296)"

lemma s32_id [simp]:
  assumes "- 2147483648 \<le> x" and "x < 2147483648"
  shows "s32 x = x"
proof (cases "x < 0")
  case True
  have "x mod 4294967296 = (x + 4294967296) mod 4294967296"
    by simp
  also have "\<dots> = x + 4294967296"
    using True assms by (intro mod_pos_pos_trivial) auto
  finally show ?thesis
    using True assms by (simp add: s32_def Let_def)
next
  case False
  with assms have "x mod 4294967296 = x"
    by (intro mod_pos_pos_trivial) auto
  then show ?thesis
    using assms by (simp add: s32_def Let_def)
qed

text \<open>\<open>memcpy(buf, &x, sizeof(int))\<close> on a little-endian machine, and the read back.\<close>

definition int_bytes :: "int \<Rightarrow> byte list" where
  "int_bytes x = [word_of_int x, word_of_int (x div 256), word_of_int (x div 65536),
                  word_of_int (x div 16777216)]"

definition bytes_int :: "byte list \<Rightarrow> int" where
  "bytes_int bs = s32 (uint (bs ! 0) + 256 * uint (bs ! 1) + 65536 * uint (bs ! 2)
                       + 16777216 * uint (bs ! 3))"

lemma length_int_bytes [simp, buf_simps]: "length (int_bytes x) = 4"
  by (simp add: int_bytes_def)

lemma bytes_int_int_bytes:
  assumes "- 2147483648 \<le> x" and "x < 2147483648"
  shows "bytes_int (int_bytes x @ r) = x"
proof -
  have d2: "x div 65536 = x div 256 div 256" and d3: "x div 16777216 = x div 256 div 256 div 256"
    using zdiv_zmult2_eq [of 256 x 256] zdiv_zmult2_eq [of 256 x 65536]
      zdiv_zmult2_eq [of 256 "x div 256" 256] by simp_all
  have m1: "x mod 4294967296 = 256 * (x div 256 mod 16777216) + x mod 256"
    using zmod_zmult2_eq [of 16777216 x 256] by simp
  have m2: "x div 256 mod 16777216 = 256 * (x div 256 div 256 mod 65536) + x div 256 mod 256"
    using zmod_zmult2_eq [of 65536 "x div 256" 256] by simp
  have m3: "x div 256 div 256 mod 65536
              = 256 * (x div 256 div 256 div 256 mod 256) + x div 256 div 256 mod 256"
    using zmod_zmult2_eq [of 256 "x div 256 div 256" 256] by simp
  have u: "uint (word_of_int y :: byte) = y mod 256" for y
    by (simp add: uint_word_of_int)
  have "bytes_int (int_bytes x @ r)
          = s32 (x mod 256 + 256 * (x div 256 mod 256) + 65536 * (x div 65536 mod 256)
                 + 16777216 * (x div 16777216 mod 256))"
    by (simp only: bytes_int_def int_bytes_def u append_Cons nth_Cons_0 nth_Cons_Suc
        numeral_eq_Suc pred_numeral_simps One_nat_def BitM.simps)
  also have "x mod 256 + 256 * (x div 256 mod 256) + 65536 * (x div 65536 mod 256)
          + 16777216 * (x div 16777216 mod 256) = x mod 4294967296"
    unfolding d2 d3 m1 m2 m3 by (simp only: distrib_left)
  also have "s32 (x mod 4294967296) = s32 x"
    by (simp only: s32_def mod_mod_trivial)
  finally show ?thesis
    using assms by simp
qed

text \<open>
  Memory accesses of the string and memory library.  A buffer is the list of its bytes, a
  slice or a store outside of it is a \<open>Fault\<close>.
\<close>

definition mem_slice :: "byte list \<Rightarrow> int \<Rightarrow> int \<Rightarrow> byte list outcome" where
  "mem_slice buf off n =
     (if 0 \<le> off \<and> 0 \<le> n \<and> off + n \<le> int (length buf)
      then Ret (take (nat n) (drop (nat off) buf)) else Fault)"

definition mem_store :: "byte list \<Rightarrow> int \<Rightarrow> byte list \<Rightarrow> byte list outcome" where
  "mem_store buf off src =
     (if 0 \<le> off \<and> off + int (length src) \<le> int (length buf)
      then Ret (take (nat off) buf @ src @ drop (nat off + length src) buf) else Fault)"

lemma mem_store_length: "mem_store buf off src = Ret buf' \<Longrightarrow> length buf' = length buf"
  by (auto simp: mem_store_def split: if_splits)

lemma mem_slice_int [simp]:
  "off + n \<le> length buf \<Longrightarrow> mem_slice buf (int off) (int n) = Ret (take n (drop off buf))"
  by (simp add: mem_slice_def)

text \<open>A C string is its list of characters, none of which is NUL.\<close>

definition cstring :: "byte list \<Rightarrow> bool" where
  "cstring k \<longleftrightarrow> 0 \<notin> set k"

text \<open>
  \<open>strncmp_eq mem str n\<close> is \<open>!strncmp(mem, str, n)\<close>: both arguments are the memory from the
  pointer on; reading past the end of either is a \<open>Fault\<close>.
\<close>

fun strncmp_eq :: "byte list \<Rightarrow> byte list \<Rightarrow> nat \<Rightarrow> bool outcome" where
  "strncmp_eq as bs 0 = Ret True"
| "strncmp_eq (a # as) (b # bs) (Suc n) =
     (if a \<noteq> b then Ret False else if a = 0 then Ret True else strncmp_eq as bs n)"
| "strncmp_eq as bs (Suc n) = Fault"

text \<open>Comparing with a whole C string of length \<open>n\<close> is a prefix test.\<close>

lemma strncmp_eq_prefix:
  "cstring k \<Longrightarrow> length k \<le> length m \<Longrightarrow>
   strncmp_eq m (k @ [0]) (length k) = Ret (take (length k) m = k)"
proof (induction k arbitrary: m)
  case Nil
  then show ?case by simp
next
  case (Cons a k)
  then obtain b m' where m: "m = b # m'" by (cases m) auto
  from Cons m show ?case by (auto simp: cstring_def)
qed

text \<open>The C string at the start of a piece of memory; without a NUL in it, reading it runs off the end.\<close>

definition mem_string :: "byte list \<Rightarrow> byte list outcome" where
  "mem_string mem = (if 0 \<in> set mem then Ret (takeWhile (\<lambda>c. c \<noteq> 0) mem) else Fault)"

text \<open>The \<open>n\<close> bytes \<open>strncpy(dst, src, n)\<close> writes when \<open>src\<close> are the \<open>n\<close> bytes at the source.\<close>

definition strncpy_bytes :: "byte list \<Rightarrow> byte list" where
  "strncpy_bytes src = (let s = takeWhile (\<lambda>c. c \<noteq> 0) src in s @ replicate (length src - length s) 0)"

lemma takeWhile_cstring: "cstring k \<Longrightarrow> takeWhile (\<lambda>c. c \<noteq> 0) (k @ 0 # r) = k"
  by (induction k) (auto simp: cstring_def)

lemma takeWhile_cstring_all [simp]: "cstring k \<Longrightarrow> takeWhile (\<lambda>c. c \<noteq> 0) k = k"
  by (induction k) (auto simp: cstring_def)

lemma strncpy_bytes_cstring [simp]: "cstring k \<Longrightarrow> strncpy_bytes k = k"
  by (simp add: strncpy_bytes_def)

section \<open>Generic list facts\<close>

lemma upt_0_Suc_eq: "[0..<Suc n] = [0..<n] @ [n]"
  by simp

lemma div_mult_lt: "j < (q::nat) \<Longrightarrow> (i * q + j) div q = i"
  by simp

lemma page_lt: "i < nb \<Longrightarrow> j < q \<Longrightarrow> i * q + j < nb * (q::nat)"
  by (metis div_less_iff_less_mult div_mult_lt not_less0 gr0I)

lemma page_inj: "j < q \<Longrightarrow> j' < q \<Longrightarrow> i * q + j = i' * q + j' \<longleftrightarrow> i = i' \<and> j = (j'::nat)"
  by (metis add_diff_cancel_left' div_mult_lt)

lemma find_append: "List.find P (xs @ ys) = (case List.find P xs of None \<Rightarrow> List.find P ys | Some x \<Rightarrow> Some x)"
  by (induction xs) simp_all

section \<open>Updated lists\<close>

lemma map_upd_same: "f b = f (xs ! i) \<Longrightarrow> map f (xs[i := b]) = map f xs"
  by (metis list_update_id map_update)

lemma length_filter_upd: "i < length xs \<Longrightarrow> length (filter P xs) \<le> length (filter P (xs[i := x])) + 1"
proof (induction xs arbitrary: i)
  case (Cons a xs)
  show ?case
  proof (cases i)
    case (Suc i')
    with Cons.IH [of i'] Cons.prems show ?thesis by simp
  qed simp
qed simp

lemma length_filter_upd_same: "i < length xs \<Longrightarrow> P x = P (xs ! i) \<Longrightarrow> length (filter P (xs[i := x])) = length (filter P xs)"
  by (induction xs arbitrary: i) (auto split: nat.splits)

lemma length_removeAll_distinct: "distinct xs \<Longrightarrow> h \<in> set xs \<Longrightarrow> length (removeAll h xs) + 1 = length xs"
  by (induction xs) auto

lemma nth_update_fun: "i < length xs \<Longrightarrow> (\<lambda>j. f (xs[i := x] ! j)) = (\<lambda>j. f (xs ! j))(i := f x)"
  by (auto simp: fun_eq_iff nth_list_update)

section \<open>The first index of least weight\<close>

text \<open>The loop by which every prototype picks the least worn block.\<close>

lemma least_index_prefix:
  "case foldl (\<lambda>(minimum, ret) i. if c i \<and> w i < minimum then (w i, int i) else (minimum, ret)) (limit, - 1) [0..<n]
   of (minimum, ret) \<Rightarrow>
        (ret = - 1 \<and> minimum = limit \<and> (\<forall>i < n. c i \<longrightarrow> limit \<le> w i))
      \<or> (\<exists>i < n. ret = int i \<and> c i \<and> minimum = w i \<and> minimum < (limit :: int)
           \<and> (\<forall>j < n. c j \<longrightarrow> minimum \<le> w j) \<and> (\<forall>j < i. c j \<longrightarrow> minimum < w j))"
proof (induction n)
  case (Suc n)
  obtain m r where f: "foldl (\<lambda>(minimum, ret) i. if c i \<and> w i < minimum then (w i, int i) else (minimum, ret)) (limit, - 1) [0..<n] = (m, r)"
    by fastforce
  from Suc have IH: "(r = - 1 \<and> m = limit \<and> (\<forall>i < n. c i \<longrightarrow> limit \<le> w i))
         \<or> (\<exists>i < n. r = int i \<and> c i \<and> m = w i \<and> m < limit
              \<and> (\<forall>j < n. c j \<longrightarrow> m \<le> w j) \<and> (\<forall>j < i. c j \<longrightarrow> m < w j))"
    by (simp add: f)
  show ?case
  proof (cases "c n \<and> w n < m")
    case True
    have "\<forall>j < n. c j \<longrightarrow> w n < w j"
      using IH True by (elim disjE exE conjE) (auto intro: order_less_le_trans)
    moreover have "w n < limit"
      using IH True by auto
    ultimately show ?thesis
      using True by (auto simp: f less_Suc_eq intro!: exI [of _ n])
  next
    case False
    then show ?thesis
      using IH by (auto simp: f less_Suc_eq)
  qed
qed simp

lemma least_index_spec:
  fixes w :: "nat \<Rightarrow> int"
  assumes "\<forall>i < n. w i < limit"
  shows "(if \<exists>i < n. c i then \<exists>i < n. snd (foldl (\<lambda>(minimum, ret) i. if c i \<and> w i < minimum then (w i, int i) else (minimum, ret)) (limit, - 1) [0..<n]) = int i
             \<and> c i \<and> (\<forall>j < n. c j \<longrightarrow> w i \<le> w j) \<and> (\<forall>j < i. c j \<longrightarrow> w i < w j)
          else snd (foldl (\<lambda>(minimum, ret) i. if c i \<and> w i < minimum then (w i, int i) else (minimum, ret)) (limit, - 1) [0..<n]) = - (1 :: int))"
proof (cases "\<exists>i < n. c i")
  case True
  then obtain i where i: "i < n" "c i" by blast
  with assms have "\<not> (\<forall>i < n. c i \<longrightarrow> limit \<le> w i)" by (meson not_le)
  with least_index_prefix [where c = c and w = w and limit = limit and n = n] True show ?thesis by (auto split: prod.splits)
next
  case False
  with least_index_prefix [where c = c and w = w and limit = limit and n = n] show ?thesis by (auto split: prod.splits)
qed

end
