(* ===== verification/KernelEnv.thy ===== *)
theory KernelEnv
  imports Prelude
begin

text \<open>
  The part of the kernel the key-value modules call and that is not in this repository: the
  MTD layer (\<open>get_mtd_device\<close> and the \<open>_read\<close>, \<open>_write\<close>, \<open>_erase\<close> methods of a partition),
  the allocator, and the registration of a character device.  It is a parameter of every
  definition that uses it: a record of functions over an abstract device state \<open>'m\<close>.  The
  locale \<open>nand_flash\<close> states what the modules rely on, as the MTD interface documents it:
  a successful read returns the stored bytes, a successful write to erased bytes stores the
  buffer and nothing else, a completed erase fills the range with ones.  \<open>nandsim\<close> is a
  NAND device for which the contract is proved; the concrete examples run on it.
\<close>

section \<open>The interface\<close>

text \<open>What \<open>get_mtd_device\<close> gives access to: sizes in bytes (\<open>uint64_t\<close> and \<open>uint32_t\<close>).\<close>

record mtd_info =
  mtd_size :: nat
  mtd_erasesize :: nat
  mtd_writesize :: nat

text \<open>\<open>e->state\<close> as the erase callback sees it.\<close>

datatype erase_state = MTD_ERASE_DONE | MTD_ERASE_FAILED

text \<open>
  \<open>k_read m a n\<close>: return code and the \<open>n\<close> bytes placed in the buffer.
  \<open>k_write m a buf\<close>: return code and the new device state.
  \<open>k_erase m a n\<close>: return code, the state with which the driver will call the callback
  (\<open>None\<close>: it never does), and the new device state.
  \<open>k_alloc m n\<close>: an allocation of \<open>n\<close> bytes succeeds.
  \<open>k_register_chrdev\<close>: return code of the registration.
\<close>

record 'm kernel =
  k_get_mtd_device :: "int \<Rightarrow> mtd_info option"
  k_read :: "'m \<Rightarrow> nat \<Rightarrow> nat \<Rightarrow> int \<times> byte list"
  k_write :: "'m \<Rightarrow> nat \<Rightarrow> byte list \<Rightarrow> int \<times> 'm"
  k_erase :: "'m \<Rightarrow> nat \<Rightarrow> nat \<Rightarrow> int \<times> erase_state option \<times> 'm"
  k_alloc :: "'m \<Rightarrow> nat \<Rightarrow> bool"
  k_register_chrdev :: "'m \<Rightarrow> int"

text \<open>
  The later prototypes read memory they did not initialise and run past the size they asked
  for, so their allocator hands out the contents of the allocated object.  \<open>k_kmalloc m n\<close>: the
  bytes of the object allocated for a request of \<open>n\<close>, at least that many (an allocation is
  rounded up to the size of its cache).  \<open>k_stale x\<close>: the byte at offset \<open>x\<close> of the image of the
  in-memory tables where it belongs to a pointer, to padding or to the rest of a string buffer.
\<close>

record 'm heap_kernel = "'m kernel" +
  k_kmalloc :: "'m \<Rightarrow> nat \<Rightarrow> byte list option"
  k_stale :: "nat \<Rightarrow> byte"

text \<open>The byte address of a page, computed in \<open>uint64_t\<close> as in every \<open>read_page\<close>/\<open>write_page\<close>.\<close>

definition page_addr :: "int \<Rightarrow> nat \<Rightarrow> nat" where
  "page_addr page_index page_size =
     unat ((word_of_int page_index :: 64 word) * word_of_nat page_size)"

lemma page_addr_eq:
  assumes "p * ps < 2 ^ 64"
  shows "page_addr (int p) ps = p * ps"
proof -
  have "page_addr (int p) ps = unat (word_of_nat (p * ps) :: 64 word)"
    by (simp only: page_addr_def of_nat_mult of_int_of_nat_eq)
  also have "\<dots> = p * ps"
    using assms by (simp only: unat_of_nat take_bit_nat_eq_self_iff len_num1 len_num0 len_bit0) (simp add: take_bit_nat_eq_self)
  finally show ?thesis .
qed

section \<open>The contract of the driver\<close>

text \<open>The bytes of page \<open>p\<close> when pages have \<open>ps\<close> bytes and \<open>byte_at m\<close> is the contents of the array.\<close>

definition flash_page :: "('m \<Rightarrow> nat \<Rightarrow> byte) \<Rightarrow> nat \<Rightarrow> 'm \<Rightarrow> nat \<Rightarrow> byte list" where
  "flash_page byte_at ps m p = map (byte_at m) [p * ps..<p * ps + ps]"

lemma length_flash_page [simp]: "length (flash_page byte_at ps m p) = ps"
  by (simp add: flash_page_def)

text \<open>\<open>byte_at m x\<close>: the byte the flash array holds at address \<open>x\<close>.\<close>

locale nand_flash =
  fixes K :: "('m, 'e) kernel_scheme" and byte_at :: "'m \<Rightarrow> nat \<Rightarrow> byte"
  assumes read_contents:
      "k_read K m a n = (0, buf) \<Longrightarrow> buf = map (byte_at m) [a..<a + n]"
    and write_contents:
      "k_write K m a buf = (0, m') \<Longrightarrow> \<forall>x. a \<le> x \<and> x < a + length buf \<longrightarrow> byte_at m x = 255 \<Longrightarrow>
       byte_at m' x = (if a \<le> x \<and> x < a + length buf then buf ! (x - a) else byte_at m x)"
    and erase_contents:
      "k_erase K m a n = (0, Some MTD_ERASE_DONE, m') \<Longrightarrow>
       byte_at m' x = (if a \<le> x \<and> x < a + n then 255 else byte_at m x)"
begin

lemma page_eqI: "(\<And>x. p * ps \<le> x \<Longrightarrow> x < p * ps + ps \<Longrightarrow> byte_at m x = byte_at m' x) \<Longrightarrow>
    flash_page byte_at ps m p = flash_page byte_at ps m' p"
  by (simp add: flash_page_def)

lemma page_read:
  "k_read K m (p * ps) ps = (0, buf) \<Longrightarrow> buf = flash_page byte_at ps m p"
  by (simp add: read_contents flash_page_def)

lemma page_erased: "flash_page byte_at ps m p = replicate ps 255 \<longleftrightarrow>
    (\<forall>x. p * ps \<le> x \<and> x < p * ps + ps \<longrightarrow> byte_at m x = 255)"
proof -
  have "flash_page byte_at ps m p = replicate ps 255 \<longleftrightarrow> (\<forall>b \<in> set (flash_page byte_at ps m p). b = 255)"
    using replicate_eqI [of "flash_page byte_at ps m p" ps 255] by auto
  also have "\<dots> \<longleftrightarrow> (\<forall>x. p * ps \<le> x \<and> x < p * ps + ps \<longrightarrow> byte_at m x = 255)"
    by (auto simp: flash_page_def)
  finally show ?thesis .
qed

lemma page_write_same:
  assumes w: "k_write K m (p * ps) buf = (0, m')" and len: "length buf = ps"
    and er: "flash_page byte_at ps m p = replicate ps 255"
  shows "flash_page byte_at ps m' p = buf"
proof -
  have "\<forall>x. p * ps \<le> x \<and> x < p * ps + length buf \<longrightarrow> byte_at m x = 255"
    using er len by (simp add: page_erased)
  note wc = write_contents [OF w this]
  show ?thesis
    by (rule nth_equalityI) (auto simp: flash_page_def wc len)
qed

lemma page_write_other:
  assumes w: "k_write K m (p * ps) buf = (0, m')" and len: "length buf = ps"
    and er: "flash_page byte_at ps m p = replicate ps 255" and ne: "q \<noteq> p"
  shows "flash_page byte_at ps m' q = flash_page byte_at ps m q"
proof (rule page_eqI)
  fix x assume x: "q * ps \<le> x" "x < q * ps + ps"
  have "\<forall>x. p * ps \<le> x \<and> x < p * ps + length buf \<longrightarrow> byte_at m x = 255"
    using er len by (simp add: page_erased)
  note wc = write_contents [OF w this]
  have "\<not> (p * ps \<le> x \<and> x < p * ps + ps)"
  proof
    assume y: "p * ps \<le> x \<and> x < p * ps + ps"
    have "x div ps = q" using x by (intro div_nat_eqI) (auto simp: mult.commute)
    moreover have "x div ps = p" using y by (intro div_nat_eqI) (auto simp: mult.commute)
    ultimately show False using ne by simp
  qed
  with wc [of x] show "byte_at m' x = byte_at m x" by (simp add: len)
qed

lemma page_erase:
  assumes e: "k_erase K m (b * (q * ps)) (c * (q * ps)) = (0, Some MTD_ERASE_DONE, m')"
  shows "flash_page byte_at ps m' p = (if b * q \<le> p \<and> p < (b + c) * q then replicate ps 255 else flash_page byte_at ps m p)"
proof (cases "b * q \<le> p \<and> p < (b + c) * q")
  case True
  have lo: "b * (q * ps) \<le> p * ps"
    using True mult_le_mono1 [of "b * q" p ps] by (simp only: mult.assoc simp_thms)
  have hi: "p * ps + ps \<le> b * (q * ps) + c * (q * ps)"
    using True mult_le_mono1 [of "p + 1" "(b + c) * q" ps] by (simp add: algebra_simps)
  have in_r: "b * (q * ps) \<le> x \<and> x < b * (q * ps) + c * (q * ps)"
    if "p * ps \<le> x" "x < p * ps + ps" for x
    using that lo hi by linarith
  have "flash_page byte_at ps m' p = replicate ps 255"
    using in_r by (auto simp: page_erased erase_contents [OF e])
  with True show ?thesis by simp
next
  case False
  have "flash_page byte_at ps m' p = flash_page byte_at ps m p"
  proof (rule page_eqI)
    fix x assume x: "p * ps \<le> x" "x < p * ps + ps"
    have "\<not> (b * (q * ps) \<le> x \<and> x < b * (q * ps) + c * (q * ps))"
    proof
      assume y: "b * (q * ps) \<le> x \<and> x < b * (q * ps) + c * (q * ps)"
      have d: "x div ps = p" using x by (intro div_nat_eqI) (auto simp: mult.commute)
      have ps: "0 < ps" using x by auto
      have "b * q * ps \<le> x" and "x < (b + c) * q * ps"
        using y by (auto simp: algebra_simps)
      then have "b * q \<le> x div ps" and "x div ps < (b + c) * q"
        using ps by (auto simp: less_eq_div_iff_mult_less_eq div_less_iff_less_mult)
      with d False show False by simp
    qed
    then show "byte_at m' x = byte_at m x" by (auto simp: erase_contents [OF e])
  qed
  with False show ?thesis by auto
qed

end

section \<open>A NAND device that meets the contract\<close>

text \<open>
  A programmed byte can only clear bits, so a write leaves the conjunction of old and new
  contents; erasing sets every bit.  The state is the contents of the array.
\<close>

definition nandsim_write :: "byte list \<Rightarrow> nat \<Rightarrow> byte list \<Rightarrow> int \<times> byte list" where
  "nandsim_write m a buf =
     (if a + length buf \<le> length m
      then (0, take a m @ map2 and (take (length buf) (drop a m)) buf @ drop (a + length buf) m)
      else (- 22, m))"

definition nandsim_read :: "byte list \<Rightarrow> nat \<Rightarrow> nat \<Rightarrow> int \<times> byte list" where
  "nandsim_read m a n =
     (if a + n \<le> length m then (0, take n (drop a m)) else (- 22, replicate n 0))"

definition nandsim_erase :: "byte list \<Rightarrow> nat \<Rightarrow> nat \<Rightarrow> int \<times> erase_state option \<times> byte list" where
  "nandsim_erase m a n =
     (if a + n \<le> length m
      then (0, Some MTD_ERASE_DONE, take a m @ replicate n 255 @ drop (a + n) m)
      else (- 22, None, m))"

definition nandsim :: "nat \<Rightarrow> nat \<Rightarrow> nat \<Rightarrow> byte list kernel" where
  "nandsim nb bs ps =
     \<lparr>k_get_mtd_device = (\<lambda>i. if i = 0 then Some \<lparr>mtd_size = nb * bs, mtd_erasesize = bs, mtd_writesize = ps\<rparr> else None),
      k_read = nandsim_read, k_write = nandsim_write, k_erase = nandsim_erase,
      k_alloc = (\<lambda>_ _. True), k_register_chrdev = (\<lambda>_. 0)\<rparr>"

definition nandsim_byte :: "byte list \<Rightarrow> nat \<Rightarrow> byte" where
  "nandsim_byte m x = (if x < length m then m ! x else 0)"

interpretation ns: nand_flash "nandsim nb bs ps" nandsim_byte
proof
  fix m :: "byte list" and a n buf
  assume "k_read (nandsim nb bs ps) m a n = (0, buf)"
  then have "buf = take n (drop a m)" and "a + n \<le> length m"
    by (auto simp: nandsim_def nandsim_read_def split: if_splits)
  then show "buf = map (nandsim_byte m) [a..<a + n]"
    by (auto simp: nandsim_byte_def intro: nth_equalityI)
next
  fix m m' :: "byte list" and a buf x
  assume "k_write (nandsim nb bs ps) m a buf = (0, m')"
    and er: "\<forall>x. a \<le> x \<and> x < a + length buf \<longrightarrow> nandsim_byte m x = 255"
  then have m': "m' = take a m @ map2 and (take (length buf) (drop a m)) buf @ drop (a + length buf) m"
    and le: "a + length buf \<le> length m"
    by (auto simp: nandsim_def nandsim_write_def split: if_splits)
  have ff: "and (255 :: byte) b = b" for b
    by (rule bit_word_eqI) (auto simp: bit_simps less_Suc_eq numeral_eq_Suc)
  have "m ! x = 255" if "a \<le> x" "x < a + length buf"
    using er that le by (auto simp: nandsim_byte_def split: if_splits)
  then show "nandsim_byte m' x
      = (if a \<le> x \<and> x < a + length buf then buf ! (x - a) else nandsim_byte m x)"
    using le by (auto simp: nandsim_byte_def m' nth_append ff)
next
  fix m m' :: "byte list" and a n x
  assume "k_erase (nandsim nb bs ps) m a n = (0, Some MTD_ERASE_DONE, m')"
  then have "m' = take a m @ replicate n 255 @ drop (a + n) m" and "a + n \<le> length m"
    by (auto simp: nandsim_def nandsim_erase_def split: if_splits)
  then show "nandsim_byte m' x = (if a \<le> x \<and> x < a + n then 255 else nandsim_byte m x)"
    by (auto simp: nandsim_byte_def nth_append)
qed


text \<open>The same device with an allocator that rounds requests up to the general-purpose caches.\<close>

definition slab_size :: "nat \<Rightarrow> nat" where
  "slab_size n = (case List.find (\<lambda>c. n \<le> c)
       [8, 16, 32, 64, 96, 128, 192, 256, 512, 1024, 2048, 4096, 8192, 16384, 32768, 65536, 131072] of Some c \<Rightarrow> c | None \<Rightarrow> n)"

definition heapsim :: "nat \<Rightarrow> nat \<Rightarrow> nat \<Rightarrow> byte list heap_kernel" where
  "heapsim nb bs ps =
     \<lparr>k_get_mtd_device = k_get_mtd_device (nandsim nb bs ps),
      k_read = nandsim_read, k_write = nandsim_write, k_erase = nandsim_erase,
      k_alloc = (\<lambda>_ _. True), k_register_chrdev = (\<lambda>_. 0),
      k_kmalloc = (\<lambda>_ n. Some (replicate (slab_size n) 0)), k_stale = (\<lambda>_. 0)\<rparr>"

lemma slab_size_ge: "n \<le> slab_size n"
  by (auto simp: slab_size_def find_Some_iff split: option.splits)

lemma heapsim_nandsim:
  "k_read (heapsim nb bs ps) = k_read (nandsim nb bs ps)"
  "k_write (heapsim nb bs ps) = k_write (nandsim nb bs ps)"
  "k_erase (heapsim nb bs ps) = k_erase (nandsim nb bs ps)"
  by (simp_all add: heapsim_def nandsim_def)

interpretation hs: nand_flash "heapsim nb bs ps" nandsim_byte
  using ns.nand_flash_axioms [of nb bs ps] unfolding nand_flash_def heapsim_nandsim .

section \<open>Devices without failures\<close>

text \<open>\<open>good\<close> holds of the device states in which accesses below \<open>fsize\<close> succeed.\<close>

locale reliable_flash = nand_flash K byte_at
  for K :: "'m heap_kernel" and byte_at :: "'m \<Rightarrow> nat \<Rightarrow> byte" +
  fixes good :: "'m \<Rightarrow> bool" and fsize :: nat
  assumes read_ok: "good m \<Longrightarrow> a + n \<le> fsize \<Longrightarrow> \<exists>buf. k_read K m a n = (0, buf)"
    and write_ok: "good m \<Longrightarrow> a + length buf \<le> fsize \<Longrightarrow> \<exists>m'. k_write K m a buf = (0, m') \<and> good m'"
    and erase_ok: "good m \<Longrightarrow> a + n \<le> fsize \<Longrightarrow> \<exists>m'. k_erase K m a n = (0, Some MTD_ERASE_DONE, m') \<and> good m'"
    and kmalloc_ok: "good m \<Longrightarrow> \<exists>buf. k_kmalloc K m n = Some buf \<and> n \<le> length buf"

lemma nandsim_write_length:
  "a + length buf \<le> length m \<Longrightarrow> \<exists>m'. nandsim_write m a buf = (0, m') \<and> length m' = length m"
  by (simp add: nandsim_write_def)

interpretation rs: reliable_flash "heapsim nb bs ps" nandsim_byte "\<lambda>m. length m = nb * bs" "nb * bs"
proof
  fix m :: "byte list" and a n
  show "length m = nb * bs \<Longrightarrow> a + n \<le> nb * bs \<Longrightarrow> \<exists>buf. k_read (heapsim nb bs ps) m a n = (0, buf)"
    by (simp add: heapsim_def nandsim_read_def)
  show "length m = nb * bs \<Longrightarrow> a + n \<le> nb * bs \<Longrightarrow>
      \<exists>m'. k_erase (heapsim nb bs ps) m a n = (0, Some MTD_ERASE_DONE, m') \<and> length m' = nb * bs"
    by (simp add: heapsim_def nandsim_erase_def)
  show "\<exists>buf. k_kmalloc (heapsim nb bs ps) m n = Some buf \<and> n \<le> length buf"
    by (simp add: heapsim_def slab_size_ge)
next
  fix m buf :: "byte list" and a
  show "length m = nb * bs \<Longrightarrow> a + length buf \<le> nb * bs \<Longrightarrow>
      \<exists>m'. k_write (heapsim nb bs ps) m a buf = (0, m') \<and> length m' = nb * bs"
    using nandsim_write_length [of a buf m] by (auto simp: heapsim_def)
qed

text \<open>Programming a page that was not erased leaves the conjunction of the two contents.\<close>

locale nand_bits = reliable_flash +
  assumes write_bits: "k_write K m a buf = (0, m') \<Longrightarrow>
    byte_at m' x = (if a \<le> x \<and> x < a + length buf then and (byte_at m x) (buf ! (x - a)) else byte_at m x)"
begin

lemma page_write_zero:
  assumes w: "k_write K m (p * ps) buf = (0, m')" and len: "length buf = ps" and z: "flash_page byte_at ps m p = replicate ps 0"
  shows "flash_page byte_at ps m' p = replicate ps 0"
proof (rule nth_equalityI)
  fix x assume "x < length (flash_page byte_at ps m' p)"
  then have x: "x < ps" by simp
  have "byte_at m (p * ps + x) = 0" using arg_cong [OF z, of "\<lambda>l. l ! x"] x by (simp add: flash_page_def)
  then show "flash_page byte_at ps m' p ! x = replicate ps 0 ! x"
    using x len write_bits [OF w, of "p * ps + x"] by (simp add: flash_page_def)
qed simp

end

interpretation nb: nand_bits "heapsim nb bs ps" nandsim_byte "\<lambda>m. length m = nb * bs" "nb * bs"
proof
  fix m m' :: "byte list" and a buf x
  assume "k_write (heapsim nb bs ps) m a buf = (0, m')"
  then have "m' = take a m @ map2 and (take (length buf) (drop a m)) buf @ drop (a + length buf) m" "a + length buf \<le> length m"
    by (auto simp: heapsim_def nandsim_write_def split: if_splits)
  then show "nandsim_byte m' x = (if a \<le> x \<and> x < a + length buf then and (nandsim_byte m x) (buf ! (x - a)) else nandsim_byte m x)"
    by (auto simp: nandsim_byte_def nth_append)
qed

text \<open>A partition of five blocks of twelve pages, erased.\<close>

definition demo_K :: "byte list heap_kernel" where "demo_K = heapsim 5 12288 1024"
definition demo_flash :: "byte list" where "demo_flash = replicate 61440 255"

abbreviation demo_good :: "byte list \<Rightarrow> bool" where "demo_good m \<equiv> length m = 61440"

lemma demo_reliable: "reliable_flash demo_K nandsim_byte demo_good 61440"
  using rs.reliable_flash_axioms [of 5 12288 1024] by (simp add: demo_K_def)

lemma demo_bits: "nand_bits demo_K nandsim_byte demo_good 61440"
  using nb.nand_bits_axioms [of 5 12288 1024] by (simp add: demo_K_def)

lemma erased_page_int: "4 \<le> n \<Longrightarrow> bytes_int (replicate n 255) = - 1"
  by (simp add: bytes_int_def s32_def)

lemma demo_mtd: "k_get_mtd_device demo_K 0 = Some \<lparr>mtd_size = 5 * (12 * 1024), mtd_erasesize = 12 * 1024, mtd_writesize = 1024\<rparr>"
  by (simp add: demo_K_def heapsim_def nandsim_def)

end
