(* ===== verification/EraseWait.thy ===== *)
theory EraseWait
  imports KernelEnv
begin

text \<open>
  The handshake between an erase operation and the function that started it.  \<open>format\<close> starts
  an asynchronous erase and then spins: it takes \<open>format_lock\<close> with \<open>down_trylock\<close>, looks at
  \<open>format_done\<close>, releases the lock and leaves the loop once the flag is set.  The driver calls
  \<open>format_callback\<close> from its own context, which sets the flag under the same semaphore.
  The two run concurrently: a step relation over their program counters, the semaphore and
  the flag, and the invariant that makes the value read after the loop the verdict of the
  callback.
\<close>

section \<open>The two processes\<close>

text \<open>The flag \<open>format_callback\<close> stores: 1 when the erase is done, -1 otherwise.\<close>

definition callback_flag :: "erase_state \<Rightarrow> int" where
  "callback_flag st = (if st \<noteq> MTD_ERASE_DONE then - 1 else 1)"

datatype waiter_pc = W_try | W_check | W_up_loop | W_up_break | W_done
datatype callback_pc = C_idle | C_down | C_set | C_up | C_done

record handshake =
  wpc :: waiter_pc
  cpc :: callback_pc
  lock_count :: nat
  done_flag :: int
  verdict :: erase_state

text \<open>State after \<open>_erase\<close> was called: the flag was reset and the semaphore is available.\<close>

definition hs_init :: "erase_state \<Rightarrow> handshake" where
  "hs_init st = \<lparr>wpc = W_try, cpc = C_idle, lock_count = 1, done_flag = 0, verdict = st\<rparr>"

text \<open>
  One atomic action of the waiting loop or of the callback.  The driver calls the callback once an
  erase has started, as the MTD layer documents; that it may do so at any moment is all that is
  assumed of it.
\<close>

inductive hs_step :: "handshake \<Rightarrow> handshake \<Rightarrow> bool" where
  trylock_fails: "wpc s = W_try \<Longrightarrow> lock_count s = 0 \<Longrightarrow> hs_step s s"
| trylock: "wpc s = W_try \<Longrightarrow> lock_count s = Suc n \<Longrightarrow>
    hs_step s (s\<lparr>wpc := W_check, lock_count := n\<rparr>)"
| sees_set: "wpc s = W_check \<Longrightarrow> done_flag s \<noteq> 0 \<Longrightarrow> hs_step s (s\<lparr>wpc := W_up_break\<rparr>)"
| sees_unset: "wpc s = W_check \<Longrightarrow> done_flag s = 0 \<Longrightarrow> hs_step s (s\<lparr>wpc := W_up_loop\<rparr>)"
| up_loop: "wpc s = W_up_loop \<Longrightarrow>
    hs_step s (s\<lparr>wpc := W_try, lock_count := Suc (lock_count s)\<rparr>)"
| up_break: "wpc s = W_up_break \<Longrightarrow>
    hs_step s (s\<lparr>wpc := W_done, lock_count := Suc (lock_count s)\<rparr>)"
| call: "cpc s = C_idle \<Longrightarrow> hs_step s (s\<lparr>cpc := C_down\<rparr>)"
| down: "cpc s = C_down \<Longrightarrow> lock_count s = Suc n \<Longrightarrow>
    hs_step s (s\<lparr>cpc := C_set, lock_count := n\<rparr>)"
| set_flag: "cpc s = C_set \<Longrightarrow>
    hs_step s (s\<lparr>cpc := C_up, done_flag := callback_flag (verdict s)\<rparr>)"
| up: "cpc s = C_up \<Longrightarrow>
    hs_step s (s\<lparr>cpc := C_done, lock_count := Suc (lock_count s)\<rparr>)"

inductive hs_reach :: "erase_state \<Rightarrow> handshake \<Rightarrow> bool" for st where
  start: "hs_reach st (hs_init st)"
| step: "hs_reach st s \<Longrightarrow> hs_step s t \<Longrightarrow> hs_reach st t"

section \<open>The invariant\<close>

definition waiter_holds :: "handshake \<Rightarrow> bool" where
  "waiter_holds s \<longleftrightarrow> wpc s \<in> {W_check, W_up_loop, W_up_break}"

definition callback_holds :: "handshake \<Rightarrow> bool" where
  "callback_holds s \<longleftrightarrow> cpc s \<in> {C_set, C_up}"

text \<open>
  Exactly one unit of the semaphore exists: free, with the waiter or with the callback; the
  flag is the verdict exactly from the assignment on; and a waiter that saw the flag set runs
  after the callback left its critical section.
\<close>

definition hs_inv :: "erase_state \<Rightarrow> handshake \<Rightarrow> bool" where
  "hs_inv st s \<longleftrightarrow>
     lock_count s + of_bool (waiter_holds s) + of_bool (callback_holds s) = 1 \<and>
     verdict s = st \<and>
     done_flag s = (if cpc s \<in> {C_up, C_done} then callback_flag st else 0) \<and>
     (wpc s \<in> {W_up_break, W_done} \<longrightarrow> cpc s = C_done)"

lemma callback_flag_nonzero [simp]: "callback_flag st \<noteq> 0"
  by (simp add: callback_flag_def)

lemma hs_inv_init: "hs_inv st (hs_init st)"
  by (simp add: hs_inv_def hs_init_def waiter_holds_def callback_holds_def)

lemma hs_step_inv: "hs_step s t \<Longrightarrow> hs_inv st s \<Longrightarrow> hs_inv st t"
  by (induction rule: hs_step.induct)
     (auto simp: hs_inv_def waiter_holds_def callback_holds_def split: if_splits)

lemma hs_reach_inv: "hs_reach st s \<Longrightarrow> hs_inv st s"
  by (induction rule: hs_reach.induct) (auto intro: hs_inv_init hs_step_inv)

lemma hs_mutex: "hs_reach st s \<Longrightarrow> \<not> (waiter_holds s \<and> callback_holds s)"
  by (drule hs_reach_inv) (auto simp: hs_inv_def)

lemma hs_exit: "hs_reach st s \<Longrightarrow> wpc s = W_done \<Longrightarrow>
    done_flag s = callback_flag st \<and> cpc s = C_done \<and> lock_count s = 1"
  by (drule hs_reach_inv) (auto simp: hs_inv_def waiter_holds_def callback_holds_def)

section \<open>The loop can always finish\<close>

lemma hs_reach_trans: "hs_step\<^sup>*\<^sup>* s t \<Longrightarrow> hs_reach st s \<Longrightarrow> hs_reach st t"
  by (induction rule: rtranclp_induct) (auto intro: hs_reach.step)

text \<open>The waiter can always give the lock back without blocking.\<close>

lemma waiter_releases:
  assumes "hs_inv st s"
  shows "\<exists>t. hs_step\<^sup>*\<^sup>* s t \<and> wpc t \<in> {W_try, W_done} \<and> cpc t = cpc s"
proof (cases "wpc s")
  case W_check
  show ?thesis
  proof (cases "done_flag s = 0")
    case True
    let ?t = "s\<lparr>wpc := W_up_loop\<rparr>"
    have "hs_step s ?t" by (rule hs_step.sees_unset [OF W_check True])
    moreover have "hs_step ?t (?t\<lparr>wpc := W_try, lock_count := Suc (lock_count ?t)\<rparr>)"
      by (rule hs_step.up_loop) simp
    ultimately show ?thesis
      by (intro exI [of _ "?t\<lparr>wpc := W_try, lock_count := Suc (lock_count ?t)\<rparr>"])
         (auto intro: converse_rtranclp_into_rtranclp)
  next
    case False
    let ?t = "s\<lparr>wpc := W_up_break\<rparr>"
    have "hs_step s ?t" by (rule hs_step.sees_set [OF W_check False])
    moreover have "hs_step ?t (?t\<lparr>wpc := W_done, lock_count := Suc (lock_count ?t)\<rparr>)"
      by (rule hs_step.up_break) simp
    ultimately show ?thesis
      by (intro exI [of _ "?t\<lparr>wpc := W_done, lock_count := Suc (lock_count ?t)\<rparr>"])
         (auto intro: converse_rtranclp_into_rtranclp)
  qed
next
  case W_up_loop
  have "hs_step s (s\<lparr>wpc := W_try, lock_count := Suc (lock_count s)\<rparr>)"
    by (rule hs_step.up_loop [OF W_up_loop])
  then show ?thesis by (intro exI conjI) (erule r_into_rtranclp, auto)
next
  case W_up_break
  have "hs_step s (s\<lparr>wpc := W_done, lock_count := Suc (lock_count s)\<rparr>)"
    by (rule hs_step.up_break [OF W_up_break])
  then show ?thesis by (intro exI conjI) (erule r_into_rtranclp, auto)
qed auto

text \<open>From a state where the waiter does not hold the lock the callback can run to its end.\<close>

lemma callback_completes:
  assumes "hs_inv st s" and "wpc s \<in> {W_try, W_done}"
  shows "\<exists>t. hs_step\<^sup>*\<^sup>* s t \<and> wpc t = wpc s \<and> cpc t = C_done"
proof -
  have lc: "\<not> callback_holds s \<Longrightarrow> lock_count s = Suc 0"
    using assms by (auto simp: hs_inv_def waiter_holds_def)
  have up: "\<exists>t. hs_step\<^sup>*\<^sup>* u t \<and> wpc t = wpc u \<and> cpc t = C_done" if "cpc u = C_up" for u
    using hs_step.up [OF that] by (intro exI conjI) (erule r_into_rtranclp, auto)
  have st: "\<exists>t. hs_step\<^sup>*\<^sup>* u t \<and> wpc t = wpc u \<and> cpc t = C_done" if "cpc u = C_set" for u
    using hs_step.set_flag [OF that] up [of "u\<lparr>cpc := C_up, done_flag := callback_flag (verdict u)\<rparr>"]
    by (auto intro: converse_rtranclp_into_rtranclp)
  have dn: "\<exists>t. hs_step\<^sup>*\<^sup>* u t \<and> wpc t = wpc u \<and> cpc t = C_done"
    if "cpc u = C_down" "lock_count u = Suc 0" for u
    using hs_step.down [OF that] st [of "u\<lparr>cpc := C_set, lock_count := 0\<rparr>"]
    by (auto intro: converse_rtranclp_into_rtranclp)
  have ca: "\<exists>t. hs_step\<^sup>*\<^sup>* u t \<and> wpc t = wpc u \<and> cpc t = C_done"
    if "cpc u = C_idle" "lock_count u = Suc 0" for u
    using hs_step.call [OF that(1)] dn [of "u\<lparr>cpc := C_down\<rparr>"] that
    by (auto intro: converse_rtranclp_into_rtranclp)
  show ?thesis
    by (cases "cpc s") (use up st dn ca lc in \<open>auto simp: callback_holds_def\<close>)
qed

lemma waiter_exits:
  assumes "hs_inv st s" and "wpc s \<in> {W_try, W_done}" and "cpc s = C_done"
  shows "\<exists>t. hs_step\<^sup>*\<^sup>* s t \<and> wpc t = W_done"
proof (cases "wpc s = W_done")
  case False
  with assms(2) have w: "wpc s = W_try" by simp
  with assms have l: "lock_count s = Suc 0" and f: "done_flag s \<noteq> 0"
    by (auto simp: hs_inv_def waiter_holds_def callback_holds_def)
  let ?t = "s\<lparr>wpc := W_check, lock_count := 0\<rparr>"
  let ?u = "?t\<lparr>wpc := W_up_break\<rparr>"
  have "hs_step s ?t" by (rule hs_step.trylock [OF w l])
  moreover have "hs_step ?t ?u" by (rule hs_step.sees_set) (simp_all add: f)
  moreover have "hs_step ?u (?u\<lparr>wpc := W_done, lock_count := Suc (lock_count ?u)\<rparr>)"
    by (rule hs_step.up_break) simp
  ultimately show ?thesis
    by (intro exI [of _ "?u\<lparr>wpc := W_done, lock_count := Suc (lock_count ?u)\<rparr>"])
       (auto intro: converse_rtranclp_into_rtranclp)
qed auto

lemma hs_can_finish:
  assumes "hs_reach st s"
  shows "\<exists>t. hs_step\<^sup>*\<^sup>* s t \<and> wpc t = W_done"
proof -
  obtain t where t: "hs_step\<^sup>*\<^sup>* s t" "wpc t \<in> {W_try, W_done}"
    using waiter_releases [OF hs_reach_inv [OF assms]] by blast
  have rt: "hs_reach st t" by (rule hs_reach_trans [OF t(1) assms])
  obtain u where u: "hs_step\<^sup>*\<^sup>* t u" "wpc u = wpc t" "cpc u = C_done"
    using callback_completes [OF hs_reach_inv [OF rt] t(2)] by blast
  have ru: "hs_reach st u" by (rule hs_reach_trans [OF u(1) rt])
  obtain v where "hs_step\<^sup>*\<^sup>* u v" "wpc v = W_done"
    using waiter_exits [OF hs_reach_inv [OF ru]] t(2) u(2,3) by auto
  with t(1) u(1) show ?thesis
    by (meson rtranclp_trans)
qed

end
