(* ===== verification/PageFormat.thy ===== *)
theory PageFormat
  imports Prelude "HOL-Library.Sublist"
begin

text \<open>
  The page format all three prototypes share: the length of the key, the length of the value
  (both as native \<open>int\<close>s), the key and the value without terminators, then zeros.
\<close>

section \<open>Filling a page buffer\<close>

text \<open>The image of a couple in a page buffer: both lengths, the key, the value, then zeros.\<close>

definition fill_buffer :: "nat \<Rightarrow> byte list \<Rightarrow> byte list \<Rightarrow> byte list outcome" where
  "fill_buffer ps key val =
     (let buffer = replicate ps 0 in
      obind (mem_store buffer 0 (int_bytes (int (length key)))) (\<lambda>buffer.
      obind (mem_store buffer 4 (int_bytes (int (length val)))) (\<lambda>buffer.
      obind (mem_store buffer 8 key) (\<lambda>buffer.
             mem_store buffer (8 + int (length key)) val))))"

section \<open>The couple a page holds\<close>

type_synonym couple = "byte list \<times> byte list"

definition couple_ok :: "nat \<Rightarrow> couple \<Rightarrow> bool" where
  "couple_ok ps c \<longleftrightarrow> cstring (fst c) \<and> cstring (snd c) \<and> length (fst c) + length (snd c) + 8 \<le> ps"

definition couple_image :: "nat \<Rightarrow> couple \<Rightarrow> byte list" where
  "couple_image ps c = int_bytes (int (length (fst c))) @ int_bytes (int (length (snd c)))
     @ fst c @ snd c @ replicate (ps - 8 - length (fst c) - length (snd c)) 0"

lemma length_couple_image [simp, buf_simps]: "couple_ok ps c \<Longrightarrow> length (couple_image ps c) = ps"
  by (auto simp: couple_image_def couple_ok_def)

lemma fill_buffer_image:
  assumes "couple_ok ps (key, val)"
  shows "fill_buffer ps key val = Ret (couple_image ps (key, val))"
  using assms
  by (simp add: fill_buffer_def mem_store_def couple_ok_def couple_image_def nat_add_distrib
      min_def drop_append)

lemma image_key_len:
  assumes "couple_ok ps c" "ps < 2147483648"
  shows "bytes_int (couple_image ps c) = int (length (fst c))"
  using assms unfolding couple_image_def
  by (intro bytes_int_int_bytes) (auto simp: couple_ok_def)

lemma image_val_len:
  assumes "couple_ok ps c" "ps < 2147483648"
  shows "bytes_int (drop 4 (couple_image ps c)) = int (length (snd c))"
  using assms bytes_int_int_bytes [of "int (length (snd c))"]
  by (simp add: couple_image_def couple_ok_def drop_append)

lemma image_value:
  assumes "couple_ok ps c"
  shows "mem_slice (couple_image ps c) (8 + int (length (fst c))) (int (length (snd c))) = Ret (snd c)"
proof -
  have "mem_slice (couple_image ps c) (int (8 + length (fst c))) (int (length (snd c)))
      = Ret (take (length (snd c)) (drop (8 + length (fst c)) (couple_image ps c)))"
    using assms by (intro mem_slice_int) (simp add: couple_ok_def)
  then show ?thesis
    by (simp add: couple_image_def drop_append)
qed

lemma take_eq_iff_prefix: "take (length xs) ys = xs \<longleftrightarrow> prefix xs ys"
  by (metis append_eq_conv_conj prefix_def take_is_prefix)

text \<open>The comparison of \<open>get_keyval\<close> looks at the key and the value together.\<close>

lemma image_match:
  assumes "couple_ok ps c" "cstring key" "length key + 8 \<le> ps"
  shows "strncmp_eq (drop 8 (couple_image ps c)) (key @ [0]) (length key)
           = Ret (prefix key (fst c @ snd c))"
proof -
  define z where "z = ps - 8 - length (fst c) - length (snd c)"
  have d: "drop 8 (couple_image ps c) = fst c @ snd c @ replicate z 0"
    by (simp add: couple_image_def z_def drop_append)
  have len: "length key \<le> length (drop 8 (couple_image ps c))"
    using assms by simp
  have "take (length key) (fst c @ snd c @ replicate z 0) = key
        \<longleftrightarrow> prefix key ((fst c @ snd c) @ replicate z 0)"
    by (simp only: take_eq_iff_prefix append_assoc)
  also have "\<dots> \<longleftrightarrow> prefix key (fst c @ snd c)"
  proof
    assume p: "prefix key ((fst c @ snd c) @ replicate z 0)"
    then consider "prefix key (fst c @ snd c)"
      | us where "key = (fst c @ snd c) @ us" "prefix us (replicate z 0)" "us \<noteq> []"
      unfolding prefix_append by auto
    then show "prefix key (fst c @ snd c)"
    proof cases
      case 2
      then have "0 \<in> set us"
        by (metis hd_in_set in_set_replicate prefix_order.order_refl set_mono_prefix subsetD)
      with 2 assms(2) show ?thesis by (simp add: cstring_def)
    qed
  qed (rule prefix_prefix)
  finally show ?thesis
    using strncmp_eq_prefix [OF assms(2) len] d by simp
qed


section \<open>Pages that start with a couple\<close>

text \<open>The bytes of a couple, whatever follows them in the page.\<close>

definition record_bytes :: "couple \<Rightarrow> byte list" where
  "record_bytes c = int_bytes (int (length (fst c))) @ int_bytes (int (length (snd c))) @ fst c @ snd c"

definition holds_couple :: "byte list \<Rightarrow> couple \<Rightarrow> bool" where
  "holds_couple page c \<longleftrightarrow> take (length (record_bytes c)) page = record_bytes c"

lemma length_record_bytes [simp, buf_simps]: "length (record_bytes c) = 8 + length (fst c) + length (snd c)"
  by (simp add: record_bytes_def)

lemma holds_couple_split: "holds_couple page c \<longleftrightarrow> (\<exists>r. page = record_bytes c @ r)"
  unfolding holds_couple_def by (metis append_eq_conv_conj append_take_drop_id)

lemma image_holds: "holds_couple (couple_image ps c) c"
  by (auto simp: holds_couple_split couple_image_def record_bytes_def)

lemma holds_length: "holds_couple page c \<Longrightarrow> 8 + length (fst c) + length (snd c) \<le> length page"
  by (auto simp: holds_couple_split)

lemma holds_key_len: "holds_couple page c \<Longrightarrow> length (fst c) < 2147483648 \<Longrightarrow> bytes_int page = int (length (fst c))"
  by (auto simp: holds_couple_split record_bytes_def bytes_int_int_bytes)

lemma holds_val_len: "holds_couple page c \<Longrightarrow> length (snd c) < 2147483648 \<Longrightarrow> bytes_int (drop 4 page) = int (length (snd c))"
  by (auto simp: holds_couple_split record_bytes_def bytes_int_int_bytes drop_append)

lemma holds_key: "holds_couple page c \<Longrightarrow> take (length (fst c)) (drop 8 page) = fst c"
  by (auto simp: holds_couple_split record_bytes_def drop_append)

lemma holds_val: "holds_couple page c \<Longrightarrow> take (length (snd c)) (drop (8 + length (fst c)) page) = snd c"
  by (auto simp: holds_couple_split record_bytes_def drop_append)

lemma holds_slice_key: "holds_couple page c \<Longrightarrow> mem_slice page 8 (int (length (fst c))) = Ret (fst c)"
  using mem_slice_int [of 8 "length (fst c)" page] holds_length [of page c] holds_key [of page c] by simp

lemma holds_slice_val:
  "holds_couple page c \<Longrightarrow> mem_slice page (8 + int (length (fst c))) (int (length (snd c))) = Ret (snd c)"
  using mem_slice_int [of "8 + length (fst c)" "length (snd c)" page] holds_length [of page c] holds_val [of page c] by simp

lemma holds_match:
  assumes "holds_couple page c" "cstring (fst c)"
  shows "strncmp_eq (drop 8 page) (fst c @ [0]) (length (fst c)) = Ret True"
  using strncmp_eq_prefix [OF assms(2), of "drop 8 page"] holds_length [OF assms(1)] holds_key [OF assms(1)] by simp

text \<open>A page determines its couple.\<close>

lemma holds_inj:
  assumes h: "holds_couple page c" "holds_couple page c'" and len: "length page < 2147483648"
  shows "c = c'"
proof -
  have b: "length (fst c) < 2147483648" "length (snd c) < 2147483648" "length (fst c') < 2147483648" "length (snd c') < 2147483648"
    using holds_length [OF h(1)] holds_length [OF h(2)] len by simp_all
  have l: "length (fst c) = length (fst c')" "length (snd c) = length (snd c')"
    using holds_key_len [OF h(1) b(1)] holds_key_len [OF h(2) b(3)] holds_val_len [OF h(1) b(2)] holds_val_len [OF h(2) b(4)]
    by linarith+
  have "fst c = fst c'" using holds_key [OF h(1)] holds_key [OF h(2)] unfolding l by simp
  moreover have "snd c = snd c'" using holds_val [OF h(1)] holds_val [OF h(2)] unfolding l by simp
  ultimately show ?thesis by (rule prod_eqI)
qed

end
