(* ===== verification/Vanilla.thy ===== *)
theory Vanilla
  imports EraseWait PageFormat
begin

text \<open>
  The first prototype of the key-value store (\<open>p6/prototype-vanilla/kernel/core.c\<close>): a flash
  partition used as a log of pages, one key/value couple per page, with an in-memory table
  of block and page states rebuilt by a scan at load time.  One definition per function of
  the source, over the record of its global \<open>config\<close> extended with the device state.  Sizes
  and counters that the code keeps in non-negative \<open>int\<close>s are \<open>nat\<close>; \<open>current_block\<close>, which
  becomes -1 when the flash is full, and page indices are \<open>int\<close>.  Messages to the kernel log
  are left out.
\<close>

section \<open>State (core.h)\<close>

datatype blk_state = BLK_FREE | BLK_USED
datatype page_state = PG_FREE | PG_VALID

record blk_info =
  state :: blk_state
  pages_states :: "page_state list"

record 'm lkp_kv_cfg =
  mtd :: "mtd_info option"
  mtd_index :: int
  nb_blocks :: nat
  block_size :: nat
  page_size :: nat
  current_block :: int
  current_page_offset :: nat
  pages_per_block :: nat
  blocks :: "blk_info list"
  format_done :: int
  read_only :: bool
  format_lock :: nat
  flash :: 'm

text \<open>The global \<open>config\<close> when the module is loaded: static storage, all zero.\<close>

definition config0 :: "'m \<Rightarrow> 'm lkp_kv_cfg" where
  "config0 m = \<lparr>mtd = None, mtd_index = 0, nb_blocks = 0, block_size = 0, page_size = 0,
     current_block = 0, current_page_offset = 0, pages_per_block = 0, blocks = [],
     format_done = 0, read_only = False, format_lock = 0, flash = m\<rparr>"

section \<open>Pages\<close>

definition read_page :: "'m kernel \<Rightarrow> int \<Rightarrow> 'm lkp_kv_cfg \<Rightarrow> int \<times> byte list" where
  "read_page K page_index s =
     k_read K (flash s) (page_addr page_index (page_size s)) (page_size s)"

definition get_next_free_block :: "'m lkp_kv_cfg \<Rightarrow> int" where
  "get_next_free_block s =
     (case List.find (\<lambda>i. state (blocks s ! i) = BLK_FREE) [0..<nb_blocks s] of
        Some i \<Rightarrow> int i | None \<Rightarrow> - 1)"

definition get_next_page_index_to_write :: "'m lkp_kv_cfg \<Rightarrow> (int \<times> 'm lkp_kv_cfg) outcome" where
  "get_next_page_index_to_write s =
     (let s = s\<lparr>current_page_offset := current_page_offset s + 1\<rparr> in
      if page_size s = 0 then Fault
      else if current_page_offset s = block_size s div page_size s then
        let s = s\<lparr>current_block := get_next_free_block s\<rparr> in
        if current_block s = - 1 then Ret (- 1, s)
        else obind (arr_upd (blocks s) (current_block s) (\<lambda>b. b\<lparr>state := BLK_USED\<rparr>)) (\<lambda>bs.
          Ret (0, s\<lparr>blocks := bs, current_page_offset := 0\<rparr>))
      else Ret (int (current_page_offset s), s))"

text \<open>
  \<open>config.blocks[page_index / pages_per_block].pages_states[page_index % pages_per_block] =
  PG_VALID\<close>; with a negative \<open>page_index\<close> one of the two subscripts is negative.
\<close>

definition mark_valid :: "int \<Rightarrow> 'm lkp_kv_cfg \<Rightarrow> 'm lkp_kv_cfg outcome" where
  "mark_valid page_index s =
     (if page_index < 0 \<or> pages_per_block s = 0 then Fault
      else let i = nat page_index div pages_per_block s; j = nat page_index mod pages_per_block s in
        obind (arr_get (blocks s) (int i)) (\<lambda>b.
        obind (arr_upd (pages_states b) (int j) (\<lambda>_. PG_VALID)) (\<lambda>ps.
          Ret (s\<lparr>blocks := (blocks s)[i := b\<lparr>pages_states := ps\<rparr>]\<rparr>))))"

definition write_page :: "'m kernel \<Rightarrow> int \<Rightarrow> byte list \<Rightarrow> 'm lkp_kv_cfg \<Rightarrow> (int \<times> 'm lkp_kv_cfg) outcome" where
  "write_page K page_index buf s =
     (if read_only s then Ret (- 1, s)
      else case k_write K (flash s) (page_addr page_index (page_size s)) buf of (ret, m) \<Rightarrow>
        let s = s\<lparr>flash := m\<rparr> in
        if ret \<noteq> 0 then Ret (- 2, s)
        else obind (mark_valid page_index s) (\<lambda>s.
             obind (get_next_page_index_to_write s) (\<lambda>(r, s).
               if r = - 1 then Ret (- 1, s\<lparr>read_only := True\<rparr>) else Ret (0, s))))"

section \<open>Loading the module\<close>

text \<open>
  One pass of the scan over the pages \<open>j, j + 1, \<dots>\<close> of block \<open>i\<close>: it stops at the first page
  that starts with ones.  \<open>None\<close>: a read failed.
\<close>

function scan_block :: "'m kernel \<Rightarrow> nat \<Rightarrow> nat \<Rightarrow> 'm lkp_kv_cfg \<Rightarrow> 'm lkp_kv_cfg option" where
  "scan_block K i j s =
     (if pages_per_block s \<le> j then Some s
      else case read_page K (int (i * pages_per_block s + j)) s of (ret, buffer) \<Rightarrow>
        if ret \<noteq> 0 then None
        else if bytes_int buffer = - 1 then Some s
        else let b = blocks s ! i;
                 s = s\<lparr>blocks := (blocks s)[i := b\<lparr>state := BLK_USED, pages_states := (pages_states b)[j := PG_VALID]\<rparr>]\<rparr>;
                 s = (if i = nb_blocks s - 1 \<and> j = pages_per_block s - 1 then s\<lparr>read_only := True\<rparr> else s)
             in scan_block K i (Suc j) s)"
  by pat_completeness auto
termination
  by (relation "measure (\<lambda>(K, i, j, s). pages_per_block s - j)") (auto simp: Let_def)

declare scan_block.simps [simp del]

fun scan_blocks :: "'m kernel \<Rightarrow> nat list \<Rightarrow> 'm lkp_kv_cfg \<Rightarrow> 'm lkp_kv_cfg option" where
  "scan_blocks K [] s = Some s"
| "scan_blocks K (i # is) s =
     (case scan_block K i 0 s of None \<Rightarrow> None | Some s \<Rightarrow> scan_blocks K is s)"

text \<open>A failed allocation is dereferenced without a check.\<close>

definition init_scan :: "'m kernel \<Rightarrow> 'm lkp_kv_cfg \<Rightarrow> (int \<times> 'm lkp_kv_cfg) outcome" where
  "init_scan K s =
     (if \<not> k_alloc K (flash s) (page_size s) \<or> \<not> k_alloc K (flash s) (nb_blocks s * 16)
         \<or> (0 < nb_blocks s \<and> \<not> k_alloc K (flash s) (pages_per_block s * 4)) then Fault
      else let s = s\<lparr>blocks := replicate (nb_blocks s)
                       \<lparr>state = BLK_FREE, pages_states = replicate (pages_per_block s) PG_FREE\<rparr>\<rparr> in
        case scan_blocks K [0..<nb_blocks s] s of
          None \<Rightarrow> Ret (- 1, s\<lparr>blocks := []\<rparr>)
        | Some s \<Rightarrow> Ret (0, s))"

definition init_config :: "'m kernel \<Rightarrow> int \<Rightarrow> 'm lkp_kv_cfg \<Rightarrow> (int \<times> 'm lkp_kv_cfg) outcome" where
  "init_config K idx s =
     (if idx = - 1 then Ret (- 1, s)
      else let s = s\<lparr>format_done := 0, read_only := False, mtd_index := idx,
                     mtd := k_get_mtd_device K idx\<rparr> in
      case mtd s of
        None \<Rightarrow> Ret (- 1, s)
      | Some mt \<Rightarrow>
          if mtd_writesize mt = 0 \<or> mtd_erasesize mt = 0 then Fault
          else let s = s\<lparr>block_size := nat (s32 (int (mtd_erasesize mt))),
                         page_size := nat (s32 (int (mtd_writesize mt)))\<rparr>;
                   s = s\<lparr>pages_per_block := block_size s div page_size s,
                         nb_blocks := nat (s32 (int (mtd_size mt div mtd_erasesize mt))),
                         format_lock := 1\<rparr>
               in obind (init_scan K s) (\<lambda>(r, s). if r \<noteq> 0 then Ret (- 1, s) else Ret (0, s)))"

definition destroy_config :: "'m lkp_kv_cfg \<Rightarrow> 'm lkp_kv_cfg" where
  "destroy_config s = s\<lparr>mtd := None, blocks := []\<rparr>"

section \<open>Format\<close>

definition format_callback :: "erase_state \<Rightarrow> 'm lkp_kv_cfg \<Rightarrow> 'm lkp_kv_cfg" where
  "format_callback st s =
     (if st \<noteq> MTD_ERASE_DONE then s\<lparr>format_done := - 1\<rparr> else s\<lparr>format_done := 1\<rparr>)"

definition format :: "'m kernel \<Rightarrow> 'm lkp_kv_cfg \<Rightarrow> (int \<times> 'm lkp_kv_cfg) outcome" where
  "format K s =
     (let s = s\<lparr>format_done := 0\<rparr> in
      case k_erase K (flash s) 0 (block_size s * nb_blocks s) of (ret, cb, m) \<Rightarrow>
        let s = s\<lparr>flash := m\<rparr> in
        if ret \<noteq> 0 then Ret (- 1, s)
        else case cb of None \<Rightarrow> Hang
        | Some st \<Rightarrow>
          let s = format_callback st s in
          if format_done s = - 1 then Ret (- 1, s)
          else let s = s\<lparr>blocks := map (\<lambda>b. b\<lparr>state := BLK_FREE,
                             pages_states := map (\<lambda>_. PG_FREE) (pages_states b)\<rparr>) (blocks s),
                         current_block := 0, current_page_offset := 0\<rparr>
               in obind (arr_upd (blocks s) 0 (\<lambda>b. b\<lparr>state := BLK_USED\<rparr>)) (\<lambda>bs.
                    Ret (0, s\<lparr>blocks := bs, read_only := False\<rparr>)))"

section \<open>Reading and writing couples\<close>

text \<open>
  The inner loop of \<open>get_keyval\<close> over the pages \<open>js\<close> of block \<open>i\<close>.  \<open>Some (r, v)\<close>: the function
  returns \<open>r\<close> and, where \<open>v\<close> is not \<open>None\<close>, has copied that value (with its NUL) into \<open>val\<close>,
  whose capacity is a page.
\<close>

fun get_pages :: "'m kernel \<Rightarrow> byte list \<Rightarrow> 'm lkp_kv_cfg \<Rightarrow> nat \<Rightarrow> nat list \<Rightarrow> (int \<times> byte list option) option outcome" where
  "get_pages K key s i [] = Ret None"
| "get_pages K key s i (j # js) =
     (if pages_states (blocks s ! i) ! j = PG_VALID then
        let p = int (i * pages_per_block s + j) in
        case read_page K p s of (ret, buffer) \<Rightarrow>
        if ret \<noteq> 0 then Ret (Some (- 2, None))
        else
          let key_len = bytes_int buffer; val_len = bytes_int (drop 4 buffer) in
          if key_len \<noteq> - 1 then
            obind (strncmp_eq (drop 8 buffer) (key @ [0]) (length key)) (\<lambda>eq.
            if eq then
              obind (mem_slice buffer (8 + key_len) val_len) (\<lambda>v.
              if int (page_size s) \<le> val_len then Fault
              else Ret (Some (p, Some v)))
            else get_pages K key s i js)
          else get_pages K key s i js
      else get_pages K key s i js)"

fun get_blocks :: "'m kernel \<Rightarrow> byte list \<Rightarrow> 'm lkp_kv_cfg \<Rightarrow> nat list \<Rightarrow> (int \<times> byte list option) outcome" where
  "get_blocks K key s [] = Ret (- 1, None)"
| "get_blocks K key s (i # is) =
     (if state (blocks s ! i) = BLK_USED then
        obind (get_pages K key s i [0..<pages_per_block s]) (\<lambda>r.
          case r of Some x \<Rightarrow> Ret x | None \<Rightarrow> get_blocks K key s is)
      else get_blocks K key s is)"

definition get_keyval :: "'m kernel \<Rightarrow> byte list \<Rightarrow> 'm lkp_kv_cfg \<Rightarrow> (int \<times> byte list option) outcome" where
  "get_keyval K key s =
     (if \<not> k_alloc K (flash s) (page_size s) then Fault
      else get_blocks K key s [0..<nb_blocks s])"

definition set_keyval :: "'m kernel \<Rightarrow> byte list \<Rightarrow> byte list \<Rightarrow> 'm lkp_kv_cfg \<Rightarrow> (int \<times> 'm lkp_kv_cfg) outcome" where
  "set_keyval K key val s =
     (if length key + length val + 8 > page_size s then Ret (- 1, s)
      else if \<not> k_alloc K (flash s) (page_size s) then Fault
      else obind (get_keyval K key s) (\<lambda>(ret, _).
        if 0 \<le> ret then Ret (- 2, s)
        else obind (fill_buffer (page_size s) key val) (\<lambda>buffer.
             obind (write_page K (current_block s * int (pages_per_block s)
                                  + int (current_page_offset s)) buffer s) (\<lambda>(ret, s).
               if ret = - 1 then Ret (- 3, s)
               else if ret = - 2 then Ret (- 4, s)
               else Ret (0, s)))))"

end
