(* ===== verification/VanillaStore.thy ===== *)
theory VanillaStore
  imports Vanilla
begin

text \<open>
  What the first prototype stores.  The abstract state is the log of couples in page order;
  \<open>store_inv\<close> says how the block and page states, the write position, the read-only flag and
  the flash contents represent it.  \<open>format\<close> establishes the empty log, \<open>set_keyval\<close> appends,
  \<open>get_keyval\<close> returns the first couple whose key-then-value bytes start with the key.
\<close>

section \<open>Abstract state\<close>

text \<open>
  Block and page numbers are \<open>int\<close>s of the code and natural numbers here: the model is of
  partitions with fewer than \<open>2 ^ 31\<close> pages.
\<close>

definition geometry :: "'m lkp_kv_cfg \<Rightarrow> bool" where
  "geometry s \<longleftrightarrow> 0 < nb_blocks s \<and> 0 < pages_per_block s \<and> 0 < page_size s \<and> page_size s < 2147483648
     \<and> block_size s = pages_per_block s * page_size s
     \<and> nb_blocks s * pages_per_block s * page_size s < 2 ^ 64"

abbreviation nb_pages :: "'m lkp_kv_cfg \<Rightarrow> nat" where
  "nb_pages s \<equiv> nb_blocks s * pages_per_block s"

text \<open>Two states of the same partition.\<close>

definition same_shape :: "'m lkp_kv_cfg \<Rightarrow> 'm lkp_kv_cfg \<Rightarrow> bool" where
  "same_shape s t \<longleftrightarrow> nb_blocks t = nb_blocks s \<and> pages_per_block t = pages_per_block s \<and> page_size t = page_size s"

definition tables_ok :: "'m lkp_kv_cfg \<Rightarrow> bool" where
  "tables_ok s \<longleftrightarrow> length (blocks s) = nb_blocks s
     \<and> (\<forall>i < nb_blocks s. length (pages_states (blocks s ! i)) = pages_per_block s)"

text \<open>Page states and flash contents represent the log.\<close>

definition log_repr :: "('m \<Rightarrow> nat \<Rightarrow> byte) \<Rightarrow> couple list \<Rightarrow> 'm lkp_kv_cfg \<Rightarrow> bool" where
  "log_repr byte_at log s \<longleftrightarrow> length log \<le> nb_pages s
     \<and> (\<forall>i < nb_blocks s. \<forall>j < pages_per_block s. pages_states (blocks s ! i) ! j
           = (if i * pages_per_block s + j < length log then PG_VALID else PG_FREE))
     \<and> (\<forall>p < length log. couple_ok (page_size s) (log ! p)
           \<and> flash_page byte_at (page_size s) (flash s) p = couple_image (page_size s) (log ! p))
     \<and> (\<forall>p. length log \<le> p \<and> p < nb_pages s \<longrightarrow>
           flash_page byte_at (page_size s) (flash s) p = replicate (page_size s) 255)"

text \<open>The write position is the first page after the log; a full store is read-only.\<close>

definition position_ok :: "nat \<Rightarrow> 'm lkp_kv_cfg \<Rightarrow> bool" where
  "position_ok n s \<longleftrightarrow>
     (if n < nb_pages s
      then \<not> read_only s \<and> current_block s = int (n div pages_per_block s)
           \<and> current_page_offset s = n mod pages_per_block s
           \<and> (\<forall>i < nb_blocks s. state (blocks s ! i)
                = (if i \<le> n div pages_per_block s then BLK_USED else BLK_FREE))
      else read_only s \<and> (\<forall>i < nb_blocks s. state (blocks s ! i) = BLK_USED))"

definition store_inv :: "('m \<Rightarrow> nat \<Rightarrow> byte) \<Rightarrow> couple list \<Rightarrow> 'm lkp_kv_cfg \<Rightarrow> bool" where
  "store_inv byte_at log s \<longleftrightarrow>
     geometry s \<and> tables_ok s \<and> log_repr byte_at log s \<and> position_ok (length log) s"

text \<open>The kernel services do not fail: memory is available and the pages of the partition are readable.\<close>

definition services_ok :: "'m kernel \<Rightarrow> 'm lkp_kv_cfg \<Rightarrow> bool" where
  "services_ok K s \<longleftrightarrow> k_alloc K (flash s) (page_size s)
     \<and> (\<forall>p < nb_pages s. fst (read_page K (int p) s) = 0)"

section \<open>Lookup\<close>

text \<open>The couple \<open>get_keyval\<close> finds: the first page whose bytes after the lengths start with the key.\<close>

definition log_find :: "byte list \<Rightarrow> couple list \<Rightarrow> nat option" where
  "log_find key log = List.find (\<lambda>p. prefix key (fst (log ! p) @ snd (log ! p))) [0..<length log]"

definition get_result :: "byte list \<Rightarrow> couple list \<Rightarrow> int \<times> byte list option" where
  "get_result key log = (case log_find key log of None \<Rightarrow> (- 1, None) | Some p \<Rightarrow> (int p, Some (snd (log ! p))))"

lemma find_map: "List.find P (map f xs) = map_option f (List.find (\<lambda>x. P (f x)) xs)"
  by (induction xs) simp_all

lemma find_concat:
  "List.find P (concat xss) = (case List.find (\<lambda>xs. \<exists>x \<in> set xs. P x) xss of None \<Rightarrow> None | Some xs \<Rightarrow> List.find P xs)"
proof (induction xss)
  case (Cons xs xss)
  have "List.find P xs = None \<longleftrightarrow> \<not> (\<exists>x \<in> set xs. P x)"
    by (auto simp: find_None_iff)
  with Cons show ?case by (auto simp: find_append split: option.splits)
qed simp

lemma concat_pages: "concat (map (\<lambda>i. map (\<lambda>j. i * q + j) [0..<q]) [0..<nb]) = [0..<nb * (q::nat)]"
proof (induction nb)
  case (Suc nb)
  have "map (\<lambda>j. nb * q + j) [0..<q] = [nb * q..<nb * q + q]"
    using map_add_upt [of "nb * q" q] by (simp add: add.commute)
  with Suc show ?case
    using upt_add_eq_append [of 0 "nb * q" q] by (simp add: add.commute)
qed simp

lemma find_upt_restrict: "n \<le> N \<Longrightarrow> List.find (\<lambda>p. p < n \<and> P p) [0..<N] = List.find P [0..<n]"
proof -
  assume "n \<le> N"
  then have "[0..<N] = [0..<n] @ [n..<N]"
    using upt_add_eq_append [of 0 n "N - n"] by simp
  moreover have "List.find (\<lambda>p. p < n \<and> P p) [n..<N] = None"
    by (auto simp: find_None_iff)
  moreover have "List.find (\<lambda>p. p < n \<and> P p) [0..<n] = List.find P [0..<n]"
    by (intro find_cong) auto
  ultimately show ?thesis by (simp add: find_append split: option.splits)
qed

lemma read_page_flash:
  assumes "nand_flash K byte_at" and "geometry s" and "services_ok K s" and "p < nb_pages s"
  shows "read_page K (int p) s = (0, flash_page byte_at (page_size s) (flash s) p)"
proof -
  have "p * page_size s \<le> nb_pages s * page_size s"
    using assms(4) by (intro mult_le_mono1) simp
  also have "\<dots> < 2 ^ 64" using assms(2) by (simp add: geometry_def)
  finally have addr: "page_addr (int p) (page_size s) = p * page_size s"
    by (rule page_addr_eq)
  have "fst (read_page K (int p) s) = 0" using assms(3,4) by (simp add: services_ok_def)
  then obtain buf where b: "read_page K (int p) s = (0, buf)"
    by (metis surjective_pairing)
  then have "k_read K (flash s) (p * page_size s) (page_size s) = (0, buf)"
    by (simp add: read_page_def addr)
  then have "buf = flash_page byte_at (page_size s) (flash s) p"
    by (rule nand_flash.page_read [OF assms(1)])
  with b show ?thesis by simp
qed

text \<open>Scanning pages of one block.\<close>

lemma get_pages_find:
  assumes nf: "nand_flash K byte_at" and g: "geometry s" and sv: "services_ok K s"
    and lr: "log_repr byte_at log s" and i: "i < nb_blocks s"
    and key: "cstring key" "length key + 8 \<le> page_size s"
    and js: "set js \<subseteq> {..<pages_per_block s}"
  shows "get_pages K key s i js =
    Ret (map_option (\<lambda>p. (int p, Some (snd (log ! p))))
      (List.find (\<lambda>p. p < length log \<and> prefix key (fst (log ! p) @ snd (log ! p)))
        (map (\<lambda>j. i * pages_per_block s + j) js)))"
  using js
proof (induction js)
  case (Cons j js)
  let ?p = "i * pages_per_block s + j"
  have j: "j < pages_per_block s" using Cons.prems by simp
  have pn: "?p < nb_pages s" using page_lt [OF i j] .
  have ps: "page_size s < 2147483648" using g by (simp add: geometry_def)
  have rd: "read_page K (int ?p) s = (0, flash_page byte_at (page_size s) (flash s) ?p)"
    by (rule read_page_flash [OF nf g sv pn])
  have IH: "get_pages K key s i js =
    Ret (map_option (\<lambda>p. (int p, Some (snd (log ! p))))
      (List.find (\<lambda>p. p < length log \<and> prefix key (fst (log ! p) @ snd (log ! p)))
        (map (\<lambda>j. i * pages_per_block s + j) js)))"
    using Cons by simp
  show ?case
  proof (cases "?p < length log")
    case False
    then have "pages_states (blocks s ! i) ! j = PG_FREE"
      using lr i j by (simp add: log_repr_def)
    with False IH show ?thesis by simp
  next
    case True
    let ?c = "log ! ?p"
    have v: "pages_states (blocks s ! i) ! j = PG_VALID"
      using True lr i j by (simp add: log_repr_def)
    have ok: "couple_ok (page_size s) ?c"
      and im: "flash_page byte_at (page_size s) (flash s) ?p = couple_image (page_size s) ?c"
      using True lr by (auto simp: log_repr_def)
    have vl: "\<not> int (page_size s) \<le> int (length (snd ?c))"
      using ok by (auto simp: couple_ok_def)
    show ?thesis
      using True v rd im IH vl image_key_len [OF ok ps] image_val_len [OF ok ps]
        image_value [OF ok] image_match [OF ok key]
      by (auto simp: Let_def)
  qed
qed simp

text \<open>Scanning blocks: every page of the log lies in a block marked used.\<close>

definition log_blocks_used :: "nat \<Rightarrow> 'm lkp_kv_cfg \<Rightarrow> bool" where
  "log_blocks_used n s \<longleftrightarrow> (\<forall>i < nb_blocks s. i * pages_per_block s < n \<longrightarrow> state (blocks s ! i) = BLK_USED)"

lemma get_blocks_find:
  assumes nf: "nand_flash K byte_at" and g: "geometry s" and sv: "services_ok K s"
    and lr: "log_repr byte_at log s" and us: "log_blocks_used (length log) s"
    and key: "cstring key" "length key + 8 \<le> page_size s"
    and js: "set is \<subseteq> {..<nb_blocks s}"
  shows "get_blocks K key s is = Ret (case List.find (\<lambda>p. p < length log \<and> prefix key (fst (log ! p) @ snd (log ! p)))
      (concat (map (\<lambda>i. map (\<lambda>j. i * pages_per_block s + j) [0..<pages_per_block s]) is)) of
      None \<Rightarrow> (- 1, None) | Some p \<Rightarrow> (int p, Some (snd (log ! p))))"
  using js
proof (induction "is")
  case (Cons i "is")
  have i: "i < nb_blocks s" using Cons.prems by simp
  let ?P = "\<lambda>p. p < length log \<and> prefix key (fst (log ! p) @ snd (log ! p))"
  have gp: "get_pages K key s i [0..<pages_per_block s] =
    Ret (map_option (\<lambda>p. (int p, Some (snd (log ! p))))
      (List.find ?P (map (\<lambda>j. i * pages_per_block s + j) [0..<pages_per_block s])))"
    by (rule get_pages_find [OF nf g sv lr i key]) auto
  show ?case
  proof (cases "state (blocks s ! i) = BLK_USED")
    case True
    with gp Cons show ?thesis by (auto simp: find_append split: option.splits)
  next
    case False
    then have "\<not> i * pages_per_block s < length log" using us i by (auto simp: log_blocks_used_def)
    then have "List.find ?P (map (\<lambda>j. i * pages_per_block s + j) [0..<pages_per_block s]) = None"
      by (auto simp: find_None_iff)
    with False Cons show ?thesis by (simp add: find_append)
  qed
qed simp

lemma get_keyval_log:
  assumes nf: "nand_flash K byte_at" and g: "geometry s" and sv: "services_ok K s"
    and lr: "log_repr byte_at log s" and us: "log_blocks_used (length log) s"
    and key: "cstring key" "length key + 8 \<le> page_size s"
  shows "get_keyval K key s = Ret (get_result key log)"
proof -
  have "length log \<le> nb_pages s" using lr by (simp add: log_repr_def)
  then show ?thesis
    using get_blocks_find [OF nf g sv lr us key, of "[0..<nb_blocks s]"] sv
    by (simp add: get_keyval_def services_ok_def concat_pages find_upt_restrict get_result_def log_find_def
        lessThan_atLeast0)
qed

lemma store_inv_blocks_used: "store_inv byte_at log s \<Longrightarrow> log_blocks_used (length log) s"
proof -
  assume inv: "store_inv byte_at log s"
  have "i \<le> length log div pages_per_block s" if "i * pages_per_block s < length log" for i
    using that inv by (simp add: less_eq_div_iff_mult_less_eq store_inv_def geometry_def)
  with inv show ?thesis
    by (auto simp: store_inv_def position_ok_def log_blocks_used_def split: if_splits)
qed

section \<open>Appending a couple\<close>

lemma find_above: "List.find (\<lambda>i. b < i) [0..<nb] = (if Suc b < nb then Some (Suc b) else None)"
proof (cases "Suc b < nb")
  case True
  then have "[0..<nb] = [0..<Suc b] @ Suc b # [Suc (Suc b)..<nb]"
    using upt_add_eq_append [of 0 "Suc b" "nb - Suc b"] by (simp add: upt_conv_Cons del: upt_Suc)
  moreover have "List.find (\<lambda>i. b < i) [0..<Suc b] = None"
    by (auto simp: find_None_iff)
  ultimately show ?thesis using True by (simp add: find_append del: upt_Suc)
next
  case False
  then show ?thesis by (auto simp: find_None_iff)
qed

lemma get_next_free_block_pos:
  assumes "\<forall>i < nb_blocks s. state (blocks s ! i) = (if i \<le> b then BLK_USED else BLK_FREE)"
  shows "get_next_free_block s = (if Suc b < nb_blocks s then int (Suc b) else - 1)"
proof -
  have "List.find (\<lambda>i. state (blocks s ! i) = BLK_FREE) [0..<nb_blocks s] = List.find (\<lambda>i. b < i) [0..<nb_blocks s]"
    by (rule find_cong) (use assms in \<open>auto split: if_splits\<close>)
  then show ?thesis by (simp add: get_next_free_block_def find_above)
qed

lemma tables_ok_cong:
  "map (length \<circ> pages_states) (blocks t) = map (length \<circ> pages_states) (blocks s) \<Longrightarrow> nb_blocks t = nb_blocks s \<Longrightarrow>
   pages_per_block t = pages_per_block s \<Longrightarrow> tables_ok t = tables_ok s"
  by (auto simp: tables_ok_def list_eq_iff_nth_eq)

lemma log_repr_cong:
  assumes "map pages_states (blocks t) = map pages_states (blocks s)" and "tables_ok s"
    and "nb_blocks t = nb_blocks s" "pages_per_block t = pages_per_block s" "page_size t = page_size s"
    and "flash t = flash s"
  shows "log_repr byte_at log t = log_repr byte_at log s"
proof -
  have "pages_states (blocks t ! i) = pages_states (blocks s ! i)" if "i < nb_blocks s" for i
    using that assms(1,2) by (metis nth_map length_map tables_ok_def)
  then show ?thesis using assms(3-) by (simp add: log_repr_def)
qed

text \<open>What moving the write position changes: block states and the position, never the tables or the flash.\<close>

definition position_frame :: "'m lkp_kv_cfg \<Rightarrow> 'm lkp_kv_cfg \<Rightarrow> bool" where
  "position_frame s t \<longleftrightarrow> map pages_states (blocks t) = map pages_states (blocks s) \<and> nb_blocks t = nb_blocks s
     \<and> pages_per_block t = pages_per_block s \<and> page_size t = page_size s \<and> block_size t = block_size s \<and> flash t = flash s"

lemma position_frame_keeps:
  assumes "position_frame s t" and "geometry s" and "tables_ok s" and "log_repr byte_at log s"
  shows "geometry t \<and> tables_ok t \<and> log_repr byte_at log t"
proof -
  have m: "map pages_states (blocks t) = map pages_states (blocks s)"
    using assms(1) by (simp add: position_frame_def)
  then have "map (length \<circ> pages_states) (blocks t) = map (length \<circ> pages_states) (blocks s)"
    by (metis map_map)
  with m show ?thesis
    using assms tables_ok_cong log_repr_cong [OF m, of byte_at log]
    by (auto simp: position_frame_def geometry_def)
qed

lemma map_pages_states_upd: "map pages_states (bs[i := (bs ! i)\<lparr>state := x\<rparr>]) = map pages_states bs"
  using map_update [of pages_states bs i "bs ! i"] by (simp add: map_update)

lemma advance_position:
  assumes g: "geometry s" and t: "tables_ok s" and n: "n < nb_pages s" and pos: "position_ok n s"
  obtains r s' where "get_next_page_index_to_write s = Ret (r, s')" and "r = - 1 \<longleftrightarrow> Suc n = nb_pages s"
    and "position_frame s s'" and "position_ok (Suc n) (if r = - 1 then s'\<lparr>read_only := True\<rparr> else s')"
proof -
  let ?q = "pages_per_block s" and ?b = "n div pages_per_block s"
  have q: "0 < ?q" and bs: "block_size s div page_size s = ?q" and ps: "0 < page_size s"
    using g by (auto simp: geometry_def)
  have cb: "current_block s = int ?b" and off: "current_page_offset s = n mod ?q" and ro: "\<not> read_only s"
    and st: "\<forall>i < nb_blocks s. state (blocks s ! i) = (if i \<le> ?b then BLK_USED else BLK_FREE)"
    using pos n by (auto simp: position_ok_def)
  have blt: "?b < nb_blocks s" using n by (simp add: div_less_iff_less_mult q)
  show thesis
  proof (cases "Suc (n mod ?q) = ?q")
    case False
    then have d: "Suc n div ?q = ?b" and m: "Suc n mod ?q = Suc (n mod ?q)"
      by (simp_all add: div_Suc mod_Suc)
    have "Suc n \<noteq> nb_pages s"
      using m by (metis Zero_not_Suc mod_mult_self2_is_0)
    with n have "Suc n < nb_pages s" by simp
    then show thesis
      using False d m off ps bs cb st ro
      by (intro that [of "int (Suc (n mod ?q))" "s\<lparr>current_page_offset := Suc (n mod ?q)\<rparr>"])
         (simp_all add: get_next_page_index_to_write_def position_frame_def position_ok_def)
  next
    case True
    then have d: "Suc n div ?q = Suc ?b" and m: "Suc n mod ?q = 0"
      by (simp_all add: div_Suc mod_Suc)
    have sn: "Suc n = Suc ?b * ?q" using d m by (metis add_0_right div_mod_decomp)
    let ?s = "s\<lparr>current_page_offset := Suc (n mod ?q)\<rparr>"
    have fb: "get_next_free_block ?s = (if Suc ?b < nb_blocks s then int (Suc ?b) else - 1)"
      using get_next_free_block_pos [of ?s ?b] st by simp
    show thesis
    proof (cases "Suc ?b < nb_blocks s")
      case True
      then have lt: "Suc n < nb_pages s" unfolding sn by (rule mult_less_mono1 [OF _ q])
      let ?bs = "(blocks s)[Suc ?b := (blocks s ! Suc ?b)\<lparr>state := BLK_USED\<rparr>]"
      let ?t = "?s\<lparr>current_block := int (Suc ?b), blocks := ?bs, current_page_offset := 0\<rparr>"
      have len: "Suc ?b < length (blocks s)" using True t by (simp add: tables_ok_def)
      have "get_next_page_index_to_write s = Ret (0, ?t)"
        using \<open>Suc (n mod ?q) = ?q\<close> off ps bs fb True arr_upd_int [OF len, of "\<lambda>b. b\<lparr>state := BLK_USED\<rparr>"]
        by (simp add: get_next_page_index_to_write_def)
      moreover have "position_ok (Suc n) ?t"
        using lt d m ro st len by (auto simp: position_ok_def nth_list_update le_Suc_eq)
      ultimately show thesis
        using lt by (intro that [of 0 ?t]) (auto simp: position_frame_def map_pages_states_upd)
    next
      case False
      then have nb: "nb_blocks s = Suc ?b" using blt by simp
      then have eq: "Suc n = nb_pages s" using sn by simp
      have "get_next_page_index_to_write s = Ret (- 1, ?s\<lparr>current_block := - 1\<rparr>)"
        using \<open>Suc (n mod ?q) = ?q\<close> off ps bs fb False by (simp add: get_next_page_index_to_write_def)
      then show thesis
        using eq st nb by (intro that [of "- 1" "?s\<lparr>current_block := - 1\<rparr>"])
          (auto simp: position_frame_def position_ok_def)
    qed
  qed
qed

lemma mark_valid_eq:
  assumes "tables_ok s" and "p < nb_pages s" and "0 < pages_per_block s"
  shows "mark_valid (int p) s = Ret (s\<lparr>blocks := (blocks s)[p div pages_per_block s :=
      (blocks s ! (p div pages_per_block s))\<lparr>pages_states :=
        (pages_states (blocks s ! (p div pages_per_block s)))[p mod pages_per_block s := PG_VALID]\<rparr>]\<rparr>)"
proof -
  have "p div pages_per_block s < nb_blocks s" using assms by (simp add: div_less_iff_less_mult)
  with assms show ?thesis by (simp add: mark_valid_def tables_ok_def Let_def)
qed

text \<open>Marking the page after the log and storing the couple there extends the log.\<close>

lemma log_repr_append:
  assumes lr: "log_repr byte_at log s" and t: "tables_ok s" and n: "length log < nb_pages s"
    and q: "0 < pages_per_block s" and ok: "couple_ok (page_size s) c"
    and same: "flash_page byte_at (page_size s) m (length log) = couple_image (page_size s) c"
    and oth: "\<And>p. p \<noteq> length log \<Longrightarrow> flash_page byte_at (page_size s) m p = flash_page byte_at (page_size s) (flash s) p"
    and mv: "mark_valid (int (length log)) (s\<lparr>flash := m\<rparr>) = Ret t"
  shows "log_repr byte_at (log @ [c]) t" and "tables_ok t"
proof -
  let ?q = "pages_per_block s" and ?n = "length log"
  let ?i = "?n div ?q" and ?j = "?n mod ?q"
  have i: "?i < nb_blocks s" using n q by (simp add: div_less_iff_less_mult)
  have eq: "t = s\<lparr>flash := m, blocks := (blocks s)[?i := (blocks s ! ?i)\<lparr>pages_states :=
        (pages_states (blocks s ! ?i))[?j := PG_VALID]\<rparr>]\<rparr>"
    using mv mark_valid_eq [of "s\<lparr>flash := m\<rparr>" ?n] t n q by (simp add: tables_ok_def)
  show "tables_ok t"
    using t i by (auto simp: eq tables_ok_def nth_list_update)
  have pg: "pages_states (blocks t ! i') ! j'
        = (if i' * ?q + j' < Suc ?n then PG_VALID else PG_FREE)" if "i' < nb_blocks s" "j' < ?q" for i' j'
  proof -
    have "i' * ?q + j' = ?n \<longleftrightarrow> i' = ?i \<and> j' = ?j"
      using page_inj [of j' ?q ?j i' ?i] that q by simp
    then show ?thesis
      using that lr t i q by (auto simp: eq tables_ok_def log_repr_def nth_list_update less_Suc_eq)
  qed
  show "log_repr byte_at (log @ [c]) t"
    using lr n pg ok same oth by (auto simp: log_repr_def eq nth_append less_Suc_eq)
qed

lemma write_page_appends:
  assumes nf: "nand_flash K byte_at" and inv: "store_inv byte_at log s" and n: "length log < nb_pages s"
    and ok: "couple_ok (page_size s) c"
    and w: "k_write K (flash s) (page_addr (int (length log)) (page_size s)) (couple_image (page_size s) c) = (0, m)"
  obtains s' where
    "write_page K (int (length log)) (couple_image (page_size s) c) s
       = Ret (if Suc (length log) = nb_pages s then - 1 else 0, s')"
    and "store_inv byte_at (log @ [c]) s'" and "same_shape s s'"
proof -
  let ?n = "length log" and ?ps = "page_size s"
  have g: "geometry s" and t: "tables_ok s" and lr: "log_repr byte_at log s" and pos: "position_ok ?n s"
    using inv by (auto simp: store_inv_def)
  have q: "0 < pages_per_block s" using g by (simp add: geometry_def)
  have ro: "\<not> read_only s" using pos n by (simp add: position_ok_def)
  have "?n * ?ps \<le> nb_pages s * ?ps" using n by (intro mult_le_mono1) simp
  also have "\<dots> < 2 ^ 64" using g by (simp add: geometry_def)
  finally have addr: "page_addr (int ?n) ?ps = ?n * ?ps" by (rule page_addr_eq)
  have er: "flash_page byte_at ?ps (flash s) ?n = replicate ?ps 255"
    using lr n by (simp add: log_repr_def)
  have same: "flash_page byte_at ?ps m ?n = couple_image ?ps c"
    by (rule nand_flash.page_write_same [OF nf w [unfolded addr] _ er]) (simp add: ok)
  have oth: "flash_page byte_at ?ps m p = flash_page byte_at ?ps (flash s) p" if "p \<noteq> ?n" for p
    by (rule nand_flash.page_write_other [OF nf w [unfolded addr] _ er that]) (simp add: ok)
  obtain u where u: "mark_valid (int ?n) (s\<lparr>flash := m\<rparr>) = Ret u"
    using mark_valid_eq [of "s\<lparr>flash := m\<rparr>" ?n] t n q by (simp add: tables_ok_def)
  note lr' = log_repr_append [OF lr t n q ok same oth u]
  have i: "?n div pages_per_block s < nb_blocks s" using n q by (simp add: div_less_iff_less_mult)
  have g': "geometry u" and pos': "position_ok ?n u" and nb: "nb_pages u = nb_pages s" and sh: "same_shape s u"
    using u mark_valid_eq [of "s\<lparr>flash := m\<rparr>" ?n] t n q g pos i
    by (auto simp: tables_ok_def geometry_def position_ok_def same_shape_def nth_list_update)
  obtain r s' where adv: "get_next_page_index_to_write u = Ret (r, s')" "r = - 1 \<longleftrightarrow> Suc ?n = nb_pages u"
      "position_frame u s'" "position_ok (Suc ?n) (if r = - 1 then s'\<lparr>read_only := True\<rparr> else s')"
    using advance_position [OF g' lr'(2) _ pos'] n nb by auto
  let ?t = "if r = - 1 then s'\<lparr>read_only := True\<rparr> else s'"
  have fr: "position_frame u ?t" using adv(3) by (simp add: position_frame_def)
  from position_frame_keeps [OF fr g' lr'(2) lr'(1)] adv(4)
  have st: "store_inv byte_at (log @ [c]) ?t" by (simp add: store_inv_def)
  have wr: "write_page K (int ?n) (couple_image ?ps c) s
       = Ret (if Suc ?n = nb_pages s then - 1 else 0, ?t)"
    using ro w u adv(1,2) nb by (simp add: write_page_def)
  have "same_shape s ?t" using fr sh by (simp add: position_frame_def same_shape_def)
  then show thesis by (rule that [OF wr st])
qed

section \<open>The operations\<close>

lemma format_empty:
  assumes nf: "nand_flash K byte_at" and g: "geometry s" and t: "tables_ok s" and f: "format K s = Ret (0, s')"
  shows "store_inv byte_at [] s'" and "same_shape s s'"
proof -
  obtain cb m where e: "k_erase K (flash s) 0 (block_size s * nb_blocks s) = (0, cb, m)"
    using f by (auto simp: format_def Let_def split: prod.splits if_splits)
  with f have cb: "cb = Some MTD_ERASE_DONE"
    by (auto simp: format_def format_callback_def Let_def split: option.splits if_splits erase_state.splits)
  have nb: "0 < length (blocks s)" using g t by (auto simp: geometry_def tables_ok_def)
  define bs where "bs = map (\<lambda>b. b\<lparr>state := BLK_FREE, pages_states := map (\<lambda>_. PG_FREE) (pages_states b)\<rparr>) (blocks s)"
  have lbs: "length bs = length (blocks s)" by (simp add: bs_def)
  have eq: "s' = s\<lparr>format_done := 1, flash := m, blocks := bs[0 := (bs ! 0)\<lparr>state := BLK_USED\<rparr>],
      current_block := 0, current_page_offset := 0, read_only := False\<rparr>"
    using f e cb nb lbs arr_upd_int [of 0 bs "\<lambda>b. b\<lparr>state := BLK_USED\<rparr>"]
    by (auto simp: format_def format_callback_def bs_def)
  have er: "flash_page byte_at (page_size s) m p = replicate (page_size s) 255" if "p < nb_pages s" for p
  proof -
    have "k_erase K (flash s) (0 * (pages_per_block s * page_size s)) (nb_blocks s * (pages_per_block s * page_size s))
        = (0, Some MTD_ERASE_DONE, m)"
      using e cb g by (simp add: geometry_def mult.commute)
    from nand_flash.page_erase [OF nf this] that show ?thesis by simp
  qed
  have bsi: "state (bs ! i) = BLK_FREE" "pages_states (bs ! i) = map (\<lambda>_. PG_FREE) (pages_states (blocks s ! i))"
    if "i < nb_blocks s" for i
    using that t by (auto simp: bs_def tables_ok_def)
  show "same_shape s s'" by (simp add: eq same_shape_def)
  show "store_inv byte_at [] s'"
    using g t er bsi lbs nb
    by (auto simp: store_inv_def geometry_def tables_ok_def log_repr_def position_ok_def eq nth_list_update)
qed

text \<open>
  The specification of \<open>set_keyval\<close> on a store of \<open>N\<close> pages of \<open>ps\<close> bytes: the return code and
  the new log.  The couple that fills the last page is stored but reported as -3.
\<close>

definition log_set :: "nat \<Rightarrow> nat \<Rightarrow> couple \<Rightarrow> couple list \<Rightarrow> int \<times> couple list" where
  "log_set ps N c log =
     (if ps < length (fst c) + length (snd c) + 8 then (- 1, log)
      else if log_find (fst c) log \<noteq> None then (- 2, log)
      else if length log = N then (- 3, log)
      else (if Suc (length log) = N then - 3 else 0, log @ [c]))"

lemma set_keyval_log:
  assumes nf: "nand_flash K byte_at" and inv: "store_inv byte_at log s" and sv: "services_ok K s"
    and cs: "cstring key" "cstring val" and set: "set_keyval K key val s = Ret (r, s')" and nowr: "r \<noteq> - 4"
  shows "r = fst (log_set (page_size s) (nb_pages s) (key, val) log)
    \<and> store_inv byte_at (snd (log_set (page_size s) (nb_pages s) (key, val) log)) s' \<and> same_shape s s'"
proof (cases "page_size s < length key + length val + 8")
  case True
  with set inv show ?thesis by (simp add: set_keyval_def log_set_def same_shape_def)
next
  case False
  note big = False
  then have ok: "couple_ok (page_size s) (key, val)" and kl: "length key + 8 \<le> page_size s"
    using cs by (auto simp: couple_ok_def)
  have g: "geometry s" and lr: "log_repr byte_at log s" and pos: "position_ok (length log) s"
    using inv by (auto simp: store_inv_def)
  have al: "k_alloc K (flash s) (page_size s)" using sv by (simp add: services_ok_def)
  have get: "get_keyval K key s = Ret (get_result key log)"
    by (rule get_keyval_log [OF nf g sv lr store_inv_blocks_used [OF inv] cs(1) kl])
  show ?thesis
  proof (cases "log_find key log")
    case (Some p)
    with set big al get inv show ?thesis by (auto simp: set_keyval_def get_result_def log_set_def same_shape_def)
  next
    case None
    let ?pi = "current_block s * int (pages_per_block s) + int (current_page_offset s)"
    have wp: "obind (write_page K ?pi (couple_image (page_size s) (key, val)) s) (\<lambda>(ret, s).
               if ret = - 1 then Ret (- 3, s) else if ret = - 2 then Ret (- 4, s) else Ret (0, s)) = Ret (r, s')"
      using set big al get None fill_buffer_image [OF ok] by (simp add: set_keyval_def get_result_def)
    show ?thesis
    proof (cases "length log = nb_pages s")
      case True
      then have "read_only s" using pos by (simp add: position_ok_def)
      with wp True None big inv show ?thesis by (auto simp: write_page_def log_set_def same_shape_def)
    next
      case False
      with lr have n: "length log < nb_pages s" by (auto simp: log_repr_def)
      then have ro: "\<not> read_only s" and "?pi = int (length log div pages_per_block s) * int (pages_per_block s)
          + int (length log mod pages_per_block s)"
        using pos by (simp_all add: position_ok_def)
      then have pi: "?pi = int (length log)" by (metis div_mult_mod_eq of_nat_add of_nat_mult)
      obtain ret m where w: "k_write K (flash s) (page_addr (int (length log)) (page_size s)) (couple_image (page_size s) (key, val)) = (ret, m)"
        by (metis surj_pair)
      have "ret = 0"
      proof (rule ccontr)
        assume "ret \<noteq> 0"
        with wp ro have "r = - 4" unfolding pi by (simp add: write_page_def w)
        with nowr show False by simp
      qed
      with w obtain s'' where s'': "write_page K (int (length log)) (couple_image (page_size s) (key, val)) s
           = Ret (if Suc (length log) = nb_pages s then - 1 else 0, s'')"
          "store_inv byte_at (log @ [(key, val)]) s''" "same_shape s s''"
        using write_page_appends [OF nf inv n ok] by metis
      with wp None big False show ?thesis unfolding pi by (auto simp: log_set_def split: if_splits)
    qed
  qed
qed

text \<open>Whatever the driver answers, \<open>set_keyval\<close> returns.\<close>

lemma set_keyval_returns:
  assumes nf: "nand_flash K byte_at" and inv: "store_inv byte_at log s" and sv: "services_ok K s"
    and cs: "cstring key" "cstring val"
  obtains r s' where "set_keyval K key val s = Ret (r, s')"
proof (cases "page_size s < length key + length val + 8")
  case True
  then show thesis by (intro that) (simp add: set_keyval_def)
next
  case False
  note big = False
  then have ok: "couple_ok (page_size s) (key, val)" and kl: "length key + 8 \<le> page_size s"
    using cs by (auto simp: couple_ok_def)
  have g: "geometry s" and lr: "log_repr byte_at log s" and pos: "position_ok (length log) s"
    using inv by (auto simp: store_inv_def)
  have al: "k_alloc K (flash s) (page_size s)" using sv by (simp add: services_ok_def)
  have get: "get_keyval K key s = Ret (get_result key log)"
    by (rule get_keyval_log [OF nf g sv lr store_inv_blocks_used [OF inv] cs(1) kl])
  let ?pi = "current_block s * int (pages_per_block s) + int (current_page_offset s)"
  have "\<exists>x. write_page K ?pi (couple_image (page_size s) (key, val)) s = Ret x"
  proof (cases "length log = nb_pages s")
    case True
    then have "read_only s" using pos by (simp add: position_ok_def)
    then show ?thesis by (simp add: write_page_def)
  next
    case False
    with lr have n: "length log < nb_pages s" by (auto simp: log_repr_def)
    then have ro: "\<not> read_only s" and "?pi = int (length log div pages_per_block s) * int (pages_per_block s)
        + int (length log mod pages_per_block s)"
      using pos by (simp_all add: position_ok_def)
    then have pi: "?pi = int (length log)" by (metis div_mult_mod_eq of_nat_add of_nat_mult)
    obtain ret m where w: "k_write K (flash s) (page_addr (int (length log)) (page_size s)) (couple_image (page_size s) (key, val)) = (ret, m)"
      by (metis surj_pair)
    show ?thesis
    proof (cases "ret = 0")
      case True
      with w write_page_appends [OF nf inv n ok] show ?thesis unfolding pi by metis
    next
      case False
      with ro w show ?thesis unfolding pi by (simp add: write_page_def)
    qed
  qed
  then obtain ret u where "write_page K ?pi (couple_image (page_size s) (key, val)) s = Ret (ret, u)" by auto
  then have "\<exists>r s'. set_keyval K key val s = Ret (r, s')"
    using big al get fill_buffer_image [OF ok] by (simp add: set_keyval_def split: prod.splits)
  with that show thesis by auto
qed

section \<open>Loading a partition that holds couples\<close>

text \<open>The flash part of \<open>log_repr\<close>: what is on the partition when the module is loaded.\<close>

definition flash_repr :: "('m \<Rightarrow> nat \<Rightarrow> byte) \<Rightarrow> couple list \<Rightarrow> 'm lkp_kv_cfg \<Rightarrow> bool" where
  "flash_repr byte_at log s \<longleftrightarrow> length log \<le> nb_pages s
     \<and> (\<forall>p < length log. couple_ok (page_size s) (log ! p)
           \<and> flash_page byte_at (page_size s) (flash s) p = couple_image (page_size s) (log ! p))
     \<and> (\<forall>p. length log \<le> p \<and> p < nb_pages s \<longrightarrow>
           flash_page byte_at (page_size s) (flash s) p = replicate (page_size s) 255)"

lemma erased_key_len: "8 \<le> ps \<Longrightarrow> bytes_int (replicate ps 255) = - 1"
  by (simp add: bytes_int_def s32_def)

text \<open>The state of block \<open>i\<close> after its pages from \<open>j\<close> on were scanned, with \<open>n\<close> pages written on the partition.\<close>

definition scan_states :: "nat \<Rightarrow> nat \<Rightarrow> nat \<Rightarrow> nat \<Rightarrow> page_state list \<Rightarrow> page_state list" where
  "scan_states q n i j xs = map (\<lambda>k. if j \<le> k \<and> i * q + k < n then PG_VALID else xs ! k) [0..<q]"

definition scanned :: "nat \<Rightarrow> nat \<Rightarrow> nat \<Rightarrow> nat \<Rightarrow> blk_info \<Rightarrow> blk_info" where
  "scanned q n i j b =
     (if j < q \<and> i * q + j < n then b\<lparr>state := BLK_USED, pages_states := scan_states q n i j (pages_states b)\<rparr> else b)"

lemma scan_states_step:
  assumes "j < q" "i * q + j < n" "length xs = q"
  shows "scan_states q n i (Suc j) (xs[j := PG_VALID]) = scan_states q n i j xs"
    and "\<not> (Suc j < q \<and> i * q + Suc j < n) \<Longrightarrow> xs[j := PG_VALID] = scan_states q n i j xs"
  using assms by (auto simp: scan_states_def nth_list_update intro!: nth_equalityI)

lemma scanned_step:
  assumes "j < q" "i * q + j < n" "length (pages_states b) = q"
  shows "scanned q n i (Suc j) (b\<lparr>state := BLK_USED, pages_states := (pages_states b)[j := PG_VALID]\<rparr>) = scanned q n i j b"
  using assms scan_states_step [OF assms] by (simp add: scanned_def)

lemma scan_block_eq:
  assumes nf: "nand_flash K byte_at" and "geometry s" and "services_ok K s" and "8 \<le> page_size s"
    and "flash_repr byte_at log s" and "tables_ok s" and "i < nb_blocks s"
  shows "scan_block K i j s = Some (s\<lparr>blocks := (blocks s)[i := scanned (pages_per_block s) (length log) i j (blocks s ! i)],
      read_only := (read_only s \<or> (i = nb_blocks s - 1 \<and> j < pages_per_block s \<and> length log = nb_pages s))\<rparr>)"
  using assms(2-)
proof (induction "pages_per_block s - j" arbitrary: j s)
  case 0
  then show ?case by (simp add: scan_block.simps [of K i j s] scanned_def)
next
  case (Suc d)
  let ?q = "pages_per_block s" and ?p = "i * pages_per_block s + j" and ?n = "length log"
  have j: "j < ?q" using Suc.hyps(2) by simp
  have pn: "?p < nb_pages s" using page_lt [OF Suc.prems(6) j] .
  have rd: "read_page K (int ?p) s = (0, flash_page byte_at (page_size s) (flash s) ?p)"
    by (rule read_page_flash [OF nf Suc.prems(1,2) pn])
  show ?case
  proof (cases "?p < ?n")
    case False
    then have "flash_page byte_at (page_size s) (flash s) ?p = replicate (page_size s) 255"
      using Suc.prems(4) pn by (simp add: flash_repr_def)
    moreover have "?n \<noteq> nb_pages s" using False pn by simp
    ultimately show ?thesis
      using rd j False Suc.prems(3) by (simp add: scan_block.simps [of K i j s] scanned_def erased_key_len)
  next
    case True
    define b where "b = (blocks s ! i)\<lparr>state := BLK_USED, pages_states := (pages_states (blocks s ! i))[j := PG_VALID]\<rparr>"
    define u where "u = s\<lparr>blocks := (blocks s)[i := b],
        read_only := (read_only s \<or> (i = nb_blocks s - 1 \<and> j = ?q - 1))\<rparr>"
    have ok: "couple_ok (page_size s) (log ! ?p)"
      and im: "flash_page byte_at (page_size s) (flash s) ?p = couple_image (page_size s) (log ! ?p)"
      using True Suc.prems(4) by (auto simp: flash_repr_def)
    have "page_size s < 2147483648" using Suc.prems(1) by (simp add: geometry_def)
    then have "bytes_int (couple_image (page_size s) (log ! ?p)) \<noteq> - 1"
      using image_key_len [OF ok] by simp
    then have unf: "scan_block K i j s = scan_block K i (Suc j) u"
      using rd im j by (auto simp: scan_block.simps [of K i j s] u_def b_def Let_def)
    have lenb: "i < length (blocks s)" "length (pages_states (blocks s ! i)) = ?q"
      using Suc.prems(5,6) by (auto simp: tables_ok_def)
    have pre: "geometry u" "services_ok K u" "8 \<le> page_size u" "flash_repr byte_at log u" "tables_ok u" "i < nb_blocks u"
      using Suc.prems lenb by (auto simp: u_def b_def geometry_def services_ok_def flash_repr_def tables_ok_def
          read_page_def nth_list_update)
    have "d = pages_per_block u - Suc j" using Suc.hyps(2) by (simp add: u_def)
    note ih = Suc.hyps(1) [OF this pre]
    have sc: "scanned ?q ?n i (Suc j) b = scanned ?q ?n i j (blocks s ! i)"
      unfolding b_def by (rule scanned_step [OF j True lenb(2)])
    have last: "?n = nb_pages s" if "i = nb_blocks s - 1" "j = ?q - 1"
    proof -
      have "Suc ?p = nb_pages s"
        using that j Suc.prems(6) by (cases "nb_blocks s") (auto simp: algebra_simps)
      with True Suc.prems(4) show ?thesis by (simp add: flash_repr_def)
    qed
    have ro: "(read_only u \<or> (i = nb_blocks s - 1 \<and> Suc j < ?q \<and> ?n = nb_pages s))
        \<longleftrightarrow> (read_only s \<or> (i = nb_blocks s - 1 \<and> j < ?q \<and> ?n = nb_pages s))"
      using last j by (auto simp: u_def)
    show ?thesis
      unfolding unf ih using lenb sc ro by (auto simp: u_def)
  qed
qed

lemma scan_blocks_eq:
  assumes nf: "nand_flash K byte_at" and "geometry s" and "services_ok K s" and "8 \<le> page_size s"
    and "flash_repr byte_at log s" and "tables_ok s"
  shows "scan_blocks K [k..<nb_blocks s] s = Some (s\<lparr>blocks := map (\<lambda>i. if k \<le> i
        then scanned (pages_per_block s) (length log) i 0 (blocks s ! i) else blocks s ! i) [0..<nb_blocks s],
      read_only := (read_only s \<or> (k < nb_blocks s \<and> length log = nb_pages s))\<rparr>)"
  using assms(2-)
proof (induction "nb_blocks s - k" arbitrary: k s)
  case 0
  then have "map (\<lambda>i. blocks s ! i) [0..<nb_blocks s] = blocks s"
    by (metis map_nth tables_ok_def)
  moreover have "map (\<lambda>i. if k \<le> i then scanned (pages_per_block s) (length log) i 0 (blocks s ! i) else blocks s ! i) [0..<nb_blocks s]
      = map (\<lambda>i. blocks s ! i) [0..<nb_blocks s]"
    using "0.hyps" by auto
  ultimately show ?case using "0.hyps" by simp
next
  case (Suc d)
  let ?q = "pages_per_block s" and ?n = "length log"
  have k: "k < nb_blocks s" using Suc.hyps(2) by simp
  have q: "0 < ?q" using Suc.prems(1) by (simp add: geometry_def)
  define u where "u = s\<lparr>blocks := (blocks s)[k := scanned ?q ?n k 0 (blocks s ! k)],
      read_only := (read_only s \<or> (k = nb_blocks s - 1 \<and> ?n = nb_pages s))\<rparr>"
  have sb: "scan_block K k 0 s = Some u"
    using scan_block_eq [OF nf Suc.prems k, of 0] q by (simp add: u_def)
  have len: "k < length (blocks s)" using Suc.prems(5) k by (simp add: tables_ok_def)
  have pre: "geometry u" "services_ok K u" "8 \<le> page_size u" "flash_repr byte_at log u" "tables_ok u"
    using Suc.prems len by (auto simp: u_def geometry_def services_ok_def flash_repr_def tables_ok_def
        read_page_def nth_list_update scanned_def scan_states_def)
  have "d = nb_blocks u - Suc k" using Suc.hyps(2) by (simp add: u_def)
  note ih = Suc.hyps(1) [OF this pre]
  have nu: "nb_blocks u = nb_blocks s" "pages_per_block u = ?q" by (simp_all add: u_def)
  have m: "map (\<lambda>i. if Suc k \<le> i then scanned ?q ?n i 0 (blocks u ! i) else blocks u ! i) [0..<nb_blocks s]
      = map (\<lambda>i. if k \<le> i then scanned ?q ?n i 0 (blocks s ! i) else blocks s ! i) [0..<nb_blocks s]"
  proof (rule map_cong [OF refl])
    fix i
    show "(if Suc k \<le> i then scanned ?q ?n i 0 (blocks u ! i) else blocks u ! i)
        = (if k \<le> i then scanned ?q ?n i 0 (blocks s ! i) else blocks s ! i)"
      by (cases i k rule: linorder_cases) (use len in \<open>auto simp: u_def\<close>)
  qed
  have ro: "(read_only u \<or> (Suc k < nb_blocks s \<and> ?n = nb_pages s)) \<longleftrightarrow> (read_only s \<or> (k < nb_blocks s \<and> ?n = nb_pages s))"
    using k by (auto simp: u_def)
  have "scan_blocks K [k..<nb_blocks s] s = scan_blocks K [Suc k..<nb_blocks s] u"
    using sb k by (simp add: upt_conv_Cons)
  also have "\<dots> = Some (u\<lparr>blocks := map (\<lambda>i. if k \<le> i then scanned ?q ?n i 0 (blocks s ! i) else blocks s ! i) [0..<nb_blocks s],
      read_only := (read_only s \<or> (k < nb_blocks s \<and> ?n = nb_pages s))\<rparr>)"
    using ih unfolding nu m ro .
  finally show ?case by (simp add: u_def)
qed

lemma init_scan_log:
  assumes nf: "nand_flash K byte_at" and g: "geometry s" and sv: "services_ok K s" and ps: "8 \<le> page_size s"
    and fr: "flash_repr byte_at log s" and ro: "\<not> read_only s"
    and al: "k_alloc K (flash s) (nb_blocks s * 16)" "k_alloc K (flash s) (pages_per_block s * 4)"
  obtains s' where "init_scan K s = Ret (0, s')" and "geometry s'" and "log_repr byte_at log s'"
    and "log_blocks_used (length log) s'" and "read_only s' \<longleftrightarrow> length log = nb_pages s'" and "same_shape s s'"
    and "flash s' = flash s" and "current_block s' = current_block s"
    and "current_page_offset s' = current_page_offset s"
proof -
  let ?q = "pages_per_block s" and ?n = "length log"
  define b0 where "b0 = \<lparr>state = BLK_FREE, pages_states = replicate ?q PG_FREE\<rparr>"
  define u where "u = s\<lparr>blocks := replicate (nb_blocks s) b0\<rparr>"
  have pre: "geometry u" "services_ok K u" "8 \<le> page_size u" "flash_repr byte_at log u" "tables_ok u"
    using g sv ps fr by (auto simp: u_def b0_def geometry_def services_ok_def flash_repr_def tables_ok_def read_page_def)
  define t where "t = u\<lparr>blocks := map (\<lambda>i. scanned ?q ?n i 0 b0) [0..<nb_blocks s], read_only := (?n = nb_pages s)\<rparr>"
  have nb: "0 < nb_blocks s" using g by (simp add: geometry_def)
  have eq: "scan_blocks K [0..<nb_blocks s] u = Some t"
    using scan_blocks_eq [OF nf pre, of 0] ro nb by (simp add: u_def t_def cong: map_cong)
  have st: "state (scanned ?q ?n i 0 b0) = (if i * ?q < ?n then BLK_USED else BLK_FREE)"
    and pg: "j < ?q \<Longrightarrow> pages_states (scanned ?q ?n i 0 b0) ! j = (if i * ?q + j < ?n then PG_VALID else PG_FREE)" for i j
    using g by (auto simp: scanned_def b0_def scan_states_def geometry_def)
  have "init_scan K s = Ret (0, t)"
    using eq sv al unfolding init_scan_def u_def b0_def by (simp add: services_ok_def)
  then show thesis
  proof (rule that)
    show "log_repr byte_at log t"
      using fr pg by (auto simp: log_repr_def flash_repr_def t_def u_def)
    show "log_blocks_used ?n t" using st by (simp add: log_blocks_used_def t_def u_def)
  qed (use g in \<open>simp_all add: t_def u_def geometry_def same_shape_def\<close>)
qed

end
