(* ===== verification/VanillaProps.thy ===== *)
theory VanillaProps
  imports VanillaStore
begin

text \<open>
  The properties of the first prototype: refinement of the couple log by every sequence of
  operations after a format, lookup, round trip, loading, the erase handshake, and the
  behaviours of the code that its comments do not announce.  The examples run on the
  \<open>nandsim\<close> device with two blocks of two 16-byte pages.
\<close>

section \<open>Runs\<close>

text \<open>A sequence of \<open>set_keyval\<close> calls, none of which meets a write error of the driver.\<close>

inductive kv_run :: "'m kernel \<Rightarrow> 'm lkp_kv_cfg \<Rightarrow> couple list \<Rightarrow> int list \<Rightarrow> 'm lkp_kv_cfg \<Rightarrow> bool" for K s where
  run_nil: "kv_run K s [] [] s"
| run_set: "kv_run K s cs rs t \<Longrightarrow> services_ok K t \<Longrightarrow> cstring k \<Longrightarrow> cstring v \<Longrightarrow>
    set_keyval K k v t = Ret (r, u) \<Longrightarrow> r \<noteq> - 4 \<Longrightarrow> kv_run K s (cs @ [(k, v)]) (rs @ [r]) u"

definition log_run :: "nat \<Rightarrow> nat \<Rightarrow> couple list \<Rightarrow> int list \<times> couple list" where
  "log_run ps N cs = foldl (\<lambda>(rs, log) c. case log_set ps N c log of (r, log) \<Rightarrow> (rs @ [r], log)) ([], []) cs"

lemma kv_run_log:
  assumes nf: "nand_flash K byte_at" and "kv_run K s cs rs t" and "store_inv byte_at [] s"
  shows "fst (log_run (page_size s) (nb_pages s) cs) = rs
    \<and> store_inv byte_at (snd (log_run (page_size s) (nb_pages s) cs)) t \<and> same_shape s t"
  using assms(2,3)
proof (induction rule: kv_run.induct)
  case run_nil
  then show ?case by (simp add: log_run_def same_shape_def)
next
  case (run_set cs rs t k v r u)
  let ?R = "log_run (page_size s) (nb_pages s)"
  obtain log where R: "?R cs = (rs, log)" and inv: "store_inv byte_at log t" and sh: "same_shape s t"
    using run_set.IH run_set.prems by (metis prod.collapse)
  from set_keyval_log [OF nf inv run_set.hyps(2-6)] sh
  have "r = fst (log_set (page_size s) (nb_pages s) (k, v) log)"
    and "store_inv byte_at (snd (log_set (page_size s) (nb_pages s) (k, v) log)) u" and "same_shape s u"
    by (auto simp: same_shape_def)
  moreover have "?R (cs @ [(k, v)]) = (rs @ [fst (log_set (page_size s) (nb_pages s) (k, v) log)],
      snd (log_set (page_size s) (nb_pages s) (k, v) log))"
    using R by (simp add: log_run_def split: prod.splits)
  ultimately show ?case by simp
qed

section \<open>The example device\<close>

definition demo_K :: "byte list kernel" where
  "demo_K = nandsim 2 32 16"

definition demo_loaded :: "byte list lkp_kv_cfg" where
  "demo_loaded = (case init_config demo_K 0 (config0 (replicate 64 255)) of Ret (_, s) \<Rightarrow> s | _ \<Rightarrow> config0 [])"

definition demo_state :: "byte list lkp_kv_cfg" where
  "demo_state = (case format demo_K demo_loaded of Ret (_, s) \<Rightarrow> s | _ \<Rightarrow> config0 [])"

lemma demo_nand: "nand_flash demo_K nandsim_byte"
  unfolding demo_K_def by (rule ns.nand_flash_axioms)

lemma demo_loaded_eq: "demo_loaded = \<lparr>mtd = Some \<lparr>mtd_size = 64, mtd_erasesize = 32, mtd_writesize = 16\<rparr>,
    mtd_index = 0, nb_blocks = 2, block_size = 32, page_size = 16, current_block = 0, current_page_offset = 0,
    pages_per_block = 2, blocks = replicate 2 \<lparr>state = BLK_FREE, pages_states = replicate 2 PG_FREE\<rparr>,
    format_done = 0, read_only = False, format_lock = 1, flash = replicate 64 255\<rparr>"
  by code_simp

lemma demo_format: "format demo_K demo_loaded = Ret (0, demo_state)"
  by code_simp

lemma demo_geometry: "geometry demo_loaded" "tables_ok demo_loaded"
  by (auto simp: demo_loaded_eq geometry_def tables_ok_def less_2_cases_iff)

lemma demo_inv: "store_inv nandsim_byte [] demo_state"
  by (rule format_empty [OF demo_nand demo_geometry demo_format])

text \<open>Every page of a 64-byte device is readable.\<close>

lemma demo_services:
  assumes "length (flash s) = 64" "nb_pages s = 4" "page_size s = 16"
  shows "services_ok demo_K s"
proof -
  have "fst (read_page demo_K (int p) s) = 0" if "p < 4" for p
  proof -
    have "page_addr (int p) 16 = p * 16" using that by (intro page_addr_eq) simp
    with that assms show ?thesis by (simp add: read_page_def demo_K_def nandsim_def nandsim_read_def)
  qed
  with assms show ?thesis by (simp add: services_ok_def demo_K_def nandsim_def)
qed

text \<open>The state after storing the couple \<open>ab\<close> = \<open>x\<close>, and the module reloaded on that partition.\<close>

definition demo_one :: "byte list lkp_kv_cfg" where
  "demo_one = (case set_keyval demo_K [97, 98] [120] demo_state of Ret (_, s) \<Rightarrow> s | _ \<Rightarrow> config0 [])"

definition demo_reloaded :: "byte list lkp_kv_cfg" where
  "demo_reloaded = (case init_config demo_K 0 (config0 (flash demo_one)) of Ret (_, s) \<Rightarrow> s | _ \<Rightarrow> config0 [])"

lemma demo_set: "set_keyval demo_K [97, 98] [120] demo_state = Ret (0, demo_one)"
  by code_simp

lemma demo_sizes: "length (flash demo_state) = 64" "nb_pages demo_state = 4" "page_size demo_state = 16"
    "length (flash demo_one) = 64" "nb_pages demo_one = 4" "page_size demo_one = 16"
  by code_simp+

lemmas demo_services_ok = demo_services [OF demo_sizes(1-3)] demo_services [OF demo_sizes(4-6)]

lemma demo_strings: "cstring [97, 98]" "cstring [97]" "cstring [120]"
  by (simp_all add: cstring_def)

definition demo_log :: "couple list" where
  "demo_log = [([97, 98], [120])]"

lemma demo_one_inv: "store_inv nandsim_byte [([97, 98], [120])] demo_one"
proof -
  have "snd (log_set 16 4 ([97, 98], [120]) []) = [([97, 98], [120])]"
    by (simp add: log_set_def log_find_def)
  with set_keyval_log [OF demo_nand demo_inv demo_services_ok(1) demo_strings(1,3) demo_set]
  show ?thesis by (simp add: demo_sizes)
qed

section \<open>Properties\<close>

text \<open>
  C20.  After a successful \<open>format\<close>, every sequence of \<open>set_keyval\<close> calls that meets no driver
  write error returns exactly the codes of the couple log and leaves block states, page
  states, write position, read-only flag and flash contents representing that log.
\<close>

theorem vanilla_run_refines:
  assumes "nand_flash K byte_at" and "geometry s0" and "tables_ok s0" and "format K s0 = Ret (0, s)"
    and "kv_run K s cs rs t"
  shows "fst (log_run (page_size s) (nb_pages s) cs) = rs
    \<and> store_inv byte_at (snd (log_run (page_size s) (nb_pages s) cs)) t"
  using kv_run_log [OF assms(1,5) format_empty(1) [OF assms(1-4)]] by simp

theorem vanilla_run_refines_witness:
  "fst (log_run (page_size demo_state) (nb_pages demo_state) [([97, 98], [120])]) = [0]
    \<and> store_inv nandsim_byte (snd (log_run (page_size demo_state) (nb_pages demo_state) [([97, 98], [120])])) demo_one"
proof -
  have "kv_run demo_K demo_state ([] @ [([97, 98], [120])]) ([] @ [0]) demo_one"
    by (rule kv_run.run_set [OF kv_run.run_nil demo_services_ok(1) demo_strings(1,3) demo_set]) simp
  then show ?thesis
    using vanilla_run_refines [OF demo_nand demo_geometry demo_format] by simp
qed

text \<open>
  C24.  On a store that represents a log, \<open>get_keyval\<close> returns the page index and the value of the
  first couple whose key followed by its value starts with the key asked for, and -1 if there
  is none.
\<close>

theorem vanilla_get_first_match:
  assumes "nand_flash K byte_at" and "store_inv byte_at log s" and "services_ok K s"
    and "cstring key" and "length key + 8 \<le> page_size s"
  shows "get_keyval K key s = Ret (get_result key log)"
  using assms get_keyval_log store_inv_blocks_used unfolding store_inv_def by blast

theorem vanilla_get_first_match_witness:
  "get_keyval demo_K [97] demo_one = Ret (get_result [97] [([97, 98], [120])])"
  by (rule vanilla_get_first_match [OF demo_nand demo_one_inv demo_services_ok(2) demo_strings(2)])
     (simp add: demo_sizes)

text \<open>
  C21.  Round trip: when \<open>set_keyval\<close> returns 0, \<open>get_keyval\<close> of that key in the resulting state
  returns the page the couple was written to and the value.
\<close>

theorem vanilla_set_then_get:
  assumes "nand_flash K byte_at" and "store_inv byte_at log s" and "services_ok K s"
    and "cstring key" and "cstring val" and "set_keyval K key val s = Ret (0, s')" and "services_ok K s'"
  shows "get_keyval K key s' = Ret (int (length log), Some val)"
proof -
  let ?L = "log @ [(key, val)]"
  have ls: "log_set (page_size s) (nb_pages s) (key, val) log = (0, ?L)"
    and nf: "log_find key log = None" and sz: "length key + 8 \<le> page_size s"
    and inv: "store_inv byte_at ?L s'" and ps: "page_size s' = page_size s"
    using set_keyval_log [OF assms(1-6)] by (auto simp: log_set_def same_shape_def split: if_splits)
  have "log_find key ?L = Some (length log)"
  proof -
    have "List.find (\<lambda>p. prefix key (fst (?L ! p) @ snd (?L ! p))) [0..<length log]
        = List.find (\<lambda>p. prefix key (fst (log ! p) @ snd (log ! p))) [0..<length log]"
      by (rule find_cong) (auto simp: nth_append)
    with nf show ?thesis by (simp add: log_find_def find_append)
  qed
  moreover have "get_keyval K key s' = Ret (get_result key ?L)"
    using inv sz ps assms(1,4,7) get_keyval_log store_inv_blocks_used [OF inv]
    unfolding store_inv_def by metis
  ultimately show ?thesis by (simp add: get_result_def)
qed

theorem vanilla_set_then_get_witness:
  "get_keyval demo_K [97, 98] demo_one = Ret (0, Some [120])"
  using vanilla_set_then_get [OF demo_nand demo_inv demo_services_ok(1) demo_strings(1,3) demo_set demo_services_ok(2)]
  by simp

text \<open>
  \<open>set_keyval\<close> is total on a represented store: with memory and readable pages it returns a
  code, whatever the driver answers to the write.
\<close>

theorem vanilla_set_total:
  assumes "nand_flash K byte_at" and "store_inv byte_at log s" and "services_ok K s"
    and "cstring key" and "cstring val"
  shows "\<exists>r s'. set_keyval K key val s = Ret (r, s') \<and> r \<in> {- 4, - 3, - 2, - 1, 0}"
proof -
  obtain r s' where r: "set_keyval K key val s = Ret (r, s')"
    using set_keyval_returns [OF assms] by auto
  have "r \<in> {- 4, - 3, - 2, - 1, 0}"
  proof (cases "r = - 4")
    case False
    with set_keyval_log [OF assms r] show ?thesis by (auto simp: log_set_def split: if_splits)
  qed simp
  with r show ?thesis by blast
qed

theorem vanilla_set_total_witness:
  "\<exists>r s'. set_keyval demo_K [97] [120] demo_one = Ret (r, s') \<and> r \<in> {- 4, - 3, - 2, - 1, 0}"
  by (rule vanilla_set_total [OF demo_nand demo_one_inv demo_services_ok(2) demo_strings(2,3)])

text \<open>
  C23.  Loading: on a partition whose pages hold a log, \<open>init_config\<close> succeeds, rebuilds the page
  states of that log, is read-only exactly when the log fills the partition, and every lookup
  then answers as before.  The write position is not restored: it is page 0.
\<close>

theorem vanilla_load_recovers:
  assumes "nand_flash K byte_at"
    and "k_get_mtd_device K idx = Some \<lparr>mtd_size = nb * (q * ps), mtd_erasesize = q * ps, mtd_writesize = ps\<rparr>" and "idx \<noteq> - 1"
    and "0 < nb" "nb < 2147483648" "0 < q" "8 \<le> ps" "q * ps < 2147483648" "nb * q * ps < 2 ^ 64"
    and "\<forall>n. k_alloc K m n" and "\<forall>p < nb * q. fst (k_read K m (p * ps) ps) = 0"
    and "length log \<le> nb * q"
    and "\<forall>p < length log. couple_ok ps (log ! p) \<and> flash_page byte_at ps m p = couple_image ps (log ! p)"
    and "\<forall>p. length log \<le> p \<and> p < nb * q \<longrightarrow> flash_page byte_at ps m p = replicate ps 255"
  shows "\<exists>s'. init_config K idx (config0 m) = Ret (0, s') \<and> log_repr byte_at log s'
    \<and> (read_only s' \<longleftrightarrow> length log = nb * q) \<and> current_block s' = 0 \<and> current_page_offset s' = 0
    \<and> (\<forall>key. cstring key \<and> length key + 8 \<le> ps \<longrightarrow> get_keyval K key s' = Ret (get_result key log))"
proof -
  define s where "s = (config0 m)\<lparr>mtd_index := idx, mtd := k_get_mtd_device K idx, block_size := q * ps, page_size := ps,
    pages_per_block := q, nb_blocks := nb, format_lock := 1\<rparr>"
  have "ps \<le> q * ps" using assms(6) by simp
  with assms(8) have psl: "ps < 2147483648" by linarith
  have g: "geometry s" using assms(4,6-9) psl by (simp add: s_def geometry_def config0_def)
  have addr: "page_addr (int p) ps = p * ps" if "p < nb * q" for p
  proof (rule page_addr_eq)
    have "p * ps \<le> nb * q * ps" using that by (intro mult_le_mono1) simp
    with assms(9) show "p * ps < 2 ^ 64" by linarith
  qed
  have sv: "services_ok K s"
    using assms(10,11) addr by (simp add: s_def services_ok_def config0_def read_page_def)
  have fr: "flash_repr byte_at log s"
    using assms(12-14) by (simp add: s_def flash_repr_def config0_def)
  obtain s' where s': "init_scan K s = Ret (0, s')" "geometry s'" "log_repr byte_at log s'"
      "log_blocks_used (length log) s'" "read_only s' \<longleftrightarrow> length log = nb_pages s'" "same_shape s s'"
      "flash s' = flash s" "current_block s' = current_block s" "current_page_offset s' = current_page_offset s"
    by (rule init_scan_log [OF assms(1) g sv _ fr]) (use assms(7,10) in \<open>auto simp: s_def config0_def\<close>)
  have sv': "services_ok K s'"
    using sv s'(6,7) by (simp add: services_ok_def same_shape_def read_page_def)
  have sz: "nat (s32 (int (q * ps))) = q * ps"
    using assms(8) s32_id [of "int (q * ps)"] by linarith
  have "init_config K idx (config0 m) = Ret (0, s')"
    using assms(2-8) psl s'(1) sz by (simp add: init_config_def s_def config0_def Let_def)
  moreover have "get_keyval K key s' = Ret (get_result key log)" if "cstring key" "length key + 8 \<le> ps" for key
    by (rule get_keyval_log [OF assms(1) s'(2) sv' s'(3,4) that(1)])
       (use that(2) s'(6) in \<open>simp add: same_shape_def s_def config0_def\<close>)
  ultimately show ?thesis
    using s' by (intro exI [of _ s']) (auto simp: same_shape_def s_def config0_def)
qed

theorem vanilla_load_recovers_witness:
  "\<exists>s'. init_config demo_K 0 (config0 (flash demo_one)) = Ret (0, s') \<and> log_repr nandsim_byte demo_log s'
    \<and> (read_only s' \<longleftrightarrow> length demo_log = (2 * 2 :: nat)) \<and> current_block s' = 0 \<and> current_page_offset s' = 0
    \<and> (\<forall>key. cstring key \<and> length key + 8 \<le> 16 \<longrightarrow> get_keyval demo_K key s' = Ret (get_result key demo_log))"
proof (rule vanilla_load_recovers [where nb = 2 and q = 2 and ps = 16, OF demo_nand])
  show "k_get_mtd_device demo_K 0 = Some \<lparr>mtd_size = 2 * (2 * 16), mtd_erasesize = 2 * 16, mtd_writesize = 16\<rparr>"
    by (simp add: demo_K_def nandsim_def)
  show "\<forall>n. k_alloc demo_K (flash demo_one) n"
    by (simp add: demo_K_def nandsim_def)
  show "\<forall>p < 2 * 2. fst (k_read demo_K (flash demo_one) (p * 16) 16) = 0"
    by (auto simp: demo_K_def nandsim_def nandsim_read_def demo_sizes)
  have "log_repr nandsim_byte demo_log demo_one"
    using demo_one_inv by (simp add: store_inv_def demo_log_def)
  then show "\<forall>p < length demo_log. couple_ok 16 (demo_log ! p)
        \<and> flash_page nandsim_byte 16 (flash demo_one) p = couple_image 16 (demo_log ! p)"
    and "\<forall>p. length demo_log \<le> p \<and> p < 2 * 2 \<longrightarrow> flash_page nandsim_byte 16 (flash demo_one) p = replicate 16 255"
    using demo_sizes by (auto simp: log_repr_def demo_log_def)
qed (simp_all add: demo_log_def)

text \<open>
  Consequence of the position not being restored: after a reload of a partition that holds a
  couple, storing a second one succeeds but is written over the first, and neither is found again.
\<close>

theorem vanilla_reload_then_set_destroys:
  "get_keyval demo_K [97, 98] demo_reloaded = Ret (0, Some [120])
   \<and> (\<exists>t. set_keyval demo_K [99] [121] demo_reloaded = Ret (0, t)
        \<and> get_keyval demo_K [97, 98] t = Ret (- 1, None) \<and> get_keyval demo_K [99] t = Ret (- 1, None))"
proof -
  define t where "t = (case set_keyval demo_K [99] [121] demo_reloaded of Ret (_, s) \<Rightarrow> s | _ \<Rightarrow> config0 [])"
  have "set_keyval demo_K [99] [121] demo_reloaded = Ret (0, t)" unfolding t_def by code_simp
  moreover have "get_keyval demo_K [97, 98] t = Ret (- 1, None)" unfolding t_def by code_simp
  moreover have "get_keyval demo_K [99] t = Ret (- 1, None)" unfolding t_def by code_simp
  moreover have "get_keyval demo_K [97, 98] demo_reloaded = Ret (0, Some [120])" by code_simp
  ultimately show ?thesis by blast
qed

text \<open>
  On a blank partition that was loaded but not formatted, block 0 is still marked free: a
  couple is stored with return code 0 and is not found by the lookup that follows.
\<close>

theorem vanilla_blank_load_set_lost:
  "\<exists>t. set_keyval demo_K [97, 98] [120] demo_loaded = Ret (0, t) \<and> get_keyval demo_K [97, 98] t = Ret (- 1, None)"
proof -
  define t where "t = (case set_keyval demo_K [97, 98] [120] demo_loaded of Ret (_, s) \<Rightarrow> s | _ \<Rightarrow> config0 [])"
  have "set_keyval demo_K [97, 98] [120] demo_loaded = Ret (0, t)" unfolding t_def by code_simp
  moreover have "get_keyval demo_K [97, 98] t = Ret (- 1, None)" unfolding t_def by code_simp
  ultimately show ?thesis by blast
qed

text \<open>
  The couple that fills the last page is stored, and found by lookups, but \<open>set_keyval\<close>
  reports it with the read-only error -3.
\<close>

theorem vanilla_last_page_stored_as_error:
  assumes "nand_flash K byte_at" and "store_inv byte_at log s" and "services_ok K s"
    and "cstring key" and "cstring val" and "length key + length val + 8 \<le> page_size s"
    and "log_find key log = None" and "Suc (length log) = nb_pages s"
    and "set_keyval K key val s = Ret (r, s')" and "r \<noteq> - 4"
  shows "r = - 3 \<and> store_inv byte_at (log @ [(key, val)]) s'"
  using set_keyval_log [OF assms(1-5,9,10)] assms(6-8) by (simp add: log_set_def)

text \<open>Three couples in the four pages of the example device.\<close>

definition demo_three :: "byte list lkp_kv_cfg" where
  "demo_three = (case obind (set_keyval demo_K [98] [120] demo_one) (\<lambda>(_, s). set_keyval demo_K [99] [120] s)
     of Ret (_, s) \<Rightarrow> s | _ \<Rightarrow> config0 [])"

definition demo_four :: "byte list lkp_kv_cfg" where
  "demo_four = (case set_keyval demo_K [100] [120] demo_three of Ret (_, s) \<Rightarrow> s | _ \<Rightarrow> config0 [])"

lemma demo_three_inv: "store_inv nandsim_byte [([97, 98], [120]), ([98], [120]), ([99], [120])] demo_three"
proof -
  define u where "u = (case set_keyval demo_K [98] [120] demo_one of Ret (_, s) \<Rightarrow> s | _ \<Rightarrow> config0 [])"
  have e1: "set_keyval demo_K [98] [120] demo_one = Ret (0, u)" unfolding u_def by code_simp
  have e2: "set_keyval demo_K [99] [120] u = Ret (0, demo_three)" unfolding u_def by code_simp
  have sz: "length (flash u) = 64" "nb_pages u = 4" "page_size u = 16" unfolding u_def by code_simp+
  have cs: "cstring [98]" "cstring [99]" by (simp_all add: cstring_def)
  have "kv_run demo_K demo_state (([] @ [([97, 98], [120])]) @ [([98], [120])] @ []) (([] @ [0]) @ [0] @ []) u"
    using kv_run.run_set [OF kv_run.run_set [OF kv_run.run_nil demo_services_ok(1) demo_strings(1,3) demo_set]
        demo_services_ok(2) cs(1) demo_strings(3) e1] by simp
  then have "kv_run demo_K demo_state [([97, 98], [120]), ([98], [120]), ([99], [120])] [0, 0, 0] demo_three"
    using kv_run.run_set [OF _ demo_services [OF sz] cs(2) demo_strings(3) e2] by force
  from kv_run_log [OF demo_nand this demo_inv] show ?thesis
    by (simp add: demo_sizes log_run_def log_set_def log_find_def)
qed

theorem vanilla_last_page_stored_as_error_witness:
  "(- 3 :: int) = - 3 \<and> store_inv nandsim_byte ([([97, 98], [120]), ([98], [120]), ([99], [120])] @ [([100], [120])]) demo_four"
proof (rule vanilla_last_page_stored_as_error [OF demo_nand demo_three_inv])
  have sz: "length (flash demo_three) = 64" "nb_pages demo_three = 4" "page_size demo_three = 16" by code_simp+
  show "services_ok demo_K demo_three" by (rule demo_services [OF sz])
  show "set_keyval demo_K [100] [120] demo_three = Ret (- 3, demo_four)" by code_simp
  show "length [100 :: byte] + length [120 :: byte] + 8 \<le> page_size demo_three" by (simp add: sz)
  show "Suc (length [([97, 98 :: byte], [120 :: byte]), ([98], [120]), ([99], [120])]) = nb_pages demo_three" by (simp add: sz)
qed (simp_all add: cstring_def log_find_def)

text \<open>
  A lookup does not compare whole keys: with \<open>key @ x\<close> stored first, asking for \<open>key\<close> returns
  its value although \<open>key\<close> was never stored (for any non-empty extension \<open>x\<close>).
\<close>

theorem vanilla_get_prefix_confusion:
  assumes "nand_flash K byte_at" and "store_inv byte_at ((key @ x, v) # log) s" and "services_ok K s"
    and "cstring key" and "x \<noteq> []" and "key \<notin> fst ` set ((key @ x, v) # log)"
  shows "get_keyval K key s = Ret (0, Some v)"
proof -
  have "couple_ok (page_size s) (key @ x, v)"
    using assms(2) by (auto simp: store_inv_def log_repr_def)
  then have "length key + 8 \<le> page_size s" by (simp add: couple_ok_def)
  moreover have "log_find key ((key @ x, v) # log) = Some 0"
    by (simp add: log_find_def upt_conv_Cons del: upt_Suc)
  ultimately show ?thesis
    using get_keyval_log [OF assms(1) _ assms(3) _ store_inv_blocks_used [OF assms(2)] assms(4)] assms(2)
    by (simp add: store_inv_def get_result_def)
qed

theorem vanilla_get_prefix_confusion_witness:
  "get_keyval demo_K [97] demo_one = Ret (0, Some [120])"
  using vanilla_get_prefix_confusion [of demo_K nandsim_byte "[97]" "[98]" "[120]" "[]" demo_one]
    demo_nand demo_one_inv demo_services_ok(2) demo_strings(2) by simp

text \<open>
  C29.  The erase handshake, under every interleaving of the polling loop and the callback: at
  most one of them is in its critical section; the loop is left only after the callback
  finished, with the semaphore available again and \<open>format_done\<close> as \<open>format_callback\<close> sets it
  (so the sequential model of \<open>format\<close> sees the value the loop sees); and from every reachable
  state the loop can still be left.
\<close>

theorem vanilla_erase_handshake:
  assumes "hs_reach st h"
  shows "\<not> (waiter_holds h \<and> callback_holds h)
    \<and> (wpc h = W_done \<longrightarrow> cpc h = C_done \<and> lock_count h = 1 \<and> done_flag h = format_done (format_callback st s))
    \<and> (\<exists>h'. hs_step\<^sup>*\<^sup>* h h' \<and> wpc h' = W_done)"
  using hs_mutex [OF assms] hs_exit [OF assms] hs_can_finish [OF assms]
  by (auto simp: format_callback_def callback_flag_def)

theorem vanilla_erase_handshake_witness:
  "\<not> (waiter_holds (hs_init MTD_ERASE_DONE) \<and> callback_holds (hs_init MTD_ERASE_DONE))
    \<and> (\<exists>h'. hs_step\<^sup>*\<^sup>* (hs_init MTD_ERASE_DONE) h' \<and> wpc h' = W_done)"
  using vanilla_erase_handshake [OF hs_reach.start] by blast

end
