(* ===== verification/UserSpace.thy ===== *)
theory UserSpace
  imports Prelude
begin

text \<open>
  The virtual device of the key-value modules and the user-space library, as far as the
  prototypes share them (\<open>kernel/device.h\<close>, \<open>kernel/device.c\<close>, \<open>user/kvlib.c\<close>): the structure
  passed through \<open>ioctl\<close>, the handlers of its commands over the functions of a core, the
  exclusive opening of the device file, and the library calls over an \<open>ioctl\<close>.  A user pointer
  is the contents of the object it points to; a structure that cannot be read is \<open>None\<close>.
  The locale \<open>kv_module\<close> states what the library relies on.
\<close>

section \<open>The ioctl structure (device.h)\<close>

record keyval =
  kv_key :: "byte list"
  kv_val :: "byte list"
  key_len :: int
  val_len :: int
  status :: int

datatype request =
    IOCTL_FORMAT "int option"
  | IOCTL_SET "keyval option"
  | IOCTL_GET "keyval option"
  | IOCTL_DEL "keyval option"
  | IOCTL_GC
  | IOCTL_PRINT
  | IOCTL_OTHER

record 's device =
  file_is_open :: bool
  core :: 's

text \<open>\<open>copy_from_user\<close>: the bytes, or \<open>None\<close> when not all of them can be copied.\<close>

definition copy_from_user :: "byte list \<Rightarrow> int \<Rightarrow> byte list option" where
  "copy_from_user src n = (if 0 \<le> n \<and> n \<le> int (length src) then Some (take (nat n) src) else None)"

section \<open>Opening the device\<close>

definition device_open :: "'s device \<Rightarrow> int \<times> 's device" where
  "device_open d = (if file_is_open d then (- 16, d) else (0, d\<lparr>file_is_open := True\<rparr>))"

definition device_release :: "'s device \<Rightarrow> 's device" where
  "device_release d = d\<lparr>file_is_open := False\<rparr>"

text \<open>
  The flag is read and written in two atomic accesses.  Each process is at one of these points
  of \<open>device_open\<close>.
\<close>

datatype open_pc = Idle | Checked | Opened | Refused

record open_state =
  open_flag :: bool
  pcs :: "nat \<Rightarrow> open_pc"

inductive open_step :: "open_state \<Rightarrow> open_state \<Rightarrow> bool" where
  read_busy: "pcs r p = Idle \<Longrightarrow> open_flag r \<Longrightarrow> open_step r (r\<lparr>pcs := (pcs r)(p := Refused)\<rparr>)"
| read_free: "pcs r p = Idle \<Longrightarrow> \<not> open_flag r \<Longrightarrow> open_step r (r\<lparr>pcs := (pcs r)(p := Checked)\<rparr>)"
| set_open: "pcs r p = Checked \<Longrightarrow> open_step r (r\<lparr>open_flag := True, pcs := (pcs r)(p := Opened)\<rparr>)"
| release: "pcs r p = Opened \<Longrightarrow> open_step r (r\<lparr>open_flag := False, pcs := (pcs r)(p := Idle)\<rparr>)"

section \<open>Commands (device.c)\<close>

text \<open>
  \<open>vm n\<close>: \<open>vmalloc(n)\<close> succeeds (its result is not checked).  The key and the value are the C
  strings in the copied bytes.  When the structure itself cannot be copied (\<open>None\<close>) the code goes on
  with the lengths and pointers of an uninitialised variable, which is a fault here.
\<close>

definition ioctl_set :: "(nat \<Rightarrow> bool) \<Rightarrow> (byte list \<Rightarrow> byte list \<Rightarrow> 's \<Rightarrow> (int \<times> 's) outcome) \<Rightarrow> keyval option \<Rightarrow> 's
    \<Rightarrow> (keyval option \<times> 's) outcome" where
  "ioctl_set vm set_keyval kvo s =
     (case kvo of
        None \<Rightarrow> Fault
      | Some kv \<Rightarrow>
          if \<not> vm (nat (key_len kv + 1)) \<or> \<not> vm (nat (val_len kv + 1)) then Fault
          else case (copy_from_user (kv_key kv) (key_len kv + 1), copy_from_user (kv_val kv) (val_len kv + 1)) of
            (Some key, Some val) \<Rightarrow>
              obind (mem_string key) (\<lambda>key. obind (mem_string val) (\<lambda>val.
              obind (set_keyval key val s) (\<lambda>(ret, s). Ret (Some (kv\<lparr>status := ret\<rparr>), s))))
          | _ \<Rightarrow> Ret (Some (kv\<lparr>status := - 7\<rparr>), s))"

definition ioctl_get :: "(nat \<Rightarrow> bool) \<Rightarrow> nat \<Rightarrow> (byte list \<Rightarrow> 's \<Rightarrow> (int \<times> byte list option) outcome) \<Rightarrow> keyval option \<Rightarrow> 's
    \<Rightarrow> keyval option outcome" where
  "ioctl_get vm page_size get_keyval kvo s =
     (case kvo of
        None \<Rightarrow> Fault
      | Some kv \<Rightarrow>
          if \<not> vm (nat (key_len kv + 1)) \<or> \<not> vm page_size then Fault
          else case copy_from_user (kv_key kv) (key_len kv + 1) of
            None \<Rightarrow> Ret (Some (kv\<lparr>status := - 5\<rparr>))
          | Some key \<Rightarrow>
              obind (mem_string key) (\<lambda>key.
              obind (get_keyval key s) (\<lambda>(ret, val).
                if ret < 0 then Ret (Some (kv\<lparr>status := ret\<rparr>))
                else case val of
                  None \<Rightarrow> Fault
                | Some val \<Rightarrow>
                    obind (mem_store (kv_val kv) 0 (takeWhile (\<lambda>c. c \<noteq> 0) val @ [0])) (\<lambda>buf.
                      Ret (Some (kv\<lparr>kv_val := buf, status := ret\<rparr>))))))"

definition ioctl_del :: "(nat \<Rightarrow> bool) \<Rightarrow> (byte list \<Rightarrow> 's \<Rightarrow> (int \<times> 's) outcome) \<Rightarrow> keyval option \<Rightarrow> 's
    \<Rightarrow> (keyval option \<times> 's) outcome" where
  "ioctl_del vm del_key kvo s =
     (case kvo of
        None \<Rightarrow> Fault
      | Some kv \<Rightarrow>
          if \<not> vm (nat (key_len kv + 1)) then Fault
          else case copy_from_user (kv_key kv) (key_len kv + 1) of
            None \<Rightarrow> Ret (Some (kv\<lparr>status := - 5\<rparr>), s)
          | Some key \<Rightarrow>
              obind (mem_string key) (\<lambda>key.
              obind (del_key key s) (\<lambda>(ret, s). Ret (Some (kv\<lparr>status := ret\<rparr>), s))))"

section \<open>The library (kvlib.c)\<close>

text \<open>
  \<open>ioctl\<close> is the system call on the open device; \<open>heap n\<close> the contents of an object of \<open>n\<close> bytes
  returned by \<open>malloc\<close>.  An early return leaves the device open.
\<close>

type_synonym 's ioctl = "request \<Rightarrow> 's device \<Rightarrow> (int \<times> request \<times> 's device) outcome"

definition kvlib_format :: "'s ioctl \<Rightarrow> int \<Rightarrow> 's device \<Rightarrow> (int \<times> 's device) outcome" where
  "kvlib_format ioctl ret d =
     (case device_open d of (fd, d) \<Rightarrow>
      if fd < 0 then Ret (- 1, d)
      else obind (ioctl (IOCTL_FORMAT (Some ret)) d) (\<lambda>(r, req, d).
        let ret = (if r \<noteq> 0 then - 2
                   else case req of IOCTL_FORMAT (Some ret) \<Rightarrow> if ret \<noteq> 0 then - 3 else ret | _ \<Rightarrow> ret) in
        Ret (ret, device_release d)))"

definition set_code :: "int \<Rightarrow> int" where
  "set_code st = (if st = - 1 then - 3 else if st = - 2 then - 4 else if st = - 3 then - 5 else if st = - 4 then - 6 else 0)"

definition kvlib_set :: "'s ioctl \<Rightarrow> byte list \<Rightarrow> byte list \<Rightarrow> 's device \<Rightarrow> (int \<times> 's device) outcome" where
  "kvlib_set ioctl key val d =
     (case device_open d of (fd, d) \<Rightarrow>
      if fd < 0 then Ret (- 1, d)
      else let kv = \<lparr>kv_key = key @ [0], kv_val = val @ [0], key_len = int (length key), val_len = int (length val), status = 0\<rparr> in
        obind (ioctl (IOCTL_SET (Some kv)) d) (\<lambda>(r, req, d).
          if r \<noteq> 0 then Ret (- 2, d)
          else case req of
            IOCTL_SET (Some kv) \<Rightarrow> Ret (set_code (status kv), device_release d)
          | _ \<Rightarrow> Fault))"

definition get_code :: "int \<Rightarrow> int" where
  "get_code st = (if st = - 1 then - 3 else if st = - 2 then - 4 else 0)"

text \<open>
  \<open>val\<close> is the caller's buffer; \<open>room\<close> the size of the object for the module's answer, which
  is copied to \<open>val\<close> as a string whatever the status.
\<close>

definition kvlib_get :: "'s ioctl \<Rightarrow> (nat \<Rightarrow> byte list) \<Rightarrow> (byte list \<Rightarrow> nat outcome) \<Rightarrow> byte list \<Rightarrow> byte list \<Rightarrow> 's device
    \<Rightarrow> (int \<times> byte list \<times> 's device) outcome" where
  "kvlib_get ioctl heap room key val d =
     (case device_open d of (fd, d) \<Rightarrow>
      if fd < 0 then Ret (- 1, val, d)
      else obind (room val) (\<lambda>n.
        let kv = \<lparr>kv_key = key @ [0], kv_val = heap n, key_len = int (length key), val_len = 0, status = 0\<rparr> in
        obind (ioctl (IOCTL_GET (Some kv)) d) (\<lambda>(r, req, d).
          if r \<noteq> 0 then Ret (- 2, val, d)
          else case req of
            IOCTL_GET (Some kv) \<Rightarrow>
              obind (mem_string (kv_val kv)) (\<lambda>str.
              obind (mem_store val 0 (str @ [0])) (\<lambda>val.
                Ret (get_code (status kv), val, device_release d)))
          | _ \<Rightarrow> Fault)))"

definition kvlib_del :: "'s ioctl \<Rightarrow> byte list \<Rightarrow> 's device \<Rightarrow> (int \<times> 's device) outcome" where
  "kvlib_del ioctl key d =
     (case device_open d of (fd, d) \<Rightarrow>
      if fd < 0 then Ret (- 1, d)
      else let kv = \<lparr>kv_key = key @ [0], kv_val = [], key_len = int (length key), val_len = 0, status = 0\<rparr> in
        obind (ioctl (IOCTL_DEL (Some kv)) d) (\<lambda>(r, req, d).
          if r < 0 then Ret (- 2, d)
          else case req of
            IOCTL_DEL (Some kv) \<Rightarrow> Ret (get_code (status kv), device_release d)
          | _ \<Rightarrow> Fault))"

definition kvlib_gc :: "'s ioctl \<Rightarrow> 's device \<Rightarrow> 's device outcome" where
  "kvlib_gc ioctl d =
     (case device_open d of (fd, d) \<Rightarrow>
      if fd < 0 then Ret d else obind (ioctl IOCTL_GC d) (\<lambda>(r, req, d). Ret (device_release d)))"

definition kvlib_print :: "'s ioctl \<Rightarrow> 's device \<Rightarrow> (int \<times> 's device) outcome" where
  "kvlib_print ioctl d =
     (case device_open d of (fd, d) \<Rightarrow>
      if fd < 0 then Ret (- 1, d)
      else obind (ioctl IOCTL_PRINT d) (\<lambda>(r, req, d). if r \<noteq> 0 then Ret (- 2, d) else Ret (0, device_release d)))"

section \<open>What the library promises over a module\<close>

lemma copy_string [simp]: "copy_from_user (k @ [0]) (int (length k) + 1) = Some (k @ [0])"
  by (simp add: copy_from_user_def)

lemma mem_string_cstring [simp]: "cstring k \<Longrightarrow> mem_string (k @ 0 # r) = Ret k"
  by (simp add: mem_string_def takeWhile_cstring)

lemma mem_string_store:
  assumes "cstring v" "length v < length buf"
  shows "mem_store buf 0 (v @ [0]) = Ret (v @ 0 # drop (Suc (length v)) buf)"
  using assms by (simp add: mem_store_def)

text \<open>
  The contract of a store behind its device: \<open>inv M s\<close>, the store holds the map \<open>M\<close>; \<open>fits k v s\<close>,
  it can take the couple; \<open>absent\<close>, what \<open>del_key\<close> answers for an absent key.
\<close>

locale kv_module =
  fixes ioctl :: "'s ioctl"
    and set_keyval :: "byte list \<Rightarrow> byte list \<Rightarrow> 's \<Rightarrow> (int \<times> 's) outcome"
    and get_keyval :: "byte list \<Rightarrow> 's \<Rightarrow> (int \<times> byte list option) outcome"
    and del_key :: "byte list \<Rightarrow> 's \<Rightarrow> (int \<times> 's) outcome"
    and inv :: "(byte list \<rightharpoonup> byte list) \<Rightarrow> 's \<Rightarrow> bool"
    and fits :: "byte list \<Rightarrow> byte list \<Rightarrow> 's \<Rightarrow> bool"
    and vm :: "'s \<Rightarrow> nat \<Rightarrow> bool" and psize :: "'s \<Rightarrow> nat" and absent :: int
  assumes set_cmd: "ioctl (IOCTL_SET kv) d = obind (ioctl_set (vm (core d)) set_keyval kv (core d)) (\<lambda>(kv, s). Ret (0, IOCTL_SET kv, d\<lparr>core := s\<rparr>))"
    and get_cmd: "ioctl (IOCTL_GET kv) d = obind (ioctl_get (vm (core d)) (psize (core d)) get_keyval kv (core d)) (\<lambda>kv. Ret (0, IOCTL_GET kv, d))"
    and del_cmd: "ioctl (IOCTL_DEL kv) d = obind (ioctl_del (vm (core d)) del_key kv (core d)) (\<lambda>(kv, s). Ret (0, IOCTL_DEL kv, d\<lparr>core := s\<rparr>))"
    and memory: "inv M s \<Longrightarrow> vm s n"
    and strings: "inv M s \<Longrightarrow> M k = Some v \<Longrightarrow> cstring v"
    and set_ok: "inv M s \<Longrightarrow> fits k v s \<Longrightarrow> cstring k \<and> cstring v \<and> (\<exists>t. set_keyval k v s = Ret (0, t) \<and> inv (M(k \<mapsto> v)) t)"
    and get_ok: "inv M s \<Longrightarrow> cstring k \<Longrightarrow> (case M k of None \<Rightarrow> get_keyval k s = Ret (- 1, None)
        | Some v \<Rightarrow> \<exists>p :: nat. get_keyval k s = Ret (int p, Some v))"
    and del_ok: "inv M s \<Longrightarrow> cstring k \<Longrightarrow> (case M k of None \<Rightarrow> del_key k s = Ret (absent, s)
        | Some v \<Rightarrow> \<exists>(p :: nat) t. del_key k s = Ret (int p, t) \<and> inv (M(k := None)) t)"
begin

lemma kvlib_set_ok:
  assumes "\<not> file_is_open d" "inv M (core d)" "fits k v (core d)"
  shows "\<exists>t. kvlib_set ioctl k v d = Ret (0, d\<lparr>core := t\<rparr>) \<and> inv (M(k \<mapsto> v)) t"
proof -
  obtain t where t: "cstring k" "cstring v" "set_keyval k v (core d) = Ret (0, t)" "inv (M(k \<mapsto> v)) t"
    using set_ok [OF assms(2,3)] by blast
  then have "kvlib_set ioctl k v d = Ret (0, d\<lparr>core := t\<rparr>)"
    using assms(1) memory [OF assms(2)]
    by (cases d) (simp add: kvlib_set_def device_open_def device_release_def Let_def set_cmd ioctl_set_def set_code_def)
  with t(4) show ?thesis by blast
qed

lemma kvlib_get_present:
  assumes "\<not> file_is_open d" "inv M (core d)" "cstring k" "M k = Some v"
    and "room val = Ret n" "length v < length (heap n)" "length v < length val"
  shows "kvlib_get ioctl heap room k val d = Ret (0, v @ 0 # drop (Suc (length v)) val, d)"
proof -
  obtain p where p: "get_keyval k (core d) = Ret (int p, Some v)" using get_ok [OF assms(2,3)] assms(4) by auto
  have v: "cstring v" by (rule strings [OF assms(2,4)])
  show ?thesis
    using assms(1,3,5-7) p v memory [OF assms(2)]
    by (cases d) (simp add: kvlib_get_def device_open_def device_release_def Let_def get_cmd ioctl_get_def mem_string_store get_code_def)
qed

text \<open>For an absent key the caller gets whatever string was in the library's buffer.\<close>

lemma kvlib_get_absent:
  assumes "\<not> file_is_open d" "inv M (core d)" "cstring k" "M k = None"
    and "room val = Ret n" "mem_string (heap n) = Ret x" "length x < length val"
  shows "\<exists>val'. kvlib_get ioctl heap room k val d = Ret (- 3, val', d)"
proof -
  have p: "get_keyval k (core d) = Ret (- 1, None)" using get_ok [OF assms(2,3)] assms(4) by simp
  show ?thesis
    using assms(1,3,5-7) p memory [OF assms(2)]
    by (cases d) (simp add: kvlib_get_def device_open_def device_release_def Let_def get_cmd ioctl_get_def get_code_def mem_store_def)
qed

lemma kvlib_del_ok:
  assumes "\<not> file_is_open d" "inv M (core d)" "cstring k"
  shows "case M k of None \<Rightarrow> kvlib_del ioctl k d = Ret (get_code absent, d)
    | Some v \<Rightarrow> \<exists>t. kvlib_del ioctl k d = Ret (0, d\<lparr>core := t\<rparr>) \<and> inv (M(k := None)) t"
proof (cases "M k")
  case None
  then have "del_key k (core d) = Ret (absent, core d)" using del_ok [OF assms(2,3)] by simp
  with None assms(1,3) memory [OF assms(2)] show ?thesis
    by (cases d) (simp add: kvlib_del_def device_open_def device_release_def Let_def del_cmd ioctl_del_def)
next
  case (Some v)
  then obtain p t where t: "del_key k (core d) = Ret (int p, t)" "inv (M(k := None)) t" using del_ok [OF assms(2,3)] by auto
  then have "kvlib_del ioctl k d = Ret (0, d\<lparr>core := t\<rparr>)"
    using assms(1,3) memory [OF assms(2)]
    by (cases d) (simp add: kvlib_del_def device_open_def device_release_def Let_def del_cmd ioctl_del_def get_code_def)
  with t(2) Some show ?thesis by auto
qed

end

section \<open>Two processes opening the device\<close>

lemma two_openers:
  assumes "p \<noteq> q" "pcs r p = Idle" "pcs r q = Idle" "\<not> open_flag r"
  shows "\<exists>t. open_step\<^sup>*\<^sup>* r t \<and> pcs t p = Opened \<and> pcs t q = Opened"
proof -
  let ?a = "r\<lparr>pcs := (pcs r)(p := Checked)\<rparr>"
  let ?b = "?a\<lparr>pcs := (pcs ?a)(q := Checked)\<rparr>"
  let ?c = "?b\<lparr>open_flag := True, pcs := (pcs ?b)(p := Opened)\<rparr>"
  let ?d = "?c\<lparr>open_flag := True, pcs := (pcs ?c)(q := Opened)\<rparr>"
  have a: "open_step r ?a" by (rule open_step.read_free) (use assms in simp_all)
  have b: "open_step ?a ?b" by (rule open_step.read_free) (use assms in simp_all)
  have c: "open_step ?b ?c" by (rule open_step.set_open) (use assms in simp)
  have d: "open_step ?c ?d" by (rule open_step.set_open) (use assms in simp)
  have "open_step\<^sup>*\<^sup>* r ?d"
    by (rule converse_rtranclp_into_rtranclp [OF a converse_rtranclp_into_rtranclp [OF b
          converse_rtranclp_into_rtranclp [OF c r_into_rtranclp [of open_step, OF d]]]])
  moreover have "pcs ?d p = Opened" "pcs ?d q = Opened" using assms(1) by simp_all
  ultimately show ?thesis by blast
qed

text \<open>
  Two processes can both open the device: the flag is tested and set in two steps.
\<close>

theorem device_open_race:
  "\<exists>t. open_step\<^sup>*\<^sup>* \<lparr>open_flag = False, pcs = (\<lambda>_. Idle)\<rparr> t \<and> pcs t 1 = Opened \<and> pcs t 2 = Opened"
  by (rule two_openers) simp_all

end
