(* ===== verification/VanillaDevice.thy ===== *)
theory VanillaDevice
  imports VanillaProps UserSpace
begin

text \<open>
  The first prototype behind its device file (\<open>p6/prototype-vanilla/kernel/device.c\<close>), loading
  and unloading of the module (\<open>core.c\<close>), and its library (\<open>user/kvlib.c\<close>).
\<close>

definition vanilla_ioctl :: "'m kernel \<Rightarrow> 'm lkp_kv_cfg ioctl" where
  "vanilla_ioctl K req d =
     (case req of
        IOCTL_FORMAT arg \<Rightarrow>
          obind (format K (core d)) (\<lambda>(ret, s). Ret (0, IOCTL_FORMAT (map_option (\<lambda>_. ret) arg), d\<lparr>core := s\<rparr>))
      | IOCTL_SET kv \<Rightarrow>
          obind (ioctl_set (k_alloc K (flash (core d))) (set_keyval K) kv (core d)) (\<lambda>(kv, s). Ret (0, IOCTL_SET kv, d\<lparr>core := s\<rparr>))
      | IOCTL_GET kv \<Rightarrow>
          obind (ioctl_get (k_alloc K (flash (core d))) (page_size (core d)) (get_keyval K) kv (core d)) (\<lambda>kv. Ret (0, IOCTL_GET kv, d))
      | _ \<Rightarrow> Ret (- 8, req, d))"

definition vanilla_device_init :: "'m kernel \<Rightarrow> 'm lkp_kv_cfg device \<Rightarrow> int \<times> 'm lkp_kv_cfg device" where
  "vanilla_device_init K d =
     (let d = d\<lparr>file_is_open := False\<rparr> in
      if k_register_chrdev K (flash (core d)) < 0 then (- 1, d) else (0, d))"

definition vanilla_lkp_kv_init :: "'m kernel \<Rightarrow> int \<Rightarrow> 'm lkp_kv_cfg device \<Rightarrow> (int \<times> 'm lkp_kv_cfg device) outcome" where
  "vanilla_lkp_kv_init K MTD_INDEX d =
     obind (init_config K MTD_INDEX (core d)) (\<lambda>(r, s).
       let d = d\<lparr>core := s\<rparr> in
       if r \<noteq> 0 then Ret (- 1, d)
       else case vanilla_device_init K d of (r, d) \<Rightarrow> if r \<noteq> 0 then Ret (- 1, d) else Ret (0, d))"

definition vanilla_lkp_kv_exit :: "'m lkp_kv_cfg device \<Rightarrow> 'm lkp_kv_cfg device" where
  "vanilla_lkp_kv_exit d = d\<lparr>core := destroy_config (core d)\<rparr>"

text \<open>The answer of the module is received in an object of \<open>strlen(value) + 1\<close> bytes.\<close>

definition vanilla_kvlib_format :: "'m kernel \<Rightarrow> int \<Rightarrow> 'm lkp_kv_cfg device \<Rightarrow> (int \<times> 'm lkp_kv_cfg device) outcome" where
  "vanilla_kvlib_format K = kvlib_format (vanilla_ioctl K)"

definition vanilla_kvlib_set :: "'m kernel \<Rightarrow> byte list \<Rightarrow> byte list \<Rightarrow> 'm lkp_kv_cfg device \<Rightarrow> (int \<times> 'm lkp_kv_cfg device) outcome" where
  "vanilla_kvlib_set K = kvlib_set (vanilla_ioctl K)"

definition vanilla_kvlib_get :: "'m kernel \<Rightarrow> (nat \<Rightarrow> byte list) \<Rightarrow> byte list \<Rightarrow> byte list \<Rightarrow> 'm lkp_kv_cfg device
    \<Rightarrow> (int \<times> byte list \<times> 'm lkp_kv_cfg device) outcome" where
  "vanilla_kvlib_get K heap = kvlib_get (vanilla_ioctl K) heap (\<lambda>val. obind (mem_string val) (\<lambda>x. Ret (length x + 1)))"

section \<open>Properties\<close>

text \<open>
  The library of the first prototype receives a value in an object sized by what the
  caller's buffer happens to hold: a longer value is written past its end.
\<close>

theorem vanilla_library_overflow:
  assumes "\<not> file_is_open d" and "get_keyval K k (core d) = Ret (p, Some v)" "0 \<le> p" and "cstring k" "cstring v"
    and "mem_string val = Ret x" "length x < length v" and "\<forall>n. length (heap n) = n" and "\<forall>n. k_alloc K (flash (core d)) n"
  shows "vanilla_kvlib_get K heap k val d = Fault"
proof -
  have "mem_store (heap (length x + 1)) 0 (v @ [0]) = Fault" using assms(7,8) by (simp add: mem_store_def)
  with assms show ?thesis
    by (simp add: vanilla_kvlib_get_def kvlib_get_def device_open_def vanilla_ioctl_def ioctl_get_def Let_def)
qed

theorem vanilla_library_overflow_witness:
  "vanilla_kvlib_get demo_K (\<lambda>n. replicate n 0) [97, 98] [0, 0, 0, 0] \<lparr>file_is_open = False, core = demo_one\<rparr> = Fault"
proof -
  have g: "get_keyval demo_K [97, 98] (core \<lparr>file_is_open = False, core = demo_one\<rparr>) = Ret (0, Some [120])"
    by code_simp
  show ?thesis
    by (rule vanilla_library_overflow [OF _ g, of "[0, 0, 0, 0]" "[]"])
       (simp_all add: cstring_def mem_string_def demo_K_def nandsim_def)
qed

end
