(* ===== verification/HashTable.thy ===== *)
theory HashTable
  imports Prelude
begin

text \<open>
  The in-memory index of the second and third prototypes
  (\<open>p6/prototype-serial/kernel/hash.c\<close>, \<open>p6/prototype-parallel/kernel/hash.c\<close>): an array of
  buckets with open addressing and linear probing.  A bucket that was ever passed over by an
  insertion is marked dirty, and a search stops at the first clean bucket.  The list node
  \<open>p_list\<close> of a bucket is kept with the block it is linked to, \<open>b_state\<close> is never used.  The
  contents of \<open>key\<close> is the C string it holds.  The two files differ in the array's capacity for
  the key and in where its size comes from; the interface they share is the locale
  \<open>key_index\<close>, interpreted on both.
\<close>

section \<open>Buckets\<close>

text \<open>
  A C enumeration holds an \<open>int\<close>: a bucket read back from flash may have a value that is none
  of the enumerators.
\<close>

datatype page_state = PG_FREE | PG_VALID | PG_VALUE int

record bucket =
  dirty :: bool
  index :: int
  key :: "byte list"
  p_state :: page_state

section \<open>Hash function\<close>

text \<open>\<open>c\<close> is a signed \<open>char\<close> widened to \<open>int\<close>; the sum is taken in \<open>unsigned int\<close>.\<close>

definition hash :: "byte list \<Rightarrow> 32 word" where
  "hash str = foldl (\<lambda>h c. (push_bit 5 h + h) + scast c) 5381 str"

section \<open>Probing\<close>

text \<open>
  The loops of both functions, \<open>left\<close> being \<open>hash_size - 1 - count\<close>.  \<open>add_probe\<close> returns the
  first free bucket; \<open>None\<close> when the bucket at \<open>count = hash_size - 1\<close> is taken as well.
\<close>

fun add_probe :: "nat \<Rightarrow> nat \<Rightarrow> nat \<Rightarrow> bucket list \<Rightarrow> (nat option \<times> bucket list) outcome" where
  "add_probe hash_size left hash_index ht =
     obind (arr_get ht (int hash_index)) (\<lambda>b.
       if p_state b = PG_FREE then Ret (Some hash_index, ht)
       else let ht = ht[hash_index := b\<lparr>dirty := True\<rparr>] in
         (case left of 0 \<Rightarrow> Ret (None, ht)
          | Suc left \<Rightarrow> add_probe hash_size left ((hash_index + 1) mod hash_size) ht))"

declare add_probe.simps [simp del]

fun search_probe :: "nat \<Rightarrow> nat \<Rightarrow> nat \<Rightarrow> byte list \<Rightarrow> bucket list \<Rightarrow> int outcome" where
  "search_probe hash_size 0 hash_index k ht = Ret (- 1)"
| "search_probe hash_size (Suc left) hash_index k ht =
     obind (arr_get ht (int hash_index)) (\<lambda>b.
       if p_state b \<noteq> PG_FREE \<and> key b = k then Ret (int hash_index)
       else if \<not> dirty b then Ret (- 2)
       else search_probe hash_size left ((hash_index + 1) mod hash_size) k ht)"

text \<open>\<open>strcpy\<close> into \<open>key[cap]\<close> writes the string and its NUL.\<close>

definition fill_bucket :: "nat \<Rightarrow> nat \<Rightarrow> byte list \<Rightarrow> int \<Rightarrow> bucket list \<Rightarrow> (int \<times> bucket list) outcome" where
  "fill_bucket cap h k i ht =
     (if cap \<le> length k then Fault
      else Ret (int h, ht[h := (ht ! h)\<lparr>p_state := PG_VALID, key := k, index := i\<rparr>]))"

definition KEY_MAX :: nat where "KEY_MAX = 128"

text \<open>Serial prototype; \<open>hash_size\<close> is \<open>config->nb_blocks * config->pages_per_block\<close>.\<close>

definition hash_add :: "nat \<Rightarrow> bucket list \<Rightarrow> byte list \<Rightarrow> int \<Rightarrow> (int \<times> bucket list) outcome" where
  "hash_add hash_size ht k i =
     (if hash_size = 0 then Fault
      else obind (add_probe hash_size (hash_size - 1) (unat (hash k) mod hash_size) ht) (\<lambda>(r, ht).
        case r of None \<Rightarrow> Ret (- 1, ht) | Some h \<Rightarrow> fill_bucket KEY_MAX h k i ht))"

definition hash_search :: "nat \<Rightarrow> bucket list \<Rightarrow> byte list \<Rightarrow> int outcome" where
  "hash_search hash_size ht k =
     (if hash_size = 0 then Fault
      else search_probe hash_size (hash_size - 1) (unat (hash k) mod hash_size) k ht)"

text \<open>Parallel prototype: \<open>HASH_SIZE\<close> is a global, \<open>hash\<close> reduces by it, and \<open>key\<close> has 88 bytes.\<close>

definition PAR_KEY_MAX :: nat where "PAR_KEY_MAX = 88"

definition par_hash :: "nat \<Rightarrow> byte list \<Rightarrow> nat" where
  "par_hash HASH_SIZE str =
     unat (foldl (\<lambda>h c. (push_bit 5 h + h) + scast c) (5381 :: 32 word) str) mod HASH_SIZE"

text \<open>
  The loops of this prototype count up to \<open>HASH_SIZE - 1\<close>; as \<open>count\<close> starts at 0 and grows by one,
  the test \<open>count == HASH_SIZE - 1\<close> is that it is not below.
\<close>

function par_add_loop :: "nat \<Rightarrow> nat \<Rightarrow> nat \<Rightarrow> bucket list \<Rightarrow> (nat option \<times> bucket list) outcome" where
  "par_add_loop HASH_SIZE count hash_index ht =
     obind (arr_get ht (int hash_index)) (\<lambda>b.
       if p_state b = PG_FREE then Ret (Some hash_index, ht)
       else let ht = ht[hash_index := b\<lparr>dirty := True\<rparr>] in
         if HASH_SIZE - 1 \<le> count then Ret (None, ht)
         else par_add_loop HASH_SIZE (count + 1) ((hash_index + 1) mod HASH_SIZE) ht)"
  by pat_completeness auto

termination by (relation "measure (\<lambda>(n, count, _). n - count)") auto

function par_search_loop :: "nat \<Rightarrow> nat \<Rightarrow> nat \<Rightarrow> byte list \<Rightarrow> bucket list \<Rightarrow> int outcome" where
  "par_search_loop HASH_SIZE counter hash_index k ht =
     (if HASH_SIZE - 1 \<le> counter then Ret (- 1)
      else obind (arr_get ht (int hash_index)) (\<lambda>b.
        if p_state b \<noteq> PG_FREE \<and> key b = k then Ret (int hash_index)
        else if \<not> dirty b then Ret (- 2)
        else par_search_loop HASH_SIZE (counter + 1) ((hash_index + 1) mod HASH_SIZE) k ht))"
  by pat_completeness auto

termination by (relation "measure (\<lambda>(n, counter, _). n - counter)") auto

declare par_add_loop.simps [simp del] par_search_loop.simps [simp del]

text \<open>The block number the insertion computes is not used, but it is a division.\<close>

definition par_hash_add :: "nat \<Rightarrow> nat \<Rightarrow> bucket list \<Rightarrow> byte list \<Rightarrow> int \<Rightarrow> (int \<times> bucket list) outcome" where
  "par_hash_add pages_per_block HASH_SIZE ht k i =
     (if HASH_SIZE = 0 then Fault
      else obind (par_add_loop HASH_SIZE 0 (par_hash HASH_SIZE k) ht) (\<lambda>(r, ht).
        case r of None \<Rightarrow> Ret (- 1, ht)
        | Some h \<Rightarrow>
            if pages_per_block = 0 then Fault
            else if PAR_KEY_MAX \<le> length k then Fault
            else Ret (int h, ht[h := (ht ! h)\<lparr>p_state := PG_VALID, key := k, index := i\<rparr>])))"

definition par_hash_search :: "nat \<Rightarrow> bucket list \<Rightarrow> byte list \<Rightarrow> int outcome" where
  "par_hash_search HASH_SIZE ht k =
     (if HASH_SIZE = 0 then Fault
      else par_search_loop HASH_SIZE 0 (par_hash HASH_SIZE k mod HASH_SIZE) k ht)"

text \<open>The loops of the two prototypes do the same, counting in opposite directions.\<close>

lemma par_add_loop_eq:
  "count < n \<Longrightarrow> par_add_loop n count h ht = add_probe n (n - 1 - count) h ht"
proof (induction n count h ht rule: par_add_loop.induct)
  case (1 n count h ht)
  show ?case
  proof (cases "arr_get ht (int h)")
    case (Ret b)
    show ?thesis
    proof (cases "n - 1 \<le> count")
      case True
      then show ?thesis using Ret by (simp add: par_add_loop.simps [of n count] add_probe.simps [of n])
    next
      case False
      then obtain l where l: "n - 1 - count = Suc l" "n - 1 - (count + 1) = l" by (metis Suc_diff_Suc Suc_eq_plus1 not_le)
      with "1.IH" [OF Ret _ refl False] Ret False show ?thesis
        by (simp add: par_add_loop.simps [of n count] add_probe.simps [of n "Suc l"] Let_def)
    qed
  qed (simp_all add: par_add_loop.simps [of n count] add_probe.simps [of n])
qed

lemma par_search_loop_eq:
  "par_search_loop n counter h k ht = search_probe n (n - 1 - counter) h k ht"
proof (induction n counter h k ht rule: par_search_loop.induct)
  case (1 n counter h k ht)
  show ?case
  proof (cases "n - 1 \<le> counter")
    case True
    then show ?thesis by (simp add: par_search_loop.simps [of n counter])
  next
    case False
    then obtain l where l: "n - 1 - counter = Suc l" "n - 1 - (counter + 1) = l" by (metis Suc_diff_Suc Suc_eq_plus1 not_le)
    show ?thesis
      using "1.IH" [OF False] False l by (cases "arr_get ht (int h)") (simp_all add: par_search_loop.simps [of n counter])
  qed
qed

lemma par_hash_add_probe:
  "par_hash_add pages_per_block n ht k i =
     (if n = 0 then Fault
      else obind (add_probe n (n - 1) (par_hash n k) ht) (\<lambda>(r, ht).
        case r of None \<Rightarrow> Ret (- 1, ht)
        | Some h \<Rightarrow> if pages_per_block = 0 then Fault else fill_bucket PAR_KEY_MAX h k i ht))"
  unfolding par_hash_add_def fill_bucket_def by (simp add: par_add_loop_eq)

lemma par_hash_search_probe:
  "par_hash_search n ht k = (if n = 0 then Fault else search_probe n (n - 1) (par_hash n k mod n) k ht)"
  by (simp add: par_hash_search_def par_search_loop_eq)

text \<open>\<open>hashtable[hash_idx].p_state = PG_FREE\<close>, as every invalidation of an entry does.\<close>

definition release :: "nat \<Rightarrow> bucket list \<Rightarrow> bucket list" where
  "release h ht = ht[h := (ht ! h)\<lparr>p_state := PG_FREE\<rparr>]"


section \<open>The interface of an index\<close>

text \<open>
  What the store relies on.  \<open>entry t h\<close> is the key and page number that slot \<open>h\<close> holds; an
  insertion of an absent key into an index with room takes a free slot, and a search finds
  exactly the keys that are present.
\<close>

locale key_index =
  fixes add :: "'t \<Rightarrow> byte list \<Rightarrow> int \<Rightarrow> (int \<times> 't) outcome"
    and search :: "'t \<Rightarrow> byte list \<Rightarrow> int outcome"
    and drop_slot :: "nat \<Rightarrow> 't \<Rightarrow> 't"
    and entry :: "'t \<Rightarrow> nat \<Rightarrow> (byte list \<times> int) option"
    and ok :: "'t \<Rightarrow> bool" and room :: "'t \<Rightarrow> bool" and cap :: nat
  assumes entry_unique: "ok t \<Longrightarrow> entry t h = Some (k, i) \<Longrightarrow> entry t h' = Some (k, i') \<Longrightarrow> h = h'"
    and search_present: "ok t \<Longrightarrow> entry t h = Some (k, i) \<Longrightarrow> search t k = Ret (int h)"
    and search_absent: "ok t \<Longrightarrow> \<forall>h i. entry t h \<noteq> Some (k, i) \<Longrightarrow> \<exists>r. search t k = Ret r \<and> r < 0"
    and add_absent: "ok t \<Longrightarrow> room t \<Longrightarrow> length k < cap \<Longrightarrow> \<forall>h i. entry t h \<noteq> Some (k, i) \<Longrightarrow>
      \<exists>h t'. add t k i = Ret (int h, t') \<and> ok t' \<and> entry t h = None
        \<and> entry t' = (entry t)(h \<mapsto> (k, i))"
    and drop_present: "ok t \<Longrightarrow> entry t h = Some x \<Longrightarrow>
      ok (drop_slot h t) \<and> entry (drop_slot h t) = (entry t)(h := None)"
begin

text \<open>The map the index implements.\<close>

definition lookup :: "'t \<Rightarrow> byte list \<Rightarrow> int option" where
  "lookup t k = (case search t k of
     Ret r \<Rightarrow> if 0 \<le> r then map_option snd (entry t (nat r)) else None | _ \<Rightarrow> None)"

lemma lookup_Some: "ok t \<Longrightarrow> lookup t k = Some i \<longleftrightarrow> (\<exists>h. entry t h = Some (k, i))"
proof
  assume ok: "ok t" and l: "lookup t k = Some i"
  show "\<exists>h. entry t h = Some (k, i)"
  proof (rule ccontr)
    assume none: "\<nexists>h. entry t h = Some (k, i)"
    show False
    proof (cases "\<exists>h j. entry t h = Some (k, j)")
      case True
      then obtain h j where e: "entry t h = Some (k, j)" by blast
      from search_present [OF ok e] e l none show False
        by (auto simp: lookup_def)
    next
      case False
      with search_absent [OF ok, of k] l show False by (auto simp: lookup_def)
    qed
  qed
next
  assume ok: "ok t" and "\<exists>h. entry t h = Some (k, i)"
  then obtain h where e: "entry t h = Some (k, i)" by blast
  from search_present [OF ok e] e show "lookup t k = Some i" by (simp add: lookup_def)
qed

lemma lookup_None: "ok t \<Longrightarrow> lookup t k = None \<longleftrightarrow> (\<forall>h i. entry t h \<noteq> Some (k, i))"
  using lookup_Some by (metis not_None_eq)

lemma lookup_add:
  assumes ok: "ok t" and "room t" and "length k < cap" and abs: "lookup t k = None"
    and a: "add t k i = Ret (r, t')"
  shows "ok t' \<and> 0 \<le> r \<and> lookup t' = (lookup t)(k \<mapsto> i)"
proof -
  from abs have none: "\<forall>h i. entry t h \<noteq> Some (k, i)" by (simp add: lookup_None ok)
  from add_absent [OF assms(1-3) none, of i] a obtain h where h: "r = int h" "ok t'" "entry t h = None"
    "entry t' = (entry t)(h \<mapsto> (k, i))" by auto
  have "lookup t' k' = Some j \<longleftrightarrow> ((lookup t)(k \<mapsto> i)) k' = Some j" for k' j
  proof (cases "k' = k")
    case True
    have "lookup t' k = Some i" using h by (auto simp: lookup_Some)
    with True show ?thesis by auto
  next
    case False
    have "(\<exists>h'. entry t' h' = Some (k', j)) \<longleftrightarrow> (\<exists>h'. entry t h' = Some (k', j))"
      using False h(3,4) by (metis fun_upd_apply option.inject option.simps(3) prod.inject)
    with False h(2) ok show ?thesis by (simp add: lookup_Some)
  qed
  then have "lookup t' = (lookup t)(k \<mapsto> i)"
    by (intro ext) (metis option.exhaust)
  with h show ?thesis by simp
qed

lemma lookup_drop:
  assumes ok: "ok t" and e: "entry t h = Some (k, i)"
  shows "ok (drop_slot h t) \<and> lookup (drop_slot h t) = (lookup t)(k := None)"
proof -
  note d = drop_present [OF ok e]
  have "lookup (drop_slot h t) k' = Some j \<longleftrightarrow> ((lookup t)(k := None)) k' = Some j" for k' j
  proof -
    have "(\<exists>h'. entry (drop_slot h t) h' = Some (k', j)) \<longleftrightarrow> k' \<noteq> k \<and> (\<exists>h'. entry t h' = Some (k', j))"
      using d e entry_unique [OF ok e]
      by (metis fun_upd_apply option.inject option.simps(3) prod.inject)
    with d ok show ?thesis by (simp add: lookup_Some)
  qed
  then have "lookup (drop_slot h t) = (lookup t)(k := None)"
    by (intro ext) (metis option.exhaust)
  with d show ?thesis by simp
qed

end

section \<open>The table as an index\<close>

definition entry :: "bucket list \<Rightarrow> nat \<Rightarrow> (byte list \<times> int) option" where
  "entry ht h = (if h < length ht \<and> p_state (ht ! h) \<noteq> PG_FREE
     then Some (key (ht ! h), index (ht ! h)) else None)"

text \<open>The bucket a key is looked for after \<open>d\<close> steps.\<close>

definition slot :: "nat \<Rightarrow> byte list \<Rightarrow> nat \<Rightarrow> nat" where
  "slot n k d = (unat (hash k) mod n + d) mod n"

text \<open>
  Every key in the table is reached from its home bucket over dirty buckets in fewer than
  \<open>hash_size - 1\<close> steps, the number of probes a search makes, and no key is there twice.
\<close>

definition index_ok :: "nat \<Rightarrow> bucket list \<Rightarrow> bool" where
  "index_ok n ht \<longleftrightarrow> 0 < n \<and> length ht = n
     \<and> (\<forall>h k i. entry ht h = Some (k, i) \<longrightarrow>
          (\<exists>d < n - 1. h = slot n k d \<and> (\<forall>e < d. dirty (ht ! slot n k e))))
     \<and> (\<forall>h h' k i i'. entry ht h = Some (k, i) \<longrightarrow> entry ht h' = Some (k, i') \<longrightarrow> h = h')"

definition occupied :: "bucket list \<Rightarrow> nat set" where
  "occupied ht = {h. h < length ht \<and> p_state (ht ! h) \<noteq> PG_FREE}"

text \<open>Two buckets are free: a search never probes the last bucket of a round.\<close>

definition index_room :: "nat \<Rightarrow> bucket list \<Rightarrow> bool" where
  "index_room n ht \<longleftrightarrow> card (occupied ht) + 2 \<le> n"

lemma occupied_dom: "occupied ht = dom (entry ht)"
  by (auto simp: occupied_def entry_def split: if_splits)

lemma finite_occupied [simp]: "finite (occupied ht)"
  by (rule finite_subset [of _ "{..<length ht}"]) (auto simp: occupied_def)

lemma slot_lt [simp]: "0 < n \<Longrightarrow> slot n k d < n"
  by (simp add: slot_def)

lemma slot_inj:
  assumes "slot n k d = slot n k e" and "d < n" and "e < n"
  shows "d = e"
proof -
  have "int d mod int n = int e mod int n"
    using assms(1) unfolding slot_def
    by (metis add_diff_cancel_left' mod_diff_left_eq of_nat_add zmod_int)
  with assms show ?thesis by simp
qed

lemma mod_Suc_step: "((h + 1) mod n + e) mod n = (h + Suc e) mod (n::nat)"
  by (simp add: mod_simps)

lemma search_probe_hit:
  "length ht = n \<Longrightarrow> h < n \<Longrightarrow> d < left \<Longrightarrow>
   (\<forall>e < d. dirty (ht ! ((h + e) mod n))) \<Longrightarrow>
   (\<forall>e < d. p_state (ht ! ((h + e) mod n)) = PG_FREE \<or> key (ht ! ((h + e) mod n)) \<noteq> k) \<Longrightarrow>
   p_state (ht ! ((h + d) mod n)) \<noteq> PG_FREE \<Longrightarrow> key (ht ! ((h + d) mod n)) = k \<Longrightarrow>
   search_probe n left h k ht = Ret (int ((h + d) mod n))"
proof (induction d arbitrary: h left)
  case 0
  then obtain l where "left = Suc l" by (cases left) auto
  with 0 show ?case by simp
next
  case (Suc d)
  then obtain l where l: "left = Suc l" by (cases left) auto
  have IH: "search_probe n l ((h + 1) mod n) k ht = Ret (int (((h + 1) mod n + d) mod n))"
  proof (rule Suc.IH)
    show "\<forall>e<d. dirty (ht ! (((h + 1) mod n + e) mod n))"
      unfolding mod_Suc_step using Suc.prems(4) by auto
    show "\<forall>e<d. p_state (ht ! (((h + 1) mod n + e) mod n)) = PG_FREE
        \<or> key (ht ! (((h + 1) mod n + e) mod n)) \<noteq> k"
      unfolding mod_Suc_step using Suc.prems(5) by auto
  qed (use Suc.prems l in \<open>simp_all add: mod_simps\<close>)
  have "dirty (ht ! h)" and "p_state (ht ! h) = PG_FREE \<or> key (ht ! h) \<noteq> k"
    using Suc.prems(2) Suc.prems(4)[rule_format, of 0] Suc.prems(5)[rule_format, of 0] by auto
  then show ?case
    using Suc.prems(1,2) l IH by (auto simp: mod_simps)
qed

lemma search_probe_miss:
  "length ht = n \<Longrightarrow> h < n \<Longrightarrow> \<forall>j < n. p_state (ht ! j) = PG_FREE \<or> key (ht ! j) \<noteq> k \<Longrightarrow>
   \<exists>r. search_probe n left h k ht = Ret r \<and> r < 0"
proof (induction left arbitrary: h)
  case (Suc left)
  have "(h + 1) mod n < n" using Suc.prems by simp
  from Suc.IH [OF Suc.prems(1) this Suc.prems(3)] Suc.prems show ?case
    by auto
qed simp

text \<open>An insertion marks the buckets it passes over and leaves their other fields alone.\<close>

definition marked :: "bucket list \<Rightarrow> bucket list \<Rightarrow> bool" where
  "marked ht ht' \<longleftrightarrow> length ht' = length ht
     \<and> (\<forall>j < length ht. p_state (ht' ! j) = p_state (ht ! j) \<and> key (ht' ! j) = key (ht ! j)
          \<and> index (ht' ! j) = index (ht ! j) \<and> (dirty (ht ! j) \<longrightarrow> dirty (ht' ! j)))"

lemma marked_refl [simp]: "marked ht ht" by (simp add: marked_def)

lemma marked_trans: "marked a b \<Longrightarrow> marked b c \<Longrightarrow> marked a c" by (simp add: marked_def)

lemma marked_dirty: "h < length ht \<Longrightarrow> marked ht (ht[h := (ht ! h)\<lparr>dirty := True\<rparr>])"
  by (auto simp: marked_def nth_list_update)

lemma marked_entry: "marked ht ht' \<Longrightarrow> entry ht' = entry ht"
  by (auto simp: marked_def entry_def fun_eq_iff)

lemma add_probe_free:
  "length ht = n \<Longrightarrow> h < n \<Longrightarrow> d \<le> left \<Longrightarrow>
   (\<forall>e < d. p_state (ht ! ((h + e) mod n)) \<noteq> PG_FREE) \<Longrightarrow>
   p_state (ht ! ((h + d) mod n)) = PG_FREE \<Longrightarrow>
   \<exists>ht'. add_probe n left h ht = Ret (Some ((h + d) mod n), ht') \<and> marked ht ht'
     \<and> (\<forall>e < d. dirty (ht' ! ((h + e) mod n)))"
proof (induction d arbitrary: h left ht)
  case 0
  then show ?case by (simp add: add_probe.simps)
next
  case (Suc d)
  then obtain l where l: "left = Suc l" by (cases left) auto
  let ?ht = "ht[h := (ht ! h)\<lparr>dirty := True\<rparr>]"
  have p: "p_state (?ht ! j) = p_state (ht ! j)" if "j < n" for j
    using that Suc.prems by (auto simp: nth_list_update)
  have n: "0 < n" using Suc.prems(2) by simp
  have "\<exists>ht'. add_probe n l ((h + 1) mod n) ?ht = Ret (Some (((h + 1) mod n + d) mod n), ht')
     \<and> marked ?ht ht' \<and> (\<forall>e < d. dirty (ht' ! (((h + 1) mod n + e) mod n)))"
  proof (rule Suc.IH)
    show "\<forall>e<d. p_state (?ht ! (((h + 1) mod n + e) mod n)) \<noteq> PG_FREE"
      unfolding mod_Suc_step using Suc.prems(4) n by (auto simp: p)
    show "p_state (?ht ! (((h + 1) mod n + d) mod n)) = PG_FREE"
      unfolding mod_Suc_step using Suc.prems(5) n by (auto simp: p)
  qed (use Suc.prems l in simp_all)
  then obtain ht' where a: "add_probe n l ((h + 1) mod n) ?ht = Ret (Some ((h + Suc d) mod n), ht')"
    and m: "marked ?ht ht'" and dd: "\<forall>e < d. dirty (ht' ! ((h + Suc e) mod n))"
    unfolding mod_Suc_step by blast
  have occ: "p_state (ht ! h) \<noteq> PG_FREE"
    using Suc.prems(2) Suc.prems(4)[rule_format, of 0] by simp
  have "dirty (ht' ! h)"
    using m Suc.prems(1,2) by (auto simp: marked_def nth_list_update)
  then have "\<forall>e < Suc d. dirty (ht' ! ((h + e) mod n))"
    using dd Suc.prems(2) by (auto simp: less_Suc_eq_0_disj)
  moreover have "marked ht ht'"
    using marked_trans [OF marked_dirty m] Suc.prems(1,2) by simp
  moreover have "add_probe n left h ht = add_probe n l ((h + 1) mod n) ?ht"
    using Suc.prems(1,2) occ l by (subst add_probe.simps) simp
  ultimately show ?case using a by auto
qed

text \<open>With two free buckets one of them is within the reach of a search.\<close>

lemma free_slot_exists:
  assumes n: "length ht = n" and room: "index_room n ht"
  obtains d where "d < n - 1" "p_state (ht ! slot n k d) = PG_FREE"
    "\<forall>e < d. p_state (ht ! slot n k e) \<noteq> PG_FREE"
proof -
  have "\<exists>d < n - 1. p_state (ht ! slot n k d) = PG_FREE"
  proof (rule ccontr)
    assume "\<not> ?thesis"
    then have sub: "slot n k ` {..<n - 1} \<subseteq> occupied ht"
      using n room by (auto simp: occupied_def index_room_def intro!: slot_lt)
    have "inj_on (slot n k) {..<n - 1}"
      by (auto intro!: inj_onI dest!: slot_inj)
    then have "card (slot n k ` {..<n - 1}) = n - 1" by (simp add: card_image)
    with card_mono [OF finite_occupied sub] room show False
      by (simp add: index_room_def)
  qed
  then obtain d0 where d0: "d0 < n - 1 \<and> p_state (ht ! slot n k d0) = PG_FREE" by blast
  define d where "d = (LEAST d. d < n - 1 \<and> p_state (ht ! slot n k d) = PG_FREE)"
  have d: "d < n - 1 \<and> p_state (ht ! slot n k d) = PG_FREE"
    unfolding d_def by (rule LeastI [where P = "\<lambda>d. d < n - 1 \<and> p_state (ht ! slot n k d) = PG_FREE", OF d0])
  have "\<forall>e < d. p_state (ht ! slot n k e) \<noteq> PG_FREE"
    using not_less_Least [where P = "\<lambda>d. d < n - 1 \<and> p_state (ht ! slot n k d) = PG_FREE", folded d_def] d
    by fastforce
  with d that show ?thesis by blast
qed


lemma index_ok_size: "index_ok n ht \<Longrightarrow> 0 < n \<and> length ht = n"
  by (simp add: index_ok_def)

lemma entry_release: "h < length ht \<Longrightarrow> entry (release h ht) = (entry ht)(h := None)"
  by (auto simp: entry_def release_def fun_eq_iff nth_list_update)

lemma index_ok_release:
  assumes ok: "index_ok n ht" and h: "h < length ht"
  shows "index_ok n (release h ht)"
proof -
  have d: "dirty (release h ht ! j) = dirty (ht ! j)" for j
    using h by (cases "j = h") (auto simp: release_def)
  have e: "entry ht j = Some x" if "entry (release h ht) j = Some x" for j x
    using that by (auto simp: entry_release [OF h] split: if_splits)
  have "length (release h ht) = length ht" by (simp add: release_def)
  with ok e show ?thesis
    unfolding index_ok_def d by metis
qed

lemma index_ok_search_present:
  assumes ok: "index_ok n ht" and e: "entry ht h = Some (k, i)"
  shows "search_probe n (n - 1) (unat (hash k) mod n) k ht = Ret (int h)"
proof -
  from ok e obtain d where d: "d < n - 1" "h = slot n k d" "\<forall>e < d. dirty (ht ! slot n k e)"
    and n: "length ht = n" "0 < n"
    unfolding index_ok_def by blast
  have other: "p_state (ht ! slot n k f) = PG_FREE \<or> key (ht ! slot n k f) \<noteq> k" if "f < d" for f
  proof (rule ccontr)
    assume "\<not> ?thesis"
    then have "entry ht (slot n k f) = Some (k, index (ht ! slot n k f))"
      using n by (simp add: entry_def)
    with ok e have "slot n k f = slot n k d"
      using d(2) unfolding index_ok_def by metis
    with slot_inj that d(1) show False by fastforce
  qed
  have "p_state (ht ! slot n k d) \<noteq> PG_FREE \<and> key (ht ! slot n k d) = k"
    using e d(2) by (auto simp: entry_def split: if_splits)
  then show ?thesis
    using search_probe_hit [of ht n "unat (hash k) mod n" d "n - 1" k] n d other
    by (auto simp: slot_def)
qed

lemma index_ok_search_absent:
  assumes ok: "index_ok n ht" and none: "\<forall>h i. entry ht h \<noteq> Some (k, i)"
  shows "\<exists>r. search_probe n (n - 1) (unat (hash k) mod n) k ht = Ret r \<and> r < 0"
proof (rule search_probe_miss)
  show "\<forall>j<n. p_state (ht ! j) = PG_FREE \<or> key (ht ! j) \<noteq> k"
    using index_ok_size [OF ok] none unfolding entry_def by (metis option.inject)
qed (use ok in \<open>auto simp: index_ok_def\<close>)

lemma index_ok_fill:
  assumes ok: "index_ok n ht" and m: "marked ht ht'" and none: "\<forall>h i. entry ht h \<noteq> Some (k, i)"
    and d: "d < n - 1" "entry ht (slot n k d) = None" "\<forall>e < d. dirty (ht' ! slot n k e)"
  shows "index_ok n (ht'[slot n k d := (ht' ! slot n k d)\<lparr>p_state := PG_VALID, key := k, index := i\<rparr>])"
    (is "index_ok n ?ht")
    and "entry (ht'[slot n k d := (ht' ! slot n k d)\<lparr>p_state := PG_VALID, key := k, index := i\<rparr>])
       = (entry ht)(slot n k d \<mapsto> (k, i))"
proof -
  have n: "0 < n" "length ht = n" "length ht' = n"
    using ok m by (auto simp: index_ok_def marked_def)
  have s: "slot n k d < n" using n by simp
  have dirt: "dirty (?ht ! j) = dirty (ht' ! j)" for j
    using n s by (cases "j = slot n k d") auto
  show ent: "entry ?ht = (entry ht)(slot n k d \<mapsto> (k, i))"
    using m n s by (auto simp: entry_def marked_def fun_eq_iff nth_list_update)
  have reach: "\<exists>c < n - 1. h = slot n k' c \<and> (\<forall>e < c. dirty (?ht ! slot n k' e))"
    if e: "entry ?ht h = Some (k', i')" for h k' i'
  proof (cases "h = slot n k d")
    case True
    with e have "k' = k" by (simp add: ent)
    with True d show ?thesis unfolding dirt by blast
  next
    case False
    with e have "entry ht h = Some (k', i')" by (simp add: ent)
    with ok obtain c where c: "c < n - 1" "h = slot n k' c" "\<forall>e < c. dirty (ht ! slot n k' e)"
      unfolding index_ok_def by metis
    have "\<forall>e < c. dirty (ht' ! slot n k' e)"
      using c(3) m n by (simp add: marked_def)
    with c(1,2) show ?thesis unfolding dirt by blast
  qed
  have uniq: "h = h'" if "entry ?ht h = Some (k', i1)" "entry ?ht h' = Some (k', i2)" for h h' k' i1 i2
    using that none ok unfolding ent index_ok_def by (auto split: if_splits)
  show "index_ok n ?ht"
    unfolding index_ok_def using reach uniq n by (metis length_list_update)
qed

lemma add_absent_found:
  assumes ok: "index_ok n ht" and room: "index_room n ht" and none: "\<forall>h i. entry ht h \<noteq> Some (k, i)"
    and cap: "length k < cap"
  obtains h ht1 ht2 where "add_probe n (n - 1) (unat (hash k) mod n) ht = Ret (Some h, ht1)"
    "fill_bucket cap h k i ht1 = Ret (int h, ht2)" "index_ok n ht2" "entry ht h = None"
    "entry ht2 = (entry ht)(h \<mapsto> (k, i))"
proof -
  have n: "0 < n" "length ht = n" using ok by (auto simp: index_ok_def)
  obtain d where d: "d < n - 1" "p_state (ht ! slot n k d) = PG_FREE"
    "\<forall>e < d. p_state (ht ! slot n k e) \<noteq> PG_FREE"
    using free_slot_exists [OF n(2) room, of k] by blast
  from add_probe_free [OF n(2), of "unat (hash k) mod n" d "n - 1"] d n
  obtain ht' where a: "add_probe n (n - 1) (unat (hash k) mod n) ht = Ret (Some (slot n k d), ht')"
    and m: "marked ht ht'" and dd: "\<forall>e < d. dirty (ht' ! slot n k e)"
    by (auto simp: slot_def)
  have free: "entry ht (slot n k d) = None" using d(2) by (simp add: entry_def)
  note f = index_ok_fill [OF ok m none d(1) free dd, of i]
  show ?thesis
    by (rule that [OF a _ f(1) free f(2)]) (use cap in \<open>simp add: fill_bucket_def\<close>)
qed

lemma par_hash_eq: "par_hash n k = unat (hash k) mod n"
  by (simp add: par_hash_def hash_def)

lemmas hash_add_absent_defs = hash_add_def par_hash_add_probe par_hash_eq

interpretation ht: key_index "hash_add n" "hash_search n" release entry "index_ok n" "index_room n" KEY_MAX
proof
  fix t h k i h' i'
  assume "index_ok n t" "entry t h = Some (k, i)" "entry t h' = Some (k, i')"
  then show "h = h'" unfolding index_ok_def by metis
next
  fix t h k i assume "index_ok n t" "entry t h = Some (k, i)"
  then show "hash_search n t k = Ret (int h)"
    using index_ok_size [of n t] by (auto simp: hash_search_def dest: index_ok_search_present)
next
  fix t k assume "index_ok n t" "\<forall>h i. entry t h \<noteq> Some (k, i)"
  then show "\<exists>r. hash_search n t k = Ret r \<and> r < 0"
    using index_ok_search_absent [of n t k] index_ok_size [of n t] by (auto simp: hash_search_def)
next
  fix t k i assume a: "index_ok n t" "index_room n t" "length k < KEY_MAX" "\<forall>h i. entry t h \<noteq> Some (k, i)"
  have "n \<noteq> 0" using a(1) by (simp add: index_ok_def)
  then show "\<exists>h t'. hash_add n t k i = Ret (int h, t') \<and> index_ok n t' \<and> entry t h = None
     \<and> entry t' = (entry t)(h \<mapsto> (k, i))"
    by (rule_tac add_absent_found [OF a(1,2,4,3), of i]) (auto simp: hash_add_absent_defs)
next
  fix t h x assume a: "index_ok n t" "entry t h = Some x"
  then have "h < length t" by (simp add: entry_def split: if_splits)
  with a show "index_ok n (release h t) \<and> entry (release h t) = (entry t)(h := None)"
    by (simp add: index_ok_release entry_release)
qed

interpretation pht: key_index "par_hash_add (Suc q) n" "par_hash_search n" release entry
  "index_ok n" "index_room n" PAR_KEY_MAX
proof
  fix t h k i h' i'
  assume "index_ok n t" "entry t h = Some (k, i)" "entry t h' = Some (k, i')"
  then show "h = h'" unfolding index_ok_def by metis
next
  fix t h k i assume "index_ok n t" "entry t h = Some (k, i)"
  then show "par_hash_search n t k = Ret (int h)"
    using index_ok_size [of n t] by (auto simp: par_hash_search_probe par_hash_eq dest: index_ok_search_present)
next
  fix t k assume "index_ok n t" "\<forall>h i. entry t h \<noteq> Some (k, i)"
  then show "\<exists>r. par_hash_search n t k = Ret r \<and> r < 0"
    using index_ok_search_absent [of n t k] index_ok_size [of n t]
    by (auto simp: par_hash_search_probe par_hash_eq)
next
  fix t k i assume a: "index_ok n t" "index_room n t" "length k < PAR_KEY_MAX" "\<forall>h i. entry t h \<noteq> Some (k, i)"
  have "n \<noteq> 0" using a(1) by (simp add: index_ok_def)
  then show "\<exists>h t'. par_hash_add (Suc q) n t k i = Ret (int h, t') \<and> index_ok n t' \<and> entry t h = None
     \<and> entry t' = (entry t)(h \<mapsto> (k, i))"
    by (rule_tac add_absent_found [OF a(1,2,4,3), of i]) (auto simp: hash_add_absent_defs)
next
  fix t h x assume a: "index_ok n t" "entry t h = Some x"
  then have "h < length t" by (simp add: entry_def split: if_splits)
  with a show "index_ok n (release h t) \<and> entry (release h t) = (entry t)(h := None)"
    by (simp add: index_ok_release entry_release)
qed


section \<open>Facts outside the contract\<close>

lemma search_probe_exhausted:
  "length ht = n \<Longrightarrow> h < n \<Longrightarrow> \<forall>e < left. dirty (ht ! ((h + e) mod n)) \<and> key (ht ! ((h + e) mod n)) \<noteq> k \<Longrightarrow>
   search_probe n left h k ht = Ret (- 1)"
proof (induction left arbitrary: h)
  case (Suc left)
  have "\<forall>e < left. dirty (ht ! (((h + 1) mod n + e) mod n)) \<and> key (ht ! (((h + 1) mod n + e) mod n)) \<noteq> k"
    unfolding mod_Suc_step using Suc.prems(3) by auto
  with Suc.IH [of "(h + 1) mod n"] Suc.prems have "search_probe n left ((h + 1) mod n) k ht = Ret (- 1)" by simp
  moreover have "dirty (ht ! h) \<and> key (ht ! h) \<noteq> k"
    using Suc.prems(2) Suc.prems(3) [rule_format, of 0] by simp
  ultimately show ?case using Suc.prems(1,2) by simp
qed simp

text \<open>An entry at the last bucket of a round is stored but never found.\<close>

lemma last_bucket_lost:
  assumes n: "length ht = n" "0 < n" and free: "p_state (ht ! slot n k (n - 1)) = PG_FREE"
    and taken: "\<forall>d < n - 1. p_state (ht ! slot n k d) \<noteq> PG_FREE \<and> key (ht ! slot n k d) \<noteq> k" and k: "length k < KEY_MAX"
  shows "\<exists>ht'. hash_add n ht k i = Ret (int (slot n k (n - 1)), ht') \<and> entry ht' (slot n k (n - 1)) = Some (k, i)
     \<and> hash_search n ht' k = Ret (- 1)"
proof -
  let ?h = "unat (hash k) mod n" and ?z = "slot n k (n - 1)"
  have h: "?h < n" using n(2) by simp
  have occ: "\<forall>e < n - 1. p_state (ht ! ((?h + e) mod n)) \<noteq> PG_FREE" using taken by (simp add: slot_def)
  obtain ht1 where a: "add_probe n (n - 1) ?h ht = Ret (Some ?z, ht1)" "marked ht ht1" "\<forall>e < n - 1. dirty (ht1 ! slot n k e)"
    using add_probe_free [OF n(1) h order_refl occ] free by (auto simp: slot_def)
  define ht2 where "ht2 = ht1[?z := (ht1 ! ?z)\<lparr>p_state := PG_VALID, key := k, index := i\<rparr>]"
  have l: "length ht1 = n" "length ht2 = n" using a(2) n(1) by (simp_all add: marked_def ht2_def)
  have z: "?z < n" using n(2) by simp
  have add: "hash_add n ht k i = Ret (int ?z, ht2)" using n a(1) k by (simp add: hash_add_def fill_bucket_def ht2_def)
  have ent: "entry ht2 ?z = Some (k, i)" using l z by (simp add: entry_def ht2_def)
  have probe: "dirty (ht2 ! slot n k e) \<and> key (ht2 ! slot n k e) \<noteq> k" if e: "e < n - 1" for e
  proof -
    have "slot n k e \<noteq> ?z" using slot_inj [of n k e "n - 1"] e by auto
    then show ?thesis using a(2,3) taken e n by (auto simp: ht2_def marked_def)
  qed
  have "hash_search n ht2 k = Ret (- 1)"
    using n(2) search_probe_exhausted [OF l(2) h, of "n - 1" k] probe by (simp add: hash_search_def slot_def)
  with add ent show ?thesis by blast
qed

lemma add_long_key:
  assumes ok: "index_ok n ht" and room: "index_room n ht" and k: "KEY_MAX \<le> length k"
  shows "hash_add n ht k i = Fault"
proof -
  note n = index_ok_size [OF ok]
  obtain d where d: "d < n - 1" "p_state (ht ! slot n k d) = PG_FREE" "\<forall>e < d. p_state (ht ! slot n k e) \<noteq> PG_FREE"
    using free_slot_exists [of ht n k] n room by blast
  with add_probe_free [of ht n "unat (hash k) mod n" d "n - 1"] n
  obtain ht' where "add_probe n (n - 1) (unat (hash k) mod n) ht = Ret (Some (slot n k d), ht')"
    by (auto simp: slot_def)
  with n k show ?thesis by (simp add: hash_add_def fill_bucket_def)
qed

lemma par_search_eq: "par_hash_search n ht k = hash_search n ht k"
  by (simp add: par_hash_search_probe hash_search_def par_hash_eq)

lemma par_add_eq: "length k < PAR_KEY_MAX \<Longrightarrow> par_hash_add (Suc q) n ht k i = hash_add n ht k i"
  by (simp add: par_hash_add_probe hash_add_def par_hash_eq fill_bucket_def PAR_KEY_MAX_def KEY_MAX_def
      split: option.splits cong: option.case_cong)

lemma par_add_long:
  "PAR_KEY_MAX \<le> length k \<Longrightarrow> hash_add n ht k i = Ret (r, ht') \<Longrightarrow> 0 \<le> r \<Longrightarrow> par_hash_add (Suc q) n ht k i = Fault"
  by (auto simp: par_hash_add_probe hash_add_def par_hash_eq fill_bucket_def obind_eq_Ret split: if_splits option.splits)

lemma index_room_release: "index_room n ht \<Longrightarrow> index_room n (release h ht)"
proof -
  assume r: "index_room n ht"
  have "occupied (release h ht) \<subseteq> occupied ht" by (cases "h < length ht") (auto simp: occupied_def release_def nth_list_update split: if_splits)
  then have "card (occupied (release h ht)) \<le> card (occupied ht)" by (rule card_mono [OF finite_occupied])
  with r show ?thesis by (simp add: index_room_def)
qed

end
