(* ===== verification/Serial.thy ===== *)
theory Serial
  imports KernelEnv HashTable PageFormat
begin

text \<open>
  The second prototype of the store (\<open>p6/prototype-serial/kernel/core.c\<close>): couples are found
  through the in-memory hash table, an update writes a new page and invalidates the old one,
  blocks with too many invalid pages are collected, and the block table and the hash table are
  flushed to metadata blocks of the same partition, from which a later load restores them.
  One definition per function of the source over the record of its global \<open>config\<close> extended
  with the globals \<open>time_flush\<close> and \<open>time_write\<close> and the device state.  The list of valid pages
  of a block is the list of the indices of its buckets, in list order; the sizes of the tables
  in bytes are natural numbers.  Every reading of the clock is an argument.
\<close>

section \<open>State (core.h)\<close>

datatype blk_state = BLK_FREE | BLK_USED | BLK_META | BLK_INVALID | BLK_VALUE int

record blk_info =
  valid_list :: "nat list"
  state :: blk_state
  worn :: int
  nb_invalid :: int
  current_page_offset :: int

record 'm lkp_kv_cfg =
  mtd :: "mtd_info option"
  mtd_index :: int
  nb_blocks :: nat
  block_size :: nat
  page_size :: nat
  pages_per_block :: nat
  blocks :: "blk_info list"
  hashtable :: "bucket list"
  meta_blkordr :: "int list"
  format_done :: int
  read_only :: bool
  format_lock :: nat
  hashtable_size :: nat
  block_info_size :: nat
  metadata_size :: nat
  nb_meta_pages :: nat
  nb_meta_blocks :: nat
  time_flush :: "64 word"
  time_write :: "64 word"
  flash :: 'm

text \<open>What \<open>getnstimeofday\<close> returns.\<close>

record timespec =
  tv_sec :: int
  tv_nsec :: int

definition INVALID_THRESHOLD :: int where "INVALID_THRESHOLD = 48"
definition RESERVED_PG_CNT :: int where "RESERVED_PG_CNT = 1"
definition META_HDR_BASE :: int where "META_HDR_BASE = 1990"
definition NAND_DATA :: int where "NAND_DATA = 123"
definition NAND_META_DATA :: int where "NAND_META_DATA = 456"

text \<open>\<open>sizeof(blk_info)\<close> and \<open>sizeof(bucket)\<close> on a 64-bit machine.\<close>

definition SIZEOF_BLK_INFO :: nat where "SIZEOF_BLK_INFO = 24"
definition SIZEOF_BUCKET :: nat where "SIZEOF_BUCKET = 168"

definition blk_state_int :: "blk_state \<Rightarrow> int" where
  "blk_state_int x = (case x of BLK_FREE \<Rightarrow> 0 | BLK_USED \<Rightarrow> 1 | BLK_META \<Rightarrow> 2 | BLK_INVALID \<Rightarrow> 3 | BLK_VALUE i \<Rightarrow> i)"

definition int_blk_state :: "int \<Rightarrow> blk_state" where
  "int_blk_state i = (if i = 0 then BLK_FREE else if i = 1 then BLK_USED else if i = 2 then BLK_META
     else if i = 3 then BLK_INVALID else BLK_VALUE i)"

definition page_state_int :: "page_state \<Rightarrow> int" where
  "page_state_int x = (case x of PG_FREE \<Rightarrow> 0 | PG_VALID \<Rightarrow> 1 | PG_VALUE i \<Rightarrow> i)"

definition int_page_state :: "int \<Rightarrow> page_state" where
  "int_page_state i = (if i = 0 then PG_FREE else if i = 1 then PG_VALID else PG_VALUE i)"

text \<open>The number of buckets of the hash table.\<close>

abbreviation hash_size :: "'m lkp_kv_cfg \<Rightarrow> nat" where
  "hash_size s \<equiv> nb_blocks s * pages_per_block s"

text \<open>Updating one element of the block table; the subscript may be out of range.\<close>

definition upd_block :: "int \<Rightarrow> (blk_info \<Rightarrow> blk_info) \<Rightarrow> 'm lkp_kv_cfg \<Rightarrow> 'm lkp_kv_cfg outcome" where
  "upd_block i f s = obind (arr_upd (blocks s) i f) (\<lambda>bs. Ret (s\<lparr>blocks := bs\<rparr>))"

definition upd_block_of :: "int \<Rightarrow> (blk_info \<Rightarrow> blk_info) \<Rightarrow> 'm lkp_kv_cfg \<Rightarrow> 'm lkp_kv_cfg outcome" where
  "upd_block_of page_index f s =
     (if pages_per_block s = 0 then Fault else upd_block (c_div page_index (pages_per_block s)) f s)"

section \<open>Pages and blocks\<close>

definition read_page :: "'m heap_kernel \<Rightarrow> int \<Rightarrow> 'm lkp_kv_cfg \<Rightarrow> int \<times> byte list" where
  "read_page K page_index s =
     k_read K (flash s) (page_addr page_index (page_size s)) (page_size s)"

definition is_read_only :: "'m lkp_kv_cfg \<Rightarrow> bool" where
  "is_read_only s \<longleftrightarrow> list_all (\<lambda>b. \<not> current_page_offset b < int (pages_per_block s)) (blocks s)"

definition write_page :: "'m heap_kernel \<Rightarrow> int \<Rightarrow> byte list \<Rightarrow> 'm lkp_kv_cfg \<Rightarrow> (int \<times> 'm lkp_kv_cfg) outcome" where
  "write_page K page_index buf s =
     (if read_only s then Ret (- 1, s)
      else case k_write K (flash s) (page_addr page_index (page_size s)) buf of (ret, m) \<Rightarrow>
        let s = s\<lparr>flash := m\<rparr> in
        if ret \<noteq> 0 then Ret (- 2, s)
        else obind (upd_block_of page_index (\<lambda>b. b\<lparr>current_page_offset := current_page_offset b + 1\<rparr>) s) (\<lambda>s.
          if is_read_only s then Ret (- 1, s\<lparr>read_only := True\<rparr>) else Ret (0, s)))"

text \<open>The loops that look for the least worn block satisfying a condition.\<close>

definition least_worn :: "(blk_info \<Rightarrow> bool) \<Rightarrow> blk_info list \<Rightarrow> int" where
  "least_worn c bs =
     snd (foldl (\<lambda>(minimum, ret) i. if c (bs ! i) \<and> worn (bs ! i) < minimum
                                    then (worn (bs ! i), int i) else (minimum, ret))
            (2147483647, - 1) [0..<length bs])"

definition get_healthy_block :: "'m lkp_kv_cfg \<Rightarrow> int" where
  "get_healthy_block s =
     least_worn (\<lambda>b. state b \<noteq> BLK_INVALID \<and> current_page_offset b < int (pages_per_block s)) (blocks s)"

definition get_meta_block :: "'m lkp_kv_cfg \<Rightarrow> int" where
  "get_meta_block s =
     (let ret = least_worn (\<lambda>b. state b \<noteq> BLK_META \<and> current_page_offset b = 0) (blocks s) in
      if ret \<noteq> - 1 then ret
      else least_worn (\<lambda>b. state b \<noteq> BLK_META \<and> current_page_offset b < int (pages_per_block s)) (blocks s))"

text \<open>The value \<open>write_page\<close> returns is ignored.\<close>

definition write_hdr :: "'m heap_kernel \<Rightarrow> int \<Rightarrow> int \<Rightarrow> int \<Rightarrow> 'm lkp_kv_cfg \<Rightarrow> 'm lkp_kv_cfg outcome" where
  "write_hdr K pg_idx data meta_blk_num s =
     (case k_kmalloc K (flash s) (page_size s) of
        None \<Rightarrow> Bug
      | Some _ \<Rightarrow>
          let buf = replicate (page_size s) 0 in
          if data = NAND_DATA then
            obind (write_page K pg_idx buf s) (\<lambda>(ret, s).
              upd_block_of pg_idx (\<lambda>b. b\<lparr>state := BLK_USED\<rparr>) s)
          else if data = NAND_META_DATA then
            obind (mem_store buf 0 (int_bytes META_HDR_BASE)) (\<lambda>buf.
            obind (mem_store buf 4 (int_bytes meta_blk_num)) (\<lambda>buf.
            obind (write_page K pg_idx buf s) (\<lambda>(ret, s). Ret s)))
          else Ret s)"

definition get_next_page :: "'m heap_kernel \<Rightarrow> 'm lkp_kv_cfg \<Rightarrow> (int \<times> 'm lkp_kv_cfg) outcome" where
  "get_next_page K s =
     (let target_block = get_healthy_block s in
      if target_block = - 1 then Ret (- 1, s)
      else obind (arr_get (blocks s) target_block) (\<lambda>b.
        if current_page_offset b < RESERVED_PG_CNT then
          obind (upd_block target_block (\<lambda>b. b\<lparr>state := BLK_USED\<rparr>) s) (\<lambda>s.
          obind (write_hdr K (target_block * int (pages_per_block s) + current_page_offset b) NAND_DATA 0 s) (\<lambda>s.
            Ret (target_block, s)))
        else Ret (target_block, s)))"

section \<open>Lists of valid pages\<close>

text \<open>
  \<open>list_del\<close> poisons the node, so removing a bucket that is on no list is a wild access;
  \<open>list_add\<close> puts the node at the head, and linking a node twice destroys the list.
\<close>

definition linked :: "nat \<Rightarrow> 'm lkp_kv_cfg \<Rightarrow> bool" where
  "linked h s \<longleftrightarrow> list_ex (\<lambda>b. List.member (valid_list b) h) (blocks s)"

definition list_del :: "nat \<Rightarrow> 'm lkp_kv_cfg \<Rightarrow> 'm lkp_kv_cfg outcome" where
  "list_del h s =
     (if linked h s
      then Ret (s\<lparr>blocks := map (\<lambda>b. b\<lparr>valid_list := removeAll h (valid_list b)\<rparr>) (blocks s)\<rparr>)
      else Fault)"

definition list_add :: "int \<Rightarrow> int \<Rightarrow> 'm lkp_kv_cfg \<Rightarrow> 'm lkp_kv_cfg outcome" where
  "list_add h blk s =
     (if \<not> in_range h (hashtable s) \<or> linked (nat h) s then Fault
      else upd_block blk (\<lambda>b. b\<lparr>valid_list := nat h # valid_list b\<rparr>) s)"

definition invalid_pg :: "int \<Rightarrow> 'm lkp_kv_cfg \<Rightarrow> 'm lkp_kv_cfg outcome" where
  "invalid_pg hash_idx s =
     (if \<not> in_range hash_idx (hashtable s) then Fault
      else let h = nat hash_idx; s = s\<lparr>hashtable := release h (hashtable s)\<rparr> in
        obind (upd_block_of (index (hashtable s ! h)) (\<lambda>b. b\<lparr>nb_invalid := nb_invalid b + 1\<rparr>) s)
          (list_del h))"

section \<open>Format\<close>

definition format_callback :: "erase_state \<Rightarrow> 'm lkp_kv_cfg \<Rightarrow> 'm lkp_kv_cfg" where
  "format_callback st s =
     (if st \<noteq> MTD_ERASE_DONE then s\<lparr>format_done := - 1\<rparr> else s\<lparr>format_done := 1\<rparr>)"

text \<open>
  The erase and the polling loop that follows it; the loop is left once the callback has run
  (see the theory of the handshake), never if the driver does not call it.
\<close>

definition erase_wait :: "'m heap_kernel \<Rightarrow> nat \<Rightarrow> nat \<Rightarrow> 'm lkp_kv_cfg \<Rightarrow> (bool \<times> 'm lkp_kv_cfg) outcome" where
  "erase_wait K addr len s =
     (let s = s\<lparr>format_done := 0\<rparr> in
      case k_erase K (flash s) addr len of (ret, cb, m) \<Rightarrow>
        let s = s\<lparr>flash := m\<rparr> in
        if ret \<noteq> 0 then Ret (False, s)
        else case cb of None \<Rightarrow> Hang | Some st \<Rightarrow> Ret (True, format_callback st s))"

definition format_single :: "'m heap_kernel \<Rightarrow> int \<Rightarrow> 'm lkp_kv_cfg \<Rightarrow> (int \<times> 'm lkp_kv_cfg) outcome" where
  "format_single K idx s =
     (if idx < 0 then Ret (0, s)
      else obind (erase_wait K (page_addr idx (block_size s)) (block_size s) s) (\<lambda>(started, s).
        if \<not> started \<or> format_done s = - 1 then Ret (- 1, s)
        else obind (upd_block idx (\<lambda>b. b\<lparr>state := BLK_FREE, nb_invalid := 0, current_page_offset := 0,
                                        worn := worn b + 1, valid_list := []\<rparr>) s) (\<lambda>s.
          Ret (0, s\<lparr>read_only := False\<rparr>))))"

definition format :: "'m heap_kernel \<Rightarrow> 'm lkp_kv_cfg \<Rightarrow> (int \<times> 'm lkp_kv_cfg) outcome" where
  "format K s =
     obind (erase_wait K 0 (block_size s * nb_blocks s) s) (\<lambda>(started, s).
       if \<not> started then Ret (- 1, s)
       else if format_done s = - 1 then Ret (- 2, s)
       else Ret (0, s\<lparr>read_only := False,
         blocks := map (\<lambda>b. b\<lparr>valid_list := [], state := BLK_FREE, worn := 0, nb_invalid := 0,
                              current_page_offset := 0\<rparr>) (blocks s),
         hashtable := map (\<lambda>b. b\<lparr>p_state := PG_FREE, dirty := False\<rparr>) (hashtable s)\<rparr>))"


section \<open>Garbage collection\<close>

text \<open>
  The loop that should look for a free block tests the enumerator \<open>BLK_FREE\<close> itself, which is 0,
  so it never selects one.
\<close>

definition find_victim :: "'m lkp_kv_cfg \<Rightarrow> int" where
  "find_victim s = foldl (\<lambda>victim_blk i.
       if blk_state_int BLK_FREE \<noteq> 0 then
         if victim_blk = - 1 then int i
         else if worn (blocks s ! i) < worn (blocks s ! nat victim_blk) then int i else victim_blk
       else victim_blk) (- 1) [0..<nb_blocks s]"

definition find_target :: "'m lkp_kv_cfg \<Rightarrow> nat option" where
  "find_target s = List.find (\<lambda>i. INVALID_THRESHOLD \<le> nb_invalid (blocks s ! i)) [0..<nb_blocks s]"

text \<open>The node after \<open>h\<close> on a list (\<open>None\<close>: the list head); \<open>h\<close> must be on it.\<close>

definition next_node :: "nat list \<Rightarrow> nat \<Rightarrow> nat option outcome" where
  "next_node xs h = (case dropWhile (\<lambda>x. x \<noteq> h) xs of [] \<Rightarrow> Fault | [_] \<Rightarrow> Ret None | _ # y # _ \<Rightarrow> Ret (Some y))"

text \<open>
  Step 1, the walk over the valid pages of the target block.  \<open>recs\<close> are the pairs
  \<open>key_len[i], val_len[i]\<close> recorded so far, whose number is \<open>valid_cnt\<close> (the arrays have
  \<open>pages_per_block\<close> elements, \<open>left\<close> of them are unused); page \<open>i\<close> is read to the offset
  \<open>i * pages_per_block\<close> of the buffer.
\<close>

fun gc_collect :: "'m heap_kernel \<Rightarrow> nat \<Rightarrow> nat \<Rightarrow> nat option \<Rightarrow> (int \<times> int) list \<Rightarrow> byte list \<Rightarrow> 'm lkp_kv_cfg
    \<Rightarrow> ((int \<times> int) list \<times> byte list \<times> 'm lkp_kv_cfg) outcome" where
  "gc_collect K target_blk left None recs buffer s = Ret (recs, buffer, s)"
| "gc_collect K target_blk left (Some current_page) recs buffer s =
     obind (arr_get (blocks s) (int target_blk)) (\<lambda>tb.
     obind (next_node (valid_list tb) current_page) (\<lambda>nxt.
     obind (arr_get (hashtable s) (int current_page)) (\<lambda>b.
       let off = int (length recs * pages_per_block s) in
       if c_div (index b) (pages_per_block s) \<noteq> int target_blk then Ret (recs, buffer, s)
       else case read_page K (index b) s of (ret, page) \<Rightarrow>
         obind (mem_store buffer off page) (\<lambda>buffer.
         if ret \<noteq> 0 then Bug
         else (case left of
           0 \<Rightarrow> Fault
         | Suc left \<Rightarrow>
             obind (mem_slice buffer off 4) (\<lambda>kl.
             obind (mem_slice buffer (off + 4) 4) (\<lambda>vl.
               let key_len = bytes_int kl; val_len = bytes_int vl in
               case k_kmalloc K (flash s) (nat (key_len + 1)) of
                 None \<Rightarrow> Bug
               | Some _ \<Rightarrow>
                   obind (mem_slice buffer (off + 8) key_len) (\<lambda>src.
                   obind (hash_search (hash_size s) (hashtable s) (takeWhile (\<lambda>c. c \<noteq> 0) src)) (\<lambda>hash_index.
                   obind (invalid_pg hash_index s) (\<lambda>s.
                     gc_collect K target_blk left nxt (recs @ [(key_len, val_len)]) buffer s))))))))))"

text \<open>Step 3 for record \<open>i\<close>: the record is copied onto itself, then written and indexed again.\<close>

definition gc_write :: "'m heap_kernel \<Rightarrow> int \<Rightarrow> nat \<times> (int \<times> int) \<Rightarrow> byte list \<times> 'm lkp_kv_cfg
    \<Rightarrow> (byte list \<times> 'm lkp_kv_cfg) outcome" where
  "gc_write K victim_blk r bs =
     (case (r, bs) of ((i, key_len, val_len), (buffer, s)) \<Rightarrow>
      let off = int (i * pages_per_block s) in
      obind (mem_store buffer off (int_bytes key_len)) (\<lambda>buffer.
      obind (mem_store buffer (off + 4) (int_bytes val_len)) (\<lambda>buffer.
      obind (mem_slice buffer (off + 8) key_len) (\<lambda>cur_key.
      obind (mem_store buffer (off + 8) (strncpy_bytes cur_key)) (\<lambda>buffer.
      obind (mem_slice buffer (off + 8 + key_len) val_len) (\<lambda>cur_val.
      obind (mem_store buffer (off + 8 + key_len) (strncpy_bytes cur_val)) (\<lambda>buffer.
      obind (arr_get (blocks s) victim_blk) (\<lambda>vb.
        let pg_index = victim_blk * int (pages_per_block s) + current_page_offset vb in
        case k_kmalloc K (flash s) (nat (key_len + 1)) of
          None \<Rightarrow> Bug
        | Some _ \<Rightarrow>
            obind (mem_slice buffer (off + 8) key_len) (\<lambda>src.
            obind (mem_slice buffer off (int (page_size s))) (\<lambda>page.
            obind (write_page K pg_index page s) (\<lambda>(ret, s).
            obind (hash_add (hash_size s) (hashtable s) (takeWhile (\<lambda>c. c \<noteq> 0) src) pg_index) (\<lambda>(ret2, ht).
              if ret < 0 \<or> ret2 < 0 then Bug
              else obind (list_add ret2 victim_blk (s\<lparr>hashtable := ht\<rparr>)) (\<lambda>s. Ret (buffer, s))))))))))))))"

definition gc :: "'m heap_kernel \<Rightarrow> 'm lkp_kv_cfg \<Rightarrow> 'm lkp_kv_cfg outcome" where
  "gc K s =
     (case find_target s of
        None \<Rightarrow> Ret s
      | Some target_blk1 \<Rightarrow>
          let victim_blk = (if find_victim s = - 1 then int target_blk1 else find_victim s);
              size = page_size s * pages_per_block s in
          case k_kmalloc K (flash s) size of
            None \<Rightarrow> Bug
          | Some mem \<Rightarrow>
              let buffer = replicate size 0 @ drop size mem;
                  lst = valid_list (blocks s ! target_blk1) in
              obind (gc_collect K target_blk1 (pages_per_block s) (case lst of [] \<Rightarrow> None | h # _ \<Rightarrow> Some h) [] buffer s)
                (\<lambda>(recs, buffer, s).
              obind (format_single K victim_blk s) (\<lambda>(_, s).
              obind (arr_get (blocks s) victim_blk) (\<lambda>vb.
              obind (write_hdr K (victim_blk * int (pages_per_block s) + current_page_offset vb) NAND_DATA 0 s) (\<lambda>s.
              obind (ofold (gc_write K victim_blk) (enumerate 0 recs) (buffer, s)) (\<lambda>(buffer, s).
                upd_block victim_blk (\<lambda>b. b\<lparr>state := BLK_USED\<rparr>) s))))))"

definition gb_check :: "'m heap_kernel \<Rightarrow> 'm lkp_kv_cfg \<Rightarrow> 'm lkp_kv_cfg outcome" where
  "gb_check K s =
     (if list_ex (\<lambda>b. INVALID_THRESHOLD \<le> nb_invalid b) (blocks s) then gc K s else Ret s)"

section \<open>Metadata\<close>

text \<open>
  One page of the loop of \<open>move_pages_to_other_block\<close>, with the contents of the local \<open>key\<close>
  buffer.  The first component is the code of an early return.
\<close>

definition move_page :: "'m heap_kernel \<Rightarrow> nat \<Rightarrow> nat \<Rightarrow> nat \<Rightarrow> int option \<times> byte list \<times> 'm lkp_kv_cfg
    \<Rightarrow> (int option \<times> byte list \<times> 'm lkp_kv_cfg) outcome" where
  "move_page K victim_block val_size i st =
     (case st of (Some r, kbuf, s) \<Rightarrow> Ret st
      | (None, kbuf, s) \<Rightarrow>
          let page_index = int (victim_block * pages_per_block s + i) in
          case read_page K page_index s of (ret, buffer) \<Rightarrow>
          if ret \<noteq> 0 then Ret (Some (- 4), kbuf, s)
          else
            let key_len = bytes_int buffer; val_len = bytes_int (drop 4 buffer) in
            if \<not> 0 < key_len then Ret (None, kbuf, s)
            else obind (mem_slice buffer 8 key_len) (\<lambda>k.
                 obind (mem_store kbuf 0 k) (\<lambda>kbuf.
            if \<not> 0 < val_len then Ret (None, kbuf, s)
            else obind (mem_slice buffer (8 + key_len) val_len) (\<lambda>v.
                 if int val_size < val_len then Fault
                 else obind (mem_string kbuf) (\<lambda>k.
                 obind (hash_search (hash_size s) (hashtable s) k) (\<lambda>hash_index.
                   if hash_index < 0 then Ret (None, kbuf, s)
                   else obind (invalid_pg hash_index s) (\<lambda>s.
                        obind (get_next_page K s) (\<lambda>(target_block, s).
                        obind (arr_get (blocks s) target_block) (\<lambda>tb.
                          let target_index = target_block * int (pages_per_block s) + current_page_offset tb in
                          obind (write_page K target_index buffer s) (\<lambda>(_, s).
                          obind (hash_add (hash_size s) (hashtable s) k target_index) (\<lambda>(h, ht).
                          obind (list_add h target_block (s\<lparr>hashtable := ht\<rparr>)) (\<lambda>s.
                            Ret (None, kbuf, s)))))))))))))"

definition move_pages_to_other_block :: "'m heap_kernel \<Rightarrow> int \<Rightarrow> 'm lkp_kv_cfg \<Rightarrow> (int \<times> 'm lkp_kv_cfg) outcome" where
  "move_pages_to_other_block K victim_block s =
     obind (arr_get (blocks s) victim_block) (\<lambda>b.
       if state b = BLK_FREE then Ret (0, s)
       else case (k_kmalloc K (flash s) 128, k_kmalloc K (flash s) (page_size s)) of
         (Some kbuf, Some val) \<Rightarrow>
           obind (if state b = BLK_USED then
                    obind (upd_block victim_block (\<lambda>b. b\<lparr>state := BLK_INVALID\<rparr>) s) (\<lambda>s.
                      ofold (move_page K (nat victim_block) (length val)) [1..<pages_per_block s] (None, kbuf, s))
                  else Ret (None, kbuf, s)) (\<lambda>(early, _, s).
             case early of Some r \<Rightarrow> Ret (r, s) | None \<Rightarrow> format_single K victim_block s)
       | _ \<Rightarrow> Ret (- 2, s))"

text \<open>The bytes of the two tables as \<open>memcpy\<close> sees them, \<open>off\<close> being the offset in the image.\<close>

definition stale :: "'m heap_kernel \<Rightarrow> nat \<Rightarrow> nat \<Rightarrow> byte list" where
  "stale K off n = map (k_stale K) [off..<off + n]"

definition blk_info_bytes :: "'m heap_kernel \<Rightarrow> nat \<Rightarrow> blk_info \<Rightarrow> byte list" where
  "blk_info_bytes K off b = stale K off 8 @ int_bytes (blk_state_int (state b)) @ int_bytes (worn b)
     @ int_bytes (nb_invalid b) @ int_bytes (current_page_offset b)"

definition bucket_bytes :: "'m heap_kernel \<Rightarrow> nat \<Rightarrow> bucket \<Rightarrow> byte list" where
  "bucket_bytes K off b = stale K off 16 @ int_bytes (if dirty b then 1 else 0) @ int_bytes (index b)
     @ take KEY_MAX (key b @ 0 # stale K (off + 25 + length (key b)) (KEY_MAX - 1))
     @ int_bytes (page_state_int (p_state b)) @ stale K (off + 156) 12"

definition tables_bytes :: "'m heap_kernel \<Rightarrow> 'm lkp_kv_cfg \<Rightarrow> byte list" where
  "tables_bytes K s =
     concat (map (\<lambda>(i, b). blk_info_bytes K (i * SIZEOF_BLK_INFO) b) (enumerate 0 (blocks s)))
     @ concat (map (\<lambda>(i, b). bucket_bytes K (block_info_size s + i * SIZEOF_BUCKET) b) (enumerate 0 (hashtable s)))"

definition bytes_blk_info :: "byte list \<Rightarrow> blk_info" where
  "bytes_blk_info bs = \<lparr>valid_list = [], state = int_blk_state (bytes_int (drop 8 bs)), worn = bytes_int (drop 12 bs),
     nb_invalid = bytes_int (drop 16 bs), current_page_offset = bytes_int (drop 20 bs)\<rparr>"

definition bytes_bucket :: "byte list \<Rightarrow> bucket" where
  "bytes_bucket bs = \<lparr>dirty = (bytes_int (drop 16 bs) \<noteq> 0), index = bytes_int (drop 20 bs),
     key = takeWhile (\<lambda>c. c \<noteq> 0) (take KEY_MAX (drop 24 bs)), p_state = int_page_state (bytes_int (drop 152 bs))\<rparr>"

definition flush_target :: "'m heap_kernel \<Rightarrow> nat \<Rightarrow> 'm lkp_kv_cfg \<Rightarrow> 'm lkp_kv_cfg outcome" where
  "flush_target K i s =
     (let target_block = get_meta_block s in
      obind (move_pages_to_other_block K target_block s) (\<lambda>(_, s).
      obind (arr_upd (meta_blkordr s) (int i) (\<lambda>_. target_block)) (\<lambda>mo.
        upd_block target_block (\<lambda>b. b\<lparr>state := BLK_META\<rparr>) (s\<lparr>meta_blkordr := mo\<rparr>))))"

text \<open>Writing metadata block \<open>i\<close>; \<open>offset\<close> counts the pages written, \<open>True\<close> is an early return.\<close>

definition flush_page :: "'m heap_kernel \<Rightarrow> byte list \<Rightarrow> int \<Rightarrow> nat \<Rightarrow> bool \<times> nat \<times> 'm lkp_kv_cfg
    \<Rightarrow> (bool \<times> nat \<times> 'm lkp_kv_cfg) outcome" where
  "flush_page K buffer blk j st =
     (case st of (failed, offset, s) \<Rightarrow>
      if failed then Ret st
      else obind (mem_slice buffer (int (page_size s * offset)) (int (page_size s))) (\<lambda>page.
           obind (write_page K (blk * int (pages_per_block s) + int j) page s) (\<lambda>(r, s).
             if r \<noteq> 0 then Ret (True, offset, s) else Ret (False, offset + 1, s))))"

definition flush_block :: "'m heap_kernel \<Rightarrow> byte list \<Rightarrow> nat \<Rightarrow> bool \<times> nat \<times> 'm lkp_kv_cfg
    \<Rightarrow> (bool \<times> nat \<times> 'm lkp_kv_cfg) outcome" where
  "flush_block K buffer i st =
     (case st of (failed, offset, s) \<Rightarrow>
      if failed then Ret st
      else obind (arr_get (meta_blkordr s) (int i)) (\<lambda>blk.
           obind (write_hdr K (blk * int (pages_per_block s)) NAND_META_DATA (int i) s) (\<lambda>s.
             ofold (flush_page K buffer blk) [1..<pages_per_block s] (False, offset, s))))"

definition clock :: "timespec \<Rightarrow> 64 word" where
  "clock ts = word_of_int (tv_sec ts * 1000000 + tv_nsec ts)"

definition flush_metadata :: "'m heap_kernel \<Rightarrow> timespec \<Rightarrow> 'm lkp_kv_cfg \<Rightarrow> (int \<times> 'm lkp_kv_cfg) outcome" where
  "flush_metadata K ts_flush s =
     (case k_kmalloc K (flash s) (page_size s * nb_meta_pages s) of
        None \<Rightarrow> Ret (- 1, s)
      | Some buffer \<Rightarrow>
          obind (ofold (\<lambda>i s. obind (arr_get (meta_blkordr s) (int i)) (\<lambda>blk.
                               obind (format_single K blk s) (\<lambda>(_, s). Ret s))) [0..<nb_meta_blocks s] s) (\<lambda>s.
          obind (ofold (flush_target K) [0..<nb_meta_blocks s] s) (\<lambda>s.
          obind (mem_store buffer 0 (tables_bytes K s)) (\<lambda>buffer.
          obind (ofold (flush_block K buffer) [0..<nb_meta_blocks s] (False, 0, s)) (\<lambda>(failed, _, s).
            if failed then Ret (- 2, s)
            else Ret (0, s\<lparr>time_flush := clock ts_flush\<rparr>))))))"

section \<open>The operations of the store\<close>

text \<open>\<open>ts_write\<close> and \<open>ts_flush\<close> are the readings of the clock in \<open>set_keyval\<close> and in the flush it may start.\<close>

definition set_keyval :: "'m heap_kernel \<Rightarrow> timespec \<Rightarrow> timespec \<Rightarrow> byte list \<Rightarrow> byte list \<Rightarrow> 'm lkp_kv_cfg
    \<Rightarrow> (int \<times> 'm lkp_kv_cfg) outcome" where
  "set_keyval K ts_write ts_flush k val s =
     (if length k + length val + 8 > page_size s then Ret (- 1, s)
      else if read_only s then Ret (- 3, s)
      else if k_kmalloc K (flash s) (page_size s) = None then Bug
      else
        obind (hash_search (hash_size s) (hashtable s) k) (\<lambda>hash_idx.
        obind (if 0 \<le> hash_idx then invalid_pg hash_idx s else Ret s) (\<lambda>s.
        obind (fill_buffer (page_size s) k val) (\<lambda>buffer.
        obind (get_next_page K s) (\<lambda>(target_block, s).
        obind (arr_get (blocks s) target_block) (\<lambda>tb.
          let idx = target_block * int (pages_per_block s) + current_page_offset tb in
          obind (write_page K idx buffer s) (\<lambda>(ret, s).
          obind (hash_add (hash_size s) (hashtable s) k idx) (\<lambda>(ret2, ht).
          obind (list_add ret2 target_block (s\<lparr>hashtable := ht\<rparr>)) (\<lambda>s.
          obind (gb_check K s) (\<lambda>s.
            let s = s\<lparr>time_write := clock ts_write\<rparr> in
            obind (if 1000000 \<le> time_write s - time_flush s
                   then obind (flush_metadata K ts_flush s) (\<lambda>(_, s). Ret s) else Ret s) (\<lambda>s.
              if ret = - 1 then Ret (- 3, s)
              else if ret = - 2 then Ret (- 4, s)
              else if ret2 < 0 then Ret (- 5, s)
              else Ret (0, s))))))))))))"

text \<open>The second component is what is copied to \<open>val\<close>, which has the size of a page.\<close>

definition get_keyval :: "'m heap_kernel \<Rightarrow> byte list \<Rightarrow> 'm lkp_kv_cfg \<Rightarrow> (int \<times> byte list option) outcome" where
  "get_keyval K k s =
     obind (hash_search (hash_size s) (hashtable s) k) (\<lambda>hash_index.
       if k_kmalloc K (flash s) (page_size s) = None then Bug
       else if hash_index < 0 then Ret (- 1, None)
       else obind (arr_get (hashtable s) hash_index) (\<lambda>e.
            obind (arr_get (blocks s) (c_div (index e) (pages_per_block s))) (\<lambda>b.
              if state b \<noteq> BLK_USED then Ret (- 1, None)
              else if p_state e = PG_FREE then Ret (- 1, None)
              else case read_page K (index e) s of (ret, buffer) \<Rightarrow>
                if ret \<noteq> 0 then Ret (- 2, None)
                else
                  let key_len = bytes_int buffer; val_len = bytes_int (drop 4 buffer) in
                  obind (strncmp_eq (drop 8 buffer) (k @ [0]) (length k)) (\<lambda>eq.
                    if eq then
                      obind (mem_slice buffer (8 + key_len) val_len) (\<lambda>v.
                        if int (page_size s) \<le> val_len then Fault
                        else Ret (index e, Some v))
                    else Ret (- 1, None)))))"

definition del_key :: "byte list \<Rightarrow> 'm lkp_kv_cfg \<Rightarrow> (int \<times> 'm lkp_kv_cfg) outcome" where
  "del_key k s =
     obind (hash_search (hash_size s) (hashtable s) k) (\<lambda>hash_index.
       if hash_index < 0 then Ret (- 2, s)
       else obind (arr_get (hashtable s) hash_index) (\<lambda>e.
            obind (arr_get (blocks s) (c_div (index e) (pages_per_block s))) (\<lambda>b.
              if state b \<noteq> BLK_USED then Ret (- 2, s)
              else if p_state e = PG_FREE then Ret (- 1, s)
              else obind (invalid_pg hash_index s) (\<lambda>s. Ret (index e, s)))))"


section \<open>Loading and unloading the module\<close>

text \<open>The header page of block \<open>i\<close>: metadata blocks carry the magic number and their rank.\<close>

definition scan_header :: "'m heap_kernel \<Rightarrow> nat \<Rightarrow> bool \<times> nat \<times> 'm lkp_kv_cfg \<Rightarrow> (bool \<times> nat \<times> 'm lkp_kv_cfg) outcome" where
  "scan_header K i st =
     (case st of (failed, cnt, s) \<Rightarrow>
      if failed then Ret st
      else case read_page K (int (i * pages_per_block s)) s of (ret, tmp) \<Rightarrow>
        if ret \<noteq> 0 then Ret (True, cnt, s)
        else if bytes_int tmp = META_HDR_BASE then
          obind (arr_upd (meta_blkordr s) (bytes_int (drop 4 tmp)) (\<lambda>_. int i)) (\<lambda>mo.
            Ret (False, cnt + 1, s\<lparr>meta_blkordr := mo\<rparr>))
        else Ret (False, cnt, s))"

text \<open>Reading page \<open>j\<close> of metadata block \<open>i\<close> behind the pages read before.\<close>

definition load_page :: "'m heap_kernel \<Rightarrow> 'm lkp_kv_cfg \<Rightarrow> nat \<times> nat \<Rightarrow> bool \<times> nat \<times> byte list \<Rightarrow> (bool \<times> nat \<times> byte list) outcome" where
  "load_page K s ij st =
     (case (ij, st) of ((i, j), (failed, offset, buf)) \<Rightarrow>
      if failed then Ret st
      else obind (arr_get (meta_blkordr s) (int i)) (\<lambda>blk.
        case read_page K (blk * int (pages_per_block s) + int j) s of (ret, page) \<Rightarrow>
        obind (mem_store buf (int (page_size s * offset)) page) (\<lambda>buf.
          if ret \<noteq> 0 then Ret (True, offset, buf) else Ret (False, offset + 1, buf))))"

definition link_entry :: "nat \<Rightarrow> 'm lkp_kv_cfg \<Rightarrow> 'm lkp_kv_cfg outcome" where
  "link_entry i s =
     obind (arr_get (hashtable s) (int i)) (\<lambda>e.
       if p_state e = PG_VALID then list_add (int i) (c_div (index e) (pages_per_block s)) s
       else Ret s)"

text \<open>Sizes of the metadata; with one page per block the last division is by zero.\<close>

definition set_meta_sizes :: "'m lkp_kv_cfg \<Rightarrow> 'm lkp_kv_cfg" where
  "set_meta_sizes s =
     (let hs = SIZEOF_BUCKET * nb_blocks s * pages_per_block s;
          bi = SIZEOF_BLK_INFO * nb_blocks s;
          mp = (hs + bi) div page_size s + 1 in
      s\<lparr>hashtable_size := hs, block_info_size := bi, metadata_size := hs + bi, nb_meta_pages := mp,
        nb_meta_blocks := mp div (pages_per_block s - 1) + 1\<rparr>)"

text \<open>\<open>memcpy\<close> of both tables out of the buffer; the list heads are fresh.\<close>

definition load_tables :: "byte list \<Rightarrow> 'm lkp_kv_cfg \<Rightarrow> 'm lkp_kv_cfg outcome" where
  "load_tables buf s =
     obind (mem_slice buf 0 (int (block_info_size s))) (\<lambda>bi.
     obind (mem_slice buf (int (block_info_size s)) (int (hashtable_size s))) (\<lambda>hs.
       Ret (s\<lparr>blocks := map (\<lambda>i. bytes_blk_info (drop (i * SIZEOF_BLK_INFO) bi)) [0..<nb_blocks s],
              hashtable := map (\<lambda>i. bytes_bucket (drop (i * SIZEOF_BUCKET) hs)) [0..<hash_size s]\<rparr>)))"

definition init_scan :: "'m heap_kernel \<Rightarrow> 'm lkp_kv_cfg \<Rightarrow> (int \<times> 'm lkp_kv_cfg) outcome" where
  "init_scan K s =
     (if pages_per_block s \<le> 1 \<or> page_size s = 0 then Fault
      else let s = set_meta_sizes s in
      case (k_kmalloc K (flash s) (page_size s * nb_meta_pages s), k_kmalloc K (flash s) (page_size s)) of
        (Some buf, Some tmp) \<Rightarrow>
          if k_kmalloc K (flash s) (4 * nb_meta_blocks s) = None then Fault
          else let s = s\<lparr>meta_blkordr := replicate (nb_meta_blocks s) (- 1)\<rparr> in
          obind (ofold (scan_header K) [0..<nb_blocks s] (False, 0, s)) (\<lambda>(failed, cnt, s).
          if failed then Ret (- 3, s)
          else obind (ofold (load_page K s) (List.product [0..<cnt] [1..<pages_per_block s]) (False, 0, buf)) (\<lambda>(failed, _, buf).
          if failed then Ret (- 4, s)
          else obind (load_tables buf s) (\<lambda>s.
          if 0 < nb_blocks s \<and> k_kmalloc K (flash s) 16 = None then Fault
          else obind (if cnt = 0 then format K s
                      else obind (ofold link_entry [0..<hash_size s] s) (\<lambda>s. Ret (0, s))) (\<lambda>(ret, s).
            if ret \<noteq> 0 then Ret (ret, s)
            else Ret (0, if is_read_only s then s\<lparr>read_only := True\<rparr> else s)))))
      | _ \<Rightarrow> Ret (- 2, s))"

definition init_config :: "'m heap_kernel \<Rightarrow> int \<Rightarrow> 'm lkp_kv_cfg \<Rightarrow> (int \<times> 'm lkp_kv_cfg) outcome" where
  "init_config K idx s =
     (if idx = - 1 then Ret (- 1, s)
      else let s = s\<lparr>format_done := 0, read_only := False, mtd_index := idx,
                     mtd := k_get_mtd_device K idx\<rparr> in
      case mtd s of
        None \<Rightarrow> Ret (- 1, s)
      | Some mt \<Rightarrow>
          if mtd_writesize mt = 0 \<or> mtd_erasesize mt = 0 then Fault
          else let s = s\<lparr>block_size := nat (s32 (int (mtd_erasesize mt))),
                         page_size := nat (s32 (int (mtd_writesize mt)))\<rparr>;
                   s = s\<lparr>pages_per_block := block_size s div page_size s,
                         nb_blocks := nat (s32 (int (mtd_size mt div mtd_erasesize mt))),
                         format_lock := 1, time_flush := 0, time_write := 0\<rparr>
               in if k_kmalloc K (flash s) (SIZEOF_BLK_INFO * nb_blocks s) = None
                     \<or> k_kmalloc K (flash s) (SIZEOF_BUCKET * nb_blocks s * pages_per_block s) = None then Ret (- 3, s)
               else obind (init_scan K s) (\<lambda>(r, s). if r \<noteq> 0 then Ret (- 1, s) else Ret (0, s)))"

definition destroy_config :: "'m lkp_kv_cfg \<Rightarrow> 'm lkp_kv_cfg" where
  "destroy_config s = s\<lparr>blocks := [], hashtable := [], meta_blkordr := [], mtd := None\<rparr>"

text \<open>The global state before the module is loaded: static storage, all zero.\<close>

definition config0 :: "'m \<Rightarrow> 'm lkp_kv_cfg" where
  "config0 m = \<lparr>mtd = None, mtd_index = 0, nb_blocks = 0, block_size = 0, page_size = 0, pages_per_block = 0,
     blocks = [], hashtable = [], meta_blkordr = [], format_done = 0, read_only = False, format_lock = 0,
     hashtable_size = 0, block_info_size = 0, metadata_size = 0, nb_meta_pages = 0, nb_meta_blocks = 0,
     time_flush = 0, time_write = 0, flash = m\<rparr>"

end
