(* ===== verification/SerialStore.thy ===== *)
theory SerialStore
  imports Serial
begin

text \<open>
  What the second prototype stores.  The abstract state is a map from keys to values;
  \<open>kv_inv\<close> relates it to the hash table, the block table, the lists of valid pages and the
  flash contents.  The proofs assume a driver and an allocator that do not fail (the locale
  \<open>reliable_flash\<close>): invalidating an entry removes its
  key, choosing a page keeps the map, and writing a couple adds it.
\<close>

section \<open>Representation\<close>

text \<open>
  Page numbers, the size of the index and the sizes of the metadata are \<open>int\<close>s of the code and
  natural numbers here: the model is of partitions whose tables take less than \<open>2 ^ 31\<close> bytes.
\<close>

definition geometry :: "'m lkp_kv_cfg \<Rightarrow> nat \<Rightarrow> bool" where
  "geometry s fsize \<longleftrightarrow> 0 < nb_blocks s \<and> 1 < pages_per_block s \<and> 8 \<le> page_size s \<and> page_size s < 2147483648
     \<and> block_size s = pages_per_block s * page_size s
     \<and> fsize = nb_blocks s * pages_per_block s * page_size s \<and> fsize < 2 ^ 64"

abbreviation blk_off :: "'m lkp_kv_cfg \<Rightarrow> nat \<Rightarrow> int" where
  "blk_off s i \<equiv> current_page_offset (blocks s ! i)"

abbreviation page_at :: "('m \<Rightarrow> nat \<Rightarrow> byte) \<Rightarrow> 'm lkp_kv_cfg \<Rightarrow> nat \<Rightarrow> byte list" where
  "page_at byte_at s p \<equiv> flash_page byte_at (page_size s) (flash s) p"

text \<open>
  A used block has its header page, its valid pages and its invalid pages below the offset; a
  free block is empty, a metadata block has no valid pages.  The pages of a block that is not a
  metadata block are erased from its offset on.
\<close>

definition blk_counts_ok :: "nat \<Rightarrow> blk_info \<Rightarrow> bool" where
  "blk_counts_ok q b \<longleftrightarrow> 0 \<le> current_page_offset b \<and> current_page_offset b \<le> int q \<and> worn b < 2147483647
     \<and> distinct (valid_list b)
     \<and> (state b = BLK_FREE \<and> current_page_offset b = 0 \<and> nb_invalid b = 0 \<and> valid_list b = []
        \<or> state b = BLK_META \<and> nb_invalid b = 0 \<and> valid_list b = []
        \<or> state b = BLK_USED \<and> current_page_offset b = 1 + int (length (valid_list b)) + nb_invalid b
          \<and> 0 \<le> nb_invalid b)"

definition erased_above :: "('m \<Rightarrow> nat \<Rightarrow> byte) \<Rightarrow> 'm lkp_kv_cfg \<Rightarrow> nat \<Rightarrow> bool" where
  "erased_above byte_at s i \<longleftrightarrow>
     (\<forall>j < pages_per_block s. blk_off s i \<le> int j \<longrightarrow>
        page_at byte_at s (i * pages_per_block s + j) = replicate (page_size s) 255)"

text \<open>An entry of the hash table points to the page of its couple, and its bucket is on the list of the page's block.\<close>

definition entry_ok :: "('m \<Rightarrow> nat \<Rightarrow> byte) \<Rightarrow> (byte list \<rightharpoonup> byte list) \<Rightarrow> 'm lkp_kv_cfg \<Rightarrow> nat \<Rightarrow> byte list \<Rightarrow> int \<Rightarrow> bool" where
  "entry_ok byte_at M s h k q \<longleftrightarrow>
     (\<exists>i j v. q = int (i * pages_per_block s + j) \<and> i < nb_blocks s \<and> 0 < j \<and> j < pages_per_block s
        \<and> int j < blk_off s i \<and> state (blocks s ! i) = BLK_USED \<and> h \<in> set (valid_list (blocks s ! i))
        \<and> M k = Some v \<and> couple_ok (page_size s) (k, v) \<and> length k < KEY_MAX
        \<and> holds_couple (page_at byte_at s (i * pages_per_block s + j)) (k, v))"

definition lists_ok :: "'m lkp_kv_cfg \<Rightarrow> bool" where
  "lists_ok s \<longleftrightarrow> (\<forall>i < nb_blocks s. \<forall>h \<in> set (valid_list (blocks s ! i)).
     \<exists>k j. entry (hashtable s) h = Some (k, int (i * pages_per_block s + j)) \<and> j < pages_per_block s)"

definition kv_inv :: "('m \<Rightarrow> nat \<Rightarrow> byte) \<Rightarrow> ('m \<Rightarrow> bool) \<Rightarrow> nat \<Rightarrow> (byte list \<rightharpoonup> byte list) \<Rightarrow> 'm lkp_kv_cfg \<Rightarrow> bool" where
  "kv_inv byte_at good fsize M s \<longleftrightarrow>
     geometry s fsize \<and> good (flash s) \<and> length (blocks s) = nb_blocks s
     \<and> index_ok (hash_size s) (hashtable s)
     \<and> (\<forall>i < nb_blocks s. blk_counts_ok (pages_per_block s) (blocks s ! i)
           \<and> (state (blocks s ! i) \<noteq> BLK_META \<longrightarrow> erased_above byte_at s i))
     \<and> (\<forall>h k q. entry (hashtable s) h = Some (k, q) \<longrightarrow> entry_ok byte_at M s h k q)
     \<and> (\<forall>k \<in> dom M. \<exists>h q. entry (hashtable s) h = Some (k, q))
     \<and> lists_ok s \<and> (read_only s \<longleftrightarrow> is_read_only s)"

text \<open>
  Metadata blocks are full, as they are after a flush.  (A load restores them with the offset
  they had when the tables were copied.)
\<close>

definition meta_full :: "'m lkp_kv_cfg \<Rightarrow> bool" where
  "meta_full s \<longleftrightarrow> (\<forall>b \<in> set (blocks s). state b = BLK_META \<longrightarrow> current_page_offset b = int (pages_per_block s))"

text \<open>The metadata blocks of the two states are the same.\<close>

definition meta_same :: "'m lkp_kv_cfg \<Rightarrow> 'm lkp_kv_cfg \<Rightarrow> bool" where
  "meta_same s t \<longleftrightarrow> length (blocks t) = length (blocks s)
     \<and> (\<forall>i < length (blocks s). state (blocks s ! i) = BLK_META \<or> state (blocks t ! i) = BLK_META \<longrightarrow> blocks t ! i = blocks s ! i)"

definition free_count :: "'m lkp_kv_cfg \<Rightarrow> nat" where
  "free_count s = length (filter (\<lambda>b. state b = BLK_FREE) (blocks s))"

text \<open>The fields no operation on couples changes.\<close>

definition same_config :: "'m lkp_kv_cfg \<Rightarrow> 'm lkp_kv_cfg \<Rightarrow> bool" where
  "same_config s t \<longleftrightarrow> nb_blocks t = nb_blocks s \<and> pages_per_block t = pages_per_block s \<and> page_size t = page_size s
     \<and> block_size t = block_size s \<and> time_flush t = time_flush s \<and> time_write t = time_write s
     \<and> meta_blkordr t = meta_blkordr s \<and> nb_meta_blocks t = nb_meta_blocks s \<and> nb_meta_pages t = nb_meta_pages s
     \<and> block_info_size t = block_info_size s \<and> hashtable_size t = hashtable_size s"

lemma same_config_refl [simp]: "same_config s s" by (simp add: same_config_def)

lemma same_config_trans: "same_config s t \<Longrightarrow> same_config t u \<Longrightarrow> same_config s u"
  by (simp add: same_config_def)

lemma meta_same_refl [simp]: "meta_same s s" by (simp add: meta_same_def)

lemma meta_same_trans: "meta_same s t \<Longrightarrow> meta_same t u \<Longrightarrow> meta_same s u"
  unfolding meta_same_def by metis

lemma meta_same_full: "meta_same s t \<Longrightarrow> pages_per_block t = pages_per_block s \<Longrightarrow> meta_full s \<Longrightarrow> meta_full t"
  unfolding meta_same_def meta_full_def by (metis in_set_conv_nth)

lemma meta_same_upd:
  assumes "blocks t = (blocks s)[i := b]" "state (blocks s ! i) \<noteq> BLK_META" "state b \<noteq> BLK_META"
  shows "meta_same s t"
  unfolding meta_same_def using assms by (metis length_list_update nth_list_update_eq nth_list_update_neq)

text \<open>The first block of least wear among those that satisfy the condition.\<close>

lemma least_worn_spec:
  assumes "\<forall>b \<in> set bs. worn b < 2147483647"
  shows "(if \<exists>b \<in> set bs. c b then \<exists>i < length bs. least_worn c bs = int i \<and> c (bs ! i)
             \<and> (\<forall>j < length bs. c (bs ! j) \<longrightarrow> worn (bs ! i) \<le> worn (bs ! j))
             \<and> (\<forall>j < i. c (bs ! j) \<longrightarrow> worn (bs ! i) < worn (bs ! j))
          else least_worn c bs = - 1)"
proof -
  have w: "\<forall>i < length bs. worn (bs ! i) < 2147483647" using assms by simp
  have "(\<exists>b \<in> set bs. c b) \<longleftrightarrow> (\<exists>i < length bs. c (bs ! i))" by (metis in_set_conv_nth)
  with least_index_spec [OF w, of "\<lambda>i. c (bs ! i)"] show ?thesis unfolding least_worn_def by (auto split: if_splits)
qed


section \<open>Facts of the representation\<close>

lemma kv_invD:
  assumes "kv_inv byte_at good fsize M s"
  shows "geometry s fsize" "good (flash s)" "length (blocks s) = nb_blocks s"
    "index_ok (hash_size s) (hashtable s)" "length (hashtable s) = hash_size s"
    "\<And>i. i < nb_blocks s \<Longrightarrow> blk_counts_ok (pages_per_block s) (blocks s ! i)"
    "\<And>i. i < nb_blocks s \<Longrightarrow> state (blocks s ! i) \<noteq> BLK_META \<Longrightarrow> erased_above byte_at s i"
    "\<And>h k q. entry (hashtable s) h = Some (k, q) \<Longrightarrow> entry_ok byte_at M s h k q"
    "\<And>k. k \<in> dom M \<Longrightarrow> \<exists>h q. entry (hashtable s) h = Some (k, q)"
    "lists_ok s" "read_only s \<longleftrightarrow> is_read_only s"
  using assms unfolding kv_inv_def by (blast, blast, blast, blast, auto dest: index_ok_size)

lemma geometryD:
  assumes "geometry s fsize"
  shows "0 < nb_blocks s" "1 < pages_per_block s" "8 \<le> page_size s" "page_size s < 2147483648"
    "block_size s = pages_per_block s * page_size s" "fsize = hash_size s * page_size s"
    "hash_size s * page_size s < 2 ^ 64"
  using assms by (simp_all add: geometry_def)

lemma geometry_page:
  assumes g: "geometry s fsize" and p: "p < hash_size s"
  shows "page_addr (int p) (page_size s) = p * page_size s" "p * page_size s + page_size s \<le> fsize"
proof -
  have le: "p * page_size s + page_size s \<le> hash_size s * page_size s"
    using p mult_le_mono1 [of "Suc p" "hash_size s" "page_size s"] by simp
  then show "p * page_size s + page_size s \<le> fsize" by (simp add: geometryD [OF g])
  show "page_addr (int p) (page_size s) = p * page_size s"
    by (rule page_addr_eq) (use le geometryD(3,7) [OF g] in linarith)
qed

lemma page_of_block: "i < nb_blocks s \<Longrightarrow> j < pages_per_block s \<Longrightarrow> i * pages_per_block s + j < hash_size s"
  by (rule page_lt)

lemma hash_search_map:
  assumes inv: "kv_inv byte_at good fsize M s"
  shows "(case M k of
      Some v \<Rightarrow> \<exists>h q. hash_search (hash_size s) (hashtable s) k = Ret (int h) \<and> entry (hashtable s) h = Some (k, q)
    | None \<Rightarrow> (\<exists>r. hash_search (hash_size s) (hashtable s) k = Ret r \<and> r < 0)
              \<and> (\<forall>h q. entry (hashtable s) h \<noteq> Some (k, q)))"
proof (cases "M k")
  case None
  have "entry (hashtable s) h \<noteq> Some (k, q)" for h q
    using kv_invD(8) [OF inv, of h k q] None by (auto simp: entry_ok_def)
  with ht.search_absent [OF kv_invD(4) [OF inv]] None show ?thesis by auto
next
  case (Some v)
  with kv_invD(9) [OF inv, of k] obtain h q where "entry (hashtable s) h = Some (k, q)" by auto
  with ht.search_present [OF kv_invD(4) [OF inv]] Some show ?thesis by auto
qed

section \<open>Invalidating an entry\<close>

lemma is_read_only_nth: "is_read_only s \<longleftrightarrow> (\<forall>i < length (blocks s). \<not> blk_off s i < int (pages_per_block s))"
  by (simp add: is_read_only_def list_all_length)

lemma lists_ok_block:
  assumes "lists_ok s" "h \<in> set (valid_list (blocks s ! i'))" "i' < nb_blocks s"
    and "entry (hashtable s) h = Some (k, int (i * pages_per_block s + j))" "j < pages_per_block s"
  shows "i' = i"
proof -
  from assms(1-3) obtain k' j' where
    "entry (hashtable s) h = Some (k', int (i' * pages_per_block s + j'))" "j' < pages_per_block s"
    unfolding lists_ok_def by blast
  with assms(4,5) show ?thesis by (metis of_nat_eq_iff option.inject page_inj prod.inject)
qed

text \<open>What \<open>invalid_pg\<close> leaves behind: bucket \<open>h\<close> freed and unlinked, its page counted as invalid.\<close>

definition dropped :: "nat \<Rightarrow> nat \<Rightarrow> 'm lkp_kv_cfg \<Rightarrow> 'm lkp_kv_cfg" where
  "dropped h i s = s\<lparr>hashtable := release h (hashtable s),
     blocks := (blocks s)[i := (blocks s ! i)\<lparr>nb_invalid := nb_invalid (blocks s ! i) + 1,
                                             valid_list := removeAll h (valid_list (blocks s ! i))\<rparr>]\<rparr>"

lemma invalid_pg_eq:
  assumes inv: "kv_inv byte_at good fsize M s"
    and e: "entry (hashtable s) h = Some (k, int (i * pages_per_block s + j))" "j < pages_per_block s"
      "i < nb_blocks s" "h \<in> set (valid_list (blocks s ! i))"
  shows "invalid_pg (int h) s = Ret (dropped h i s)"
proof -
  note len = kv_invD(3) [OF inv]
  let ?b = "blocks s ! i"
  have h: "h < length (hashtable s)" "index (hashtable s ! h) = int (i * pages_per_block s + j)"
    using e(1) by (auto simp: entry_def split: if_splits)
  have rm: "map (\<lambda>b. b\<lparr>valid_list := removeAll h (valid_list b)\<rparr>) ((blocks s)[i := ?b\<lparr>nb_invalid := nb_invalid ?b + 1\<rparr>])
      = (blocks s)[i := ?b\<lparr>nb_invalid := nb_invalid ?b + 1, valid_list := removeAll h (valid_list ?b)\<rparr>]"
  proof (rule nth_equalityI)
    fix i' assume "i' < length (map (\<lambda>b. b\<lparr>valid_list := removeAll h (valid_list b)\<rparr>)
        ((blocks s)[i := ?b\<lparr>nb_invalid := nb_invalid ?b + 1\<rparr>]))"
    then have i': "i' < nb_blocks s" using len by simp
    have "removeAll h (valid_list (blocks s ! i')) = valid_list (blocks s ! i')" if "i' \<noteq> i"
      using that lists_ok_block [OF kv_invD(10) [OF inv] _ i' e(1,2)] by (auto intro: removeAll_id)
    then show "map (\<lambda>b. b\<lparr>valid_list := removeAll h (valid_list b)\<rparr>)
        ((blocks s)[i := ?b\<lparr>nb_invalid := nb_invalid ?b + 1\<rparr>]) ! i'
      = (blocks s)[i := ?b\<lparr>nb_invalid := nb_invalid ?b + 1, valid_list := removeAll h (valid_list ?b)\<rparr>] ! i'"
      using i' len by (cases "i' = i") auto
  qed simp
  have lk: "linked h (s\<lparr>hashtable := release h (hashtable s), blocks := (blocks s)[i := ?b\<lparr>nb_invalid := nb_invalid ?b + 1\<rparr>]\<rparr>)"
    using e(3,4) len by (auto simp: linked_def list_ex_iff set_update_memI intro!: bexI [of _ "?b\<lparr>nb_invalid := nb_invalid ?b + 1\<rparr>"])
  have ix: "index (release h (hashtable s) ! h) = int (i * pages_per_block s + j)"
    using h by (simp add: release_def)
  have q: "0 < pages_per_block s" using e(2) by simp
  show ?thesis
    using h(1) lk q e(2,3) len rm
    by (simp del: of_nat_add of_nat_mult add: invalid_pg_def Let_def ix upd_block_of_def upd_block_def
        list_del_def dropped_def)
qed

lemma dropped_inv:
  assumes inv: "kv_inv byte_at good fsize M s"
    and e: "entry (hashtable s) h = Some (k, int (i * pages_per_block s + j))" "j < pages_per_block s"
      "i < nb_blocks s" "h \<in> set (valid_list (blocks s ! i))" "state (blocks s ! i) = BLK_USED"
  shows "kv_inv byte_at good fsize (M(k := None)) (dropped h i s)"
proof -
  note D = kv_invD [OF inv]
  let ?t = "dropped h i s"
  have h: "h < length (hashtable s)" using e(1) by (auto simp: entry_def split: if_splits)
  have blk: "blocks ?t ! i' = (if i' = i then (blocks s ! i)\<lparr>nb_invalid := nb_invalid (blocks s ! i) + 1,
      valid_list := removeAll h (valid_list (blocks s ! i))\<rparr> else blocks s ! i')" for i'
    using e(3) D(3) by (simp add: dropped_def nth_list_update)
  have off: "blk_off ?t i' = blk_off s i'" "state (blocks ?t ! i') = state (blocks s ! i')" for i'
    by (simp_all add: blk)
  have mem: "h' \<in> set (valid_list (blocks ?t ! i'))" if "h' \<in> set (valid_list (blocks s ! i'))" "h' \<noteq> h" for h' i'
    using that by (cases "i' = i") (simp_all add: blk)
  have mem2: "h' \<in> set (valid_list (blocks s ! i')) \<and> h' \<noteq> h"
    if "h' \<in> set (valid_list (blocks ?t ! i'))" "i' < nb_blocks s" for h' i'
  proof (cases "i' = i")
    case False
    with that lists_ok_block [OF D(10) _ that(2) e(1,2)] show ?thesis by (auto simp: blk)
  qed (use that in \<open>simp add: blk\<close>)
  have shape: "nb_blocks ?t = nb_blocks s" "pages_per_block ?t = pages_per_block s" "page_size ?t = page_size s"
    "flash ?t = flash s" "read_only ?t = read_only s" "length (blocks ?t) = length (blocks s)"
    "hashtable ?t = release h (hashtable s)" "geometry ?t fsize = geometry s fsize"
    by (simp_all add: dropped_def geometry_def)
  have ent: "entry (hashtable ?t) = (entry (hashtable s))(h := None)"
    using entry_release [OF h] shape(7) by simp
  have uniq: "h' = h" if "entry (hashtable s) h' = Some (k, q)" for h' q
    using ht.entry_unique [OF D(4) that e(1)] .
  show ?thesis
    unfolding kv_inv_def
  proof (intro conjI allI impI ballI)
    show "geometry ?t fsize" "good (flash ?t)" "length (blocks ?t) = nb_blocks ?t"
      using D(1-3) shape by auto
    show "index_ok (hash_size ?t) (hashtable ?t)"
      using index_ok_release [OF D(4) h] shape by simp
  next
    fix i' assume i': "i' < nb_blocks ?t"
    have "blk_counts_ok (pages_per_block s) (blocks s ! i')" using D(6) i' shape by simp
    then show "blk_counts_ok (pages_per_block ?t) (blocks ?t ! i')"
      using length_removeAll_distinct [OF _ e(4)] e(5) shape(2)
      by (cases "i' = i") (auto simp: blk blk_counts_ok_def distinct_removeAll)
    show "erased_above byte_at ?t i'" if "state (blocks ?t ! i') \<noteq> BLK_META"
      using D(7) [of i'] that i' shape off by (simp add: erased_above_def)
  next
    fix h' k' q assume "entry (hashtable ?t) h' = Some (k', q)"
    then have h': "h' \<noteq> h" "entry (hashtable s) h' = Some (k', q)" by (auto simp: ent split: if_splits)
    then have "k' \<noteq> k" using uniq by blast
    with D(8) [OF h'(2)] show "entry_ok byte_at (M(k := None)) ?t h' k' q"
      using mem [OF _ h'(1)] unfolding entry_ok_def shape off by fastforce
  next
    fix k' assume "k' \<in> dom (M(k := None))"
    then have "k' \<in> dom M" "k' \<noteq> k" by (auto split: if_splits)
    with D(9) [of k'] e(1) show "\<exists>h q. entry (hashtable ?t) h = Some (k', q)"
      by (metis ent fun_upd_other option.inject prod.inject)
  next
    show "lists_ok ?t"
      unfolding lists_ok_def shape(1,2)
    proof (intro allI impI ballI)
      fix i' h' assume a: "i' < nb_blocks s" "h' \<in> set (valid_list (blocks ?t ! i'))"
      note m = mem2 [OF a(2,1)]
      with D(10) a(1) show "\<exists>k j. entry (hashtable ?t) h' = Some (k, int (i' * pages_per_block s + j)) \<and> j < pages_per_block s"
        unfolding lists_ok_def ent by simp
    qed
    show "read_only ?t = is_read_only ?t"
      using D(11) off shape unfolding is_read_only_nth by simp
  qed
qed

lemma invalid_pg_ok:
  assumes inv: "kv_inv byte_at good fsize M s" and e: "entry (hashtable s) h = Some (k, q)"
  obtains i where "i < nb_blocks s" "invalid_pg (int h) s = Ret (dropped h i s)"
    "kv_inv byte_at good fsize (M(k := None)) (dropped h i s)"
    "meta_same s (dropped h i s)" "free_count (dropped h i s) = free_count s" "map worn (blocks (dropped h i s)) = map worn (blocks s)"
proof -
  from kv_invD(8) [OF inv e] obtain i j where ij: "q = int (i * pages_per_block s + j)" "i < nb_blocks s"
    "j < pages_per_block s" "h \<in> set (valid_list (blocks s ! i))" "state (blocks s ! i) = BLK_USED"
    by (auto simp: entry_ok_def)
  note e' = e [unfolded ij(1)]
  show ?thesis
  proof (rule that [OF ij(2) invalid_pg_eq [OF inv e' ij(3,2,4)] dropped_inv [OF inv e' ij(3,2,4,5)]])
    show "meta_same s (dropped h i s)"
      by (rule meta_same_upd) (use ij(5) in \<open>auto simp: dropped_def\<close>)
    show "free_count (dropped h i s) = free_count s"
      using ij(2,5) kv_invD(3) [OF inv] by (simp add: free_count_def dropped_def length_filter_upd_same)
    show "map worn (blocks (dropped h i s)) = map worn (blocks s)" by (simp add: dropped_def map_upd_same)
  qed
qed

lemma dropped_config [simp]: "same_config s (dropped h i s)" "read_only (dropped h i s) = read_only s"
  by (simp_all add: same_config_def dropped_def)

section \<open>Adding a couple\<close>

lemma entry_page_inj:
  assumes inv: "kv_inv byte_at good fsize M s"
    and "entry (hashtable s) h = Some (k, q)" "entry (hashtable s) h' = Some (k', q)"
  shows "h = h'"
proof -
  note D = kv_invD [OF inv]
  from D(8) [OF assms(2)] obtain i j v where a: "q = int (i * pages_per_block s + j)" "couple_ok (page_size s) (k, v)"
    "holds_couple (page_at byte_at s (i * pages_per_block s + j)) (k, v)"
    by (auto simp: entry_ok_def)
  from D(8) [OF assms(3)] obtain i' j' v' where b: "q = int (i' * pages_per_block s + j')" "couple_ok (page_size s) (k', v')"
    "holds_couple (page_at byte_at s (i' * pages_per_block s + j')) (k', v')"
    by (auto simp: entry_ok_def)
  from a(1) b(1) have "i * pages_per_block s + j = i' * pages_per_block s + j'" by linarith
  with a(3) b(3) have "(k, v) = (k', v')"
    using geometryD(4) [OF D(1)] by (intro holds_inj) auto
  then have "k = k'" by simp
  with assms(2,3) ht.entry_unique [OF D(4)] show ?thesis by blast
qed

text \<open>Header pages and the page to be written are not in the index, so two buckets are free.\<close>

lemma index_room_ok:
  assumes inv: "kv_inv byte_at good fsize M s" and i: "i < nb_blocks s" and j: "blk_off s i = int j" "0 < j" "j < pages_per_block s"
  shows "index_room (hash_size s) (hashtable s)"
proof -
  note D = kv_invD [OF inv]
  define pg where "pg h = nat (index (hashtable s ! h))" for h
  let ?occ = "occupied (hashtable s)" and ?p = "i * pages_per_block s + j"
  have occ: "\<exists>k. entry (hashtable s) h = Some (k, int (pg h)) \<and> pg h < hash_size s \<and> pg h \<noteq> 0 \<and> pg h \<noteq> ?p"
    if "h \<in> ?occ" for h
  proof -
    from that obtain k q where e: "entry (hashtable s) h = Some (k, q)" by (auto simp: occupied_dom)
    from D(8) [OF e] obtain i' j' where ij: "q = int (i' * pages_per_block s + j')" "i' < nb_blocks s"
      "0 < j'" "j' < pages_per_block s" "int j' < blk_off s i'" by (auto simp: entry_ok_def)
    have "index (hashtable s ! h) = q" using e by (auto simp: entry_def split: if_splits)
    then have pg: "pg h = i' * pages_per_block s + j'" using ij(1) by (simp add: pg_def del: of_nat_add of_nat_mult)
    have "i' * pages_per_block s + j' \<noteq> ?p"
      using ij(4,5) j page_inj [OF ij(4) j(3), of i' i] by auto
    with e ij pg page_of_block [OF ij(2,4)] show ?thesis by auto
  qed
  have "inj_on pg ?occ"
  proof (rule inj_onI)
    fix h h' assume a: "h \<in> ?occ" "h' \<in> ?occ" "pg h = pg h'"
    from occ [OF a(1)] obtain k where "entry (hashtable s) h = Some (k, int (pg h))" by blast
    moreover from occ [OF a(2)] a(3) obtain k' where "entry (hashtable s) h' = Some (k', int (pg h))" by auto
    ultimately show "h = h'" by (rule entry_page_inj [OF inv])
  qed
  moreover have "pg ` ?occ \<subseteq> {..<hash_size s} - {0, ?p}"
    by (rule image_subsetI) (use occ in simp)
  ultimately have "card ?occ \<le> card ({..<hash_size s} - {0, ?p})"
    using card_inj_on_le [of pg ?occ "{..<hash_size s} - {0, ?p}"] by simp
  also have "\<dots> = hash_size s - 2"
    using page_of_block [OF i j(3)] i j(2,3) by (subst card_Diff_subset) auto
  finally show ?thesis
    using page_of_block [OF i j(3)] j(2) by (simp add: index_room_def)
qed

lemma lists_ok_entry:
  assumes "lists_ok s" "i < nb_blocks s" "h \<in> set (valid_list (blocks s ! i))"
  shows "entry (hashtable s) h \<noteq> None"
  using assms unfolding lists_ok_def by fastforce

lemma not_linked_free:
  assumes inv: "kv_inv byte_at good fsize M s" and "entry (hashtable s) h = None"
  shows "\<not> linked h s"
proof
  assume "linked h s"
  then obtain i where "i < nb_blocks s" "h \<in> set (valid_list (blocks s ! i))"
    using kv_invD(3) [OF inv] by (auto simp: linked_def list_ex_length)
  with lists_ok_entry [OF kv_invD(10) [OF inv]] assms(2) show False by blast
qed

lemma kv_inv_read_only: "kv_inv byte_at good fsize M s \<Longrightarrow> \<not> read_only s \<longleftrightarrow> (\<exists>i < nb_blocks s. blk_off s i < int (pages_per_block s))"
  by (simp add: kv_inv_def is_read_only_nth)

text \<open>The state after the couple \<open>k\<close>, \<open>v\<close> was written to page \<open>j\<close> of block \<open>i\<close> and indexed in bucket \<open>h\<close>.\<close>

definition appended :: "'m \<Rightarrow> nat \<Rightarrow> nat \<Rightarrow> bucket list \<Rightarrow> bool \<Rightarrow> 'm lkp_kv_cfg \<Rightarrow> 'm lkp_kv_cfg" where
  "appended m i h ht ro s = s\<lparr>flash := m,
     blocks := (blocks s)[i := (blocks s ! i)\<lparr>current_page_offset := blk_off s i + 1, valid_list := h # valid_list (blocks s ! i)\<rparr>],
     hashtable := ht, read_only := ro\<rparr>"

lemma appended_inv:
  assumes inv: "kv_inv byte_at good fsize M s" and i: "i < nb_blocks s" "state (blocks s ! i) = BLK_USED"
    and j: "blk_off s i = int j" "0 < j" "j < pages_per_block s"
    and k: "M k = None" "couple_ok (page_size s) (k, v)" "length k < KEY_MAX"
    and m: "good m" "\<And>p. flash_page byte_at (page_size s) m p
        = (if p = i * pages_per_block s + j then buf else page_at byte_at s p)"
    and buf: "holds_couple buf (k, v)"
    and ht: "index_ok (hash_size s) ht'" "entry (hashtable s) h = None"
      "entry ht' = (entry (hashtable s))(h \<mapsto> (k, int (i * pages_per_block s + j)))"
    and ro: "ro \<longleftrightarrow> is_read_only (appended m i h ht' ro s)"
  shows "kv_inv byte_at good fsize (M(k \<mapsto> v)) (appended m i h ht' ro s)"
proof -
  note D = kv_invD [OF inv]
  let ?t = "appended m i h ht' ro s" and ?p = "i * pages_per_block s + j"
  have blk: "blocks ?t ! i' = (if i' = i then (blocks s ! i)\<lparr>current_page_offset := blk_off s i + 1,
      valid_list := h # valid_list (blocks s ! i)\<rparr> else blocks s ! i')" for i'
    using i D(3) by (simp add: appended_def nth_list_update)
  have shape: "nb_blocks ?t = nb_blocks s" "pages_per_block ?t = pages_per_block s" "page_size ?t = page_size s"
    "flash ?t = m" "read_only ?t = ro" "length (blocks ?t) = length (blocks s)"
    "hashtable ?t = ht'" "geometry ?t fsize = geometry s fsize"
    by (simp_all add: appended_def geometry_def)
  have off: "blk_off s i' \<le> blk_off ?t i'" "state (blocks ?t ! i') = state (blocks s ! i')"
    "set (valid_list (blocks s ! i')) \<subseteq> set (valid_list (blocks ?t ! i'))" for i'
    by (auto simp: blk)
  have new: "h \<notin> set (valid_list (blocks s ! i'))" if "i' < nb_blocks s" for i'
    using that lists_ok_entry [OF D(10)] ht(2) by blast
  show ?thesis
    unfolding kv_inv_def
  proof (intro conjI allI impI ballI)
    show "geometry ?t fsize" "good (flash ?t)" "length (blocks ?t) = nb_blocks ?t"
      "index_ok (hash_size ?t) (hashtable ?t)"
      using D(1-3) m(1) ht(1) shape by auto
  next
    fix i' assume i': "i' < nb_blocks ?t"
    have "blk_counts_ok (pages_per_block s) (blocks s ! i')" using D(6) i' shape by simp
    then show "blk_counts_ok (pages_per_block ?t) (blocks ?t ! i')"
      using i j shape(2) new by (cases "i' = i") (auto simp: blk blk_counts_ok_def)
    show "erased_above byte_at ?t i'" if nm: "state (blocks ?t ! i') \<noteq> BLK_META"
      unfolding erased_above_def shape m(2)
    proof (intro allI impI)
      fix j' assume j': "j' < pages_per_block s" "blk_off ?t i' \<le> int j'"
      have "i' * pages_per_block s + j' \<noteq> ?p"
        using j' j page_inj [OF j'(1) j(3), of i' i] by (auto simp: blk)
      with D(7) [of i'] nm i' shape off(2) j' off(1) [of i'] show "(if i' * pages_per_block s + j' = ?p then buf
          else page_at byte_at s (i' * pages_per_block s + j')) = replicate (page_size s) 255"
        by (simp add: erased_above_def)
    qed
  next
    fix h' k' q assume e: "entry (hashtable ?t) h' = Some (k', q)"
    show "entry_ok byte_at (M(k \<mapsto> v)) ?t h' k' q"
    proof (cases "h' = h")
      case True
      then have "k' = k" "q = int ?p" using e ht(3) shape by auto
      with True i j k m(2) buf show ?thesis
        unfolding entry_ok_def shape m(2) by (intro exI [of _ i] exI [of _ j] exI [of _ v]) (simp add: blk)
    next
      case False
      then have e': "entry (hashtable s) h' = Some (k', q)" using e ht(3) shape by simp
      from D(8) [OF e'] obtain i' j' v' where o: "q = int (i' * pages_per_block s + j')" "i' < nb_blocks s" "0 < j'"
        "j' < pages_per_block s" "int j' < blk_off s i'" "state (blocks s ! i') = BLK_USED"
        "h' \<in> set (valid_list (blocks s ! i'))" "M k' = Some v'" "couple_ok (page_size s) (k', v')" "length k' < KEY_MAX"
        "holds_couple (page_at byte_at s (i' * pages_per_block s + j')) (k', v')"
        by (auto simp: entry_ok_def)
      have "k' \<noteq> k" using o(8) k(1) by auto
      moreover have "i' * pages_per_block s + j' \<noteq> ?p"
        using o(4,5) j page_inj [OF o(4) j(3), of i' i] by auto
      ultimately show ?thesis
        unfolding entry_ok_def shape m(2) using o off(1) [of i'] off(2,3) [of i']
        by (intro exI [of _ i'] exI [of _ j'] exI [of _ v']) auto
    qed
  next
    fix k' assume "k' \<in> dom (M(k \<mapsto> v))"
    then consider "k' = k" | h' q where "entry (hashtable s) h' = Some (k', q)"
      using D(9) [of k'] by (auto split: if_splits)
    then show "\<exists>h q. entry (hashtable ?t) h = Some (k', q)"
    proof cases
      case 2
      then have "h' \<noteq> h" using ht(2) by auto
      with 2 show ?thesis unfolding shape(7) ht(3) by auto
    qed (auto simp: shape(7) ht(3))
  next
    show "lists_ok ?t"
      unfolding lists_ok_def shape(1,2,7) ht(3)
    proof (intro allI impI ballI)
      fix i' h' assume a: "i' < nb_blocks s" "h' \<in> set (valid_list (blocks ?t ! i'))"
      show "\<exists>ka j'. ((entry (hashtable s))(h \<mapsto> (k, int ?p))) h' = Some (ka, int (i' * pages_per_block s + j')) \<and> j' < pages_per_block s"
      proof (cases "h' = h")
        case True
        with a new [OF a(1)] have "i' = i" by (auto simp: blk split: if_splits)
        with True j(3) show ?thesis by auto
      next
        case False
        with a have "h' \<in> set (valid_list (blocks s ! i'))" by (auto simp: blk split: if_splits)
        with D(10) a(1) False show ?thesis by (auto simp: lists_ok_def)
      qed
    qed
    show "read_only ?t = is_read_only ?t" using ro shape(5) by simp
  qed
qed

section \<open>Reading and writing pages\<close>

context reliable_flash
begin

abbreviation kv :: "(byte list \<rightharpoonup> byte list) \<Rightarrow> 'm lkp_kv_cfg \<Rightarrow> bool" where
  "kv M s \<equiv> kv_inv byte_at good fsize M s"

lemma read_page_ok:
  assumes "geometry s fsize" and "good (flash s)" and "p < hash_size s"
  shows "read_page K (int p) s = (0, page_at byte_at s p)"
proof -
  note a = geometry_page [OF assms(1,3)]
  from read_ok [OF assms(2) a(2)] obtain buf where "k_read K (flash s) (p * page_size s) (page_size s) = (0, buf)"
    by blast
  with page_read [OF this] a(1) show ?thesis by (simp add: read_page_def)
qed

lemma get_keyval_map:
  assumes inv: "kv M s" and k: "cstring k"
  shows "(case M k of None \<Rightarrow> get_keyval K k s = Ret (- 1, None)
          | Some v \<Rightarrow> \<exists>p < hash_size s. get_keyval K k s = Ret (int p, Some v))"
proof (cases "M k")
  case None
  with hash_search_map [OF inv, of k] kmalloc_ok [OF kv_invD(2) [OF inv], of "page_size s"] show ?thesis
    by (auto simp: get_keyval_def)
next
  case (Some v)
  note g = geometryD [OF kv_invD(1) [OF inv]]
  from hash_search_map [OF inv, of k] Some obtain h q
    where h: "hash_search (hash_size s) (hashtable s) k = Ret (int h)" "entry (hashtable s) h = Some (k, q)" by auto
  from kv_invD(8) [OF inv h(2)] Some obtain i j
    where e: "q = int (i * pages_per_block s + j)" "i < nb_blocks s" "j < pages_per_block s"
      "state (blocks s ! i) = BLK_USED" "couple_ok (page_size s) (k, v)"
      "holds_couple (page_at byte_at s (i * pages_per_block s + j)) (k, v)"
    by (auto simp: entry_ok_def)
  note p = page_of_block [OF e(2,3)]
  have b: "h < length (hashtable s)" "index (hashtable s ! h) = q" "p_state (hashtable s ! h) \<noteq> PG_FREE"
    using h(2) by (auto simp: entry_def split: if_splits)
  have len: "length k + 8 \<le> page_size s" "length v < page_size s"
    using e(5) by (auto simp: couple_ok_def)
  let ?page = "page_at byte_at s (i * pages_per_block s + j)"
  have lt: "length (fst (k, v)) < 2147483648" "length (snd (k, v)) < 2147483648" using len g(4) by auto
  have im: "bytes_int ?page = int (length k)" "bytes_int (drop 4 ?page) = int (length v)"
    "mem_slice ?page (8 + int (length k)) (int (length v)) = Ret v" "strncmp_eq (drop 8 ?page) (k @ [0]) (length k) = Ret True"
    using holds_key_len [OF e(6) lt(1)] holds_val_len [OF e(6) lt(2)] holds_slice_val [OF e(6)] holds_match [OF e(6)] k by simp_all
  have q: "c_div q (pages_per_block s) = int i" "read_page K q s = (0, ?page)"
    using read_page_ok [OF kv_invD(1,2) [OF inv] p] e(3) by (simp_all only: e(1) c_div_int div_mult_lt)
  have "get_keyval K k s = Ret (q, Some v)"
    using h(1) b e(2,4) len im kmalloc_ok [OF kv_invD(2) [OF inv], of "page_size s"] kv_invD(3) [OF inv] q
    unfolding get_keyval_def by auto
  with Some p e(1) show ?thesis by auto
qed

lemma write_page_ok:
  assumes g: "geometry s fsize" and gd: "good (flash s)" and ro: "\<not> read_only s"
    and i: "i < nb_blocks s" "length (blocks s) = nb_blocks s" and j: "j < pages_per_block s"
    and buf: "length buf = page_size s"
    and er: "page_at byte_at s (i * pages_per_block s + j) = replicate (page_size s) 255"
  obtains m' where "good m'"
    "\<And>p. flash_page byte_at (page_size s) m' p = (if p = i * pages_per_block s + j then buf else page_at byte_at s p)"
    "write_page K (int (i * pages_per_block s + j)) buf s =
       (let t = s\<lparr>flash := m', blocks := (blocks s)[i := (blocks s ! i)\<lparr>current_page_offset := blk_off s i + 1\<rparr>]\<rparr>
        in if is_read_only t then Ret (- 1, t\<lparr>read_only := True\<rparr>) else Ret (0, t))"
proof -
  let ?p = "i * pages_per_block s + j"
  note p = page_of_block [OF i(1) j]
  note a = geometry_page [OF g p]
  have "?p * page_size s + length buf \<le> fsize" using a(2) buf by simp
  from write_ok [OF gd this] obtain m' where m': "k_write K (flash s) (?p * page_size s) buf = (0, m')" "good m'"
    by blast
  have "flash_page byte_at (page_size s) m' q = (if q = ?p then buf else page_at byte_at s q)" for q
    using page_write_same [OF m'(1) buf er] page_write_other [OF m'(1) buf er] by auto
  moreover have "write_page K (int ?p) buf s = (let t = s\<lparr>flash := m',
      blocks := (blocks s)[i := (blocks s ! i)\<lparr>current_page_offset := blk_off s i + 1\<rparr>]\<rparr>
        in if is_read_only t then Ret (- 1, t\<lparr>read_only := True\<rparr>) else Ret (0, t))"
    using ro m'(1) a(1) i j
    by (simp del: of_nat_add of_nat_mult add: write_page_def upd_block_of_def upd_block_def Let_def)
  ultimately show ?thesis using that m'(2) by blast
qed

end

section \<open>Choosing the page\<close>

text \<open>The state after the header page of the free block \<open>i\<close> was written.\<close>

definition opened :: "'m \<Rightarrow> nat \<Rightarrow> 'm lkp_kv_cfg \<Rightarrow> 'm lkp_kv_cfg" where
  "opened m i s = s\<lparr>flash := m, blocks := (blocks s)[i := (blocks s ! i)\<lparr>state := BLK_USED, current_page_offset := 1\<rparr>]\<rparr>"

lemma opened_inv:
  assumes inv: "kv_inv byte_at good fsize M s" and i: "i < nb_blocks s" and z: "blk_off s i = 0" "state (blocks s ! i) = BLK_FREE"
    and m: "good m" "\<And>p. p \<noteq> i * pages_per_block s \<Longrightarrow> flash_page byte_at (page_size s) m p = page_at byte_at s p"
  shows "kv_inv byte_at good fsize M (opened m i s)"
proof -
  note D = kv_invD [OF inv]
  note g = geometryD [OF D(1)]
  let ?t = "opened m i s"
  have blk: "blocks ?t ! i' = (if i' = i then (blocks s ! i)\<lparr>state := BLK_USED, current_page_offset := 1\<rparr> else blocks s ! i')" for i'
    using i D(3) by (simp add: opened_def nth_list_update)
  have shape: "nb_blocks ?t = nb_blocks s" "pages_per_block ?t = pages_per_block s" "page_size ?t = page_size s"
    "flash ?t = m" "read_only ?t = read_only s" "length (blocks ?t) = length (blocks s)"
    "hashtable ?t = hashtable s" "geometry ?t fsize = geometry s fsize"
    by (simp_all add: opened_def geometry_def)
  have ro: "\<not> read_only s" using kv_inv_read_only [OF inv] i z(1) g(2) by force
  have vl: "valid_list (blocks ?t ! i') = valid_list (blocks s ! i')" for i' by (simp add: blk)
  have hdr: "i' * pages_per_block s + j \<noteq> i * pages_per_block s" if "0 < j \<or> i' \<noteq> i" "j < pages_per_block s" for i' j
    using that page_inj [OF that(2), of 0 i' i] by auto
  show ?thesis
    unfolding kv_inv_def
  proof (intro conjI allI impI ballI)
    show "geometry ?t fsize" "good (flash ?t)" "length (blocks ?t) = nb_blocks ?t"
      "index_ok (hash_size ?t) (hashtable ?t)"
      using D(1-4) m(1) shape by auto
  next
    fix i' assume i': "i' < nb_blocks ?t"
    have "blk_counts_ok (pages_per_block s) (blocks s ! i')" using D(6) i' shape by simp
    then show "blk_counts_ok (pages_per_block ?t) (blocks ?t ! i')"
      using z g(2) shape(2) by (cases "i' = i") (auto simp: blk blk_counts_ok_def)
    show "erased_above byte_at ?t i'" if nm: "state (blocks ?t ! i') \<noteq> BLK_META"
      unfolding erased_above_def shape
    proof (intro allI impI)
      fix j' assume j': "j' < pages_per_block s" "blk_off ?t i' \<le> int j'"
      have "0 < j' \<or> i' \<noteq> i" using j'(2) by (auto simp: blk)
      moreover have "erased_above byte_at s i'"
        using D(7) [of i'] nm i' shape z(2) by (auto simp: blk split: if_splits)
      ultimately show "flash_page byte_at (page_size s) m (i' * pages_per_block s + j') = replicate (page_size s) 255"
        using j' m(2) [OF hdr [of j' i']] z(1)
        by (auto simp: erased_above_def blk split: if_splits)
    qed
  next
    fix h' k' q assume e: "entry (hashtable ?t) h' = Some (k', q)"
    from D(8) [OF e [unfolded shape]] obtain i' j' v' where o: "q = int (i' * pages_per_block s + j')" "i' < nb_blocks s" "0 < j'"
      "j' < pages_per_block s" "int j' < blk_off s i'" "state (blocks s ! i') = BLK_USED"
      "h' \<in> set (valid_list (blocks s ! i'))" "M k' = Some v'" "couple_ok (page_size s) (k', v')" "length k' < KEY_MAX"
      "holds_couple (page_at byte_at s (i' * pages_per_block s + j')) (k', v')"
      by (auto simp: entry_ok_def)
    have "i' \<noteq> i" using o(6) z(2) by auto
    then show "entry_ok byte_at M ?t h' k' q"
      unfolding entry_ok_def shape using o m(2) [OF hdr [of j' i']]
      by (intro exI [of _ i'] exI [of _ j'] exI [of _ v']) (auto simp: blk)
  next
    fix k' assume "k' \<in> dom M"
    with D(9) [of k'] show "\<exists>h q. entry (hashtable ?t) h = Some (k', q)" unfolding shape by auto
  next
    show "lists_ok ?t" using D(10) unfolding lists_ok_def shape vl .
    have "\<not> is_read_only ?t" using i g(2) shape D(3) by (auto simp: is_read_only_nth blk intro!: exI [of _ i])
    with ro show "read_only ?t = is_read_only ?t" unfolding shape by simp
  qed
qed

context reliable_flash
begin

lemma write_hdr_ok:
  assumes u: "geometry u fsize" "good (flash u)" "\<not> read_only u" "i < nb_blocks u" "length (blocks u) = nb_blocks u" "blk_off u i = 0"
    and er: "page_at byte_at u (i * pages_per_block u) = replicate (page_size u) 255"
  obtains m' where "good m'" "\<And>p. p \<noteq> i * pages_per_block u \<Longrightarrow> flash_page byte_at (page_size u) m' p = page_at byte_at u p"
    "write_hdr K (int (i * pages_per_block u)) NAND_DATA 0 u = Ret (opened m' i u)"
proof -
  note g = geometryD [OF u(1)]
  have zero: "0 < pages_per_block u" "length (replicate (page_size u) (0::byte)) = page_size u"
    "page_at byte_at u (i * pages_per_block u + 0) = replicate (page_size u) 255"
    using g(2) er by simp_all
  obtain m' where m: "good m'" "\<And>p. flash_page byte_at (page_size u) m' p = (if p = i * pages_per_block u + 0
        then replicate (page_size u) 0 else page_at byte_at u p)"
    and wr: "write_page K (int (i * pages_per_block u + 0)) (replicate (page_size u) 0) u =
     (let t = u\<lparr>flash := m', blocks := (blocks u)[i := (blocks u ! i)\<lparr>current_page_offset := blk_off u i + 1\<rparr>]\<rparr>
      in if is_read_only t then Ret (- 1, t\<lparr>read_only := True\<rparr>) else Ret (0, t))"
    using write_page_ok [OF u(1-5) zero] by blast
  define t where "t = u\<lparr>flash := m', blocks := (blocks u)[i := (blocks u ! i)\<lparr>current_page_offset := 1\<rparr>]\<rparr>"
  have nro: "\<not> is_read_only t"
    using u(4,5) g(2) by (auto simp: is_read_only_nth t_def intro!: exI [of _ i])
  have wr': "write_page K (int (i * pages_per_block u)) (replicate (page_size u) 0) u = Ret (0, t)"
    using wr nro u(6) by (simp add: t_def Let_def)
  have "upd_block_of (int (i * pages_per_block u)) (\<lambda>b. b\<lparr>state := BLK_USED\<rparr>) t = Ret (opened m' i u)"
  proof -
    have "c_div (int (i * pages_per_block u)) (pages_per_block u) = int i"
      using g(2) by (simp only: c_div_int) simp
    then show ?thesis
      using g(2) u(4,5) by (cases "blocks u ! i") (simp add: upd_block_of_def upd_block_def t_def opened_def)
  qed
  then have "write_hdr K (int (i * pages_per_block u)) NAND_DATA 0 u = Ret (opened m' i u)"
    using wr' kmalloc_ok [OF u(2), of "page_size u"] by (auto simp: write_hdr_def)
  with m that show ?thesis by simp
qed

lemma get_next_page_ok:
  assumes inv: "kv M s" and ro: "\<not> read_only s" and mf: "meta_full s"
  obtains i j t where "get_next_page K s = Ret (int i, t)" "kv M t" "i < nb_blocks s" "blk_off t i = int j" "0 < j"
    "j < pages_per_block s" "state (blocks t ! i) = BLK_USED" "same_config s t" "hashtable t = hashtable s" "\<not> read_only t"
    "map nb_invalid (blocks t) = map nb_invalid (blocks s)" "meta_same s t" "free_count s \<le> free_count t + 1"
    "map worn (blocks t) = map worn (blocks s)"
proof -
  note D = kv_invD [OF inv]
  note g = geometryD [OF D(1)]
  let ?c = "\<lambda>b. state b \<noteq> BLK_INVALID \<and> current_page_offset b < int (pages_per_block s)"
  have w: "\<forall>b \<in> set (blocks s). worn b < 2147483647"
    using D(3,6) by (metis blk_counts_ok_def in_set_conv_nth)
  have "\<exists>b \<in> set (blocks s). ?c b"
    using ro D(3) D(6) unfolding kv_inv_read_only [OF inv]
    by (metis blk_counts_ok_def blk_state.distinct(12,16,6) nth_mem)
  with least_worn_spec [OF w, of ?c] obtain i where i: "i < nb_blocks s" "get_healthy_block s = int i" "?c (blocks s ! i)"
    using D(3) by (auto simp: get_healthy_block_def)
  have cnt: "blk_counts_ok (pages_per_block s) (blocks s ! i)" using D(6) i(1) .
  have nm: "state (blocks s ! i) \<noteq> BLK_META" using mf i(1,3) D(3) by (auto simp: meta_full_def)
  show ?thesis
  proof (cases "blk_off s i < 1")
    case False
    then obtain j where j: "blk_off s i = int j" "0 < j" "j < pages_per_block s"
      using i(3) by (metis less_numeral_extra(3) linorder_not_less nat_0_iff nat_less_iff not_gr_zero
          of_nat_0_less_iff of_nat_less_iff pos_int_cases zero_less_one order_less_le_trans)
    have "state (blocks s ! i) = BLK_USED"
      using cnt False nm by (auto simp: blk_counts_ok_def)
    moreover have "get_next_page K s = Ret (int i, s)"
      using i D(3) False by (simp add: get_next_page_def Let_def RESERVED_PG_CNT_def)
    ultimately show ?thesis using that [OF _ inv i(1) j] ro by simp
  next
    case True
    then have z: "blk_off s i = 0" "state (blocks s ! i) = BLK_FREE" "nb_invalid (blocks s ! i) = 0" "valid_list (blocks s ! i) = []"
      using cnt nm by (auto simp: blk_counts_ok_def)
    define u where "u = s\<lparr>blocks := (blocks s)[i := (blocks s ! i)\<lparr>state := BLK_USED\<rparr>]\<rparr>"
    have er: "page_at byte_at u (i * pages_per_block u) = replicate (page_size u) 255"
      using D(7) [OF i(1), unfolded erased_above_def, rule_format, of 0] g(2) z(1,2) by (simp add: u_def)
    have u: "geometry u fsize" "good (flash u)" "\<not> read_only u" "i < nb_blocks u" "length (blocks u) = nb_blocks u" "blk_off u i = 0"
      using D(1-3) i(1) ro z(1) by (simp_all add: u_def geometry_def)
    obtain m' where m: "good m'" "\<And>p. p \<noteq> i * pages_per_block u \<Longrightarrow> flash_page byte_at (page_size u) m' p = page_at byte_at u p"
      and hdr': "write_hdr K (int (i * pages_per_block u)) NAND_DATA 0 u = Ret (opened m' i u)"
      using write_hdr_ok [OF u er] by blast
    define t where "t = opened m' i s"
    have "opened m' i u = t"
      using i(1) D(3) by (simp add: t_def opened_def u_def)
    with hdr' have hdr: "write_hdr K (int i * int (pages_per_block s)) NAND_DATA 0 u = Ret t"
      by (simp add: u_def)
    have blk: "blocks t ! i' = (if i' = i then (blocks s ! i)\<lparr>state := BLK_USED, current_page_offset := 1\<rparr> else blocks s ! i')" for i'
      using i(1) D(3) by (simp add: t_def opened_def nth_list_update)
    have "get_next_page K s = Ret (int i, t)"
      using i D(3) z(1) hdr by (simp add: get_next_page_def Let_def RESERVED_PG_CNT_def upd_block_def u_def)
    moreover have "kv M t"
      using opened_inv [OF inv i(1) z(1,2) m(1)] m(2) by (simp add: t_def u_def)
    moreover have "map nb_invalid (blocks t) = map nb_invalid (blocks s)"
    proof (rule nth_equalityI)
      show "length (map nb_invalid (blocks t)) = length (map nb_invalid (blocks s))" by (simp add: t_def opened_def)
      then show "map nb_invalid (blocks t) ! i' = map nb_invalid (blocks s) ! i'" if "i' < length (map nb_invalid (blocks t))" for i'
        using that by (simp add: blk)
    qed
    moreover have "blk_off t i = int 1" "state (blocks t ! i) = BLK_USED" "same_config s t" "hashtable t = hashtable s" "\<not> read_only t"
      using ro by (simp_all add: blk) (simp_all add: same_config_def t_def opened_def)
    moreover have "meta_same s t" "free_count s \<le> free_count t + 1"
      using z(2) i(1) D(3) length_filter_upd [of i "blocks s"]
      by (auto simp: t_def opened_def free_count_def intro!: meta_same_upd [of _ _ i])
    moreover have "map worn (blocks t) = map worn (blocks s)" by (simp add: t_def opened_def map_upd_same)
    ultimately show ?thesis
      using that [of i t 1] i(1) g(2) by simp
  qed
qed

end

section \<open>Writing a couple\<close>

context reliable_flash
begin

lemma write_couple_ok:
  assumes inv: "kv M s" and i: "i < nb_blocks s" "state (blocks s ! i) = BLK_USED"
    and j: "blk_off s i = int j" "0 < j" "j < pages_per_block s"
    and k: "M k = None" "couple_ok (page_size s) (k, v)" "length k < KEY_MAX"
    and buf: "length buf = page_size s" "holds_couple buf (k, v)"
  obtains t1 ht' h t where
    "write_page K (int (i * pages_per_block s + j)) buf s
       = Ret (if read_only t then - 1 else 0, t1)"
    "hash_add (hash_size t1) (hashtable t1) k (int (i * pages_per_block s + j)) = Ret (int h, ht')"
    "list_add (int h) (int i) (t1\<lparr>hashtable := ht'\<rparr>) = Ret t"
    "kv (M(k \<mapsto> v)) t" "same_config s t" "map nb_invalid (blocks t) = map nb_invalid (blocks s)"
    "t = appended (flash t) i h ht' (is_read_only t) s" "meta_same s t" "free_count t = free_count s"
    "map worn (blocks t) = map worn (blocks s)"
proof -
  note D = kv_invD [OF inv]
  let ?p = "i * pages_per_block s + j"
  have ro: "\<not> read_only s" using kv_inv_read_only [OF inv] i(1) j by auto
  have er: "page_at byte_at s ?p = replicate (page_size s) 255"
    using D(7) [OF i(1)] i(2) j by (simp add: erased_above_def)
  obtain m where m: "good m" "\<And>p. flash_page byte_at (page_size s) m p
        = (if p = ?p then buf else page_at byte_at s p)"
    and wr: "write_page K (int ?p) buf s =
       (let t = s\<lparr>flash := m, blocks := (blocks s)[i := (blocks s ! i)\<lparr>current_page_offset := blk_off s i + 1\<rparr>]\<rparr>
        in if is_read_only t then Ret (- 1, t\<lparr>read_only := True\<rparr>) else Ret (0, t))"
    using write_page_ok [OF D(1,2) ro i(1) D(3) j(3) buf(1) er] by blast
  define u where "u = s\<lparr>flash := m, blocks := (blocks s)[i := (blocks s ! i)\<lparr>current_page_offset := blk_off s i + 1\<rparr>]\<rparr>"
  define r where "r = is_read_only u"
  have none: "\<forall>h q. entry (hashtable s) h \<noteq> Some (k, q)"
    using D(8) k(1) by (fastforce simp: entry_ok_def)
  obtain h ht' where a: "hash_add (hash_size s) (hashtable s) k (int ?p) = Ret (int h, ht')" "index_ok (hash_size s) ht'"
    "entry (hashtable s) h = None" "entry ht' = (entry (hashtable s))(h \<mapsto> (k, int ?p))"
    using ht.add_absent [OF D(4) index_room_ok [OF inv i(1) j] k(3) none] by blast
  let ?t = "appended m i h ht' r s"
  have off: "map current_page_offset (blocks ?t) = map current_page_offset (blocks u)"
    by (rule nth_equalityI) (auto simp: appended_def u_def nth_list_update i D(3))
  have r: "r \<longleftrightarrow> is_read_only ?t"
    using off [THEN arg_cong, of "list_all (\<lambda>x. \<not> x < int (pages_per_block s))"]
    by (simp add: r_def is_read_only_def list.pred_map comp_def appended_def u_def)
  have h: "h < length ht'"
    using a(4) by (metis entry_def fun_upd_same option.distinct(1))
  have nl: "\<not> linked h (u\<lparr>read_only := r, hashtable := ht'\<rparr>)"
  proof -
    have "h \<notin> set (valid_list (blocks s ! i'))" if "i' < nb_blocks s" for i'
      using that lists_ok_entry [OF D(10)] a(3) by blast
    then show ?thesis
      using D(3) i(1) by (auto simp: linked_def list_ex_length u_def nth_list_update)
  qed
  show ?thesis
  proof (rule that [of ?t "u\<lparr>read_only := r\<rparr>" h ht'])
    show "write_page K (int ?p) buf s = Ret (if read_only ?t then - 1 else 0, u\<lparr>read_only := r\<rparr>)"
      using wr ro unfolding u_def [symmetric] r_def Let_def
      by (cases "is_read_only u") (simp_all add: appended_def u_def)
    show "hash_add (hash_size (u\<lparr>read_only := r\<rparr>)) (hashtable (u\<lparr>read_only := r\<rparr>)) k (int ?p) = Ret (int h, ht')"
      using a(1) by (simp add: u_def del: of_nat_add of_nat_mult)
    show "list_add (int h) (int i) (u\<lparr>read_only := r, hashtable := ht'\<rparr>) = Ret ?t"
      using h nl i(1) D(3) by (simp add: list_add_def upd_block_def u_def appended_def)
    show "kv (M(k \<mapsto> v)) ?t"
      by (rule appended_inv [OF inv i j k m buf(2) a(2-4) r])
    show "same_config s ?t" by (simp add: same_config_def appended_def)
    show "map nb_invalid (blocks ?t) = map nb_invalid (blocks s)"
      by (rule nth_equalityI) (auto simp: appended_def nth_list_update i D(3))
    show "?t = appended (flash ?t) i h ht' (is_read_only ?t) s"
      using r by (simp add: appended_def)
    show "meta_same s ?t"
      by (rule meta_same_upd) (use i(2) in \<open>auto simp: appended_def\<close>)
    show "free_count ?t = free_count s"
      using i D(3) by (simp add: free_count_def appended_def length_filter_upd_same)
    show "map worn (blocks ?t) = map worn (blocks s)" by (simp add: appended_def map_upd_same)
  qed
qed

text \<open>\<open>set_keyval\<close> up to the call of \<open>gb_check\<close>.\<close>

lemma set_keyval_writes:
  assumes inv: "kv M s" and ro: "\<not> read_only s" and k: "couple_ok (page_size s) (k, v)" "length k < KEY_MAX"
    and mf: "meta_full s"
  obtains t where "kv (M(k \<mapsto> v)) t" "same_config s t" "meta_same s t" "free_count s \<le> free_count t + 1"
    "map worn (blocks t) = map worn (blocks s)"
    "set_keyval K ts_write ts_flush k v s =
       obind (gb_check K t) (\<lambda>s.
         let s = s\<lparr>time_write := clock ts_write\<rparr> in
         obind (if 1000000 \<le> time_write s - time_flush s
                then obind (flush_metadata K ts_flush s) (\<lambda>(_, s). Ret s) else Ret s) (\<lambda>s.
           Ret (if read_only t then - 3 else 0, s)))"
proof -
  note D = kv_invD [OF inv]
  obtain r s1 where s1: "hash_search (hash_size s) (hashtable s) k = Ret r" "(if 0 \<le> r then invalid_pg r s else Ret s) = Ret s1"
    "kv (M(k := None)) s1" "same_config s s1" "\<not> read_only s1"
    "meta_same s s1" "free_count s1 = free_count s" "map worn (blocks s1) = map worn (blocks s)"
  proof (cases "M k")
    case None
    then have "M(k := None) = M" by auto
    with None hash_search_map [OF inv, of k] inv ro that [of _ s] show ?thesis
      by force
  next
    case (Some w)
    with hash_search_map [OF inv, of k] obtain h q
      where h: "hash_search (hash_size s) (hashtable s) k = Ret (int h)" "entry (hashtable s) h = Some (k, q)" by auto
    obtain i where i: "i < nb_blocks s" "invalid_pg (int h) s = Ret (dropped h i s)" "kv (M(k := None)) (dropped h i s)"
      "meta_same s (dropped h i s)" "free_count (dropped h i s) = free_count s"
      "map worn (blocks (dropped h i s)) = map worn (blocks s)"
      by (rule invalid_pg_ok [OF inv h(2)])
    from that [OF h(1), of "dropped h i s"] i ro show ?thesis by simp
  qed
  have c1: "nb_blocks s1 = nb_blocks s" "pages_per_block s1 = pages_per_block s" "page_size s1 = page_size s"
    using s1(4) by (simp_all add: same_config_def)
  obtain i j s2 where s2: "get_next_page K s1 = Ret (int i, s2)" "kv (M(k := None)) s2" "i < nb_blocks s" "blk_off s2 i = int j" "0 < j"
    "j < pages_per_block s" "state (blocks s2 ! i) = BLK_USED" "same_config s1 s2" "map nb_invalid (blocks s2) = map nb_invalid (blocks s1)"
    "meta_same s1 s2" "free_count s1 \<le> free_count s2 + 1" "map worn (blocks s2) = map worn (blocks s1)"
    using get_next_page_ok [OF s1(3,5) meta_same_full [OF s1(6) c1(2) mf]] unfolding c1 by metis
  have c2: "nb_blocks s2 = nb_blocks s" "pages_per_block s2 = pages_per_block s" "page_size s2 = page_size s"
    using s2(8) c1 by (simp_all add: same_config_def)
  have none: "(M(k := None)) k = None" by simp
  note w = write_couple_ok [OF s2(2), unfolded c2, OF s2(3,7,4-6) none k length_couple_image [OF k(1)] image_holds]
  obtain t1 ht' h t where t: "write_page K (int (i * pages_per_block s + j)) (couple_image (page_size s) (k, v)) s2
       = Ret (if read_only t then - 1 else 0, t1)"
    "hash_add (hash_size t1) (hashtable t1) k (int (i * pages_per_block s + j)) = Ret (int h, ht')"
    "list_add (int h) (int i) (t1\<lparr>hashtable := ht'\<rparr>) = Ret t"
    "kv ((M(k := None))(k \<mapsto> v)) t" "same_config s2 t" "map nb_invalid (blocks t) = map nb_invalid (blocks s2)"
    "t = appended (flash t) i h ht' (is_read_only t) s2" "meta_same s2 t" "free_count t = free_count s2"
    "map worn (blocks t) = map worn (blocks s2)"
    by (rule w)
  have big: "\<not> length k + length v + 8 > page_size s" using k(1) by (simp add: couple_ok_def)
  have fb: "fill_buffer (page_size s) k v = Ret (couple_image (page_size s) (k, v))" by (rule fill_buffer_image [OF k(1)])
  have ib: "i < length (blocks s2)" using kv_invD(3) [OF s2(2)] s2(3) c2 by simp
  obtain bf where al: "k_kmalloc K (flash s) (page_size s) = Some bf" using kmalloc_ok [OF D(2)] by blast
  show ?thesis
  proof (rule that [of t])
    show "kv (M(k \<mapsto> v)) t" using t(4) by simp
    show "same_config s t" using same_config_trans s1(4) s2(8) t(5) by blast
    show "meta_same s t" using meta_same_trans s1(6) s2(10) t(8) by blast
    show "free_count s \<le> free_count t + 1" using s1(7) s2(11) t(9) by simp
    show "map worn (blocks t) = map worn (blocks s)" using s1(8) s2(12) t(10) by simp
    show "set_keyval K ts_write ts_flush k v s = obind (gb_check K t) (\<lambda>s.
         let s = s\<lparr>time_write := clock ts_write\<rparr> in
         obind (if 1000000 \<le> time_write s - time_flush s
                then obind (flush_metadata K ts_flush s) (\<lambda>(_, s). Ret s) else Ret s) (\<lambda>s.
           Ret (if read_only t then - 3 else 0, s)))"
      using big ro al s1(1,2) s2(1,4) fb ib t(1-3) c1 c2
      by (simp add: set_keyval_def Let_def)
  qed
qed

end

section \<open>Deleting, formatting and loading\<close>

lemma del_key_map:
  assumes inv: "kv_inv byte_at good fsize M s"
  shows "(case M k of None \<Rightarrow> del_key k s = Ret (- 2, s)
     | Some v \<Rightarrow> \<exists>p < hash_size s. \<exists>t. del_key k s = Ret (int p, t) \<and> kv_inv byte_at good fsize (M(k := None)) t
                 \<and> same_config s t \<and> flash t = flash s \<and> meta_same s t
                 \<and> free_count t = free_count s \<and> map worn (blocks t) = map worn (blocks s))"
proof (cases "M k")
  case None
  with hash_search_map [OF inv, of k] show ?thesis by (auto simp: del_key_def)
next
  case (Some v)
  with hash_search_map [OF inv, of k] obtain h q
    where h: "hash_search (hash_size s) (hashtable s) k = Ret (int h)" "entry (hashtable s) h = Some (k, q)" by auto
  note D = kv_invD [OF inv]
  from D(8) [OF h(2)] obtain i j where e: "q = int (i * pages_per_block s + j)" "i < nb_blocks s" "j < pages_per_block s"
      "state (blocks s ! i) = BLK_USED"
    by (auto simp: entry_ok_def)
  have b: "h < length (hashtable s)" "index (hashtable s ! h) = q" "p_state (hashtable s ! h) \<noteq> PG_FREE"
    using h(2) by (auto simp: entry_def split: if_splits)
  have q: "c_div q (pages_per_block s) = int i" using e(3) by (simp only: e(1) c_div_int div_mult_lt)
  obtain i' where t: "invalid_pg (int h) s = Ret (dropped h i' s)" "kv_inv byte_at good fsize (M(k := None)) (dropped h i' s)"
    "meta_same s (dropped h i' s)" "free_count (dropped h i' s) = free_count s" "map worn (blocks (dropped h i' s)) = map worn (blocks s)"
    by (rule invalid_pg_ok [OF inv h(2)])
  have "del_key k s = Ret (q, dropped h i' s)"
    using h(1) b q e(2,4) t(1) D(3) by (simp add: del_key_def)
  moreover have "flash (dropped h i' s) = flash s" by (simp add: dropped_def)
  ultimately show ?thesis
    using Some t(2-5) e page_of_block [OF e(2,3)] by auto
qed

context reliable_flash
begin

lemma format_ok:
  assumes g: "geometry s fsize" and gd: "good (flash s)"
    and len: "length (blocks s) = nb_blocks s" "length (hashtable s) = hash_size s"
  obtains t where "format K s = Ret (0, t)" "kv Map.empty t" "same_config s t" "\<not> read_only t"
    "\<And>b. b \<in> set (blocks t) \<Longrightarrow> state b = BLK_FREE \<and> worn b = 0"
proof -
  note G = geometryD [OF g]
  have sz: "block_size s * nb_blocks s = fsize" using G(5,6) by (simp add: mult_ac)
  from erase_ok [OF gd, of 0 fsize] obtain m where m: "k_erase K (flash s) 0 fsize = (0, Some MTD_ERASE_DONE, m)" "good m"
    by auto
  let ?blk = "\<lambda>b. b\<lparr>valid_list := [], state := BLK_FREE, worn := 0, nb_invalid := 0, current_page_offset := 0\<rparr>"
  let ?t = "s\<lparr>format_done := 1, flash := m, read_only := False, blocks := map ?blk (blocks s),
         hashtable := map (\<lambda>b. b\<lparr>p_state := PG_FREE, dirty := False\<rparr>) (hashtable s)\<rparr>"
  have f: "format K s = Ret (0, ?t)"
    using m(1) sz by (simp add: format_def erase_wait_def format_callback_def Let_def)
  have er: "flash_page byte_at (page_size s) m p = replicate (page_size s) 255" if "p < hash_size s" for p
  proof -
    have f0: "fsize = nb_blocks s * (pages_per_block s * page_size s)" using G(6) by (simp add: mult_ac)
    have "k_erase K (flash s) (0 * (pages_per_block s * page_size s)) (nb_blocks s * (pages_per_block s * page_size s))
        = (0, Some MTD_ERASE_DONE, m)"
      using m(1) unfolding f0 by simp
    from page_erase [OF this, of p] that show ?thesis by simp
  qed
  have ent: "entry (hashtable ?t) = Map.empty" using len by (auto simp: entry_def fun_eq_iff)
  have "kv Map.empty ?t"
    unfolding kv_inv_def
  proof (intro conjI allI impI ballI)
    show "geometry ?t fsize" using g by (simp add: geometry_def)
    show "index_ok (hash_size ?t) (hashtable ?t)"
      unfolding index_ok_def ent using G len by simp
    show "read_only ?t = is_read_only ?t"
      using len G by (auto simp: is_read_only_nth intro!: exI [of _ 0])
  next
    fix i assume i: "i < nb_blocks ?t"
    with len show "blk_counts_ok (pages_per_block ?t) (blocks ?t ! i)" by (simp add: blk_counts_ok_def)
    from i show "erased_above byte_at ?t i"
      using er [OF page_of_block [of i s]] by (simp add: erased_above_def)
  qed (use m(2) len ent in \<open>auto simp: lists_ok_def\<close>)
  then show ?thesis
    by (rule that [OF f]) (auto simp: same_config_def)
qed

text \<open>No block starts with the magic number of a metadata block.\<close>

lemma scan_header_none:
  assumes g: "geometry s fsize" and gd: "good (flash s)" and le: "\<forall>i \<in> set is. i < nb_blocks s"
    and no: "\<forall>i \<in> set is. bytes_int (page_at byte_at s (i * pages_per_block s)) \<noteq> META_HDR_BASE"
  shows "ofold (scan_header K) is (False, 0, s) = Ret (False, 0, s)"
  using le no
proof (induction "is")
  case (Cons i "is")
  have "i * pages_per_block s < hash_size s"
    using page_of_block [of i s 0] Cons.prems(1) geometryD(2) [OF g] by simp
  from read_page_ok [OF g gd this] Cons show ?case by (simp add: scan_header_def)
qed simp

end

context reliable_flash
begin

lemma load_tables_ok:
  assumes "block_info_size s + hashtable_size s \<le> length buf"
  obtains bs hs where "load_tables buf s = Ret (s\<lparr>blocks := bs, hashtable := hs\<rparr>)"
    "length bs = nb_blocks s" "length hs = hash_size s"
  using assms by (auto simp: load_tables_def mem_slice_def)

text \<open>Loading the module on a partition without metadata formats it.\<close>

lemma init_scan_blank:
  assumes g: "geometry s fsize" and gd: "good (flash s)"
    and no: "\<forall>i < nb_blocks s. bytes_int (page_at byte_at s (i * pages_per_block s)) \<noteq> META_HDR_BASE"
  obtains t where "init_scan K s = Ret (0, t)" "kv Map.empty t" "same_config (set_meta_sizes s\<lparr>meta_blkordr := meta_blkordr t\<rparr>) t"
    "meta_blkordr t = replicate (nb_meta_blocks t) (- 1)" "\<And>b. b \<in> set (blocks t) \<Longrightarrow> state b = BLK_FREE \<and> worn b = 0"
proof -
  note G = geometryD [OF g]
  let ?s1 = "set_meta_sizes s"
  let ?s2 = "?s1\<lparr>meta_blkordr := replicate (nb_meta_blocks ?s1) (- 1)\<rparr>"
  have c: "nb_blocks ?s2 = nb_blocks s" "pages_per_block ?s2 = pages_per_block s" "page_size ?s2 = page_size s"
    "block_size ?s2 = block_size s" "flash ?s2 = flash s" "flash ?s1 = flash s" "page_size ?s1 = page_size s"
    by (simp_all add: set_meta_sizes_def Let_def)
  obtain buf where buf: "k_kmalloc K (flash s) (page_size s * nb_meta_pages ?s1) = Some buf" "page_size s * nb_meta_pages ?s1 \<le> length buf"
    using kmalloc_ok [OF gd] by blast
  obtain b1 b2 b3 where al: "k_kmalloc K (flash s) (page_size s) = Some b1" "k_kmalloc K (flash s) (4 * nb_meta_blocks ?s1) = Some b2"
    "k_kmalloc K (flash s) 16 = Some b3"
    using kmalloc_ok [OF gd] by blast
  have g2: "geometry ?s2 fsize" using g c by (simp add: geometry_def)
  have scan: "ofold (scan_header K) [0..<nb_blocks s] (False, 0, ?s2) = Ret (False, 0, ?s2)"
    by (rule scan_header_none) (use g2 gd no c in auto)
  have "block_info_size ?s2 + hashtable_size ?s2 \<le> page_size s * nb_meta_pages ?s1"
  proof -
    let ?x = "SIZEOF_BUCKET * nb_blocks s * pages_per_block s + SIZEOF_BLK_INFO * nb_blocks s"
    have "?x \<le> page_size s * (?x div page_size s + 1)"
      using dividend_less_times_div [of "page_size s" ?x] G(3) by simp
    then show ?thesis by (simp only: set_meta_sizes_def Let_def) simp
  qed
  with buf(2) have le: "block_info_size ?s2 + hashtable_size ?s2 \<le> length buf" by linarith
  obtain bs hs where ld: "load_tables buf ?s2 = Ret (?s2\<lparr>blocks := bs, hashtable := hs\<rparr>)"
    "length bs = nb_blocks ?s2" "length hs = hash_size ?s2"
    by (rule load_tables_ok [OF le])
  let ?s3 = "?s2\<lparr>blocks := bs, hashtable := hs\<rparr>"
  obtain t where t: "format K ?s3 = Ret (0, t)" "kv Map.empty t" "same_config ?s3 t" "\<not> read_only t"
    "\<And>b. b \<in> set (blocks t) \<Longrightarrow> state b = BLK_FREE \<and> worn b = 0"
    by (rule format_ok [of ?s3]) (use g2 gd c ld in \<open>auto simp: geometry_def\<close>)
  have nro: "\<not> is_read_only t" using t(4) kv_invD(11) [OF t(2)] by simp
  have "init_scan K s = Ret (0, t)"
    using G(2,3) buf(1) al scan ld(1) t(1) nro c
    by (simp add: init_scan_def Let_def)
  then show ?thesis
    by (rule that [OF _ t(2)]) (use t(3,5) in \<open>auto simp: same_config_def\<close>)
qed

lemma init_config_blank:
  assumes dev: "idx \<noteq> - 1" "k_get_mtd_device K idx = Some \<lparr>mtd_size = nb * (q * ps), mtd_erasesize = q * ps, mtd_writesize = ps\<rparr>"
    and dim: "0 < nb" "nb < 2147483648" "1 < q" "8 \<le> ps" "q * ps < 2147483648" "fsize = nb * q * ps" "fsize < 2 ^ 64"
    and gd: "good (flash s)" and no: "\<forall>i < nb. bytes_int (flash_page byte_at ps (flash s) (i * q)) \<noteq> META_HDR_BASE"
  obtains t where "init_config K idx s = Ret (0, t)" "kv Map.empty t" "nb_blocks t = nb" "pages_per_block t = q" "page_size t = ps"
    "time_flush t = 0" "meta_blkordr t = replicate (nb_meta_blocks t) (- 1)" "\<And>b. b \<in> set (blocks t) \<Longrightarrow> state b = BLK_FREE \<and> worn b = 0"
    "block_info_size t = block_info_size (set_meta_sizes t)" "hashtable_size t = hashtable_size (set_meta_sizes t)"
    "nb_meta_pages t = nb_meta_pages (set_meta_sizes t)" "nb_meta_blocks t = nb_meta_blocks (set_meta_sizes t)"
proof -
  have ps: "ps < 2147483648"
  proof -
    have "1 * ps \<le> q * ps" using dim(3) by (intro mult_le_mono1) simp
    with dim(5) show ?thesis by linarith
  qed
  have qps: "nat (s32 (int q * int ps)) = q * ps"
  proof -
    have "s32 (int (q * ps)) = int (q * ps)" using dim(5) by (intro s32_id) linarith+
    then show ?thesis by (simp only: of_nat_mult [symmetric] nat_int)
  qed
  define u where "u = s\<lparr>format_done := 0, read_only := False, mtd_index := idx,
      mtd := Some \<lparr>mtd_size = nb * (q * ps), mtd_erasesize = q * ps, mtd_writesize = ps\<rparr>,
      block_size := q * ps, page_size := ps, pages_per_block := q, nb_blocks := nb, format_lock := 1, time_flush := 0, time_write := 0\<rparr>"
  have gu: "geometry u fsize" using dim ps by (simp add: geometry_def u_def)
  have nu: "\<forall>i < nb_blocks u. bytes_int (page_at byte_at u (i * pages_per_block u)) \<noteq> META_HDR_BASE"
    using no by (simp add: u_def)
  have gdu: "good (flash u)" using gd by (simp add: u_def)
  obtain t where t: "init_scan K u = Ret (0, t)" "kv Map.empty t" "same_config (set_meta_sizes u\<lparr>meta_blkordr := meta_blkordr t\<rparr>) t"
    "meta_blkordr t = replicate (nb_meta_blocks t) (- 1)" "\<And>b. b \<in> set (blocks t) \<Longrightarrow> state b = BLK_FREE \<and> worn b = 0"
    using init_scan_blank [OF gu gdu nu] by blast
  obtain b1 b2 where al: "k_kmalloc K (flash s) (SIZEOF_BLK_INFO * nb) = Some b1" "k_kmalloc K (flash s) (SIZEOF_BUCKET * nb * q) = Some b2"
    using kmalloc_ok [OF gd] by blast
  have "init_config K idx s = Ret (0, t)"
    using dev dim ps al t(1) qps by (simp add: init_config_def Let_def u_def)
  then show ?thesis
    by (rule that [OF _ t(2)]) (use t(3-5) in \<open>auto simp: same_config_def set_meta_sizes_def Let_def u_def\<close>)
qed

end

end
