(* ===== verification/GcBuffer.thy ===== *)
theory GcBuffer
  imports KernelEnv PageFormat
begin

text \<open>
  The buffer of a garbage collection, in both prototypes that have one: page \<open>i\<close> of the collected
  block goes to offset \<open>i * pages_per_block\<close>, so the next page overwrites it from its byte
  \<open>pages_per_block\<close> on; a couple that fits below that offset survives.
\<close>

section \<open>Buffers\<close>

lemma mem_slice_drop:
  assumes "off \<le> length buf" "0 \<le> x"
  shows "mem_slice buf (int off + x) n = mem_slice (drop off buf) x n"
proof -
  have "nat (int off + x) = off + nat x" using assms by (simp add: nat_add_distrib)
  then show ?thesis using assms by (auto simp: mem_slice_def add.commute)
qed

lemma bytes_int_take4 [simp]: "bytes_int (take 4 x) = bytes_int x"
  by (simp add: bytes_int_def)

lemma mem_slice_int4: "4 \<le> length buf \<Longrightarrow> mem_slice buf 0 4 = Ret (take 4 buf)"
  "8 \<le> length buf \<Longrightarrow> mem_slice buf 4 4 = Ret (take 4 (drop 4 buf))"
  by (simp_all add: mem_slice_def)

lemma mem_store_ok:
  assumes "off + length src \<le> length buf"
  obtains buf' where "mem_store buf (int off) src = Ret buf'" "length buf' = length buf"
    "take off buf' = take off buf" "drop off buf' = src @ drop (off + length src) buf"
  using assms by (auto simp: mem_store_def)

text \<open>Storing the bytes that are there already.\<close>

lemma mem_store_same:
  assumes "o1 + length src \<le> length buf" "take (length src) (drop o1 buf) = src"
  shows "mem_store buf (int o1) src = Ret buf"
proof -
  have "take o1 buf @ src @ drop (o1 + length src) buf = buf"
    by (metis add.commute append_take_drop_id assms(2) drop_drop)
  with assms(1) show ?thesis by (simp add: mem_store_def)
qed

lemma holds_couple_append: "holds_couple page c \<Longrightarrow> holds_couple (page @ r) c"
  by (auto simp: holds_couple_split)

lemma holds_couple_take: "holds_couple (take n mem) c \<Longrightarrow> holds_couple mem c"
  by (metis append_take_drop_id holds_couple_append)

text \<open>The lengths recorded for a couple.\<close>

definition lens :: "couple \<Rightarrow> int \<times> int" where
  "lens c = (int (length (fst c)), int (length (snd c)))"

text \<open>Couples \<open>cs\<close> are in the buffer from record \<open>n\<close> on, one every \<open>q\<close> bytes.\<close>

definition buffered :: "nat \<Rightarrow> nat \<Rightarrow> byte list \<Rightarrow> couple list \<Rightarrow> bool" where
  "buffered q n buffer cs \<longleftrightarrow> (\<forall>i < length cs. holds_couple (drop ((n + i) * q) buffer) (cs ! i))"

text \<open>A couple of the map, with a key shorter than \<open>cap\<close>.\<close>

definition couple_of :: "nat \<Rightarrow> nat \<Rightarrow> (byte list \<rightharpoonup> byte list) \<Rightarrow> couple \<Rightarrow> bool" where
  "couple_of cap ps M c \<longleftrightarrow> M (fst c) = Some (snd c) \<and> couple_ok ps c \<and> length (fst c) < cap"

lemma buffered_Cons:
  assumes "holds_couple (drop (n * q) buffer) c" "8 + length (fst c) + length (snd c) \<le> q"
    and "take (Suc n * q) buffer' = take (Suc n * q) buffer" "buffered q (Suc n) buffer' cs" "Suc n * q \<le> length buffer"
  shows "buffered q n buffer' (c # cs)"
  unfolding buffered_def
proof (intro allI impI)
  fix i assume i: "i < length (c # cs)"
  show "holds_couple (drop ((n + i) * q) buffer') ((c # cs) ! i)"
  proof (cases i)
    case 0
    have "take q (drop (n * q) buffer') = take q (drop (n * q) buffer)"
      using assms(3) by (metis add_diff_cancel_right' drop_take mult_Suc)
    moreover have "holds_couple (take q (drop (n * q) buffer)) c"
      using assms(1,2) by (simp add: holds_couple_def min_def)
    ultimately show ?thesis using 0 by (metis add_0_right holds_couple_take nth_Cons_0)
  next
    case (Suc i')
    with assms(4) i show ?thesis by (simp add: buffered_def)
  qed
qed

text \<open>Writing the record of a couple over itself, and reading its parts.\<close>

lemma buffer_record:
  assumes "holds_couple (drop off buffer) c" "off \<le> length buffer"
  shows "mem_store buffer (int off) (int_bytes (int (length (fst c)))) = Ret buffer"
    "mem_store buffer (int off + 4) (int_bytes (int (length (snd c)))) = Ret buffer"
    "mem_store buffer (int off + 8) (fst c) = Ret buffer"
    "mem_store buffer (int off + 8 + int (length (fst c))) (snd c) = Ret buffer"
    "mem_slice buffer (int off + 8) (int (length (fst c))) = Ret (fst c)"
    "mem_slice buffer (int off + 8 + int (length (fst c))) (int (length (snd c))) = Ret (snd c)"
proof -
  let ?k = "fst c" and ?v = "snd c"
  have len: "8 + length ?k + length ?v \<le> length (drop off buffer)" by (rule holds_length [OF assms(1)])
  obtain r where r: "drop off buffer = record_bytes c @ r" using assms(1) holds_couple_split by blast
  have dd: "drop (off + n) buffer = drop n (record_bytes c @ r)" for n
    by (metis add.commute drop_drop r)
  have d: "take 4 (drop off buffer) = int_bytes (int (length ?k))"
    "take 4 (drop (off + 4) buffer) = int_bytes (int (length ?v))"
    "take (length ?k) (drop (off + 8) buffer) = ?k" "take (length ?v) (drop (off + 8 + length ?k) buffer) = ?v"
    using r dd [of 4] dd [of 8] dd [of "8 + length ?k"] by (simp_all add: record_bytes_def drop_append add.assoc)
  have eqs: "int off + 4 = int (off + 4)" "int off + 8 = int (off + 8)" "int (off + 8) + int (length ?k) = int (off + 8 + length ?k)"
    by simp_all
  show "mem_store buffer (int off) (int_bytes (int (length ?k))) = Ret buffer"
    "mem_store buffer (int off + 4) (int_bytes (int (length ?v))) = Ret buffer"
    "mem_store buffer (int off + 8) ?k = Ret buffer" "mem_store buffer (int off + 8 + int (length ?k)) ?v = Ret buffer"
    unfolding eqs by (rule mem_store_same; use d len assms(2) in simp)+
  show "mem_slice buffer (int off + 8) (int (length ?k)) = Ret ?k"
    "mem_slice buffer (int off + 8 + int (length ?k)) (int (length ?v)) = Ret ?v"
    unfolding eqs using mem_slice_int [of "off + 8" "length ?k" buffer] mem_slice_int [of "off + 8 + length ?k" "length ?v" buffer] d len assms(2)
    by simp_all
qed

lemma buffer_page:
  assumes "holds_couple (drop off buffer) c" "couple_ok ps c" "off + ps \<le> length buffer"
  shows "length (take ps (drop off buffer)) = ps" "holds_couple (take ps (drop off buffer)) c"
  using assms by (auto simp: holds_couple_def couple_ok_def min_def)

text \<open>Every page of a block fits the buffer when it is no smaller than the stride.\<close>

lemma buffer_fits:
  assumes "(q :: nat) \<le> ps" "r < q" "ps * q \<le> n"
  shows "r * q + ps \<le> n"
proof -
  have "r * q + ps \<le> r * ps + ps" using assms(1) by simp
  also have "\<dots> \<le> q * ps" using assms(2) mult_le_mono1 [of "Suc r" q ps] by simp
  finally show ?thesis using assms(3) by (simp add: mult.commute)
qed

section \<open>Taking couples out of a map and putting them back\<close>

lemma couples_restored:
  assumes "list_all (couple_of cap ps M) cs"
  shows "M |` (- fst ` set cs) ++ map_of cs = M"
proof
  fix k show "(M |` (- fst ` set cs) ++ map_of cs) k = M k"
  proof (cases "map_of cs k")
    case None
    then have "k \<notin> fst ` set cs" by (simp add: map_of_eq_None_iff)
    then show ?thesis using None by (simp add: map_add_def restrict_map_def)
  next
    case (Some v)
    then have "M k = Some v" using map_of_SomeD [OF Some] assms by (auto simp: list_all_iff couple_of_def)
    with Some show ?thesis by (simp add: map_add_def)
  qed
qed

lemma couples_card:
  assumes "list_all (couple_of cap ps M) cs" "distinct (map fst cs)" "finite (dom M)"
  shows "card (dom (M |` (- fst ` set cs))) + length cs = card (dom M)"
proof -
  have sub: "fst ` set cs \<subseteq> dom M" using assms(1) by (auto simp: list_all_iff couple_of_def)
  have "card (fst ` set cs) = length cs" using assms(2) by (metis distinct_card length_map set_map)
  moreover have "dom (M |` (- fst ` set cs)) = dom M - fst ` set cs" by auto
  moreover have "card (fst ` set cs) \<le> card (dom M)" by (rule card_mono [OF assms(3) sub])
  ultimately show ?thesis using card_Diff_subset [OF _ sub] by simp
qed

lemma couples_absent:
  assumes "list_all (couple_of cap ps M) cs"
  shows "\<forall>c \<in> set cs. (M |` (- fst ` set cs)) (fst c) = None \<and> couple_ok ps c \<and> length (fst c) < cap"
  using assms by (auto simp: list_all_iff couple_of_def restrict_map_def)

lemma couples_upd: "fst c \<notin> fst ` set cs \<Longrightarrow> M(fst c \<mapsto> snd c) ++ map_of cs = M ++ map_of (c # cs)"
proof -
  assume "fst c \<notin> fst ` set cs"
  then have "map_of cs (fst c) = None" by (simp add: map_of_eq_None_iff)
  then show ?thesis by (cases c) (auto simp: map_add_def fun_eq_iff split: option.splits)
qed

section \<open>The partition of the examples\<close>

text \<open>A block of 64 pages of 64 bytes, with its header, one couple, and 48 invalid pages; then other blocks.\<close>

definition gc_couple :: couple where "gc_couple = ([107], [118])"

definition gc_flash :: "byte list" where
  "gc_flash = replicate 64 0 @ couple_image 64 gc_couple @ replicate 3072 0 @ replicate 896 255"

lemma nandsim_page: "p * ps + ps \<le> length m \<Longrightarrow> flash_page nandsim_byte ps m p = take ps (drop (p * ps) m)"
  by (rule nth_equalityI) (auto simp: flash_page_def nandsim_byte_def)

lemma gc_couple_ok: "couple_ok 64 gc_couple"
  by (simp add: couple_ok_def gc_couple_def cstring_def)

lemma length_gc_flash: "length gc_flash = 4096"
  using gc_couple_ok by (simp add: gc_flash_def)

lemma gc_pages:
  "holds_couple (flash_page nandsim_byte 64 (gc_flash @ r) 1) gc_couple"
  "50 \<le> j \<Longrightarrow> j < 64 \<Longrightarrow> flash_page nandsim_byte 64 (gc_flash @ r) j = replicate 64 255"
  "flash_page nandsim_byte 64 (gc_flash @ r) 0 = replicate 64 0"
proof -
  have "flash_page nandsim_byte 64 (gc_flash @ r) 1 = couple_image 64 gc_couple"
    using length_gc_flash gc_couple_ok by (simp add: nandsim_page gc_flash_def)
  then show "holds_couple (flash_page nandsim_byte 64 (gc_flash @ r) 1) gc_couple" by (simp add: image_holds)
  show "flash_page nandsim_byte 64 (gc_flash @ r) 0 = replicate 64 0"
    using length_gc_flash gc_couple_ok by (simp add: nandsim_page gc_flash_def)
  show "flash_page nandsim_byte 64 (gc_flash @ r) j = replicate 64 255" if "50 \<le> j" "j < 64"
  proof -
    have "drop (j * 64) gc_flash = drop (j * 64 - 3200) (replicate 896 255)"
      using that gc_couple_ok by (simp add: gc_flash_def)
    then show ?thesis using that length_gc_flash by (simp add: nandsim_page)
  qed
qed

end
