(* ===== verification/SerialGc.thy ===== *)
theory SerialGc
  imports SerialStore GcBuffer
begin

text \<open>
  The garbage collector of the second prototype.  \<open>gc\<close> reads the valid pages of the first block
  over the threshold into one buffer, erases that block (the search for another one never
  succeeds) and writes the couples back.  Page \<open>i\<close> goes to offset \<open>i * pages_per_block\<close> of the
  buffer instead of \<open>i * page_size\<close>, so the next page overwrites it from its byte
  \<open>pages_per_block\<close> on; the store is preserved exactly when the couples of the block fit below
  that offset.
\<close>

section \<open>The other blocks\<close>

text \<open>Only block \<open>tg\<close> differs.\<close>

definition others :: "nat \<Rightarrow> 'm lkp_kv_cfg \<Rightarrow> 'm lkp_kv_cfg \<Rightarrow> bool" where
  "others tg s t \<longleftrightarrow> length (blocks t) = length (blocks s) \<and> (\<forall>i. i \<noteq> tg \<longrightarrow> blocks t ! i = blocks s ! i)"

lemma others_refl [simp]: "others tg s s" by (simp add: others_def)

lemma others_trans: "others tg s t \<Longrightarrow> others tg t u \<Longrightarrow> others tg s u" by (simp add: others_def)

lemma others_upd: "blocks t = (blocks s)[tg := b] \<Longrightarrow> others tg s t" by (simp add: others_def)

lemma others_used:
  assumes o: "others tg s t" and u: "state (blocks s ! tg) = BLK_USED" "state (blocks t ! tg) = BLK_USED"
  shows "meta_same s t" "free_count t = free_count s"
proof -
  show "meta_same s t"
    unfolding meta_same_def using o u by (metis blk_state.distinct(9) others_def)
  have "map state (blocks t) = map state (blocks s)"
    by (rule nth_equalityI) (use o u in \<open>auto simp: others_def, metis\<close>)
  then show "free_count t = free_count s"
    unfolding free_count_def by (metis (mono_tags, lifting) length_filter_map filter_cong o_apply length_map filter_map)
qed

section \<open>Erasing a block without valid pages\<close>

definition erased_block :: "'m \<Rightarrow> nat \<Rightarrow> 'm lkp_kv_cfg \<Rightarrow> 'm lkp_kv_cfg" where
  "erased_block m i s = s\<lparr>format_done := 1, flash := m, read_only := False,
     blocks := (blocks s)[i := (blocks s ! i)\<lparr>state := BLK_FREE, nb_invalid := 0, current_page_offset := 0,
                                             worn := worn (blocks s ! i) + 1, valid_list := []\<rparr>]\<rparr>"

lemma erased_block_inv:
  assumes inv: "kv_inv byte_at good fsize M s" and i: "i < nb_blocks s" "valid_list (blocks s ! i) = []" "worn (blocks s ! i) < 2147483646"
    and m: "good m" "\<And>p. flash_page byte_at (page_size s) m p = (if i * pages_per_block s \<le> p \<and> p < (i + 1) * pages_per_block s
        then replicate (page_size s) 255 else page_at byte_at s p)"
  shows "kv_inv byte_at good fsize M (erased_block m i s)"
proof -
  note D = kv_invD [OF inv]
  note g = geometryD [OF D(1)]
  let ?t = "erased_block m i s"
  have blk: "blocks ?t ! i' = (if i' = i then (blocks s ! i)\<lparr>state := BLK_FREE, nb_invalid := 0, current_page_offset := 0,
      worn := worn (blocks s ! i) + 1, valid_list := []\<rparr> else blocks s ! i')" for i'
    using i(1) D(3) by (simp add: erased_block_def nth_list_update)
  have shape: "nb_blocks ?t = nb_blocks s" "pages_per_block ?t = pages_per_block s" "page_size ?t = page_size s"
    "flash ?t = m" "\<not> read_only ?t" "length (blocks ?t) = length (blocks s)"
    "hashtable ?t = hashtable s" "geometry ?t fsize = geometry s fsize"
    by (simp_all add: erased_block_def geometry_def)
  have vl: "valid_list (blocks ?t ! i') = valid_list (blocks s ! i')" for i' using i(2) by (simp add: blk)
  have inblk: "i * pages_per_block s \<le> i' * pages_per_block s + j \<and> i' * pages_per_block s + j < (i + 1) * pages_per_block s \<longleftrightarrow> i' = i"
    if "j < pages_per_block s" for i' j
  proof -
    have d: "(i' * pages_per_block s + j) div pages_per_block s = i'" using that by simp
    have "i * pages_per_block s \<le> i' * pages_per_block s + j \<longleftrightarrow> i \<le> i'"
      using d that by (metis div_le_mono div_mult_self_is_m gr_implies_not0 le_add1 mult_le_mono1 neq0_conv order_trans)
    moreover have "i' * pages_per_block s + j < (i + 1) * pages_per_block s \<longleftrightarrow> i' < i + 1"
      using d that by (metis div_less_iff_less_mult gr_implies_not0 neq0_conv)
    ultimately show ?thesis by auto
  qed
  show ?thesis
    unfolding kv_inv_def
  proof (intro conjI allI impI ballI)
    show "geometry ?t fsize" "good (flash ?t)" "length (blocks ?t) = nb_blocks ?t"
      "index_ok (hash_size ?t) (hashtable ?t)"
      using D(1-4) m(1) shape by auto
  next
    fix i' assume i': "i' < nb_blocks ?t"
    have "blk_counts_ok (pages_per_block s) (blocks s ! i')" using D(6) i' shape by simp
    then show "blk_counts_ok (pages_per_block ?t) (blocks ?t ! i')"
      using i(3) shape(2) by (cases "i' = i") (auto simp: blk blk_counts_ok_def)
    show "erased_above byte_at ?t i'" if nm: "state (blocks ?t ! i') \<noteq> BLK_META"
    proof (cases "i' = i")
      case False
      then have "erased_above byte_at s i'" using D(7) [of i'] nm i' shape by (simp add: blk)
      with False show ?thesis
        unfolding erased_above_def shape m(2) by (auto simp: inblk blk)
    qed (auto simp: erased_above_def shape m(2) inblk)
  next
    fix h k q assume e: "entry (hashtable ?t) h = Some (k, q)"
    from D(8) [OF e [unfolded shape]] obtain i' j' v' where o: "q = int (i' * pages_per_block s + j')" "i' < nb_blocks s" "0 < j'"
      "j' < pages_per_block s" "int j' < blk_off s i'" "state (blocks s ! i') = BLK_USED"
      "h \<in> set (valid_list (blocks s ! i'))" "M k = Some v'" "couple_ok (page_size s) (k, v')" "length k < KEY_MAX"
      "holds_couple (page_at byte_at s (i' * pages_per_block s + j')) (k, v')"
      by (auto simp: entry_ok_def)
    have "i' \<noteq> i" using o(7) i(2) by auto
    then have "flash_page byte_at (page_size s) m (i' * pages_per_block s + j') = page_at byte_at s (i' * pages_per_block s + j')"
      using m(2) inblk [OF o(4), of i'] by auto
    with \<open>i' \<noteq> i\<close> o show "entry_ok byte_at M ?t h k q"
      unfolding entry_ok_def shape
      by - (rule exI [of _ i'], rule exI [of _ j'], rule exI [of _ v'], simp add: blk)
  next
    fix k assume "k \<in> dom M"
    with D(9) [of k] show "\<exists>h q. entry (hashtable ?t) h = Some (k, q)" unfolding shape by auto
  next
    show "lists_ok ?t" using D(10) unfolding lists_ok_def shape vl .
    have "\<not> is_read_only ?t" using i(1) g(2) shape D(3) by (auto simp: is_read_only_nth blk intro!: exI [of _ i])
    with shape(5) show "read_only ?t = is_read_only ?t" by simp
  qed
qed

context reliable_flash
begin

lemma format_single_ok:
  assumes inv: "kv M s" and i: "i < nb_blocks s" "valid_list (blocks s ! i) = []" "worn (blocks s ! i) < 2147483646"
  obtains m where "format_single K (int i) s = Ret (0, erased_block m i s)" "kv M (erased_block m i s)"
proof -
  note D = kv_invD [OF inv]
  note g = geometryD [OF D(1)]
  have le: "i * block_size s + block_size s \<le> fsize"
    using i(1) mult_le_mono1 [of "i + 1" "nb_blocks s" "block_size s"] g(5,6) by (simp add: mult_ac)
  have "i * block_size s < 2 ^ 64"
    using le g(6,7) g(2,3,5) by (metis (no_types, lifting) add_leD1 le_less_trans)
  then have addr: "page_addr (int i) (block_size s) = i * block_size s" by (rule page_addr_eq)
  from erase_ok [OF D(2) le] obtain m where m: "k_erase K (flash s) (i * block_size s) (block_size s) = (0, Some MTD_ERASE_DONE, m)" "good m"
    by blast
  have fp: "flash_page byte_at (page_size s) m p = (if i * pages_per_block s \<le> p \<and> p < (i + 1) * pages_per_block s
        then replicate (page_size s) 255 else page_at byte_at s p)" for p
    using page_erase [of "flash s" i "pages_per_block s" "page_size s" 1 m p] m(1) g(5) by simp
  have "format_single K (int i) s = Ret (0, erased_block m i s)"
    using m(1) addr i(1) D(3)
    by (cases "blocks s ! i") (simp add: format_single_def erase_wait_def Let_def format_callback_def upd_block_def erased_block_def)
  then show ?thesis using that erased_block_inv [OF inv i m(2) fp] by blast
qed

end

section \<open>Step 1: collecting the valid pages\<close>

lemma dropped_valid_list:
  assumes "i < length (blocks s)" "valid_list (blocks s ! i) = h # ys" "distinct (valid_list (blocks s ! i))"
  shows "valid_list (blocks (dropped h i s) ! i) = ys"
  using assms by (simp add: dropped_def removeAll_id)

lemma next_node_hd: "next_node (h # ys) h = Ret (case ys of [] \<Rightarrow> None | y # _ \<Rightarrow> Some y)"
  by (simp add: next_node_def split: list.splits)

text \<open>The state after the collection: the entries of the block are gone, the rest is as before.\<close>

definition collected :: "nat \<Rightarrow> 'm lkp_kv_cfg \<Rightarrow> 'm lkp_kv_cfg \<Rightarrow> bool" where
  "collected tg s t \<longleftrightarrow> same_config s t \<and> flash t = flash s \<and> valid_list (blocks t ! tg) = []
     \<and> worn (blocks t ! tg) = worn (blocks s ! tg) \<and> state (blocks t ! tg) = state (blocks s ! tg)
     \<and> blk_off t tg = blk_off s tg \<and> others tg s t"

context reliable_flash
begin

lemma gc_collect_step:
  assumes inv: "kv M s" and tg: "tg < nb_blocks s" "valid_list (blocks s ! tg) = h # ys"
    and buf: "length recs * pages_per_block s + page_size s \<le> length buffer"
  obtains c buffer1 where "couple_of KEY_MAX (page_size s) M c" "entry (hashtable s) h \<noteq> None" "kv (M(fst c := None)) (dropped h tg s)"
    "length buffer1 = length buffer" "take (length recs * pages_per_block s) buffer1 = take (length recs * pages_per_block s) buffer"
    "holds_couple (drop (length recs * pages_per_block s) buffer1) c"
    "gc_collect K tg (Suc left) (Some h) recs buffer s
       = gc_collect K tg left (case ys of [] \<Rightarrow> None | y # _ \<Rightarrow> Some y) (recs @ [lens c]) buffer1 (dropped h tg s)"
    "\<exists>q. entry (hashtable s) h = Some (fst c, q)"
proof -
  note D = kv_invD [OF inv]
  note g = geometryD [OF D(1)]
  have mem: "h \<in> set (valid_list (blocks s ! tg))" using tg(2) by simp
  from D(10) tg(1) mem obtain k j where e: "entry (hashtable s) h = Some (k, int (tg * pages_per_block s + j))" "j < pages_per_block s"
    unfolding lists_ok_def by blast
  let ?p = "tg * pages_per_block s + j"
  from D(8) [OF e(1)] obtain i' j' v where o: "?p = i' * pages_per_block s + j'" "j' < pages_per_block s" "state (blocks s ! i') = BLK_USED"
    "M k = Some v" "couple_ok (page_size s) (k, v)" "length k < KEY_MAX" "holds_couple (page_at byte_at s (i' * pages_per_block s + j')) (k, v)"
    unfolding entry_ok_def by (metis of_nat_eq_iff)
  have ij: "i' = tg" using o(1,2) e(2) page_inj by metis
  note page = o(7) [folded o(1)]
  have st: "state (blocks s ! tg) = BLK_USED" using o(3) ij by simp
  have plt: "?p < hash_size s" by (rule page_of_block [OF tg(1) e(2)])
  have rd: "read_page K (int ?p) s = (0, page_at byte_at s ?p)" by (rule read_page_ok [OF D(1,2) plt])
  let ?off = "length recs * pages_per_block s"
  have "?off + length (page_at byte_at s ?p) \<le> length buffer" using buf by simp
  then obtain b1 where b1: "mem_store buffer (int ?off) (page_at byte_at s ?p) = Ret b1" "length b1 = length buffer"
    "take ?off b1 = take ?off buffer" "drop ?off b1 = page_at byte_at s ?p @ drop (?off + page_size s) buffer"
    by (rule mem_store_ok) auto
  have hb: "holds_couple (drop ?off b1) (k, v)" unfolding b1(4) by (rule holds_couple_append [OF page])
  have lo: "?off \<le> length b1" using buf b1(2) by simp
  have l8: "8 \<le> length (drop ?off b1)" using holds_length [OF hb] by simp
  have lt: "length (fst (k, v)) < 2147483648" "length (snd (k, v)) < 2147483648" using o(5) g(4) by (auto simp: couple_ok_def)
  have sl: "mem_slice b1 (int ?off) 4 = Ret (take 4 (drop ?off b1))" "mem_slice b1 (int ?off + 4) 4 = Ret (take 4 (drop 4 (drop ?off b1)))"
    "mem_slice b1 (int ?off + 8) (int (length k)) = Ret k"
    using mem_slice_drop [OF lo, of 0 4] mem_slice_drop [OF lo, of 4 4] mem_slice_drop [OF lo, of 8 "int (length k)"]
      mem_slice_int4 [of "drop ?off b1"] l8 holds_slice_key [OF hb] by simp_all
  have kl: "bytes_int (take 4 (drop ?off b1)) = int (length k)" "bytes_int (take 4 (drop 4 (drop ?off b1))) = int (length v)"
    using holds_key_len [OF hb lt(1)] holds_val_len [OF hb lt(2)] unfolding bytes_int_take4 by simp_all
  have ck: "cstring k" using o(5) by (simp add: couple_ok_def)
  have hs: "hash_search (hash_size s) (hashtable s) k = Ret (int h)" by (rule ht.search_present [OF D(4) e(1)])
  have ip: "invalid_pg (int h) s = Ret (dropped h tg s)" by (rule invalid_pg_eq [OF inv e tg(1) mem])
  have kd: "kv (M(k := None)) (dropped h tg s)" by (rule dropped_inv [OF inv e tg(1) mem st])
  have b: "h < length (hashtable s)" "index (hashtable s ! h) = int ?p"
    using e(1) by (auto simp: entry_def split: if_splits)
  have cd: "c_div (int ?p) (pages_per_block s) = int tg" using e(2) by (simp only: c_div_int div_mult_lt)
  obtain mm where al: "k_kmalloc K (flash s) (nat (int (length k) + 1)) = Some mm" using kmalloc_ok [OF D(2)] by blast
  have "gc_collect K tg (Suc left) (Some h) recs buffer s
       = gc_collect K tg left (case ys of [] \<Rightarrow> None | y # _ \<Rightarrow> Some y) (recs @ [lens (k, v)]) b1 (dropped h tg s)"
    using tg D(3) b cd rd b1(1) sl kl al hs ip ck
    by (simp del: of_nat_add of_nat_mult bytes_int_take4 add: Let_def next_node_hd lens_def)
  with that [of "(k, v)" b1] kd o(4-6) e(1) b1 hb show ?thesis by (auto simp: couple_of_def)
qed

end

context reliable_flash
begin

lemma gc_collect_ok:
  assumes "kv M s" "tg < nb_blocks s" "valid_list (blocks s ! tg) = xs" "length xs \<le> left"
    and "\<forall>r < length recs + length xs. r * pages_per_block s + page_size s \<le> length buffer"
    and "pages_per_block s \<le> page_size s"
    and "\<forall>h \<in> set xs. \<forall>k q v. entry (hashtable s) h = Some (k, q) \<and> M k = Some v \<longrightarrow> 8 + length k + length v \<le> pages_per_block s"
  shows "\<exists>cs buffer' t. gc_collect K tg left (case xs of [] \<Rightarrow> None | y # _ \<Rightarrow> Some y) recs buffer s = Ret (recs @ map lens cs, buffer', t)
     \<and> kv (M |` (- fst ` set cs)) t \<and> length cs = length xs \<and> distinct (map fst cs) \<and> list_all (couple_of KEY_MAX (page_size s) M) cs
     \<and> length buffer' = length buffer \<and> take (length recs * pages_per_block s) buffer' = take (length recs * pages_per_block s) buffer
     \<and> buffered (pages_per_block s) (length recs) buffer' cs \<and> collected tg s t"
  using assms
proof (induction xs arbitrary: M s left recs buffer)
  case Nil
  have "M |` (- {}) = M" by (simp add: restrict_map_def)
  with Nil show ?case
    by (intro exI [of _ "[]"] exI [of _ buffer] exI [of _ s]) (simp add: buffered_def collected_def)
next
  case (Cons h ys)
  from Cons.prems(4) obtain l where l: "left = Suc l" "length ys \<le> l" by (cases left) auto
  have off: "length recs * pages_per_block s + page_size s \<le> length buffer" using Cons.prems(5) by simp
  obtain c b1 where c: "couple_of KEY_MAX (page_size s) M c" "kv (M(fst c := None)) (dropped h tg s)" "length b1 = length buffer"
    "take (length recs * pages_per_block s) b1 = take (length recs * pages_per_block s) buffer"
    "holds_couple (drop (length recs * pages_per_block s) b1) c"
    "gc_collect K tg (Suc l) (Some h) recs buffer s
       = gc_collect K tg l (case ys of [] \<Rightarrow> None | y # _ \<Rightarrow> Some y) (recs @ [lens c]) b1 (dropped h tg s)"
    "\<exists>q. entry (hashtable s) h = Some (fst c, q)"
    by (rule gc_collect_step [OF Cons.prems(1-3) off])
  let ?s = "dropped h tg s"
  have sh: "nb_blocks ?s = nb_blocks s" "pages_per_block ?s = pages_per_block s" "page_size ?s = page_size s"
    by (simp_all add: dropped_def)
  note D = kv_invD [OF Cons.prems(1)]
  have ds: "distinct (h # ys)" using D(6) [OF Cons.prems(2)] Cons.prems(3) by (simp add: blk_counts_ok_def)
  have vl: "valid_list (blocks ?s ! tg) = ys"
    using dropped_valid_list [of tg s h ys] Cons.prems(2,3) ds D(3) by simp
  have hl: "h < length (hashtable s)" using c(7) by (auto simp: entry_def split: if_splits)
  have small: "\<forall>h' \<in> set ys. \<forall>k q v. entry (hashtable ?s) h' = Some (k, q) \<and> (M(fst c := None)) k = Some v
      \<longrightarrow> 8 + length k + length v \<le> pages_per_block ?s"
    using Cons.prems(7) ds hl by (auto simp: dropped_def entry_release split: if_splits)
  have bound: "\<forall>r < length (recs @ [lens c]) + length ys. r * pages_per_block ?s + page_size ?s \<le> length b1"
    using Cons.prems(5) c(3) sh by simp
  have IH: "\<exists>cs b2 t. gc_collect K tg l (case ys of [] \<Rightarrow> None | y # _ \<Rightarrow> Some y) (recs @ [lens c]) b1 ?s
        = Ret ((recs @ [lens c]) @ map lens cs, b2, t) \<and> kv ((M(fst c := None)) |` (- fst ` set cs)) t \<and> length cs = length ys
     \<and> distinct (map fst cs) \<and> list_all (couple_of KEY_MAX (page_size ?s) (M(fst c := None))) cs
     \<and> length b2 = length b1 \<and> take (length (recs @ [lens c]) * pages_per_block ?s) b2 = take (length (recs @ [lens c]) * pages_per_block ?s) b1
     \<and> buffered (pages_per_block ?s) (length (recs @ [lens c])) b2 cs \<and> collected tg ?s t"
    by (rule Cons.IH [OF c(2) _ vl l(2) bound _ small]) (use Cons.prems(2,6) sh in simp_all)
  then obtain cs b2 t where r: "gc_collect K tg l (case ys of [] \<Rightarrow> None | y # _ \<Rightarrow> Some y) (recs @ [lens c]) b1 ?s
        = Ret ((recs @ [lens c]) @ map lens cs, b2, t)" "kv ((M(fst c := None)) |` (- fst ` set cs)) t" "length cs = length ys"
     "distinct (map fst cs)" "list_all (couple_of KEY_MAX (page_size s) (M(fst c := None))) cs" "length b2 = length b1"
     "take (Suc (length recs) * pages_per_block s) b2 = take (Suc (length recs) * pages_per_block s) b1"
     "buffered (pages_per_block s) (Suc (length recs)) b2 cs" "collected tg ?s t"
    unfolding sh by auto
  have new: "fst c \<notin> fst ` set cs"
    using r(5) by (auto simp: list_all_iff couple_of_def split: if_splits)
  have "(M(fst c := None)) |` (- fst ` set cs) = M |` (- fst ` set (c # cs))"
    by (auto simp: restrict_map_def fun_eq_iff)
  then have kvt: "kv (M |` (- fst ` set (c # cs))) t" using r(2) by simp
  have ok: "list_all (couple_of KEY_MAX (page_size s) M) (c # cs)"
    using r(5) c(1) new by (auto simp: list_all_iff couple_of_def split: if_splits)
  have "8 + length (fst c) + length (snd c) \<le> pages_per_block s"
    using Cons.prems(7) c(1,7) by (auto simp: couple_of_def)
  moreover have "Suc (length recs) * pages_per_block s \<le> length b1" using off c(3) Cons.prems(6) by simp
  ultimately have bf: "buffered (pages_per_block s) (length recs) b2 (c # cs)"
    using buffered_Cons [OF c(5) _ r(7,8)] by simp
  have tk: "take (length recs * pages_per_block s) b2 = take (length recs * pages_per_block s) buffer"
    using r(7) c(4) by (metis (no_types, lifting) le_add2 min.absorb1 mult_Suc take_take)
  have col: "collected tg s t"
    using r(9) Cons.prems(2) D(3) others_trans [OF others_upd [of ?s s tg]]
    by (auto simp: collected_def same_config_def dropped_def)
  show ?case
    using c(6) r(1,3,4,6) kvt ok bf tk col new l(1) c(3) by (intro exI [of _ "c # cs"] exI [of _ b2] exI [of _ t]) auto
qed

section \<open>Step 3: writing the couples back\<close>

lemma gc_write_ok:
  assumes inv: "kv M s" and tg: "tg < nb_blocks s" "state (blocks s ! tg) = BLK_USED"
    and j: "blk_off s tg = int j" "0 < j" "Suc j < pages_per_block s"
    and c: "M (fst c) = None" "couple_ok (page_size s) c" "length (fst c) < KEY_MAX"
    and buf: "holds_couple (drop (i * pages_per_block s) buffer) c" "i * pages_per_block s + page_size s \<le> length buffer"
  obtains t where "gc_write K (int tg) (i, lens c) (buffer, s) = Ret (buffer, t)" "kv (M(fst c \<mapsto> snd c)) t"
    "state (blocks t ! tg) = BLK_USED" "blk_off t tg = int (Suc j)" "same_config s t" "others tg s t"
    "nb_invalid (blocks t ! tg) = nb_invalid (blocks s ! tg)" "worn (blocks t ! tg) = worn (blocks s ! tg)"
proof -
  note D = kv_invD [OF inv]
  note g = geometryD [OF D(1)]
  let ?off = "i * pages_per_block s" and ?p = "tg * pages_per_block s + j"
  let ?k = "fst c" and ?v = "snd c"
  have lo: "?off \<le> length buffer" using buf(2) by simp
  define page where "page = take (page_size s) (drop ?off buffer)"
  have page: "length page = page_size s" "holds_couple page c" "mem_slice buffer (int ?off) (int (page_size s)) = Ret page"
    using buffer_page [OF buf(1) c(2) buf(2)] mem_slice_int [OF buf(2)] by (simp_all add: page_def)
  note rc = buffer_record [OF buf(1) lo]
  have cs: "cstring ?k" "cstring ?v" using c(2) by (simp_all add: couple_ok_def)
  have jj: "j < pages_per_block s" using j(3) by simp
  have c': "couple_ok (page_size s) (?k, ?v)" "holds_couple page (?k, ?v)" using c(2) page(2) by simp_all
  obtain t1 ht' h t where t: "write_page K (int ?p) page s = Ret (if read_only t then - 1 else 0, t1)"
    "hash_add (hash_size t1) (hashtable t1) ?k (int ?p) = Ret (int h, ht')"
    "list_add (int h) (int tg) (t1\<lparr>hashtable := ht'\<rparr>) = Ret t"
    "kv (M(?k \<mapsto> ?v)) t" "same_config s t" "map nb_invalid (blocks t) = map nb_invalid (blocks s)"
    "t = appended (flash t) tg h ht' (is_read_only t) s" "meta_same s t" "free_count t = free_count s" "map worn (blocks t) = map worn (blocks s)"
    by (rule write_couple_ok [OF inv tg j(1,2) jj c(1) c'(1) c(3) page(1) c'(2)])
  have bt: "blocks t ! tg = (blocks s ! tg)\<lparr>current_page_offset := blk_off s tg + 1, valid_list := h # valid_list (blocks s ! tg)\<rparr>"
    "others tg s t"
    by (subst t(7), use tg(1) D(3) in \<open>simp add: appended_def others_def\<close>)+
  have "\<not> read_only t"
    using kv_inv_read_only [OF t(4)] t(5) tg(1) bt(1) j by (auto simp: same_config_def intro!: exI [of _ tg])
  obtain mm where al: "k_kmalloc K (flash s) (nat (int (length ?k) + 1)) = Some mm" using kmalloc_ok [OF D(2)] by blast
  have pg: "int tg * int (pages_per_block s) + current_page_offset (blocks s ! tg) = int ?p" using j(1) by simp
  have "gc_write K (int tg) (i, lens c) (buffer, s) = Ret (buffer, t)"
    unfolding gc_write_def lens_def prod.case Let_def
    using rc cs tg(1) D(3) al page(3) t(1-3) \<open>\<not> read_only t\<close>
    by (simp add: pg del: of_nat_add of_nat_mult)
  then show ?thesis
    by (rule that) (use t(4,5) bt tg(2) j(1) in auto)
qed

end

context reliable_flash
begin

lemma gc_write_all:
  assumes "kv M s" "tg < nb_blocks s" "state (blocks s ! tg) = BLK_USED" "blk_off s tg = int j" "0 < j"
    and "j + length cs < pages_per_block s" "distinct (map fst cs)"
    and "\<forall>c \<in> set cs. M (fst c) = None \<and> couple_ok (page_size s) c \<and> length (fst c) < KEY_MAX"
    and "buffered (pages_per_block s) n buffer cs" "\<forall>i < length cs. (n + i) * pages_per_block s + page_size s \<le> length buffer"
  shows "\<exists>t. ofold (gc_write K (int tg)) (enumerate n (map lens cs)) (buffer, s) = Ret (buffer, t) \<and> kv (M ++ map_of cs) t
     \<and> state (blocks t ! tg) = BLK_USED \<and> blk_off t tg = int (j + length cs) \<and> same_config s t \<and> others tg s t
     \<and> nb_invalid (blocks t ! tg) = nb_invalid (blocks s ! tg) \<and> worn (blocks t ! tg) = worn (blocks s ! tg)"
  using assms
proof (induction cs arbitrary: M s j n)
  case (Cons c cs)
  have b: "holds_couple (drop (n * pages_per_block s) buffer) c" "n * pages_per_block s + page_size s \<le> length buffer"
    using Cons.prems(9) Cons.prems(10) [rule_format, of 0] unfolding buffered_def by (auto dest: spec [of _ 0])
  have jj: "Suc j < pages_per_block s" using Cons.prems(6) by simp
  have c: "M (fst c) = None" "couple_ok (page_size s) c" "length (fst c) < KEY_MAX" using Cons.prems(8) by simp_all
  obtain t where t: "gc_write K (int tg) (n, lens c) (buffer, s) = Ret (buffer, t)" "kv (M(fst c \<mapsto> snd c)) t"
    "state (blocks t ! tg) = BLK_USED" "blk_off t tg = int (Suc j)" "same_config s t" "others tg s t"
    "nb_invalid (blocks t ! tg) = nb_invalid (blocks s ! tg)" "worn (blocks t ! tg) = worn (blocks s ! tg)"
    by (rule gc_write_ok [OF Cons.prems(1-5) jj c b])
  have sh: "nb_blocks t = nb_blocks s" "pages_per_block t = pages_per_block s" "page_size t = page_size s"
    using t(5) by (simp_all add: same_config_def)
  have none: "\<forall>c' \<in> set cs. (M(fst c \<mapsto> snd c)) (fst c') = None \<and> couple_ok (page_size t) c' \<and> length (fst c') < KEY_MAX"
  proof
    fix c' assume a: "c' \<in> set cs"
    then have "fst c' \<noteq> fst c" using Cons.prems(7) by (metis distinct.simps(2) image_eqI list.set_map list.simps(9))
    with a Cons.prems(8) sh show "(M(fst c \<mapsto> snd c)) (fst c') = None \<and> couple_ok (page_size t) c' \<and> length (fst c') < KEY_MAX"
      by simp
  qed
  have bf: "buffered (pages_per_block t) (Suc n) buffer cs"
    using Cons.prems(9) sh unfolding buffered_def by force
  have bd: "\<forall>i < length cs. (Suc n + i) * pages_per_block t + page_size t \<le> length buffer"
    using Cons.prems(10) sh by force
  have IH: "\<exists>u. ofold (gc_write K (int tg)) (enumerate (Suc n) (map lens cs)) (buffer, t) = Ret (buffer, u)
     \<and> kv (M(fst c \<mapsto> snd c) ++ map_of cs) u
     \<and> state (blocks u ! tg) = BLK_USED \<and> blk_off u tg = int (Suc j + length cs) \<and> same_config t u \<and> others tg t u
     \<and> nb_invalid (blocks u ! tg) = nb_invalid (blocks t ! tg) \<and> worn (blocks u ! tg) = worn (blocks t ! tg)"
    by (rule Cons.IH [OF t(2) _ t(3,4) _ _ _ none bf bd]) (use Cons.prems sh in simp_all)
  have Mc: "M(fst c \<mapsto> snd c) ++ map_of cs = M ++ map_of (c # cs)" by (rule couples_upd) (use Cons.prems(7) in simp)
  from IH obtain u where u: "ofold (gc_write K (int tg)) (enumerate (Suc n) (map lens cs)) (buffer, t) = Ret (buffer, u)"
    "kv (M ++ map_of (c # cs)) u" "state (blocks u ! tg) = BLK_USED" "blk_off u tg = int (Suc j + length cs)" "same_config t u"
    "others tg t u" "nb_invalid (blocks u ! tg) = nb_invalid (blocks t ! tg)" "worn (blocks u ! tg) = worn (blocks t ! tg)"
    unfolding Mc by blast
  have "ofold (gc_write K (int tg)) (enumerate n (map lens (c # cs))) (buffer, s) = Ret (buffer, u)"
    using t(1) u(1) by simp
  then show ?case
    using u(2-4,7,8) same_config_trans [OF t(5) u(5)] others_trans [OF t(6) u(6)] t(7,8)
    by (intro exI [of _ u] conjI) (assumption | simp)+
qed simp

lemma find_victim_none: "find_victim s = - 1"
proof -
  have "foldl (\<lambda>victim_blk i. victim_blk) (- 1 :: int) xs = - 1" for xs :: "nat list"
    by (induction xs) simp_all
  then show ?thesis by (simp add: find_victim_def blk_state_int_def)
qed

text \<open>
  Collecting a block keeps the store: the couples of the block are written to its first pages,
  nothing in it is invalid any more, and its wear has grown by one.
\<close>

lemma gc_ok:
  assumes inv: "kv M s" and q: "pages_per_block s \<le> page_size s" and tg: "find_target s = Some tg"
    and w: "worn (blocks s ! tg) < 2147483646"
    and small: "\<forall>k v. M k = Some v \<longrightarrow> 8 + length k + length v \<le> pages_per_block s"
  obtains t where "gc K s = Ret t" "kv M t" "same_config s t" "nb_invalid (blocks t ! tg) = 0"
    "worn (blocks t ! tg) = worn (blocks s ! tg) + 1" "blk_off t tg = 1 + int (length (valid_list (blocks s ! tg)))"
    "others tg s t" "meta_same s t" "free_count t = free_count s"
proof -
  note D = kv_invD [OF inv]
  note g = geometryD [OF D(1)]
  let ?xs = "valid_list (blocks s ! tg)" and ?size = "page_size s * pages_per_block s"
  from tg have t1: "tg < nb_blocks s" "48 \<le> nb_invalid (blocks s ! tg)"
    by (auto simp: find_target_def find_Some_iff INVALID_THRESHOLD_def)
  have cnt: "state (blocks s ! tg) = BLK_USED" "blk_off s tg = 1 + int (length ?xs) + nb_invalid (blocks s ! tg)" "blk_off s tg \<le> int (pages_per_block s)"
    using D(6) [OF t1(1)] t1(2) by (auto simp: blk_counts_ok_def)
  have len: "length ?xs + 48 < pages_per_block s" using cnt t1(2) by linarith
  obtain mem where mem: "k_kmalloc K (flash s) ?size = Some mem" "?size \<le> length mem" using kmalloc_ok [OF D(2)] by blast
  define buffer where "buffer = replicate ?size 0 @ drop ?size mem"
  have fit: "r * pages_per_block s + page_size s \<le> length buffer" if "r < length ?xs" for r
    by (rule buffer_fits [OF q]) (use that len in \<open>simp_all add: buffer_def\<close>)
  have xs: "length ?xs \<le> pages_per_block s" using len by linarith
  have fit0: "\<forall>r < length ([] :: (int \<times> int) list) + length ?xs. r * pages_per_block s + page_size s \<le> length buffer"
    using fit by simp
  have sm: "\<forall>h \<in> set ?xs. \<forall>k q v. entry (hashtable s) h = Some (k, q) \<and> M k = Some v \<longrightarrow> 8 + length k + length v \<le> pages_per_block s"
    using small by blast
  obtain cs b2 t where c: "gc_collect K tg (pages_per_block s) (case ?xs of [] \<Rightarrow> None | y # _ \<Rightarrow> Some y) [] buffer s = Ret (map lens cs, b2, t)"
    "kv (M |` (- fst ` set cs)) t" "length cs = length ?xs" "distinct (map fst cs)" "list_all (couple_of KEY_MAX (page_size s) M) cs"
    "length b2 = length buffer" "buffered (pages_per_block s) 0 b2 cs" "collected tg s t"
    using gc_collect_ok [OF inv t1(1) refl xs fit0 q sm] by auto
  have ct: "same_config s t" "valid_list (blocks t ! tg) = []" "worn (blocks t ! tg) = worn (blocks s ! tg)" "length (blocks t) = nb_blocks s" "others tg s t"
    using c(8) D(3) by (simp_all add: collected_def others_def)
  have sh: "nb_blocks t = nb_blocks s" "pages_per_block t = pages_per_block s" "page_size t = page_size s"
    using ct(1) by (simp_all add: same_config_def)
  obtain m where f: "format_single K (int tg) t = Ret (0, erased_block m tg t)" "kv (M |` (- fst ` set cs)) (erased_block m tg t)"
    by (rule format_single_ok [OF c(2)]) (use t1(1) sh ct w in auto)
  define u where "u = erased_block m tg t"
  note u = f [folded u_def]
  note U = kv_invD [OF u(2)]
  have shu: "nb_blocks u = nb_blocks s" "pages_per_block u = pages_per_block s" "page_size u = page_size s"
    "state (blocks u ! tg) = BLK_FREE" "blk_off u tg = 0" "nb_invalid (blocks u ! tg) = 0" "valid_list (blocks u ! tg) = []"
    "worn (blocks u ! tg) = worn (blocks s ! tg) + 1" "\<not> read_only u" "same_config t u" "others tg t u"
    using sh ct t1(1) by (simp_all add: u_def erased_block_def same_config_def others_def)
  have tu: "tg < nb_blocks u" using t1(1) shu by simp
  have er: "page_at byte_at u (tg * pages_per_block u) = replicate (page_size u) 255"
    using U(7) [OF tu, unfolded erased_above_def, rule_format, of 0] g(2) shu by simp
  obtain m2 where o: "good m2" "\<And>p. p \<noteq> tg * pages_per_block u \<Longrightarrow> flash_page byte_at (page_size u) m2 p = page_at byte_at u p"
    "write_hdr K (int (tg * pages_per_block u)) NAND_DATA 0 u = Ret (opened m2 tg u)"
    using write_hdr_ok [OF U(1,2) shu(9) tu U(3) shu(5) er] by blast
  define v where "v = opened m2 tg u"
  have kvv: "kv (M |` (- fst ` set cs)) v" unfolding v_def by (rule opened_inv [OF u(2) tu shu(5,4) o(1,2)])
  have shv: "nb_blocks v = nb_blocks s" "pages_per_block v = pages_per_block s" "page_size v = page_size s"
    "state (blocks v ! tg) = BLK_USED" "blk_off v tg = int 1" "nb_invalid (blocks v ! tg) = 0" "worn (blocks v ! tg) = worn (blocks s ! tg) + 1"
    "same_config u v" "others tg u v"
    using shu tu U(3) by (simp_all add: v_def opened_def same_config_def others_def)
  note none = couples_absent [OF c(5) [folded shv(3)]]
  have "\<exists>t. ofold (gc_write K (int tg)) (enumerate 0 (map lens cs)) (b2, v) = Ret (b2, t) \<and> kv (M |` (- fst ` set cs) ++ map_of cs) t
     \<and> state (blocks t ! tg) = BLK_USED \<and> blk_off t tg = int (1 + length cs) \<and> same_config v t \<and> others tg v t
     \<and> nb_invalid (blocks t ! tg) = nb_invalid (blocks v ! tg) \<and> worn (blocks t ! tg) = worn (blocks v ! tg)"
    by (rule gc_write_all [OF kvv _ shv(4,5) _ _ c(4) none]) (use t1(1) shv len c(3,6,7) fit in simp_all)
  then obtain z where z: "ofold (gc_write K (int tg)) (enumerate 0 (map lens cs)) (b2, v) = Ret (b2, z)"
    "kv (M |` (- fst ` set cs) ++ map_of cs) z" "state (blocks z ! tg) = BLK_USED" "blk_off z tg = int (1 + length cs)" "same_config v z"
    "others tg v z" "nb_invalid (blocks z ! tg) = 0" "worn (blocks z ! tg) = worn (blocks s ! tg) + 1"
    using shv by auto
  note M = couples_restored [OF c(5)]
  have hdr: "write_hdr K (int tg * int (pages_per_block s)) NAND_DATA 0 u = Ret v"
    using o(3) shu(2) by (simp add: v_def)
  have lt: "tg < length (blocks u)" "tg < length (blocks z)" using U(3) tu z(6) shv(9) by (simp_all add: others_def)
  have fin: "upd_block (int tg) (\<lambda>b. b\<lparr>state := BLK_USED\<rparr>) z = Ret z"
    using lt(2) z(3) by (cases "blocks z ! tg") (simp add: upd_block_def list_update_same_conv)
  have lst: "(case ?xs of [] \<Rightarrow> None | h # _ \<Rightarrow> Some h) = (case ?xs of [] \<Rightarrow> None | y # _ \<Rightarrow> Some y)" by simp
  have "gc K s = Ret z"
    using tg mem(1) c(1) u(1) lt(1) shu(2,5) hdr z(1) fin
    by (simp add: gc_def Let_def find_victim_none buffer_def [symmetric])
  moreover have "same_config s z"
    using ct(1) shu(10) shv(8) z(5) same_config_trans by blast
  moreover have oth: "others tg s z"
    using ct(5) shu(11) shv(9) z(6) others_trans by blast
  ultimately show ?thesis
    using that [of z] z M c(3) others_used [OF oth cnt(1) z(3)] by simp
qed

end

end
