(* ===== verification/SerialFlush.thy ===== *)
theory SerialFlush
  imports SerialGc
begin

text \<open>
  Flushing the metadata of the second prototype.  When enough blocks are free the flush erases
  the old metadata blocks, takes free blocks for the new ones and fills them with the image of
  the block table and the hash table; the couples stay where they are.  The image is written in
  whole pages up to the end of the last metadata block, past the end of the buffer the code
  asked for, so the flush needs an allocator that rounds the request up far enough.
\<close>

section \<open>Writing to a metadata block\<close>

definition meta_written :: "'m \<Rightarrow> nat \<Rightarrow> 'm lkp_kv_cfg \<Rightarrow> 'm lkp_kv_cfg" where
  "meta_written m i s = s\<lparr>flash := m, blocks := (blocks s)[i := (blocks s ! i)\<lparr>current_page_offset := blk_off s i + 1\<rparr>]\<rparr>"

text \<open>A block other than \<open>i\<close> has room, so the store does not become read-only.\<close>

definition room_outside :: "nat \<Rightarrow> 'm lkp_kv_cfg \<Rightarrow> bool" where
  "room_outside i s \<longleftrightarrow> (\<exists>i' < nb_blocks s. i' \<noteq> i \<and> blk_off s i' < int (pages_per_block s))"

lemma meta_written_inv:
  assumes inv: "kv_inv byte_at good fsize M s" and i: "i < nb_blocks s" "state (blocks s ! i) = BLK_META"
    and j: "blk_off s i = int j" "j < pages_per_block s" and room: "room_outside i s"
    and m: "good m" "\<And>p. p \<noteq> i * pages_per_block s + j \<Longrightarrow> flash_page byte_at (page_size s) m p = page_at byte_at s p"
  shows "kv_inv byte_at good fsize M (meta_written m i s)"
proof -
  note D = kv_invD [OF inv]
  let ?t = "meta_written m i s"
  have blk: "blocks ?t ! i' = (if i' = i then (blocks s ! i)\<lparr>current_page_offset := blk_off s i + 1\<rparr> else blocks s ! i')" for i'
    using i(1) D(3) by (simp add: meta_written_def nth_list_update)
  have shape: "nb_blocks ?t = nb_blocks s" "pages_per_block ?t = pages_per_block s" "page_size ?t = page_size s"
    "flash ?t = m" "read_only ?t = read_only s" "length (blocks ?t) = length (blocks s)"
    "hashtable ?t = hashtable s" "geometry ?t fsize = geometry s fsize"
    by (simp_all add: meta_written_def geometry_def)
  have vl: "valid_list (blocks ?t ! i') = valid_list (blocks s ! i')" "state (blocks ?t ! i') = state (blocks s ! i')" for i' by (simp_all add: blk)
  obtain r where r: "r < nb_blocks s" "r \<noteq> i" "blk_off s r < int (pages_per_block s)" using room by (auto simp: room_outside_def)
  have pg: "flash_page byte_at (page_size s) m (i' * pages_per_block s + j') = page_at byte_at s (i' * pages_per_block s + j')"
    if "i' \<noteq> i" "j' < pages_per_block s" for i' j'
    using that page_inj [OF that(2) j(2), of i' i] by (intro m(2)) auto
  show ?thesis
    unfolding kv_inv_def
  proof (intro conjI allI impI ballI)
    show "geometry ?t fsize" "good (flash ?t)" "length (blocks ?t) = nb_blocks ?t"
      "index_ok (hash_size ?t) (hashtable ?t)"
      using D(1-4) m(1) shape by auto
  next
    fix i' assume i': "i' < nb_blocks ?t"
    have "blk_counts_ok (pages_per_block s) (blocks s ! i')" using D(6) i' shape by simp
    then show "blk_counts_ok (pages_per_block ?t) (blocks ?t ! i')"
      using i(2) j shape(2) by (cases "i' = i") (auto simp: blk blk_counts_ok_def)
    show "erased_above byte_at ?t i'" if "state (blocks ?t ! i') \<noteq> BLK_META"
    proof -
      have ne: "i' \<noteq> i" using that i(2) vl(2) by auto
      with D(7) [of i'] that i' shape vl(2) have "erased_above byte_at s i'" by simp
      with ne pg [OF ne] show ?thesis by (simp add: erased_above_def shape blk)
    qed
  next
    fix h k q assume e: "entry (hashtable ?t) h = Some (k, q)"
    from D(8) [OF e [unfolded shape]] obtain i' j' v' where o: "q = int (i' * pages_per_block s + j')" "i' < nb_blocks s" "0 < j'"
      "j' < pages_per_block s" "int j' < blk_off s i'" "state (blocks s ! i') = BLK_USED"
      "h \<in> set (valid_list (blocks s ! i'))" "M k = Some v'" "couple_ok (page_size s) (k, v')" "length k < KEY_MAX"
      "holds_couple (page_at byte_at s (i' * pages_per_block s + j')) (k, v')"
      by (auto simp: entry_ok_def)
    have ne: "i' \<noteq> i" using o(6) i(2) by auto
    from ne o pg [OF ne o(4)] show "entry_ok byte_at M ?t h k q"
      unfolding entry_ok_def shape
      by - (rule exI [of _ i'], rule exI [of _ j'], rule exI [of _ v'], simp add: blk)
  next
    fix k assume "k \<in> dom M"
    with D(9) [of k] show "\<exists>h q. entry (hashtable ?t) h = Some (k, q)" unfolding shape by auto
  next
    show "lists_ok ?t" using D(10) unfolding lists_ok_def shape vl .
    have "\<not> is_read_only ?t" "\<not> is_read_only s"
      using r shape D(3) by (auto simp: is_read_only_nth blk intro!: exI [of _ r])
    with D(11) show "read_only ?t = is_read_only ?t" unfolding shape by simp
  qed
qed

context reliable_flash
begin

lemma meta_write_ok:
  assumes inv: "kv M s" and i: "i < nb_blocks s" "state (blocks s ! i) = BLK_META"
    and j: "blk_off s i = int j" "j < pages_per_block s" and room: "room_outside i s" and buf: "length buf = page_size s"
    and er: "page_at byte_at s (i * pages_per_block s + j) = replicate (page_size s) 255"
  obtains m where "write_page K (int (i * pages_per_block s + j)) buf s = Ret (0, meta_written m i s)" "kv M (meta_written m i s)"
    "\<And>p. flash_page byte_at (page_size s) m p = (if p = i * pages_per_block s + j then buf else page_at byte_at s p)"
proof -
  note D = kv_invD [OF inv]
  have ro: "\<not> read_only s" using kv_inv_read_only [OF inv] i(1) j by auto
  obtain m where m: "good m" "\<And>p. flash_page byte_at (page_size s) m p = (if p = i * pages_per_block s + j then buf else page_at byte_at s p)"
    and wr: "write_page K (int (i * pages_per_block s + j)) buf s =
       (let t = s\<lparr>flash := m, blocks := (blocks s)[i := (blocks s ! i)\<lparr>current_page_offset := blk_off s i + 1\<rparr>]\<rparr>
        in if is_read_only t then Ret (- 1, t\<lparr>read_only := True\<rparr>) else Ret (0, t))"
    using write_page_ok [OF D(1,2) ro i(1) D(3) j(2) buf er] by blast
  have kt: "kv M (meta_written m i s)"
    by (rule meta_written_inv [OF inv i j room m(1)]) (simp add: m(2))
  have "\<not> is_read_only (meta_written m i s)"
    using kv_invD(11) [OF kt] ro by (simp add: meta_written_def)
  then have "write_page K (int (i * pages_per_block s + j)) buf s = Ret (0, meta_written m i s)"
    using wr unfolding meta_written_def [symmetric] by (simp add: Let_def)
  with kt m(2) that show ?thesis by blast
qed

end

section \<open>Filling a metadata block\<close>

definition meta_filled :: "'m \<Rightarrow> nat \<Rightarrow> 'm lkp_kv_cfg \<Rightarrow> 'm lkp_kv_cfg" where
  "meta_filled m i s = s\<lparr>flash := m, blocks := (blocks s)[i := (blocks s ! i)\<lparr>current_page_offset := int (pages_per_block s)\<rparr>]\<rparr>"

lemma meta_filled_written:
  assumes "i < length (blocks s)"
  shows "meta_filled m (i :: nat) (meta_written m' i s) = meta_filled m i s"
  using assms by (simp add: meta_filled_def meta_written_def)

lemma meta_filled_full:
  assumes "blk_off s i = int (pages_per_block s)"
  shows "meta_filled (flash s) i s = s"
proof -
  have "(blocks s ! i)\<lparr>current_page_offset := int (pages_per_block s)\<rparr> = blocks s ! i"
    using assms by (cases "blocks s ! i") simp
  then have "meta_filled (flash s) i s = s\<lparr>flash := flash s, blocks := blocks s\<rparr>"
    unfolding meta_filled_def by (simp only: list_update_id)
  then show ?thesis by simp
qed

text \<open>The first page of metadata block \<open>r\<close>: the magic number and the rank.\<close>

definition meta_header :: "nat \<Rightarrow> nat \<Rightarrow> byte list" where
  "meta_header ps r = int_bytes META_HDR_BASE @ int_bytes (int r) @ replicate (ps - 8) 0"

context reliable_flash
begin

lemma flush_pages_ok:
  assumes "kv M s" "i < nb_blocks s" "state (blocks s ! i) = BLK_META" "blk_off s i = int j" "j \<le> pages_per_block s"
    and "room_outside i s" "erased_above byte_at s i" "(offset + (pages_per_block s - j)) * page_size s \<le> length buffer"
  shows "\<exists>m. ofold (flush_page K buffer (int i)) [j..<pages_per_block s] (False, offset, s)
        = Ret (False, offset + (pages_per_block s - j), meta_filled m i s) \<and> kv M (meta_filled m i s)
     \<and> (\<forall>j'. j \<le> j' \<and> j' < pages_per_block s \<longrightarrow> flash_page byte_at (page_size s) m (i * pages_per_block s + j')
           = take (page_size s) (drop (page_size s * (offset + (j' - j))) buffer))
     \<and> (\<forall>p. p < i * pages_per_block s + j \<or> (i + 1) * pages_per_block s \<le> p \<longrightarrow> flash_page byte_at (page_size s) m p = page_at byte_at s p)"
  using assms
proof (induction "pages_per_block s - j" arbitrary: s j offset)
  case 0
  then have j: "j = pages_per_block s" by simp
  with 0 have "meta_filled (flash s) i s = s" by (simp add: meta_filled_full)
  with 0 j show ?case by (intro exI [of _ "flash s"]) auto
next
  case (Suc d)
  then have j: "j < pages_per_block s" by simp
  let ?page = "take (page_size s) (drop (page_size s * offset) buffer)" and ?q = "pages_per_block s"
  have fit: "page_size s * offset + page_size s \<le> length buffer"
  proof -
    have "page_size s * offset + page_size s \<le> (offset + (?q - j)) * page_size s"
      using j mult_le_mono1 [of "offset + 1" "offset + (?q - j)" "page_size s"] by (simp add: algebra_simps)
    with Suc.prems(8) show ?thesis by linarith
  qed
  have sl: "mem_slice buffer (int (page_size s * offset)) (int (page_size s)) = Ret ?page"
    by (rule mem_slice_int [OF fit])
  have er: "page_at byte_at s (i * ?q + j) = replicate (page_size s) 255"
    using Suc.prems(4,7) j by (simp add: erased_above_def)
  have len: "length ?page = page_size s" using fit by simp
  obtain m where m: "write_page K (int (i * ?q + j)) ?page s = Ret (0, meta_written m i s)" "kv M (meta_written m i s)"
    "\<And>p. flash_page byte_at (page_size s) m p = (if p = i * ?q + j then ?page else page_at byte_at s p)"
    using meta_write_ok [OF Suc.prems(1-4) j Suc.prems(6) len er] by blast
  let ?t = "meta_written m i s"
  note D = kv_invD [OF Suc.prems(1)]
  have il: "i < length (blocks s)" using Suc.prems(2) D(3) by simp
  have sh: "nb_blocks ?t = nb_blocks s" "pages_per_block ?t = ?q" "page_size ?t = page_size s" "flash ?t = m"
    "state (blocks ?t ! i) = BLK_META" "blk_off ?t i = int (Suc j)"
    using il Suc.prems(3,4) by (simp_all add: meta_written_def)
  have room: "room_outside i ?t"
    using Suc.prems(6) by (auto simp: room_outside_def meta_written_def)
  have er': "erased_above byte_at ?t i"
    using Suc.prems(4,7) unfolding erased_above_def sh m(3) by (auto simp: erased_above_def)
  have bd: "(Suc offset + (pages_per_block ?t - Suc j)) * page_size ?t \<le> length buffer"
    using Suc.prems(8) j unfolding sh by (simp add: Suc_diff_Suc)
  have "\<exists>m'. ofold (flush_page K buffer (int i)) [Suc j..<pages_per_block ?t] (False, Suc offset, ?t)
        = Ret (False, Suc offset + (pages_per_block ?t - Suc j), meta_filled m' i ?t) \<and> kv M (meta_filled m' i ?t)
     \<and> (\<forall>j'. Suc j \<le> j' \<and> j' < pages_per_block ?t \<longrightarrow> flash_page byte_at (page_size ?t) m' (i * pages_per_block ?t + j')
           = take (page_size ?t) (drop (page_size ?t * (Suc offset + (j' - Suc j))) buffer))
     \<and> (\<forall>p. p < i * pages_per_block ?t + Suc j \<or> (i + 1) * pages_per_block ?t \<le> p \<longrightarrow> flash_page byte_at (page_size ?t) m' p = page_at byte_at ?t p)"
    by (rule Suc.hyps(1) [OF _ m(2) _ sh(5,6) _ room er' bd]) (use Suc.hyps(2) Suc.prems(2) j sh in simp_all)
  then obtain m' where m': "ofold (flush_page K buffer (int i)) [Suc j..<?q] (False, Suc offset, ?t)
        = Ret (False, Suc offset + (?q - Suc j), meta_filled m' i s)" "kv M (meta_filled m' i s)"
     "\<And>j'. Suc j \<le> j' \<Longrightarrow> j' < ?q \<Longrightarrow> flash_page byte_at (page_size s) m' (i * ?q + j')
           = take (page_size s) (drop (page_size s * (Suc offset + (j' - Suc j))) buffer)"
     "\<And>p. p < i * ?q + Suc j \<or> (i + 1) * ?q \<le> p \<Longrightarrow> flash_page byte_at (page_size s) m' p = flash_page byte_at (page_size s) m p"
    unfolding sh meta_filled_written [OF il] by blast
  have step: "flush_page K buffer (int i) j (False, offset, s) = Ret (False, Suc offset, ?t)"
    using sl m(1) by (simp add: flush_page_def)
  have loop: "ofold (flush_page K buffer (int i)) [j..<?q] (False, offset, s) = Ret (False, offset + (?q - j), meta_filled m' i s)"
    using j m'(1) by (simp add: upt_conv_Cons step Suc_diff_Suc)
  have pages: "flash_page byte_at (page_size s) m' (i * ?q + j') = take (page_size s) (drop (page_size s * (offset + (j' - j))) buffer)"
    if "j \<le> j'" "j' < ?q" for j'
  proof (cases "j' = j")
    case True
    then show ?thesis using m'(4) [of "i * ?q + j"] m(3) by simp
  next
    case False
    with that have "Suc j \<le> j'" by simp
    with m'(3) [OF this that(2)] show ?thesis by (simp add: Suc_diff_Suc)
  qed
  have rest: "flash_page byte_at (page_size s) m' p = page_at byte_at s p" if "p < i * ?q + j \<or> (i + 1) * ?q \<le> p" for p
    using m'(4) [of p] m(3) [of p] that j by auto
  show ?case
    by (rule exI [of _ m']) (use loop m'(2) pages rest in blast)
qed

lemma flush_block_ok:
  assumes inv: "kv M s" and i: "i < nb_blocks s" "state (blocks s ! i) = BLK_META" "blk_off s i = 0"
    and mo: "r < length (meta_blkordr s)" "meta_blkordr s ! r = int i"
    and room: "room_outside i s" and er: "erased_above byte_at s i"
    and buf: "(offset + (pages_per_block s - 1)) * page_size s \<le> length buffer"
  obtains m where "flush_block K buffer r (False, offset, s) = Ret (False, offset + (pages_per_block s - 1), meta_filled m i s)"
    "kv M (meta_filled m i s)" "flash_page byte_at (page_size s) m (i * pages_per_block s) = meta_header (page_size s) r"
    "\<And>j. 1 \<le> j \<Longrightarrow> j < pages_per_block s \<Longrightarrow> flash_page byte_at (page_size s) m (i * pages_per_block s + j)
       = take (page_size s) (drop (page_size s * (offset + (j - 1))) buffer)"
    "\<And>p. p < i * pages_per_block s \<or> (i + 1) * pages_per_block s \<le> p \<Longrightarrow> flash_page byte_at (page_size s) m p = page_at byte_at s p"
proof -
  note D = kv_invD [OF inv]
  note g = geometryD [OF D(1)]
  let ?q = "pages_per_block s" and ?ps = "page_size s"
  have hd: "obind (mem_store (replicate ?ps 0) 0 (int_bytes META_HDR_BASE)) (\<lambda>b. mem_store b 4 (int_bytes (int r))) = Ret (meta_header ?ps r)"
    using g(3) by (simp add: mem_store_def meta_header_def drop_append)
  have z: "blk_off s i = int 0" "0 < ?q" "length (meta_header ?ps r) = ?ps" "page_at byte_at s (i * ?q + 0) = replicate ?ps 255"
    using i(3) g(2,3) er [unfolded erased_above_def, rule_format, of 0] by (simp_all add: meta_header_def)
  obtain m where m: "write_page K (int (i * ?q + 0)) (meta_header ?ps r) s = Ret (0, meta_written m i s)" "kv M (meta_written m i s)"
    "\<And>p. flash_page byte_at ?ps m p = (if p = i * ?q + 0 then meta_header ?ps r else page_at byte_at s p)"
    using meta_write_ok [OF inv i(1,2) z(1,2) room z(3,4)] by blast
  let ?t = "meta_written m i s"
  have il: "i < length (blocks s)" using i(1) D(3) by simp
  have sh: "nb_blocks ?t = nb_blocks s" "pages_per_block ?t = ?q" "page_size ?t = ?ps" "flash ?t = m"
    "state (blocks ?t ! i) = BLK_META" "blk_off ?t i = int 1"
    using il i by (simp_all add: meta_written_def)
  have room': "room_outside i ?t" using room by (auto simp: room_outside_def meta_written_def)
  have er': "erased_above byte_at ?t i"
    using er i(3) unfolding erased_above_def sh m(3) by (auto simp: erased_above_def)
  have bd: "(offset + (pages_per_block ?t - 1)) * page_size ?t \<le> length buffer" using buf sh by simp
  obtain bf where al: "k_kmalloc K (flash s) ?ps = Some bf" using kmalloc_ok [OF D(2)] by blast
  have hdr: "write_hdr K (int i * int ?q) NAND_META_DATA (int r) s = Ret ?t"
    using al m(1) hd by (auto simp: write_hdr_def NAND_META_DATA_def NAND_DATA_def Let_def obind_eq_Ret)
  have i': "i < nb_blocks ?t" "1 \<le> pages_per_block ?t" using i(1) g(2) sh by simp_all
  from flush_pages_ok [OF m(2) i'(1) sh(5,6) i'(2) room' er' bd] obtain m' where
    m': "ofold (flush_page K buffer (int i)) [1..<?q] (False, offset, ?t) = Ret (False, offset + (?q - 1), meta_filled m' i s)" "kv M (meta_filled m' i s)"
     "\<And>j'. 1 \<le> j' \<Longrightarrow> j' < ?q \<Longrightarrow> flash_page byte_at ?ps m' (i * ?q + j') = take ?ps (drop (?ps * (offset + (j' - 1))) buffer)"
     "\<And>p. p < i * ?q + 1 \<or> (i + 1) * ?q \<le> p \<Longrightarrow> flash_page byte_at ?ps m' p = flash_page byte_at ?ps m p"
    unfolding sh meta_filled_written [OF il] by blast
  have p2: "pages_per_block ?t = ?q" by (fact sh(2))
  show ?thesis
  proof (rule that [of m'])
    show "flush_block K buffer r (False, offset, s) = Ret (False, offset + (?q - 1), meta_filled m' i s)"
      using mo hdr m'(1) p2 by (simp add: flush_block_def)
    show "flash_page byte_at ?ps m' (i * ?q) = meta_header ?ps r" using m'(4) [of "i * ?q"] m(3) by simp
    show "flash_page byte_at ?ps m' p = page_at byte_at s p" if "p < i * ?q \<or> (i + 1) * ?q \<le> p" for p
      using m'(4) [of p] m(3) [of p] that z(2) by auto
  qed (use m'(2,3) in auto)
qed

end

section \<open>Writing the image\<close>

text \<open>Page \<open>j\<close> of the metadata block of rank \<open>r\<close>.\<close>

definition meta_page :: "nat \<Rightarrow> nat \<Rightarrow> byte list \<Rightarrow> nat \<Rightarrow> nat \<Rightarrow> byte list" where
  "meta_page ps q buffer r j =
     (if j = 0 then meta_header ps r else take ps (drop (ps * (r * (q - 1) + (j - 1))) buffer))"

text \<open>\<open>T r\<close> is the block of rank \<open>r\<close>; the blocks of rank \<open>r0\<close> and above are empty.\<close>

definition ranks_ok :: "('m \<Rightarrow> nat \<Rightarrow> byte) \<Rightarrow> (nat \<Rightarrow> nat) \<Rightarrow> nat \<Rightarrow> nat \<Rightarrow> 'm lkp_kv_cfg \<Rightarrow> bool" where
  "ranks_ok byte_at T n r0 s \<longleftrightarrow> n = length (meta_blkordr s) \<and> inj_on T {..<n}
     \<and> (\<forall>r < n. meta_blkordr s ! r = int (T r) \<and> T r < nb_blocks s \<and> state (blocks s ! T r) = BLK_META)
     \<and> (\<forall>r < n. r0 \<le> r \<longrightarrow> blk_off s (T r) = 0 \<and> erased_above byte_at s (T r))
     \<and> (\<exists>d < nb_blocks s. d \<notin> T ` {..<n} \<and> blk_off s d < int (pages_per_block s))"

text \<open>The blocks of rank \<open>r0\<close> to \<open>n - 1\<close> were filled with the image.\<close>

definition ranks_written :: "('m \<Rightarrow> nat \<Rightarrow> byte) \<Rightarrow> byte list \<Rightarrow> (nat \<Rightarrow> nat) \<Rightarrow> nat \<Rightarrow> nat \<Rightarrow> 'm lkp_kv_cfg \<Rightarrow> 'm lkp_kv_cfg \<Rightarrow> bool" where
  "ranks_written byte_at buffer T n r0 s t \<longleftrightarrow> t = s\<lparr>flash := flash t, blocks := blocks t\<rparr> \<and> length (blocks t) = length (blocks s)
     \<and> (\<forall>r. r0 \<le> r \<and> r < n \<longrightarrow> blocks t ! T r = (blocks s ! T r)\<lparr>current_page_offset := int (pages_per_block s)\<rparr>
           \<and> (\<forall>j < pages_per_block s. flash_page byte_at (page_size s) (flash t) (T r * pages_per_block s + j)
                = meta_page (page_size s) (pages_per_block s) buffer r j))
     \<and> (\<forall>i. i \<notin> T ` {r0..<n} \<longrightarrow> blocks t ! i = blocks s ! i
           \<and> (\<forall>j < pages_per_block s. flash_page byte_at (page_size s) (flash t) (i * pages_per_block s + j) = page_at byte_at s (i * pages_per_block s + j)))"

context reliable_flash
begin

lemma flush_blocks_ok:
  assumes "kv M s" "ranks_ok byte_at T n r0 s" "r0 \<le> n" "n * (pages_per_block s - 1) * page_size s \<le> length buffer"
  shows "\<exists>t. ofold (flush_block K buffer) [r0..<n] (False, r0 * (pages_per_block s - 1), s) = Ret (False, n * (pages_per_block s - 1), t)
     \<and> kv M t \<and> ranks_written byte_at buffer T n r0 s t"
  using assms
proof (induction "n - r0" arbitrary: s r0)
  case 0
  then have "r0 = n" by simp
  with 0 show ?case by (intro exI [of _ s]) (auto simp: ranks_written_def)
next
  case (Suc d)
  then have r0: "r0 < n" by simp
  note D = kv_invD [OF Suc.prems(1)]
  let ?q = "pages_per_block s" and ?ps = "page_size s" and ?i = "T r0"
  from Suc.prems(2) have R: "n = length (meta_blkordr s)" "inj_on T {..<n}" "?i < nb_blocks s" "meta_blkordr s ! r0 = int ?i"
    "state (blocks s ! ?i) = BLK_META" "blk_off s ?i = 0" "erased_above byte_at s ?i"
    using r0 by (auto simp: ranks_ok_def)
  obtain dd where dd: "dd < nb_blocks s" "dd \<notin> T ` {..<n}" "blk_off s dd < int ?q"
    using Suc.prems(2) by (auto simp: ranks_ok_def)
  have room: "room_outside ?i s" using dd r0 by (auto simp: room_outside_def)
  have mo: "r0 < length (meta_blkordr s)" using r0 R(1) by simp
  have bd: "(r0 * (?q - 1) + (?q - 1)) * ?ps \<le> length buffer"
  proof -
    have "(r0 * (?q - 1) + (?q - 1)) * ?ps \<le> n * (?q - 1) * ?ps"
      using r0 mult_le_mono1 [of "Suc r0" n "?q - 1"] by (intro mult_le_mono1) simp
    with Suc.prems(4) show ?thesis by linarith
  qed
  obtain m where m: "flush_block K buffer r0 (False, r0 * (?q - 1), s) = Ret (False, r0 * (?q - 1) + (?q - 1), meta_filled m ?i s)"
    "kv M (meta_filled m ?i s)" "flash_page byte_at ?ps m (?i * ?q) = meta_header ?ps r0"
    "\<And>j. 1 \<le> j \<Longrightarrow> j < ?q \<Longrightarrow> flash_page byte_at ?ps m (?i * ?q + j) = take ?ps (drop (?ps * (r0 * (?q - 1) + (j - 1))) buffer)"
    "\<And>p. p < ?i * ?q \<or> (?i + 1) * ?q \<le> p \<Longrightarrow> flash_page byte_at ?ps m p = page_at byte_at s p"
    using flush_block_ok [OF Suc.prems(1) R(3,5,6) mo R(4) room R(7) bd] by blast
  let ?t = "meta_filled m ?i s"
  have sh: "nb_blocks ?t = nb_blocks s" "pages_per_block ?t = ?q" "page_size ?t = ?ps" "flash ?t = m" "meta_blkordr ?t = meta_blkordr s"
    "length (blocks ?t) = length (blocks s)"
    by (simp_all add: meta_filled_def)
  have blk: "blocks ?t ! i = (if i = ?i then (blocks s ! ?i)\<lparr>current_page_offset := int ?q\<rparr> else blocks s ! i)" for i
    using R(3) D(3) by (simp add: meta_filled_def nth_list_update)
  have pin: "flash_page byte_at ?ps m (?i * ?q + j) = meta_page ?ps ?q buffer r0 j" if "j < ?q" for j
    using m(3) m(4) [of j] that by (cases j) (simp_all add: meta_page_def)
  have pout: "flash_page byte_at ?ps m (i * ?q + j) = page_at byte_at s (i * ?q + j)" if "i \<noteq> ?i" "j < ?q" for i j
  proof (rule m(5))
    show "i * ?q + j < ?i * ?q \<or> (?i + 1) * ?q \<le> i * ?q + j"
    proof (cases "i < ?i")
      case True
      then have "(i + 1) * ?q \<le> ?i * ?q" by (intro mult_le_mono1) simp
      with that(2) show ?thesis by simp
    next
      case False
      with that(1) have "(?i + 1) * ?q \<le> i * ?q" by (intro mult_le_mono1) simp
      then show ?thesis by linarith
    qed
  qed
  have Tne: "T r \<noteq> ?i" if "r < n" "r \<noteq> r0" for r
    using R(2) that r0 by (auto simp: inj_on_def)
  have rk: "ranks_ok byte_at T n (Suc r0) ?t"
  proof -
    have "erased_above byte_at ?t (T r)" "blk_off ?t (T r) = 0" if "Suc r0 \<le> r" "r < n" for r
      using Suc.prems(2) that Tne [of r] pout [of "T r"]
      by (auto simp: ranks_ok_def erased_above_def sh blk)
    moreover have "dd \<noteq> ?i" using dd(2) r0 by auto
    then have "\<exists>d < nb_blocks ?t. d \<notin> T ` {..<n} \<and> blk_off ?t d < int (pages_per_block ?t)"
      using dd by (intro exI [of _ dd]) (simp add: sh blk)
    ultimately show ?thesis
      using Suc.prems(2) unfolding ranks_ok_def sh by (auto simp: blk)
  qed
  have "\<exists>u. ofold (flush_block K buffer) [Suc r0..<n] (False, Suc r0 * (pages_per_block ?t - 1), ?t) = Ret (False, n * (pages_per_block ?t - 1), u)
     \<and> kv M u \<and> ranks_written byte_at buffer T n (Suc r0) ?t u"
    by (rule Suc.hyps(1) [OF _ m(2) rk]) (use Suc.hyps(2) Suc.prems(4) r0 sh in simp_all)
  then obtain u where u: "ofold (flush_block K buffer) [Suc r0..<n] (False, Suc r0 * (?q - 1), ?t) = Ret (False, n * (?q - 1), u)"
     "kv M u" "ranks_written byte_at buffer T n (Suc r0) ?t u"
    unfolding sh by blast
  have "ranks_written byte_at buffer T n r0 s u"
  proof -
    have U: "u = ?t\<lparr>flash := flash u, blocks := blocks u\<rparr>" "length (blocks u) = length (blocks ?t)"
      "\<And>r. Suc r0 \<le> r \<Longrightarrow> r < n \<Longrightarrow> blocks u ! T r = (blocks ?t ! T r)\<lparr>current_page_offset := int ?q\<rparr>
        \<and> (\<forall>j < ?q. flash_page byte_at ?ps (flash u) (T r * ?q + j) = meta_page ?ps ?q buffer r j)"
      "\<And>i. i \<notin> T ` {Suc r0..<n} \<Longrightarrow> blocks u ! i = blocks ?t ! i
        \<and> (\<forall>j < ?q. flash_page byte_at ?ps (flash u) (i * ?q + j) = flash_page byte_at ?ps m (i * ?q + j))"
      using u(3) unfolding ranks_written_def sh by blast+
    have fr: "u = s\<lparr>flash := flash u, blocks := blocks u\<rparr>"
      by (rule trans [OF U(1)]) (simp add: meta_filled_def)
    have old: "?i \<notin> T ` {Suc r0..<n}" using Tne by force
    have new: "blocks u ! T r = (blocks s ! T r)\<lparr>current_page_offset := int ?q\<rparr>
        \<and> (\<forall>j < ?q. flash_page byte_at ?ps (flash u) (T r * ?q + j) = meta_page ?ps ?q buffer r j)" if "r0 \<le> r" "r < n" for r
    proof (cases "r = r0")
      case True
      with U(4) [OF old] pin show ?thesis by (simp add: blk)
    next
      case False
      with U(3) [of r] that Tne [of r] show ?thesis by (simp add: blk)
    qed
    have rest: "blocks u ! i = blocks s ! i \<and> (\<forall>j < ?q. flash_page byte_at ?ps (flash u) (i * ?q + j) = page_at byte_at s (i * ?q + j))"
      if "i \<notin> T ` {r0..<n}" for i
    proof -
      have "i \<noteq> ?i" "i \<notin> T ` {Suc r0..<n}" using that r0 by auto
      with U(4) [of i] pout [of i] show ?thesis by (simp add: blk)
    qed
    show ?thesis
      unfolding ranks_written_def using fr U(2) new rest sh(6) by simp
  qed
  moreover have "ofold (flush_block K buffer) [r0..<n] (False, r0 * (?q - 1), s) = Ret (False, n * (?q - 1), u)"
    using r0 m(1) u(1) by (simp add: upt_conv_Cons add.commute)
  ultimately show ?case using u(2) by blast
qed

end

section \<open>Choosing the blocks\<close>

text \<open>The free block \<open>b\<close> becomes the metadata block of rank \<open>r\<close>.\<close>

definition taken :: "nat \<Rightarrow> nat \<Rightarrow> 'm lkp_kv_cfg \<Rightarrow> 'm lkp_kv_cfg" where
  "taken r b s = s\<lparr>meta_blkordr := (meta_blkordr s)[r := int b], blocks := (blocks s)[b := (blocks s ! b)\<lparr>state := BLK_META\<rparr>]\<rparr>"

lemma taken_inv:
  assumes inv: "kv_inv byte_at good fsize M s" and b: "b < nb_blocks s" "state (blocks s ! b) = BLK_FREE"
  shows "kv_inv byte_at good fsize M (taken r b s)"
proof -
  note D = kv_invD [OF inv]
  let ?t = "taken r b s"
  have blk: "blocks ?t ! i = (if i = b then (blocks s ! b)\<lparr>state := BLK_META\<rparr> else blocks s ! i)" for i
    using b(1) D(3) by (simp add: taken_def nth_list_update)
  have shape: "nb_blocks ?t = nb_blocks s" "pages_per_block ?t = pages_per_block s" "page_size ?t = page_size s"
    "flash ?t = flash s" "read_only ?t = read_only s" "length (blocks ?t) = length (blocks s)"
    "hashtable ?t = hashtable s" "geometry ?t fsize = geometry s fsize"
    by (simp_all add: taken_def geometry_def)
  have vl: "valid_list (blocks ?t ! i) = valid_list (blocks s ! i)" "blk_off ?t i = blk_off s i" for i by (simp_all add: blk)
  show ?thesis
    unfolding kv_inv_def
  proof (intro conjI allI impI ballI)
    show "geometry ?t fsize" "good (flash ?t)" "length (blocks ?t) = nb_blocks ?t" "index_ok (hash_size ?t) (hashtable ?t)"
      using D(1-4) shape by auto
  next
    fix i assume i: "i < nb_blocks ?t"
    have "blk_counts_ok (pages_per_block s) (blocks s ! i)" using D(6) i shape by simp
    then show "blk_counts_ok (pages_per_block ?t) (blocks ?t ! i)"
      using b(2) shape(2) by (cases "i = b") (auto simp: blk blk_counts_ok_def)
    show "erased_above byte_at ?t i" if "state (blocks ?t ! i) \<noteq> BLK_META"
      using D(7) [of i] that i shape by (auto simp: erased_above_def vl blk split: if_splits)
  next
    fix h k q assume e: "entry (hashtable ?t) h = Some (k, q)"
    from D(8) [OF e [unfolded shape]] obtain i' j' v' where o: "q = int (i' * pages_per_block s + j')" "i' < nb_blocks s" "0 < j'"
      "j' < pages_per_block s" "int j' < blk_off s i'" "state (blocks s ! i') = BLK_USED"
      "h \<in> set (valid_list (blocks s ! i'))" "M k = Some v'" "couple_ok (page_size s) (k, v')" "length k < KEY_MAX"
      "holds_couple (page_at byte_at s (i' * pages_per_block s + j')) (k, v')"
      by (auto simp: entry_ok_def)
    have ne: "i' \<noteq> b" using o(6) b(2) by auto
    from ne o show "entry_ok byte_at M ?t h k q"
      unfolding entry_ok_def shape
      by - (rule exI [of _ i'], rule exI [of _ j'], rule exI [of _ v'], simp add: blk)
  next
    fix k assume "k \<in> dom M"
    with D(9) [of k] show "\<exists>h q. entry (hashtable ?t) h = Some (k, q)" unfolding shape by auto
  next
    show "lists_ok ?t" using D(10) unfolding lists_ok_def shape vl .
    show "read_only ?t = is_read_only ?t"
      using D(11) unfolding is_read_only_nth shape vl .
  qed
qed

lemma free_count_pos: "0 < free_count s \<longleftrightarrow> (\<exists>b \<in> set (blocks s). state b = BLK_FREE)"
  by (auto simp: free_count_def filter_empty_conv)

lemma free_count_taken:
  assumes "b < length (blocks s)" "state (blocks s ! b) = BLK_FREE"
  shows "free_count (taken r b s) + 1 = free_count s"
proof -
  have "b < length xs \<Longrightarrow> P (xs ! b) \<Longrightarrow> \<not> P x \<Longrightarrow> length (filter P (xs[b := x])) + 1 = length (filter P xs)" for xs :: "blk_info list" and P x b
    by (induction xs arbitrary: b) (auto split: nat.splits)
  with assms show ?thesis by (simp add: free_count_def taken_def)
qed

text \<open>Blocks \<open>T r\<close>, free before, are the metadata blocks of the ranks \<open>R\<close>.\<close>

definition ranks_taken :: "(nat \<Rightarrow> nat) \<Rightarrow> nat set \<Rightarrow> 'm lkp_kv_cfg \<Rightarrow> 'm lkp_kv_cfg \<Rightarrow> bool" where
  "ranks_taken T R s t \<longleftrightarrow> t = s\<lparr>meta_blkordr := meta_blkordr t, blocks := blocks t\<rparr> \<and> length (blocks t) = length (blocks s)
     \<and> length (meta_blkordr t) = length (meta_blkordr s) \<and> inj_on T R
     \<and> (\<forall>r \<in> R. T r < nb_blocks s \<and> state (blocks s ! T r) = BLK_FREE \<and> meta_blkordr t ! r = int (T r)
           \<and> blocks t ! T r = (blocks s ! T r)\<lparr>state := BLK_META\<rparr>)
     \<and> (\<forall>i. i \<notin> T ` R \<longrightarrow> blocks t ! i = blocks s ! i) \<and> (\<forall>r. r \<notin> R \<longrightarrow> meta_blkordr t ! r = meta_blkordr s ! r)"

context reliable_flash
begin

lemma flush_target_ok:
  assumes inv: "kv M s" and fr: "0 < free_count s" and r: "r < length (meta_blkordr s)"
  obtains b where "b < nb_blocks s" "state (blocks s ! b) = BLK_FREE" "flush_target K r s = Ret (taken r b s)" "kv M (taken r b s)"
proof -
  note D = kv_invD [OF inv]
  let ?c = "\<lambda>b. state b \<noteq> BLK_META \<and> current_page_offset b = 0"
  have w: "\<forall>b \<in> set (blocks s). worn b < 2147483647"
    using D(3,6) by (metis blk_counts_ok_def in_set_conv_nth)
  obtain b0 where "b0 \<in> set (blocks s)" "state b0 = BLK_FREE" using fr free_count_pos by blast
  then have "\<exists>b \<in> set (blocks s). ?c b"
    using D(3,6) by (metis blk_counts_ok_def blk_state.distinct(1,3) in_set_conv_nth)
  with least_worn_spec [OF w, of ?c] obtain b where b: "b < nb_blocks s" "least_worn ?c (blocks s) = int b" "?c (blocks s ! b)"
    using D(3) by auto
  then have free: "state (blocks s ! b) = BLK_FREE" using D(6) [OF b(1)] by (auto simp: blk_counts_ok_def)
  have "flush_target K r s = Ret (taken r b s)"
    using b D(3) r free by (simp add: flush_target_def get_meta_block_def move_pages_to_other_block_def upd_block_def taken_def)
  with that b(1) free taken_inv [OF inv b(1) free] show ?thesis by blast
qed

lemma flush_targets_ok:
  assumes "kv M s" "length rs \<le> free_count s" "distinct rs" "\<forall>r \<in> set rs. r < length (meta_blkordr s)"
  shows "\<exists>T t. ofold (flush_target K) rs s = Ret t \<and> kv M t \<and> ranks_taken T (set rs) s t \<and> free_count t + length rs = free_count s"
  using assms
proof (induction rs arbitrary: s)
  case Nil
  then show ?case by (auto simp: ranks_taken_def)
next
  case (Cons r rs)
  have fr: "0 < free_count s" "r < length (meta_blkordr s)" using Cons.prems by simp_all
  obtain b where b: "b < nb_blocks s" "state (blocks s ! b) = BLK_FREE" "flush_target K r s = Ret (taken r b s)" "kv M (taken r b s)"
    using flush_target_ok [OF Cons.prems(1) fr] by blast
  let ?s = "taken r b s"
  have bl: "b < length (blocks s)" using b(1) kv_invD(3) [OF Cons.prems(1)] by simp
  have fc: "free_count ?s + 1 = free_count s" by (rule free_count_taken [OF bl b(2)])
  have "\<exists>T t. ofold (flush_target K) rs ?s = Ret t \<and> kv M t \<and> ranks_taken T (set rs) ?s t \<and> free_count t + length rs = free_count ?s"
    by (rule Cons.IH [OF b(4)]) (use Cons.prems fc in \<open>auto simp: taken_def\<close>)
  then obtain T t where t: "ofold (flush_target K) rs ?s = Ret t" "kv M t" "ranks_taken T (set rs) ?s t" "free_count t + length rs = free_count ?s"
    by blast
  have blk: "blocks ?s ! i = (if i = b then (blocks s ! b)\<lparr>state := BLK_META\<rparr> else blocks s ! i)" for i
    using bl by (simp add: taken_def nth_list_update)
  have mo: "meta_blkordr ?s ! r' = (if r' = r then int b else meta_blkordr s ! r')" for r'
    using fr(2) by (simp add: taken_def nth_list_update)
  have sh: "nb_blocks ?s = nb_blocks s" "length (blocks ?s) = length (blocks s)" "length (meta_blkordr ?s) = length (meta_blkordr s)"
    by (simp_all add: taken_def)
  have R: "t = ?s\<lparr>meta_blkordr := meta_blkordr t, blocks := blocks t\<rparr>" "length (blocks t) = length (blocks s)"
     "length (meta_blkordr t) = length (meta_blkordr s)" "inj_on T (set rs)"
     "\<And>r. r \<in> set rs \<Longrightarrow> T r < nb_blocks s \<and> state (blocks ?s ! T r) = BLK_FREE \<and> meta_blkordr t ! r = int (T r)
           \<and> blocks t ! T r = (blocks ?s ! T r)\<lparr>state := BLK_META\<rparr>"
     "\<And>i. i \<notin> T ` set rs \<Longrightarrow> blocks t ! i = blocks ?s ! i" "\<And>r. r \<notin> set rs \<Longrightarrow> meta_blkordr t ! r = meta_blkordr ?s ! r"
    using t(3) unfolding ranks_taken_def sh by blast+
  have rr: "r \<notin> set rs" using Cons.prems(3) by simp
  have Tb: "T r' \<noteq> b" if "r' \<in> set rs" for r' using R(5) [OF that] by (auto simp: blk)
  let ?T = "T(r := b)"
  have im: "?T ` set (r # rs) = insert b (T ` set rs)" using rr by auto
  have bT: "b \<notin> T ` set rs" using Tb by auto
  have "ranks_taken ?T (set (r # rs)) s t"
    unfolding ranks_taken_def
  proof (intro conjI ballI allI impI)
    show "t = s\<lparr>meta_blkordr := meta_blkordr t, blocks := blocks t\<rparr>"
      by (rule trans [OF R(1)]) (simp add: taken_def)
    show "inj_on ?T (set (r # rs))"
      using R(4) Tb rr by (auto simp: inj_on_def)
  next
    fix r' assume r': "r' \<in> set (r # rs)"
    show "?T r' < nb_blocks s" "state (blocks s ! ?T r') = BLK_FREE" "meta_blkordr t ! r' = int (?T r')"
       "blocks t ! ?T r' = (blocks s ! ?T r')\<lparr>state := BLK_META\<rparr>"
      using r' b(1,2) R(5) [of r'] R(6) [OF bT] R(7) [OF rr] Tb [of r'] mo [of r] by (cases "r' = r"; auto simp: blk)+
  next
    fix i assume "i \<notin> ?T ` set (r # rs)"
    then show "blocks t ! i = blocks s ! i" unfolding im using R(6) [of i] by (simp add: blk)
  next
    fix r' assume "r' \<notin> set (r # rs)"
    then show "meta_blkordr t ! r' = meta_blkordr s ! r'" using R(7) [of r'] mo [of r'] by simp
  qed (use R(2,3) in simp_all)
  moreover have "ofold (flush_target K) (r # rs) s = Ret t" "free_count t + length (r # rs) = free_count s"
    using b(3) t(1,4) fc by simp_all
  ultimately show ?case using t(2) by blast
qed

end

section \<open>The flush\<close>

text \<open>\<open>meta_blkordr\<close> lists exactly the metadata blocks; unused ranks are -1.\<close>

definition meta_owned :: "'m lkp_kv_cfg \<Rightarrow> bool" where
  "meta_owned s \<longleftrightarrow> length (meta_blkordr s) = nb_meta_blocks s
     \<and> (\<forall>x \<in> set (meta_blkordr s). x = - 1 \<or> (\<exists>i < nb_blocks s. x = int i \<and> state (blocks s ! i) = BLK_META))
     \<and> (\<forall>i < nb_blocks s. state (blocks s ! i) = BLK_META \<longrightarrow> int i \<in> set (meta_blkordr s))"

definition metadata_fits :: "'m lkp_kv_cfg \<Rightarrow> bool" where
  "metadata_fits s \<longleftrightarrow> block_info_size s = SIZEOF_BLK_INFO * nb_blocks s \<and> hashtable_size s = SIZEOF_BUCKET * hash_size s
     \<and> block_info_size s + hashtable_size s \<le> page_size s * nb_meta_pages s"

definition wear_below :: "int \<Rightarrow> 'm lkp_kv_cfg \<Rightarrow> bool" where
  "wear_below n s \<longleftrightarrow> (\<forall>b \<in> set (blocks s). worn b < n)"

lemma length_blk_info_bytes [simp]: "length (blk_info_bytes K off b) = SIZEOF_BLK_INFO"
  by (simp add: blk_info_bytes_def stale_def SIZEOF_BLK_INFO_def)

lemma length_bucket_bytes [simp]: "length (bucket_bytes K off b) = SIZEOF_BUCKET"
  by (simp add: bucket_bytes_def stale_def SIZEOF_BUCKET_def KEY_MAX_def)

lemma length_concat_enumerate:
  assumes "\<And>i x. length (f (i, x)) = c"
  shows "length (concat (map f (enumerate n xs))) = c * length xs"
  by (induction xs arbitrary: n) (simp_all add: assms)

lemma length_tables_bytes: "length (tables_bytes K s) = SIZEOF_BLK_INFO * length (blocks s) + SIZEOF_BUCKET * length (hashtable s)"
  unfolding tables_bytes_def length_append
  by (intro arg_cong2 [where f = "(+)"]) (subst length_concat_enumerate, simp, simp)+

context reliable_flash
begin

lemma flush_erase_ok:
  assumes "kv M s" "\<forall>r \<in> set rs. r < length (meta_blkordr s) \<and> (meta_blkordr s ! r = - 1
      \<or> (\<exists>i < nb_blocks s. meta_blkordr s ! r = int i \<and> valid_list (blocks s ! i) = []))"
    "wear_below (2147483647 - int (length rs)) s"
  shows "\<exists>t. ofold (\<lambda>i s. obind (arr_get (meta_blkordr s) (int i)) (\<lambda>blk.
                           obind (format_single K blk s) (\<lambda>(_, s). Ret s))) rs s = Ret t
     \<and> kv M t \<and> same_config s t \<and> hashtable t = hashtable s \<and> length (blocks t) = length (blocks s)
     \<and> (\<forall>i. blocks t ! i = blocks s ! i \<or> state (blocks t ! i) = BLK_FREE \<and> valid_list (blocks t ! i) = [])
     \<and> (\<forall>r \<in> set rs. \<forall>i. meta_blkordr s ! r = int i \<longrightarrow> state (blocks t ! i) = BLK_FREE)"
  (is "\<exists>t. ofold ?F rs s = Ret t \<and> _")
  using assms
proof (induction rs arbitrary: s)
  case Nil
  then show ?case by simp
next
  case (Cons r rs)
  note D = kv_invD [OF Cons.prems(1)]
  obtain s1 where s1: "?F r s = Ret s1" "kv M s1" "same_config s s1" "hashtable s1 = hashtable s" "length (blocks s1) = length (blocks s)"
    "\<And>i. blocks s1 ! i = blocks s ! i \<or> state (blocks s1 ! i) = BLK_FREE \<and> valid_list (blocks s1 ! i) = []"
    "\<And>i. meta_blkordr s ! r = int i \<Longrightarrow> state (blocks s1 ! i) = BLK_FREE"
    "wear_below (2147483647 - int (length rs)) s1"
  proof (cases "meta_blkordr s ! r = - 1")
    case True
    with Cons.prems(2) have "?F r s = Ret s" by (simp add: format_single_def)
    moreover have "wear_below (2147483647 - int (length rs)) s" using Cons.prems(3) by (force simp: wear_below_def)
    ultimately show ?thesis using that [of s] Cons.prems(1) True by simp
  next
    case False
    with Cons.prems(2) obtain i where i: "i < nb_blocks s" "meta_blkordr s ! r = int i" "valid_list (blocks s ! i) = []" by auto
    have w: "worn (blocks s ! i) < 2147483646" 
    proof -
      have "blocks s ! i \<in> set (blocks s)" using i(1) D(3) by simp
      with Cons.prems(3) have "worn (blocks s ! i) < 2147483647 - int (length (r # rs))" unfolding wear_below_def by blast
      then show ?thesis by simp
    qed
    obtain m where m: "format_single K (int i) s = Ret (0, erased_block m i s)" "kv M (erased_block m i s)"
      by (rule format_single_ok [OF Cons.prems(1) i(1,3) w])
    have il: "i < length (blocks s)" using i(1) D(3) by simp
    have blk: "blocks (erased_block m i s) ! i' = (if i' = i then (blocks s ! i)\<lparr>state := BLK_FREE, nb_invalid := 0,
        current_page_offset := 0, worn := worn (blocks s ! i) + 1, valid_list := []\<rparr> else blocks s ! i')" for i'
      using il by (simp add: erased_block_def nth_list_update)
    have "?F r s = Ret (erased_block m i s)" using Cons.prems(2) i(2) m(1) by simp
    moreover have "wear_below (2147483647 - int (length rs)) (erased_block m i s)"
      unfolding wear_below_def all_set_conv_all_nth
    proof (intro allI impI)
      fix i' assume "i' < length (blocks (erased_block m i s))"
      then have "i' < length (blocks s)" by (simp add: erased_block_def)
      with Cons.prems(3) have "worn (blocks s ! i') < 2147483646 - int (length rs)"
        unfolding wear_below_def all_set_conv_all_nth by simp
      then show "worn (blocks (erased_block m i s) ! i') < 2147483647 - int (length rs)"
        by (cases "i' = i") (simp_all add: blk)
    qed
    moreover have "same_config s (erased_block m i s)" "hashtable (erased_block m i s) = hashtable s" "length (blocks (erased_block m i s)) = length (blocks s)"
      by (simp_all add: erased_block_def same_config_def)
    ultimately show ?thesis using that [of "erased_block m i s"] m(2) i(2) by (simp add: blk)
  qed
  have c: "meta_blkordr s1 = meta_blkordr s" "nb_blocks s1 = nb_blocks s" using s1(3) by (simp_all add: same_config_def)
  have pre: "\<forall>r \<in> set rs. r < length (meta_blkordr s1) \<and> (meta_blkordr s1 ! r = - 1
      \<or> (\<exists>i < nb_blocks s1. meta_blkordr s1 ! r = int i \<and> valid_list (blocks s1 ! i) = []))"
    using Cons.prems(2) s1(6) unfolding c by (metis list.set_intros(2))
  from Cons.IH [OF s1(2) pre s1(8)] obtain t where t: "ofold ?F rs s1 = Ret t" "kv M t" "same_config s1 t" "hashtable t = hashtable s1"
    "length (blocks t) = length (blocks s1)" "\<And>i. blocks t ! i = blocks s1 ! i \<or> state (blocks t ! i) = BLK_FREE \<and> valid_list (blocks t ! i) = []"
    "\<And>r i. r \<in> set rs \<Longrightarrow> meta_blkordr s ! r = int i \<Longrightarrow> state (blocks t ! i) = BLK_FREE"
    unfolding c by blast
  have loop: "ofold ?F (r # rs) s = Ret t" using s1(1) t(1) by (simp only: ofold.simps obind.simps)
  have chg: "blocks t ! i = blocks s ! i \<or> state (blocks t ! i) = BLK_FREE \<and> valid_list (blocks t ! i) = []" for i
    using s1(6) [of i] t(6) [of i] by auto
  have erd: "state (blocks t ! i) = BLK_FREE" if "r' \<in> set (r # rs)" "meta_blkordr s ! r' = int i" for r' i
    using that s1(7) [of i] t(6) [of i] t(7) [of r' i] by auto
  show ?case
    using loop t(2) same_config_trans [OF s1(3) t(3)] t(4,5) s1(4,5) chg erd by (intro exI [of _ t] conjI) (simp_all only: | blast)+
qed

end

text \<open>
  \<open>flush_metadata\<close> asks \<open>kmalloc\<close> for \<open>nb_meta_pages\<close> pages and then writes all the pages of
  \<open>nb_meta_blocks\<close> blocks from the buffer, which are always more: the pages behind the metadata are
  read from beyond the request.  What is there: \<open>kmalloc\<close> hands out an object of the smallest of its
  general caches that holds the request (\<open>kmalloc_sizes.h\<close>), and \<open>ksize\<close> documents that the caller
  may use all of it.  \<open>kmalloc_classes\<close> states this of the allocator; \<open>slack_ok\<close> adds that for the
  sizes of the partition the object covers the pages that are read.  Where it does not, the model
  of the flush is a fault.
\<close>

definition kmalloc_classes :: "'m heap_kernel \<Rightarrow> ('m \<Rightarrow> bool) \<Rightarrow> bool" where
  "kmalloc_classes K good \<longleftrightarrow> (\<forall>m n buf. good m \<longrightarrow> k_kmalloc K m n = Some buf \<longrightarrow> slab_size n \<le> length buf)"

definition slack_ok :: "'m heap_kernel \<Rightarrow> ('m \<Rightarrow> bool) \<Rightarrow> 'm lkp_kv_cfg \<Rightarrow> bool" where
  "slack_ok K good s \<longleftrightarrow> kmalloc_classes K good
     \<and> nb_meta_blocks s * (pages_per_block s - 1) * page_size s \<le> slab_size (page_size s * nb_meta_pages s)"

lemma free_count_mono:
  assumes "length (blocks t) = length (blocks s)" "\<And>i. state (blocks s ! i) = BLK_FREE \<Longrightarrow> state (blocks t ! i) = BLK_FREE"
  shows "free_count s \<le> free_count t"
proof -
  have "{i. i < length (blocks s) \<and> state (blocks s ! i) = BLK_FREE} \<subseteq> {i. i < length (blocks t) \<and> state (blocks t ! i) = BLK_FREE}"
    using assms by auto
  then show ?thesis
    unfolding free_count_def length_filter_conv_card by (intro card_mono) auto
qed

text \<open>
  What a flush leaves: the metadata blocks \<open>T\<close> hold the pages of \<open>buffer\<close>, which starts with the
  image of the tables of \<open>u\<close>; \<open>u\<close> has the couples, blocks and hash table of the final state,
  except that the offset of the new metadata blocks is still 0.
\<close>

definition flushed :: "'m heap_kernel \<Rightarrow> ('m \<Rightarrow> nat \<Rightarrow> byte) \<Rightarrow> 'm lkp_kv_cfg \<Rightarrow> 'm lkp_kv_cfg \<Rightarrow> bool" where
  "flushed K byte_at u t \<longleftrightarrow> (\<exists>buf buffer T. mem_store buf 0 (tables_bytes K u) = Ret buffer
     \<and> inj_on T {..<nb_meta_blocks t} \<and> (\<forall>r < nb_meta_blocks t. T r < nb_blocks t \<and> meta_blkordr t ! r = int (T r)
           \<and> blk_off u (T r) = 0 \<and> state (blocks u ! T r) = BLK_META)
     \<and> (\<forall>i < nb_blocks t. i \<notin> T ` {..<nb_meta_blocks t} \<longrightarrow> state (blocks u ! i) \<noteq> BLK_META)
     \<and> ranks_written byte_at buffer T (nb_meta_blocks t) 0 u (t\<lparr>time_flush := time_flush u\<rparr>))"

context reliable_flash
begin

lemma flush_ok:
  assumes inv: "kv M s" and own: "meta_owned s" and fits: "metadata_fits s" and slack: "slack_ok K good s"
    and wear: "wear_below (2147483647 - int (nb_meta_blocks s)) s" and free: "nb_meta_blocks s < free_count s"
  obtains u t where "flush_metadata K ts s = Ret (0, t)" "kv M u" "kv M t" "flushed K byte_at u t" "meta_full t" "meta_owned t"
    "time_flush t = clock ts" "hashtable t = hashtable s" "same_config s (t\<lparr>time_flush := time_flush s, meta_blkordr := meta_blkordr s\<rparr>)"
    "hashtable u = hashtable s" "nb_blocks u = nb_blocks s"
proof -
  note D = kv_invD [OF inv]
  let ?n = "nb_meta_blocks s" and ?F = "\<lambda>i s. obind (arr_get (meta_blkordr s) (int i)) (\<lambda>blk. obind (format_single K blk s) (\<lambda>(_, s). Ret s))"
  obtain buf where buf: "k_kmalloc K (flash s) (page_size s * nb_meta_pages s) = Some buf" "page_size s * nb_meta_pages s \<le> length buf"
    "?n * (pages_per_block s - 1) * page_size s \<le> length buf"
    using kmalloc_ok [OF D(2), of "page_size s * nb_meta_pages s"] slack D(2) unfolding slack_ok_def kmalloc_classes_def
    by (meson le_trans)
  have meta_empty: "valid_list (blocks s ! i) = []" if "i < nb_blocks s" "state (blocks s ! i) = BLK_META" for i
    using D(6) [OF that(1)] that(2) by (auto simp: blk_counts_ok_def)
  have pre: "\<forall>r \<in> set [0..<?n]. r < length (meta_blkordr s) \<and> (meta_blkordr s ! r = - 1
      \<or> (\<exists>i < nb_blocks s. meta_blkordr s ! r = int i \<and> valid_list (blocks s ! i) = []))"
    using own meta_empty unfolding meta_owned_def by (metis atLeastLessThan_iff nth_mem set_upt)
  have wear': "wear_below (2147483647 - int (length [0..<?n])) s" using wear by simp
  obtain a where a: "ofold ?F [0..<?n] s = Ret a" "kv M a" "same_config s a" "hashtable a = hashtable s" "length (blocks a) = length (blocks s)"
     "\<And>i. blocks a ! i = blocks s ! i \<or> state (blocks a ! i) = BLK_FREE \<and> valid_list (blocks a ! i) = []"
     "\<And>r i. r < ?n \<Longrightarrow> meta_blkordr s ! r = int i \<Longrightarrow> state (blocks a ! i) = BLK_FREE"
    using flush_erase_ok [OF inv pre wear'] by auto
  have ca: "nb_blocks a = nb_blocks s" "pages_per_block a = pages_per_block s" "page_size a = page_size s" "nb_meta_blocks a = ?n"
    "meta_blkordr a = meta_blkordr s" "block_info_size a = block_info_size s" "hashtable_size a = hashtable_size s"
    using a(3) by (simp_all add: same_config_def)
  have nometa: "state (blocks a ! i) \<noteq> BLK_META" if "i < nb_blocks s" for i
  proof
    assume m: "state (blocks a ! i) = BLK_META"
    with a(6) [of i] have "state (blocks s ! i) = BLK_META" by auto
    with own that obtain r where "r < ?n" "meta_blkordr s ! r = int i"
      unfolding meta_owned_def by (metis in_set_conv_nth)
    with a(7) m show False by fastforce
  qed
  have fa: "free_count s \<le> free_count a"
    by (rule free_count_mono [OF a(5)]) (use a(6) in metis)
  have rs: "length [0..<?n] \<le> free_count a" "distinct [0..<?n]" "\<forall>r \<in> set [0..<?n]. r < length (meta_blkordr a)"
    using free fa own ca(5) by (simp_all add: meta_owned_def)
  obtain T u where u: "ofold (flush_target K) [0..<?n] a = Ret u" "kv M u" "ranks_taken T (set [0..<?n]) a u" "free_count u + ?n = free_count a"
    using flush_targets_ok [OF a(2) rs] by auto
  have set_n: "set [0..<?n] = {..<?n}" by auto
  have R: "u = a\<lparr>meta_blkordr := meta_blkordr u, blocks := blocks u\<rparr>" "length (blocks u) = length (blocks s)"
     "length (meta_blkordr u) = ?n" "inj_on T {..<?n}"
     "\<And>r. r < ?n \<Longrightarrow> T r < nb_blocks s \<and> state (blocks a ! T r) = BLK_FREE \<and> meta_blkordr u ! r = int (T r)
           \<and> blocks u ! T r = (blocks a ! T r)\<lparr>state := BLK_META\<rparr>"
     "\<And>i. i \<notin> T ` {..<?n} \<Longrightarrow> blocks u ! i = blocks a ! i"
    using u(3) own a(5) unfolding ranks_taken_def set_n ca meta_owned_def by auto
  have cu: "nb_blocks u = nb_blocks s" "pages_per_block u = pages_per_block s" "page_size u = page_size s" "nb_meta_blocks u = ?n"
    "hashtable u = hashtable s" "block_info_size u = block_info_size s" "hashtable_size u = hashtable_size s" "flash u = flash a" "time_write u = time_write s"
    using ca a(3,4) by (subst R(1); simp add: same_config_def)+
  have off0: "blk_off u (T r) = 0 \<and> state (blocks u ! T r) = BLK_META \<and> erased_above byte_at u (T r)" if "r < ?n" for r
  proof -
    have A: "T r < nb_blocks a" "state (blocks a ! T r) = BLK_FREE" "blocks u ! T r = (blocks a ! T r)\<lparr>state := BLK_META\<rparr>"
      using R(5) [OF that] ca by auto
    have "blk_off a (T r) = 0" using kv_invD(6) [OF a(2) A(1)] A(2) by (auto simp: blk_counts_ok_def)
    moreover have "erased_above byte_at a (T r)" using kv_invD(7) [OF a(2) A(1)] A(2) by simp
    ultimately show ?thesis using A(3) cu ca by (simp add: erased_above_def)
  qed
  have "0 < free_count u" using free fa u(4) by linarith
  then obtain d where d: "d < nb_blocks s" "state (blocks u ! d) = BLK_FREE"
    unfolding free_count_pos using R(2) D(3) by (metis in_set_conv_nth)
  have dT: "d \<notin> T ` {..<?n}" using d(2) off0 by force
  have doff: "blk_off u d < int (pages_per_block u)"
    using kv_invD(6) [OF u(2), of d] d cu geometryD(2) [OF kv_invD(1) [OF u(2)]] by (auto simp: blk_counts_ok_def)
  have rk: "ranks_ok byte_at T ?n 0 u"
    unfolding ranks_ok_def
  proof (intro conjI allI impI)
    show "\<exists>d < nb_blocks u. d \<notin> T ` {..<?n} \<and> blk_off u d < int (pages_per_block u)"
      using d(1) dT doff cu(1) by (intro exI [of _ d]) simp
  qed (use R(3-5) off0 cu(1) in simp_all)
  have "length (tables_bytes K u) \<le> length buf"
    using fits buf(2) R(2) D(3,5) cu(5) by (simp add: length_tables_bytes metadata_fits_def mult.assoc)
  then obtain buffer where b: "mem_store buf 0 (tables_bytes K u) = Ret buffer" "length buffer = length buf"
    by (simp add: mem_store_def)
  have bd: "?n * (pages_per_block u - 1) * page_size u \<le> length buffer" using buf(3) b(2) cu by simp
  obtain t where t: "ofold (flush_block K buffer) [0..<?n] (False, 0, u) = Ret (False, ?n * (pages_per_block u - 1), t)" "kv M t"
    "ranks_written byte_at buffer T ?n 0 u t"
    using flush_blocks_ok [OF u(2) rk _ bd] by auto
  let ?t = "t\<lparr>time_flush := clock ts\<rparr>"
  have fl: "flush_metadata K ts s = Ret (0, ?t)"
    using buf(1) a(1) u(1) b(1) t(1) by (simp add: flush_metadata_def ca(4) cu(4))
  have kvt: "kv M ?t" using t(2) by (simp add: kv_inv_def geometry_def blk_counts_ok_def erased_above_def entry_ok_def lists_ok_def is_read_only_def)
  have W: "t = u\<lparr>flash := flash t, blocks := blocks t\<rparr>" "length (blocks t) = length (blocks u)"
    "\<And>r. r < ?n \<Longrightarrow> blocks t ! T r = (blocks u ! T r)\<lparr>current_page_offset := int (pages_per_block s)\<rparr>"
    "\<And>i. i \<notin> T ` {..<?n} \<Longrightarrow> blocks t ! i = blocks u ! i"
    using t(3) unfolding ranks_written_def cu by (auto simp: lessThan_atLeast0)
  have ct: "nb_blocks t = nb_blocks s" "pages_per_block t = pages_per_block s" "nb_meta_blocks t = ?n" "meta_blkordr t = meta_blkordr u"
    "hashtable t = hashtable s" "time_flush t = time_flush u"
    using cu by (subst W(1); simp)+
  have metaT: "\<exists>r < ?n. i = T r" if "i < nb_blocks s" "state (blocks t ! i) = BLK_META" for i
    using that W(4) [of i] R(6) [of i] nometa [OF that(1)] by (metis imageE lessThan_iff)
  have nm_u: "state (blocks u ! i) \<noteq> BLK_META" if "i < nb_blocks s" "i \<notin> T ` {..<?n}" for i
    using R(6) [OF that(2)] nometa [OF that(1)] by simp
  have full: "meta_full ?t"
    unfolding meta_full_def
  proof (intro ballI impI)
    fix b assume b: "b \<in> set (blocks ?t)" "state b = BLK_META"
    then obtain i where i: "i < nb_blocks s" "b = blocks t ! i" using W(2) R(2) D(3) by (auto simp: in_set_conv_nth)
    with metaT b(2) obtain r where "r < ?n" "i = T r" by blast
    with W(3) i(2) ct(2) show "current_page_offset b = int (pages_per_block ?t)" by simp
  qed
  have owned: "meta_owned ?t"
    unfolding meta_owned_def
  proof (intro conjI ballI allI impI)
    show "length (meta_blkordr ?t) = nb_meta_blocks ?t" using R(3) ct by simp
  next
    fix x assume "x \<in> set (meta_blkordr ?t)"
    then obtain r where "r < ?n" "x = meta_blkordr u ! r" using R(3) ct by (auto simp: in_set_conv_nth)
    with R(5) [of r] W(3) [of r] ct show "x = - 1 \<or> (\<exists>i < nb_blocks ?t. x = int i \<and> state (blocks ?t ! i) = BLK_META)" by auto
  next
    fix i assume i: "i < nb_blocks ?t" "state (blocks ?t ! i) = BLK_META"
    then have "i < nb_blocks s" "state (blocks t ! i) = BLK_META" using ct by simp_all
    from metaT [OF this] obtain r where "r < ?n" "i = T r" by blast
    with R(5) [of r] have "int i = meta_blkordr u ! r" "r < length (meta_blkordr u)" using R(3) by simp_all
    then have "int i \<in> set (meta_blkordr u)" by simp
    then show "int i \<in> set (meta_blkordr ?t)" using ct(4) by simp
  qed
  have flu: "flushed K byte_at u ?t"
    unfolding flushed_def
  proof (rule exI [of _ buf], rule exI [of _ buffer], rule exI [of _ T], intro conjI allI impI)
    show "ranks_written byte_at buffer T (nb_meta_blocks ?t) 0 u (?t\<lparr>time_flush := time_flush u\<rparr>)"
    proof -
      have "t\<lparr>time_flush := time_flush u\<rparr> = t" using ct(6) by (cases t) simp
      then show ?thesis using t(3) ct(3) by simp
    qed
  qed (use b(1) R(3-5) off0 nm_u ct in \<open>auto\<close>)
  have cfg: "same_config s (?t\<lparr>time_flush := time_flush s, meta_blkordr := meta_blkordr s\<rparr>)"
  proof -
    have "same_config s (u\<lparr>time_flush := time_flush s, meta_blkordr := meta_blkordr s\<rparr>)"
      using a(3) by (subst R(1)) (simp add: same_config_def)
    then show ?thesis by (subst W(1)) (simp add: same_config_def)
  qed
  show ?thesis
    by (rule that [OF fl u(2) kvt flu full owned _ _ cfg]) (use cu ct in simp_all)
qed

end

end
