(* ===== verification/SerialProps.thy ===== *)
theory SerialProps
  imports SerialFlush
begin

text \<open>
  The properties of the second prototype.  \<open>store_ok\<close> collects what holds between two calls;
  loading a partition without metadata establishes it for the empty store, and as long as
  enough blocks are free every call keeps it for the map the calls describe.
\<close>

section \<open>Between two calls\<close>

definition store_ok :: "'m heap_kernel \<Rightarrow> ('m \<Rightarrow> nat \<Rightarrow> byte) \<Rightarrow> ('m \<Rightarrow> bool) \<Rightarrow> nat \<Rightarrow> (byte list \<rightharpoonup> byte list) \<Rightarrow> 'm lkp_kv_cfg \<Rightarrow> bool" where
  "store_ok K byte_at good fsize M s \<longleftrightarrow> kv_inv byte_at good fsize M s \<and> meta_full s \<and> meta_owned s \<and> metadata_fits s
     \<and> slack_ok K good s \<and> pages_per_block s \<le> page_size s
     \<and> (\<forall>k v. M k = Some v \<longrightarrow> 8 + length k + length v \<le> pages_per_block s)"

text \<open>
  What a call of \<open>set_keyval\<close> needs: a free block for the couple, free blocks for the metadata
  and one more, and erase counters that do not overflow.
\<close>

definition space_ok :: "'m lkp_kv_cfg \<Rightarrow> bool" where
  "space_ok s \<longleftrightarrow> nb_meta_blocks s + 1 < free_count s \<and> wear_below (2147483646 - int (nb_meta_blocks s)) s"

lemma meta_owned_cong:
  assumes "meta_same s t" "same_config s t" "length (blocks s) = nb_blocks s"
  shows "meta_owned t = meta_owned s"
proof -
  have c: "meta_blkordr t = meta_blkordr s" "nb_meta_blocks t = nb_meta_blocks s" "nb_blocks t = nb_blocks s"
    using assms(2) by (simp_all add: same_config_def)
  have "state (blocks t ! i) = BLK_META \<longleftrightarrow> state (blocks s ! i) = BLK_META" if "i < nb_blocks s" for i
    using assms(1,3) that unfolding meta_same_def by metis
  then show ?thesis unfolding meta_owned_def c by meson
qed

lemma metadata_cong:
  assumes "same_config s t"
  shows "metadata_fits t = metadata_fits s" "slack_ok K good t = slack_ok K good s"
  using assms by (simp_all add: same_config_def metadata_fits_def slack_ok_def)

lemma store_ok_cong:
  assumes ok: "store_ok K byte_at good fsize M s" and t: "meta_same s t" "same_config s t"
    and inv: "kv_inv byte_at good fsize M' t" and small: "\<forall>k v. M' k = Some v \<longrightarrow> 8 + length k + length v \<le> pages_per_block s"
  shows "store_ok K byte_at good fsize M' t"
proof -
  have q: "pages_per_block t = pages_per_block s" "page_size t = page_size s" using t(2) by (simp_all add: same_config_def)
  have len: "length (blocks s) = nb_blocks s" using ok kv_invD(3) unfolding store_ok_def by blast
  show ?thesis
    using ok inv small meta_same_full [OF t(1) q(1)] meta_owned_cong [OF t len] metadata_cong [OF t(2)] q
    unfolding store_ok_def by simp
qed

lemma wear_below_mono: "wear_below n s \<Longrightarrow> n \<le> n' \<Longrightarrow> wear_below n' s"
  by (force simp: wear_below_def)

context reliable_flash
begin

lemma gb_check_ok:
  assumes inv: "kv M s" and q: "pages_per_block s \<le> page_size s" and w: "wear_below 2147483646 s"
    and small: "\<forall>k v. M k = Some v \<longrightarrow> 8 + length k + length v \<le> pages_per_block s"
  obtains t where "gb_check K s = Ret t" "kv M t" "same_config s t" "meta_same s t" "free_count t = free_count s"
    "\<And>n. wear_below n s \<Longrightarrow> wear_below (n + 1) t"
proof (cases "list_ex (\<lambda>b. INVALID_THRESHOLD \<le> nb_invalid b) (blocks s)")
  case False
  then have "gb_check K s = Ret s" by (simp add: gb_check_def)
  then show ?thesis using that [of s] inv by (force simp: wear_below_def)
next
  case True
  note D = kv_invD [OF inv]
  from True have "find_target s \<noteq> None"
    unfolding find_target_def find_None_iff using D(3) by (auto simp: list_ex_length)
  then obtain tg where tg: "find_target s = Some tg" by blast
  have tl: "tg < length (blocks s)" using tg D(3) by (auto simp: find_target_def find_Some_iff)
  have w': "worn (blocks s ! tg) < 2147483646" using w tl by (simp add: wear_below_def)
  obtain t where t: "gc K s = Ret t" "kv M t" "same_config s t" "worn (blocks t ! tg) = worn (blocks s ! tg) + 1"
    "others tg s t" "meta_same s t" "free_count t = free_count s"
    using gc_ok [OF inv q tg w' small] by metis
  have "wear_below (n + 1) t" if n: "wear_below n s" for n
    unfolding wear_below_def all_set_conv_all_nth
  proof (intro allI impI)
    fix i assume "i < length (blocks t)"
    then have "i < length (blocks s)" using t(5) by (simp add: others_def)
    then have "worn (blocks s ! i) < n" using n by (simp add: wear_below_def)
    then show "worn (blocks t ! i) < n + 1" using t(4,5) by (cases "i = tg") (auto simp: others_def)
  qed
  with that [of t] t True show ?thesis by (simp add: gb_check_def)
qed

lemma set_keyval_ok:
  assumes ok: "store_ok K byte_at good fsize M s" and sp: "space_ok s"
    and k: "couple_ok (page_size s) (k, v)" "length k < KEY_MAX" "8 + length k + length v \<le> pages_per_block s"
  obtains t where "set_keyval K ts_write ts_flush k v s = Ret (0, t)" "store_ok K byte_at good fsize (M(k \<mapsto> v)) t"
proof -
  from ok have I: "kv M s" "meta_full s" "meta_owned s" "metadata_fits s" "slack_ok K good s" "pages_per_block s \<le> page_size s"
    "\<forall>k v. M k = Some v \<longrightarrow> 8 + length k + length v \<le> pages_per_block s"
    by (simp_all add: store_ok_def)
  note D = kv_invD [OF I(1)]
  have free: "0 < free_count s" using sp by (simp add: space_ok_def)
  have nro: "\<not> read_only u" if u: "kv N u" "0 < free_count u" for N u
  proof -
    obtain i where "i < nb_blocks u" "state (blocks u ! i) = BLK_FREE"
      using u(2) kv_invD(3) [OF u(1)] unfolding free_count_pos by (metis in_set_conv_nth)
    moreover from this have "blk_off u i = 0" using kv_invD(6) [OF u(1), of i] by (auto simp: blk_counts_ok_def)
    ultimately show ?thesis
      unfolding kv_inv_read_only [OF u(1)] using geometryD(2) [OF kv_invD(1) [OF u(1)]] by force
  qed
  obtain a where a: "kv (M(k \<mapsto> v)) a" "same_config s a" "meta_same s a" "free_count s \<le> free_count a + 1" "map worn (blocks a) = map worn (blocks s)"
    "set_keyval K ts_write ts_flush k v s =
       obind (gb_check K a) (\<lambda>s.
         let s = s\<lparr>time_write := clock ts_write\<rparr> in
         obind (if 1000000 \<le> time_write s - time_flush s
                then obind (flush_metadata K ts_flush s) (\<lambda>(_, s). Ret s) else Ret s) (\<lambda>s.
           Ret (if read_only a then - 3 else 0, s)))"
    by (rule set_keyval_writes [OF I(1) nro [OF I(1) free] k(1,2) I(2)])
  have small: "\<forall>k' v'. (M(k \<mapsto> v)) k' = Some v' \<longrightarrow> 8 + length k' + length v' \<le> pages_per_block s"
    using I(7) k(3) by auto
  have oka: "store_ok K byte_at good fsize (M(k \<mapsto> v)) a" by (rule store_ok_cong [OF ok a(3,2,1) small])
  have ca: "pages_per_block a = pages_per_block s" "page_size a = page_size s" "nb_meta_blocks a = nb_meta_blocks s"
    using a(2) by (simp_all add: same_config_def)
  have wa: "wear_below n a = wear_below n s" for n
    unfolding wear_below_def using arg_cong [OF a(5), of "\<lambda>xs. \<forall>x \<in> set xs. x < n"] by simp
  have wn: "wear_below (2147483646 - int (nb_meta_blocks s)) a" using sp wa by (simp add: space_ok_def)
  have w1: "wear_below 2147483646 a" by (rule wear_below_mono [OF wn]) simp
  obtain b where b: "gb_check K a = Ret b" "kv (M(k \<mapsto> v)) b" "same_config a b" "meta_same a b" "free_count b = free_count a"
    "\<And>n. wear_below n a \<Longrightarrow> wear_below (n + 1) b"
    using gb_check_ok [OF a(1) _ w1] I(6) small unfolding ca by metis
  let ?c = "b\<lparr>time_write := clock ts_write\<rparr>"
  have okb: "store_ok K byte_at good fsize (M(k \<mapsto> v)) b"
    by (rule store_ok_cong [OF oka b(4,3,2)]) (use small ca in simp)
  then have okc: "store_ok K byte_at good fsize (M(k \<mapsto> v)) ?c"
    by (simp add: store_ok_def kv_inv_def geometry_def erased_above_def entry_ok_def lists_ok_def is_read_only_def
        meta_full_def meta_owned_def metadata_fits_def slack_ok_def)
  have cb: "nb_meta_blocks ?c = nb_meta_blocks s" using b(3) ca by (simp add: same_config_def)
  have fr: "nb_meta_blocks ?c < free_count ?c"
    using sp a(4) b(5) cb by (simp add: space_ok_def free_count_def)
  have wc: "wear_below (2147483647 - int (nb_meta_blocks ?c)) ?c"
    using b(6) [OF wn] cb by (simp add: wear_below_def)
  have ra: "\<not> read_only a" using nro [OF a(1)] a(4) sp by (simp add: space_ok_def)
  show ?thesis
  proof (cases "1000000 \<le> time_write ?c - time_flush ?c")
    case False
    then have "set_keyval K ts_write ts_flush k v s = Ret (0, ?c)" using a(6) b(1) ra by simp
    with okc that show ?thesis by blast
  next
    case True
    from okc have C: "kv (M(k \<mapsto> v)) ?c" "meta_owned ?c" "metadata_fits ?c" "slack_ok K good ?c" by (simp_all add: store_ok_def)
    obtain t where t: "flush_metadata K ts_flush ?c = Ret (0, t)" "kv (M(k \<mapsto> v)) t" "meta_full t" "meta_owned t"
      "same_config ?c (t\<lparr>time_flush := time_flush ?c, meta_blkordr := meta_blkordr ?c\<rparr>)"
      using flush_ok [OF C wc fr] by metis
    have "store_ok K byte_at good fsize (M(k \<mapsto> v)) t"
      using okc t(2-5) metadata_cong [OF t(5)]
      by (simp add: store_ok_def same_config_def metadata_fits_def slack_ok_def)
    moreover have "set_keyval K ts_write ts_flush k v s = Ret (0, t)" using a(6) b(1) ra True t(1) by simp
    ultimately show ?thesis using that by blast
  qed
qed

lemma del_key_ok:
  assumes ok: "store_ok K byte_at good fsize M s"
  shows "(case M k of None \<Rightarrow> del_key k s = Ret (- 2, s)
     | Some v \<Rightarrow> \<exists>p < hash_size s. \<exists>t. del_key k s = Ret (int p, t) \<and> store_ok K byte_at good fsize (M(k := None)) t
                  \<and> flash t = flash s \<and> free_count t = free_count s)"
proof (cases "M k")
  case None
  from ok have inv: "kv M s" by (simp add: store_ok_def)
  with del_key_map [OF this, of k] None show ?thesis by simp
next
  case (Some v)
  from ok have inv: "kv M s" and small: "\<forall>k' v'. (M(k := None)) k' = Some v' \<longrightarrow> 8 + length k' + length v' \<le> pages_per_block s"
    by (simp_all add: store_ok_def)
  from del_key_map [OF inv, of k] Some obtain p t where t: "p < hash_size s" "del_key k s = Ret (int p, t)" "kv (M(k := None)) t"
    "same_config s t" "flash t = flash s" "meta_same s t" "free_count t = free_count s" by auto
  have "store_ok K byte_at good fsize (M(k := None)) t" by (rule store_ok_cong [OF ok t(6,4,3) small])
  with t(1,2,5,7) Some show ?thesis by (simp only: option.case) blast
qed

end

section \<open>After loading a blank partition\<close>

lemma metadata_fits_sizes:
  assumes "block_info_size t = block_info_size (set_meta_sizes t)" "hashtable_size t = hashtable_size (set_meta_sizes t)"
    "nb_meta_pages t = nb_meta_pages (set_meta_sizes t)" "0 < page_size t"
  shows "metadata_fits t"
proof -
  let ?x = "SIZEOF_BUCKET * nb_blocks t * pages_per_block t + SIZEOF_BLK_INFO * nb_blocks t"
  have "?x \<le> page_size t * (?x div page_size t + 1)"
    using dividend_less_times_div [of "page_size t" ?x] assms(4) by simp
  then show ?thesis
    using assms(1-3) by (simp add: metadata_fits_def set_meta_sizes_def Let_def mult.assoc)
qed

context reliable_flash
begin

lemma init_config_ok:
  assumes dev: "idx \<noteq> - 1" "k_get_mtd_device K idx = Some \<lparr>mtd_size = nb * (q * ps), mtd_erasesize = q * ps, mtd_writesize = ps\<rparr>"
    and dim: "0 < nb" "nb < 2147483648" "1 < q" "8 \<le> ps" "q * ps < 2147483648" "fsize = nb * q * ps" "fsize < 2 ^ 64"
    and gd: "good (flash s)" and no: "\<forall>i < nb. bytes_int (flash_page byte_at ps (flash s) (i * q)) \<noteq> META_HDR_BASE"
    and q: "q \<le> ps" and slack: "\<And>t :: 'm lkp_kv_cfg. nb_blocks t = nb \<Longrightarrow> pages_per_block t = q \<Longrightarrow> page_size t = ps \<Longrightarrow>
      slack_ok K good (set_meta_sizes t)"
  obtains t where "init_config K idx s = Ret (0, t)" "store_ok K byte_at good fsize Map.empty t" "nb_blocks t = nb" "pages_per_block t = q"
    "page_size t = ps" "free_count t = nb" "wear_below 1 t" "nb_meta_blocks t = nb_meta_blocks (set_meta_sizes t)"
proof -
  obtain t where t: "init_config K idx s = Ret (0, t)" "kv Map.empty t" "nb_blocks t = nb" "pages_per_block t = q" "page_size t = ps"
    "meta_blkordr t = replicate (nb_meta_blocks t) (- 1)" "\<And>b. b \<in> set (blocks t) \<Longrightarrow> state b = BLK_FREE \<and> worn b = 0"
    "block_info_size t = block_info_size (set_meta_sizes t)" "hashtable_size t = hashtable_size (set_meta_sizes t)"
    "nb_meta_pages t = nb_meta_pages (set_meta_sizes t)" "nb_meta_blocks t = nb_meta_blocks (set_meta_sizes t)"
    using init_config_blank [OF dev dim gd no] by blast
  have len: "length (blocks t) = nb" using kv_invD(3) [OF t(2)] t(3) by simp
  have fc: "free_count t = nb" using t(7) len by (simp add: free_count_def)
  have w: "wear_below 1 t" using t(7) by (simp add: wear_below_def)
  have "meta_owned t" using t(6,7) kv_invD(3) [OF t(2)] by (auto simp: meta_owned_def)
  moreover have "meta_full t" using t(7) by (auto simp: meta_full_def)
  moreover have "slack_ok K good t"
    using slack [OF t(3-5)] t(5,10,11) by (simp add: slack_ok_def set_meta_sizes_def Let_def)
  moreover have "metadata_fits t" by (rule metadata_fits_sizes [OF t(8-10)]) (use t(5) dim(4) in simp)
  ultimately have "store_ok K byte_at good fsize Map.empty t"
    using t(2,4,5) q by (simp add: store_ok_def)
  then show ?thesis using that [OF t(1) _ t(3-5) fc w t(11)] by blast
qed

end

section \<open>The erased partition after a load\<close>

lemma demo_blank: "i < 5 \<Longrightarrow> bytes_int (flash_page nandsim_byte 1024 demo_flash (i * 12)) \<noteq> META_HDR_BASE"
proof -
  assume i: "i < 5"
  have "flash_page nandsim_byte 1024 demo_flash (i * 12) = replicate 1024 255"
    by (rule nth_equalityI) (use i in \<open>auto simp: flash_page_def nandsim_byte_def demo_flash_def\<close>)
  then show ?thesis by (simp add: erased_page_int META_HDR_BASE_def)
qed

lemma demo_meta_sizes:
  assumes "nb_blocks t = 5" "pages_per_block t = 12" "page_size t = 1024"
  shows "slab_size (page_size t * nb_meta_pages (set_meta_sizes t)) = 16384" "nb_meta_blocks (set_meta_sizes t) = 1"
    "nb_meta_pages (set_meta_sizes t) = 10"
  using assms by (simp_all add: set_meta_sizes_def Let_def SIZEOF_BUCKET_def SIZEOF_BLK_INFO_def slab_size_def)


lemma heapsim_classes: "kmalloc_classes (heapsim nb bs ps) good" by (simp add: kmalloc_classes_def heapsim_def)

lemma demo_slack:
  assumes "nb_blocks t = 5" "pages_per_block t = 12" "page_size t = 1024"
  shows "slack_ok demo_K demo_good (set_meta_sizes t)"
proof -
  have "page_size (set_meta_sizes t) = 1024" "pages_per_block (set_meta_sizes t) = 12"
    using assms by (simp_all add: set_meta_sizes_def Let_def)
  then show ?thesis using demo_meta_sizes [OF assms] assms heapsim_classes by (simp add: slack_ok_def demo_K_def)
qed

lemma demo_loaded:
  obtains s where "init_config demo_K 0 (config0 demo_flash) = Ret (0, s)" "store_ok demo_K nandsim_byte demo_good 61440 Map.empty s"
    "pages_per_block s = 12" "page_size s = 1024" "space_ok s" "nb_blocks s = 5"
proof -
  have g: "length (flash (config0 demo_flash)) = 61440" by (simp add: config0_def demo_flash_def)
  have b: "\<forall>i < 5. bytes_int (flash_page nandsim_byte 1024 (flash (config0 demo_flash)) (i * 12)) \<noteq> META_HDR_BASE"
    using demo_blank by (simp add: config0_def)
  obtain s where s: "init_config demo_K 0 (config0 demo_flash) = Ret (0, s)" "store_ok demo_K nandsim_byte demo_good 61440 Map.empty s"
    "nb_blocks s = 5" "pages_per_block s = 12" "page_size s = 1024" "free_count s = 5" "wear_below 1 s" "nb_meta_blocks s = nb_meta_blocks (set_meta_sizes s)"
    by (rule reliable_flash.init_config_ok [OF demo_reliable _ demo_mtd _ _ _ _ _ _ _ g b])
       (simp_all add: demo_slack)
  have "nb_meta_blocks s = 1" using s(8) demo_meta_sizes(2) [OF s(3-5)] by simp
  then have "space_ok s" using s(6) wear_below_mono [OF s(7)] by (simp add: space_ok_def)
  with that s show ?thesis by blast
qed

section \<open>Properties\<close>

text \<open>
  Loading the module on a partition none of whose blocks starts with the magic number of
  metadata formats it and leaves a consistent, empty store.
\<close>

theorem serial_load_blank:
  assumes "reliable_flash K byte_at good fsize" and "idx \<noteq> - 1"
    and "k_get_mtd_device K idx = Some \<lparr>mtd_size = nb * (q * ps), mtd_erasesize = q * ps, mtd_writesize = ps\<rparr>"
    and "0 < nb" "nb < 2147483648" "1 < q" "8 \<le> ps" "q * ps < 2147483648" "fsize = nb * q * ps" "fsize < 2 ^ 64" "q \<le> ps"
    and "good (flash s)" and "\<forall>i < nb. bytes_int (flash_page byte_at ps (flash s) (i * q)) \<noteq> META_HDR_BASE"
    and "\<And>t :: 'm lkp_kv_cfg. nb_blocks t = nb \<Longrightarrow> pages_per_block t = q \<Longrightarrow> page_size t = ps \<Longrightarrow> slack_ok K good (set_meta_sizes t)"
  shows "\<exists>t. init_config K idx s = Ret (0, t) \<and> store_ok K byte_at good fsize Map.empty t \<and> free_count t = nb"
  using reliable_flash.init_config_ok [OF assms(1-10,12,13,11,14)] by blast

theorem serial_load_blank_witness:
  "\<exists>t. init_config demo_K 0 (config0 demo_flash) = Ret (0, t) \<and> store_ok demo_K nandsim_byte demo_good 61440 Map.empty t \<and> free_count t = 5"
  by (rule serial_load_blank [OF demo_reliable _ demo_mtd])
     (use demo_blank demo_slack in \<open>simp_all add: config0_def demo_flash_def\<close>)

text \<open>
  C1.  Serial store: \<open>set_keyval\<close> returns 0 and the store then represents the map updated at
  the key, through the garbage collection and the metadata flush the call may start, under these conditions:
  every couple, the new one included, takes with its 8 bytes of lengths no more bytes than a block has pages
  (the size of the collector's buffer), a block has no more pages than a page has bytes, the key is shorter
  than 128 bytes and the couple fits a page; more blocks are free than the metadata takes plus one, the
  erase counters are far enough from overflow, and the object \<open>kmalloc\<close> returns for the flush,
  rounded up to its size class, covers the pages that are read behind the part asked for
  (\<open>slack_ok\<close>).
\<close>

theorem serial_set_refines:
  assumes "reliable_flash K byte_at good fsize" and "store_ok K byte_at good fsize M s" and "space_ok s"
    and "couple_ok (page_size s) (k, v)" "length k < KEY_MAX" "8 + length k + length v \<le> pages_per_block s"
  shows "\<exists>t. set_keyval K ts_write ts_flush k v s = Ret (0, t) \<and> store_ok K byte_at good fsize (M(k \<mapsto> v)) t"
  using reliable_flash.set_keyval_ok [OF assms] by blast

theorem serial_set_refines_witness:
  "\<exists>s t. init_config demo_K 0 (config0 demo_flash) = Ret (0, s)
     \<and> set_keyval demo_K \<lparr>tv_sec = 5, tv_nsec = 0\<rparr> \<lparr>tv_sec = 5, tv_nsec = 7\<rparr> [107] [118, 49] s = Ret (0, t)
     \<and> store_ok demo_K nandsim_byte demo_good 61440 [[107] \<mapsto> [118, 49]] t"
proof -
  obtain s where s: "init_config demo_K 0 (config0 demo_flash) = Ret (0, s)" "store_ok demo_K nandsim_byte demo_good 61440 Map.empty s"
    "pages_per_block s = 12" "page_size s = 1024" "space_ok s" "nb_blocks s = 5"
    by (rule demo_loaded)
  have "\<exists>t. set_keyval demo_K \<lparr>tv_sec = 5, tv_nsec = 0\<rparr> \<lparr>tv_sec = 5, tv_nsec = 7\<rparr> [107] [118, 49] s = Ret (0, t)
     \<and> store_ok demo_K nandsim_byte demo_good 61440 [[107] \<mapsto> [118, 49]] t"
    by (rule serial_set_refines [OF demo_reliable s(2,5)]) (use s in \<open>simp_all add: couple_ok_def cstring_def KEY_MAX_def\<close>)
  with s(1) show ?thesis by blast
qed



text \<open>
  C3.  Serial store: under the conditions of \<open>set_keyval\<close> above (small couples, free blocks,
  \<open>slack_ok\<close>), a couple it stores is what \<open>get_keyval\<close> then returns, and after
  \<open>del_key\<close>, which returns its page, the key is gone.
\<close>

theorem serial_set_get_del:
  assumes "reliable_flash K byte_at good fsize" and "store_ok K byte_at good fsize M s" and "space_ok s"
    and "couple_ok (page_size s) (k, v)" "length k < KEY_MAX" "8 + length k + length v \<le> pages_per_block s"
  shows "\<exists>t p u. set_keyval K ts_write ts_flush k v s = Ret (0, t) \<and> get_keyval K k t = Ret (int p, Some v)
     \<and> del_key k t = Ret (int p, u) \<and> get_keyval K k u = Ret (- 1, None) \<and> store_ok K byte_at good fsize (M(k := None)) u"
proof -
  have ck: "cstring k" using assms(4) by (simp add: couple_ok_def)
  obtain t where t: "set_keyval K ts_write ts_flush k v s = Ret (0, t)" "store_ok K byte_at good fsize (M(k \<mapsto> v)) t"
    using reliable_flash.set_keyval_ok [OF assms] by blast
  have inv: "kv_inv byte_at good fsize (M(k \<mapsto> v)) t" using t(2) by (simp add: store_ok_def)
  from reliable_flash.get_keyval_map [OF assms(1) inv ck] obtain p where p: "get_keyval K k t = Ret (int p, Some v)" by auto
  from reliable_flash.del_key_ok [OF assms(1) t(2), of k] obtain p' u
    where u: "del_key k t = Ret (int p', u)" "store_ok K byte_at good fsize (M(k := None)) u" by auto
  have pp: "p' = p"
    using u(1) p by (auto simp: del_key_def get_keyval_def obind_eq_Ret Let_def split: if_splits prod.splits)
  have "kv_inv byte_at good fsize (M(k := None)) u" using u(2) by (simp add: store_ok_def)
  from reliable_flash.get_keyval_map [OF assms(1) this ck] have "get_keyval K k u = Ret (- 1, None)" by simp
  with t(1) p u pp show ?thesis by blast
qed

theorem serial_set_get_del_witness:
  "\<exists>s t p u. init_config demo_K 0 (config0 demo_flash) = Ret (0, s)
     \<and> set_keyval demo_K \<lparr>tv_sec = 5, tv_nsec = 0\<rparr> \<lparr>tv_sec = 5, tv_nsec = 7\<rparr> [107] [118] s = Ret (0, t)
     \<and> get_keyval demo_K [107] t = Ret (int p, Some [118]) \<and> del_key [107] t = Ret (int p, u) \<and> get_keyval demo_K [107] u = Ret (- 1, None)"
proof -
  obtain s where s: "init_config demo_K 0 (config0 demo_flash) = Ret (0, s)" "store_ok demo_K nandsim_byte demo_good 61440 Map.empty s"
    "pages_per_block s = 12" "page_size s = 1024" "space_ok s" "nb_blocks s = 5"
    by (rule demo_loaded)
  have "\<exists>t p u. set_keyval demo_K \<lparr>tv_sec = 5, tv_nsec = 0\<rparr> \<lparr>tv_sec = 5, tv_nsec = 7\<rparr> [107] [118] s = Ret (0, t)
     \<and> get_keyval demo_K [107] t = Ret (int p, Some [118]) \<and> del_key [107] t = Ret (int p, u) \<and> get_keyval demo_K [107] u = Ret (- 1, None)
     \<and> store_ok demo_K nandsim_byte demo_good 61440 (Map.empty([107] := None)) u"
    by (rule serial_set_get_del [OF demo_reliable s(2,5)]) (use s in \<open>simp_all add: couple_ok_def cstring_def KEY_MAX_def\<close>)
  with s(1) show ?thesis by blast
qed

end
