(* ===== verification/SerialLaws.thy ===== *)
theory SerialLaws
  imports SerialProps
begin

text \<open>
  The remaining properties of the second prototype: garbage collection and the metadata flush
  keep the map, wear levelling, the index as a map and where it fails, and the equivalence of
  the two indexes.
\<close>

section \<open>A block due for collection\<close>

text \<open>One block of 64 pages of 64 bytes: its header, one couple, 48 invalid pages.\<close>

definition gc_K :: "byte list heap_kernel" where "gc_K = heapsim 1 4096 64"

definition gc_state :: "nat \<Rightarrow> bucket list \<Rightarrow> byte list lkp_kv_cfg" where
  "gc_state h ht = (config0 gc_flash)\<lparr>nb_blocks := 1, block_size := 4096, page_size := 64, pages_per_block := 64,
     blocks := [\<lparr>valid_list = [h], state = BLK_USED, worn = 3, nb_invalid = 48, current_page_offset = 50\<rparr>],
     hashtable := ht\<rparr>"

abbreviation gc_good :: "byte list \<Rightarrow> bool" where "gc_good m \<equiv> length m = 4096"

lemma gc_reliable: "reliable_flash gc_K nandsim_byte gc_good 4096"
  using rs.reliable_flash_axioms [of 1 4096 64] by (simp add: gc_K_def)

lemma gc_state_ok:
  obtains h ht where "kv_inv nandsim_byte gc_good 4096 [[107] \<mapsto> [118]] (gc_state h ht)" "find_target (gc_state h ht) = Some 0"
proof -
  let ?e = "replicate 64 \<lparr>dirty = False, index = 0, key = [], p_state = PG_FREE\<rparr>"
  have e: "entry ?e h = None" for h by (simp add: entry_def)
  have ok: "index_ok 64 ?e" by (simp add: index_ok_def e)
  have "occupied ?e = {}" by (simp add: occupied_dom dom_def e)
  then have "index_room 64 ?e" by (simp add: index_room_def)
  from ht.add_absent [OF ok this, of "[107]" 1] obtain h ht
    where h: "index_ok 64 ht" "entry ht = (entry ?e)(h \<mapsto> ([107], 1))" by (auto simp: KEY_MAX_def e)
  have en: "entry ht h' = Some (k, q) \<longleftrightarrow> h' = h \<and> k = [107] \<and> q = 1" for h' k q using h(2) e by auto
  have "kv_inv nandsim_byte gc_good 4096 [[107] \<mapsto> [118]] (gc_state h ht)"
    unfolding kv_inv_def
  proof (intro conjI allI impI)
    show "geometry (gc_state h ht) 4096" by (simp add: geometry_def gc_state_def config0_def)
    show "gc_good (flash (gc_state h ht))" by (simp add: gc_state_def config0_def length_gc_flash)
    show "index_ok (hash_size (gc_state h ht)) (hashtable (gc_state h ht))" using h(1) by (simp add: gc_state_def)
    show "lists_ok (gc_state h ht)" using en by (auto simp: lists_ok_def gc_state_def)
    show "erased_above nandsim_byte (gc_state h ht) i" if "i < nb_blocks (gc_state h ht)" for i
      using that gc_pages(2) [of _ "[]"] by (simp add: erased_above_def gc_state_def config0_def)
    show "entry_ok nandsim_byte [[107] \<mapsto> [118]] (gc_state h ht) h' k q" if "entry (hashtable (gc_state h ht)) h' = Some (k, q)" for h' k q
    proof -
      have x: "h' = h" "k = [107]" "q = 1" using that en by (simp_all add: gc_state_def)
      show ?thesis unfolding entry_ok_def x
        by (rule exI [of _ 0], rule exI [of _ 1], rule exI [of _ "[118]"])
           (use gc_pages(1) [of "[]"] gc_couple_ok in \<open>simp add: gc_state_def config0_def gc_couple_def KEY_MAX_def\<close>)
    qed
  qed (use en in \<open>auto simp: gc_state_def blk_counts_ok_def config0_def is_read_only_def\<close>)
  moreover have "find_target (gc_state h ht) = Some 0"
    by (simp add: find_target_def gc_state_def INVALID_THRESHOLD_def)
  ultimately show ?thesis using that by blast
qed

section \<open>Properties\<close>

text \<open>
  C4.  Serial store: if every couple takes with its 8 bytes of lengths no more bytes than a block has pages,
  a block has no more pages than a page has bytes, and the erase counter of the target does not overflow, a
  garbage collection that finds a target (a block with at least 48 invalid pages) keeps the map: the block
  is erased once and holds, behind its header, exactly its valid couples, and no other block changes.
\<close>

theorem serial_gc_preserves:
  assumes "reliable_flash K byte_at good fsize" and "kv_inv byte_at good fsize M s" and "pages_per_block s \<le> page_size s"
    and "find_target s = Some tg" and "worn (blocks s ! tg) < 2147483646"
    and "\<forall>k v. M k = Some v \<longrightarrow> 8 + length k + length v \<le> pages_per_block s"
  shows "\<exists>t. gc K s = Ret t \<and> kv_inv byte_at good fsize M t \<and> nb_invalid (blocks t ! tg) = 0
     \<and> worn (blocks t ! tg) = worn (blocks s ! tg) + 1
     \<and> current_page_offset (blocks t ! tg) = 1 + int (length (valid_list (blocks s ! tg)))
     \<and> (\<forall>i < nb_blocks s. i \<noteq> tg \<longrightarrow> blocks t ! i = blocks s ! i)"
proof -
  have n: "length (blocks s) = nb_blocks s" using kv_invD(3) [OF assms(2)] .
  obtain t where t: "gc K s = Ret t" "kv_inv byte_at good fsize M t" "nb_invalid (blocks t ! tg) = 0"
    "worn (blocks t ! tg) = worn (blocks s ! tg) + 1" "blk_off t tg = 1 + int (length (valid_list (blocks s ! tg)))" "others tg s t"
    using reliable_flash.gc_ok [OF assms] by metis
  then have "\<forall>i < nb_blocks s. i \<noteq> tg \<longrightarrow> blocks t ! i = blocks s ! i" using n by (auto simp: others_def)
  with t(1-5) show ?thesis by blast
qed

theorem serial_gc_preserves_witness:
  "\<exists>h ht t. gc gc_K (gc_state h ht) = Ret t \<and> kv_inv nandsim_byte gc_good 4096 [[107] \<mapsto> [118]] t
     \<and> nb_invalid (blocks t ! 0) = 0 \<and> worn (blocks t ! 0) = 4 \<and> current_page_offset (blocks t ! 0) = 2"
proof -
  obtain h ht where s: "kv_inv nandsim_byte gc_good 4096 [[107] \<mapsto> [118]] (gc_state h ht)" "find_target (gc_state h ht) = Some 0"
    by (rule gc_state_ok)
  have "\<exists>t. gc gc_K (gc_state h ht) = Ret t \<and> kv_inv nandsim_byte gc_good 4096 [[107] \<mapsto> [118]] t \<and> nb_invalid (blocks t ! 0) = 0
     \<and> worn (blocks t ! 0) = worn (blocks (gc_state h ht) ! 0) + 1
     \<and> current_page_offset (blocks t ! 0) = 1 + int (length (valid_list (blocks (gc_state h ht) ! 0)))
     \<and> (\<forall>i < nb_blocks (gc_state h ht). i \<noteq> 0 \<longrightarrow> blocks t ! i = blocks (gc_state h ht) ! i)"
    by (rule serial_gc_preserves [OF gc_reliable s(1) _ s(2)]) (auto simp: gc_state_def)
  then show ?thesis by (auto simp: gc_state_def)
qed

text \<open>
  C5.  Serial store: with more free blocks than metadata blocks, erase counters far enough from overflow,
  and a \<open>kmalloc\<close> object that, rounded up to its size class, covers the pages the flush reads
  behind the part it asked for (\<open>slack_ok\<close>), \<open>flush_metadata\<close> returns 0, keeps the
  map whatever the size of the couples, leaves exactly the blocks of \<open>meta_blkordr\<close> as full
  metadata blocks, and records its time; what \<open>store_ok\<close> says of the store beyond this is kept
  as well.
\<close>

theorem serial_flush_preserves:
  assumes "reliable_flash K byte_at good fsize" and "kv_inv byte_at good fsize M s" and "meta_owned s" and "metadata_fits s" and "slack_ok K good s"
    and "wear_below (2147483647 - int (nb_meta_blocks s)) s" and "nb_meta_blocks s < free_count s"
  shows "\<exists>t. flush_metadata K ts s = Ret (0, t) \<and> kv_inv byte_at good fsize M t \<and> meta_full t \<and> meta_owned t \<and> time_flush t = clock ts
     \<and> hashtable t = hashtable s \<and> (store_ok K byte_at good fsize M s \<longrightarrow> store_ok K byte_at good fsize M t)"
proof -
  obtain t where t: "flush_metadata K ts s = Ret (0, t)" "kv_inv byte_at good fsize M t" "meta_full t" "meta_owned t"
    "time_flush t = clock ts" "hashtable t = hashtable s" "same_config s (t\<lparr>time_flush := time_flush s, meta_blkordr := meta_blkordr s\<rparr>)"
    using reliable_flash.flush_ok [OF assms] by metis
  have "store_ok K byte_at good fsize M t" if "store_ok K byte_at good fsize M s"
    using that t(2-4,7) metadata_cong [OF t(7)]
    by (simp add: store_ok_def same_config_def metadata_fits_def slack_ok_def)
  with t show ?thesis by blast
qed

theorem serial_flush_preserves_witness:
  "\<exists>s t. init_config demo_K 0 (config0 demo_flash) = Ret (0, s)
     \<and> flush_metadata demo_K \<lparr>tv_sec = 2, tv_nsec = 9\<rparr> s = Ret (0, t) \<and> time_flush t = 2000009
     \<and> store_ok demo_K nandsim_byte demo_good 61440 Map.empty t"
proof -
  obtain s where s: "init_config demo_K 0 (config0 demo_flash) = Ret (0, s)" "store_ok demo_K nandsim_byte demo_good 61440 Map.empty s"
    "pages_per_block s = 12" "page_size s = 1024" "space_ok s" "nb_blocks s = 5"
    by (rule demo_loaded)
  have w: "wear_below (2147483647 - int (nb_meta_blocks s)) s" "nb_meta_blocks s < free_count s"
    using s(5) wear_below_mono [of "2147483646 - int (nb_meta_blocks s)" s] by (simp_all add: space_ok_def)
  have f: "kv_inv nandsim_byte demo_good 61440 Map.empty s" "meta_owned s" "metadata_fits s" "slack_ok demo_K demo_good s"
    using s(2) by (simp_all add: store_ok_def)
  from serial_flush_preserves [OF demo_reliable f w, of "\<lparr>tv_sec = 2, tv_nsec = 9\<rparr>"] s(1,2) show ?thesis
    by (auto simp: clock_def)
qed

text \<open>
  C28.  Wear levelling: the block chosen for the next page is the first of the least worn among
  the blocks with room that are not being emptied, and -1 exactly when there is none.
\<close>

theorem serial_wear_levelling:
  fixes s :: "'m lkp_kv_cfg"
  assumes "\<forall>b \<in> set (blocks s). worn b < 2147483647"
  defines "usable \<equiv> \<lambda>b. state b \<noteq> BLK_INVALID \<and> current_page_offset b < int (pages_per_block s)"
  shows "if \<exists>b \<in> set (blocks s). usable b
    then \<exists>i < length (blocks s). get_healthy_block s = int i \<and> usable (blocks s ! i)
      \<and> (\<forall>j < length (blocks s). usable (blocks s ! j) \<longrightarrow> worn (blocks s ! i) \<le> worn (blocks s ! j))
      \<and> (\<forall>j < i. usable (blocks s ! j) \<longrightarrow> worn (blocks s ! i) < worn (blocks s ! j))
    else get_healthy_block s = - 1"
  unfolding get_healthy_block_def usable_def by (rule least_worn_spec [OF assms(1)])

theorem serial_wear_levelling_witness:
  "get_healthy_block (gc_state 0 []) = 0"
  using serial_wear_levelling [of "gc_state 0 []"] by (simp add: gc_state_def)

text \<open>
  C22.  The open-addressing table is a map: inserting an absent key into a table with room
  succeeds and changes the answer of later searches for that key only.
\<close>

theorem index_add_refines:
  assumes "index_ok n ht" and "index_room n ht" and "length k < KEY_MAX" and "ht.lookup n ht k = None"
  shows "\<exists>h ht'. hash_add n ht k i = Ret (int h, ht') \<and> index_ok n ht' \<and> ht.lookup n ht' = (ht.lookup n ht)(k \<mapsto> i)
     \<and> hash_search n ht' k = Ret (int h)"
proof -
  have none: "\<forall>h i. entry ht h \<noteq> Some (k, i)" using assms(4) by (simp add: ht.lookup_None [OF assms(1)])
  from ht.add_absent [OF assms(1-3) none, of i] obtain h ht'
    where h: "hash_add n ht k i = Ret (int h, ht')" "index_ok n ht'" "entry ht' = (entry ht)(h \<mapsto> (k, i))" by blast
  have "hash_search n ht' k = Ret (int h)" by (rule ht.search_present [OF h(2)]) (simp add: h(3))
  with h(1) ht.lookup_add [OF assms h(1)] show ?thesis by blast
qed

definition empty_index :: "nat \<Rightarrow> bucket list" where
  "empty_index n = replicate n \<lparr>dirty = False, index = 0, key = [], p_state = PG_FREE\<rparr>"

lemma empty_index_ok:
  assumes "2 \<le> n"
  shows "index_ok n (empty_index n)" "index_room n (empty_index n)" "ht.lookup n (empty_index n) k = None"
proof -
  have e: "entry (empty_index n) h = None" for h by (simp add: entry_def empty_index_def)
  then show ok: "index_ok n (empty_index n)" using assms by (simp add: index_ok_def empty_index_def)
  have "occupied (empty_index n) = {}" by (simp add: occupied_dom dom_def e)
  then show "index_room n (empty_index n)" using assms by (simp add: index_room_def)
  show "ht.lookup n (empty_index n) k = None" by (simp add: ht.lookup_None [OF ok] e)
qed

theorem index_add_refines_witness:
  "\<exists>h ht'. hash_add 8 (empty_index 8) [107] 5 = Ret (int h, ht') \<and> ht.lookup 8 ht' [107] = Some 5 \<and> hash_search 8 ht' [107] = Ret (int h)"
  using index_add_refines [of 8 "empty_index 8" "[107]" 5] empty_index_ok [of 8] by (auto simp: KEY_MAX_def)

text \<open>
  C35.  The loops of the two hash tables, each translated from its own file, do the same: searches
  always, and insertions of keys of fewer than 88 bytes.  An insertion of a longer key that the
  serial table stores overflows the bucket of the parallel one.
\<close>

theorem index_parallel_equiv:
  shows "par_hash_search n ht k = hash_search n ht k
     \<and> (length k < PAR_KEY_MAX \<longrightarrow> par_hash_add (Suc q) n ht k i = hash_add n ht k i)
     \<and> (PAR_KEY_MAX \<le> length k \<and> hash_add n ht k i = Ret (r, ht') \<and> 0 \<le> r \<longrightarrow> par_hash_add (Suc q) n ht k i = Fault)"
  using par_add_eq par_search_eq par_add_long by blast

theorem index_parallel_equiv_witness:
  "par_hash_add 64 8 (empty_index 8) [107] 5 = hash_add 8 (empty_index 8) [107] 5
   \<and> par_hash_add 64 8 (empty_index 8) (replicate 100 107) 5 = Fault"
proof -
  have "length (replicate 100 107 :: byte list) < KEY_MAX" "\<forall>h i. entry (empty_index 8) h \<noteq> Some (replicate 100 107, i)"
    by (simp_all add: KEY_MAX_def entry_def empty_index_def)
  from ht.add_absent [OF empty_index_ok(1,2) this, of 5]
  obtain h t where "hash_add 8 (empty_index 8) (replicate 100 107) 5 = Ret (int h, t)" by fastforce
  with index_parallel_equiv [of 8 "empty_index 8" "replicate 100 107" 63 5 "int h" t]
    index_parallel_equiv [of 8 "empty_index 8" "[107]" 63 5] show ?thesis by (simp add: PAR_KEY_MAX_def)
qed

text \<open>
  C36.  A search makes one probe less than an insertion: a key that an insertion puts into the
  last bucket of its probe sequence is in the table and is not found.
\<close>

theorem index_last_bucket_lost:
  assumes "length ht = n" "0 < n" and "p_state (ht ! slot n k (n - 1)) = PG_FREE"
    and "\<forall>d < n - 1. p_state (ht ! slot n k d) \<noteq> PG_FREE \<and> key (ht ! slot n k d) \<noteq> k" and "length k < KEY_MAX"
  shows "\<exists>ht'. hash_add n ht k i = Ret (int (slot n k (n - 1)), ht') \<and> entry ht' (slot n k (n - 1)) = Some (k, i)
     \<and> hash_search n ht' k = Ret (- 1)"
  by (rule last_bucket_lost [OF assms])

definition crowded :: "bucket list" where
  "crowded = (empty_index 3)[2 := \<lparr>dirty = False, index = 7, key = [97], p_state = PG_VALID\<rparr>,
     0 := \<lparr>dirty = False, index = 8, key = [98], p_state = PG_VALID\<rparr>]"

lemma crowded_home: "slot 3 [107] 0 = 2" "slot 3 [107] 1 = 0" "slot 3 [107] 2 = 1"
  by (simp_all add: slot_def hash_def)

theorem index_last_bucket_lost_witness:
  "\<exists>ht'. hash_add 3 crowded [107] 5 = Ret (1, ht') \<and> entry ht' 1 = Some ([107], 5) \<and> hash_search 3 ht' [107] = Ret (- 1)"
proof -
  have n: "length crowded = 3" by (simp add: crowded_def empty_index_def)
  have free: "p_state (crowded ! slot 3 [107] (3 - 1)) = PG_FREE"
    using crowded_home(3) by (simp add: crowded_def empty_index_def numeral_eq_Suc)
  have "d = 0 \<or> d = 1" if "d < 3 - 1" for d :: nat using that by auto
  then have "\<forall>d < 3 - 1. p_state (crowded ! slot 3 [107] d) \<noteq> PG_FREE \<and> key (crowded ! slot 3 [107] d) \<noteq> [107]"
    using crowded_home(1,2) by (fastforce simp: crowded_def empty_index_def)
  from index_last_bucket_lost [OF n _ free this, of 5] crowded_home(3) show ?thesis by (simp add: KEY_MAX_def)
qed

text \<open>
  The key of a bucket has 128 bytes: inserting a longer key, which \<open>set_keyval\<close> accepts
  whenever the couple fits a page, writes past the end of the bucket.
\<close>

theorem index_long_key_overflows:
  assumes "index_ok n ht" and "index_room n ht" and "KEY_MAX \<le> length k"
  shows "hash_add n ht k i = Fault"
  by (rule add_long_key [OF assms])

theorem index_long_key_overflows_witness: "hash_add 8 (empty_index 8) (replicate 128 107) 5 = Fault"
  by (rule index_long_key_overflows) (simp_all add: empty_index_ok KEY_MAX_def)

end
