(* ===== verification/SerialDevice.thy ===== *)
theory SerialDevice
  imports SerialProps UserSpace
begin

text \<open>
  The second prototype behind its device file (\<open>p6/prototype-serial/kernel/device.c\<close>), loading
  and unloading of the module (\<open>core.c\<close>), and its library (\<open>user/kvlib.c\<close>).  The contract of the
  library is interpreted on the store for every reliable flash.
\<close>

definition serial_ioctl :: "'m heap_kernel \<Rightarrow> timespec \<Rightarrow> timespec \<Rightarrow> 'm lkp_kv_cfg ioctl" where
  "serial_ioctl K ts_write ts_flush req d =
     (case req of
        IOCTL_FORMAT arg \<Rightarrow>
          obind (format K (core d)) (\<lambda>(ret, s). Ret (0, IOCTL_FORMAT (map_option (\<lambda>_. ret) arg), d\<lparr>core := s\<rparr>))
      | IOCTL_SET kv \<Rightarrow>
          obind (ioctl_set (\<lambda>n. k_kmalloc K (flash (core d)) n \<noteq> None) (set_keyval K ts_write ts_flush) kv (core d))
            (\<lambda>(kv, s). Ret (0, IOCTL_SET kv, d\<lparr>core := s\<rparr>))
      | IOCTL_GET kv \<Rightarrow>
          obind (ioctl_get (\<lambda>n. k_kmalloc K (flash (core d)) n \<noteq> None) (page_size (core d)) (get_keyval K) kv (core d))
            (\<lambda>kv. Ret (0, IOCTL_GET kv, d))
      | IOCTL_DEL kv \<Rightarrow>
          obind (ioctl_del (\<lambda>n. k_kmalloc K (flash (core d)) n \<noteq> None) del_key kv (core d))
            (\<lambda>(kv, s). Ret (0, IOCTL_DEL kv, d\<lparr>core := s\<rparr>))
      | IOCTL_GC \<Rightarrow> obind (gc K (core d)) (\<lambda>s. Ret (0, IOCTL_GC, d\<lparr>core := s\<rparr>))
      | IOCTL_PRINT \<Rightarrow> Ret (0, IOCTL_PRINT, d)
      | IOCTL_OTHER \<Rightarrow> Ret (- 8, IOCTL_OTHER, d))"

definition serial_device_init :: "'m heap_kernel \<Rightarrow> 'm lkp_kv_cfg device \<Rightarrow> int \<times> 'm lkp_kv_cfg device" where
  "serial_device_init K d =
     (let d = d\<lparr>file_is_open := False\<rparr> in
      if k_register_chrdev K (flash (core d)) < 0 then (- 1, d) else (0, d))"

definition serial_lkp_kv_init :: "'m heap_kernel \<Rightarrow> int \<Rightarrow> 'm lkp_kv_cfg device \<Rightarrow> (int \<times> 'm lkp_kv_cfg device) outcome" where
  "serial_lkp_kv_init K MTD_INDEX d =
     obind (init_config K MTD_INDEX (core d)) (\<lambda>(r, s).
       let d = d\<lparr>core := s\<rparr> in
       if r \<noteq> 0 then Ret (- 1, d)
       else case serial_device_init K d of (r, d) \<Rightarrow> if r \<noteq> 0 then Ret (- 2, d) else Ret (0, d))"

definition serial_lkp_kv_exit :: "'m heap_kernel \<Rightarrow> timespec \<Rightarrow> 'm lkp_kv_cfg device \<Rightarrow> 'm lkp_kv_cfg device outcome" where
  "serial_lkp_kv_exit K ts_flush d =
     obind (flush_metadata K ts_flush (core d)) (\<lambda>(_, s). Ret (d\<lparr>core := destroy_config s\<rparr>))"

definition serial_kvlib_format :: "'m heap_kernel \<Rightarrow> timespec \<Rightarrow> timespec \<Rightarrow> int \<Rightarrow> 'm lkp_kv_cfg device \<Rightarrow> (int \<times> 'm lkp_kv_cfg device) outcome" where
  "serial_kvlib_format K ts_write ts_flush = kvlib_format (serial_ioctl K ts_write ts_flush)"

definition serial_kvlib_set :: "'m heap_kernel \<Rightarrow> timespec \<Rightarrow> timespec \<Rightarrow> byte list \<Rightarrow> byte list \<Rightarrow> 'm lkp_kv_cfg device
    \<Rightarrow> (int \<times> 'm lkp_kv_cfg device) outcome" where
  "serial_kvlib_set K ts_write ts_flush = kvlib_set (serial_ioctl K ts_write ts_flush)"

text \<open>The answer is received in an object of 2049 bytes.\<close>

definition serial_kvlib_get :: "'m heap_kernel \<Rightarrow> timespec \<Rightarrow> timespec \<Rightarrow> (nat \<Rightarrow> byte list) \<Rightarrow> byte list \<Rightarrow> byte list \<Rightarrow> 'm lkp_kv_cfg device
    \<Rightarrow> (int \<times> byte list \<times> 'm lkp_kv_cfg device) outcome" where
  "serial_kvlib_get K ts_write ts_flush heap = kvlib_get (serial_ioctl K ts_write ts_flush) heap (\<lambda>_. Ret 2049)"

definition serial_kvlib_del :: "'m heap_kernel \<Rightarrow> timespec \<Rightarrow> timespec \<Rightarrow> byte list \<Rightarrow> 'm lkp_kv_cfg device
    \<Rightarrow> (int \<times> 'm lkp_kv_cfg device) outcome" where
  "serial_kvlib_del K ts_write ts_flush = kvlib_del (serial_ioctl K ts_write ts_flush)"

definition serial_kvlib_gc :: "'m heap_kernel \<Rightarrow> timespec \<Rightarrow> timespec \<Rightarrow> 'm lkp_kv_cfg device \<Rightarrow> 'm lkp_kv_cfg device outcome" where
  "serial_kvlib_gc K ts_write ts_flush = kvlib_gc (serial_ioctl K ts_write ts_flush)"

definition serial_kvlib_print :: "'m heap_kernel \<Rightarrow> timespec \<Rightarrow> timespec \<Rightarrow> 'm lkp_kv_cfg device \<Rightarrow> (int \<times> 'm lkp_kv_cfg device) outcome" where
  "serial_kvlib_print K ts_write ts_flush = kvlib_print (serial_ioctl K ts_write ts_flush)"

section \<open>The store keeps the contract of the library\<close>

definition room_for :: "byte list \<Rightarrow> byte list \<Rightarrow> 'm lkp_kv_cfg \<Rightarrow> bool" where
  "room_for k v s \<longleftrightarrow> space_ok s \<and> couple_ok (page_size s) (k, v) \<and> length k < KEY_MAX \<and> 8 + length k + length v \<le> pages_per_block s"

lemma store_strings: "store_ok K byte_at good fsize M s \<Longrightarrow> M k = Some v \<Longrightarrow> cstring v"
  unfolding store_ok_def kv_inv_def entry_ok_def couple_ok_def by (metis domI option.inject prod.sel(2))

sublocale reliable_flash \<subseteq> km: kv_module "serial_ioctl K ts_write ts_flush" "set_keyval K ts_write ts_flush" "get_keyval K" del_key
  "store_ok K byte_at good fsize" room_for "\<lambda>s n. k_kmalloc K (flash s) n \<noteq> None" page_size "- 2"
proof (unfold_locales, goal_cases)
  case (4 M s n)
  then have "good (flash s)" by (simp add: store_ok_def kv_inv_def)
  from kmalloc_ok [OF this, of n] show ?case by auto
next
  case (5 M s k v)
  then show ?case by (rule store_strings)
next
  case (6 M s k v)
  then have r: "space_ok s" "couple_ok (page_size s) (k, v)" "length k < KEY_MAX" "8 + length k + length v \<le> pages_per_block s"
    by (simp_all add: room_for_def)
  from set_keyval_ok [OF 6(1) r] show ?case using r(2) by (metis couple_ok_def prod.sel)
next
  case (7 M s k)
  then have "kv M s" by (simp add: store_ok_def)
  from get_keyval_map [OF this 7(2)] show ?case by (auto split: option.splits)
next
  case (8 M s k)
  from del_key_ok [OF 8(1), of k] show ?case by (auto split: option.splits)
qed (simp_all add: serial_ioctl_def)

context reliable_flash
begin

lemma serial_kv_module: "kv_module (serial_ioctl K ts_write ts_flush) (set_keyval K ts_write ts_flush) (get_keyval K) del_key
    (store_ok K byte_at good fsize) room_for (\<lambda>s n. k_kmalloc K (flash s) n \<noteq> None) page_size (- 2)"
  by (rule km.kv_module_axioms)

end

lemmas library_set = kv_module.kvlib_set_ok [OF reliable_flash.serial_kv_module]
  and library_get = kv_module.kvlib_get_present [OF reliable_flash.serial_kv_module]
  and library_get_absent = kv_module.kvlib_get_absent [OF reliable_flash.serial_kv_module]
  and library_del = kv_module.kvlib_del_ok [OF reliable_flash.serial_kv_module]

section \<open>Properties\<close>

text \<open>
  C14.  Serial prototype, through library, device and store, under the conditions of
  \<open>set_keyval\<close> (small couples, free blocks, \<open>slack_ok\<close>) and with the buffers of
  caller and library longer than the value, and the caller's longer than the string the library's fresh
  buffer happens to hold: \<open>kvlib_set\<close> returns 0, \<open>kvlib_get\<close> then writes the value
  to the caller's buffer and returns 0, \<open>kvlib_del\<close> returns 0, and \<open>kvlib_get\<close>
  then returns -3; the device is closed at the end.
\<close>

theorem serial_library_roundtrip:
  assumes "reliable_flash K byte_at good fsize" and "\<not> file_is_open d" and "store_ok K byte_at good fsize M (core d)"
    and "room_for k v (core d)" and "length v < length val" "length v < length (heap 2049)" and "mem_string (heap 2049) = Ret x" "length x < length val"
  shows "\<exists>e f val'. serial_kvlib_set K tw tf k v d = Ret (0, e)
     \<and> serial_kvlib_get K tw tf heap k val e = Ret (0, v @ 0 # drop (Suc (length v)) val, e)
     \<and> serial_kvlib_del K tw tf k e = Ret (0, f) \<and> serial_kvlib_get K tw tf heap k val f = Ret (- 3, val', f)
     \<and> \<not> file_is_open f \<and> store_ok K byte_at good fsize (M(k := None)) (core f)"
proof -
  note K = assms(1)
  have ck: "cstring k" using assms(4) by (simp add: room_for_def couple_ok_def)
  obtain t where t: "kvlib_set (serial_ioctl K tw tf) k v d = Ret (0, d\<lparr>core := t\<rparr>)" "store_ok K byte_at good fsize (M(k \<mapsto> v)) t"
    using library_set [OF K assms(2-4)] by blast
  let ?e = "d\<lparr>core := t\<rparr>"
  have e: "\<not> file_is_open ?e" "store_ok K byte_at good fsize (M(k \<mapsto> v)) (core ?e)" using assms(2) t(2) by simp_all
  have g: "kvlib_get (serial_ioctl K tw tf) heap (\<lambda>_. Ret 2049) k val ?e = Ret (0, v @ 0 # drop (Suc (length v)) val, ?e)"
    by (rule library_get [OF K e ck]) (use assms(5,6) in simp_all)
  obtain u where u: "kvlib_del (serial_ioctl K tw tf) k ?e = Ret (0, ?e\<lparr>core := u\<rparr>)" "store_ok K byte_at good fsize (M(k := None)) u"
    using library_del [OF K e ck, of tw tf] by auto
  let ?f = "?e\<lparr>core := u\<rparr>"
  have f: "\<not> file_is_open ?f" "store_ok K byte_at good fsize (M(k := None)) (core ?f)" using assms(2) u(2) by simp_all
  obtain val' where "kvlib_get (serial_ioctl K tw tf) heap (\<lambda>_. Ret 2049) k val ?f = Ret (- 3, val', ?f)"
    using library_get_absent [OF K f ck, of "\<lambda>_. Ret 2049" val 2049 heap x tw tf] assms(7,8) by auto
  with t(1) g u(1) f show ?thesis
    unfolding serial_kvlib_set_def serial_kvlib_get_def serial_kvlib_del_def by blast
qed

theorem serial_library_roundtrip_witness:
  "\<exists>s e f. init_config demo_K 0 (config0 demo_flash) = Ret (0, s)
     \<and> serial_kvlib_set demo_K \<lparr>tv_sec = 5, tv_nsec = 0\<rparr> \<lparr>tv_sec = 5, tv_nsec = 7\<rparr> [107] [118] \<lparr>file_is_open = False, core = s\<rparr> = Ret (0, e)
     \<and> serial_kvlib_get demo_K \<lparr>tv_sec = 5, tv_nsec = 0\<rparr> \<lparr>tv_sec = 5, tv_nsec = 7\<rparr> (\<lambda>n. replicate n 0) [107] (replicate 8 1) e
         = Ret (0, [118, 0, 1, 1, 1, 1, 1, 1], e)
     \<and> serial_kvlib_del demo_K \<lparr>tv_sec = 5, tv_nsec = 0\<rparr> \<lparr>tv_sec = 5, tv_nsec = 7\<rparr> [107] e = Ret (0, f)"
proof -
  obtain s where s: "init_config demo_K 0 (config0 demo_flash) = Ret (0, s)"
    "store_ok demo_K nandsim_byte demo_good 61440 Map.empty s" "pages_per_block s = 12" "page_size s = 1024" "space_ok s" "nb_blocks s = 5"
    by (rule demo_loaded)
  have r: "room_for [107] [118] (core \<lparr>file_is_open = False, core = s\<rparr>)"
    using s by (simp add: room_for_def couple_ok_def cstring_def KEY_MAX_def)
  have c: "\<not> file_is_open \<lparr>file_is_open = False, core = s\<rparr>"
    "store_ok demo_K nandsim_byte demo_good 61440 Map.empty (core \<lparr>file_is_open = False, core = s\<rparr>)" using s by simp_all
  have h: "mem_string (replicate 2049 (0 :: byte)) = Ret []" by (simp add: mem_string_def)
  have v: "[118] @ 0 # drop (Suc (length [118 :: byte])) (replicate 8 1) = ([118, 0, 1, 1, 1, 1, 1, 1] :: byte list)"
    by (simp add: numeral_eq_Suc)
  from serial_library_roundtrip [OF demo_reliable c r, of "replicate 8 1" "\<lambda>n. replicate n 0" "[]"
      "\<lparr>tv_sec = 5, tv_nsec = 0\<rparr>" "\<lparr>tv_sec = 5, tv_nsec = 7\<rparr>"] s(1) h v
  show ?thesis by auto
qed

text \<open>
  Deleting a key that is not in the store makes the library report -4, the code it
  documents for a flash read error, because \<open>del_key\<close> answers an absent key with -2.
\<close>

theorem serial_library_del_absent:
  assumes "reliable_flash K byte_at good fsize" and "\<not> file_is_open d" and "store_ok K byte_at good fsize M (core d)"
    and "cstring k" and "M k = None"
  shows "serial_kvlib_del K tw tf k d = Ret (- 4, d)"
  using library_del [OF assms(1-4), of tw tf] assms(5) by (simp add: serial_kvlib_del_def get_code_def)

theorem serial_library_del_absent_witness:
  "\<exists>s. init_config demo_K 0 (config0 demo_flash) = Ret (0, s)
     \<and> serial_kvlib_del demo_K \<lparr>tv_sec = 5, tv_nsec = 0\<rparr> \<lparr>tv_sec = 5, tv_nsec = 7\<rparr> [107] \<lparr>file_is_open = False, core = s\<rparr>
         = Ret (- 4, \<lparr>file_is_open = False, core = s\<rparr>)"
proof -
  obtain s where s: "init_config demo_K 0 (config0 demo_flash) = Ret (0, s)"
    "store_ok demo_K nandsim_byte demo_good 61440 Map.empty s" by (rule demo_loaded)
  from serial_library_del_absent [OF demo_reliable, of "\<lparr>file_is_open = False, core = s\<rparr>" Map.empty "[107]"
      "\<lparr>tv_sec = 5, tv_nsec = 0\<rparr>" "\<lparr>tv_sec = 5, tv_nsec = 7\<rparr>"] s
  show ?thesis by (simp add: cstring_def)
qed

end
