(* ===== verification/Lottery.thy ===== *)
theory Lottery
  imports Prelude "HOL-Library.Tree"
begin

text \<open>
  The lottery scheduling class (\<open>p3/linux-2.6.32.27/kernel/sched_lottery.c\<close>) and the places of
  \<open>sched.c\<close> that call it.  Tasks live in a store from addresses to \<open>task_struct\<close>s; a
  \<open>lottery_task\<close> is a member of its \<open>task_struct\<close> and has the same address here, its fields are
  \<open>lt_task\<close>, \<open>lt_ticket\<close> and \<open>accu_ticket\<close>.  There is one run queue per CPU and one global
  \<open>total_ticket\<close>.  The two values of the configuration option
  \<open>CONFIG_SCHED_LOTTERY_RB_POLICY\<close> are the two constructors of \<open>lottery_queue\<close>.  What the code
  calls outside of the repository is a parameter: the random generator, the clock, the
  rebalancing of red-black trees, and the constants of headers that are not part of it.
\<close>

section \<open>State\<close>

datatype policy = SCHED_NORMAL | SCHED_FIFO | SCHED_RR | SCHED_BATCH | SCHED_IDLE | SCHED_LOTTERY

datatype task_state = TASK_RUNNING | TASK_INTERRUPTIBLE | TASK_UNINTERRUPTIBLE | TASK_DEAD | EXIT_DEAD | EXIT_ZOMBIE

record task_struct =
  pid :: int
  policy :: policy
  state :: task_state
  rt_priority :: "32 word"
  ticket :: "64 word"
  on_rq :: bool
  need_resched :: bool
  cpu :: nat
  lt_task :: nat
  lt_ticket :: "64 word"
  accu_ticket :: "64 word"

type_synonym tasks = "nat \<Rightarrow> task_struct"

datatype lottery_queue = Lottery_list "nat list" | Lottery_rb "nat tree"

record rq =
  lottery_rq :: lottery_queue
  nr_running :: int
  curr :: nat

datatype lottery_action = LOTTERY_ENQUEUE | LOTTERY_DEQUEUE | LOTTERY_CONTEXT_SWITCH | LOTTERY_MSG | LOTTERY_WIN | LOTTERY_TASK_DONE

record lottery_event =
  action :: lottery_action
  timestamp :: "64 word"
  msg :: string

record sched =
  tasks :: tasks
  rqs :: "rq list"
  total_ticket :: "64 word"
  lucky_ticket :: "64 word"
  lucky_ticket2 :: "64 word"
  events :: "lottery_event list"
  lines :: nat
  cursor :: nat
  n_clock :: nat
  n_random :: nat

text \<open>
  What is outside: the \<open>n\<close>-th reading of the clock, the \<open>n\<close>-th random number, the library's
  rebalancing after an insertion and its deletion, and constants.
\<close>

record sched_env =
  e_sched_clock :: "nat \<Rightarrow> 64 word"
  e_random_int :: "nat \<Rightarrow> 32 word"
  rb_insert_color :: "nat \<Rightarrow> nat tree \<Rightarrow> nat tree"
  rb_erase :: "nat \<Rightarrow> nat tree \<Rightarrow> nat tree"
  LOTTERY_MAX_EVENT_LINES :: nat
  LOTTERY_MSG_SIZE :: nat
  HZ :: nat
  smp_processor_id :: nat

definition sched_clock :: "sched_env \<Rightarrow> sched \<Rightarrow> 64 word \<times> sched" where
  "sched_clock E s = (e_sched_clock E (n_clock s), s\<lparr>n_clock := n_clock s + 1\<rparr>)"

definition get_random_int :: "sched_env \<Rightarrow> sched \<Rightarrow> 32 word \<times> sched" where
  "get_random_int E s = (e_random_int E (n_random s), s\<lparr>n_random := n_random s + 1\<rparr>)"

definition upd_task :: "nat \<Rightarrow> (task_struct \<Rightarrow> task_struct) \<Rightarrow> sched \<Rightarrow> sched" where
  "upd_task p f s = s\<lparr>tasks := (tasks s)(p := f (tasks s p))\<rparr>"

definition upd_rq :: "nat \<Rightarrow> (rq \<Rightarrow> rq) \<Rightarrow> sched \<Rightarrow> sched outcome" where
  "upd_rq c f s = obind (arr_upd (rqs s) (int c) f) (\<lambda>r. Ret (s\<lparr>rqs := r\<rparr>))"

section \<open>Event log\<close>

text \<open>Decimal output of \<open>snprintf\<close>.\<close>

fun dec :: "nat \<Rightarrow> string" where
  "dec n = (if n < 10 then [char_of (48 + n)] else dec (n div 10) @ [char_of (48 + n mod 10)])"

declare dec.simps [simp del]

definition fmt_d :: "int \<Rightarrow> string" where
  "fmt_d i = (if i < 0 then CHR ''-'' # dec (nat (- i)) else dec (nat i))"

definition fmt_llu :: "64 word \<Rightarrow> string" where
  "fmt_llu w = dec (unat w)"

definition snprintf :: "sched_env \<Rightarrow> string \<Rightarrow> string" where
  "snprintf E text = take (LOTTERY_MSG_SIZE E - 1) text"

text \<open>The array has \<open>LOTTERY_MAX_EVENT_LINES\<close> elements.\<close>

definition register_lottery_event :: "sched_env \<Rightarrow> 64 word \<Rightarrow> string \<Rightarrow> lottery_action \<Rightarrow> sched \<Rightarrow> sched outcome" where
  "register_lottery_event E time message EVENT s =
     (if lines s < LOTTERY_MAX_EVENT_LINES E then
        obind (arr_upd (events s) (int (lines s)) (\<lambda>_. \<lparr>action = EVENT, timestamp = time,
                 msg = take (LOTTERY_MSG_SIZE E - 1) message\<rparr>)) (\<lambda>ev.
          Ret (s\<lparr>events := ev, lines := lines s + 1\<rparr>))
      else Ret s)"

definition log_now :: "sched_env \<Rightarrow> string \<Rightarrow> lottery_action \<Rightarrow> sched \<Rightarrow> sched outcome" where
  "log_now E message EVENT s = (case sched_clock E s of (now, s) \<Rightarrow> register_lottery_event E now (snprintf E message) EVENT s)"

definition init_lottery_event_log :: "sched_env \<Rightarrow> sched \<Rightarrow> sched outcome" where
  "init_lottery_event_log E s =
     (let s = s\<lparr>lines := 0, cursor := 0\<rparr> in
      log_now E (''init_lottery_event_log:('' @ dec (lines s) @ '':'' @ dec (cursor s) @ '')'') LOTTERY_MSG s)"

section \<open>Run queues\<close>

definition init_lottery_rq :: "bool \<Rightarrow> rq \<Rightarrow> rq" where
  "init_lottery_rq rb r = r\<lparr>lottery_rq := (if rb then Lottery_rb Leaf else Lottery_list []), nr_running := 0\<rparr>"

text \<open>Red-black policy: the tree is ordered by \<open>lt_ticket\<close> and every node holds the sum of its subtree.\<close>

fun root :: "nat tree \<Rightarrow> nat" where
  "root (Node l p r) = p"
| "root Leaf = 0"

fun update_postorder :: "nat tree \<Rightarrow> tasks \<Rightarrow> tasks" where
  "update_postorder Leaf T = T"
| "update_postorder (Node l p r) T =
     (let T = update_postorder l T; T = update_postorder r T;
          a = (if l \<noteq> Leaf \<and> r \<noteq> Leaf then accu_ticket (T (root l)) + accu_ticket (T (root r)) + lt_ticket (T p)
               else if l \<noteq> Leaf then accu_ticket (T (root l)) + lt_ticket (T p)
               else if r \<noteq> Leaf then accu_ticket (T (root r)) + lt_ticket (T p)
               else lt_ticket (T p))
      in T(p := (T p)\<lparr>accu_ticket := a\<rparr>))"

definition recalc_accu_lottery :: "nat tree \<Rightarrow> sched \<Rightarrow> sched" where
  "recalc_accu_lottery t s = s\<lparr>tasks := update_postorder t (tasks s)\<rparr>"

text \<open>Erasing a node that is not in the tree, or linking one that is, destroys the tree.\<close>

definition remove_lottery_rb_task :: "sched_env \<Rightarrow> nat \<Rightarrow> nat tree \<Rightarrow> sched \<Rightarrow> (nat tree \<times> sched) outcome" where
  "remove_lottery_rb_task E p t s =
     (if p \<in> set_tree t then let t = rb_erase E p t in Ret (t, recalc_accu_lottery t s) else Fault)"

fun rb_link :: "tasks \<Rightarrow> nat \<Rightarrow> nat tree \<Rightarrow> nat tree" where
  "rb_link T p Leaf = Node Leaf p Leaf"
| "rb_link T p (Node l e r) =
     (if lt_ticket (T p) < lt_ticket (T e) then Node (rb_link T p l) e r else Node l e (rb_link T p r))"

definition insert_lottery_rb_task :: "sched_env \<Rightarrow> nat \<Rightarrow> nat tree \<Rightarrow> sched \<Rightarrow> (nat tree \<times> sched) outcome" where
  "insert_lottery_rb_task E p t s =
     (if p \<in> set_tree t then Fault
      else let t = rb_insert_color E p (rb_link (tasks s) p t) in Ret (t, recalc_accu_lottery t s))"

text \<open>The loop of \<open>pick_winner_rb_task\<close>.\<close>

fun rb_walk :: "tasks \<Rightarrow> 64 word \<Rightarrow> 64 word \<Rightarrow> nat tree \<Rightarrow> nat option" where
  "rb_walk T lucky left_tot Leaf = None"
| "rb_walk T lucky left_tot (Node l p r) =
     (if l \<noteq> Leaf \<and> lucky \<le> accu_ticket (T (root l)) + left_tot then rb_walk T lucky left_tot l
      else let total_so_far = (if l \<noteq> Leaf then accu_ticket (T (root l)) else 0) + lt_ticket (T p) in
        if lucky \<le> total_so_far + left_tot then Some p
        else if r \<noteq> Leaf then rb_walk T lucky (left_tot + total_so_far) r
        else None)"

definition win_msg :: "sched \<Rightarrow> nat \<Rightarrow> 64 word \<Rightarrow> string \<Rightarrow> 64 word \<Rightarrow> string" where
  "win_msg s t lucky sep elapsed =
     (let w = tasks s (lt_task (tasks s t)) in
      ''WinnerPid:'' @ fmt_d (pid w) @ '' luckt:'' @ fmt_llu lucky @ '' t:'' @ fmt_llu (ticket w) @ sep
        @ fmt_llu (total_ticket s) @ '' TIME:'' @ fmt_llu elapsed)"

definition pick_winner_rb_task :: "sched_env \<Rightarrow> nat tree \<Rightarrow> sched \<Rightarrow> (nat option \<times> sched) outcome" where
  "pick_winner_rb_task E t s =
     (case sched_clock E s of (start, s) \<Rightarrow>
      if total_ticket s = 0 then Ret (None, s)
      else case get_random_int E s of (r, s) \<Rightarrow>
        let s = s\<lparr>lucky_ticket2 := ucast r mod total_ticket s + 1\<rparr> in
        case rb_walk (tasks s) (lucky_ticket2 s) 0 t of
          None \<Rightarrow> Ret (None, s)
        | Some p \<Rightarrow>
            (case sched_clock E s of (now, s) \<Rightarrow>
             obind (log_now E (win_msg s p (lucky_ticket2 s) ''  tt:'' (now - start)) LOTTERY_WIN s) (\<lambda>s. Ret (Some p, s))))"

text \<open>List policy.\<close>

definition remove_lottery_task :: "nat \<Rightarrow> nat list \<Rightarrow> nat list outcome" where
  "remove_lottery_task p q = (if List.member q p then Ret (removeAll p q) else Fault)"

definition insert_lottery_task :: "nat \<Rightarrow> nat list \<Rightarrow> nat list outcome" where
  "insert_lottery_task p q = (if List.member q p then Fault else Ret (q @ [p]))"

fun list_walk :: "tasks \<Rightarrow> 64 word \<Rightarrow> 64 word \<Rightarrow> nat list \<Rightarrow> nat option" where
  "list_walk T lucky total_so_far [] = None"
| "list_walk T lucky total_so_far (t # q) =
     (let total_so_far = total_so_far + ticket (T (lt_task (T t))) in
      if lucky \<le> total_so_far then Some t else list_walk T lucky total_so_far q)"

definition pick_winner_task :: "sched_env \<Rightarrow> nat list \<Rightarrow> sched \<Rightarrow> (nat option \<times> sched) outcome" where
  "pick_winner_task E q s =
     (case sched_clock E s of (start, s) \<Rightarrow>
      if total_ticket s = 0 then Ret (None, s)
      else case get_random_int E s of (r, s) \<Rightarrow>
        let s = s\<lparr>lucky_ticket := ucast r mod total_ticket s + 1\<rparr> in
        case list_walk (tasks s) (lucky_ticket s) 0 q of
          None \<Rightarrow> Ret (None, s)
        | Some t \<Rightarrow>
            (case sched_clock E s of (now, s) \<Rightarrow>
             obind (log_now E (win_msg s t (lucky_ticket s) '' tt:'' (now - start)) LOTTERY_WIN s) (\<lambda>s. Ret (Some t, s))))"

section \<open>The scheduling class\<close>

definition who_is_winner :: "sched_env \<Rightarrow> nat \<Rightarrow> sched \<Rightarrow> (nat option \<times> sched) outcome" where
  "who_is_winner E c s =
     obind (arr_get (rqs s) (int c)) (\<lambda>r.
       case lottery_rq r of
         Lottery_rb t \<Rightarrow> pick_winner_rb_task E t (s\<lparr>lucky_ticket2 := 0\<rparr>)
       | Lottery_list q \<Rightarrow> pick_winner_task E q (s\<lparr>lucky_ticket := 0\<rparr>))"

text \<open>
  Setting a flag that is set already does nothing; the interrupt that tells another CPU about it is
  not modelled.
\<close>

definition resched_task :: "nat \<Rightarrow> sched \<Rightarrow> sched" where
  "resched_task p = upd_task p (\<lambda>t. t\<lparr>need_resched := True\<rparr>)"

definition check_preempt_curr_lottery :: "sched_env \<Rightarrow> nat \<Rightarrow> nat \<Rightarrow> sched \<Rightarrow> sched outcome" where
  "check_preempt_curr_lottery E c p s =
     obind (arr_get (rqs s) (int c)) (\<lambda>r.
       if policy (tasks s (curr r)) \<noteq> SCHED_LOTTERY then Ret (resched_task (curr r) s)
       else obind (who_is_winner E c s) (\<lambda>(t, s).
         case t of
           None \<Rightarrow> Ret s
         | Some t \<Rightarrow> if p \<noteq> lt_task (tasks s t) then Ret (resched_task (lt_task (tasks s t)) s) else Ret s))"

text \<open>Each policy prints the global of the other one.\<close>

definition pick_next_task_lottery :: "sched_env \<Rightarrow> nat \<Rightarrow> sched \<Rightarrow> (nat option \<times> sched) outcome" where
  "pick_next_task_lottery E c s =
     (if total_ticket s = 0 then Ret (None, s)
      else obind (who_is_winner E c s) (\<lambda>(t, s).
        case t of
          None \<Rightarrow> Ret (None, s)
        | Some t \<Rightarrow>
            obind (arr_get (rqs s) (int c)) (\<lambda>r.
              let prev = tasks s (curr r); next = tasks s (lt_task (tasks s t));
                  luck = (case lottery_rq r of Lottery_rb _ \<Rightarrow> lucky_ticket s | Lottery_list _ \<Rightarrow> lucky_ticket2 s) in
              obind (log_now E (''PICK prevPID:('' @ fmt_d (pid prev) @ '':'' @ fmt_llu (ticket prev) @ '') nextPID(''
                       @ fmt_d (pid next) @ '':'' @ fmt_llu (ticket next) @ '') LUCK:'' @ fmt_llu luck) LOTTERY_MSG s) (\<lambda>s.
                Ret (Some (lt_task (tasks s t)), s)))))"

definition queue_msg :: "string \<Rightarrow> sched \<Rightarrow> nat \<Rightarrow> 64 word \<Rightarrow> string" where
  "queue_msg verb s p elapsed =
     verb @ '' pid:'' @ fmt_d (pid (tasks s p)) @ '' t:'' @ fmt_llu (ticket (tasks s p)) @ '' tt:''
       @ fmt_llu (total_ticket s) @ '' TIME:'' @ fmt_llu elapsed"

text \<open>Linking a task into the queue of a run queue, and unlinking it.\<close>

definition queue_insert :: "sched_env \<Rightarrow> nat \<Rightarrow> lottery_queue \<Rightarrow> sched \<Rightarrow> (lottery_queue \<times> sched) outcome" where
  "queue_insert E p q s =
     (case q of
        Lottery_rb t \<Rightarrow> obind (insert_lottery_rb_task E p t s) (\<lambda>(t, s). Ret (Lottery_rb t, s))
      | Lottery_list q \<Rightarrow> obind (insert_lottery_task p q) (\<lambda>q. Ret (Lottery_list q, s)))"

definition queue_remove :: "sched_env \<Rightarrow> nat \<Rightarrow> lottery_queue \<Rightarrow> sched \<Rightarrow> (lottery_queue \<times> sched) outcome" where
  "queue_remove E p q s =
     (case q of
        Lottery_rb t \<Rightarrow> obind (remove_lottery_rb_task E p t s) (\<lambda>(t, s). Ret (Lottery_rb t, s))
      | Lottery_list q \<Rightarrow> obind (remove_lottery_task p q) (\<lambda>q. Ret (Lottery_list q, s)))"

definition enqueue_task_lottery :: "sched_env \<Rightarrow> nat \<Rightarrow> nat option \<Rightarrow> sched \<Rightarrow> sched outcome" where
  "enqueue_task_lottery E c p s =
     (case sched_clock E s of (start, s) \<Rightarrow>
      case p of
        None \<Rightarrow> Ret s
      | Some p \<Rightarrow>
          obind (arr_get (rqs s) (int c)) (\<lambda>r.
          obind (queue_insert E p (lottery_rq r) s) (\<lambda>(q, s).
            let s = s\<lparr>total_ticket := total_ticket s + ticket (tasks s p)\<rparr> in
            obind (upd_rq c (\<lambda>r. r\<lparr>lottery_rq := q, nr_running := nr_running r + 1\<rparr>) s) (\<lambda>s.
            case sched_clock E s of (now, s) \<Rightarrow>
              log_now E (queue_msg ''EN'' s p (now - start)) LOTTERY_ENQUEUE s))))"

definition dequeue_task_lottery :: "sched_env \<Rightarrow> nat \<Rightarrow> nat option \<Rightarrow> sched \<Rightarrow> sched outcome" where
  "dequeue_task_lottery E c p s =
     (case sched_clock E s of (start, s) \<Rightarrow>
      case p of
        None \<Rightarrow> Ret s
      | Some p \<Rightarrow>
          obind (arr_get (rqs s) (int c)) (\<lambda>r.
          obind (queue_remove E p (lottery_rq r) s) (\<lambda>(q, s).
            let s = s\<lparr>total_ticket := total_ticket s - ticket (tasks s p)\<rparr> in
            obind (upd_rq c (\<lambda>r. r\<lparr>lottery_rq := q, nr_running := nr_running r - 1\<rparr>) s) (\<lambda>s.
            case sched_clock E s of (now, s) \<Rightarrow>
            obind (log_now E (queue_msg ''DE'' s p (now - start)) LOTTERY_DEQUEUE s) (\<lambda>s.
              if state (tasks s p) \<in> {TASK_DEAD, EXIT_DEAD, EXIT_ZOMBIE}
              then log_now E (''DONE pid:'' @ fmt_d (pid (tasks s p)) @ '' t:'' @ fmt_llu (ticket (tasks s p))) LOTTERY_TASK_DONE s
              else Ret s)))))"

definition task_tick_lottery :: "sched_env \<Rightarrow> nat \<Rightarrow> nat \<Rightarrow> sched \<Rightarrow> sched outcome" where
  "task_tick_lottery E c p s = check_preempt_curr_lottery E c p s"

definition get_rr_interval_lottery :: "sched_env \<Rightarrow> nat \<Rightarrow> sched \<Rightarrow> nat" where
  "get_rr_interval_lottery E p s = (if policy (tasks s p) = SCHED_RR then 100 * HZ E div 1000 else 0)"

definition select_task_rq_lottery :: "sched_env \<Rightarrow> nat \<Rightarrow> bool \<Rightarrow> sched \<Rightarrow> nat" where
  "select_task_rq_lottery E p balance_wake s = (if \<not> balance_wake then smp_processor_id E else cpu (tasks s p))"

text \<open>
  \<open>diff\<close> is an \<open>int\<close>, so the 64-bit difference is truncated and extended again.  Only the list
  policy touches \<open>total_ticket\<close>: it adds the ticket of every queued task.
\<close>

definition prio_changed_lottery :: "nat \<Rightarrow> nat \<Rightarrow> sched \<Rightarrow> sched outcome" where
  "prio_changed_lottery c p s =
     (let diff = ucast (ucast (rt_priority (tasks s p)) - ticket (tasks s p)) :: 32 word;
          s = upd_task p (\<lambda>t. t\<lparr>ticket := ucast (rt_priority t)\<rparr>) s in
      obind (arr_get (rqs s) (int c)) (\<lambda>r.
        case lottery_rq r of
          Lottery_rb _ \<Rightarrow> Ret s
        | Lottery_list q \<Rightarrow>
            Ret (foldl (\<lambda>s t. let s = s\<lparr>total_ticket := total_ticket s + ticket (tasks s (lt_task (tasks s t)))\<rparr> in
                     if p = lt_task (tasks s t) then s\<lparr>total_ticket := total_ticket s + scast diff\<rparr> else s) s q)))"

section \<open>Calls from sched.c\<close>

definition rt_policy :: "policy \<Rightarrow> bool" where
  "rt_policy p \<longleftrightarrow> p = SCHED_FIFO \<or> p = SCHED_RR \<or> p = SCHED_LOTTERY"

text \<open>\<open>enqueue_task\<close> and \<open>dequeue_task\<close> for a task of the lottery class.\<close>

definition enqueue_task :: "sched_env \<Rightarrow> nat \<Rightarrow> nat \<Rightarrow> sched \<Rightarrow> sched outcome" where
  "enqueue_task E c p s = obind (enqueue_task_lottery E c (Some p) s) (\<lambda>s. Ret (upd_task p (\<lambda>t. t\<lparr>on_rq := True\<rparr>) s))"

definition dequeue_task :: "sched_env \<Rightarrow> nat \<Rightarrow> nat \<Rightarrow> sched \<Rightarrow> sched outcome" where
  "dequeue_task E c p s = obind (dequeue_task_lottery E c (Some p) s) (\<lambda>s. Ret (upd_task p (\<lambda>t. t\<lparr>on_rq := False\<rparr>) s))"

text \<open>
  The part of \<open>__sched_setscheduler\<close> for \<open>SCHED_LOTTERY\<close> behind the permission checks: the range
  of the priority, the task taken off its queue (of another class if that was its class), the
  new parameters, and the task queued again.
\<close>

definition set_lottery_params :: "nat \<Rightarrow> int \<Rightarrow> sched \<Rightarrow> sched" where
  "set_lottery_params p prio s =
     upd_task p (\<lambda>t. t\<lparr>policy := SCHED_LOTTERY, rt_priority := word_of_int prio, lt_task := p,
                       ticket := word_of_int prio, lt_ticket := word_of_int prio\<rparr>) s"

definition setscheduler_lottery :: "sched_env \<Rightarrow> nat \<Rightarrow> nat \<Rightarrow> int \<Rightarrow> sched \<Rightarrow> (int \<times> sched) outcome" where
  "setscheduler_lottery E c p prio s =
     (if prio < 0 \<or> 99 < prio then Ret (- 22, s)
      else if rt_policy SCHED_LOTTERY \<noteq> (prio \<noteq> 0) then Ret (- 22, s)
      else let queued = on_rq (tasks s p); was_lottery = (policy (tasks s p) = SCHED_LOTTERY) in
        obind (if queued then if was_lottery then dequeue_task E c p s else Ret (upd_task p (\<lambda>t. t\<lparr>on_rq := False\<rparr>) s)
               else Ret s) (\<lambda>s.
        let s = set_lottery_params p prio s in
        if queued then
          obind (enqueue_task E c p s) (\<lambda>s.
          obind (if was_lottery then prio_changed_lottery c p s else Ret s) (\<lambda>s. Ret (0, s)))
        else Ret (0, s)))"

text \<open>What \<open>schedule\<close> logs between \<open>prev\<close> and \<open>next\<close>.\<close>

definition log_switch :: "sched_env \<Rightarrow> nat \<Rightarrow> nat \<Rightarrow> sched \<Rightarrow> sched outcome" where
  "log_switch E prev next s =
     (let p = tasks s prev; n = tasks s next in
      if policy p = SCHED_LOTTERY \<or> policy n = SCHED_LOTTERY then
        log_now E
          (if policy p = SCHED_LOTTERY \<and> policy n = SCHED_LOTTERY then
             ''CONTEX prev->('' @ fmt_d (pid p) @ '':'' @ fmt_llu (ticket p) @ ''),next->('' @ fmt_d (pid n) @ '':'' @ fmt_llu (ticket n) @ '')''
           else if policy p = SCHED_LOTTERY then
             ''SCHED prev->('' @ fmt_d (pid p) @ '':'' @ fmt_llu (ticket p) @ ''),next->('' @ fmt_d (pid n) @ '':-1)''
           else ''SCHED prev->('' @ fmt_d (pid p) @ '':-1),next->('' @ fmt_d (pid n) @ '':'' @ fmt_llu (ticket n) @ '')'')
          LOTTERY_CONTEXT_SWITCH s
      else Ret s)"

end
