(* ===== verification/LotteryQueue.thy ===== *)
theory LotteryQueue
  imports Lottery "HOL-Library.Multiset"
begin

text \<open>
  What a lottery draws from.  \<open>draw\<close> is the specification of a draw: the tasks hold consecutive
  intervals of ticket numbers and the owner of the lucky one wins.  The locale \<open>lottery_policy\<close>
  is the interface of a queue of tasks; it is interpreted on the list, and on the augmented
  tree for every environment whose red-black library keeps the order of the nodes.
\<close>

section \<open>The draw\<close>

fun draw :: "('a \<Rightarrow> nat) \<Rightarrow> 'a list \<Rightarrow> nat \<Rightarrow> 'a option" where
  "draw w [] n = None"
| "draw w (x # xs) n = (if n \<le> w x then Some x else draw w xs (n - w x))"

abbreviation tickets_of :: "('a \<Rightarrow> nat) \<Rightarrow> 'a list \<Rightarrow> nat" where
  "tickets_of w xs \<equiv> sum_list (map w xs)"

lemma draw_append: "0 < n \<Longrightarrow> draw w (xs @ ys) n = (if n \<le> tickets_of w xs then draw w xs n else draw w ys (n - tickets_of w xs))"
proof (induction xs arbitrary: n)
  case (Cons x xs)
  show ?case
  proof (cases "n \<le> w x")
    case False
    then have "0 < n - w x" by simp
    from Cons.IH [OF this] False show ?thesis by (simp add: le_diff_conv add.commute)
  qed simp
qed simp

lemma draw_None: "draw w xs n = None \<longleftrightarrow> xs = [] \<or> tickets_of w xs < n"
proof (induction xs arbitrary: n)
  case (Cons x xs)
  then show ?case by (cases "n \<le> w x"; cases "xs = []") (simp_all add: less_diff_conv add.commute)
qed simp

lemma draw_mem: "draw w xs n = Some x \<Longrightarrow> x \<in> set xs"
  by (induction xs arbitrary: n) (auto split: if_splits)

text \<open>The numbers with which a task wins are exactly its interval.\<close>

lemma draw_interval:
  assumes "distinct (xs @ x # ys)" "0 < n"
  shows "draw w (xs @ x # ys) n = Some x \<longleftrightarrow> tickets_of w xs < n \<and> n \<le> tickets_of w xs + w x"
proof -
  have "draw w xs n \<noteq> Some x" using assms(1) draw_mem [of w xs n x] by auto
  moreover have "draw w ys k \<noteq> Some x" for k using assms(1) draw_mem [of w ys k x] by auto
  ultimately show ?thesis using assms(2) by (auto simp: draw_append)
qed

lemma draw_share:
  assumes "distinct xs" "x \<in> set xs"
  shows "{n. 0 < n \<and> draw w xs n = Some x} \<subseteq> {1..tickets_of w xs}" "card {n. 0 < n \<and> draw w xs n = Some x} = w x"
proof -
  from assms(2) obtain ys zs where xs: "xs = ys @ x # zs" by (meson split_list)
  have "0 < n \<and> draw w xs n = Some x \<longleftrightarrow> tickets_of w ys < n \<and> n \<le> tickets_of w ys + w x" for n
    using draw_interval [of ys x zs n w] assms(1) unfolding xs by (cases "0 < n") simp_all
  then have e: "{n. 0 < n \<and> draw w xs n = Some x} = {Suc (tickets_of w ys)..tickets_of w ys + w x}" by force
  show "{n. 0 < n \<and> draw w xs n = Some x} \<subseteq> {1..tickets_of w xs}" unfolding e by (simp add: xs)
  show "card {n. 0 < n \<and> draw w xs n = Some x} = w x" unfolding e by simp
qed

section \<open>The interface of a queue\<close>

text \<open>
  Only \<open>accu_ticket\<close> may change when a task is linked or unlinked.
\<close>

definition same_tasks :: "tasks \<Rightarrow> tasks \<Rightarrow> bool" where
  "same_tasks T T' \<longleftrightarrow> (\<forall>p. T' p = (T p)\<lparr>accu_ticket := accu_ticket (T' p)\<rparr>)"

lemma same_tasksD:
  assumes "same_tasks T T'"
  shows "pid (T' p) = pid (T p)" "policy (T' p) = policy (T p)" "state (T' p) = state (T p)" "rt_priority (T' p) = rt_priority (T p)"
    "ticket (T' p) = ticket (T p)" "on_rq (T' p) = on_rq (T p)" "need_resched (T' p) = need_resched (T p)"
    "lt_task (T' p) = lt_task (T p)" "lt_ticket (T' p) = lt_ticket (T p)"
  using assms [unfolded same_tasks_def, rule_format, of p] by (cases "T p"; cases "T' p"; simp)+

lemma same_tasks_refl [simp]: "same_tasks T T"
  by (simp add: same_tasks_def)

lemma same_tasks_trans: "same_tasks T U \<Longrightarrow> same_tasks U V \<Longrightarrow> same_tasks T V"
  unfolding same_tasks_def by (metis (no_types, lifting) task_struct.surjective task_struct.update_convs(11))

locale lottery_policy =
  fixes members :: "'q \<Rightarrow> nat list"
    and weight :: "tasks \<Rightarrow> nat \<Rightarrow> 64 word"
    and ins del :: "nat \<Rightarrow> 'q \<Rightarrow> sched \<Rightarrow> ('q \<times> sched) outcome"
    and walk :: "tasks \<Rightarrow> 64 word \<Rightarrow> 64 word \<Rightarrow> 'q \<Rightarrow> nat option"
    and good :: "tasks \<Rightarrow> 'q \<Rightarrow> bool"
  assumes walk_draw: "good T q \<Longrightarrow> tickets_of (\<lambda>p. unat (weight T p)) (members q) < 2 ^ 64 \<Longrightarrow> 0 < lucky \<Longrightarrow>
      walk T lucky 0 q = draw (\<lambda>p. unat (weight T p)) (members q) (unat lucky)"
    and ins_ok: "distinct (members q) \<Longrightarrow> p \<notin> set (members q) \<Longrightarrow>
      \<exists>q' T. ins p q s = Ret (q', s\<lparr>tasks := T\<rparr>) \<and> same_tasks (tasks s) T \<and> good T q'
        \<and> (\<forall>x. x \<notin> insert p (set (members q)) \<longrightarrow> T x = tasks s x)
        \<and> mset (members q') = add_mset p (mset (members q))"
    and ins_linked: "p \<in> set (members q) \<Longrightarrow> ins p q s = Fault"
    and del_ok: "distinct (members q) \<Longrightarrow> p \<in> set (members q) \<Longrightarrow>
      \<exists>q' T. del p q s = Ret (q', s\<lparr>tasks := T\<rparr>) \<and> same_tasks (tasks s) T \<and> good T q'
        \<and> (\<forall>x. x \<notin> set (members q) \<longrightarrow> T x = tasks s x)
        \<and> mset (members q') = mset (members q) - {#p#}"
    and del_unlinked: "p \<notin> set (members q) \<Longrightarrow> del p q s = Fault"
begin

text \<open>Inserting and removing a task again leaves the tasks that were queued before.\<close>

lemma ins_del:
  assumes "distinct (members q)" "p \<notin> set (members q)"
  shows "\<exists>q1 T1 q2 T2. ins p q s = Ret (q1, s\<lparr>tasks := T1\<rparr>) \<and> del p q1 (s\<lparr>tasks := T1\<rparr>) = Ret (q2, s\<lparr>tasks := T2\<rparr>)
     \<and> same_tasks (tasks s) T2 \<and> good T2 q2 \<and> mset (members q2) = mset (members q)"
proof -
  obtain q1 T1 where 1: "ins p q s = Ret (q1, s\<lparr>tasks := T1\<rparr>)" "same_tasks (tasks s) T1"
    "mset (members q1) = add_mset p (mset (members q))" using ins_ok [OF assms] by blast
  have m: "p \<in> set (members q1)" "distinct (members q1)"
  proof -
    show "p \<in> set (members q1)" using 1(3) by (metis set_mset_mset union_single_eq_member)
    have "mset (members q1) = mset (p # members q)" using 1(3) by simp
    then show "distinct (members q1)" using assms by (metis distinct.simps(2) mset_eq_imp_distinct_iff)
  qed
  obtain q2 T2 where 2: "del p q1 (s\<lparr>tasks := T1\<rparr>) = Ret (q2, s\<lparr>tasks := T1, tasks := T2\<rparr>)" "same_tasks T1 T2" "good T2 q2"
    "mset (members q2) = mset (members q1) - {#p#}" using del_ok [OF m(2,1), of "s\<lparr>tasks := T1\<rparr>"] by auto
  have "del p q1 (s\<lparr>tasks := T1\<rparr>) = Ret (q2, s\<lparr>tasks := T2\<rparr>)" using 2(1) by simp
  with 1 2(2-4) same_tasks_trans [OF 1(2) 2(2)] show ?thesis by auto
qed

text \<open>Some task wins exactly when the lucky number is at most the number of tickets in the queue.\<close>

lemma walk_Some:
  assumes "good T q" "tickets_of (\<lambda>p. unat (weight T p)) (members q) < 2 ^ 64" "0 < lucky"
  shows "(\<exists>p \<in> set (members q). walk T lucky 0 q = Some p) \<longleftrightarrow> unat lucky \<le> tickets_of (\<lambda>p. unat (weight T p)) (members q)"
proof -
  let ?w = "\<lambda>p. unat (weight T p)"
  have e: "walk T lucky 0 q = draw ?w (members q) (unat lucky)" by (rule walk_draw [OF assms])
  have l: "0 < unat lucky" using assms(3) by (simp add: unat_gt_0)
  show ?thesis
  proof
    assume "\<exists>p \<in> set (members q). walk T lucky 0 q = Some p"
    then show "unat lucky \<le> tickets_of ?w (members q)" using draw_None [of ?w "members q" "unat lucky"] e by force
  next
    assume a: "unat lucky \<le> tickets_of ?w (members q)"
    with l have "members q \<noteq> []" by auto
    with a obtain p where "draw ?w (members q) (unat lucky) = Some p"
      using draw_None [of ?w "members q" "unat lucky"] by fastforce
    then show "\<exists>p \<in> set (members q). walk T lucky 0 q = Some p" using e draw_mem by metis
  qed
qed

end

section \<open>List policy\<close>

lemma unat_add_lt: "unat a + unat b < 2 ^ 64 \<Longrightarrow> unat (a + b :: 64 word) = unat a + unat b"
  by (simp add: unat_plus_if')

lemma list_walk_draw:
  assumes "unat acc + tickets_of (\<lambda>p. unat (ticket (T (lt_task (T p))))) q < 2 ^ 64" "acc < lucky"
  shows "list_walk T lucky acc q = draw (\<lambda>p. unat (ticket (T (lt_task (T p))))) q (unat lucky - unat acc)"
  using assms
proof (induction q arbitrary: acc)
  case Nil
  then show ?case by simp
next
  case (Cons t q)
  let ?w = "ticket (T (lt_task (T t)))"
  have u: "unat (acc + ?w) = unat acc + unat ?w" by (rule unat_add_lt) (use Cons.prems(1) in simp)
  have lt: "unat acc < unat lucky" using Cons.prems(2) by (simp add: word_less_nat_alt)
  show ?case
  proof (cases "lucky \<le> acc + ?w")
    case True
    then have "unat lucky \<le> unat acc + unat ?w" using u by (simp add: word_le_nat_alt)
    with True show ?thesis by (auto simp: Let_def)
  next
    case False
    then have l: "acc + ?w < lucky" by simp
    then have n: "unat acc + unat ?w < unat lucky" using u by (simp add: word_less_nat_alt)
    have "list_walk T lucky (acc + ?w) q = draw (\<lambda>p. unat (ticket (T (lt_task (T p))))) q (unat lucky - unat (acc + ?w))"
      by (rule Cons.IH [OF _ l]) (use Cons.prems(1) u in simp)
    moreover have "\<not> unat lucky - unat acc \<le> unat ?w" using n by linarith
    ultimately show ?thesis using False u by (simp add: Let_def)
  qed
qed

definition list_ins :: "nat \<Rightarrow> nat list \<Rightarrow> sched \<Rightarrow> (nat list \<times> sched) outcome" where
  "list_ins p q s = obind (insert_lottery_task p q) (\<lambda>q. Ret (q, s))"

definition list_rem :: "nat \<Rightarrow> nat list \<Rightarrow> sched \<Rightarrow> (nat list \<times> sched) outcome" where
  "list_rem p q s = obind (remove_lottery_task p q) (\<lambda>q. Ret (q, s))"

interpretation ll: lottery_policy "\<lambda>q. q" "\<lambda>T p. ticket (T (lt_task (T p)))" list_ins list_rem list_walk "\<lambda>_ _. True"
proof
  fix T :: tasks and q and lucky :: "64 word"
  assume "tickets_of (\<lambda>p. unat (ticket (T (lt_task (T p))))) q < 2 ^ 64" "0 < lucky"
  then show "list_walk T lucky 0 q = draw (\<lambda>p. unat (ticket (T (lt_task (T p))))) q (unat lucky)"
    using list_walk_draw [of 0 T q lucky] by simp
next
  fix q p and s :: sched assume d: "distinct q" "(p :: nat) \<notin> set q"
  have s: "s = s\<lparr>tasks := tasks s\<rparr>" by simp
  show "\<exists>q' T. list_ins p q s = Ret (q', s\<lparr>tasks := T\<rparr>) \<and> same_tasks (tasks s) T \<and> True
      \<and> (\<forall>x. x \<notin> insert p (set q) \<longrightarrow> T x = tasks s x) \<and> mset q' = add_mset p (mset q)"
    by (rule exI [of _ "q @ [p]"], rule exI [of _ "tasks s"]) (use d in \<open>simp add: list_ins_def insert_lottery_task_def\<close>)
next
  fix q p and s :: sched assume d: "distinct q" "(p :: nat) \<in> set q"
  show "\<exists>q' T. list_rem p q s = Ret (q', s\<lparr>tasks := T\<rparr>) \<and> same_tasks (tasks s) T \<and> True
      \<and> (\<forall>x. x \<notin> set q \<longrightarrow> T x = tasks s x) \<and> mset q' = mset q - {#p#}"
    by (rule exI [of _ "removeAll p q"], rule exI [of _ "tasks s"])
       (use d in \<open>simp add: list_rem_def remove_lottery_task_def distinct_remove1_removeAll [symmetric]\<close>)
qed (simp_all add: list_ins_def list_rem_def insert_lottery_task_def remove_lottery_task_def)

section \<open>Red-black policy\<close>

abbreviation lt_w :: "tasks \<Rightarrow> nat \<Rightarrow> nat" where
  "lt_w T p \<equiv> unat (lt_ticket (T p))"

text \<open>Every node holds the sum of the tickets below it, modulo the width.\<close>

fun accu_ok :: "tasks \<Rightarrow> nat tree \<Rightarrow> bool" where
  "accu_ok T Leaf \<longleftrightarrow> True"
| "accu_ok T (Node l p r) \<longleftrightarrow> accu_ok T l \<and> accu_ok T r
     \<and> accu_ticket (T p) = sum_list (map (\<lambda>q. lt_ticket (T q)) (inorder (Node l p r)))"

lemma accu_root: "accu_ok T t \<Longrightarrow> t \<noteq> Leaf \<Longrightarrow> accu_ticket (T (root t)) = sum_list (map (\<lambda>q. lt_ticket (T q)) (inorder t))"
  by (cases t) simp_all

lemma unat_sum_list:
  "sum_list (map (\<lambda>x. unat (f x :: 64 word)) xs) < 2 ^ 64 \<Longrightarrow> unat (sum_list (map f xs)) = sum_list (map (\<lambda>x. unat (f x)) xs)"
  by (induction xs) (simp_all add: unat_add_lt)

lemma accu_root_unat:
  "accu_ok T t \<Longrightarrow> t \<noteq> Leaf \<Longrightarrow> tickets_of (lt_w T) (inorder t) < 2 ^ 64 \<Longrightarrow> unat (accu_ticket (T (root t))) = tickets_of (lt_w T) (inorder t)"
  by (simp add: accu_root unat_sum_list)

lemma rb_walk_draw:
  assumes "accu_ok T t" "unat acc + tickets_of (lt_w T) (inorder t) < 2 ^ 64" "acc < lucky"
  shows "rb_walk T lucky acc t = draw (lt_w T) (inorder t) (unat lucky - unat acc)"
  using assms
proof (induction t arbitrary: acc)
  case Leaf
  then show ?case by simp
next
  case (Node l p r)
  let ?sl = "tickets_of (lt_w T) (inorder l)" and ?w = "lt_w T p"
  define a where "a = (if l \<noteq> Leaf then accu_ticket (T (root l)) else 0)"
  have b: "unat acc + ?sl + ?w + tickets_of (lt_w T) (inorder r) < 2 ^ 64" using Node.prems(2) by simp
  have ua: "unat a = ?sl" using accu_root_unat [of T l] Node.prems(1) b by (auto simp: a_def)
  have lt: "unat acc < unat lucky" using Node.prems(3) by (simp add: word_less_nat_alt)
  have u1: "unat (a + acc) = ?sl + unat acc" using unat_add_lt [of a acc] ua b by simp
  have u2: "unat (a + lt_ticket (T p) + acc) = ?sl + ?w + unat acc"
    using unat_add_lt [of a "lt_ticket (T p)"] unat_add_lt [of "a + lt_ticket (T p)" acc] ua b by simp
  have d: "draw (lt_w T) (inorder (Node l p r)) (unat lucky - unat acc) =
      (if unat lucky \<le> ?sl + unat acc then draw (lt_w T) (inorder l) (unat lucky - unat acc)
       else if unat lucky \<le> ?sl + ?w + unat acc then Some p
       else draw (lt_w T) (inorder r) (unat lucky - (?sl + ?w + unat acc)))"
    using lt by (auto simp: draw_append add_ac)
  have w: "rb_walk T lucky acc (Node l p r) =
      (if l \<noteq> Leaf \<and> lucky \<le> a + acc then rb_walk T lucky acc l
       else if lucky \<le> a + lt_ticket (T p) + acc then Some p
       else if r \<noteq> Leaf then rb_walk T lucky (acc + (a + lt_ticket (T p))) r else None)"
    by (cases "l = Leaf") (simp_all add: a_def Let_def)
  consider (left) "l \<noteq> Leaf" "lucky \<le> a + acc" | (here) "\<not> (l \<noteq> Leaf \<and> lucky \<le> a + acc)" "lucky \<le> a + lt_ticket (T p) + acc"
    | (right) "\<not> (l \<noteq> Leaf \<and> lucky \<le> a + acc)" "\<not> lucky \<le> a + lt_ticket (T p) + acc" by blast
  then show ?case
  proof cases
    case left
    have "rb_walk T lucky acc l = draw (lt_w T) (inorder l) (unat lucky - unat acc)"
      by (rule Node.IH(1)) (use Node.prems b in auto)
    with left u1 show ?thesis unfolding w d by (simp add: word_le_nat_alt)
  next
    case here
    have "\<not> unat lucky \<le> ?sl + unat acc" using here(1) u1 lt ua by (cases "l = Leaf") (auto simp: a_def word_le_nat_alt)
    with here u2 show ?thesis unfolding w d by (auto simp: word_le_nat_alt)
  next
    case right
    have n1: "\<not> unat lucky \<le> ?sl + unat acc" using right(1) u1 lt by (cases "l = Leaf") (auto simp: a_def word_le_nat_alt)
    have n2: "?sl + ?w + unat acc < unat lucky" using right(2) u2 by (simp add: word_le_nat_alt)
    have u3: "unat (acc + (a + lt_ticket (T p))) = ?sl + ?w + unat acc" using u2 by (simp add: add.commute)
    have "rb_walk T lucky (acc + (a + lt_ticket (T p))) r = draw (lt_w T) (inorder r) (unat lucky - (?sl + ?w + unat acc))"
      using Node.IH(2) [of "acc + (a + lt_ticket (T p))"] Node.prems(1) b n2 u3 by (simp add: word_less_nat_alt)
    with right n1 n2 show ?thesis unfolding w d by (cases "r = Leaf") auto
  qed
qed

text \<open>The walk over the whole tree recomputes every sum.\<close>

lemma accu_ok_cong: "(\<And>x. x \<in> set_tree t \<Longrightarrow> T' x = T x) \<Longrightarrow> accu_ok T' t = accu_ok T t"
proof (induction t)
  case (Node l p r)
  have "sum_list (map (\<lambda>q. lt_ticket (T' q)) (inorder t)) = sum_list (map (\<lambda>q. lt_ticket (T q)) (inorder t))" if "t = l \<or> t = r" for t
    by (rule arg_cong [of _ _ sum_list], rule map_cong) (use Node.prems that in auto)
  with Node show ?case by simp
qed simp

lemma update_postorder_ok:
  assumes "distinct (inorder t)"
  shows "same_tasks T (update_postorder t T) \<and> (\<forall>x. x \<notin> set_tree t \<longrightarrow> update_postorder t T x = T x) \<and> accu_ok (update_postorder t T) t"
  using assms
proof (induction t arbitrary: T)
  case Leaf
  then show ?case by simp
next
  case (Node l p r)
  define T1 T2 where "T1 = update_postorder l T" and "T2 = update_postorder r T1"
  have dj: "p \<notin> set_tree l" "p \<notin> set_tree r" "set_tree l \<inter> set_tree r = {}" "distinct (inorder l)" "distinct (inorder r)"
    using Node.prems by auto
  note 1 = Node.IH(1) [OF dj(4), of T, folded T1_def] and 2 = Node.IH(2) [OF dj(5), of T1, folded T2_def]
  have same: "same_tasks T T2" using 1 2 same_tasks_trans by blast
  have l2: "accu_ok T2 l" using 1 2 dj(3) accu_ok_cong [of l T2 T1] by blast
  have r2: "accu_ok T2 r" using 2 by blast
  have lf: "l = Leaf \<Longrightarrow> T1 = T" "l = Leaf \<Longrightarrow> update_postorder r T = T2" "r = Leaf \<Longrightarrow> T2 = T1" by (simp_all add: T1_def T2_def)
  let ?T = "update_postorder (Node l p r) T"
  let ?s = "sum_list (map (\<lambda>q. lt_ticket (T2 q)) (inorder (Node l p r)))"
  have e: "?T = T2(p := (T2 p)\<lparr>accu_ticket := ?s\<rparr>)"
    using accu_root [OF l2] accu_root [OF r2]
    by (cases "l = Leaf"; cases "r = Leaf") (simp_all add: Let_def lf algebra_simps flip: T1_def T2_def)
  have other: "?T x = T2 x" if "x \<noteq> p" for x unfolding e using that by simp
  have lt: "lt_ticket (?T x) = lt_ticket (T2 x)" for x unfolding e by simp
  have "same_tasks T2 ?T" unfolding e by (simp add: same_tasks_def)
  then have "same_tasks T ?T" using same same_tasks_trans by blast
  moreover have "\<forall>x. x \<notin> set_tree (Node l p r) \<longrightarrow> ?T x = T x" unfolding e using 1 2 by auto
  moreover have "accu_ok ?T l" "accu_ok ?T r"
    using accu_ok_cong [of l ?T T2, OF other] accu_ok_cong [of r ?T T2, OF other] l2 r2 dj(1,2) by blast+
  moreover have "accu_ticket (?T p) = sum_list (map (\<lambda>q. lt_ticket (?T q)) (inorder (Node l p r)))"
    unfolding lt unfolding e by simp
  ultimately show ?case by simp
qed

lemma mset_rb_link: "mset (inorder (rb_link T p t)) = add_mset p (mset (inorder t))"
  by (induction t) auto

text \<open>What the red-black library promises: rebalancing keeps the order of the nodes, erasing removes one.\<close>

locale rb_library =
  fixes E :: sched_env
  assumes insert_color: "inorder (rb_insert_color E p t) = inorder t"
    and erase: "p \<in> set_tree t \<Longrightarrow> distinct (inorder t) \<Longrightarrow> inorder (rb_erase E p t) = remove1 p (inorder t)"
begin

lemma insert_rb_ok:
  assumes "distinct (inorder t)" "p \<notin> set (inorder t)"
  shows "\<exists>t' T. insert_lottery_rb_task E p t s = Ret (t', s\<lparr>tasks := T\<rparr>) \<and> same_tasks (tasks s) T \<and> accu_ok T t'
     \<and> (\<forall>x. x \<notin> insert p (set (inorder t)) \<longrightarrow> T x = tasks s x) \<and> mset (inorder t') = add_mset p (mset (inorder t))"
proof -
  let ?t = "rb_insert_color E p (rb_link (tasks s) p t)"
  have m: "mset (inorder ?t) = mset (p # inorder t)" by (simp add: insert_color mset_rb_link)
  then have "distinct (inorder ?t)" using assms by (metis distinct.simps(2) mset_eq_imp_distinct_iff)
  note u = update_postorder_ok [OF this, of "tasks s"]
  have st: "set_tree ?t = insert p (set (inorder t))" using mset_eq_setD [OF m] by simp
  show ?thesis
    by (rule exI [of _ ?t], rule exI [of _ "update_postorder ?t (tasks s)"])
       (use u m st assms in \<open>simp add: insert_lottery_rb_task_def recalc_accu_lottery_def Let_def\<close>)
qed

lemma remove_rb_ok:
  assumes "distinct (inorder t)" "p \<in> set (inorder t)"
  shows "\<exists>t' T. remove_lottery_rb_task E p t s = Ret (t', s\<lparr>tasks := T\<rparr>) \<and> same_tasks (tasks s) T \<and> accu_ok T t'
     \<and> (\<forall>x. x \<notin> set (inorder t) \<longrightarrow> T x = tasks s x) \<and> mset (inorder t') = mset (inorder t) - {#p#}"
proof -
  let ?t = "rb_erase E p t"
  have i: "inorder ?t = remove1 p (inorder t)" using erase assms by simp
  then have "distinct (inorder ?t)" using assms by simp
  note u = update_postorder_ok [OF this, of "tasks s"]
  have st: "set_tree ?t \<subseteq> set (inorder t)" using i set_remove1_subset [of p "inorder t"] by (metis set_inorder)
  show ?thesis
    by (rule exI [of _ ?t], rule exI [of _ "update_postorder ?t (tasks s)"])
       (use u i st assms in \<open>auto simp: remove_lottery_rb_task_def recalc_accu_lottery_def Let_def\<close>)
qed

end

sublocale rb_library \<subseteq> rb: lottery_policy inorder "\<lambda>T p. lt_ticket (T p)" "insert_lottery_rb_task E" "remove_lottery_rb_task E" rb_walk accu_ok
proof
  fix T :: tasks and t and lucky :: "64 word"
  assume "accu_ok T t" "tickets_of (lt_w T) (inorder t) < 2 ^ 64" "0 < lucky"
  then show "rb_walk T lucky 0 t = draw (lt_w T) (inorder t) (unat lucky)"
    using rb_walk_draw [of T t 0 lucky] by simp
qed (use insert_rb_ok remove_rb_ok in \<open>simp_all add: insert_lottery_rb_task_def remove_lottery_rb_task_def\<close>)

text \<open>A library that does not rebalance keeps the promise.\<close>

fun tree_erase :: "nat \<Rightarrow> nat tree \<Rightarrow> nat tree" where
  "tree_erase p Leaf = Leaf"
| "tree_erase p (Node l x r) =
     (if x = p then (case r of Leaf \<Rightarrow> l | _ \<Rightarrow> foldr (\<lambda>y t. Node Leaf y t) (inorder l) r)
      else if p \<in> set_tree l then Node (tree_erase p l) x r else Node l x (tree_erase p r))"

lemma inorder_spine: "inorder (foldr (\<lambda>y t. Node Leaf y t) ys t) = ys @ inorder t"
  by (induction ys) simp_all

lemma inorder_tree_erase: "p \<in> set_tree t \<Longrightarrow> distinct (inorder t) \<Longrightarrow> inorder (tree_erase p t) = remove1 p (inorder t)"
proof (induction t)
  case (Node l x r)
  show ?case
  proof (cases "x = p")
    case True
    then have "p \<notin> set (inorder l)" using Node.prems(2) by simp
    with True show ?thesis by (cases r) (simp_all add: remove1_append inorder_spine)
  next
    case False
    with Node show ?thesis by (auto simp: remove1_append)
  qed
qed simp

definition plain_env :: "(nat \<Rightarrow> 32 word) \<Rightarrow> sched_env" where
  "plain_env rnd = \<lparr>e_sched_clock = word_of_nat, e_random_int = rnd, rb_insert_color = (\<lambda>_ t. t), rb_erase = tree_erase,
     LOTTERY_MAX_EVENT_LINES = 2, LOTTERY_MSG_SIZE = 100, HZ = 1000, smp_processor_id = 0\<rparr>"

interpretation pe: rb_library "plain_env rnd"
  by unfold_locales (simp_all add: plain_env_def inorder_tree_erase)

end
