(* ===== verification/LotterySched.thy ===== *)
theory LotterySched
  imports LotteryQueue
begin

text \<open>
  The state of the lottery class between two calls: no task is queued twice, the counters and
  the sums of the tree are right, the global number of tickets is the sum over all run queues,
  and the event log stays within its array.  Every operation that links or unlinks a task keeps
  it, and a draw follows the specification.
\<close>

section \<open>Invariant\<close>

definition members :: "lottery_queue \<Rightarrow> nat list" where
  "members q = (case q of Lottery_list xs \<Rightarrow> xs | Lottery_rb t \<Rightarrow> inorder t)"

definition queue_good :: "tasks \<Rightarrow> lottery_queue \<Rightarrow> bool" where
  "queue_good T q = (case q of Lottery_list xs \<Rightarrow> True | Lottery_rb t \<Rightarrow> accu_ok T t)"

definition task_ok :: "tasks \<Rightarrow> nat \<Rightarrow> bool" where
  "task_ok T p \<longleftrightarrow> lt_task (T p) = p \<and> lt_ticket (T p) = ticket (T p)"

abbreviation tk :: "tasks \<Rightarrow> nat \<Rightarrow> nat" where
  "tk T p \<equiv> unat (ticket (T p))"

definition all_members :: "rq list \<Rightarrow> nat list" where
  "all_members rs = concat (map (\<lambda>r. members (lottery_rq r)) rs)"

definition log_ok :: "sched_env \<Rightarrow> sched \<Rightarrow> bool" where
  "log_ok E s \<longleftrightarrow> length (events s) = LOTTERY_MAX_EVENT_LINES E \<and> lines s \<le> LOTTERY_MAX_EVENT_LINES E"

text \<open>
  What holds between two operations.  \<open>task_ok\<close> says that the node of a task points back to it; a
  fork copies the node of the parent with its pointer, so it holds of a child only when its
  parameters have been set (forking is not among the operations that are run here).
\<close>

definition sched_ok :: "sched_env \<Rightarrow> sched \<Rightarrow> bool" where
  "sched_ok E s \<longleftrightarrow> distinct (all_members (rqs s))
     \<and> (\<forall>r \<in> set (rqs s). queue_good (tasks s) (lottery_rq r) \<and> nr_running r = int (length (members (lottery_rq r))))
     \<and> (\<forall>p \<in> set (all_members (rqs s)). task_ok (tasks s) p)
     \<and> unat (total_ticket s) = tickets_of (tk (tasks s)) (all_members (rqs s))
     \<and> log_ok E s"

text \<open>Only the log and the counters of the clock and the generator differ.\<close>

definition only_log :: "sched \<Rightarrow> sched \<Rightarrow> bool" where
  "only_log s t \<longleftrightarrow> tasks t = tasks s \<and> rqs t = rqs s \<and> total_ticket t = total_ticket s"

lemma only_log_trans: "only_log s t \<Longrightarrow> only_log t u \<Longrightarrow> only_log s u"
  by (simp add: only_log_def)

lemma only_log_ok: "only_log s t \<Longrightarrow> log_ok E t \<Longrightarrow> sched_ok E s \<Longrightarrow> sched_ok E t"
  by (simp add: only_log_def sched_ok_def)

lemma sched_clock_simps [simp]: "sched_clock E s = (e_sched_clock E (n_clock s), s\<lparr>n_clock := n_clock s + 1\<rparr>)"
  by (simp add: sched_clock_def)

lemma get_random_int_simps [simp]: "get_random_int E s = (e_random_int E (n_random s), s\<lparr>n_random := n_random s + 1\<rparr>)"
  by (simp add: get_random_int_def)

lemma log_ok_cong [simp]: "log_ok E (s\<lparr>tasks := T\<rparr>) = log_ok E s" "log_ok E (s\<lparr>rqs := R\<rparr>) = log_ok E s"
  "log_ok E (s\<lparr>total_ticket := x\<rparr>) = log_ok E s" "log_ok E (s\<lparr>n_clock := n\<rparr>) = log_ok E s" "log_ok E (s\<lparr>n_random := n\<rparr>) = log_ok E s"
  "log_ok E (s\<lparr>lucky_ticket := x\<rparr>) = log_ok E s" "log_ok E (s\<lparr>lucky_ticket2 := x\<rparr>) = log_ok E s"
  by (simp_all add: log_ok_def)

lemma log_now_ok:
  assumes "log_ok E s"
  obtains t where "log_now E m a s = Ret t" "only_log s t" "log_ok E t" "lucky_ticket t = lucky_ticket s" "lucky_ticket2 t = lucky_ticket2 s"
    "n_random t = n_random s" "lines t = min (lines s + 1) (LOTTERY_MAX_EVENT_LINES E)"
proof (cases "lines s < LOTTERY_MAX_EVENT_LINES E")
  case True
  with assms that show ?thesis
    by (fastforce simp: log_now_def register_lottery_event_def log_ok_def only_log_def)
next
  case False
  with assms that show ?thesis
    by (fastforce simp: log_now_def register_lottery_event_def log_ok_def only_log_def)
qed

section \<open>One queue among all\<close>

lemma mset_all_members_update:
  "c < length rs \<Longrightarrow> mset (all_members (rs[c := r])) + mset (members (lottery_rq (rs ! c)))
     = mset (all_members rs) + mset (members (lottery_rq r))"
proof (induction rs arbitrary: c)
  case (Cons a rs)
  then show ?case by (cases c) (auto simp: all_members_def)
qed simp

lemma all_members_nth: "c < length rs \<Longrightarrow> set (members (lottery_rq (rs ! c))) \<subseteq> set (all_members rs)"
  by (fastforce simp: all_members_def)

lemma distinct_all_members: "distinct (all_members rs) \<Longrightarrow> c < length rs \<Longrightarrow> distinct (members (lottery_rq (rs ! c)))"
  by (fastforce simp: all_members_def distinct_concat_iff)

lemma all_members_disjoint:
  "distinct (all_members rs) \<Longrightarrow> c < length rs \<Longrightarrow> d < length rs \<Longrightarrow> c \<noteq> d \<Longrightarrow>
   set (members (lottery_rq (rs ! c))) \<inter> set (members (lottery_rq (rs ! d))) = {}"
proof (induction rs arbitrary: c d)
  case (Cons a rs)
  show ?case
  proof (cases c)
    case 0
    with Cons.prems obtain e where e: "d = Suc e" by (cases d) auto
    with 0 Cons.prems all_members_nth [of e rs] show ?thesis by (auto simp: all_members_def)
  next
    case (Suc c')
    show ?thesis
    proof (cases d)
      case 0
      with Suc Cons.prems all_members_nth [of c' rs] show ?thesis by (auto simp: all_members_def)
    next
      case (Suc d')
      with \<open>c = Suc c'\<close> Cons.prems Cons.IH [of c' d'] show ?thesis by (auto simp: all_members_def)
    qed
  qed
qed simp

lemma tickets_of_mset: "mset xs = mset ys \<Longrightarrow> tickets_of w xs = tickets_of w ys"
  by (metis mset_map sum_mset_sum_list)

lemma queue_good_cong: "(\<And>x. x \<in> set (members q) \<Longrightarrow> T' x = T x) \<Longrightarrow> queue_good T' q = queue_good T q"
  using accu_ok_cong [of _ T' T] by (cases q) (simp_all add: queue_good_def members_def)

context rb_library
begin

lemma queue_insert_ok:
  assumes "distinct (members q)" "p \<notin> set (members q)"
  obtains q' T where "queue_insert E p q s = Ret (q', s\<lparr>tasks := T\<rparr>)" "same_tasks (tasks s) T" "queue_good T q'"
    "\<forall>x. x \<notin> insert p (set (members q)) \<longrightarrow> T x = tasks s x" "mset (members q') = add_mset p (mset (members q))"
proof (cases q)
  case (Lottery_list xs)
  with ll.ins_ok [of xs p s] assms obtain q' T
    where t: "list_ins p xs s = Ret (q', s\<lparr>tasks := T\<rparr>)" "same_tasks (tasks s) T" "\<forall>x. x \<notin> insert p (set xs) \<longrightarrow> T x = tasks s x"
      "mset q' = add_mset p (mset xs)" by (auto simp: members_def)
  with Lottery_list that [of "Lottery_list q'" T] show ?thesis
    by (auto simp: queue_insert_def list_ins_def members_def queue_good_def obind_eq_Ret)
next
  case (Lottery_rb t)
  with rb.ins_ok [of t p s] assms obtain q' T
    where t: "insert_lottery_rb_task E p t s = Ret (q', s\<lparr>tasks := T\<rparr>)" "same_tasks (tasks s) T" "accu_ok T q'"
      "\<forall>x. x \<notin> insert p (set (inorder t)) \<longrightarrow> T x = tasks s x" "mset (inorder q') = add_mset p (mset (inorder t))"
    unfolding members_def by (auto simp del: set_inorder)
  with Lottery_rb that [of "Lottery_rb q'" T] show ?thesis
    by (simp add: queue_insert_def members_def queue_good_def)
qed

lemma queue_remove_ok:
  assumes "distinct (members q)" "p \<in> set (members q)"
  obtains q' T where "queue_remove E p q s = Ret (q', s\<lparr>tasks := T\<rparr>)" "same_tasks (tasks s) T" "queue_good T q'"
    "\<forall>x. x \<notin> set (members q) \<longrightarrow> T x = tasks s x" "mset (members q') = mset (members q) - {#p#}"
proof (cases q)
  case (Lottery_list xs)
  with ll.del_ok [of xs p s] assms obtain q' T
    where t: "list_rem p xs s = Ret (q', s\<lparr>tasks := T\<rparr>)" "same_tasks (tasks s) T" "\<forall>x. x \<notin> set xs \<longrightarrow> T x = tasks s x"
      "mset q' = mset xs - {#p#}" by (auto simp: members_def)
  with Lottery_list that [of "Lottery_list q'" T] show ?thesis
    by (auto simp: queue_remove_def list_rem_def members_def queue_good_def obind_eq_Ret)
next
  case (Lottery_rb t)
  with rb.del_ok [of t p s] assms obtain q' T
    where t: "remove_lottery_rb_task E p t s = Ret (q', s\<lparr>tasks := T\<rparr>)" "same_tasks (tasks s) T" "accu_ok T q'"
      "\<forall>x. x \<notin> set (inorder t) \<longrightarrow> T x = tasks s x" "mset (inorder q') = mset (inorder t) - {#p#}"
    unfolding members_def by (auto simp del: set_inorder)
  with Lottery_rb that [of "Lottery_rb q'" T] show ?thesis
    by (simp add: queue_remove_def members_def queue_good_def)
qed

text \<open>Replacing the queue of one CPU, the members of the others being untouched.\<close>

lemma sched_ok_update:
  assumes ok: "sched_ok E s" and c: "c < length (rqs s)" and st: "same_tasks (tasks s) T" and qg: "queue_good T q'"
    and un: "\<forall>x. x \<notin> X \<longrightarrow> T x = tasks s x" and X: "\<forall>d < length (rqs s). d \<noteq> c \<longrightarrow> X \<inter> set (members (lottery_rq (rqs s ! d))) = {}"
    and d: "distinct (all_members ((rqs s)[c := r]))" and r: "lottery_rq r = q'" "nr_running r = int (length (members q'))"
    and tok: "\<forall>p \<in> set (all_members ((rqs s)[c := r])). task_ok (tasks s) p"
    and tot: "unat x = tickets_of (tk (tasks s)) (all_members ((rqs s)[c := r]))"
    and t: "tasks t = T" "rqs t = (rqs s)[c := r]" "total_ticket t = x" "log_ok E t"
  shows "sched_ok E t"
  unfolding sched_ok_def t
proof (intro conjI)
  have tk: "tk T = tk (tasks s)" using same_tasksD(5) [OF st] by simp
  show "unat x = tickets_of (tk T) (all_members ((rqs s)[c := r]))" unfolding tk by (rule tot)
  show "\<forall>p \<in> set (all_members ((rqs s)[c := r])). task_ok T p" using tok same_tasksD [OF st] by (simp add: task_ok_def)
  show "\<forall>r' \<in> set ((rqs s)[c := r]). queue_good T (lottery_rq r') \<and> nr_running r' = int (length (members (lottery_rq r')))"
    unfolding all_set_conv_all_nth
  proof (intro allI impI)
    fix i assume "i < length ((rqs s)[c := r])"
    then have i: "i < length (rqs s)" by simp
    show "queue_good T (lottery_rq ((rqs s)[c := r] ! i)) \<and> nr_running ((rqs s)[c := r] ! i) = int (length (members (lottery_rq ((rqs s)[c := r] ! i))))"
    proof (cases "i = c")
      case True
      with c r qg show ?thesis by simp
    next
      case False
      have "queue_good T (lottery_rq (rqs s ! i)) = queue_good (tasks s) (lottery_rq (rqs s ! i))"
        by (rule queue_good_cong) (use un X i False in blast)
      with False i ok show ?thesis by (simp add: sched_ok_def)
    qed
  qed
qed (use d t(4) in simp_all)

lemma enqueue_ok:
  assumes ok: "sched_ok E s" and c: "c < length (rqs s)" and p: "p \<notin> set (all_members (rqs s))" "task_ok (tasks s) p"
    and fit: "unat (total_ticket s) + tk (tasks s) p < 2 ^ 64"
  obtains t where "enqueue_task_lottery E c (Some p) s = Ret t" "sched_ok E t" "mset (all_members (rqs t)) = add_mset p (mset (all_members (rqs s)))"
    "same_tasks (tasks s) (tasks t)" "unat (total_ticket t) = unat (total_ticket s) + tk (tasks s) p"
    "length (rqs t) = length (rqs s)" "mset (members (lottery_rq (rqs t ! c))) = add_mset p (mset (members (lottery_rq (rqs s ! c))))"
proof -
  let ?q = "lottery_rq (rqs s ! c)" and ?s1 = "s\<lparr>n_clock := Suc (n_clock s)\<rparr>"
  from ok have dst: "distinct (all_members (rqs s))" and nr: "nr_running (rqs s ! c) = int (length (members ?q))" and lg: "log_ok E s"
    using c by (simp_all add: sched_ok_def)
  have dq: "distinct (members ?q)" "p \<notin> set (members ?q)" using distinct_all_members [OF dst c] all_members_nth [OF c] p(1) by auto
  have s1: "tasks ?s1 = tasks s" by simp
  obtain q' T where q': "queue_insert E p ?q ?s1 = Ret (q', ?s1\<lparr>tasks := T\<rparr>)" "same_tasks (tasks s) T" "queue_good T q'"
    "\<forall>x. x \<notin> insert p (set (members ?q)) \<longrightarrow> T x = tasks s x" "mset (members q') = add_mset p (mset (members ?q))"
    by (rule queue_insert_ok [OF dq, of ?s1, unfolded s1])
  define r where "r = (rqs s ! c)\<lparr>lottery_rq := q', nr_running := nr_running (rqs s ! c) + 1\<rparr>"
  have tkp: "ticket (T p) = ticket (tasks s p)" using same_tasksD(5) [OF q'(2)] .
  define u where "u = ?s1\<lparr>tasks := T, total_ticket := total_ticket s + ticket (T p), rqs := (rqs s)[c := r], n_clock := Suc (Suc (n_clock s))\<rparr>"
  have lu: "log_ok E u" using lg by (simp add: u_def)
  obtain t where t: "log_now E (queue_msg ''EN'' u p (e_sched_clock E (Suc (n_clock s)) - e_sched_clock E (n_clock s))) LOTTERY_ENQUEUE u = Ret t"
    "only_log u t" "log_ok E t" using log_now_ok [OF lu] by metis
  have run: "enqueue_task_lottery E c (Some p) s = Ret t"
    using t(1) c by (simp add: enqueue_task_lottery_def q'(1) upd_rq_def Let_def u_def r_def)
  have ms: "mset (all_members ((rqs s)[c := r])) = add_mset p (mset (all_members (rqs s)))"
    using mset_all_members_update [OF c, of r] q'(5) by (simp add: r_def)
  then have ms': "mset (all_members ((rqs s)[c := r])) = mset (p # all_members (rqs s))" by simp
  have tt: "tasks t = T" "rqs t = (rqs s)[c := r]" "total_ticket t = total_ticket s + ticket (T p)"
    using t(2) by (simp_all add: only_log_def u_def)
  have tot: "unat (total_ticket s + ticket (T p)) = unat (total_ticket s) + tk (tasks s) p"
    using unat_add_lt [OF fit] tkp by simp
  have "sched_ok E t"
  proof (rule sched_ok_update [OF ok c q'(2,3,4)])
    show "\<forall>d < length (rqs s). d \<noteq> c \<longrightarrow> insert p (set (members ?q)) \<inter> set (members (lottery_rq (rqs s ! d))) = {}"
      using all_members_disjoint [OF dst c] all_members_nth p(1) by blast
    show "distinct (all_members ((rqs s)[c := r]))" using mset_eq_imp_distinct_iff [OF ms'] dst p(1) by simp
    show "nr_running r = int (length (members q'))" using arg_cong [OF q'(5), of size] nr by (simp add: r_def)
    show "\<forall>p \<in> set (all_members ((rqs s)[c := r])). task_ok (tasks s) p"
      using mset_eq_setD [OF ms'] ok p(2) by (simp add: sched_ok_def)
    show "unat (total_ticket s + ticket (T p)) = tickets_of (tk (tasks s)) (all_members ((rqs s)[c := r]))"
      using tickets_of_mset [OF ms', of "tk (tasks s)"] ok tot by (simp add: sched_ok_def)
  qed (use tt t(3) in \<open>simp_all add: r_def\<close>)
  with that run ms tt tot q'(2,5) c show ?thesis by (simp add: r_def)
qed

lemma dequeue_ok:
  assumes ok: "sched_ok E s" and c: "c < length (rqs s)" and p: "p \<in> set (members (lottery_rq (rqs s ! c)))"
  obtains t where "dequeue_task_lottery E c (Some p) s = Ret t" "sched_ok E t" "mset (all_members (rqs t)) = mset (all_members (rqs s)) - {#p#}"
    "same_tasks (tasks s) (tasks t)" "unat (total_ticket t) + tk (tasks s) p = unat (total_ticket s)"
    "length (rqs t) = length (rqs s)" "mset (members (lottery_rq (rqs t ! c))) = mset (members (lottery_rq (rqs s ! c))) - {#p#}"
proof -
  let ?q = "lottery_rq (rqs s ! c)" and ?s1 = "s\<lparr>n_clock := Suc (n_clock s)\<rparr>"
  from ok have dst: "distinct (all_members (rqs s))" and nr: "nr_running (rqs s ! c) = int (length (members ?q))" and lg: "log_ok E s"
    using c by (simp_all add: sched_ok_def)
  have pa: "p \<in> set (all_members (rqs s))" using all_members_nth [OF c] p by blast
  have s1: "tasks ?s1 = tasks s" by simp
  obtain q' T where q': "queue_remove E p ?q ?s1 = Ret (q', ?s1\<lparr>tasks := T\<rparr>)" "same_tasks (tasks s) T" "queue_good T q'"
    "\<forall>x. x \<notin> set (members ?q) \<longrightarrow> T x = tasks s x" "mset (members q') = mset (members ?q) - {#p#}"
    by (rule queue_remove_ok [OF distinct_all_members [OF dst c] p, of ?s1, unfolded s1])
  define r where "r = (rqs s ! c)\<lparr>lottery_rq := q', nr_running := nr_running (rqs s ! c) - 1\<rparr>"
  have tkp: "ticket (T p) = ticket (tasks s p)" using same_tasksD(5) [OF q'(2)] .
  define u where "u = ?s1\<lparr>tasks := T, total_ticket := total_ticket s - ticket (T p), rqs := (rqs s)[c := r], n_clock := Suc (Suc (n_clock s))\<rparr>"
  have lu: "log_ok E u" using lg by (simp add: u_def)
  obtain v where v: "log_now E (queue_msg ''DE'' u p (e_sched_clock E (Suc (n_clock s)) - e_sched_clock E (n_clock s))) LOTTERY_DEQUEUE u = Ret v"
    "only_log u v" "log_ok E v" using log_now_ok [OF lu] by metis
  obtain w where w: "log_now E (''DONE pid:'' @ fmt_d (pid (tasks v p)) @ '' t:'' @ fmt_llu (ticket (tasks v p))) LOTTERY_TASK_DONE v = Ret w"
    "only_log v w" "log_ok E w" using log_now_ok [OF v(3)] by metis
  define t where "t = (if state (tasks v p) \<in> {TASK_DEAD, EXIT_DEAD, EXIT_ZOMBIE} then w else v)"
  have t: "only_log u t" "log_ok E t" using v w only_log_trans [OF v(2) w(2)] by (simp_all add: t_def)
  have run: "dequeue_task_lottery E c (Some p) s = Ret t"
    using v(1) w(1) c by (simp add: dequeue_task_lottery_def q'(1) upd_rq_def Let_def u_def r_def t_def)
  have sub: "{#p#} \<subseteq># mset (members ?q)" "{#p#} \<subseteq># mset (all_members (rqs s))" using p pa by simp_all
  have ms: "add_mset p (mset (all_members ((rqs s)[c := r]))) = mset (all_members (rqs s))"
  proof -
    have "mset (all_members ((rqs s)[c := r])) + mset (members ?q) = mset (all_members (rqs s)) + mset (members q')"
      using mset_all_members_update [OF c, of r] by (simp add: r_def)
    moreover have "mset (members ?q) = add_mset p (mset (members q'))" using q'(5) sub(1) by simp
    ultimately show ?thesis by simp
  qed
  then have ms': "mset (p # all_members ((rqs s)[c := r])) = mset (all_members (rqs s))" by simp
  have tt: "tasks t = T" "rqs t = (rqs s)[c := r]" "total_ticket t = total_ticket s - ticket (T p)"
    using t(1) by (simp_all add: only_log_def u_def)
  have sum: "tk (tasks s) p + tickets_of (tk (tasks s)) (all_members ((rqs s)[c := r])) = unat (total_ticket s)"
    using tickets_of_mset [OF ms', of "tk (tasks s)"] ok by (simp add: sched_ok_def)
  then have "ticket (T p) \<le> total_ticket s" unfolding tkp word_le_nat_alt by linarith
  then have tot: "unat (total_ticket s - ticket (T p)) + tk (tasks s) p = unat (total_ticket s)"
    by (simp add: tkp unat_sub word_le_nat_alt)
  have "sched_ok E t"
  proof (rule sched_ok_update [OF ok c q'(2,3,4)])
    show "\<forall>d < length (rqs s). d \<noteq> c \<longrightarrow> set (members ?q) \<inter> set (members (lottery_rq (rqs s ! d))) = {}"
      using all_members_disjoint [OF dst c] by blast
    show "distinct (all_members ((rqs s)[c := r]))" using mset_eq_imp_distinct_iff [OF ms'] dst by simp
    show "nr_running r = int (length (members q'))"
      using arg_cong [OF q'(5), of size] nr p by (cases "members ?q") (simp_all add: r_def size_Diff_singleton)
    show "\<forall>p \<in> set (all_members ((rqs s)[c := r])). task_ok (tasks s) p"
      using mset_eq_setD [OF ms'] ok by (auto simp: sched_ok_def)
    show "unat (total_ticket s - ticket (T p)) = tickets_of (tk (tasks s)) (all_members ((rqs s)[c := r]))"
      using sum tot by linarith
  qed (use tt t(2) in \<open>simp_all add: r_def\<close>)
  moreover have "mset (all_members (rqs t)) = mset (all_members (rqs s)) - {#p#}" using ms tt by (metis add_mset_remove_trivial)
  ultimately show ?thesis using that run tt tot q'(2,5) c by (simp add: r_def)
qed

end

section \<open>Picking\<close>

text \<open>The number drawn with the random number \<open>x\<close>.\<close>

abbreviation lucky_number :: "32 word \<Rightarrow> 64 word \<Rightarrow> nat" where
  "lucky_number x tt \<equiv> unat x mod unat tt + 1"

lemma unat_64: "unat (w :: 64 word) < 2 ^ 64"
  using unsigned_less [of w] by simp

lemma unat_ucast_32: "unat (ucast (x :: 32 word) :: 64 word) = unat x"
proof -
  have "unat x < 2 ^ 32" using unsigned_less [of x] by simp
  then show ?thesis by (simp add: unsigned_ucast_eq take_bit_nat_eq_self_iff)
qed

lemma lucky_word:
  assumes "tt \<noteq> 0"
  shows "unat (ucast (x :: 32 word) mod tt + 1 :: 64 word) = lucky_number x tt" "0 < (ucast x mod tt + 1 :: 64 word)"
proof -
  have u: "unat (ucast x mod tt :: 64 word) = unat x mod unat tt" by (simp add: unat_mod unat_ucast_32)
  have "0 < unat tt" using assms by (simp add: unat_gt_0)
  then have "unat x mod unat tt < unat tt" by simp
  then have "unat x mod unat tt + 1 < 2 ^ 64" using unat_64 [of tt] by simp
  then show 1: "unat (ucast x mod tt + 1 :: 64 word) = lucky_number x tt"
    using u by (simp add: unat_add_lt)
  show "0 < (ucast x mod tt + 1 :: 64 word)" using 1 by (metis Suc_eq_plus1 nat.distinct(1) unat_0 word_neq_0_conv)
qed

lemma draw_cong: "(\<And>x. x \<in> set xs \<Longrightarrow> w x = w' x) \<Longrightarrow> draw w xs n = draw w' xs n"
  by (induction xs arbitrary: n) simp_all

lemma tickets_of_queue_le: "c < length rs \<Longrightarrow> tickets_of w (members (lottery_rq (rs ! c))) \<le> tickets_of w (all_members rs)"
proof (induction rs arbitrary: c)
  case (Cons a rs)
  show ?case
  proof (cases c)
    case (Suc d)
    with Cons.IH [of d] Cons.prems show ?thesis by (simp add: all_members_def)
  qed (simp add: all_members_def)
qed simp

context rb_library
begin

lemma who_is_winner_ok:
  assumes ok: "sched_ok E s" and c: "c < length (rqs s)" and tot: "total_ticket s \<noteq> 0"
  obtains t where "who_is_winner E c s = Ret (draw (tk (tasks s)) (members (lottery_rq (rqs s ! c)))
        (lucky_number (e_random_int E (n_random s)) (total_ticket s)), t)" "only_log s t" "log_ok E t"
proof -
  let ?q = "lottery_rq (rqs s ! c)" and ?T = "tasks s"
  define lw where "lw = (ucast (e_random_int E (n_random s)) mod total_ticket s + 1 :: 64 word)"
  let ?d = "draw (tk ?T) (members ?q) (unat lw)"
  have lw: "unat lw = lucky_number (e_random_int E (n_random s)) (total_ticket s)" "0 < lw"
    unfolding lw_def by (rule lucky_word [OF tot])+
  have lg: "log_ok E s" and good: "queue_good ?T ?q" using ok c by (simp_all add: sched_ok_def)
  have tok: "task_ok ?T p" if "p \<in> set (members ?q)" for p
    using ok that all_members_nth [OF c] by (auto simp: sched_ok_def)
  have "tickets_of (tk ?T) (members ?q) \<le> unat (total_ticket s)"
    using ok tickets_of_queue_le [OF c, of "tk ?T"] by (simp add: sched_ok_def)
  then have small: "tickets_of (tk ?T) (members ?q) < 2 ^ 64" using unat_64 [of "total_ticket s"] by simp
  have fin: "\<exists>t. obind (log_now E m LOTTERY_WIN u) (\<lambda>s. Ret (Some p, s)) = Ret (Some p, t) \<and> only_log s t \<and> log_ok E t"
    if u: "only_log s u" "log_ok E u" for u m p
  proof -
    obtain t where "log_now E m LOTTERY_WIN u = Ret t" "only_log u t" "log_ok E t" by (rule log_now_ok [OF u(2)])
    with only_log_trans [OF u(1)] show ?thesis by auto
  qed
  have "\<exists>t. who_is_winner E c s = Ret (?d, t) \<and> only_log s t \<and> log_ok E t"
  proof (cases ?q)
    case (Lottery_list xs)
    have wt: "ticket (?T (lt_task (?T p))) = ticket (?T p)" if "p \<in> set xs" for p
      using tok that Lottery_list by (simp add: members_def task_ok_def)
    have m: "map (\<lambda>p. unat (ticket (?T (lt_task (?T p))))) xs = map (tk ?T) xs" using wt by simp
    have walk: "list_walk ?T lw 0 xs = ?d"
      using ll.walk_draw [of ?T xs lw] small lw(2) draw_cong [of xs "\<lambda>p. unat (ticket (?T (lt_task (?T p))))" "tk ?T"] wt m Lottery_list
      by (simp add: members_def)
    show ?thesis
      using c Lottery_list walk tot lg fin [of "s\<lparr>n_random := Suc (n_random s), lucky_ticket := lw, n_clock := Suc (Suc (n_clock s))\<rparr>"]
      by (cases ?d) (simp_all add: who_is_winner_def pick_winner_task_def Let_def only_log_def flip: lw_def)
  next
    case (Lottery_rb t)
    have wt: "lt_ticket (?T p) = ticket (?T p)" if "p \<in> set (inorder t)" for p
      using tok that Lottery_rb by (simp add: members_def task_ok_def)
    have m: "map (lt_w ?T) (inorder t) = map (tk ?T) (inorder t)" using wt by simp
    have "accu_ok ?T t" using good Lottery_rb by (simp add: queue_good_def)
    then have walk: "rb_walk ?T lw 0 t = ?d"
      using rb.walk_draw [of ?T t lw] small lw(2) draw_cong [of "inorder t" "lt_w ?T" "tk ?T"] wt m Lottery_rb
      by (simp add: members_def)
    show ?thesis
      using c Lottery_rb walk tot lg fin [of "s\<lparr>n_random := Suc (n_random s), lucky_ticket2 := lw, n_clock := Suc (Suc (n_clock s))\<rparr>"]
      by (cases ?d) (simp_all add: who_is_winner_def pick_winner_rb_task_def Let_def only_log_def flip: lw_def)
  qed
  with that lw(1) show ?thesis by auto
qed

lemma pick_next_ok:
  assumes ok: "sched_ok E s" and c: "c < length (rqs s)" and tot: "total_ticket s \<noteq> 0"
  obtains t where "pick_next_task_lottery E c s = Ret (draw (tk (tasks s)) (members (lottery_rq (rqs s ! c)))
        (lucky_number (e_random_int E (n_random s)) (total_ticket s)), t)" "only_log s t" "sched_ok E t"
proof -
  let ?d = "draw (tk (tasks s)) (members (lottery_rq (rqs s ! c))) (lucky_number (e_random_int E (n_random s)) (total_ticket s))"
  obtain u where u: "who_is_winner E c s = Ret (?d, u)" "only_log s u" "log_ok E u" by (rule who_is_winner_ok [OF assms])
  have cu: "arr_get (rqs u) (int c) = Ret (rqs s ! c)" using u(2) c by (simp add: only_log_def)
  show ?thesis
  proof (cases ?d)
    case None
    with that [of u] u tot only_log_ok [OF u(2,3) ok] show ?thesis by (simp add: pick_next_task_lottery_def)
  next
    case (Some p)
    then have "p \<in> set (members (lottery_rq (rqs s ! c)))" by (rule draw_mem)
    then have p: "lt_task (tasks s p) = p" using ok all_members_nth [OF c] by (auto simp: sched_ok_def task_ok_def)
    define m where "m = (let prev = tasks u (curr (rqs s ! c)); next = tasks u (lt_task (tasks u p));
                  luck = (case lottery_rq (rqs s ! c) of Lottery_rb _ \<Rightarrow> lucky_ticket u | Lottery_list _ \<Rightarrow> lucky_ticket2 u) in
              ''PICK prevPID:('' @ fmt_d (pid prev) @ '':'' @ fmt_llu (ticket prev) @ '') nextPID(''
                       @ fmt_d (pid next) @ '':'' @ fmt_llu (ticket next) @ '') LUCK:'' @ fmt_llu luck)"
    obtain t where t: "log_now E m LOTTERY_MSG u = Ret t" "only_log u t" "log_ok E t" by (rule log_now_ok [OF u(3)])
    have st: "only_log s t" by (rule only_log_trans [OF u(2) t(2)])
    then have "lt_task (tasks t p) = p" using p by (simp add: only_log_def)
    then have "pick_next_task_lottery E c s = Ret (Some p, t)"
      using u(1) t(1) cu tot Some by (simp add: pick_next_task_lottery_def m_def Let_def)
    with Some that [of t] st only_log_ok [OF st t(3) ok] show ?thesis by simp
  qed
qed

end

end
