(* ===== verification/LotteryProps.thy ===== *)
theory LotteryProps
  imports LotterySched
begin

text \<open>
  The properties of the lottery scheduling class: its runs keep the invariant, a pick is a draw
  over the tickets of the run queue, every task gets its share, the two policies agree; and
  where the class fails: ticks never preempt, and changing a priority doubles the number of
  tickets.
\<close>

section \<open>Runs\<close>

inductive lottery_run :: "sched_env \<Rightarrow> sched \<Rightarrow> sched \<Rightarrow> bool" for E s where
  start: "lottery_run E s s"
| enqueue: "lottery_run E s t \<Longrightarrow> c < length (rqs t) \<Longrightarrow> p \<notin> set (all_members (rqs t)) \<Longrightarrow> task_ok (tasks t) p \<Longrightarrow>
    unat (total_ticket t) + tk (tasks t) p < 2 ^ 64 \<Longrightarrow> enqueue_task_lottery E c (Some p) t = Ret u \<Longrightarrow> lottery_run E s u"
| dequeue: "lottery_run E s t \<Longrightarrow> c < length (rqs t) \<Longrightarrow> p \<in> set (members (lottery_rq (rqs t ! c))) \<Longrightarrow>
    dequeue_task_lottery E c (Some p) t = Ret u \<Longrightarrow> lottery_run E s u"
| pick: "lottery_run E s t \<Longrightarrow> c < length (rqs t) \<Longrightarrow> pick_next_task_lottery E c t = Ret (w, u) \<Longrightarrow> lottery_run E s u"
| tick: "lottery_run E s t \<Longrightarrow> c < length (rqs t) \<Longrightarrow> task_tick_lottery E c p t = Ret u \<Longrightarrow> lottery_run E s u"

text \<open>A field no queue depends on.\<close>

lemma queue_good_fields:
  assumes "\<forall>x. lt_ticket (T' x) = lt_ticket (T x) \<and> accu_ticket (T' x) = accu_ticket (T x)"
  shows "queue_good T' q = queue_good T q"
proof -
  have "accu_ok T' t = accu_ok T t" for t using assms by (induction t) simp_all
  then show ?thesis by (cases q) (simp_all add: queue_good_def)
qed

lemma sched_ok_fields:
  assumes "sched_ok E s" "\<forall>x. lt_ticket (T x) = lt_ticket (tasks s x) \<and> accu_ticket (T x) = accu_ticket (tasks s x)
     \<and> ticket (T x) = ticket (tasks s x) \<and> lt_task (T x) = lt_task (tasks s x)"
  shows "sched_ok E (s\<lparr>tasks := T\<rparr>)"
  using assms queue_good_fields [of T "tasks s"] by (simp add: sched_ok_def task_ok_def)

lemma resched_ok: "sched_ok E s \<Longrightarrow> sched_ok E (resched_task p s)"
  unfolding resched_task_def upd_task_def by (rule sched_ok_fields) simp_all

lemma log_now_tasks: "log_now E m a s = Ret t \<Longrightarrow> tasks t = tasks s"
  by (auto simp: log_now_def register_lottery_event_def obind_eq_Ret split: if_splits)

lemma pick_winner_tasks:
  "pick_winner_task E q s = Ret (w, t) \<Longrightarrow> tasks t = tasks s"
  "pick_winner_rb_task E r s = Ret (w, t) \<Longrightarrow> tasks t = tasks s"
  by (auto simp: pick_winner_task_def pick_winner_rb_task_def Let_def obind_eq_Ret dest!: log_now_tasks split: if_split_asm option.split_asm)

lemma who_is_winner_tasks: "who_is_winner E c s = Ret (w, t) \<Longrightarrow> tasks t = tasks s"
proof -
  assume w: "who_is_winner E c s = Ret (w, t)"
  then obtain r where r: "arr_get (rqs s) (int c) = Ret r" by (auto simp: who_is_winner_def obind_eq_Ret)
  with w show ?thesis by (cases "lottery_rq r") (auto simp: who_is_winner_def dest!: pick_winner_tasks)
qed

lemma who_is_winner_none: "c < length (rqs s) \<Longrightarrow> log_ok E s \<Longrightarrow> total_ticket s = 0 \<Longrightarrow>
    \<exists>t. who_is_winner E c s = Ret (None, t) \<and> only_log s t \<and> log_ok E t"
  by (auto simp: who_is_winner_def pick_winner_task_def pick_winner_rb_task_def only_log_def split: lottery_queue.splits)

context rb_library
begin

lemma winner_ok:
  assumes "sched_ok E s" "c < length (rqs s)"
  obtains w t where "who_is_winner E c s = Ret (w, t)" "only_log s t" "sched_ok E t"
proof (cases "total_ticket s = 0")
  case True
  then show ?thesis using that who_is_winner_none [OF assms(2), of E] assms(1) only_log_ok by (force simp: sched_ok_def)
next
  case False
  show ?thesis by (rule who_is_winner_ok [OF assms False]) (use that only_log_ok assms(1) in blast)
qed

lemma tick_ok:
  assumes "sched_ok E s" "c < length (rqs s)"
  obtains t where "task_tick_lottery E c p s = Ret t" "sched_ok E t" "rqs t = rqs s" "total_ticket t = total_ticket s"
proof -
  obtain w u where u: "who_is_winner E c s = Ret (w, u)" "only_log s u" "sched_ok E u" by (rule winner_ok [OF assms])
  have r: "rqs (resched_task x v) = rqs v" "total_ticket (resched_task x v) = total_ticket v" for x v
    by (simp_all add: resched_task_def upd_task_def)
  have "\<exists>t. task_tick_lottery E c p s = Ret t \<and> sched_ok E t \<and> rqs t = rqs s \<and> total_ticket t = total_ticket s"
    using u assms resched_ok r
    by (cases w) (simp_all add: task_tick_lottery_def check_preempt_curr_lottery_def only_log_def)
  with that show ?thesis by blast
qed

lemma pick_next_total:
  assumes "sched_ok E s" "c < length (rqs s)"
  shows "\<exists>w t. pick_next_task_lottery E c s = Ret (w, t) \<and> sched_ok E t"
proof (cases "total_ticket s = 0")
  case True
  with assms show ?thesis by (simp add: pick_next_task_lottery_def)
next
  case False
  show ?thesis by (rule pick_next_ok [OF assms False]) blast
qed

lemma run_ok:
  assumes "lottery_run E s t" "sched_ok E s"
  shows "sched_ok E t"
  using assms
proof (induction rule: lottery_run.induct)
  case (enqueue t c p u)
  then show ?case using enqueue_ok [of t c p] by (metis outcome.inject)
next
  case (dequeue t c p u)
  then show ?case using dequeue_ok [of t c p] by (metis outcome.inject)
next
  case (pick t c w u)
  then show ?case using pick_next_total [of t c] by force
next
  case (tick t c p u)
  then show ?case using tick_ok [of t c p] by (metis outcome.inject)
qed

end

section \<open>Two tasks for the examples\<close>

text \<open>Tasks 3 and 5 with as many tickets as their number, on one CPU running task 3.\<close>

definition demo_task :: "nat \<Rightarrow> task_struct" where
  "demo_task p = \<lparr>pid = int p, policy = SCHED_LOTTERY, state = TASK_RUNNING, rt_priority = word_of_nat p, ticket = word_of_nat p,
     on_rq = True, need_resched = False, cpu = 0, lt_task = p, lt_ticket = word_of_nat p, accu_ticket = (if p = 3 then 8 else word_of_nat p)\<rparr>"

definition demo_sched :: "lottery_queue \<Rightarrow> sched" where
  "demo_sched q = \<lparr>tasks = demo_task, rqs = [\<lparr>lottery_rq = q, nr_running = 2, curr = 3\<rparr>], total_ticket = 8, lucky_ticket = 0, lucky_ticket2 = 0,
     events = replicate 2 \<lparr>action = LOTTERY_MSG, timestamp = 0, msg = []\<rparr>, lines = 0, cursor = 0, n_clock = 0, n_random = 0\<rparr>"

definition demo_list :: sched where "demo_list = demo_sched (Lottery_list [3, 5])"
definition demo_tree :: sched where "demo_tree = demo_sched (Lottery_rb (Node Leaf 3 (Node Leaf 5 Leaf)))"

lemma demo_sched_ok: "sched_ok (plain_env rnd) demo_list" "sched_ok (plain_env rnd) demo_tree"
  by (simp_all add: demo_list_def demo_tree_def demo_sched_def sched_ok_def all_members_def members_def queue_good_def task_ok_def
      demo_task_def log_ok_def plain_env_def)

section \<open>Changing the parameters of a task\<close>

lemma sched_ok_unqueued:
  assumes ok: "sched_ok E s" and p: "p \<notin> set (all_members (rqs s))"
  shows "sched_ok E (upd_task p f s)"
proof -
  have "queue_good ((tasks s)(p := x)) (lottery_rq r) = queue_good (tasks s) (lottery_rq r)" if "r \<in> set (rqs s)" for r x
    by (rule queue_good_cong) (use p that in \<open>auto simp: all_members_def\<close>)
  moreover have "tickets_of (\<lambda>y. unat (ticket (if y = p then x else tasks s y))) (all_members (rqs s)) = tickets_of (tk (tasks s)) (all_members (rqs s))" for x
    by (rule arg_cong [of _ _ sum_list], rule map_cong) (use p in auto)
  moreover have "\<forall>x \<in> set (all_members (rqs s)). x \<noteq> p" using p by blast
  ultimately show ?thesis using ok by (simp add: sched_ok_def upd_task_def task_ok_def log_ok_def)
qed

lemma total_words:
  assumes "sched_ok E s"
  shows "total_ticket s = sum_list (map (\<lambda>p. ticket (tasks s p)) (all_members (rqs s)))"
proof -
  have t: "unat (total_ticket s) = tickets_of (tk (tasks s)) (all_members (rqs s))" using assms by (simp add: sched_ok_def)
  then have "tickets_of (tk (tasks s)) (all_members (rqs s)) < 2 ^ 64" using unat_64 [of "total_ticket s"] by simp
  from unat_sum_list [OF this] t show ?thesis by (metis word_unat_eq_iff)
qed

lemma total_fold:
  "foldl (\<lambda>s t. s\<lparr>total_ticket := total_ticket s + ticket (tasks s (lt_task (tasks s t)))\<rparr>) s q
   = s\<lparr>total_ticket := total_ticket s + sum_list (map (\<lambda>t. ticket (tasks s (lt_task (tasks s t)))) q)\<rparr>"
  by (induction q arbitrary: s) (simp_all add: add.assoc)

lemma prio_fold:
  "foldl (\<lambda>s t. if p = lt_task (tasks s t)
     then s\<lparr>total_ticket := total_ticket s + ticket (tasks s (lt_task (tasks s t))),
            total_ticket := total_ticket (s\<lparr>total_ticket := total_ticket s + ticket (tasks s (lt_task (tasks s t)))\<rparr>) + scast (0 :: 32 word)\<rparr>
     else s\<lparr>total_ticket := total_ticket s + ticket (tasks s (lt_task (tasks s t)))\<rparr>) s q
   = s\<lparr>total_ticket := total_ticket s + sum_list (map (\<lambda>t. ticket (tasks s (lt_task (tasks s t)))) q)\<rparr>" (is "foldl ?F s q = _")
proof -
  have "?F = (\<lambda>s t. s\<lparr>total_ticket := total_ticket s + ticket (tasks s (lt_task (tasks s t)))\<rparr>)" by (intro ext) simp
  then show ?thesis by (simp only: total_fold)
qed

lemma log_now_rqs: "log_now E m a s = Ret t \<Longrightarrow> rqs t = rqs s"
  by (auto simp: log_now_def register_lottery_event_def obind_eq_Ret split: if_splits)

text \<open>A list stays a list.\<close>

definition is_list :: "nat \<Rightarrow> sched \<Rightarrow> bool" where
  "is_list c s \<longleftrightarrow> c < length (rqs s) \<and> (\<exists>q. lottery_rq (rqs s ! c) = Lottery_list q)"

lemma is_list_upd: "(rqs s)[c := r] = rqs t \<Longrightarrow> c < length (rqs s) \<Longrightarrow> is_list c t \<longleftrightarrow> (\<exists>q. lottery_rq r = Lottery_list q)"
  unfolding is_list_def by (metis length_list_update nth_list_update_eq)

lemma enqueue_list: "enqueue_task_lottery E c (Some p) s = Ret t \<Longrightarrow> is_list c s \<Longrightarrow> is_list c t"
  by (auto simp: enqueue_task_lottery_def is_list_def [of c s] queue_insert_def upd_rq_def obind_eq_Ret Let_def
      dest!: log_now_rqs [THEN sym]) (drule is_list_upd, simp_all)

lemma dequeue_list: "dequeue_task_lottery E c (Some p) s = Ret t \<Longrightarrow> is_list c s \<Longrightarrow> is_list c t"
  by (auto simp: dequeue_task_lottery_def is_list_def [of c s] queue_remove_def upd_rq_def obind_eq_Ret Let_def
      dest!: log_now_rqs [THEN sym] split: if_splits) (drule is_list_upd, simp, simp)+

lemma priority_words:
  assumes "0 \<le> prio" "prio \<le> 99"
  shows "ucast (word_of_int prio :: 32 word) = (word_of_int prio :: 64 word)" "unat (word_of_int prio :: 64 word) \<le> 99"
proof -
  obtain n where n: "prio = int n" "n \<le> 99" using assms by (metis nonneg_int_cases of_nat_le_iff of_nat_numeral)
  have u: "unat (word_of_nat n :: 32 word) = n" "unat (word_of_nat n :: 64 word) = n"
    using n(2) by (simp_all add: unat_of_nat take_bit_nat_eq_self)
  then show "unat (word_of_int prio :: 64 word) \<le> 99" using n by simp
  show "ucast (word_of_int prio :: 32 word) = (word_of_int prio :: 64 word)"
    using u unat_ucast_32 [of "word_of_nat n"] by (simp add: n(1) word_unat_eq_iff)
qed

text \<open>On one CPU, a priority change that leaves the ticket as it is adds the whole queue to the total.\<close>

lemma prio_changed_doubles:
  assumes ok: "sched_ok E s" and l: "is_list 0 s" "length (rqs s) = 1" and p: "ucast (rt_priority (tasks s p)) = ticket (tasks s p)"
  shows "\<exists>t. prio_changed_lottery 0 p s = Ret t \<and> total_ticket t = 2 * total_ticket s"
proof -
  obtain r q where r: "rqs s = [r]" "lottery_rq r = Lottery_list q" using l by (cases "rqs s") (auto simp: is_list_def)
  have am: "all_members (rqs s) = q" using r by (simp add: all_members_def members_def)
  have id: "upd_task p (\<lambda>t. t\<lparr>ticket := ucast (rt_priority t)\<rparr>) s = s" using p by (simp add: upd_task_def)
  have "sum_list (map (\<lambda>t. ticket (tasks s (lt_task (tasks s t)))) q) = sum_list (map (\<lambda>t. ticket (tasks s t)) q)"
    by (rule arg_cong [of _ _ sum_list], rule map_cong) (use ok am in \<open>simp_all add: sched_ok_def task_ok_def\<close>)
  then have "sum_list (map (\<lambda>t. ticket (tasks s (lt_task (tasks s t)))) q) = total_ticket s"
    using total_words [OF ok] am by simp
  then show ?thesis using r prio_fold [of p s q] by (simp add: prio_changed_lottery_def id p arr_get_def in_range_def Let_def)
qed

section \<open>Properties\<close>

text \<open>
  C19.  After every run of enqueues, dequeues, picks and ticks, no task is queued twice, the
  counters of the run queues and the global number of tickets are right, and the event log stays
  in its array; and each of the four operations returns where its precondition holds.  An enqueue
  of a task that is on no queue, and whose tickets do not overflow the total, adds the task and its
  tickets; a dequeue of a queued task takes them away.
\<close>

theorem lottery_run_invariant:
  assumes "rb_library E" and "sched_ok E s" and "lottery_run E s t"
  shows "sched_ok E t \<and> (\<forall>c < length (rqs t). (\<exists>w u. pick_next_task_lottery E c t = Ret (w, u))
     \<and> (\<forall>p. \<exists>u. task_tick_lottery E c p t = Ret u)
     \<and> (\<forall>p. p \<notin> set (all_members (rqs t)) \<and> task_ok (tasks t) p \<and> unat (total_ticket t) + tk (tasks t) p < 2 ^ 64 \<longrightarrow>
          (\<exists>u. enqueue_task_lottery E c (Some p) t = Ret u \<and> length (rqs u) = length (rqs t)
             \<and> unat (total_ticket u) = unat (total_ticket t) + tk (tasks t) p
             \<and> mset (members (lottery_rq (rqs u ! c))) = add_mset p (mset (members (lottery_rq (rqs t ! c))))))
     \<and> (\<forall>p \<in> set (members (lottery_rq (rqs t ! c))).
          \<exists>u. dequeue_task_lottery E c (Some p) t = Ret u \<and> unat (total_ticket u) + tk (tasks t) p = unat (total_ticket t)
             \<and> mset (all_members (rqs u)) = mset (all_members (rqs t)) - {#p#}))"
proof -
  have ok: "sched_ok E t" by (rule rb_library.run_ok [OF assms(1,3,2)])
  have "\<exists>u. task_tick_lottery E c p t = Ret u" if "c < length (rqs t)" for c p
    using rb_library.tick_ok [OF assms(1) ok that] by metis
  moreover have "\<exists>u. enqueue_task_lottery E c (Some p) t = Ret u \<and> length (rqs u) = length (rqs t)
      \<and> unat (total_ticket u) = unat (total_ticket t) + tk (tasks t) p
      \<and> mset (members (lottery_rq (rqs u ! c))) = add_mset p (mset (members (lottery_rq (rqs t ! c))))"
    if "c < length (rqs t)" "p \<notin> set (all_members (rqs t))" "task_ok (tasks t) p" "unat (total_ticket t) + tk (tasks t) p < 2 ^ 64" for c p
    using rb_library.enqueue_ok [OF assms(1) ok that] by metis
  moreover have "\<exists>u. dequeue_task_lottery E c (Some p) t = Ret u \<and> unat (total_ticket u) + tk (tasks t) p = unat (total_ticket t)
      \<and> mset (all_members (rqs u)) = mset (all_members (rqs t)) - {#p#}"
    if "c < length (rqs t)" "p \<in> set (members (lottery_rq (rqs t ! c)))" for c p
    using rb_library.dequeue_ok [OF assms(1) ok that] by metis
  ultimately show ?thesis using ok rb_library.pick_next_total [OF assms(1) ok] by blast
qed

theorem lottery_run_invariant_witness:
  "\<exists>u v. enqueue_task_lottery (plain_env (\<lambda>_. 6)) 0 (Some 7) demo_tree = Ret u \<and> unat (total_ticket u) = 15
     \<and> dequeue_task_lottery (plain_env (\<lambda>_. 6)) 0 (Some 5) u = Ret v \<and> sched_ok (plain_env (\<lambda>_. 6)) v"
proof -
  let ?E = "plain_env (\<lambda>_. 6)"
  note run = lottery_run_invariant [OF pe.rb_library_axioms demo_sched_ok(2)]
  have c: "0 < length (rqs demo_tree)" and p: "7 \<notin> set (all_members (rqs demo_tree))" "task_ok (tasks demo_tree) 7"
    "unat (total_ticket demo_tree) + tk (tasks demo_tree) 7 < 2 ^ 64" "unat (total_ticket demo_tree) + tk (tasks demo_tree) 7 = 15"
    "5 \<in> set (members (lottery_rq (rqs demo_tree ! 0)))"
    by (simp_all add: demo_tree_def demo_sched_def all_members_def members_def task_ok_def demo_task_def)
  obtain u where u: "enqueue_task_lottery ?E 0 (Some 7) demo_tree = Ret u" "length (rqs u) = length (rqs demo_tree)" "unat (total_ticket u) = 15"
    "mset (members (lottery_rq (rqs u ! 0))) = add_mset 7 (mset (members (lottery_rq (rqs demo_tree ! 0))))"
    using run [OF lottery_run.start, of "\<lambda>_. 6"] c p(1-4) by metis
  have ru: "lottery_run ?E demo_tree u" by (rule lottery_run.enqueue [OF lottery_run.start c p(1-3) u(1)])
  have "5 \<in> set (members (lottery_rq (rqs u ! 0)))" using u(4) p(5) by (metis insert_iff set_mset_add_mset_insert set_mset_mset)
  with run [OF ru] c u(2) obtain v where v: "dequeue_task_lottery ?E 0 (Some 5) u = Ret v" by metis
  have "0 < length (rqs u)" using c u(2) by simp
  from lottery_run.dequeue [OF ru this _ v] run have "sched_ok ?E v"
    using \<open>5 \<in> set (members (lottery_rq (rqs u ! 0)))\<close> by blast
  with u(1,3) v show ?thesis by blast
qed

text \<open>
  C17.  Picking the next task draws a ticket: the task whose interval of ticket numbers, in the
  order of the queue, contains the lucky number is chosen; if the number lies beyond the tickets
  of this CPU, none is.
\<close>

theorem lottery_pick_draws:
  assumes "rb_library E" and "sched_ok E s" and "c < length (rqs s)" and "total_ticket s \<noteq> 0"
  shows "\<exists>t. pick_next_task_lottery E c s = Ret (draw (tk (tasks s)) (members (lottery_rq (rqs s ! c)))
        (lucky_number (e_random_int E (n_random s)) (total_ticket s)), t)
     \<and> tasks t = tasks s \<and> rqs t = rqs s \<and> total_ticket t = total_ticket s"
  using rb_library.pick_next_ok [OF assms] unfolding only_log_def by metis

theorem lottery_pick_draws_witness:
  "\<exists>t u. pick_next_task_lottery (plain_env (\<lambda>_. 11)) 0 demo_tree = Ret (Some 5, t)
     \<and> pick_next_task_lottery (plain_env (\<lambda>_. 10)) 0 demo_tree = Ret (Some 3, u)"
  using lottery_pick_draws [OF pe.rb_library_axioms demo_sched_ok(2), of 0 "\<lambda>_. 11"]
    lottery_pick_draws [OF pe.rb_library_axioms demo_sched_ok(2), of 0 "\<lambda>_. 10"]
  by (auto simp: demo_tree_def demo_sched_def plain_env_def members_def demo_task_def)

text \<open>
  C18.  Proportional share: on a single CPU with at most \<open>2 ^ 32\<close> tickets, among the numbers
  below the number of tickets exactly as many random numbers make a queued task win as it holds
  tickets, so a task with a ticket can always win.
\<close>

theorem lottery_proportional:
  assumes "rb_library E" and "sched_ok E s" and "length (rqs s) = 1" and "unat (total_ticket s) \<le> 2 ^ 32"
    and "p \<in> set (members (lottery_rq (rqs s ! 0)))" and "0 < ticket (tasks s p)"
  shows "card {x. x < unat (total_ticket s) \<and>
      (\<exists>t. pick_next_task_lottery (E\<lparr>e_random_int := \<lambda>_. word_of_nat x\<rparr>) 0 s = Ret (Some p, t))} = unat (ticket (tasks s p))"
proof -
  let ?q = "members (lottery_rq (rqs s ! 0))" and ?w = "tk (tasks s)" and ?n = "unat (total_ticket s)"
  have c: "0 < length (rqs s)" using assms(3) by simp
  have rs: "rqs s = [rqs s ! 0]" using assms(3) by (cases "rqs s") auto
  then have am: "all_members (rqs s) = ?q" by (metis all_members_def concat.simps list.simps(8,9) append_Nil2)
  have d: "distinct ?q" and n: "?n = tickets_of ?w ?q" using assms(2) am by (simp_all add: sched_ok_def)
  have "?w p \<le> tickets_of ?w ?q" by (rule member_le_sum_list) (use assms(5) in simp_all)
  moreover have "0 < ?w p" using assms(6) by (simp add: word_less_nat_alt)
  ultimately have "0 < ?n" unfolding n by (rule less_le_trans [rotated])
  then have n0: "total_ticket s \<noteq> 0" by auto
  have ok: "rb_library (E\<lparr>e_random_int := f\<rparr>)" "sched_ok (E\<lparr>e_random_int := f\<rparr>) s" for f
    using assms(1,2) by (simp_all add: rb_library_def sched_ok_def log_ok_def)
  have iff: "(\<exists>t. pick_next_task_lottery (E\<lparr>e_random_int := \<lambda>_. word_of_nat x\<rparr>) 0 s = Ret (Some p, t)) \<longleftrightarrow> draw ?w ?q (x + 1) = Some p"
    if x: "x < ?n" for x
  proof -
    have "unat (word_of_nat x :: 32 word) = x" using x assms(4) by (simp add: unat_of_nat take_bit_nat_eq_self)
    then have "lucky_number (word_of_nat x) (total_ticket s) = x + 1" using x by simp
    moreover have "e_random_int (E\<lparr>e_random_int := \<lambda>_. word_of_nat x\<rparr>) (n_random s) = word_of_nat x" by simp
    ultimately have "draw ?w ?q (lucky_number (e_random_int (E\<lparr>e_random_int := \<lambda>_. word_of_nat x\<rparr>) (n_random s)) (total_ticket s)) = draw ?w ?q (x + 1)"
      by (simp only:)
    then obtain t where "pick_next_task_lottery (E\<lparr>e_random_int := \<lambda>_. word_of_nat x\<rparr>) 0 s = Ret (draw ?w ?q (x + 1), t)"
      using rb_library.pick_next_ok [OF ok c n0, of "\<lambda>_. word_of_nat x"] by metis
    then show ?thesis by simp
  qed
  have "bij_betw Suc {x. x < ?n \<and> draw ?w ?q (x + 1) = Some p} {m. 0 < m \<and> draw ?w ?q m = Some p}"
    unfolding bij_betw_def
  proof
    show "Suc ` {x. x < ?n \<and> draw ?w ?q (x + 1) = Some p} = {m. 0 < m \<and> draw ?w ?q m = Some p}"
      using draw_share(1) [OF d assms(5), of ?w] n by (force simp: image_iff gr0_conv_Suc)
  qed simp
  from bij_betw_same_card [OF this] draw_share(2) [OF d assms(5), of ?w]
  have "card {x. x < ?n \<and> draw ?w ?q (x + 1) = Some p} = ?w p" by (rule trans)
  moreover have "{x. x < ?n \<and> (\<exists>t. pick_next_task_lottery (E\<lparr>e_random_int := \<lambda>_. word_of_nat x\<rparr>) 0 s = Ret (Some p, t))}
      = {x. x < ?n \<and> draw ?w ?q (x + 1) = Some p}" using iff by blast
  ultimately show ?thesis by simp
qed

theorem lottery_proportional_witness:
  "card {x. x < 8 \<and> (\<exists>t. pick_next_task_lottery ((plain_env (\<lambda>_. 0))\<lparr>e_random_int := \<lambda>_. word_of_nat x\<rparr>) 0 demo_tree = Ret (Some 5, t))} = 5"
  using lottery_proportional [OF pe.rb_library_axioms demo_sched_ok(2), of 5 "\<lambda>_. 0"]
  by (simp add: demo_tree_def demo_sched_def members_def demo_task_def)

text \<open>
  C25.  The augmented tree is an implementation of the list: walking the tree with right sums
  finds the task that the list policy finds in the tree's order.
\<close>

theorem lottery_tree_list_equiv:
  assumes "accu_ok T t" and "\<forall>p \<in> set_tree t. task_ok T p" and "tickets_of (tk T) (inorder t) < 2 ^ 64" and "0 < lucky"
  shows "rb_walk T lucky 0 t = list_walk T lucky 0 (inorder t)"
proof -
  have m: "map (lt_w T) (inorder t) = map (tk T) (inorder t)"
    "map (\<lambda>p. unat (ticket (T (lt_task (T p))))) (inorder t) = map (tk T) (inorder t)"
    using assms(2) by (simp_all add: task_ok_def)
  have "rb_walk T lucky 0 t = draw (tk T) (inorder t) (unat lucky)"
    using rb_walk_draw [OF assms(1), of 0 lucky] draw_cong [of "inorder t" "lt_w T" "tk T"] m assms by (simp add: task_ok_def)
  moreover have "list_walk T lucky 0 (inorder t) = draw (tk T) (inorder t) (unat lucky)"
    using ll.walk_draw [of T "inorder t" lucky] draw_cong [of "inorder t" "\<lambda>p. unat (ticket (T (lt_task (T p))))" "tk T"] m assms
    by (simp add: task_ok_def)
  ultimately show ?thesis by simp
qed

theorem lottery_tree_list_equiv_witness:
  "rb_walk demo_task 4 0 (Node Leaf 3 (Node Leaf 5 Leaf)) = list_walk demo_task 4 0 [3, 5]"
  using lottery_tree_list_equiv [of demo_task "Node Leaf 3 (Node Leaf 5 Leaf)" 4]
  by (simp add: demo_task_def task_ok_def)

text \<open>
  C37.  A timer tick on a CPU that runs a lottery task draws a winner and, if it is another task,
  marks exactly this task for rescheduling; the running task is never asked to give way.
\<close>

theorem lottery_tick_never_preempts:
  assumes "c < length (rqs s)" and "curr (rqs s ! c) = p" and "policy (tasks s p) = SCHED_LOTTERY"
    and "task_tick_lottery E c p s = Ret t"
  shows "\<exists>w u. who_is_winner E c s = Ret (w, u) \<and> need_resched (tasks t p) = need_resched (tasks s p)
     \<and> (\<forall>q. q \<noteq> p \<longrightarrow> need_resched (tasks t q) = (need_resched (tasks s q) \<or> (\<exists>x. w = Some x \<and> lt_task (tasks s x) = q)))"
proof -
  from assms obtain w u where u: "who_is_winner E c s = Ret (w, u)"
    and t: "(case w of None \<Rightarrow> Ret u | Some x \<Rightarrow> if p \<noteq> lt_task (tasks u x) then Ret (resched_task (lt_task (tasks u x)) u) else Ret u) = Ret t"
    by (auto simp: task_tick_lottery_def check_preempt_curr_lottery_def obind_eq_Ret)
  have e: "tasks u = tasks s" by (rule who_is_winner_tasks [OF u])
  have "need_resched (tasks t p) = need_resched (tasks s p)"
    using t e by (auto simp: resched_task_def upd_task_def split: option.splits if_splits)
  moreover have "\<forall>q. q \<noteq> p \<longrightarrow> need_resched (tasks t q) = (need_resched (tasks s q) \<or> (\<exists>x. w = Some x \<and> lt_task (tasks s x) = q))"
    using t e by (auto simp: resched_task_def upd_task_def split: option.splits if_splits)
  ultimately show ?thesis using u by blast
qed

theorem lottery_tick_never_preempts_witness:
  "\<exists>t. task_tick_lottery (plain_env (\<lambda>_. 11)) 0 3 demo_list = Ret t \<and> \<not> need_resched (tasks t 3) \<and> need_resched (tasks t 5)"
proof -
  let ?E = "plain_env (\<lambda>_. 11)"
  obtain t where t: "task_tick_lottery ?E 0 3 demo_list = Ret t"
    by (rule rb_library.tick_ok [OF pe.rb_library_axioms demo_sched_ok(1), of 0]) (auto simp: demo_list_def demo_sched_def)
  have c: "0 < length (rqs demo_list)" "total_ticket demo_list \<noteq> 0" by (simp_all add: demo_list_def demo_sched_def)
  have f: "curr (rqs demo_list ! 0) = 3" "policy (tasks demo_list 3) = SCHED_LOTTERY" "\<not> need_resched (tasks demo_list 3)" "lt_task (tasks demo_list 5) = 5"
    by (simp_all add: demo_list_def demo_sched_def demo_task_def)
  from lottery_tick_never_preempts [OF c(1) f(1,2) t]
  obtain w u where w: "who_is_winner ?E 0 demo_list = Ret (w, u)" "need_resched (tasks t 3) = need_resched (tasks demo_list 3)"
    "\<forall>q. q \<noteq> 3 \<longrightarrow> need_resched (tasks t q) = (need_resched (tasks demo_list q) \<or> (\<exists>x. w = Some x \<and> lt_task (tasks demo_list x) = q))"
    by (elim exE conjE) (rule that)
  have "draw (tk (tasks demo_list)) (members (lottery_rq (rqs demo_list ! 0)))
      (lucky_number (e_random_int ?E (n_random demo_list)) (total_ticket demo_list)) = Some 5"
    by (simp add: demo_list_def demo_sched_def members_def demo_task_def plain_env_def)
  then obtain u' where "who_is_winner ?E 0 demo_list = Ret (Some 5, u')"
    using rb_library.who_is_winner_ok [OF pe.rb_library_axioms demo_sched_ok(1) c] by metis
  then have "w = Some 5" using w(1) by simp
  with w(2,3) t f show ?thesis by auto
qed

text \<open>
  Changing the parameters of a queued lottery task under the list policy, on one CPU, counts
  every ticket twice: afterwards \<open>total_ticket\<close> is twice the number of tickets in the queue.
\<close>

theorem lottery_setscheduler_doubles:
  assumes "rb_library E" and "sched_ok E s" and "rqs s = [r]" and "lottery_rq r = Lottery_list q" and "p \<in> set q"
    and "policy (tasks s p) = SCHED_LOTTERY" "on_rq (tasks s p)" and "0 < prio" "prio \<le> 99" and "unat (total_ticket s) + 99 < 2 ^ 64"
  shows "\<exists>t. setscheduler_lottery E 0 p prio s = Ret (0, t) \<and> total_ticket t = 2 * (total_ticket s - ticket (tasks s p) + word_of_int prio)"
proof -
  have c: "0 < length (rqs s)" using assms(3) by simp
  have pm: "p \<in> set (members (lottery_rq (rqs s ! 0)))" using assms(3-5) by (simp add: members_def)
  obtain s1 where s1: "dequeue_task_lottery E 0 (Some p) s = Ret s1" "sched_ok E s1" "mset (all_members (rqs s1)) = mset (all_members (rqs s)) - {#p#}"
    "unat (total_ticket s1) + tk (tasks s) p = unat (total_ticket s)" "length (rqs s1) = length (rqs s)"
    using rb_library.dequeue_ok [OF assms(1,2) c pm] by metis
  have p1: "p \<notin> set (all_members (rqs s1))"
  proof -
    have "mset (all_members (rqs s1)) = mset (remove1 p (all_members (rqs s)))" using s1(3) by simp
    then show ?thesis using assms(2) by (metis mset_eq_setD sched_ok_def set_remove1_eq Diff_iff singletonI)
  qed
  define s2 where "s2 = set_lottery_params p prio (upd_task p (\<lambda>t. t\<lparr>on_rq := False\<rparr>) s1)"
  have ok2: "sched_ok E s2" unfolding s2_def set_lottery_params_def
    by (rule sched_ok_unqueued [OF sched_ok_unqueued [OF s1(2) p1]]) (use p1 in \<open>simp add: upd_task_def\<close>)
  have f2: "rqs s2 = rqs s1" "total_ticket s2 = total_ticket s1" "task_ok (tasks s2) p" "ticket (tasks s2 p) = word_of_int prio"
    "rt_priority (tasks s2 p) = word_of_int prio"
    by (simp_all add: s2_def set_lottery_params_def upd_task_def task_ok_def)
  have pw: "ucast (word_of_int prio :: 32 word) = (word_of_int prio :: 64 word)" "unat (word_of_int prio :: 64 word) \<le> 99"
    by (rule priority_words; use assms(8,9) in simp)+
  have fit: "unat (total_ticket s2) + tk (tasks s2) p < 2 ^ 64" using pw(2) s1(4) assms(10) f2 by simp
  have c2: "0 < length (rqs s2)" "p \<notin> set (all_members (rqs s2))" using f2 s1(5) c p1 by simp_all
  obtain s3 where s3: "enqueue_task_lottery E 0 (Some p) s2 = Ret s3" "sched_ok E s3" "same_tasks (tasks s2) (tasks s3)"
    "unat (total_ticket s3) = unat (total_ticket s2) + tk (tasks s2) p" "length (rqs s3) = length (rqs s2)"
    using rb_library.enqueue_ok [OF assms(1) ok2 c2 f2(3) fit] by metis
  define s4 where "s4 = upd_task p (\<lambda>t. t\<lparr>on_rq := True\<rparr>) s3"
  have ok4: "sched_ok E s4" unfolding s4_def upd_task_def by (rule sched_ok_fields [OF s3(2)]) simp
  have "is_list 0 s" using assms(3,4) by (simp add: is_list_def)
  then have "is_list 0 s1" by (rule dequeue_list [OF s1(1)])
  then have "is_list 0 s2" by (simp add: is_list_def f2)
  then have "is_list 0 s3" by (rule enqueue_list [OF s3(1)])
  then have l4: "is_list 0 s4" "length (rqs s4) = 1" using s3(5) s1(5) f2(1) assms(3) by (simp_all add: is_list_def s4_def upd_task_def)
  have p4: "ucast (rt_priority (tasks s4 p)) = ticket (tasks s4 p)"
    using same_tasksD(4,5) [OF s3(3)] f2 pw(1) by (simp add: s4_def upd_task_def)
  obtain t where t: "prio_changed_lottery 0 p s4 = Ret t" "total_ticket t = 2 * total_ticket s4"
    using prio_changed_doubles [OF ok4 l4 p4] by blast
  have "setscheduler_lottery E 0 p prio s = Ret (0, t)"
    using assms(6-9) s1(1) s3(1) t(1)
    by (simp add: setscheduler_lottery_def rt_policy_def dequeue_task_def enqueue_task_def Let_def flip: s2_def s4_def)
  moreover have "total_ticket s4 = total_ticket s - ticket (tasks s p) + word_of_int prio"
  proof -
    have "total_ticket s3 = total_ticket s2 + ticket (tasks s2 p)" using s3(4) unat_add_lt [OF fit] by (simp add: word_unat_eq_iff)
    moreover have "total_ticket s1 + ticket (tasks s p) = total_ticket s"
      using s1(4) unat_add_lt [of "total_ticket s1" "ticket (tasks s p)"] unat_64 [of "total_ticket s"] by (simp add: word_unat_eq_iff)
    ultimately show ?thesis using f2 by (simp add: s4_def upd_task_def eq_diff_eq)
  qed
  ultimately show ?thesis using t(2) by simp
qed

theorem lottery_setscheduler_doubles_witness:
  "\<exists>t. setscheduler_lottery (plain_env (\<lambda>_. 0)) 0 5 7 demo_list = Ret (0, t) \<and> total_ticket t = 20"
proof -
  have "\<exists>t. setscheduler_lottery (plain_env (\<lambda>_. 0)) 0 5 7 demo_list = Ret (0, t)
     \<and> total_ticket t = 2 * (total_ticket demo_list - ticket (tasks demo_list 5) + word_of_int 7)"
    by (rule lottery_setscheduler_doubles [OF pe.rb_library_axioms demo_sched_ok(1), where q = "[3, 5]"
        and r = "\<lparr>lottery_rq = Lottery_list [3, 5], nr_running = 2, curr = 3\<rparr>"]) (simp_all add: demo_list_def demo_sched_def demo_task_def)
  then show ?thesis by (simp add: demo_list_def demo_sched_def demo_task_def)
qed

end
