(* ===== verification/Driver.thy ===== *)
theory Driver
  imports Prelude "HOL-Library.Tree"
begin

text \<open>
  The module that exercises the kernel's data structures (\<open>p2/driver.c\<close>): a linked list, a
  kfifo, an idr map and a red-black tree of \<open>dstruct_size\<close> elements.  Random numbers, the
  allocator, and the kfifo, idr and red-black libraries are parameters.  The state keeps the
  pairs printed for the elements, the numbers of the trees printed, the number of objects that
  are allocated, and the module's globals.
\<close>

section \<open>State\<close>

record car =
  num :: int
  price_in_dollars :: int

text \<open>
  \<open>d_rand n\<close>: the \<open>n\<close>-th number of \<open>get_random_bytes\<close>; \<open>d_alloc n\<close>: the \<open>n\<close>-th \<open>kmalloc\<close> succeeds;
  \<open>fifo_init b\<close>: return code of \<open>kfifo_init\<close> for a buffer of \<open>b\<close> bytes and the size of the fifo;
  \<open>idr_pick m a b\<close>: what \<open>idr_alloc\<close> returns for the range from \<open>a\<close> to \<open>b\<close> when \<open>m\<close> are the ids in use.
\<close>

record drv_env =
  d_rand :: "nat \<Rightarrow> 32 word"
  d_alloc :: "nat \<Rightarrow> bool"
  fifo_init :: "nat \<Rightarrow> int \<times> nat"
  idr_pick :: "(int \<rightharpoonup> car) \<Rightarrow> int \<Rightarrow> int \<Rightarrow> int"
  rb_color :: "int \<Rightarrow> int tree \<Rightarrow> int tree"
  rb_del :: "int \<Rightarrow> int tree \<Rightarrow> int tree"

record drv =
  n_rand :: nat
  n_alloc :: nat
  live :: int
  cars_out :: "(int \<times> int) list"
  trees_out :: "int list list"
  g_rand_int_arry :: "int list"

definition random_int :: "drv_env \<Rightarrow> drv \<Rightarrow> int \<times> drv" where
  "random_int E s = (sint (d_rand E (n_rand s)), s\<lparr>n_rand := n_rand s + 1\<rparr>)"

definition kmalloc :: "drv_env \<Rightarrow> drv \<Rightarrow> bool \<times> drv" where
  "kmalloc E s = (if d_alloc E (n_alloc s) then (True, s\<lparr>n_alloc := n_alloc s + 1, live := live s + 1\<rparr>)
                  else (False, s\<lparr>n_alloc := n_alloc s + 1\<rparr>))"

definition kfree :: "drv \<Rightarrow> drv" where
  "kfree s = s\<lparr>live := live s - 1\<rparr>"

definition print_car :: "car \<Rightarrow> drv \<Rightarrow> drv" where
  "print_car c s = s\<lparr>cars_out := cars_out s @ [(num c, price_in_dollars c)]\<rparr>"

text \<open>The static flag \<open>abs\<close> is never set.\<close>

definition abs_flag :: bool where "abs_flag = False"

definition price :: "int \<Rightarrow> int \<Rightarrow> int" where
  "price dstruct_size r = (if abs_flag then \<bar>r\<bar> mod dstruct_size else r)"

section \<open>Linked list\<close>

fun add_cars :: "drv_env \<Rightarrow> int \<Rightarrow> nat list \<Rightarrow> car list \<Rightarrow> drv \<Rightarrow> bool \<times> car list \<times> drv" where
  "add_cars E n [] l s = (True, l, s)"
| "add_cars E n (i # is) l s =
     (case kmalloc E s of (ok, s) \<Rightarrow>
      if \<not> ok then (False, l, s)
      else case random_int E s of (r, s) \<Rightarrow>
        add_cars E n is (l @ [\<lparr>num = int i, price_in_dollars = price n r\<rparr>]) s)"

definition LinkedList :: "drv_env \<Rightarrow> int \<Rightarrow> drv \<Rightarrow> int \<times> drv" where
  "LinkedList E n s =
     (case add_cars E n [0..<nat n] [] s of (ok, l, s) \<Rightarrow>
      if \<not> ok then (- 1, s)
      else if l = [] then (- 1, s)
      else (0, foldl (\<lambda>s c. kfree (print_car c s)) s l))"

definition LinkedList_1 :: "drv_env \<Rightarrow> int \<Rightarrow> car list \<Rightarrow> drv \<Rightarrow> int \<times> car list \<times> drv" where
  "LinkedList_1 E n l s =
     (case add_cars E n [0..<nat n] l s of (ok, l, s) \<Rightarrow> if \<not> ok then (- 1, l, s) else (0, l, s))"

definition LinkedList_2 :: "car list \<Rightarrow> drv \<Rightarrow> int \<times> drv" where
  "LinkedList_2 l s = (if l = [] then (- 1, s) else (0, foldl (\<lambda>s c. print_car c s) s l))"

definition LinkedList_3 :: "car list \<Rightarrow> drv \<Rightarrow> int \<times> car list \<times> drv" where
  "LinkedList_3 l s = (if l = [] then (- 1, l, s) else (0, [], foldl (\<lambda>s c. kfree s) s l))"

section \<open>Queue\<close>

text \<open>A \<open>struct car2\<close> in memory: eight bytes.\<close>

definition car_bytes :: "car \<Rightarrow> byte list" where
  "car_bytes c = int_bytes (num c) @ int_bytes (price_in_dollars c)"

definition bytes_car :: "byte list \<Rightarrow> car" where
  "bytes_car b = \<lparr>num = bytes_int b, price_in_dollars = bytes_int (drop 4 b)\<rparr>"

text \<open>The fifo holds the bytes \<open>q\<close>, at most \<open>cap\<close> of them.  The cars it is filled from are not freed.\<close>

fun fill_queue :: "drv_env \<Rightarrow> int \<Rightarrow> nat \<Rightarrow> nat list \<Rightarrow> byte list \<Rightarrow> drv \<Rightarrow> int option \<times> byte list \<times> drv" where
  "fill_queue E n cap [] q s = (None, q, s)"
| "fill_queue E n cap (i # is) q s =
     (if cap \<le> length q then (Some 1, q, s)
      else case kmalloc E s of (ok, s) \<Rightarrow>
        if \<not> ok then (Some (- 1), q, s)
        else case random_int E s of (r, s) \<Rightarrow>
          let ret = min 8 (cap - length q);
              q = q @ take ret (car_bytes \<lparr>num = int i, price_in_dollars = price n r\<rparr>) in
          if ret \<noteq> 8 then (Some (int ret), q, s) else fill_queue E n cap is q s)"

text \<open>\<open>amazing\<close>: the bytes of the local variable, of which \<open>kfifo_out\<close> overwrites as many as it takes.\<close>

function drain_queue :: "byte list \<Rightarrow> byte list \<Rightarrow> drv \<Rightarrow> drv" where
  "drain_queue amazing q s =
     (if q = [] then s
      else let amazing = take 8 q @ drop (length (take 8 q)) amazing in
        drain_queue amazing (drop 8 q) (print_car (bytes_car amazing) s))"
  by pat_completeness auto
termination by (relation "measure (\<lambda>(_, q, _). length q)") auto

declare drain_queue.simps [simp del]

definition Queue :: "drv_env \<Rightarrow> int \<Rightarrow> drv \<Rightarrow> int \<times> drv" where
  "Queue E n s =
     (case kmalloc E s of (ok, s) \<Rightarrow>
      if \<not> ok then (- 1, s)
      else case fifo_init E (8 * nat n) of (ret, cap) \<Rightarrow>
        if ret \<noteq> 0 then (ret, s)
        else case fill_queue E n cap [0..<nat n] [] s of
          (Some r, _, s) \<Rightarrow> (r, s)
        | (None, q, s) \<Rightarrow> (0, kfree (drain_queue (replicate 8 0) q s)))"

section \<open>Map\<close>

fun fill_map :: "drv_env \<Rightarrow> int \<Rightarrow> nat list \<Rightarrow> int list \<Rightarrow> (int \<rightharpoonup> car) \<Rightarrow> drv \<Rightarrow> int option \<times> int list \<times> (int \<rightharpoonup> car) \<times> drv" where
  "fill_map E n [] ids m s = (None, ids, m, s)"
| "fill_map E n (i # is) ids m s =
     (case kmalloc E s of (ok, s) \<Rightarrow>
      if \<not> ok then (Some (- 1), ids, m, s)
      else case random_int E s of (r, s) \<Rightarrow>
        let x = idr_pick E m 100 (100 + n) in
        if x = - 28 \<or> x = - 12 then (Some x, ids, m, s)
        else fill_map E n is (ids @ [x]) (m(x \<mapsto> \<lparr>num = int i, price_in_dollars = price n r\<rparr>)) s)"

fun empty_map :: "int list \<Rightarrow> (int \<rightharpoonup> car) \<Rightarrow> drv \<Rightarrow> ((int \<rightharpoonup> car) \<times> drv) outcome" where
  "empty_map [] m s = Ret (m, s)"
| "empty_map (x # ids) m s =
     (case m x of None \<Rightarrow> Fault | Some c \<Rightarrow> empty_map ids (m(x := None)) (kfree (print_car c s)))"

text \<open>The last loop only prints that the ids are gone; the idr itself is not freed.\<close>

definition Map :: "drv_env \<Rightarrow> int \<Rightarrow> drv \<Rightarrow> (int \<times> drv) outcome" where
  "Map E n s =
     (case kmalloc E s of (ok, s) \<Rightarrow>
      if \<not> ok then Ret (- 1, s)
      else case fill_map E n [0..<nat n] [] Map.empty s of
        (Some r, _, _, s) \<Rightarrow> Ret (r, s)
      | (None, ids, m, s) \<Rightarrow> obind (empty_map ids m s) (\<lambda>(m, s). Ret (0, s)))"

section \<open>Red-black tree\<close>

text \<open>
  The retry loop: the first random number, reduced, that is not in the array up to \<open>cnt\<close>.  The
  product \<open>2 * dstruct_size\<close> is an \<open>int\<close> of the code for sizes below \<open>2 ^ 30\<close>, which the theorems assume.
\<close>

partial_function (option) retry :: "drv_env \<Rightarrow> int \<Rightarrow> int list \<Rightarrow> drv \<Rightarrow> (int \<times> drv) option" where
  "retry E n taken s =
     (let (r, s) = random_int E s; rand_int = \<bar>r\<bar> mod (2 * n) in
      if rand_int \<in> set taken then retry E n taken s else Some (rand_int, s))"

declare retry.simps [code]

text \<open>
  The loop over \<open>cnt\<close> stops at the first empty element.  If there is none, \<open>rand_int\<close> keeps its
  initial value and the store goes past the array.
\<close>

definition first_empty :: "int list \<Rightarrow> nat" where
  "first_empty a = (case List.find (\<lambda>i. a ! i = - 1) [0..<length a] of Some i \<Rightarrow> i | None \<Rightarrow> length a)"

definition get_independant_num :: "drv_env \<Rightarrow> int \<Rightarrow> drv \<Rightarrow> (int \<times> drv) outcome" where
  "get_independant_num E n s =
     (let cnt = first_empty (g_rand_int_arry s) in
      if length (g_rand_int_arry s) \<le> cnt then Fault
      else case retry E n (take (cnt + 1) (g_rand_int_arry s)) s of
        None \<Rightarrow> Hang
      | Some (rand_int, s) \<Rightarrow> Ret (rand_int, s\<lparr>g_rand_int_arry := (g_rand_int_arry s)[cnt := rand_int]\<rparr>))"

fun zswap_link :: "int \<Rightarrow> int tree \<Rightarrow> int tree option" where
  "zswap_link x Leaf = Some (Node Leaf x Leaf)"
| "zswap_link x (Node l e r) =
     (if e > x then map_option (\<lambda>l. Node l e r) (zswap_link x l)
      else if e < x then map_option (\<lambda>r. Node l e r) (zswap_link x r)
      else None)"

definition zswap_rb_insert :: "drv_env \<Rightarrow> int \<Rightarrow> int tree \<Rightarrow> int \<times> int tree" where
  "zswap_rb_insert E x t = (case zswap_link x t of None \<Rightarrow> (- 17, t) | Some t \<Rightarrow> (0, rb_color E x t))"

text \<open>\<open>offset\<close> is an \<open>unsigned long\<close>, so the \<open>int\<close> of the entry is converted for the comparison.\<close>

fun zswap_rb_search :: "64 word \<Rightarrow> int tree \<Rightarrow> int option" where
  "zswap_rb_search off Leaf = None"
| "zswap_rb_search off (Node l e r) =
     (if (word_of_int e :: 64 word) > off then zswap_rb_search off l
      else if word_of_int e < off then zswap_rb_search off r
      else Some e)"

fun print_tree :: "int tree \<Rightarrow> int list" where
  "print_tree Leaf = []"
| "print_tree (Node l e r) = e # print_tree r @ print_tree l"

fun insert_nums :: "drv_env \<Rightarrow> int \<Rightarrow> nat list \<Rightarrow> int tree \<Rightarrow> drv \<Rightarrow> (int option \<times> int tree \<times> drv) outcome" where
  "insert_nums E n [] t s = Ret (None, t, s)"
| "insert_nums E n (i # is) t s =
     obind (get_independant_num E n s) (\<lambda>(rand_int, s).
       if rand_int < 0 then Ret (Some rand_int, t, s)
       else case kmalloc E s of (ok, s) \<Rightarrow>
         if \<not> ok then Ret (Some (- 1), t, s)
         else insert_nums E n is (snd (zswap_rb_insert E rand_int t)) s)"

fun remove_range :: "drv_env \<Rightarrow> nat list \<Rightarrow> int tree \<Rightarrow> drv \<Rightarrow> int tree \<times> drv" where
  "remove_range E [] t s = (t, s)"
| "remove_range E (j # js) t s =
     (case zswap_rb_search (word_of_nat j) t of
        Some e \<Rightarrow> remove_range E js (rb_del E e t) (kfree s)
      | None \<Rightarrow> remove_range E js t s)"

text \<open>\<open>i += range\<close> with a range of 0 never ends.\<close>

function remove_ranges :: "drv_env \<Rightarrow> nat \<Rightarrow> nat \<Rightarrow> nat \<Rightarrow> int tree \<Rightarrow> drv \<Rightarrow> (int tree \<times> drv) outcome" where
  "remove_ranges E step limit i t s =
     (if limit \<le> i then Ret (t, s)
      else if step = 0 then Hang
      else case remove_range E [i..<i + step] t s of (t, s) \<Rightarrow>
        remove_ranges E step limit (i + step) t (s\<lparr>trees_out := trees_out s @ [print_tree t]\<rparr>))"
  by pat_completeness auto
termination by (relation "measure (\<lambda>(_, _, limit, i, _, _). limit - i)") auto

declare remove_ranges.simps [simp del]

definition RBtree :: "drv_env \<Rightarrow> int \<Rightarrow> drv \<Rightarrow> (int \<times> int tree \<times> drv) outcome" where
  "RBtree E n s =
     obind (insert_nums E n [0..<nat n] Leaf s) (\<lambda>(early, t, s).
       case early of
         Some r \<Rightarrow> Ret (r, t, s)
       | None \<Rightarrow> obind (remove_ranges E (nat n div 2) (nat n * 2) 0 t s) (\<lambda>(t, s). Ret (0, t, s)))"

section \<open>Module\<close>

definition lkp_init :: "drv_env \<Rightarrow> int \<Rightarrow> drv \<Rightarrow> (int \<times> drv) outcome" where
  "lkp_init E dstruct_size s =
     (if dstruct_size < 1 then Ret (- 1, s)
      else case kmalloc E s of (ok, s) \<Rightarrow>
      if \<not> ok then Ret (- 1, s)
      else let s = s\<lparr>g_rand_int_arry := replicate (nat dstruct_size + 1) (- 1)\<rparr> in
      case LinkedList E dstruct_size s of (err, s) \<Rightarrow> if err \<noteq> 0 then Ret (err, s) else
      case LinkedList_1 E dstruct_size [] s of (err, l, s) \<Rightarrow> if err \<noteq> 0 then Ret (err, s) else
      case LinkedList_2 l s of (err, s) \<Rightarrow> if err \<noteq> 0 then Ret (err, s) else
      case LinkedList_3 l s of (err, l, s) \<Rightarrow> if err \<noteq> 0 then Ret (err, s) else
      case Queue E dstruct_size s of (err, s) \<Rightarrow> if err \<noteq> 0 then Ret (err, s) else
      obind (Map E dstruct_size s) (\<lambda>(err, s). if err \<noteq> 0 then Ret (err, s) else
      obind (RBtree E dstruct_size s) (\<lambda>(err, t, s). Ret (err, s))))"

definition lkp_exit :: "drv \<Rightarrow> drv" where
  "lkp_exit s = kfree s"

end
