(* ===== verification/DriverProps.thy ===== *)
theory DriverProps
  imports Driver "HOL-Library.Multiset"
begin

text \<open>
  Properties of the data-structure module: the fifo returns what was put in, in order; the
  search tree is drained, except for one element, where the module never finishes loading.
\<close>

section \<open>The libraries\<close>

text \<open>Rebalancing keeps the order of the nodes and erasing removes one; an idr hands out a free id of the range.\<close>

locale drv_library =
  fixes E :: drv_env
  assumes color: "inorder (rb_color E x t) = inorder t"
    and del: "x \<in> set_tree t \<Longrightarrow> distinct (inorder t) \<Longrightarrow> inorder (rb_del E x t) = remove1 x (inorder t)"
    and pick: "\<exists>i. a \<le> i \<and> i < b \<and> m i = None \<Longrightarrow> a \<le> idr_pick E m a b \<and> idr_pick E m a b < b \<and> m (idr_pick E m a b) = None"
begin

lemma color_bst: "bst t \<Longrightarrow> bst (rb_color E x t) \<and> set_tree (rb_color E x t) = set_tree t"
  by (metis bst_iff_sorted_wrt_less color set_inorder)

lemma del_bst:
  assumes "bst t" "x \<in> set_tree t"
  shows "bst (rb_del E x t)" "set_tree (rb_del E x t) = set_tree t - {x}" "card (set_tree t) = Suc (card (set_tree (rb_del E x t)))"
proof -
  have d: "distinct (inorder t)" using assms(1) by (simp add: bst_iff_sorted_wrt_less strict_sorted_iff)
  have i: "inorder (rb_del E x t) = remove1 x (inorder t)" by (rule del [OF assms(2) d])
  show "bst (rb_del E x t)"
    unfolding bst_iff_sorted_wrt_less i using assms(1) d sorted_remove1 [of "inorder t" x] distinct_remove1 [of "inorder t" x]
    by (simp add: bst_iff_sorted_wrt_less strict_sorted_iff)
  show s: "set_tree (rb_del E x t) = set_tree t - {x}" using arg_cong [OF i, of set] d by simp
  show "card (set_tree t) = Suc (card (set_tree (rb_del E x t)))"
    unfolding s by (rule card_Suc_Diff1 [symmetric]) (use assms(2) in simp_all)
qed

end

section \<open>Search tree\<close>

lemma zswap_link_spec:
  assumes "bst t"
  shows "case zswap_link x t of None \<Rightarrow> x \<in> set_tree t
    | Some t' \<Rightarrow> x \<notin> set_tree t \<and> bst t' \<and> set_tree t' = insert x (set_tree t)"
  using assms
proof (induction t)
  case Leaf
  then show ?case by simp
next
  case (Node l e r)
  consider "x < e" | "e < x" | "x = e" by linarith
  then show ?case
  proof cases
    case 1
    with Node show ?thesis by (cases "zswap_link x l") auto
  next
    case 2
    with Node show ?thesis by (cases "zswap_link x r") auto
  qed simp
qed

definition small_keys :: "int tree \<Rightarrow> bool" where
  "small_keys t \<longleftrightarrow> (\<forall>e \<in> set_tree t. 0 \<le> e \<and> e < 2 ^ 31)"

lemma word_int_less: "0 \<le> e \<Longrightarrow> e < 2 ^ 31 \<Longrightarrow> j < 2 ^ 32 \<Longrightarrow>
    ((word_of_nat j :: 64 word) < word_of_int e \<longleftrightarrow> int j < e) \<and> ((word_of_int e :: 64 word) < word_of_nat j \<longleftrightarrow> e < int j)"
proof -
  assume a: "0 \<le> e" "e < 2 ^ 31" "j < 2 ^ 32"
  have "uint (word_of_int e :: 64 word) = e" using a by (simp add: uint_word_of_int)
  moreover have "uint (word_of_nat j :: 64 word) = int j"
    using a(3) uint_word_of_int [of "int j", where 'a = 64] by (simp add: take_bit_int_eq_self)
  ultimately show ?thesis by (simp only: word_less_def)
qed

lemma zswap_search_spec:
  assumes "bst t" "small_keys t" "j < 2 ^ 32"
  shows "zswap_rb_search (word_of_nat j) t = (if int j \<in> set_tree t then Some (int j) else None)"
  using assms
proof (induction t)
  case Leaf
  then show ?case by simp
next
  case (Node l e r)
  have e: "0 \<le> e" "e < 2 ^ 31" using Node.prems(2) by (simp_all add: small_keys_def)
  note w = word_int_less [OF e Node.prems(3)]
  have s: "small_keys l" "small_keys r" "bst l" "bst r" using Node.prems by (auto simp: small_keys_def)
  consider "int j < e" | "e < int j" | "int j = e" by linarith
  then show ?case
  proof cases
    case 1
    then have "int j \<notin> set_tree r" using Node.prems(1) by auto
    with 1 w Node.IH(1) [OF s(3,1) Node.prems(3)] show ?thesis by simp
  next
    case 2
    then have "int j \<notin> set_tree l" using Node.prems(1) by auto
    with 2 w Node.IH(2) [OF s(4,2) Node.prems(3)] show ?thesis by simp
  next
    case 3
    with w show ?thesis by simp
  qed
qed

section \<open>Fresh numbers\<close>

text \<open>Every residue keeps coming.\<close>

definition fair_random :: "drv_env \<Rightarrow> int \<Rightarrow> bool" where
  "fair_random E n \<longleftrightarrow> (\<forall>k x. 0 \<le> x \<and> x < 2 * n \<longrightarrow> (\<exists>j \<ge> k. \<bar>sint (d_rand E j)\<bar> mod (2 * n) = x))"

lemma retry_returns:
  assumes "n_rand s \<le> j" "\<bar>sint (d_rand E j)\<bar> mod (2 * n) \<notin> set taken" "0 < n"
  shows "\<exists>r k. retry E n taken s = Some (r, s\<lparr>n_rand := k\<rparr>) \<and> r \<notin> set taken \<and> 0 \<le> r \<and> r < 2 * n"
  using assms
proof (induction "j - n_rand s" arbitrary: s)
  case 0
  then have "j = n_rand s" by simp
  with 0(3,4) show ?case by (subst retry.simps) (auto simp: random_int_def Let_def intro!: exI [of _ "Suc (n_rand s)"])
next
  case (Suc d)
  show ?case
  proof (cases "\<bar>sint (d_rand E (n_rand s))\<bar> mod (2 * n) \<in> set taken")
    case True
    then have "n_rand s \<noteq> j" using Suc.prems(2) by auto
    then have "\<exists>r k. retry E n taken (s\<lparr>n_rand := Suc (n_rand s)\<rparr>) = Some (r, s\<lparr>n_rand := Suc (n_rand s), n_rand := k\<rparr>) \<and> r \<notin> set taken \<and> 0 \<le> r \<and> r < 2 * n"
      using Suc.hyps Suc.prems by (intro Suc.hyps(1)) auto
    with True show ?thesis by (subst retry.simps) (simp add: random_int_def Let_def)
  next
    case False
    with Suc.prems(3) show ?thesis by (subst retry.simps) (auto simp: random_int_def Let_def)
  qed
qed

lemma first_empty_prefix: "- 1 \<notin> set xs \<Longrightarrow> first_empty (xs @ replicate (Suc m) (- 1)) = length xs"
proof -
  assume a: "- 1 \<notin> set xs"
  let ?a = "xs @ replicate (Suc m) (- 1)"
  have "List.find (\<lambda>i. ?a ! i = - 1) [0..<length ?a] = Some (length xs)"
    unfolding find_Some_iff
    by (rule exI [of _ "length xs"]) (use a in \<open>auto simp: nth_append dest: nth_mem\<close>)
  then show ?thesis by (simp add: first_empty_def)
qed

text \<open>With \<open>xs\<close> already drawn, fewer than all residues, a new one is drawn.\<close>

lemma independant_num_ok:
  assumes f: "fair_random E n" "0 < n" and a: "g_rand_int_arry s = xs @ replicate (Suc m) (- 1)"
    and xs: "\<forall>x \<in> set xs. 0 \<le> x \<and> x < 2 * n" "int (length xs) < 2 * n"
  obtains r k where "get_independant_num E n s = Ret (r, s\<lparr>n_rand := k, g_rand_int_arry := (xs @ [r]) @ replicate m (- 1)\<rparr>)"
    "r \<notin> set xs" "0 \<le> r" "r < 2 * n"
proof -
  have m1: "- 1 \<notin> set xs" using xs(1) by force
  have "\<not> {0..<2 * n} \<subseteq> set xs"
  proof
    assume "{0..<2 * n} \<subseteq> set xs"
    then have "card {0..<2 * n} \<le> card (set xs)" by (rule card_mono [OF finite_set])
    with card_length [of xs] xs(2) f(2) show False by simp
  qed
  then obtain y where y: "0 \<le> y" "y < 2 * n" "y \<notin> set xs" by (meson atLeastLessThan_iff subsetI)
  with f(1) obtain j where j: "n_rand s \<le> j" "\<bar>sint (d_rand E j)\<bar> mod (2 * n) = y" unfolding fair_random_def by blast
  have fe: "first_empty (g_rand_int_arry s) = length xs" unfolding a by (rule first_empty_prefix [OF m1])
  have up: "(g_rand_int_arry s)[length xs := r] = (xs @ [r]) @ replicate m (- 1)" for r by (simp add: a list_update_append)
  have ln: "\<not> length (g_rand_int_arry s) \<le> length xs" by (simp add: a)
  have tk: "take (Suc (length xs)) (g_rand_int_arry s) = xs @ [- 1]" by (simp add: a)
  have "\<bar>sint (d_rand E j)\<bar> mod (2 * n) \<notin> set (xs @ [- 1])" using y j(2) by simp
  from retry_returns [OF j(1) this f(2)] obtain r k
    where r: "retry E n (xs @ [- 1]) s = Some (r, s\<lparr>n_rand := k\<rparr>)" "r \<notin> set (xs @ [- 1])" "0 \<le> r" "r < 2 * n" by blast
  have "get_independant_num E n s = Ret (r, s\<lparr>n_rand := k, g_rand_int_arry := (xs @ [r]) @ replicate m (- 1)\<rparr>)"
    using r(1) unfolding get_independant_num_def Let_def fe by (simp add: up ln tk)
  with that r(2-4) show ?thesis by simp
qed

section \<open>Filling and draining the tree\<close>

context drv_library
begin

lemma insert_nums_ok:
  assumes f: "fair_random E n" "0 < n" "n < 2 ^ 30" and al: "\<forall>i. d_alloc E i"
    and a: "g_rand_int_arry s = xs @ replicate (Suc (length is)) (- 1)" and len: "int (length xs + length is) \<le> n"
    and xs: "\<forall>x \<in> set xs. 0 \<le> x \<and> x < 2 * n" and t: "bst t" "set_tree t = set xs" "distinct xs"
  shows "\<exists>u s' ys. insert_nums E n is t s = Ret (None, u, s') \<and> bst u \<and> set_tree u = set ys \<and> distinct ys \<and> length ys = length xs + length is
     \<and> (\<forall>x \<in> set ys. 0 \<le> x \<and> x < 2 * n) \<and> live s' = live s + int (length is) \<and> cars_out s' = cars_out s \<and> trees_out s' = trees_out s"
  using a len xs t
proof (induction "is" arbitrary: s xs t)
  case Nil
  then show ?case by auto
next
  case (Cons i "is")
  obtain r k where r: "get_independant_num E n s = Ret (r, s\<lparr>n_rand := k, g_rand_int_arry := (xs @ [r]) @ replicate (Suc (length is)) (- 1)\<rparr>)"
    "r \<notin> set xs" "0 \<le> r" "r < 2 * n"
    by (rule independant_num_ok [OF f(1,2), of s xs "Suc (length is)"]) (use Cons.prems f in auto)
  obtain t' where t': "zswap_link r t = Some t'" "bst t'" "set_tree t' = insert r (set_tree t)"
    using zswap_link_spec [OF Cons.prems(4), of r] r(2) Cons.prems(5) by (cases "zswap_link r t") auto
  define s1 where "s1 = s\<lparr>n_rand := k, g_rand_int_arry := (xs @ [r]) @ replicate (Suc (length is)) (- 1), n_alloc := n_alloc s + 1, live := live s + 1\<rparr>"
  have ins: "snd (zswap_rb_insert E r t) = rb_color E r t'" by (simp add: zswap_rb_insert_def t'(1))
  have run: "insert_nums E n (i # is) t s = insert_nums E n is (rb_color E r t') s1"
    using r(3) al by (simp add: r(1) kmalloc_def ins s1_def)
  have "\<exists>u s' ys. insert_nums E n is (rb_color E r t') s1 = Ret (None, u, s') \<and> bst u \<and> set_tree u = set ys \<and> distinct ys
     \<and> length ys = length (xs @ [r]) + length is
     \<and> (\<forall>x \<in> set ys. 0 \<le> x \<and> x < 2 * n) \<and> live s' = live s1 + int (length is) \<and> cars_out s' = cars_out s1 \<and> trees_out s' = trees_out s1"
    by (rule Cons.IH) (use r Cons.prems color_bst [OF t'(2), of r] t'(3) in \<open>auto simp: s1_def\<close>)
  then show ?case unfolding run by (simp add: s1_def add.assoc)
qed

lemma remove_range_ok:
  assumes "bst t" "small_keys t" "\<forall>j \<in> set js. j < 2 ^ 32"
  shows "\<exists>u s'. remove_range E js t s = (u, s') \<and> bst u \<and> set_tree u = set_tree t - int ` set js
     \<and> live s' - int (card (set_tree u)) = live s - int (card (set_tree t)) \<and> cars_out s' = cars_out s \<and> trees_out s' = trees_out s"
  using assms
proof (induction js arbitrary: t s)
  case Nil
  then show ?case by simp
next
  case (Cons j js)
  have sr: "zswap_rb_search (word_of_nat j) t = (if int j \<in> set_tree t then Some (int j) else None)"
    by (rule zswap_search_spec) (use Cons.prems in simp_all)
  show ?case
  proof (cases "int j \<in> set_tree t")
    case True
    note d = del_bst [OF Cons.prems(1) True]
    have "small_keys (rb_del E (int j) t)" using Cons.prems(2) d(2) by (simp add: small_keys_def)
    from Cons.IH [OF d(1) this, of "kfree s"] Cons.prems(3) obtain u s'
      where u: "remove_range E js (rb_del E (int j) t) (kfree s) = (u, s')" "bst u" "set_tree u = set_tree (rb_del E (int j) t) - int ` set js"
        "live s' - int (card (set_tree u)) = live (kfree s) - int (card (set_tree (rb_del E (int j) t)))"
        "cars_out s' = cars_out (kfree s)" "trees_out s' = trees_out (kfree s)" by auto
    have "remove_range E (j # js) t s = (u, s')" using sr True u(1) by simp
    moreover have "set_tree u = set_tree t - int ` set (j # js)" unfolding u(3) d(2) by auto
    moreover have "live s' - int (card (set_tree u)) = live s - int (card (set_tree t))" using u(4) d(3) by (simp add: kfree_def)
    ultimately show ?thesis using u(2,5,6) by (simp add: kfree_def)
  next
    case False
    with Cons.IH [OF Cons.prems(1,2), of s] Cons.prems(3) sr show ?thesis by auto
  qed
qed

lemma remove_ranges_ok:
  assumes "bst t" "small_keys t" "0 < r" "limit + r < 2 ^ 32"
  shows "\<exists>u s'. remove_ranges E r limit i t s = Ret (u, s') \<and> bst u \<and> set_tree u \<subseteq> set_tree t \<and> set_tree u \<inter> {int i..<int limit} = {}
     \<and> live s' - int (card (set_tree u)) = live s - int (card (set_tree t)) \<and> cars_out s' = cars_out s"
  using assms(1,2)
proof (induction "limit - i" arbitrary: i t s rule: less_induct)
  case less
  show ?case
  proof (cases "limit \<le> i")
    case True
    with less.prems show ?thesis by (subst remove_ranges.simps) auto
  next
    case False
    then have js: "\<forall>j \<in> set [i..<i + r]. j < 2 ^ 32" using assms(4) by auto
    obtain v s1 where v: "remove_range E [i..<i + r] t s = (v, s1)" "bst v" "set_tree v = set_tree t - int ` {i..<i + r}"
      "live s1 - int (card (set_tree v)) = live s - int (card (set_tree t))" "cars_out s1 = cars_out s"
      using remove_range_ok [OF less.prems js, of s] by auto
    have sv: "small_keys v" using less.prems(2) v(3) by (simp add: small_keys_def)
    have lt: "limit - (i + r) < limit - i" using False assms(3) by simp
    obtain u s' where u: "remove_ranges E r limit (i + r) v (s1\<lparr>trees_out := trees_out s1 @ [print_tree v]\<rparr>) = Ret (u, s')"
      "bst u" "set_tree u \<subseteq> set_tree v" "set_tree u \<inter> {int (i + r)..<int limit} = {}"
      "live s' - int (card (set_tree u)) = live s1 - int (card (set_tree v))" "cars_out s' = cars_out s1"
      using less.hyps [OF lt v(2) sv, of "s1\<lparr>trees_out := trees_out s1 @ [print_tree v]\<rparr>"] by auto
    have run: "remove_ranges E r limit i t s = Ret (u, s')"
      using False assms(3) v(1) u(1) by (subst remove_ranges.simps) simp
    have "x \<notin> set_tree u" if "int i \<le> x" "x < int limit" for x
    proof (cases "x < int (i + r)")
      case True
      then have "x \<in> int ` {i..<i + r}" using that by (simp add: image_int_atLeastLessThan)
      then show ?thesis using u(3) v(3) by blast
    next
      case False
      then show ?thesis using u(4) that by auto
    qed
    then have "set_tree u \<inter> {int i..<int limit} = {}" by auto
    with run u v show ?thesis by auto
  qed
qed

end

section \<open>Queue\<close>

lemma car_bytes_inverse:
  assumes "0 \<le> num c" "num c < 2147483648" "- 2147483648 \<le> price_in_dollars c" "price_in_dollars c < 2147483648"
  shows "bytes_car (car_bytes c @ r) = c"
  using assms bytes_int_int_bytes [of "num c" "int_bytes (price_in_dollars c) @ r"] bytes_int_int_bytes [of "price_in_dollars c" r]
  by (simp add: bytes_car_def car_bytes_def)

lemma length_car_bytes [simp]: "length (car_bytes c) = 8"
  by (simp add: car_bytes_def)

definition valid_car :: "car \<Rightarrow> bool" where
  "valid_car c \<longleftrightarrow> 0 \<le> num c \<and> num c < 2147483648 \<and> - 2147483648 \<le> price_in_dollars c \<and> price_in_dollars c < 2147483648"

lemma drain_cars:
  assumes "\<forall>c \<in> set cs. valid_car c" "length amazing = 8"
  shows "drain_queue amazing (concat (map car_bytes cs)) s = s\<lparr>cars_out := cars_out s @ map (\<lambda>c. (num c, price_in_dollars c)) cs\<rparr>"
  using assms
proof (induction cs arbitrary: amazing s)
  case Nil
  then show ?case by (subst drain_queue.simps) simp
next
  case (Cons c cs)
  have ne: "car_bytes c @ concat (map car_bytes cs) \<noteq> []" by (metis append_is_Nil_conv length_0_conv length_car_bytes zero_neq_numeral)
  have c: "bytes_car (car_bytes c) = c" using car_bytes_inverse [of c "[]"] Cons.prems(1) by (simp add: valid_car_def)
  show ?case
    using Cons.IH [of "car_bytes c" "print_car c s"] Cons.prems ne c
    by (subst drain_queue.simps) (simp add: Let_def print_car_def)
qed

text \<open>The cars the loops create from the random numbers drawn at \<open>k\<close> and after.\<close>

definition cars_from :: "drv_env \<Rightarrow> int \<Rightarrow> nat \<Rightarrow> nat list \<Rightarrow> car list" where
  "cars_from E n k is = map (\<lambda>(i, r). \<lparr>num = int i, price_in_dollars = price n (sint (d_rand E r))\<rparr>) (zip is [k..<k + length is])"

lemma cars_from_Cons: "cars_from E n k (i # is) = \<lparr>num = int i, price_in_dollars = price n (sint (d_rand E k))\<rparr> # cars_from E n (Suc k) is"
  by (simp add: cars_from_def upt_conv_Cons del: upt_Suc)

lemma length_cars_from [simp]: "length (cars_from E n k is) = length is"
  by (simp add: cars_from_def)

lemma cars_from_valid: "\<forall>i \<in> set is. i < 2147483648 \<Longrightarrow> \<forall>c \<in> set (cars_from E n k is). valid_car c"
proof (induction "is" arbitrary: k)
  case (Cons i "is")
  have "- 2147483648 \<le> sint (d_rand E k)" "sint (d_rand E k) < 2147483648"
    using sint_greater_eq [of "d_rand E k"] sint_less [of "d_rand E k"] by simp_all
  with Cons show ?case by (simp add: cars_from_Cons valid_car_def price_def abs_flag_def)
qed (simp add: cars_from_def)

lemma fill_queue_ok:
  assumes "\<forall>i. d_alloc E i" "length q + 8 * length is \<le> cap"
  shows "fill_queue E n cap is q s = (None, q @ concat (map car_bytes (cars_from E n (n_rand s) is)),
      s\<lparr>n_rand := n_rand s + length is, n_alloc := n_alloc s + length is, live := live s + int (length is)\<rparr>)"
  using assms(2)
proof (induction "is" arbitrary: q s)
  case Nil
  then show ?case by (simp add: cars_from_def)
next
  case (Cons i "is")
  then have "min 8 (cap - length q) = 8" "\<not> cap \<le> length q" by simp_all
  with Cons.prems assms(1) show ?case
    by (simp add: kmalloc_def random_int_def Let_def cars_from_Cons Cons.IH ac_simps)
qed

lemma fill_queue_short:
  assumes "\<forall>i. d_alloc E i" "length q \<le> cap" "cap < length q + 8 * length is"
  shows "\<exists>r q' s'. fill_queue E n cap is q s = (Some r, q', s') \<and> 0 < r"
  using assms(2,3)
proof (induction "is" arbitrary: q s)
  case (Cons i "is")
  show ?case
  proof (cases "length q + 8 \<le> cap")
    case True
    then have "min 8 (cap - length q) = 8" "\<not> cap \<le> length q" by simp_all
    with Cons.prems assms(1) Cons.IH [of "q @ car_bytes \<lparr>num = int i, price_in_dollars = price n (sint (d_rand E (n_rand s)))\<rparr>"
        "s\<lparr>n_alloc := Suc (n_alloc s), live := live s + 1, n_rand := Suc (n_rand s)\<rparr>"]
    show ?thesis by (simp add: kmalloc_def random_int_def Let_def)
  next
    case False
    with assms(1) show ?thesis by (auto simp: kmalloc_def random_int_def Let_def)
  qed
qed simp

section \<open>An environment for the examples\<close>

definition demo_env :: drv_env where
  "demo_env = \<lparr>d_rand = (\<lambda>j. word_of_nat (j mod 4)), d_alloc = (\<lambda>_. True), fifo_init = (\<lambda>b. (0, if b \<le> 8 then 8 else 16)),
     idr_pick = (\<lambda>m a b. case List.find (\<lambda>i. m i = None) [a..b - 1] of Some i \<Rightarrow> i | None \<Rightarrow> - 28),
     rb_color = (\<lambda>_ t. t), rb_del = (\<lambda>x t. foldr (\<lambda>y t. Node Leaf y t) (remove1 x (inorder t)) Leaf)\<rparr>"

definition demo_drv :: "nat \<Rightarrow> drv" where
  "demo_drv n = \<lparr>n_rand = 0, n_alloc = 0, live = 0, cars_out = [], trees_out = [], g_rand_int_arry = replicate (n + 1) (- 1)\<rparr>"

lemma inorder_right_spine: "inorder (foldr (\<lambda>y t. Node Leaf y t) ys Leaf) = ys"
  by (induction ys) simp_all

interpretation de: drv_library demo_env
proof
  fix a b :: int and m :: "int \<rightharpoonup> car"
  assume "\<exists>i. a \<le> i \<and> i < b \<and> m i = None"
  then obtain i where i: "i \<in> set [a..b - 1]" "m i = None" by auto
  then obtain k where k: "List.find (\<lambda>i. m i = None) [a..b - 1] = Some k"
    by (cases "List.find (\<lambda>i. m i = None) [a..b - 1]") (auto simp: find_None_iff)
  then have "a \<le> k" "k < b" "m k = None" by (auto simp: find_Some_iff)
  with k show "a \<le> idr_pick demo_env m a b \<and> idr_pick demo_env m a b < b \<and> m (idr_pick demo_env m a b) = None"
    by (simp add: demo_env_def)
qed (simp_all add: demo_env_def inorder_right_spine)

lemma demo_fair: "n = 1 \<or> n = 2 \<Longrightarrow> fair_random demo_env n"
  unfolding fair_random_def
proof (intro allI impI)
  fix k x assume n: "n = 1 \<or> n = 2" and x: "0 \<le> x \<and> x < 2 * n"
  let ?j = "k * 4 + nat x"
  have lt: "nat x < 4" using n x by auto
  then have j: "?j mod 4 = nat x" by simp
  have "sint (word_of_nat (nat x) :: 32 word) = x"
  proof -
    have "x = 0 \<or> x = 1 \<or> x = 2 \<or> x = 3" using lt x by linarith
    then show ?thesis by auto
  qed
  then have "\<bar>sint (d_rand demo_env ?j)\<bar> mod (2 * n) = x" using x j by (simp add: demo_env_def)
  then show "\<exists>j \<ge> k. \<bar>sint (d_rand demo_env j)\<bar> mod (2 * n) = x" by (intro exI [of _ ?j]) simp
qed

section \<open>Properties\<close>

text \<open>
  C26.  With at least two elements, a generator that keeps producing every residue, and memory, the
  red-black tree demonstration ends: distinct numbers are inserted, all of them are found again
  and removed, and no object stays allocated.
\<close>

theorem driver_tree_drained:
  assumes "drv_library E" and "fair_random E n" and "2 \<le> n" "n < 2 ^ 30" and "\<forall>i. d_alloc E i"
    and "g_rand_int_arry s = replicate (nat n + 1) (- 1)"
  shows "\<exists>s'. RBtree E n s = Ret (0, Leaf, s') \<and> live s' = live s \<and> cars_out s' = cars_out s"
proof -
  obtain u s1 ys where u: "insert_nums E n [0..<nat n] Leaf s = Ret (None, u, s1)" "bst u" "set_tree u = set ys" "distinct ys"
    "length ys = nat n" "\<forall>x \<in> set ys. 0 \<le> x \<and> x < 2 * n" "live s1 = live s + int (nat n)" "cars_out s1 = cars_out s"
    using drv_library.insert_nums_ok [OF assms(1,2) _ assms(4,5), of s "[]" "[0..<nat n]" Leaf] assms(3,6) by auto
  have sk: "small_keys u" using u(3,6) assms(4) by (force simp: small_keys_def)
  have "nat n < 2 ^ 30" using assms(3,4) by (simp add: nat_less_iff)
  then have lim: "nat n * 2 + nat n div 2 < 2 ^ 32" by simp
  have r0: "0 < nat n div 2" using assms(3) by (simp add: div_greater_zero_iff nat_le_iff)
  obtain v s2 where v: "remove_ranges E (nat n div 2) (nat n * 2) 0 u s1 = Ret (v, s2)" "set_tree v \<subseteq> set_tree u"
    "set_tree v \<inter> {int 0..<int (nat n * 2)} = {}" "live s2 - int (card (set_tree v)) = live s1 - int (card (set_tree u))" "cars_out s2 = cars_out s1"
    using drv_library.remove_ranges_ok [OF assms(1) u(2) sk r0 lim, of 0 s1] by blast
  have "set ys \<subseteq> {int 0..<int (nat n * 2)}" using u(6) assms(3) by auto
  then have "set_tree v \<subseteq> {int 0..<int (nat n * 2)}" using v(2) u(3) by blast
  with v(3) have "set_tree v = {}" by blast
  then have leaf: "v = Leaf" by (cases v) simp_all
  have "card (set_tree u) = nat n" using u(3-5) by (simp add: distinct_card)
  then have "live s2 = live s" using v(4) u(7) leaf by simp
  moreover have "RBtree E n s = Ret (0, Leaf, s2)" using u(1) v(1) leaf by (simp add: RBtree_def)
  ultimately show ?thesis using v(5) u(8) by simp
qed

theorem driver_tree_drained_witness:
  "\<exists>s'. RBtree demo_env 2 (demo_drv 2) = Ret (0, Leaf, s') \<and> live s' = 0"
  using driver_tree_drained [OF de.drv_library_axioms demo_fair, of 2 "demo_drv 2"] by (auto simp: demo_env_def demo_drv_def)

text \<open>
  With one element the range of the removal loop is 0 and the module never finishes loading.
\<close>

theorem driver_size_one_hangs:
  assumes "drv_library E" and "fair_random E 1" and "\<forall>i. d_alloc E i" and "g_rand_int_arry s = [- 1, - 1]"
  shows "RBtree E 1 s = Hang"
proof -
  obtain u s1 where u: "insert_nums E 1 [0..<nat 1] Leaf s = Ret (None, u, s1)"
    using drv_library.insert_nums_ok [OF assms(1,2) _ _ assms(3), of s "[]" "[0..<nat 1]" Leaf] assms(4) by auto
  moreover have "remove_ranges E 0 2 0 u s1 = Hang" by (subst remove_ranges.simps) simp
  ultimately show ?thesis by (simp add: RBtree_def)
qed

theorem driver_size_one_hangs_witness: "RBtree demo_env 1 (demo_drv 1) = Hang"
  by (rule driver_size_one_hangs [OF de.drv_library_axioms demo_fair]) (simp_all add: demo_env_def demo_drv_def)

text \<open>
  The fifo: if it has room for every element, they come out in the order they went in, and
  the objects they were copied from stay allocated; otherwise loading fails with a positive code.
\<close>

theorem driver_queue_fifo:
  assumes "\<forall>i. d_alloc E i" and "1 \<le> n" "n < 2 ^ 31" and "fifo_init E (8 * nat n) = (0, cap)"
  shows "if 8 * nat n \<le> cap
    then \<exists>s'. Queue E n s = (0, s') \<and> live s' = live s + n
           \<and> cars_out s' = cars_out s @ map (\<lambda>c. (num c, price_in_dollars c)) (cars_from E n (n_rand s) [0..<nat n])
    else \<exists>r s'. Queue E n s = (r, s') \<and> 0 < r"
proof (cases "8 * nat n \<le> cap")
  case True
  let ?s = "s\<lparr>n_alloc := n_alloc s + 1, live := live s + 1\<rparr>"
  have f: "fill_queue E n cap [0..<nat n] [] ?s = (None, concat (map car_bytes (cars_from E n (n_rand s) [0..<nat n])),
      ?s\<lparr>n_rand := n_rand s + nat n, n_alloc := n_alloc s + 1 + nat n, live := live s + 1 + n\<rparr>)"
    using fill_queue_ok [OF assms(1), of "[]" "[0..<nat n]" cap n ?s] True assms(2) by simp
  have "\<forall>c \<in> set (cars_from E n (n_rand s) [0..<nat n]). valid_car c" by (rule cars_from_valid) (use assms(3) in auto)
  from drain_cars [OF this] f True assms(1,4) show ?thesis
    by (simp add: Queue_def kmalloc_def kfree_def)
next
  case False
  let ?s = "s\<lparr>n_alloc := n_alloc s + 1, live := live s + 1\<rparr>"
  from fill_queue_short [OF assms(1), of "[]" cap "[0..<nat n]" n ?s] False obtain r q' s'
    where "fill_queue E n cap [0..<nat n] [] ?s = (Some r, q', s')" "0 < r" by auto
  with False assms(1,4) show ?thesis by (simp add: Queue_def kmalloc_def)
qed

theorem driver_queue_fifo_witness:
  "\<exists>s'. Queue demo_env 2 (demo_drv 2) = (0, s') \<and> cars_out s' = [(0, 0), (1, 1)] \<and> live s' = 2"
  using driver_queue_fifo [of demo_env 2 16 "demo_drv 2"]
  by (auto simp: demo_env_def demo_drv_def cars_from_def price_def abs_flag_def upt_conv_Cons)

text \<open>
  C27.  The search tree is a set: an insertion returns -EEXIST and changes nothing exactly for a
  number that is present, and afterwards a search finds the new number and what was there before.
\<close>

theorem driver_tree_is_set:
  assumes "drv_library E" and "bst t" and "small_keys t" and "0 \<le> x" "x < 2 ^ 31" and "j < 2 ^ 32"
  shows "case zswap_rb_insert E x t of (ret, u) \<Rightarrow>
    (if x \<in> set_tree t then ret = - 17 \<and> u = t else ret = 0 \<and> set_tree u = insert x (set_tree t)) \<and> bst u
    \<and> zswap_rb_search (word_of_nat j) u = (if int j = x \<or> int j \<in> set_tree t then Some (int j) else None)"
proof (cases "zswap_link x t")
  case None
  then have "x \<in> set_tree t" using zswap_link_spec [OF assms(2), of x] by simp
  with None assms zswap_search_spec [OF assms(2,3,6)] show ?thesis by (auto simp: zswap_rb_insert_def)
next
  case (Some t')
  then have t': "x \<notin> set_tree t" "bst t'" "set_tree t' = insert x (set_tree t)"
    using zswap_link_spec [OF assms(2), of x] by simp_all
  have c: "bst (rb_color E x t')" "set_tree (rb_color E x t') = insert x (set_tree t)"
    using drv_library.color_bst [OF assms(1) t'(2)] t'(3) by simp_all
  then have "small_keys (rb_color E x t')" using assms(3-5) by (simp add: small_keys_def)
  from zswap_search_spec [OF c(1) this assms(6)] Some t'(1) c show ?thesis by (simp add: zswap_rb_insert_def)
qed

theorem driver_tree_is_set_witness:
  "zswap_rb_search 5 (snd (zswap_rb_insert demo_env 5 (Node Leaf 3 Leaf))) = Some 5"
  using driver_tree_is_set [OF de.drv_library_axioms, of "Node Leaf 3 Leaf" 5 5] by (simp add: small_keys_def split: prod.splits)

end
