(* ===== verification/Format.thy ===== *)
theory Format
  imports Prelude
begin

text \<open>
  The conversions of \<open>snprintf\<close> and \<open>simple_strtol\<close> the file system of p4 uses: decimal
  numbers, zero-padded pointers, field widths, and reading a decimal number back.
\<close>

section \<open>Printing\<close>

definition digit :: "nat \<Rightarrow> char" where
  "digit d = char_of (48 + d)"

fun dec_digits :: "nat \<Rightarrow> string" where
  "dec_digits n = (if n < 10 then [digit n] else dec_digits (n div 10) @ [digit (n mod 10)])"

declare dec_digits.simps [simp del]

text \<open>\<^verbatim>\<open>%d\<close>, \<^verbatim>\<open>%lu\<close> and the wider unsigned conversions, \<^verbatim>\<open>%8lu\<close>.\<close>

definition fmt_d :: "int \<Rightarrow> string" where
  "fmt_d i = (if i < 0 then CHR ''-'' # dec_digits (nat (- i)) else dec_digits (nat i))"

definition fmt_u :: "'a::len word \<Rightarrow> string" where
  "fmt_u w = dec_digits (unat w)"

definition pad :: "nat \<Rightarrow> string \<Rightarrow> string" where
  "pad n cs = replicate (n - length cs) CHR '' '' @ cs"

text \<open>\<^verbatim>\<open>%p\<close>: sixteen hexadecimal digits, and \<^verbatim>\<open>(null)\<close> in the same width.\<close>

definition hex_digit :: "64 word \<Rightarrow> nat \<Rightarrow> char" where
  "hex_digit w i = (let d = unat (drop_bit (4 * i) w) mod 16 in char_of (if d < 10 then 48 + d else 87 + d))"

definition fmt_p :: "64 word \<Rightarrow> string" where
  "fmt_p w = (if w = 0 then pad 16 ''(null)'' else map (hex_digit w) (rev [0..<16]))"

section \<open>Reading\<close>

definition is_digit :: "char \<Rightarrow> bool" where
  "is_digit c \<longleftrightarrow> 48 \<le> (of_char c :: nat) \<and> (of_char c :: nat) \<le> 57"

definition digits_value :: "string \<Rightarrow> nat" where
  "digits_value cs = foldl (\<lambda>n c. 10 * n + (of_char c - 48)) 0 cs"

text \<open>
  \<open>simple_strtol(cp, NULL, 10)\<close>: an optional minus sign, then digits up to the first
  other character; the sum is kept modulo the width of the result by the caller.
\<close>

definition simple_strtol :: "string \<Rightarrow> int" where
  "simple_strtol cs = (case cs of
      [] \<Rightarrow> 0
    | c # cs' \<Rightarrow> if c = CHR ''-'' then - int (digits_value (takeWhile is_digit cs'))
                else int (digits_value (takeWhile is_digit cs)))"

section \<open>Facts\<close>

lemma of_char_digit: "d < 10 \<Longrightarrow> (of_char (digit d) :: nat) = 48 + d"
  by (simp add: digit_def)

lemma is_digit_digit [simp]: "d < 10 \<Longrightarrow> is_digit (digit d)"
  by (simp add: is_digit_def of_char_digit)

lemma minus_not_digit [simp]: "\<not> is_digit CHR ''-''" "\<not> is_digit CHR ''.''" "\<not> is_digit CHR 0x0A" "\<not> is_digit CHR 0x00"
  by (simp_all add: is_digit_def)

lemma dec_digits_all: "c \<in> set (dec_digits n) \<Longrightarrow> is_digit c"
proof (induction n rule: dec_digits.induct)
  case (1 n)
  then show ?case by (cases "n < 10") (auto simp: dec_digits.simps [of n])
qed

lemma dec_digits_nonempty [simp]: "dec_digits n \<noteq> []"
  by (subst dec_digits.simps) simp

lemma digits_value_dec: "digits_value (dec_digits n) = n"
proof (induction n rule: dec_digits.induct)
  case (1 n)
  show ?case
  proof (cases "n < 10")
    case True
    then show ?thesis by (simp add: dec_digits.simps [of n] digits_value_def of_char_digit)
  next
    case False
    from 1 [OF False] show ?thesis using False
      by (simp add: dec_digits.simps [of n] digits_value_def of_char_digit)
  qed
qed

lemma takeWhile_digits: "takeWhile is_digit (dec_digits n @ r) = dec_digits n @ takeWhile is_digit r"
  by (rule takeWhile_append2) (rule dec_digits_all)

text \<open>Reading back what was printed, up to the first character that is no digit.\<close>

lemma strtol_fmt_d:
  assumes "takeWhile is_digit r = []"
  shows "simple_strtol (fmt_d i @ r) = i"
proof (cases "i < 0")
  case True
  then show ?thesis using assms by (simp add: fmt_d_def simple_strtol_def takeWhile_digits digits_value_dec)
next
  case False
  obtain c cs where c: "dec_digits (nat i) = c # cs" by (cases "dec_digits (nat i)") auto
  then have "is_digit c" using dec_digits_all [of c "nat i"] by simp
  then have m: "c \<noteq> CHR ''-''" by auto
  have "simple_strtol (fmt_d i @ r) = int (digits_value (takeWhile is_digit (dec_digits (nat i) @ r)))"
    using False m by (simp add: fmt_d_def simple_strtol_def c)
  with False assms show ?thesis by (simp add: takeWhile_digits digits_value_dec)
qed

lemma fmt_d_inj: "fmt_d i = fmt_d j \<Longrightarrow> i = j"
  by (metis append_Nil2 strtol_fmt_d takeWhile.simps(1))

lemma fmt_d_no_nul: "c \<in> set (fmt_d i) \<Longrightarrow> c = CHR ''-'' \<or> is_digit c"
  by (auto simp: fmt_d_def dest: dec_digits_all split: if_splits)

lemma length_dec_digits: "n < 10 ^ k \<Longrightarrow> 0 < k \<Longrightarrow> length (dec_digits n) \<le> k"
proof (induction n arbitrary: k rule: dec_digits.induct)
  case (1 n)
  show ?case
  proof (cases "n < 10")
    case True
    with 1(3) show ?thesis by (simp add: dec_digits.simps [of n])
  next
    case False
    then obtain k' where k: "k = Suc k'" "0 < k'"
      using 1(2,3) by (cases k; cases "k - 1") auto
    have "n div 10 < 10 ^ k'" using 1(2) k by (simp add: less_mult_imp_div_less mult.commute)
    from 1(1) [OF False this k(2)] False k show ?thesis by (simp add: dec_digits.simps [of n])
  qed
qed

text \<open>A pid takes at most eleven characters.\<close>

lemma length_fmt_d:
  assumes "- (2 ^ 31) \<le> i" "i < 2 ^ 31"
  shows "length (fmt_d i) \<le> 11"
proof -
  have "nat i < 10 ^ 10" "nat (- i) < 10 ^ 10" using assms by simp_all
  from this [THEN length_dec_digits] show ?thesis by (simp add: fmt_d_def)
qed

lemma length_pad [simp]: "length (pad n cs) = max n (length cs)"
  by (simp add: pad_def)

lemma length_fmt_p [simp]: "length (fmt_p w) = 16"
  by (simp add: fmt_p_def)

end
