(* ===== verification/Lfs.thy ===== *)
theory Lfs
  imports Format
begin

text \<open>
  The process file system of p4 (\<open>example.c\<close>): one directory per process, nested like the
  process tree, with a \<open>signal\<close> file and a \<open>.status\<close> file in each.  Here: inodes,
  dentries, creation of files and directories, the walk over the process tree, mounting,
  and writing to a signal file.  The text of a status file is in the next theory.
\<close>

section \<open>State\<close>

datatype file_operations = lfs_file_ops | lfs_file_ops2 | simple_dir_operations

record inode =
  i_ino :: nat
  i_mode :: nat
  i_uid :: nat
  i_gid :: nat
  i_blocks :: nat
  i_time :: int
  i_fop :: "file_operations option"
  i_dir_op :: bool
  i_private :: int

text \<open>A dentry is known by its position in the table of dentries; \<open>d_dead\<close> is set when the last reference is dropped.\<close>

record dentry =
  d_parent :: nat
  d_name :: string
  d_len :: nat
  d_hash :: nat
  d_inode :: "inode option"
  d_dead :: bool

record super_block =
  s_blocksize :: nat
  s_blocksize_bits :: nat
  s_magic :: nat
  s_op :: bool
  s_root :: "nat option"

text \<open>A process: its pid, whether it has an address space, its parent and its children.\<close>

record process =
  p_pid :: int
  p_mm :: bool
  p_parent :: nat
  p_children :: "nat list"

text \<open>
  The kernel around the module: which of its allocations succeed (counted together),
  the clock, the hash of names, the process table, and the lookup of a pid.
\<close>

record lfs_env =
  alloc_ok :: "nat \<Rightarrow> bool"
  current_time :: "nat \<Rightarrow> int"
  full_name_hash :: "string \<Rightarrow> nat \<Rightarrow> nat"
  process_of :: "nat \<Rightarrow> process"
  pid_task :: "int \<Rightarrow> nat option"

record lfs_state =
  dentries :: "dentry list"
  n_alloc :: nat
  next_ino :: nat
  sent :: "(nat \<times> int) list"

definition init_task :: nat where
  "init_task = 0"

definition NAME_MAX :: nat where
  "NAME_MAX = 255"

definition LFS_MAGIC :: nat where
  "LFS_MAGIC = 0x19980122"

definition EXAMPLE_MODE :: nat where
  "EXAMPLE_MODE = 509"

definition TMPSIZE :: nat where
  "TMPSIZE = 20"

definition S_IFREG :: nat where
  "S_IFREG = 32768"

definition S_IFDIR :: nat where
  "S_IFDIR = 16384"

section \<open>Services of the kernel\<close>

text \<open>The next allocation: whether it succeeds.\<close>

definition try_alloc :: "lfs_env \<Rightarrow> lfs_state \<Rightarrow> bool \<times> lfs_state" where
  "try_alloc K s = (alloc_ok K (n_alloc s), s\<lparr>n_alloc := Suc (n_alloc s)\<rparr>)"

definition d_alloc :: "lfs_env \<Rightarrow> nat \<Rightarrow> string \<Rightarrow> lfs_state \<Rightarrow> nat option \<times> lfs_state" where
  "d_alloc K dir qname s =
    (let (ok, s) = try_alloc K s
     in if \<not> ok then (None, s)
        else (Some (length (dentries s)),
              s\<lparr>dentries := dentries s @ [\<lparr>d_parent = dir, d_name = qname, d_len = length qname,
                   d_hash = full_name_hash K qname (length qname), d_inode = None, d_dead = False\<rparr>]\<rparr>))"

definition d_add :: "nat \<Rightarrow> inode \<Rightarrow> lfs_state \<Rightarrow> lfs_state" where
  "d_add d i s = s\<lparr>dentries := (dentries s)[d := (dentries s ! d)\<lparr>d_inode := Some i\<rparr>]\<rparr>"

definition dput :: "nat \<Rightarrow> lfs_state \<Rightarrow> lfs_state" where
  "dput d s = s\<lparr>dentries := (dentries s)[d := (dentries s ! d)\<lparr>d_dead := True\<rparr>]\<rparr>"

text \<open>The dentry of the root is its own parent.\<close>

definition d_make_root :: "lfs_env \<Rightarrow> inode \<Rightarrow> lfs_state \<Rightarrow> nat option \<times> lfs_state" where
  "d_make_root K i s =
    (let (ok, s) = try_alloc K s
     in if \<not> ok then (None, s)
        else (Some (length (dentries s)),
              s\<lparr>dentries := dentries s @ [\<lparr>d_parent = length (dentries s), d_name = ''/'', d_len = 1,
                   d_hash = 0, d_inode = Some i, d_dead = False\<rparr>]\<rparr>))"

text \<open>\<open>sprintf\<close> and \<open>strcat\<close> into a buffer of \<open>cap\<close> bytes: the text and its NUL must fit.\<close>

definition buf_text :: "nat \<Rightarrow> string \<Rightarrow> string outcome" where
  "buf_text cap cs = (if length cs < cap then Ret cs else Fault)"

section \<open>Inodes, files and directories\<close>

definition lfs_make_inode :: "lfs_env \<Rightarrow> nat \<Rightarrow> lfs_state \<Rightarrow> inode option \<times> lfs_state" where
  "lfs_make_inode K mode s =
    (let (ok, s) = try_alloc K s
     in if \<not> ok then (None, s)
        else (Some \<lparr>i_ino = next_ino s, i_mode = mode, i_uid = 0, i_gid = 0, i_blocks = 0,
                    i_time = current_time K (n_alloc s), i_fop = None, i_dir_op = False, i_private = 0\<rparr>,
              s\<lparr>next_ino := Suc (next_ino s)\<rparr>))"

definition lfs_open :: "inode \<Rightarrow> int \<times> int" where
  "lfs_open i = (let private_data = i_private i in (0, private_data))"

definition lfs_create_file ::
    "lfs_env \<Rightarrow> nat \<Rightarrow> string \<Rightarrow> int \<Rightarrow> bool \<Rightarrow> lfs_state \<Rightarrow> nat option \<times> lfs_state" where
  "lfs_create_file K dir name pid is_signal s =
    (let (dentry, s) = d_alloc K dir name s
     in case dentry of None \<Rightarrow> (None, s)
      | Some d \<Rightarrow>
        (let (inode, s) = lfs_make_inode K (S_IFREG + EXAMPLE_MODE) s
         in case inode of None \<Rightarrow> (None, dput d s)
          | Some i \<Rightarrow>
            (let i = (if \<not> is_signal then i\<lparr>i_fop := Some lfs_file_ops\<rparr> else i\<lparr>i_fop := Some lfs_file_ops2\<rparr>);
                 i = i\<lparr>i_private := pid\<rparr>
             in (Some d, d_add d i s))))"

definition lfs_create_dir :: "lfs_env \<Rightarrow> nat \<Rightarrow> string \<Rightarrow> lfs_state \<Rightarrow> nat option \<times> lfs_state" where
  "lfs_create_dir K parent name s =
    (let (dentry, s) = d_alloc K parent name s
     in case dentry of None \<Rightarrow> (None, s)
      | Some d \<Rightarrow>
        (let (inode, s) = lfs_make_inode K (S_IFDIR + EXAMPLE_MODE) s
         in case inode of None \<Rightarrow> (None, dput d s)
          | Some i \<Rightarrow> (Some d, d_add d (i\<lparr>i_dir_op := True, i_fop := Some simple_dir_operations\<rparr>) s)))"

section \<open>The process tree\<close>

definition sub_create_ff_real :: "lfs_env \<Rightarrow> nat \<Rightarrow> nat \<Rightarrow> lfs_state \<Rightarrow> (nat \<times> lfs_state) outcome" where
  "sub_create_ff_real K init_t dir s =
    (let (ok, s) = try_alloc K s; pid = p_pid (process_of K init_t)
     in if \<not> ok then Bug
        else obind (buf_text NAME_MAX (fmt_d pid)) (\<lambda>buf.
          let (subdir, s) = lfs_create_dir K dir buf s
          in case subdir of None \<Rightarrow> Bug
           | Some subdir \<Rightarrow>
             (let (ret, s) = lfs_create_file K subdir ''signal'' pid True s
              in obind (buf_text NAME_MAX (buf @ ''.status'')) (\<lambda>buf.
                   let (ret, s) = lfs_create_file K subdir buf pid False s
                   in Ret (subdir, s)))))"

text \<open>The recursion is bounded by a number of levels; a process tree is finitely deep.\<close>

fun sub_create_subfiles :: "nat \<Rightarrow> lfs_env \<Rightarrow> nat option \<Rightarrow> nat \<Rightarrow> lfs_state \<Rightarrow> lfs_state outcome" where
  "sub_create_subfiles 0 K init_t dir s = Hang"
| "sub_create_subfiles (Suc levels) K init_t dir s =
    (case init_t of None \<Rightarrow> Ret s
      | Some t \<Rightarrow>
        obind (sub_create_ff_real K t dir s) (\<lambda>(subdir, s).
          ofold (\<lambda>t2 s. sub_create_subfiles levels K (Some t2) subdir s) (p_children (process_of K t)) s))"

definition lfs_create_files :: "nat \<Rightarrow> lfs_env \<Rightarrow> nat \<Rightarrow> lfs_state \<Rightarrow> lfs_state outcome" where
  "lfs_create_files levels K root s =
    obind (sub_create_ff_real K init_task root s) (\<lambda>(subdir, s).
      ofold (\<lambda>t2 s. sub_create_subfiles levels K (Some t2) subdir s)
        (p_children (process_of K (p_parent (process_of K init_task)))) s)"

definition lfs_fill_super :: "nat \<Rightarrow> lfs_env \<Rightarrow> super_block \<Rightarrow> lfs_state \<Rightarrow> (int \<times> super_block \<times> lfs_state) outcome" where
  "lfs_fill_super levels K sb s =
    (let sb = sb\<lparr>s_blocksize := 4096, s_blocksize_bits := 12, s_magic := LFS_MAGIC, s_op := True\<rparr>;
         (root, s) = lfs_make_inode K (S_IFDIR + EXAMPLE_MODE) s
     in case root of None \<Rightarrow> Ret (- 12, sb, s)
      | Some root \<Rightarrow>
        (let root = root\<lparr>i_dir_op := True, i_fop := Some simple_dir_operations\<rparr>;
             (root_dentry, s) = d_make_root K root s
         in case root_dentry of None \<Rightarrow> Ret (- 12, sb, s)
          | Some root_dentry \<Rightarrow>
            (let sb = sb\<lparr>s_root := Some root_dentry\<rparr>
             in obind (lfs_create_files levels K root_dentry s) (\<lambda>s. Ret (0, sb, s)))))"

section \<open>Signal files\<close>

definition EINVAL :: int where
  "EINVAL = 22"

definition EFAULT :: int where
  "EFAULT = 14"

text \<open>
  \<open>user\<close> is what \<open>copy_from_user\<close> finds at the buffer of the caller, \<open>None\<close> when the
  transfer fails.  The result of \<open>send_sig\<close> is not looked at.
\<close>

definition lfs_write_sig_file ::
    "lfs_env \<Rightarrow> int \<Rightarrow> string option \<Rightarrow> nat \<Rightarrow> int \<Rightarrow> lfs_state \<Rightarrow> int \<times> lfs_state" where
  "lfs_write_sig_file K private_data user count offset s =
    (let target_pid = s32 private_data
     in if offset \<noteq> 0 then (- EINVAL, s)
        else if count \<ge> TMPSIZE then (- EINVAL, s)
        else case user of None \<Rightarrow> (- EFAULT, s)
         | Some buf \<Rightarrow>
           (let tmp2 = take count buf @ replicate (TMPSIZE - count) (CHR 0x00);
                sig_num = s32 (simple_strtol tmp2);
                t = (if target_pid > 0 then pid_task K target_pid else Some init_task)
            in case t of None \<Rightarrow> (0, s)
             | Some t \<Rightarrow> (int count, s\<lparr>sent := sent s @ [(t, sig_num)]\<rparr>)))"

section \<open>Signal dispositions\<close>

definition SIG_DFL :: "64 word" where
  "SIG_DFL = 0"

definition SIG_IGN :: "64 word" where
  "SIG_IGN = 1"

definition NSIG :: nat where
  "NSIG = 64"

definition sigaddset :: "64 word \<Rightarrow> nat \<Rightarrow> 64 word" where
  "sigaddset sset i = set_bit (i - 1) sset"

text \<open>\<open>action\<close>: the handlers of signals 1 to 64, in order.\<close>

definition collect_sigign_sigcatch ::
    "64 word list \<Rightarrow> 64 word \<Rightarrow> 64 word \<Rightarrow> (64 word \<times> 64 word) outcome" where
  "collect_sigign_sigcatch action ign cat =
    ofold (\<lambda>i (ign, cat).
        obind (arr_get action (int i - 1)) (\<lambda>k.
          Ret (if k = SIG_IGN then (sigaddset ign i, cat)
               else if k \<noteq> SIG_DFL then (ign, sigaddset cat i) else (ign, cat))))
      [1..<Suc NSIG] (ign, cat)"

end
