(* ===== verification/LfsTree.thy ===== *)
theory LfsTree
  imports Lfs
begin

text \<open>
  Properties of the process file system: mounting it builds a directory tree that mirrors
  the process tree, and a number written to a signal file is the signal its process gets.
\<close>

section \<open>Specification\<close>

datatype proc_tree = Proc nat "proc_tree list"

fun proc_ref :: "proc_tree \<Rightarrow> nat" where
  "proc_ref (Proc t Ts) = t"

text \<open>The tree is the process hierarchy: the children of every process, in order.\<close>

fun hierarchy :: "lfs_env \<Rightarrow> proc_tree \<Rightarrow> bool" where
  "hierarchy K (Proc t Ts) \<longleftrightarrow> p_children (process_of K t) = map proc_ref Ts \<and> (\<forall>T \<in> set Ts. hierarchy K T)"

fun levels_within :: "nat \<Rightarrow> proc_tree \<Rightarrow> bool" where
  "levels_within 0 T \<longleftrightarrow> False"
| "levels_within (Suc n) (Proc t Ts) \<longleftrightarrow> (\<forall>T \<in> set Ts. levels_within n T)"

datatype node = File string file_operations int | Dir string "node list"

fun proc_dir :: "lfs_env \<Rightarrow> proc_tree \<Rightarrow> node" where
  "proc_dir K (Proc t Ts) = (let pid = p_pid (process_of K t)
     in Dir (fmt_d pid) (File ''signal'' lfs_file_ops2 pid # File (fmt_d pid @ ''.status'') lfs_file_ops pid # map (proc_dir K) Ts))"

text \<open>What the table of dentries shows: the live entries below a directory, and the tree below an entry.\<close>

definition shown :: "dentry \<Rightarrow> bool" where
  "shown e \<longleftrightarrow> \<not> d_dead e \<and> d_inode e \<noteq> None"

definition entries_of :: "dentry list \<Rightarrow> nat \<Rightarrow> nat list" where
  "entries_of ds d = filter (\<lambda>j. d_parent (ds ! j) = d \<and> j \<noteq> d \<and> shown (ds ! j)) [0..<length ds]"

inductive tree_at :: "dentry list \<Rightarrow> nat \<Rightarrow> node \<Rightarrow> bool" for ds where
  file_at: "d < length ds \<Longrightarrow> d_inode (ds ! d) = Some i \<Longrightarrow> i_fop i = Some fop \<Longrightarrow> fop \<noteq> simple_dir_operations
    \<Longrightarrow> tree_at ds d (File (d_name (ds ! d)) fop (i_private i))"
| dir_at: "d < length ds \<Longrightarrow> d_inode (ds ! d) = Some i \<Longrightarrow> i_fop i = Some simple_dir_operations
    \<Longrightarrow> list_all2 (tree_at ds) (entries_of ds d) ns \<Longrightarrow> tree_at ds d (Dir (d_name (ds ! d)) ns)"

section \<open>Growing the table\<close>

definition ordered :: "dentry list \<Rightarrow> bool" where
  "ordered ds \<longleftrightarrow> (\<forall>j < length ds. d_parent (ds ! j) \<le> j)"

lemma entries_of_append:
  "entries_of (ds @ new) d = entries_of ds d
    @ map (\<lambda>j. length ds + j) (filter (\<lambda>j. d_parent (new ! j) = d \<and> length ds + j \<noteq> d \<and> shown (new ! j)) [0..<length new])"
proof -
  have "[0..<length (ds @ new)] = [0..<length ds] @ map (\<lambda>j. length ds + j) [0..<length new]"
    by (simp add: map_add_upt add.commute upt_add_eq_append [of 0 "length ds"])
  then show ?thesis unfolding entries_of_def
    by (auto simp: filter_map comp_def nth_append intro!: filter_cong)
qed

lemma entries_of_gt: "ordered ds \<Longrightarrow> c \<in> set (entries_of ds d) \<Longrightarrow> d < c \<and> c < length ds"
  by (auto simp: entries_of_def ordered_def le_neq_implies_less)

text \<open>A subtree is not changed by entries added elsewhere.\<close>

lemma tree_at_append:
  assumes "tree_at ds d n" "ordered ds" "x \<le> d" "\<forall>e \<in> set new. d_parent e < x \<or> length ds \<le> d_parent e"
  shows "tree_at (ds @ new) d n"
  using assms
proof (induction rule: tree_at.induct)
  case (file_at d i fop)
  then show ?case using tree_at.file_at [of d "ds @ new" i fop] by (simp add: nth_append)
next
  case (dir_at d i ns)
  have e: "d_parent (new ! j) \<noteq> d" if "j < length new" for j
    using dir_at.prems(3) dir_at.prems(2) dir_at.hyps(1) nth_mem [OF that] by fastforce
  have "entries_of (ds @ new) d = entries_of ds d"
    unfolding entries_of_append using e by (simp add: filter_empty_conv)
  moreover have "list_all2 (tree_at (ds @ new)) (entries_of ds d) ns"
    using dir_at.IH
  proof (rule list.rel_mono_strong)
    fix c n assume c: "c \<in> set (entries_of ds d)"
      and IH: "tree_at ds c n \<and> (ordered ds \<longrightarrow> x \<le> c \<longrightarrow> (\<forall>e\<in>set new. d_parent e < x \<or> length ds \<le> d_parent e) \<longrightarrow> tree_at (ds @ new) c n)"
    from c have "d < c" using entries_of_gt [OF dir_at.prems(1)] by blast
    with IH dir_at.prems show "tree_at (ds @ new) c n" by simp
  qed
  ultimately show ?case
    using tree_at.dir_at [of d "ds @ new" i ns] dir_at.hyps by (simp add: nth_append)
qed

text \<open>
  \<open>grown dir ds ds' ns\<close>: the table has only got new entries, below \<open>dir\<close> or below each
  other, and \<open>dir\<close> now shows the trees \<open>ns\<close> after what it showed before.
\<close>

definition grown :: "nat \<Rightarrow> dentry list \<Rightarrow> dentry list \<Rightarrow> node list \<Rightarrow> bool" where
  "grown dir ds ds' ns \<longleftrightarrow> (\<exists>new rs. ds' = ds @ new \<and> ordered ds'
     \<and> (\<forall>e \<in> set new. d_parent e = dir \<or> length ds \<le> d_parent e)
     \<and> entries_of ds' dir = entries_of ds dir @ rs \<and> (\<forall>r \<in> set rs. length ds \<le> r)
     \<and> list_all2 (tree_at ds') rs ns)"

lemma grown_refl: "ordered ds \<Longrightarrow> grown dir ds ds []"
  by (auto simp: grown_def)

lemma grown_trans:
  assumes "dir < length ds" "grown dir ds ds1 ns1" "grown dir ds1 ds2 ns2"
  shows "grown dir ds ds2 (ns1 @ ns2)"
proof -
  from assms(2) obtain n1 r1 where 1: "ds1 = ds @ n1" "ordered ds1" "\<forall>e \<in> set n1. d_parent e = dir \<or> length ds \<le> d_parent e"
    "entries_of ds1 dir = entries_of ds dir @ r1" "\<forall>r \<in> set r1. length ds \<le> r" "list_all2 (tree_at ds1) r1 ns1"
    unfolding grown_def by blast
  from assms(3) obtain n2 r2 where 2: "ds2 = ds1 @ n2" "ordered ds2" "\<forall>e \<in> set n2. d_parent e = dir \<or> length ds1 \<le> d_parent e"
    "entries_of ds2 dir = entries_of ds1 dir @ r2" "\<forall>r \<in> set r2. length ds1 \<le> r" "list_all2 (tree_at ds2) r2 ns2"
    unfolding grown_def by blast
  have "list_all2 (tree_at ds2) r1 ns1"
    using 1(6) by (rule list.rel_mono_strong)
      (unfold 2(1), rule tree_at_append [OF _ 1(2), of _ _ "length ds"], use 1(5) 2(3) assms(1) in auto)
  with 2(6) have "list_all2 (tree_at ds2) (r1 @ r2) (ns1 @ ns2)"
    by (rule list_all2_appendI [rotated])
  then show ?thesis
    unfolding grown_def using 1 2 by (intro exI [of _ "n1 @ n2"] exI [of _ "r1 @ r2"]) auto
qed

definition entry :: "lfs_env \<Rightarrow> nat \<Rightarrow> string \<Rightarrow> inode \<Rightarrow> dentry" where
  "entry K dir name i = \<lparr>d_parent = dir, d_name = name, d_len = length name,
     d_hash = full_name_hash K name (length name), d_inode = Some i, d_dead = False\<rparr>"

lemma ordered_snoc: "ordered ds \<Longrightarrow> d_parent e \<le> length ds \<Longrightarrow> ordered (ds @ [e])"
  by (auto simp: ordered_def nth_append less_Suc_eq)

lemma entries_of_snoc:
  "dir < length ds \<Longrightarrow> entries_of (ds @ [entry K dir name i]) dir = entries_of ds dir @ [length ds]"
  by (simp add: entries_of_append entry_def shown_def)

lemma entries_of_new: "ordered ds \<Longrightarrow> d_parent e < length ds \<Longrightarrow> entries_of (ds @ [e]) (length ds) = []"
  by (fastforce simp: entries_of_def ordered_def nth_append filter_empty_conv)

lemma grown_file:
  assumes "ordered ds" "dir < length ds" "i_fop i = Some fop" "fop \<noteq> simple_dir_operations"
  shows "grown dir ds (ds @ [entry K dir name i]) [File name fop (i_private i)]"
proof -
  have "tree_at (ds @ [entry K dir name i]) (length ds) (File name fop (i_private i))"
    using tree_at.file_at [of "length ds" "ds @ [entry K dir name i]" i fop] assms by (simp add: entry_def)
  moreover have "ordered (ds @ [entry K dir name i])"
    using assms by (intro ordered_snoc) (simp_all add: entry_def)
  ultimately show ?thesis
    unfolding grown_def using entries_of_snoc [OF assms(2)]
    by (intro exI [of _ "[entry K dir name i]"] exI [of _ "[length ds]"]) (auto simp: entry_def)
qed

lemma grown_dir:
  assumes "ordered ds" "dir < length ds" "i_fop i = Some simple_dir_operations"
    and "grown (length ds) (ds @ [entry K dir name i]) ds' ns"
  shows "grown dir ds ds' [Dir name ns]"
proof -
  let ?ds = "ds @ [entry K dir name i]"
  from assms(4) obtain new rs where g: "ds' = ?ds @ new" "ordered ds'" "\<forall>e \<in> set new. d_parent e = length ds \<or> length ?ds \<le> d_parent e"
    "entries_of ds' (length ds) = entries_of ?ds (length ds) @ rs" "list_all2 (tree_at ds') rs ns"
    unfolding grown_def by blast
  have "entries_of ds' (length ds) = rs"
    using g(4) entries_of_new [OF assms(1), of "entry K dir name i"] assms(2) by (simp add: entry_def)
  then have t: "tree_at ds' (length ds) (Dir name ns)"
    using tree_at.dir_at [of "length ds" ds' i ns] assms(3) g(1,5) by (simp add: entry_def nth_append)
  have "\<forall>e \<in> set new. d_parent e \<noteq> dir" using g(3) assms(2) by fastforce
  then have "entries_of ds' dir = entries_of ?ds dir"
    unfolding g(1) entries_of_append [of ?ds] by (auto simp: filter_empty_conv)
  then have "entries_of ds' dir = entries_of ds dir @ [length ds]" using entries_of_snoc [OF assms(2)] by simp
  moreover have "\<forall>e \<in> set (entry K dir name i # new). d_parent e = dir \<or> length ds \<le> d_parent e"
    using g(3) by (auto simp: entry_def)
  ultimately show ?thesis
    unfolding grown_def using g(1,2) t by (intro exI [of _ "entry K dir name i # new"] exI [of _ "[length ds]"]) auto
qed

section \<open>Building the tree\<close>

text \<open>A kernel that does not run out of memory, with 32-bit pids, in which the idle task is its own parent.\<close>

definition plentiful :: "lfs_env \<Rightarrow> bool" where
  "plentiful K \<longleftrightarrow> (\<forall>n. alloc_ok K n) \<and> (\<forall>t. - (2 ^ 31) \<le> p_pid (process_of K t) \<and> p_pid (process_of K t) < 2 ^ 31)
     \<and> p_parent (process_of K init_task) = init_task"

lemma create_file_ok:
  assumes "plentiful K" "ordered (dentries s)" "dir < length (dentries s)"
  shows "\<exists>d s'. lfs_create_file K dir name pid sig s = (Some d, s')
    \<and> grown dir (dentries s) (dentries s') [File name (if sig then lfs_file_ops2 else lfs_file_ops) pid]"
proof -
  obtain i s' where i: "lfs_create_file K dir name pid sig s = (Some (length (dentries s)), s')"
    "dentries s' = dentries s @ [entry K dir name i]" "i_fop i = Some (if sig then lfs_file_ops2 else lfs_file_ops)" "i_private i = pid"
    using assms(1) by (auto simp: lfs_create_file_def d_alloc_def try_alloc_def plentiful_def lfs_make_inode_def d_add_def entry_def Let_def)
  then show ?thesis using grown_file [OF assms(2,3) i(3), of K name] by auto
qed

lemma create_dir_ok:
  assumes "plentiful K"
  shows "\<exists>i s'. lfs_create_dir K dir name s = (Some (length (dentries s)), s')
    \<and> dentries s' = dentries s @ [entry K dir name i] \<and> i_fop i = Some simple_dir_operations"
  using assms by (simp add: lfs_create_dir_def d_alloc_def try_alloc_def plentiful_def lfs_make_inode_def d_add_def entry_def Let_def)

lemma name_fits: "plentiful K \<Longrightarrow> pid = p_pid (process_of K t) \<Longrightarrow> buf_text NAME_MAX (fmt_d pid) = Ret (fmt_d pid)
    \<and> buf_text NAME_MAX (fmt_d pid @ ''.status'') = Ret (fmt_d pid @ ''.status'')"
  using length_fmt_d [of pid] by (simp add: plentiful_def buf_text_def NAME_MAX_def)

lemma create_ff_ok:
  assumes "plentiful K" "ordered (dentries s)" "dir < length (dentries s)" "pid = p_pid (process_of K t)"
  shows "\<exists>i s'. sub_create_ff_real K t dir s = Ret (length (dentries s), s') \<and> i_fop i = Some simple_dir_operations
    \<and> grown (length (dentries s)) (dentries s @ [entry K dir (fmt_d pid) i]) (dentries s')
        [File ''signal'' lfs_file_ops2 pid, File (fmt_d pid @ ''.status'') lfs_file_ops pid]"
proof -
  obtain s0 where s0: "try_alloc K s = (True, s0)" "dentries s0 = dentries s" using assms(1) by (simp add: try_alloc_def plentiful_def)
  obtain i s1 where s1: "lfs_create_dir K dir (fmt_d pid) s0 = (Some (length (dentries s)), s1)"
    "dentries s1 = dentries s @ [entry K dir (fmt_d pid) i]" "i_fop i = Some simple_dir_operations"
    using create_dir_ok [OF assms(1), of dir "fmt_d pid" s0] s0(2) by auto
  have o1: "ordered (dentries s1)" "length (dentries s) < length (dentries s1)"
    unfolding s1(2) using assms(2,3) by (simp_all add: ordered_snoc entry_def)
  obtain d2 s2 where s2: "lfs_create_file K (length (dentries s)) ''signal'' pid True s1 = (Some d2, s2)"
    "grown (length (dentries s)) (dentries s1) (dentries s2) [File ''signal'' lfs_file_ops2 pid]"
    using create_file_ok [OF assms(1) o1, of "''signal''" pid True] by auto
  have o2: "ordered (dentries s2)" "length (dentries s) < length (dentries s2)" using s2(2) o1(2) by (auto simp: grown_def)
  obtain d3 s3 where s3: "lfs_create_file K (length (dentries s)) (fmt_d pid @ ''.status'') pid False s2 = (Some d3, s3)"
    "grown (length (dentries s)) (dentries s2) (dentries s3) [File (fmt_d pid @ ''.status'') lfs_file_ops pid]"
    using create_file_ok [OF assms(1) o2, of "fmt_d pid @ ''.status''" pid False] by auto
  have "sub_create_ff_real K t dir s = Ret (length (dentries s), s3)"
    using s0(1) s1(1) s2(1) s3(1) name_fits [OF assms(1,4)] assms(4) by (simp add: sub_create_ff_real_def)
  then show ?thesis using s1(2,3) grown_trans [OF o1(2) s2(2) s3(2)] by auto
qed

lemma subfiles_siblings:
  assumes "\<And>T s. T \<in> set Ts \<Longrightarrow> ordered (dentries s) \<Longrightarrow> dir < length (dentries s)
      \<Longrightarrow> \<exists>s'. sub_create_subfiles l K (Some (proc_ref T)) dir s = Ret s' \<and> grown dir (dentries s) (dentries s') [proc_dir K T]"
    and "ordered (dentries s)" "dir < length (dentries s)"
  shows "\<exists>s'. ofold (\<lambda>t2. sub_create_subfiles l K (Some t2) dir) (map proc_ref Ts) s = Ret s'
    \<and> grown dir (dentries s) (dentries s') (map (proc_dir K) Ts)"
  using assms
proof (induction Ts arbitrary: s)
  case Nil
  then show ?case by (simp add: grown_refl)
next
  case (Cons T Ts)
  obtain s1 where s1: "sub_create_subfiles l K (Some (proc_ref T)) dir s = Ret s1" "grown dir (dentries s) (dentries s1) [proc_dir K T]"
    using Cons.prems(1) [of T s] Cons.prems(2,3) by auto
  then have o1: "ordered (dentries s1)" "dir < length (dentries s1)" using Cons.prems(3) by (auto simp: grown_def)
  obtain s2 where "ofold (\<lambda>t2. sub_create_subfiles l K (Some t2) dir) (map proc_ref Ts) s1 = Ret s2"
    "grown dir (dentries s1) (dentries s2) (map (proc_dir K) Ts)"
    using Cons.IH [of s1] Cons.prems(1) o1 by auto
  then show ?case using s1 grown_trans [OF Cons.prems(3) s1(2)] by simp
qed

lemma ff_with_children:
  assumes "plentiful K" "ordered (dentries s)" "dir < length (dentries s)"
    and "sub_create_ff_real K t dir s = Ret (subdir, s1)" "grown subdir (dentries s1) (dentries s2) (map (proc_dir K) Ts)"
  shows "grown dir (dentries s) (dentries s2) [proc_dir K (Proc t Ts)]"
proof -
  let ?pid = "p_pid (process_of K t)"
  obtain i where i: "subdir = length (dentries s)" "i_fop i = Some simple_dir_operations"
    "grown subdir (dentries s @ [entry K dir (fmt_d ?pid) i]) (dentries s1)
        [File ''signal'' lfs_file_ops2 ?pid, File (fmt_d ?pid @ ''.status'') lfs_file_ops ?pid]"
    using create_ff_ok [OF assms(1-3) refl, of t] assms(4) by auto
  have "grown subdir (dentries s @ [entry K dir (fmt_d ?pid) i]) (dentries s2)
      ([File ''signal'' lfs_file_ops2 ?pid, File (fmt_d ?pid @ ''.status'') lfs_file_ops ?pid] @ map (proc_dir K) Ts)"
    by (rule grown_trans [OF _ i(3) assms(5)]) (simp add: i(1))
  then show ?thesis using grown_dir [OF assms(2,3) i(2)] i(1) by (simp add: Let_def)
qed

lemma subfiles_ok:
  assumes "plentiful K"
  shows "hierarchy K T \<Longrightarrow> levels_within l T \<Longrightarrow> ordered (dentries s) \<Longrightarrow> dir < length (dentries s)
    \<Longrightarrow> \<exists>s'. sub_create_subfiles l K (Some (proc_ref T)) dir s = Ret s' \<and> grown dir (dentries s) (dentries s') [proc_dir K T]"
proof (induction l T arbitrary: dir s rule: levels_within.induct)
  case (1 T)
  then show ?case by simp
next
  case (2 l t Ts)
  obtain s1 where s1: "sub_create_ff_real K t dir s = Ret (length (dentries s), s1)" "ordered (dentries s1)" "length (dentries s) < length (dentries s1)"
    using create_ff_ok [OF assms 2(4,5) refl, of t] by (auto simp: grown_def)
  obtain s2 where s2: "ofold (\<lambda>t2. sub_create_subfiles l K (Some t2) (length (dentries s))) (map proc_ref Ts) s1 = Ret s2"
    "grown (length (dentries s)) (dentries s1) (dentries s2) (map (proc_dir K) Ts)"
    using subfiles_siblings [of Ts "length (dentries s)" l K s1] 2(1,2,3) s1(2,3) by auto
  have "sub_create_subfiles (Suc l) K (Some t) dir s = Ret s2" using s1(1) s2(1) 2(2) by simp
  with ff_with_children [OF assms 2(4,5) s1(1) s2(2)] show ?case by auto
qed

lemma create_files_ok:
  assumes "plentiful K" "hierarchy K (Proc init_task Ts)" "\<forall>T \<in> set Ts. levels_within l T"
    and "ordered (dentries s)" "root < length (dentries s)"
  shows "\<exists>s'. lfs_create_files l K root s = Ret s' \<and> grown root (dentries s) (dentries s') [proc_dir K (Proc init_task Ts)]"
proof -
  obtain s1 where s1: "sub_create_ff_real K init_task root s = Ret (length (dentries s), s1)" "ordered (dentries s1)" "length (dentries s) < length (dentries s1)"
    using create_ff_ok [OF assms(1,4,5) refl, of init_task] by (auto simp: grown_def)
  obtain s2 where s2: "ofold (\<lambda>t2. sub_create_subfiles l K (Some t2) (length (dentries s))) (map proc_ref Ts) s1 = Ret s2"
    "grown (length (dentries s)) (dentries s1) (dentries s2) (map (proc_dir K) Ts)"
    using subfiles_siblings [of Ts "length (dentries s)" l K s1] subfiles_ok [OF assms(1)] assms(2,3) s1(2,3) by auto
  have "lfs_create_files l K root s = Ret s2"
    using s1(1) s2(1) assms(1,2) by (simp add: lfs_create_files_def plentiful_def)
  with ff_with_children [OF assms(1,4,5) s1(1) s2(2)] show ?thesis by auto
qed

section \<open>Properties\<close>

text \<open>
  C30.  Mounting builds the mirror of the process tree: if no allocation fails, the root
  directory shows one directory for the idle task, and the directory of every process holds
  its signal file, its status file (both carrying the pid) and then the directories of its
  children in order, to every depth; the names always fit their buffer.
\<close>

theorem lfs_mount_mirrors:
  assumes "plentiful K" "hierarchy K (Proc init_task Ts)" "\<forall>T \<in> set Ts. levels_within l T" "dentries s = []"
  shows "\<exists>sb' s'. lfs_fill_super l K sb s = Ret (0, sb', s') \<and> s_magic sb' = LFS_MAGIC \<and> s_root sb' = Some 0
    \<and> tree_at (dentries s') 0 (Dir ''/'' [proc_dir K (Proc init_task Ts)])"
proof -
  obtain i e s1 where s1: "lfs_fill_super l K sb s = obind (lfs_create_files l K 0 s1)
        (Ret \<circ> (\<lambda>s. (0, sb\<lparr>s_blocksize := 4096, s_blocksize_bits := 12, s_magic := LFS_MAGIC, s_op := True, s_root := Some 0\<rparr>, s)))"
    "dentries s1 = [e]" "d_parent e = 0" "d_name e = ''/''" "d_inode e = Some i" "i_fop i = Some simple_dir_operations"
    using assms(1,4) by (auto simp: lfs_fill_super_def lfs_make_inode_def d_make_root_def try_alloc_def plentiful_def Let_def comp_def)
  have o1: "ordered (dentries s1)" "0 < length (dentries s1)" using s1(2,3) by (simp_all add: ordered_def)
  obtain s2 where s2: "lfs_create_files l K 0 s1 = Ret s2" "grown 0 (dentries s1) (dentries s2) [proc_dir K (Proc init_task Ts)]"
    using create_files_ok [OF assms(1-3) o1] by blast
  then obtain new where n: "dentries s2 = e # new" "list_all2 (tree_at (dentries s2)) (entries_of (dentries s2) 0) [proc_dir K (Proc init_task Ts)]"
    using s1(2) by (auto simp: grown_def entries_of_def)
  have "tree_at (dentries s2) 0 (Dir ''/'' [proc_dir K (Proc init_task Ts)])"
    using tree_at.dir_at [OF _ _ s1(6) n(2)] s1(4,5) n(1) by simp
  then show ?thesis using s1(1) s2(1) by simp
qed

text \<open>The idle task, \<^verbatim>\<open>init\<close> with one child, and a kernel thread.\<close>

definition demo_proc :: "nat \<Rightarrow> process" where
  "demo_proc t = \<lparr>p_pid = int t, p_mm = (t \<noteq> 2), p_parent = 0, p_children = (if t = 0 then [1, 2] else if t = 1 then [412] else [])\<rparr>"

definition demo_lfs :: lfs_env where
  "demo_lfs = \<lparr>alloc_ok = (\<lambda>_. True), current_time = int, full_name_hash = (\<lambda>_ n. n),
     process_of = (\<lambda>t. if t < 1000 then demo_proc t else demo_proc 0), pid_task = (\<lambda>p. if p < 1000 then Some (nat p) else None)\<rparr>"

definition demo_super :: super_block where
  "demo_super = \<lparr>s_blocksize = 0, s_blocksize_bits = 0, s_magic = 0, s_op = False, s_root = None\<rparr>"

definition demo_lfs_state :: lfs_state where
  "demo_lfs_state = \<lparr>dentries = [], n_alloc = 0, next_ino = 1, sent = []\<rparr>"

lemma demo_plentiful: "plentiful demo_lfs"
  by (simp add: plentiful_def demo_lfs_def demo_proc_def init_task_def)

lemma demo_hierarchy: "hierarchy demo_lfs (Proc init_task [Proc 1 [Proc 412 []], Proc 2 []])"
  by (simp add: demo_lfs_def demo_proc_def init_task_def)

theorem lfs_mount_mirrors_witness:
  "\<exists>sb' s'. lfs_fill_super 2 demo_lfs demo_super demo_lfs_state = Ret (0, sb', s') \<and> s_magic sb' = LFS_MAGIC \<and> s_root sb' = Some 0
    \<and> tree_at (dentries s') 0 (Dir ''/'' [proc_dir demo_lfs (Proc init_task [Proc 1 [Proc 412 []], Proc 2 []])])"
  by (rule lfs_mount_mirrors [OF demo_plentiful demo_hierarchy]) (simp_all add: eval_nat_numeral demo_lfs_state_def)

text \<open>
  C31.  A number written to a signal file is the signal sent: whatever follows the number and
  the newline, the process whose pid the file carries gets exactly that signal, and the write
  reports all its characters; a write at another offset or of twenty characters or more is
  refused without sending, and one to a process that is gone sends nothing and reports 0.
\<close>

theorem lfs_signal_write:
  assumes "tree_at ds d (File name lfs_file_ops2 pid)" "0 < pid" "pid < 2 ^ 31" "- (2 ^ 31) \<le> n" "n < 2 ^ 31"
  shows "\<exists>i. d_inode (ds ! d) = Some i \<and> (let fd = snd (lfs_open i); count = Suc (length (fmt_d n)); user = Some (fmt_d n @ CHR 0x0A # rest)
    in lfs_write_sig_file K fd user count 0 s
         = (case pid_task K pid of None \<Rightarrow> (0, s) | Some t \<Rightarrow> (int count, s\<lparr>sent := sent s @ [(t, n)]\<rparr>))
     \<and> (offset \<noteq> 0 \<or> 20 \<le> count' \<longrightarrow> lfs_write_sig_file K fd user count' offset s = (- 22, s)))"
proof -
  obtain i where i: "d_inode (ds ! d) = Some i" "i_private i = pid" using assms(1) by (cases rule: tree_at.cases) auto
  have l: "length (fmt_d n) \<le> 11" by (rule length_fmt_d) (use assms in simp_all)
  have p: "s32 pid = pid" using assms(2,3) by (intro s32_id) simp_all
  have "simple_strtol (fmt_d n @ CHR 0x0A # replicate k CHR 0x00) = n" for k by (rule strtol_fmt_d) simp
  then show ?thesis using i l p assms(2,4,5)
    by (auto simp: lfs_open_def lfs_write_sig_file_def TMPSIZE_def EINVAL_def Let_def split: option.split)
qed

lemma demo_signal_file:
  "tree_at [\<lparr>d_parent = 0, d_name = ''signal'', d_len = 6, d_hash = 6, d_inode = Some \<lparr>i_ino = 1, i_mode = 33277, i_uid = 0, i_gid = 0,
     i_blocks = 0, i_time = 0, i_fop = Some lfs_file_ops2, i_dir_op = False, i_private = 412\<rparr>, d_dead = False\<rparr>] 0 (File ''signal'' lfs_file_ops2 412)"
  (is "tree_at ?ds 0 _")
  using tree_at.file_at [of 0 ?ds "the (d_inode (hd ?ds))" lfs_file_ops2] by simp

theorem lfs_signal_write_witness:
  "lfs_write_sig_file demo_lfs 412 (Some [CHR ''9'', CHR 0x0A]) 2 0 demo_lfs_state = (2, demo_lfs_state\<lparr>sent := [(412, 9)]\<rparr>)"
proof -
  have "fmt_d 9 = ''9''" by (simp add: fmt_d_def dec_digits.simps digit_def char_of_eq_iff)
  then show ?thesis using lfs_signal_write [OF demo_signal_file, of 9 "[]" demo_lfs demo_lfs_state 0 0]
    by (simp add: lfs_open_def Let_def demo_lfs_def demo_lfs_state_def numeral_2_eq_2)
qed

end
