(* ===== verification/LfsStatus.thy ===== *)
theory LfsStatus
  imports Lfs
begin

text \<open>
  Reading a status file of the process file system of p4 (\<open>lfs_read_file\<close> of
  \<open>example.c\<close>): the text of the report, section by section, and the way it is put into a
  kernel buffer and copied to the reader.
\<close>

unbundle bit_operations_syntax

section \<open>What the report reads\<close>

text \<open>The structures of the kernel the report prints, with the fields it prints; a C string is the characters before its NUL.\<close>

record thread_struct =
  usersp :: "64 word"
  sp :: "64 word"
  sp0 :: "64 word"
  fs :: "64 word"
  es :: "64 word"
  ds :: "64 word"
  gs :: "64 word"
  cr2 :: "64 word"

record sched_rt_entity =
  timeout :: "64 word"
  time_slice :: "32 word"

record sched_statistics =
  wait_start :: "64 word"
  wait_max :: "64 word"
  wait_count :: "64 word"
  wait_sum :: "64 word"
  iowait_count :: "64 word"
  iowait_sum :: "64 word"
  sleep_start :: "64 word"
  sleep_max :: "64 word"
  sum_sleep_runtime :: "64 word"
  block_start :: "64 word"
  block_max :: "64 word"
  exec_max :: "64 word"
  slice_max :: "64 word"
  nr_migrations_cold :: "64 word"
  nr_failed_migrations_affine :: "64 word"
  nr_failed_migrations_running :: "64 word"
  nr_failed_migrations_hot :: "64 word"
  nr_forced_migrations :: "64 word"
  nr_wakeups :: "64 word"
  nr_wakeups_sync :: "64 word"
  nr_wakeups_migrate :: "64 word"
  nr_wakeups_local :: "64 word"
  nr_wakeups_remote :: "64 word"
  nr_wakeups_affine :: "64 word"
  nr_wakeups_affine_attempts :: "64 word"
  nr_wakeups_passive :: "64 word"
  nr_wakeups_idle :: "64 word"

record sched_entity =
  on_rq :: "32 word"
  exec_start :: "64 word"
  sum_exec_runtime :: "64 word"
  vruntime :: "64 word"
  prev_sum_exec_runtime :: "64 word"
  nr_migrations :: "64 word"
  statistics :: sched_statistics

text \<open>The result of \<open>d_path\<close>: a path, an error pointer, or NULL.\<close>

datatype d_path = Path string | Err_ptr | Null_ptr

record open_file =
  f_pos :: "64 word"
  f_mode :: "32 word"
  f_flags :: "32 word"
  f_path :: d_path

text \<open>\<open>mmap\<close>: start and end of the first area, \<open>exe_file\<close>: the path of the executable; both pointers may be NULL.\<close>

record mm_struct =
  nr_ptes :: "64 word"
  total_vm :: "64 word"
  map_count :: "32 word"
  highest_vm_end :: "64 word"
  pgd :: "64 word"
  hiwater_vm :: "64 word"
  hiwater_rss :: "64 word"
  locked_vm :: "64 word"
  pinned_vm :: "64 word"
  shared_vm :: "64 word"
  exec_vm :: "64 word"
  stack_vm :: "64 word"
  start_stack :: "64 word"
  mmap_base :: "64 word"
  start_brk :: "64 word"
  brk :: "64 word"
  start_data :: "64 word"
  end_data :: "64 word"
  start_code :: "64 word"
  end_code :: "64 word"
  env_start :: "64 word"
  env_end :: "64 word"
  arg_start :: "64 word"
  arg_end :: "64 word"
  def_flags :: "64 word"
  mm_users :: "32 word"
  mm_count :: "32 word"
  mm_rss :: "64 word"
  swapents :: "64 word"
  mmap :: "(64 word \<times> 64 word) option"
  exe_file :: "d_path option"

record task_struct =
  state :: "64 word"
  start_time :: "64 word"
  real_start_time :: "64 word"
  comm :: string
  pid :: "32 word"
  tgid :: "32 word"
  utime :: "64 word"
  stime :: "64 word"
  acct_timexpd :: "64 word"
  prio :: "32 word"
  rt_priority :: "32 word"
  flags :: "32 word"
  self_exec_id :: "32 word"
  parent_exec_id :: "32 word"
  lockdep_depth :: "64 word"
  acct_rss_mem1 :: "64 word"
  acct_vm_mem1 :: "64 word"
  active_mm :: "64 word"
  stack :: "64 word"
  cpu :: "32 word"
  thread_info :: "64 word"
  thread :: thread_struct
  rt :: sched_rt_entity
  se :: sched_entity
  group_leader_pid :: "32 word"
  mm_address :: "64 word"
  mm :: "mm_struct option"
  files :: "open_file option list option"
  sighand :: "64 word list option"
  num_threads :: "32 word"
  sigq_size :: "64 word"
  sigq_lim :: "64 word"

text \<open>
  The configuration the module is built with, the codes of the task states, what a fresh
  buffer and the stack contain, and the tasks.
\<close>

record status_env =
  config_lockdep :: bool
  config_task_xacct :: bool
  config_schedstats :: bool
  state_code :: "string \<Rightarrow> 64 word"
  stack_junk :: string
  local_address :: "nat \<Rightarrow> 64 word"
  kmalloc_bytes :: "nat \<Rightarrow> string option"
  task_at :: "nat \<Rightarrow> task_struct"
  find_task :: "int \<Rightarrow> nat option"
  copy_ok :: bool

definition nl :: string where
  "nl = [CHR 0x0A]"

definition tab :: string where
  "tab = [CHR 0x09]"

definition quote :: string where
  "quote = [CHR 0x22]"

definition apos :: string where
  "apos = [CHR 0x27]"

definition BUFSIZE :: nat where
  "BUFSIZE = 4 * 4096"

definition SIGUSR1 :: nat where
  "SIGUSR1 = 10"

section \<open>Sections of the report\<close>

text \<open>The name of a state, in the order of the cases; a state without a case leaves the buffer as it was.\<close>

definition state_names :: "(string \<times> string) list" where
  "state_names = [(''TASK_RUNNING'', ''TASK_RUNNING''), (''TASK_INTERRUPTIBLE'', ''TASK_INTERRUPTIBLE''),
     (''TASK_UNINTERRUPTIBLE'', ''TASK_UNINTERRUPTIBLE:''), (''__TASK_STOPPED'', ''__TASK_STOPPED''),
     (''__TASK_TRACED'', ''__TASK_TRACED''), (''EXIT_ZOMBIE'', ''EXIT_ZOMBIE''), (''EXIT_DEAD'', ''EXIT_DEAD''),
     (''TASK_DEAD'', ''TASK_DEAD''), (''TASK_WAKEKILL'', ''TASK_WAKEKILL''), (''TASK_WAKING'', ''TASK_WAKING''),
     (''TASK_PARKED'', ''TASK_PARKED''), (''TASK_STATE_MAX'', ''TASK_STATE_MAX'')]"

definition state_text :: "status_env \<Rightarrow> 64 word \<Rightarrow> string" where
  "state_text E st = (case find (\<lambda>(c, l). state_code E c = st) state_names of None \<Rightarrow> stack_junk E | Some (c, l) \<Rightarrow> l)"

definition minimum_lines :: "task_struct \<Rightarrow> string \<Rightarrow> string list" where
  "minimum_lines t tmp2 =
    [concat [''1. state '', fmt_d (sint (state t)), '' '', tmp2, nl],
     concat [''2. on CPU '', fmt_u (cpu t), nl],
     concat [''3. I'', apos, ''m a '', (if mm t \<noteq> None then ''USER thread'' else ''KERNEL thread''), nl],
     concat [''4. start_time at '', fmt_u (start_time t), '' ns, real_start_time at '', fmt_u (real_start_time t),
       '' ns'', nl],
     concat [''5. comm '', quote, comm t, quote, nl],
     concat [''6. stack pointer & mem usages '', nl],
     concat [tab, ''User sp '', tab, '' '', fmt_p (usersp (thread t)), nl],
     concat [tab, ''Kernel sp '', tab, '' '', fmt_p (sp (thread t)), nl],
     concat [tab, ''Kernel sp0 '', tab, '' '', fmt_p (sp0 (thread t)), nl]]"

definition PAGE_MASK :: "64 word" where
  "PAGE_MASK = NOT 4095"

definition PAGE_ALIGN :: "64 word \<Rightarrow> 64 word" where
  "PAGE_ALIGN a = (a + 4095) AND PAGE_MASK"

definition memory_lines :: "task_struct \<Rightarrow> string list" where
  "memory_lines t = (case mm t of
     Some m \<Rightarrow>
       (let total_vm0 = total_vm m;
            hiwater_vm0 = (if total_vm0 < hiwater_vm m then hiwater_vm m else total_vm0);
            total_rss0 = mm_rss m;
            hiwater_rss0 = (if total_rss0 < hiwater_rss m then hiwater_rss m else total_rss0);
            data = total_vm m - shared_vm m - stack_vm m;
            text_kb = drop_bit 10 (PAGE_ALIGN (end_code m) - (start_code m AND PAGE_MASK));
            lib = push_bit 2 (exec_vm m) - text_kb;
            swap = swapents m
        in [concat [tab, ''VmPeak:'', tab, pad 8 (fmt_u (push_bit 2 hiwater_vm0)), '' kB'', nl, tab, ''VmSize:'', tab,
       pad 8 (fmt_u (push_bit 2 total_vm0)), '' kB'', nl, tab, ''VmLck:'', tab,
       pad 8 (fmt_u (push_bit 2 (locked_vm m))), '' kB'', nl, tab, ''VmPin:'', tab,
       pad 8 (fmt_u (push_bit 2 (pinned_vm m))), '' kB'', nl, tab, ''VmHWM:'', tab,
       pad 8 (fmt_u (push_bit 2 hiwater_rss0)), '' kB'', nl, tab, ''VmRSS:'', tab,
       pad 8 (fmt_u (push_bit 2 total_rss0)), '' kB'', nl, tab, ''VmData:'', tab, pad 8 (fmt_u (push_bit 2 data)),
       '' kB'', nl, tab, ''VmStk:'', tab, pad 8 (fmt_u (push_bit 2 (stack_vm m))), '' kB'', nl, tab, ''VmExe:'', tab,
       pad 8 (fmt_u text_kb), '' kB'', nl, tab, ''VmLib:'', tab, pad 8 (fmt_u lib), '' kB'', nl, tab, ''VmPTE:'', tab,
       pad 8 (fmt_u (drop_bit 10 (4096 * nr_ptes m))), '' kB'', nl, tab, ''VmSwap:'', tab,
       pad 8 (fmt_u (push_bit 2 swap)), '' kB'', nl],
     concat [tab, '' # of pages '', fmt_u (nr_ptes m), nl],
     concat [nl]])
   | None \<Rightarrow>
       [concat [tab, '' kernel thread doen'', apos, ''t suppor t->mm'', nl]]) @ [concat [nl]]"

definition thread_lines :: "status_env \<Rightarrow> task_struct \<Rightarrow> string list" where
  "thread_lines E t =
    [concat [''-- Thread --'', nl],
     concat [''ip(x32) fs(x64) '', fmt_p (fs (thread t)), nl],
     concat [''es '', tab, '' '', fmt_p (es (thread t)), nl],
     concat [''ds '', tab, '' '', fmt_p (ds (thread t)), nl],
     concat [''gs '', tab, '' '', fmt_p (gs (thread t)), nl],
     concat [''cr2 '', tab, '' '', fmt_p (cr2 (thread t)), nl],
     concat [''pid '', tab, tab, tab, '' '', fmt_d (sint (pid t)), nl],
     concat [''tgid '', tab, tab, tab, '' '', fmt_d (sint (tgid t)), nl],
     concat [''User time '', tab, tab, '' '', fmt_u (utime t), nl],
     concat [''System time '', tab, tab, '' '', fmt_u (stime t), nl],
     concat [''Last updat stime + utime '', fmt_u (acct_timexpd t), nl],
     concat [''Priority '', tab, tab, '' '', fmt_d (sint (prio t)), nl],
     concat [''RT priority '', tab, tab, '' '', fmt_d (sint (rt_priority t)), nl],
     concat [''Task properties '', tab, '' '', fmt_d (sint (flags t)), '' (check process flags)'', nl],
     concat [''Group leader pid '', tab, '' '', fmt_d (sint (group_leader_pid t)), nl],
     concat [''Self_exec_id '', tab, tab, '' '', fmt_d (sint (self_exec_id t)), nl],
     concat [''Original group process id '', fmt_d (sint (parent_exec_id t)), nl]]
    @ (if config_lockdep E then [concat [''Lock deep level '', fmt_u (lockdep_depth t), '' when doing contex switch'', nl]]
       else [concat [''Locksep_depth is not turned on'', nl]])
    @ (if config_task_xacct E
       then [concat [''Accumulated resident memory usage '', fmt_u (acct_rss_mem1 t), '' B'', nl,
       ''Accumulated virtual memory usage '', fmt_u (acct_vm_mem1 t), '' B'', nl]]
       else [concat [tab, '' not support mm usage '', nl]])
    @ [concat [nl]]"

definition statistic_lines :: "task_struct \<Rightarrow> string list" where
  "statistic_lines t =
    [concat [nl],
     concat [''-- schedule statistic --'', nl],
     concat [''wait_start '', fmt_u (wait_start (statistics (se t))), '' ns'', nl],
     concat [''wait_max '', fmt_u (wait_max (statistics (se t))), '' ns'', nl],
     concat [''wait_count '', fmt_u (wait_count (statistics (se t))), nl],
     concat [''wait_sum '', fmt_u (wait_sum (statistics (se t))), '' ns'', nl],
     concat [''iowait_count '', fmt_u (iowait_count (statistics (se t))), nl],
     concat [''iowait_sum '', fmt_u (iowait_sum (statistics (se t))), '' ns'', nl],
     concat [''sleep_start '', fmt_u (sleep_start (statistics (se t))), '' ns'', nl],
     concat [''sleep_max '', fmt_u (sleep_max (statistics (se t))), '' ns'', nl],
     concat [''sum_sleep_runtime '', fmt_u (sum_sleep_runtime (statistics (se t))), '' ns'', nl],
     concat [''block_start '', fmt_u (block_start (statistics (se t))), '' ns'', nl],
     concat [''block_max '', fmt_u (block_max (statistics (se t))), '' ns'', nl],
     concat [''exec_max '', fmt_u (exec_max (statistics (se t))), '' ns'', nl],
     concat [''slice_max '', fmt_u (slice_max (statistics (se t))), '' ns'', nl],
     concat [''nr_migrations_cold '', fmt_u (nr_migrations_cold (statistics (se t))), nl],
     concat [''nr_failed_migrations_affine '', fmt_u (nr_failed_migrations_affine (statistics (se t))), nl],
     concat [''nr_failed_migrations_running '', fmt_u (nr_failed_migrations_running (statistics (se t))), nl],
     concat [''nr_failed_migrations_hot '', fmt_u (nr_failed_migrations_hot (statistics (se t))), nl],
     concat [''nr_forced_migrations '', fmt_u (nr_forced_migrations (statistics (se t))), nl],
     concat [''nr_wakeups '', fmt_u (nr_wakeups (statistics (se t))), nl],
     concat [''nr_wakeups_sync '', fmt_u (nr_wakeups_sync (statistics (se t))), nl],
     concat [''nr_wakeups_migrate '', fmt_u (nr_wakeups_migrate (statistics (se t))), nl],
     concat [''nr_wakeups_local '', fmt_u (nr_wakeups_local (statistics (se t))), nl],
     concat [''nr_wakeups_remote '', fmt_u (nr_wakeups_remote (statistics (se t))), nl],
     concat [''nr_wakeups_affine '', fmt_u (nr_wakeups_affine (statistics (se t))), nl],
     concat [''nr_wakeups_affine_attempts '', fmt_u (nr_wakeups_affine_attempts (statistics (se t))), nl],
     concat [''nr_wakeups_passive '', fmt_u (nr_wakeups_passive (statistics (se t))), nl],
     concat [''nr_wakeups_idle '', fmt_u (nr_wakeups_idle (statistics (se t))), nl]]"

definition schedule_lines :: "status_env \<Rightarrow> task_struct \<Rightarrow> string list" where
  "schedule_lines E t =
    [concat [''-- Schedule --'', nl],
     concat [''Timeout '', fmt_u (timeout (rt t)), '' ns'', nl],
     concat [''Sched_entity on_rq '', fmt_u (on_rq (se t)), nl],
     concat [''Last start time '', fmt_u (exec_start (se t)), '' ns'', nl],
     concat [''Sum of total execution real run time '', fmt_u (sum_exec_runtime (se t)), '' ns'', nl],
     concat [''Virtual runtime '', fmt_u (vruntime (se t)), '' ns'', nl],
     concat [''Previous sum execution time '', fmt_u (prev_sum_exec_runtime (se t)), '' ns'', nl],
     concat [''Number of migrations '', fmt_u (nr_migrations (se t)), nl],
     concat [''Time slice you can run '', fmt_u (time_slice (rt t)), '' ns'', nl]]
    @ (if config_schedstats E then statistic_lines t else [])
    @ [concat [nl]]"

text \<open>The next two sections follow pointers that may be NULL.\<close>

definition mm_lines :: "task_struct \<Rightarrow> mm_struct \<Rightarrow> string list outcome" where
  "mm_lines t m = (case mmap m of None \<Rightarrow> Fault
   | Some (vm_start, vm_end) \<Rightarrow> Ret
    [concat [''Physical memory is being used (no swap included) '', fmt_u (mm_rss m), '' KB'', nl],
     concat [''Total vm pages mapped '', fmt_u (total_vm m), '' KB'', nl],
     concat [''# of VMAs '', fmt_d (sint (map_count m)), nl],
     concat [''highest_vm_end '', fmt_p (highest_vm_end m), nl],
     concat [''Page global directory pointer '', fmt_p (pgd m), nl],
     concat [''virtual memory areas '', tab, '' start '', fmt_p vm_start, '' end '', fmt_p vm_end, nl],
     concat [''Virtual memory (high-watermark) '', fmt_u (hiwater_vm m), '' KB'', nl],
     concat [''Physical memory (high-watermark) '', fmt_u (hiwater_rss m), '' KB'', nl],
     concat [''locked_vm pages '', fmt_u (locked_vm m), '' KB'', nl],
     concat [''pinned vm pages '', fmt_u (pinned_vm m), '' KB'', nl],
     concat [''shared vm pages (files) '', fmt_u (shared_vm m), '' KB'', nl],
     concat [''exec vm pages & ~vm write pages  '', fmt_u (exec_vm m), '' KB'', nl],
     concat [''stack vm pages '', fmt_u (stack_vm m), '' KB'', nl],
     concat [nl, ''---segments---'', nl],
     concat [''Stack segment (downward) '', tab, ''start '', fmt_p (start_stack m), nl],
     concat [''Mmap segment (downward) '', tab, ''start '', fmt_p (mmap_base m), nl],
     concat [''Heap segment (upward) '', tab, ''start '', fmt_p (start_brk m), '' end '', fmt_p (brk m), nl],
     concat [''Data segment (upward) '', tab, ''start '', fmt_p (start_data m), '' end '', fmt_p (end_data m), nl],
     concat [''Text segment (upward) '', tab, ''start '', fmt_p (start_code m), '' end '', fmt_p (end_code m), nl],
     concat [''Env segment (upward) '', tab, ''start '', fmt_p (env_start m), '' end '', fmt_p (env_end m), nl],
     concat [''Arg segment (upward) '', tab, ''start '', fmt_p (arg_start m), '' end '', fmt_p (arg_end m), nl],
     concat [nl],
     concat [''top '', fmt_p (sp (thread t)), nl],
     concat [''bottom '', fmt_p (thread_info t), nl],
     concat [''t->stackk '', fmt_p (stack t), nl],
     concat [nl],
     concat [''VM property '', fmt_u (def_flags m), '' (flags)'', nl],
     concat [''# of users are using this mm '', fmt_d (sint (mm_users m)), '' '', nl],
     concat [''# of kernel threads are using this mm '', fmt_d (sint (mm_count m)), '' (users=1)'', nl],
     concat [nl]])"

text \<open>\<open>"%s"\<close> of an error pointer reads an unmapped address.\<close>

definition file_entry :: "nat \<Rightarrow> open_file \<Rightarrow> string list outcome" where
  "file_entry loop f = (case f_path f of
     Err_ptr \<Rightarrow> Fault
   | p \<Rightarrow> (let ppath = (case p of Path x \<Rightarrow> x | _ \<Rightarrow> ''(null)'')
           in Ret
    [concat [''-- File '', fmt_d (int loop), '' existing --'', nl],
     concat [tab, '' Cursor position '', fmt_d (sint (ucast (f_pos f) :: 32 word)), nl],
     concat [tab, '' File permission '', fmt_d (sint (f_mode f)), '' '', nl],
     concat [tab, '' File flags '', fmt_d (sint (f_flags f)), '' '', nl],
     concat [tab, '' File name '', quote, ppath, quote, nl]]))"

fun file_entries :: "nat \<Rightarrow> open_file option list \<Rightarrow> string list outcome" where
  "file_entries loop [] = Ret []"
| "file_entries loop (None # fds) = file_entries (Suc loop) fds"
| "file_entries loop (Some f # fds) = obind (file_entry loop f) (\<lambda>ls.
     obind (file_entries (Suc loop) fds) (\<lambda>rest. Ret (ls @ rest)))"

definition file_lines :: "task_struct \<Rightarrow> mm_struct \<Rightarrow> string list outcome" where
  "file_lines t m =
    obind (case exe_file m of
        None \<Rightarrow> Fault
      | Some Err_ptr \<Rightarrow> Fault
      | Some Null_ptr \<Rightarrow> Ret [concat [''No executable binary'', nl]]
      | Some (Path rpath) \<Rightarrow> Ret [concat [''Executable binary name '', quote, rpath, quote, nl]]) (\<lambda>exe.
    case files t of None \<Rightarrow> Fault
     | Some fds \<Rightarrow> obind (file_entries 0 fds) (\<lambda>ls.
        Ret ([concat [''-- File --'', nl]] @ exe @ ls)))"

definition space_lines :: "task_struct \<Rightarrow> string list outcome" where
  "space_lines t =
    obind (case mm t of None \<Rightarrow> Ret []
      | Some m \<Rightarrow> obind (mm_lines t m) (\<lambda>ls. obind (file_lines t m) (\<lambda>fs. Ret (ls @ fs)))) (\<lambda>ls.
    Ret ([concat [''-- MM --'', nl],
     concat [''My adress space '', fmt_p (mm_address t), nl],
     concat [''Current address space being used '', fmt_p (active_mm t), nl]] @ ls @ [concat [nl]]))"

definition signal_entry :: "nat \<Rightarrow> 64 word \<Rightarrow> string" where
  "signal_entry i handler =
    (if i \<noteq> SIGUSR1 \<and> i \<noteq> 12 then concat [''Signal '', fmt_d (int i), '' handler '', fmt_p handler, nl]
     else concat [''Signal '', fmt_d (int i), '' handler '', fmt_p handler, '' ('',
       (if i = SIGUSR1 then ''SIGUSR1'' else ''SIGUSR2''), '' handler) '', nl])"

definition signal_lines :: "status_env \<Rightarrow> task_struct \<Rightarrow> string list outcome" where
  "signal_lines E t = (case sighand t of None \<Rightarrow> Fault
   | Some action \<Rightarrow>
     obind (ofold (\<lambda>i ls. obind (arr_get action (int i - 1)) (\<lambda>handler. Ret (ls @ [signal_entry i handler])))
             [1..<NSIG - 32] []) (\<lambda>ls.
     obind (collect_sigign_sigcatch action 0 0) (\<lambda>(ignored, caught).
     Ret ([concat [''-- Signal --'', nl]] @ ls @ [concat [nl]] @
    [concat [''Threads:'', tab, fmt_d (sint (num_threads t)), nl],
     concat [''SigQ:'', tab, fmt_u (sigq_size t), ''/'', fmt_u (sigq_lim t), nl],
     concat [''SigPnd: '', fmt_p (local_address E 0), nl],
     concat [''ShdPnd: '', fmt_p (local_address E 1), nl],
     concat [''SigBlk: '', fmt_p (local_address E 2), nl],
     concat [''SigIgn: '', fmt_p (local_address E 3), nl],
     concat [''SigCgt: '', fmt_p (local_address E 4), nl]]))))"

definition report :: "status_env \<Rightarrow> task_struct \<Rightarrow> string list outcome" where
  "report E t =
    obind (space_lines t) (\<lambda>space.
    obind (signal_lines E t) (\<lambda>signal.
    Ret ([''-- Project4 minimun requirements --'' @ nl]
         @ minimum_lines t (state_text E (state t)) @ memory_lines t
         @ thread_lines E t @ schedule_lines E t @ space @ signal)))"

section \<open>The buffer\<close>

text \<open>
  \<open>len += snprintf(tmp + strlen(tmp), sz, ...)\<close>: the text is appended to what the buffer
  holds up to its first NUL, cut to \<open>sz - 1\<close> characters; it must stay inside the buffer.
\<close>

definition emit :: "nat \<Rightarrow> string \<Rightarrow> string \<times> nat \<Rightarrow> (string \<times> nat) outcome" where
  "emit sz x = (\<lambda>(tmp, len).
    (let w = take (sz - 1) x
     in if length tmp + length w < BUFSIZE then Ret (tmp @ w, len + length x) else Fault))"

record read_state =
  n_kmalloc :: nat
  outstanding :: nat

text \<open>
  A read returns its result, the characters copied to the buffer of the reader, the new
  offset, and the state with the number of kernel buffers not freed.  The size of the
  reader's buffer is not looked at.
\<close>

definition lfs_read_file ::
    "status_env \<Rightarrow> int \<Rightarrow> nat \<Rightarrow> int \<Rightarrow> read_state \<Rightarrow> (int \<times> string \<times> int \<times> read_state) outcome" where
  "lfs_read_file E private_data count offset s =
    (let counter = s32 private_data
     in case kmalloc_bytes E (n_kmalloc s) of None \<Rightarrow> Bug
      | Some bytes \<Rightarrow>
        (let s = s\<lparr>n_kmalloc := Suc (n_kmalloc s), outstanding := Suc (outstanding s)\<rparr>;
             tmp = takeWhile (\<lambda>c. c \<noteq> CHR 0x00) bytes
         in if offset > 0 then Ret (0, [], offset, s)
            else if CHR 0x00 \<notin> set bytes then Fault
            else obind (emit NAME_MAX (concat [''pid '', fmt_d counter, nl]) (tmp, 0)) (\<lambda>(tmp, len).
              case (if counter > 0 then find_task E counter else Some init_task) of
                None \<Rightarrow> Ret (int len, [], offset, s)
              | Some t \<Rightarrow>
                obind (report E (task_at E t)) (\<lambda>ls.
                obind (ofold (emit BUFSIZE) ls (tmp, len)) (\<lambda>(tmp, len).
                  let len = (if len > BUFSIZE then BUFSIZE else len)
                  in if offset < 0 then Fault
                     else if \<not> copy_ok E then Ret (- EFAULT, [], offset, s)
                     else Ret (int len, take len tmp, offset + int len, s\<lparr>outstanding := outstanding s - 1\<rparr>))))))"

end
