(* ===== verification/LfsProps.thy ===== *)
theory LfsProps
  imports LfsStatus
begin

text \<open>
  What a reader of a status file sees, and the bound of the kernel buffer the report is put
  into.
\<close>

section \<open>Filling the buffer\<close>

lemma emit_behind:
  assumes "0 < length tmp"
  shows "emit BUFSIZE x (tmp, len) = (if length tmp + length x < BUFSIZE then Ret (tmp @ x, len + length x) else Fault)"
proof (cases "length x < BUFSIZE")
  case True
  then show ?thesis by (simp add: emit_def Let_def)
next
  case False
  then have "length (take (BUFSIZE - 1) x) = BUFSIZE - 1" by simp
  moreover have "\<not> length tmp + (BUFSIZE - 1) < BUFSIZE" using assms by linarith
  ultimately show ?thesis using False by (simp add: emit_def Let_def del: length_take)
qed

lemma emit_lines:
  assumes "0 < length tmp" "length tmp < BUFSIZE"
  shows "ofold (emit BUFSIZE) ls (tmp, len) = (if length tmp + length (concat ls) < BUFSIZE
    then Ret (tmp @ concat ls, len + length (concat ls)) else Fault)"
  using assms by (induction ls arbitrary: tmp len) (simp_all add: emit_behind)

section \<open>Open files\<close>

lemma dec_digits_length: "1 \<le> length (dec_digits n)"
  by (metis dec_digits_nonempty length_greater_0_conv less_eq_Suc_le One_nat_def)

lemma fmt_d_length: "1 \<le> length (fmt_d i)"
  using dec_digits_length by (simp add: fmt_d_def)

lemma file_entry_length: "file_entry loop f = Ret ls \<Longrightarrow> 94 \<le> length (concat ls)"
  using fmt_d_length [of "int loop"] fmt_d_length [of "sint (ucast (f_pos f) :: 32 word)"]
    fmt_d_length [of "sint (f_mode f)"] fmt_d_length [of "sint (f_flags f)"]
  by (cases "f_path f") (auto simp: file_entry_def nl_def tab_def quote_def Let_def)

lemma file_entries_length:
  "file_entries loop fds = Ret ls \<Longrightarrow> 94 * length (filter (\<lambda>f. f \<noteq> None) fds) \<le> length (concat ls)"
proof (induction loop fds arbitrary: ls rule: file_entries.induct)
  case (3 loop f fds)
  then obtain l1 l2 where "file_entry loop f = Ret l1" "file_entries (Suc loop) fds = Ret l2" "ls = l1 @ l2"
    by (auto simp: obind_eq_Ret)
  with 3(1) file_entry_length [of loop f l1] show ?case by fastforce
qed auto

lemma report_length:
  assumes "report E t = Ret ls" "mm t = Some m" "files t = Some fds"
  shows "94 * length (filter (\<lambda>f. f \<noteq> None) fds) \<le> length (concat ls)"
proof -
  from assms obtain fl where "file_entries 0 fds = Ret fl" "length (concat fl) \<le> length (concat ls)"
    by (auto simp: report_def space_lines_def file_lines_def obind_eq_Ret)
  with file_entries_length show ?thesis by fastforce
qed

section \<open>Properties\<close>

text \<open>
  C33.  What reading a status file gives, for a live process whose report can be composed: if
  the text of the report fits the 16 KB buffer behind the bytes that happen to be in it before
  the first NUL, the reader gets the first bytes of the two together, as many as the report is
  long (so exactly the report only when the fresh buffer starts with NUL), whatever size it
  asked for; otherwise the kernel writes past the buffer, which is always so for a process
  with 175 open files or more.  The read that sees the end of the file leaks a buffer.
\<close>

theorem lfs_read_status:
  assumes "kmalloc_bytes E (n_kmalloc s) = Some bytes" "CHR 0x00 \<in> set bytes" "copy_ok E"
    and "- (2 ^ 31) \<le> who" "who < 2 ^ 31" "(if 0 < who then find_task E who else Some init_task) = Some t"
    and "report E (task_at E t) = Ret ls"
  shows "let old = takeWhile (\<lambda>c. c \<noteq> CHR 0x00) bytes; text = ''pid '' @ fmt_d who @ nl @ concat ls;
      s1 = s\<lparr>n_kmalloc := Suc (n_kmalloc s)\<rparr>
    in lfs_read_file E who count 0 s = (if length old + length text < BUFSIZE
          then Ret (int (length text), take (length text) (old @ text), int (length text), s1) else Fault)
     \<and> (mm (task_at E t) = Some m \<and> files (task_at E t) = Some fds \<and> 175 \<le> length (filter (\<lambda>f. f \<noteq> None) fds)
         \<longrightarrow> lfs_read_file E who count 0 s = Fault)
     \<and> (0 < offset \<longrightarrow> lfs_read_file E who count offset s = Ret (0, [], offset, s1\<lparr>outstanding := Suc (outstanding s)\<rparr>))"
proof -
  let ?old = "takeWhile (\<lambda>c. c \<noteq> CHR 0x00) bytes" and ?line = "''pid '' @ fmt_d who @ nl"
  let ?s = "s\<lparr>n_kmalloc := Suc (n_kmalloc s)\<rparr>"
  have c: "s32 who = who" using assms(4,5) by (intro s32_id) simp_all
  have l: "length ?line \<le> 16" "0 < length ?line" using length_fmt_d [of who] assms(4,5) by (simp_all add: nl_def)
  have e: "emit NAME_MAX ?line (?old, 0) = (if length ?old + length ?line < BUFSIZE then Ret (?old @ ?line, length ?line) else Fault)"
    using l(1) by (simp add: emit_def NAME_MAX_def)
  have r: "lfs_read_file E who count 0 s = (if length ?old + length ?line + length (concat ls) < BUFSIZE
      then Ret (int (length ?line + length (concat ls)), take (length ?line + length (concat ls)) (?old @ ?line @ concat ls),
             int (length ?line + length (concat ls)), ?s) else Fault)"
    using assms c e emit_lines [of "?old @ ?line" ls "length ?line"] l(2)
    by (simp add: lfs_read_file_def Let_def)
  moreover have "lfs_read_file E who count offset s = Ret (0, [], offset, ?s\<lparr>outstanding := Suc (outstanding s)\<rparr>)" if "0 < offset"
    using assms(1) that by (simp add: lfs_read_file_def Let_def)
  moreover have "lfs_read_file E who count 0 s = Fault"
    if "mm (task_at E t) = Some m" "files (task_at E t) = Some fds" "175 \<le> length (filter (\<lambda>f. f \<noteq> None) fds)"
    using report_length [OF assms(7) that(1,2)] that(3) r by (simp add: BUFSIZE_def)
  ultimately show ?thesis unfolding Let_def by (intro conjI impI) (simp_all add: add.assoc)
qed

section \<open>A kernel thread\<close>

text \<open>A loop none of whose rounds fails returns.\<close>

lemma ofold_total: "(\<And>x s. x \<in> set xs \<Longrightarrow> \<exists>s'. f x s = Ret s') \<Longrightarrow> \<exists>s'. ofold f xs s = Ret s'"
proof (induction xs arbitrary: s)
  case (Cons x xs)
  then obtain s1 where "f x s = Ret s1" by (meson list.set_intros(1))
  moreover have "\<exists>s'. ofold f xs s1 = Ret s'" using Cons by simp
  ultimately show ?case by simp
qed simp

lemma arr_get_signal: "1 \<le> i \<Longrightarrow> i \<le> length xs \<Longrightarrow> arr_get xs (int i - 1) = Ret (xs ! (i - 1))"
  by (simp add: arr_get_def in_range_def nat_diff_distrib)

lemma signal_lines_total:
  assumes "sighand t = Some action" "length action = NSIG"
  shows "\<exists>ls. signal_lines E t = Ret ls"
proof -
  have "\<exists>ls. ofold (\<lambda>i ls. obind (arr_get action (int i - 1)) (\<lambda>handler. Ret (ls @ [signal_entry i handler]))) [1..<NSIG - 32] [] = Ret ls"
    using assms(2) by (intro ofold_total) (auto simp: arr_get_signal NSIG_def)
  moreover have "\<exists>p. collect_sigign_sigcatch action 0 0 = Ret p"
    unfolding collect_sigign_sigcatch_def using assms(2) by (intro ofold_total) (auto simp: arr_get_signal NSIG_def)
  ultimately show ?thesis using assms(1) by (force simp: signal_lines_def)
qed

definition demo_thread :: thread_struct where
  "demo_thread = \<lparr>usersp = 0, sp = 0, sp0 = 0, fs = 0, es = 0, ds = 0, gs = 0, cr2 = 0\<rparr>"

definition demo_rt :: sched_rt_entity where
  "demo_rt = \<lparr>timeout = 0, time_slice = 0\<rparr>"

definition demo_statistics :: sched_statistics where
  "demo_statistics = \<lparr>wait_start = 0, wait_max = 0, wait_count = 0, wait_sum = 0, iowait_count = 0,
     iowait_sum = 0, sleep_start = 0, sleep_max = 0, sum_sleep_runtime = 0, block_start = 0, block_max = 0,
     exec_max = 0, slice_max = 0, nr_migrations_cold = 0, nr_failed_migrations_affine = 0,
     nr_failed_migrations_running = 0, nr_failed_migrations_hot = 0, nr_forced_migrations = 0, nr_wakeups = 0,
     nr_wakeups_sync = 0, nr_wakeups_migrate = 0, nr_wakeups_local = 0, nr_wakeups_remote = 0,
     nr_wakeups_affine = 0, nr_wakeups_affine_attempts = 0, nr_wakeups_passive = 0, nr_wakeups_idle = 0\<rparr>"

definition demo_se :: sched_entity where
  "demo_se = \<lparr>on_rq = 0, exec_start = 0, sum_exec_runtime = 0, vruntime = 0, prev_sum_exec_runtime = 0,
     nr_migrations = 0, statistics = demo_statistics\<rparr>"

definition demo_task :: task_struct where
  "demo_task = \<lparr>state = 0, start_time = 0, real_start_time = 0, comm = ''kthreadd'', pid = 2, tgid = 2,
     utime = 0, stime = 0, acct_timexpd = 0, prio = 0, rt_priority = 0, flags = 0, self_exec_id = 0,
     parent_exec_id = 0, lockdep_depth = 0, acct_rss_mem1 = 0, acct_vm_mem1 = 0, active_mm = 0, stack = 0,
     cpu = 0, thread_info = 0, thread = demo_thread, rt = demo_rt, se = demo_se, group_leader_pid = 0,
     mm_address = 0, mm = None, files = None, sighand = Some (replicate 64 0), num_threads = 0, sigq_size = 0,
     sigq_lim = 0\<rparr>"

definition demo_status :: status_env where
  "demo_status = \<lparr>config_lockdep = False, config_task_xacct = True, config_schedstats = False, state_code = (\<lambda>c. word_of_nat (length c)),
     stack_junk = [], local_address = (\<lambda>_. 0), kmalloc_bytes = (\<lambda>n. Some (replicate 16384 CHR 0x00)),
     task_at = (\<lambda>_. demo_task), find_task = (\<lambda>n. Some (nat n)), copy_ok = True\<rparr>"

lemma demo_report: "\<exists>ls. report demo_status demo_task = Ret ls"
proof -
  have "\<exists>ls. signal_lines demo_status demo_task = Ret ls"
    by (rule signal_lines_total [of _ "replicate 64 0"]) (simp_all add: demo_task_def NSIG_def)
  moreover have "mm demo_task = None" by (simp add: demo_task_def)
  ultimately show ?thesis by (force simp: report_def space_lines_def)
qed

theorem lfs_read_status_witness:
  "\<exists>ls. report demo_status demo_task = Ret ls \<and> lfs_read_file demo_status 2 100 0 \<lparr>n_kmalloc = 0, outstanding = 0\<rparr>
    = (if length (''pid '' @ fmt_d 2 @ nl @ concat ls) < BUFSIZE
       then Ret (int (length (''pid '' @ fmt_d 2 @ nl @ concat ls)), ''pid '' @ fmt_d 2 @ nl @ concat ls,
              int (length (''pid '' @ fmt_d 2 @ nl @ concat ls)), \<lparr>n_kmalloc = 1, outstanding = 0\<rparr>) else Fault)"
proof -
  obtain ls where ls: "report demo_status (task_at demo_status 2) = Ret ls" using demo_report by (auto simp: demo_status_def)
  have k: "kmalloc_bytes demo_status (n_kmalloc \<lparr>n_kmalloc = 0, outstanding = 0\<rparr>) = Some (replicate 16384 CHR 0x00)"
    and c: "copy_ok demo_status" and f: "(if (0::int) < 2 then find_task demo_status 2 else Some init_task) = Some 2"
    and z: "CHR 0x00 \<in> set (replicate 16384 CHR 0x00)" and t: "task_at demo_status 2 = demo_task"
    by (simp_all add: demo_status_def)
  show ?thesis
    using lfs_read_status [OF k z c _ _ f ls, of 100] ls unfolding Let_def t
    by (intro exI [of _ ls] conjI) simp_all
qed

end
