(* ===== verification/Workload.thy ===== *)
theory Workload
  imports Prelude
begin

text \<open>
  The test program of p4 (\<open>p4.c\<close>): each SIGUSR1 adds a block of memory and an open file to
  the tables of the process, SIGUSR2 releases them and exits.  Which calls of \<open>malloc\<close> and
  \<open>fopen\<close> succeed is a parameter; blocks and files are numbered in the order they are made.
\<close>

record work_env =
  malloc_ok :: "nat \<Rightarrow> bool"
  fopen_ok :: "nat \<Rightarrow> bool"

record work_state =
  p :: "nat option list"
  fp :: "nat option list"
  n_malloc :: nat
  n_fopen :: nat
  live :: "nat list"
  opened :: "nat list"

definition NUM_OF_PTR :: nat where
  "NUM_OF_PTR = 1024"

definition work_init :: work_state where
  "work_init = \<lparr>p = replicate NUM_OF_PTR None, fp = replicate NUM_OF_PTR None, n_malloc = 0, n_fopen = 0,
     live = [], opened = []\<rparr>"

text \<open>Releasing a block that is not live, or closing a NULL file, is undefined.\<close>

definition free_block :: "nat \<Rightarrow> work_state \<Rightarrow> work_state outcome" where
  "free_block b s = (if b \<in> set (live s) then Ret (s\<lparr>live := remove1 b (live s)\<rparr>) else Fault)"

definition fclose :: "nat option \<Rightarrow> work_state \<Rightarrow> work_state outcome" where
  "fclose f s = (case f of None \<Rightarrow> Fault
     | Some h \<Rightarrow> if h \<in> set (opened s) then Ret (s\<lparr>opened := remove1 h (opened s)\<rparr>) else Fault)"

text \<open>The first slot without a block.\<close>

fun find_slot :: "nat \<Rightarrow> nat option list \<Rightarrow> nat option" where
  "find_slot i [] = None"
| "find_slot i (q # qs) = (if q \<noteq> None then find_slot (Suc i) qs else Some i)"

text \<open>
  A block is named by the number of the \<open>malloc\<close> that gave it.  The library may give the address of
  a freed block again; freeing a block twice is a fault in either case.
\<close>

definition do_work :: "work_env \<Rightarrow> work_state \<Rightarrow> work_state outcome" where
  "do_work E s = (case find_slot 0 (p s) of
     None \<Rightarrow> Ret s
   | Some i \<Rightarrow>
     (let b = n_malloc s; s = s\<lparr>n_malloc := Suc (n_malloc s)\<rparr>
      in if \<not> malloc_ok E b then Ret (s\<lparr>p := (p s)[i := None]\<rparr>)
         else
           (let s = s\<lparr>p := (p s)[i := Some b], live := live s @ [b]\<rparr>;
                h = n_fopen s; s = s\<lparr>n_fopen := Suc (n_fopen s)\<rparr>
            in if fopen_ok E h then Ret (s\<lparr>fp := (fp s)[i := Some h], opened := opened s @ [h]\<rparr>)
               else free_block b (s\<lparr>fp := (fp s)[i := None]\<rparr>))))"

fun release_from :: "nat option list \<Rightarrow> nat option list \<Rightarrow> work_state \<Rightarrow> work_state outcome" where
  "release_from (Some b # ps) fps s = obind (free_block b s) (\<lambda>s.
     obind (fclose (hd fps) s) (release_from ps (tl fps)))"
| "release_from _ fps s = Ret s"

text \<open>The state in which the process exits.\<close>

definition do_work2 :: "work_state \<Rightarrow> work_state outcome" where
  "do_work2 s = release_from (p s) (fp s) s"

text \<open>\<open>k\<close> deliveries of SIGUSR1.\<close>

fun works :: "work_env \<Rightarrow> nat \<Rightarrow> work_state \<Rightarrow> work_state outcome" where
  "works E 0 s = Ret s"
| "works E (Suc k) s = obind (works E k s) (do_work E)"

section \<open>Invariant\<close>

text \<open>
  The filled slots come first.  Slot \<open>j\<close> holds block \<open>bs ! j\<close> and the \<open>j\<close>-th result of
  \<open>fopen\<close>; where that failed, the block is already free and there is no file.
\<close>

definition work_inv :: "work_env \<Rightarrow> nat list \<Rightarrow> work_state \<Rightarrow> bool" where
  "work_inv E bs s \<longleftrightarrow> length bs = n_fopen s \<and> length bs \<le> NUM_OF_PTR \<and> distinct bs \<and> (\<forall>b \<in> set bs. b < n_malloc s)
     \<and> p s = map Some bs @ replicate (NUM_OF_PTR - length bs) None
     \<and> fp s = map (\<lambda>h. if fopen_ok E h then Some h else None) [0..<length bs] @ replicate (NUM_OF_PTR - length bs) None
     \<and> live s = map (nth bs) (filter (fopen_ok E) [0..<length bs])
     \<and> opened s = filter (fopen_ok E) [0..<length bs]"

lemma find_slot_prefix: "find_slot i (map Some bs @ replicate m None) = (if m = 0 then None else Some (i + length bs))"
  by (induction bs arbitrary: i) (cases m, auto)

lemma map_nth_append: "\<forall>x \<in> set xs. x < length bs \<Longrightarrow> map (nth (bs @ cs)) xs = map (nth bs) xs"
  by (simp add: nth_append)

lemma fill_slot: "length xs < m \<Longrightarrow> n = length xs \<Longrightarrow> (xs @ replicate (m - n) None)[n := v] = xs @ v # replicate (m - Suc n) None"
  by (simp add: list_update_append Suc_diff_Suc [symmetric])

lemma work_init_inv: "work_inv E [] work_init"
  by (simp add: work_inv_def work_init_def)

lemma do_work_inv:
  assumes "work_inv E bs s"
  shows "\<exists>s' bs'. do_work E s = Ret s' \<and> work_inv E bs' s'"
proof (cases "length bs < NUM_OF_PTR")
  case False
  with assms have "do_work E s = Ret s" using find_slot_prefix [of 0 bs 0]
    by (simp add: work_inv_def do_work_def)
  with assms show ?thesis by blast
next
  case True
  let ?b = "n_malloc s" and ?h = "n_fopen s"
  have slot: "find_slot 0 (p s) = Some (length bs)" using assms True by (simp add: work_inv_def find_slot_prefix)
  have h: "?h = length bs" and p: "p s = map Some bs @ replicate (NUM_OF_PTR - length bs) None" using assms by (simp_all add: work_inv_def)
  have fresh: "?b \<notin> set (live s)" "?b \<notin> set bs" using assms by (auto simp: work_inv_def)
  have lt: "\<forall>x \<in> set (filter (fopen_ok E) [0..<length bs]). x < length bs" by simp
  show ?thesis
  proof (cases "malloc_ok E ?b")
    case False
    have "(p s)[length bs := None] = p s" using True p
      by (subst list_update_same_conv) (simp_all add: nth_append)
    then have "do_work E s = Ret (s\<lparr>n_malloc := Suc ?b\<rparr>)" using slot False by (simp add: do_work_def Let_def)
    moreover have "work_inv E bs (s\<lparr>n_malloc := Suc ?b\<rparr>)" using assms by (auto simp: work_inv_def)
    ultimately show ?thesis by blast
  next
    case ok: True
    let ?s = "if fopen_ok E ?h then s\<lparr>n_malloc := Suc ?b, p := (p s)[length bs := Some ?b], live := live s @ [?b],
          n_fopen := Suc ?h, fp := (fp s)[length bs := Some ?h], opened := opened s @ [?h]\<rparr>
        else s\<lparr>n_malloc := Suc ?b, p := (p s)[length bs := Some ?b], n_fopen := Suc ?h, fp := (fp s)[length bs := None]\<rparr>"
    have "do_work E s = Ret ?s"
      using slot ok fresh(1) by (simp add: do_work_def Let_def free_block_def remove1_append)
    moreover have "work_inv E (bs @ [?b]) ?s"
    proof -
      have "(p s)[length bs := Some ?b] = map Some (bs @ [?b]) @ replicate (NUM_OF_PTR - Suc (length bs)) None"
        unfolding p by (subst fill_slot) (use True in simp_all)
      moreover have fp: "fp s = map (\<lambda>h. if fopen_ok E h then Some h else None) [0..<length bs] @ replicate (NUM_OF_PTR - length bs) None"
        using assms by (simp add: work_inv_def)
      have "(fp s)[length bs := v] = map (\<lambda>h. if fopen_ok E h then Some h else None) [0..<length bs] @ v # replicate (NUM_OF_PTR - Suc (length bs)) None" for v
        unfolding fp by (subst fill_slot) (use True in simp_all)
      moreover have "live s = map (nth (bs @ [?b])) (filter (fopen_ok E) [0..<length bs])" "opened s = filter (fopen_ok E) [0..<length bs]"
        "distinct (bs @ [?b])" "\<forall>b \<in> set (bs @ [?b]). b < Suc ?b"
        using assms fresh(2) map_nth_append [OF lt, of "[?b]"] by (auto simp: work_inv_def)
      ultimately show ?thesis unfolding work_inv_def using h True by simp
    qed
    ultimately show ?thesis by blast
  qed
qed

lemma works_inv: "\<exists>s bs. works E k work_init = Ret s \<and> work_inv E bs s"
proof (induction k)
  case 0
  then show ?case using work_init_inv by auto
next
  case (Suc k)
  then show ?case using do_work_inv by fastforce
qed

section \<open>Exit\<close>

lemma release_suffix:
  assumes "distinct bs" "k \<le> length bs"
    and "live s = map (nth bs) (filter ok [k..<length bs])" "opened s = filter ok [k..<length bs]"
  shows "release_from (map Some (drop k bs) @ replicate m None) (map (\<lambda>h. if ok h then Some h else None) [k..<length bs] @ r) s
    = (if \<forall>h \<in> {k..<length bs}. ok h then Ret (s\<lparr>live := [], opened := []\<rparr>) else Fault)"
  using assms
proof (induction "length bs - k" arbitrary: k s)
  case 0
  then have "release_from (replicate m None) r s = Ret s" by (cases m) simp_all
  with 0 show ?case by simp
next
  case (Suc d)
  then have k: "k < length bs" and d: "d = length bs - Suc k" by simp_all
  have "drop k bs = bs ! k # drop (Suc k) bs" "[k..<length bs] = k # [Suc k..<length bs]"
    using k by (simp_all add: Cons_nth_drop_Suc upt_conv_Cons)
  note unroll = this
  show ?case
  proof (cases "ok k")
    case True
    let ?t = "s\<lparr>live := map (nth bs) (filter ok [Suc k..<length bs]), opened := filter ok [Suc k..<length bs]\<rparr>"
    have "release_from (map Some (drop (Suc k) bs) @ replicate m None)
        (map (\<lambda>h. if ok h then Some h else None) [Suc k..<length bs] @ r) ?t
      = (if \<forall>h \<in> {Suc k..<length bs}. ok h then Ret (?t\<lparr>live := [], opened := []\<rparr>) else Fault)"
      using Suc.hyps(1) [OF d, of ?t] Suc.prems(1) k by simp
    moreover have "(\<forall>h \<in> {k..<length bs}. ok h) \<longleftrightarrow> (\<forall>h \<in> {Suc k..<length bs}. ok h)"
      using True by (auto simp: Suc_le_eq order.order_iff_strict)
    ultimately show ?thesis using Suc.prems(3,4) True by (simp add: unroll free_block_def fclose_def)
  next
    case False
    have "bs ! k \<notin> set (live s)" using Suc.prems k False by (auto simp: nth_eq_iff_index_eq)
    moreover have "\<not> (\<forall>h \<in> {k..<length bs}. ok h)" using False k by auto
    ultimately show ?thesis by (simp add: unroll free_block_def)
  qed
qed

text \<open>
  C34.  However many times SIGUSR1 has been delivered, its handler has returned; and SIGUSR2
  then releases every block and every file and exits, unless one of the calls of \<open>fopen\<close>
  has failed: then the handler frees a block that is already free.
\<close>

theorem workload_exit:
  "\<exists>s. works E k work_init = Ret s \<and> do_work2 s
    = (if \<forall>h < n_fopen s. fopen_ok E h then Ret (s\<lparr>live := [], opened := []\<rparr>) else Fault)"
proof -
  obtain s bs where s: "works E k work_init = Ret s" and i: "work_inv E bs s" using works_inv by blast
  from i have "do_work2 s = (if \<forall>h \<in> {0..<length bs}. fopen_ok E h then Ret (s\<lparr>live := [], opened := []\<rparr>) else Fault)"
    using release_suffix [of bs 0 s "fopen_ok E"] by (simp add: work_inv_def do_work2_def)
  with s i show ?thesis by (auto simp: work_inv_def)
qed

definition demo_work :: work_env where
  "demo_work = \<lparr>malloc_ok = (\<lambda>_. True), fopen_ok = (\<lambda>h. h \<noteq> 0)\<rparr>"

theorem workload_exit_witness:
  "\<exists>s. works demo_work 1 work_init = Ret s \<and> n_fopen s = 1 \<and> do_work2 s = Fault"
proof -
  have "find_slot 0 (replicate NUM_OF_PTR None) = Some 0" using find_slot_prefix [of 0 "[]" NUM_OF_PTR] by (simp add: NUM_OF_PTR_def)
  then have "\<exists>s. works demo_work 1 work_init = Ret s \<and> n_fopen s = 1"
    by (simp add: work_init_def do_work_def demo_work_def free_block_def Let_def)
  with workload_exit [of demo_work 1] show ?thesis by (auto simp: demo_work_def)
qed

end
