(* ===== verification/Probes.thy ===== *)
theory Probes
  imports Prelude
begin

text \<open>
  The latency probes of p5 (\<open>jprobe_p5final.c\<close>): the handlers planted on functions of the
  scheduler, the filter that keeps the threads of \<^verbatim>\<open>cyclictest\<close>, loading and unloading of
  the module.  The kernel side is a parameter: the result of each registration and the
  clock.  A registration with a negative result plants nothing; unregistering a probe that
  was never planted does nothing.
\<close>

section \<open>State\<close>

record task_struct =
  comm :: string
  pid :: "32 word"
  tgid :: "32 word"

record hrtimer_sleeper =
  sleeper_task :: "task_struct option"

text \<open>The probe objects of the file, in its order.\<close>

datatype probe = my_kretprobe | rt_kretprobe | t_jprobe_dequeue_task | t_jprobe_hrtimer_wakeup
  | t_jprobe_nanosleep_entry | t_jprobe_wakeup_entry | t_jprobe_scheduler_tick_entry
  | t_jprobe_cs_entry | t_jprobe_timer_entry | t_jprobe_enqueue_task

text \<open>What the module prints: a trace line (function, label of the time, pid, time), or a message.\<close>

datatype line = Trace string string "32 word option" int | Kret_failed int | Kret_planted string
  | Jprobe_failed int | Jprobe_planted string | Kret_unregistered | Missed string | Jprobe_unregistered string

record probe_env =
  reg_result :: "probe \<Rightarrow> int"
  ktime_ns :: "nat \<Rightarrow> int"

record probe_state =
  planted :: "probe list"
  klog :: "line list"
  clock_reads :: nat

definition printk :: "line \<Rightarrow> probe_state \<Rightarrow> probe_state" where
  "printk l s = s\<lparr>klog := klog s @ [l]\<rparr>"

definition ktime_get :: "probe_env \<Rightarrow> probe_state \<Rightarrow> int \<times> probe_state" where
  "ktime_get E s = (ktime_ns E (clock_reads s), s\<lparr>clock_reads := Suc (clock_reads s)\<rparr>)"

section \<open>Handlers\<close>

definition name :: string where
  "name = ''cyclictest''"

fun is_cyclitest :: "task_struct option \<Rightarrow> bool" where
  "is_cyclitest None = False"
| "is_cyclitest (Some p) = (if take (length name) (comm p) = name then pid p = tgid p + 1 else False)"

definition task_pid :: "task_struct option \<Rightarrow> 32 word option" where
  "task_pid p = map_option pid p"

definition func_name_fair :: string where
  "func_name_fair = ''pick_next_task_fair''"

definition func_name_rt :: string where
  "func_name_rt = ''pick_next_task_rt''"

definition entry_handler :: "probe_state \<Rightarrow> int \<times> probe_state" where
  "entry_handler s = (0, s)"

definition ret_handler :: "probe_env \<Rightarrow> task_struct option \<Rightarrow> probe_state \<Rightarrow> int \<times> probe_state" where
  "ret_handler E retval s =
    (if is_cyclitest retval
     then let (time_stamp, s) = ktime_get E s
          in (0, printk (Trace func_name_fair ''return time'' (task_pid retval) time_stamp) s)
     else (0, s))"

definition rt_entry_handler :: "probe_state \<Rightarrow> int \<times> probe_state" where
  "rt_entry_handler s = (0, s)"

definition rt_ret_handler :: "probe_env \<Rightarrow> task_struct option \<Rightarrow> probe_state \<Rightarrow> int \<times> probe_state" where
  "rt_ret_handler E retval s =
    (if is_cyclitest retval
     then let (time_stamp, s) = ktime_get E s
          in (0, printk (Trace func_name_rt ''return time'' (task_pid retval) time_stamp) s)
     else (0, s))"

definition jtemplate_handler_dequeue_task :: "probe_env \<Rightarrow> task_struct option \<Rightarrow> probe_state \<Rightarrow> probe_state" where
  "jtemplate_handler_dequeue_task E p s =
    (if is_cyclitest p
     then let (time_stamp, s) = ktime_get E s
          in printk (Trace ''deactivate_task'' ''enter time'' (task_pid p) time_stamp) s
     else s)"

definition jtemplate_handler_hrtimer_wakeup :: "probe_env \<Rightarrow> hrtimer_sleeper \<Rightarrow> probe_state \<Rightarrow> probe_state" where
  "jtemplate_handler_hrtimer_wakeup E t s =
    (let task = sleeper_task t
     in if is_cyclitest task
        then let (time_stamp, s) = ktime_get E s
             in printk (Trace ''hrtimer_wakeup'' ''time'' (task_pid task) time_stamp) s
        else s)"

definition jtemplate_handler_nanosleep_entry :: "probe_env \<Rightarrow> task_struct \<Rightarrow> probe_state \<Rightarrow> probe_state" where
  "jtemplate_handler_nanosleep_entry E current s =
    (if is_cyclitest (Some current)
     then let (time_stamp, s) = ktime_get E s
          in printk (Trace ''do_nanosleep'' ''enter time'' (Some (pid current)) time_stamp) s
     else s)"

definition jtemplate_handler_wakeup_entry :: "probe_env \<Rightarrow> task_struct option \<Rightarrow> probe_state \<Rightarrow> probe_state" where
  "jtemplate_handler_wakeup_entry E p s =
    (if is_cyclitest p
     then let (time_stamp, s) = ktime_get E s
          in printk (Trace ''wake_up_process'' ''enter time'' (task_pid p) time_stamp) s
     else s)"

definition jtemplate_handler_scheduler_tick_entry :: "probe_env \<Rightarrow> probe_state \<Rightarrow> probe_state" where
  "jtemplate_handler_scheduler_tick_entry E s =
    (if is_cyclitest None
     then let (time_stamp, s) = ktime_get E s
          in printk (Trace ''scheduler_tick'' ''enter time'' None time_stamp) s
     else s)"

definition jtemplate_handler_cs_entry ::
    "probe_env \<Rightarrow> task_struct option \<Rightarrow> task_struct option \<Rightarrow> probe_state \<Rightarrow> probe_state" where
  "jtemplate_handler_cs_entry E prev next_task s =
    (if is_cyclitest next_task
     then let (time_stamp, s) = ktime_get E s
          in printk (Trace ''context_switch'' ''enter time'' (task_pid next_task) time_stamp) s
     else s)"

definition jtemplate_handler_timer_entry :: "probe_env \<Rightarrow> probe_state \<Rightarrow> probe_state" where
  "jtemplate_handler_timer_entry E s =
    (let (time_stamp, s) = ktime_get E s
     in printk (Trace ''smp_apic_timer_interrupt'' ''enter time'' None time_stamp) s)"

definition jtemplate_handler_enqueue_task :: "probe_env \<Rightarrow> task_struct option \<Rightarrow> probe_state \<Rightarrow> probe_state" where
  "jtemplate_handler_enqueue_task E p s =
    (if is_cyclitest p
     then let (time_stamp, s) = ktime_get E s
          in printk (Trace ''activate_task'' ''enter time'' (task_pid p) time_stamp) s
     else s)"

section \<open>Loading and unloading\<close>

definition register :: "probe_env \<Rightarrow> probe \<Rightarrow> probe_state \<Rightarrow> int \<times> probe_state" where
  "register E p s = (reg_result E p, if reg_result E p < 0 then s else s\<lparr>planted := planted s @ [p]\<rparr>)"

definition unregister :: "probe \<Rightarrow> probe_state \<Rightarrow> probe_state" where
  "unregister p s = s\<lparr>planted := removeAll p (planted s)\<rparr>"

text \<open>The registration of the probe on \<^verbatim>\<open>hrtimer_wakeup\<close> is commented out; its test looks at the previous result.\<close>

definition jprobe_init :: "probe_env \<Rightarrow> probe_state \<Rightarrow> int \<times> probe_state" where
  "jprobe_init E s =
    (let (ret, s) = register E my_kretprobe s
     in if ret < 0 then (- 1, printk (Kret_failed ret) s)
     else let s = printk (Kret_planted func_name_fair) s;
              (ret, s) = register E rt_kretprobe s
     in if ret < 0 then (- 1, printk (Kret_failed ret) s)
     else let s = printk (Kret_planted func_name_rt) s;
              (ret, s) = register E t_jprobe_enqueue_task s
     in if ret < 0 then (- 1, printk (Jprobe_failed ret) s)
     else let s = printk (Jprobe_planted ''enqueue_task'') s;
              (ret, s) = register E t_jprobe_dequeue_task s
     in if ret < 0 then (- 1, printk (Jprobe_failed ret) s)
     else let s = printk (Jprobe_planted ''dequeue_task'') s
     in if ret < 0 then (- 1, printk (Jprobe_failed ret) s)
     else let s = printk (Jprobe_planted ''hrtimer_wakeup'') s;
              (ret, s) = register E t_jprobe_timer_entry s
     in if ret < 0 then (- 1, printk (Jprobe_failed ret) s)
     else let s = printk (Jprobe_planted ''timer_entry'') s;
              (ret, s) = register E t_jprobe_scheduler_tick_entry s
     in if ret < 0 then (- 1, printk (Jprobe_failed ret) s)
     else (0, printk (Jprobe_planted ''scheduler_tick_entry'') s))"

definition jprobe_exit :: "probe_state \<Rightarrow> probe_state" where
  "jprobe_exit s =
    (let s = unregister my_kretprobe s;
         s = printk Kret_unregistered s;
         s = printk (Missed func_name_fair) s;
         s = unregister rt_kretprobe s;
         s = printk Kret_unregistered s;
         s = printk (Missed func_name_rt) s;
         s = printk (Jprobe_unregistered ''enqueue_task'') (unregister t_jprobe_enqueue_task s);
         s = printk (Jprobe_unregistered ''dequeue_task'') (unregister t_jprobe_dequeue_task s);
         s = printk (Jprobe_unregistered ''hrtimer_wakeup'') (unregister t_jprobe_hrtimer_wakeup s);
         s = printk (Jprobe_unregistered ''nanosleep'') (unregister t_jprobe_nanosleep_entry s);
         s = printk (Jprobe_unregistered ''timer_entry'') (unregister t_jprobe_timer_entry s);
         s = printk (Jprobe_unregistered ''cs_entry'') (unregister t_jprobe_cs_entry s);
         s = printk (Jprobe_unregistered ''scheduler_tick_entry'') (unregister t_jprobe_scheduler_tick_entry s)
     in printk (Jprobe_unregistered ''wakeup_entry'') (unregister t_jprobe_wakeup_entry s))"

section \<open>Probed calls\<close>

text \<open>
  A call of a probed function of the kernel, with the arguments or the result the handler
  sees.  The kernel runs the handler when the probe is planted (the \<open>maxactive\<close> limit of
  nested return probes is not modelled).
\<close>

datatype call = Pick_next_task_fair "task_struct option" | Pick_next_task_rt "task_struct option"
  | Deactivate_task "task_struct option" | Hrtimer_wakeup hrtimer_sleeper | Do_nanosleep task_struct
  | Wake_up_process "task_struct option" | Scheduler_tick | Context_switch "task_struct option" "task_struct option"
  | Smp_apic_timer_interrupt | Activate_task "task_struct option"

text \<open>The \<open>symbol_name\<close> of each probe.\<close>

fun probe_on :: "call \<Rightarrow> probe" where
  "probe_on (Pick_next_task_fair r) = my_kretprobe"
| "probe_on (Pick_next_task_rt r) = rt_kretprobe"
| "probe_on (Deactivate_task p) = t_jprobe_dequeue_task"
| "probe_on (Hrtimer_wakeup t) = t_jprobe_hrtimer_wakeup"
| "probe_on (Do_nanosleep c) = t_jprobe_nanosleep_entry"
| "probe_on (Wake_up_process p) = t_jprobe_wakeup_entry"
| "probe_on Scheduler_tick = t_jprobe_scheduler_tick_entry"
| "probe_on (Context_switch p n) = t_jprobe_cs_entry"
| "probe_on Smp_apic_timer_interrupt = t_jprobe_timer_entry"
| "probe_on (Activate_task p) = t_jprobe_enqueue_task"

fun handle :: "probe_env \<Rightarrow> call \<Rightarrow> probe_state \<Rightarrow> probe_state" where
  "handle E (Pick_next_task_fair r) s = snd (ret_handler E r (snd (entry_handler s)))"
| "handle E (Pick_next_task_rt r) s = snd (rt_ret_handler E r (snd (rt_entry_handler s)))"
| "handle E (Deactivate_task p) s = jtemplate_handler_dequeue_task E p s"
| "handle E (Hrtimer_wakeup t) s = jtemplate_handler_hrtimer_wakeup E t s"
| "handle E (Do_nanosleep c) s = jtemplate_handler_nanosleep_entry E c s"
| "handle E (Wake_up_process p) s = jtemplate_handler_wakeup_entry E p s"
| "handle E Scheduler_tick s = jtemplate_handler_scheduler_tick_entry E s"
| "handle E (Context_switch p n) s = jtemplate_handler_cs_entry E p n s"
| "handle E Smp_apic_timer_interrupt s = jtemplate_handler_timer_entry E s"
| "handle E (Activate_task p) s = jtemplate_handler_enqueue_task E p s"

definition probed_call :: "probe_env \<Rightarrow> call \<Rightarrow> probe_state \<Rightarrow> probe_state" where
  "probed_call E c s = (if probe_on c \<in> set (planted s) then handle E c s else s)"

section \<open>What a session records\<close>

text \<open>The probes the module plants, in order.\<close>

definition planned :: "probe list" where
  "planned = [my_kretprobe, rt_kretprobe, t_jprobe_enqueue_task, t_jprobe_dequeue_task,
    t_jprobe_timer_entry, t_jprobe_scheduler_tick_entry]"

text \<open>The line a call should leave: the thread that \<^verbatim>\<open>cyclictest\<close> measures is picked, queued or removed, or a timer interrupt.\<close>

definition about :: "string \<Rightarrow> string \<Rightarrow> task_struct option \<Rightarrow> (string \<times> string \<times> 32 word option) option" where
  "about f l p = (case p of None \<Rightarrow> None
     | Some t \<Rightarrow> if take 10 (comm t) = ''cyclictest'' \<and> pid t = tgid t + 1 then Some (f, l, Some (pid t)) else None)"

fun recorded :: "call \<Rightarrow> (string \<times> string \<times> 32 word option) option" where
  "recorded (Pick_next_task_fair r) = about ''pick_next_task_fair'' ''return time'' r"
| "recorded (Pick_next_task_rt r) = about ''pick_next_task_rt'' ''return time'' r"
| "recorded (Activate_task p) = about ''activate_task'' ''enter time'' p"
| "recorded (Deactivate_task p) = about ''deactivate_task'' ''enter time'' p"
| "recorded Smp_apic_timer_interrupt = Some (''smp_apic_timer_interrupt'', ''enter time'', None)"
| "recorded _ = None"

text \<open>The lines of a session: one per recorded call, stamped by successive readings of the clock.\<close>

fun session_lines :: "probe_env \<Rightarrow> nat \<Rightarrow> call list \<Rightarrow> line list" where
  "session_lines E n [] = []"
| "session_lines E n (c # cs) = (case recorded c of None \<Rightarrow> session_lines E n cs
     | Some (f, l, p) \<Rightarrow> Trace f l p (ktime_ns E n) # session_lines E (Suc n) cs)"

lemmas handler_defs = ret_handler_def rt_ret_handler_def entry_handler_def rt_entry_handler_def
  jtemplate_handler_dequeue_task_def jtemplate_handler_scheduler_tick_entry_def
  jtemplate_handler_timer_entry_def jtemplate_handler_enqueue_task_def

lemma handle_keeps_planted [simp]: "planted (handle E c s) = planted s"
  by (cases c) (simp_all add: handler_defs jtemplate_handler_hrtimer_wakeup_def
      jtemplate_handler_nanosleep_entry_def jtemplate_handler_wakeup_entry_def jtemplate_handler_cs_entry_def
      ktime_get_def printk_def Let_def)

lemma probed_call_planted [simp]: "planted (probed_call E c s) = planted s"
  by (simp add: probed_call_def)

lemma cyclic_about:
  "about f l p = (if is_cyclitest p then Some (f, l, task_pid p) else None)"
  by (cases p) (simp_all add: about_def task_pid_def name_def eval_nat_numeral)

lemma probed_call_records:
  assumes "planted s = planned"
  shows "probed_call E c s = (case recorded c of None \<Rightarrow> s
    | Some (f, l, p) \<Rightarrow> s\<lparr>klog := klog s @ [Trace f l p (ktime_ns E (clock_reads s))], clock_reads := Suc (clock_reads s)\<rparr>)"
  using assms by (cases c)
    (simp_all add: probed_call_def planned_def handler_defs cyclic_about ktime_get_def printk_def func_name_fair_def func_name_rt_def)

lemma session_records:
  assumes "planted s = planned"
  shows "klog (fold (probed_call E) cs s) = klog s @ session_lines E (clock_reads s) cs
    \<and> planted (fold (probed_call E) cs s) = planned"
  using assms by (induction cs arbitrary: s) (auto simp: probed_call_records split: option.split)

lemma register_simps [simp]:
  "fst (register E p s) = reg_result E p"
  "planted (snd (register E p s)) = (if reg_result E p < 0 then planted s else planted s @ [p])"
  "clock_reads (snd (register E p s)) = clock_reads s"
  by (simp_all add: register_def)

lemma printk_simps [simp]: "planted (printk l s) = planted s" "clock_reads (printk l s) = clock_reads s"
  by (simp_all add: printk_def)

lemma unregister_planted [simp]: "planted (unregister p s) = removeAll p (planted s)"
  by (simp add: unregister_def)

lemma jprobe_init_plants:
  "jprobe_init E s = (rc, s') \<Longrightarrow> planted s' = planted s @ takeWhile (\<lambda>p. 0 \<le> reg_result E p) planned
    \<and> rc = (if \<forall>p \<in> set planned. 0 \<le> reg_result E p then 0 else - 1) \<and> clock_reads s' = clock_reads s"
  unfolding jprobe_init_def Let_def planned_def split_beta
  by ((split if_split_asm, force)+, force)

lemma jprobe_exit_unplants: "planted (jprobe_exit s) = []"
proof -
  have "p \<notin> set (planted (jprobe_exit s))" for p
    by (cases p) (simp_all add: jprobe_exit_def Let_def)
  then show ?thesis by (metis list.set_intros(1) neq_Nil_conv)
qed

text \<open>
  C32.  A session of the latency probes: loading plants the six probes in order and stops at
  the first registration that fails, which it reports as -1 with the earlier ones left
  planted; after a successful load, whatever calls the kernel makes, the module records
  exactly the calls about the measuring thread of \<^verbatim>\<open>cyclictest\<close> and the timer interrupts, in
  order, each with the reading of the clock at that time (and never a scheduler tick);
  unloading leaves no probe behind.
\<close>

theorem probe_session:
  assumes "planted s = []" and "jprobe_init E s = (rc, s1)"
  shows "planted s1 = takeWhile (\<lambda>p. 0 \<le> reg_result E p) planned
    \<and> rc = (if \<forall>p \<in> set planned. 0 \<le> reg_result E p then 0 else - 1)
    \<and> (rc = 0 \<longrightarrow> klog (fold (probed_call E) cs s1) = klog s1 @ session_lines E (clock_reads s) cs)
    \<and> planted (jprobe_exit (fold (probed_call E) cs s1)) = []"
proof -
  note i = jprobe_init_plants [OF assms(2)]
  have "planted s1 = planned" if "rc = 0"
  proof -
    from that i have "\<forall>p \<in> set planned. 0 \<le> reg_result E p" by (auto split: if_splits)
    then have "takeWhile (\<lambda>p. 0 \<le> reg_result E p) planned = planned"
      by (simp add: takeWhile_eq_all_conv)
    with i assms(1) show ?thesis by simp
  qed
  then have "rc = 0 \<longrightarrow> klog (fold (probed_call E) cs s1) = klog s1 @ session_lines E (clock_reads s) cs"
    using session_records [of s1 E cs] i by metis
  with i show ?thesis by (intro conjI jprobe_exit_unplants) (simp_all add: assms(1))
qed

definition demo_probe_env :: probe_env where
  "demo_probe_env = \<lparr>reg_result = (\<lambda>_. 0), ktime_ns = (\<lambda>n. 1000 * int n)\<rparr>"

definition demo_probe_state :: probe_state where
  "demo_probe_state = \<lparr>planted = [], klog = [], clock_reads = 0\<rparr>"

theorem probe_session_witness:
  "planted demo_probe_state = []
   \<and> planted (snd (jprobe_init demo_probe_env demo_probe_state)) = planned
   \<and> klog (fold (probed_call demo_probe_env)
        [Activate_task (Some \<lparr>comm = ''cyclictest'', pid = 8, tgid = 7\<rparr>), Scheduler_tick, Smp_apic_timer_interrupt]
        (snd (jprobe_init demo_probe_env demo_probe_state)))
      = klog (snd (jprobe_init demo_probe_env demo_probe_state))
        @ [Trace ''activate_task'' ''enter time'' (Some 8) 0, Trace ''smp_apic_timer_interrupt'' ''enter time'' None 1000]"
proof -
  have p: "planted demo_probe_state = []" by (simp add: demo_probe_state_def)
  let ?cs = "[Activate_task (Some \<lparr>comm = ''cyclictest'', pid = 8, tgid = 7\<rparr>), Scheduler_tick, Smp_apic_timer_interrupt]"
  obtain rc s1 where i: "jprobe_init demo_probe_env demo_probe_state = (rc, s1)" by fastforce
  have r: "0 \<le> reg_result demo_probe_env p" for p by (simp add: demo_probe_env_def)
  have l: "session_lines demo_probe_env (clock_reads demo_probe_state) ?cs
      = [Trace ''activate_task'' ''enter time'' (Some 8) 0, Trace ''smp_apic_timer_interrupt'' ''enter time'' None 1000]"
    by (simp add: about_def demo_probe_state_def demo_probe_env_def)
  have "takeWhile (\<lambda>p. 0 \<le> reg_result demo_probe_env p) planned = planned"
    using r by (simp add: takeWhile_eq_all_conv)
  with probe_session [OF p i, of ?cs] r
  have "planted s1 = planned" "klog (fold (probed_call demo_probe_env) ?cs s1)
      = klog s1 @ session_lines demo_probe_env (clock_reads demo_probe_state) ?cs" by (simp_all only: ball_triv if_True simp_thms implies_True_equals)
  with p show ?thesis unfolding l i snd_conv by blast
qed

end
