(* ===== verification/Parallel.thy ===== *)
theory Parallel
  imports KernelEnv HashTable PageFormat Format
begin

text \<open>
  The third prototype of the store (\<open>p6/prototype-parallel/kernel/core.c\<close>): the indexed store
  with three spinlocks, two atomic flags that should keep collections and flushes from
  running twice, and two high-resolution timers that start them.  One definition per function,
  each as one thread runs it while no other thread takes a step; \<open>ParallelThreads\<close> interleaves
  the threads.  A spinlock is a flag: taking one that is held (by an
  earlier call that returned without releasing it) never ends.  The records of the two
  partitions are one record; both have the same block table, so it is one field.
\<close>

section \<open>State (core.h)\<close>

datatype blk_state = BLK_FREE | BLK_USED | BLK_VALUE int

record blk_info =
  valid_list :: "nat list"
  state :: blk_state
  worn :: int
  nb_invalid :: int
  current_page_offset :: int

text \<open>
  \<open>config\<close>, then \<open>meta_config\<close> (fields \<open>meta_...\<close>), then the globals: hash table, order of the
  metadata blocks, atomic flags, locks, the static counters of \<open>flush_metadata\<close> and
  \<open>gc_check\<close>, whether the timers are active, and the two devices.
\<close>

record 'm lkp_kv =
  mtd :: "mtd_info option"
  mtd_index :: int
  nb_blocks :: nat
  block_size :: nat
  page_size :: nat
  pages_per_block :: nat
  blocks :: "blk_info list"
  format_done :: int
  read_only :: bool
  format_lock :: nat
  meta_mtd :: "mtd_info option"
  meta_mtd_index :: int
  meta_nb_blocks :: nat
  meta_block_size :: nat
  meta_page_size :: nat
  meta_pages_per_block :: nat
  meta_format_done :: int
  meta_read_only :: bool
  meta_format_lock :: nat
  hashtable_size :: nat
  block_info_size :: nat
  metadata_size :: nat
  recent_update :: int
  hashtable :: "bucket list"
  HASH_SIZE :: nat
  meta_blkordr :: "int list"
  is_gb :: int
  is_flush :: int
  one_lock :: bool
  list_lock :: bool
  erase_lock :: bool
  flush_cnt :: nat
  write_cnt :: nat
  f_timer :: bool
  w_timer :: bool
  flash :: 'm
  meta_flash :: 'm

definition INVALID_THRESHOLD :: int where "INVALID_THRESHOLD = 20"
definition FLUSH_THRESHOLD :: nat where "FLUSH_THRESHOLD = 100"
definition INVALID_THRESHOLD2 :: int where "INVALID_THRESHOLD2 = 50"
definition FLUSH_THRESHOLD2 :: nat where "FLUSH_THRESHOLD2 = 1000"
definition RESERVED_PG_CNT :: int where "RESERVED_PG_CNT = 1"
definition META_HDR_BASE :: string where "META_HDR_BASE = ''9487940''"
definition NAND_DATA :: int where "NAND_DATA = 123"
definition NAND_META_DATA :: int where "NAND_META_DATA = 456"
definition MAX_META_BLK :: nat where "MAX_META_BLK = 100"

definition SIZEOF_BLK_INFO :: nat where "SIZEOF_BLK_INFO = 24"
definition SIZEOF_BUCKET :: nat where "SIZEOF_BUCKET = 128"

text \<open>The bytes of a string literal.\<close>

definition chars :: "string \<Rightarrow> byte list" where
  "chars cs = map of_char cs"

section \<open>Locks, memory, lists\<close>

definition lock_erase :: "'m lkp_kv \<Rightarrow> 'm lkp_kv outcome" where
  "lock_erase s = (if erase_lock s then Hang else Ret (s\<lparr>erase_lock := True\<rparr>))"

definition lock_list :: "'m lkp_kv \<Rightarrow> 'm lkp_kv outcome" where
  "lock_list s = (if list_lock s then Hang else Ret (s\<lparr>list_lock := True\<rparr>))"

definition lock_one :: "'m lkp_kv \<Rightarrow> 'm lkp_kv outcome" where
  "lock_one s = (if one_lock s then Hang else Ret (s\<lparr>one_lock := True\<rparr>))"

definition unlock_erase :: "'m lkp_kv \<Rightarrow> 'm lkp_kv" where
  "unlock_erase s = s\<lparr>erase_lock := False\<rparr>"

definition unlock_list :: "'m lkp_kv \<Rightarrow> 'm lkp_kv" where
  "unlock_list s = s\<lparr>list_lock := False\<rparr>"

definition unlock_one :: "'m lkp_kv \<Rightarrow> 'm lkp_kv" where
  "unlock_one s = s\<lparr>one_lock := False\<rparr>"

text \<open>\<open>kzalloc\<close>: the requested bytes are zero, what the cache adds behind them is not.\<close>

definition kzalloc :: "'m heap_kernel \<Rightarrow> nat \<Rightarrow> 'm lkp_kv \<Rightarrow> byte list option" where
  "kzalloc K n s = map_option (\<lambda>mem. replicate n 0 @ drop n mem) (k_kmalloc K (flash s) n)"

definition upd_block :: "int \<Rightarrow> (blk_info \<Rightarrow> blk_info) \<Rightarrow> 'm lkp_kv \<Rightarrow> 'm lkp_kv outcome" where
  "upd_block i f s = obind (arr_upd (blocks s) i f) (\<lambda>bs. Ret (s\<lparr>blocks := bs\<rparr>))"

definition upd_block_of :: "int \<Rightarrow> (blk_info \<Rightarrow> blk_info) \<Rightarrow> 'm lkp_kv \<Rightarrow> 'm lkp_kv outcome" where
  "upd_block_of page_index f s =
     (if pages_per_block s = 0 then Fault else upd_block (c_div page_index (pages_per_block s)) f s)"

definition linked :: "nat \<Rightarrow> 'm lkp_kv \<Rightarrow> bool" where
  "linked h s \<longleftrightarrow> list_ex (\<lambda>b. List.member (valid_list b) h) (blocks s)"

definition list_del :: "nat \<Rightarrow> 'm lkp_kv \<Rightarrow> 'm lkp_kv outcome" where
  "list_del h s =
     (if linked h s
      then Ret (s\<lparr>blocks := map (\<lambda>b. b\<lparr>valid_list := removeAll h (valid_list b)\<rparr>) (blocks s)\<rparr>)
      else Fault)"

definition list_add :: "int \<Rightarrow> int \<Rightarrow> 'm lkp_kv \<Rightarrow> 'm lkp_kv outcome" where
  "list_add h blk s =
     (if \<not> in_range h (hashtable s) \<or> linked (nat h) s then Fault
      else upd_block blk (\<lambda>b. b\<lparr>valid_list := nat h # valid_list b\<rparr>) s)"

text \<open>The first \<open>n\<close> metadata blocks.\<close>

definition victims :: "nat \<Rightarrow> 'm lkp_kv \<Rightarrow> int list outcome" where
  "victims n s = (if n \<le> length (meta_blkordr s) then Ret (take n (meta_blkordr s)) else Fault)"

text \<open>How many blocks the metadata takes: with and without the page some functions add.\<close>

definition nb_meta :: "nat \<Rightarrow> 'm lkp_kv \<Rightarrow> nat" where
  "nb_meta extra s = (metadata_size s div meta_page_size s + extra) div pages_per_block s + 1"

section \<open>Pages\<close>

definition is_read_only :: "'m lkp_kv \<Rightarrow> bool" where
  "is_read_only s \<longleftrightarrow> int (length (filter (\<lambda>b. int (pages_per_block s) \<le> current_page_offset b) (blocks s)))
     \<ge> int (nb_blocks s) - (int (nb_meta 0 s) - 1)"

definition read_page :: "'m heap_kernel \<Rightarrow> int \<Rightarrow> 'm lkp_kv \<Rightarrow> (int \<times> byte list) outcome" where
  "read_page K page_index s =
     obind (lock_one s) (\<lambda>s. Ret (k_read K (flash s) (page_addr page_index (page_size s)) (page_size s)))"

definition write_page :: "'m heap_kernel \<Rightarrow> int \<Rightarrow> byte list \<Rightarrow> 'm lkp_kv \<Rightarrow> (int \<times> 'm lkp_kv) outcome" where
  "write_page K page_index buf s =
     obind (lock_one s) (\<lambda>s.
     obind (if read_only s then Ret (- 1, s)
            else obind (mem_slice buf 0 (int (page_size s))) (\<lambda>page.
              case k_write K (flash s) (page_addr page_index (page_size s)) page of (r, m) \<Rightarrow>
              if r \<noteq> 0 then Bug
              else obind (lock_list (s\<lparr>flash := m\<rparr>)) (\<lambda>s.
                   obind (upd_block_of page_index (\<lambda>b. b\<lparr>current_page_offset := current_page_offset b + 1\<rparr>) s) (\<lambda>s.
                     Ret (0, unlock_list s))))) (\<lambda>(ret, s).
       if is_read_only s then Ret (- 1, unlock_one (s\<lparr>read_only := True\<rparr>)) else Ret (ret, unlock_one s)))"

definition write_meta_page :: "'m heap_kernel \<Rightarrow> int \<Rightarrow> byte list \<Rightarrow> 'm lkp_kv \<Rightarrow> (int \<times> 'm lkp_kv) outcome" where
  "write_meta_page K page_index buf s =
     (if meta_read_only s then Ret (- 1, s)
      else obind (mem_slice buf 0 (int (meta_page_size s))) (\<lambda>page.
        case k_write K (meta_flash s) (page_addr page_index (meta_page_size s)) page of (r, m) \<Rightarrow>
        Ret (if r \<noteq> 0 then - 2 else 0, s\<lparr>meta_flash := m\<rparr>)))"

definition read_meta_page :: "'m heap_kernel \<Rightarrow> int \<Rightarrow> 'm lkp_kv \<Rightarrow> (int \<times> byte list) outcome" where
  "read_meta_page K page_index s =
     obind (lock_one s) (\<lambda>s. Ret (k_read K (meta_flash s) (page_addr page_index (meta_page_size s)) (meta_page_size s)))"

definition write_hdr :: "'m heap_kernel \<Rightarrow> int \<Rightarrow> int \<Rightarrow> int \<Rightarrow> 'm lkp_kv \<Rightarrow> (int \<times> 'm lkp_kv) outcome" where
  "write_hdr K pg_idx data meta_blk_num s =
     (if meta_read_only s then Ret (- 1, s)
      else case kzalloc K (meta_page_size s) s of None \<Rightarrow> Bug
      | Some buf \<Rightarrow>
        obind (if data = NAND_DATA then write_page K pg_idx buf s
               else if data = NAND_META_DATA then
                 obind (mem_store buf 0 (chars META_HDR_BASE)) (\<lambda>buf.
                 obind (mem_store buf 7 (chars (take 9 (fmt_d meta_blk_num)) @ [0])) (\<lambda>buf.
                   write_page K pg_idx buf s))
               else Fault) (\<lambda>(ret, s).
        obind (upd_block_of pg_idx (\<lambda>b. b\<lparr>state := BLK_USED\<rparr>) s) (\<lambda>s. Ret (ret, s))))"

section \<open>Choosing a block\<close>

definition get_healthy_block :: "'m lkp_kv \<Rightarrow> int outcome" where
  "get_healthy_block s =
     obind (victims (nb_meta 1 s) s) (\<lambda>mo. Ret
       (snd (foldl (\<lambda>(minimum, ret) i.
           if int i \<in> set mo then (minimum, ret)
           else if current_page_offset (blocks s ! i) < int (pages_per_block s) \<and> worn (blocks s ! i) < minimum
                then (worn (blocks s ! i), int i) else (minimum, ret))
         (2147483647, - 1) [0..<nb_blocks s])))"

text \<open>
  When the block is fresh its header is written, and what \<open>write_hdr\<close> returns (0 or -1) is
  returned as the block.
\<close>

definition get_next_block_to_write :: "'m heap_kernel \<Rightarrow> 'm lkp_kv \<Rightarrow> (int \<times> 'm lkp_kv) outcome" where
  "get_next_block_to_write K s =
     obind (lock_list s) (\<lambda>s.
     obind (get_healthy_block s) (\<lambda>target_block.
       let s = unlock_list s in
       if target_block = - 1 then Ret (- 1, s)
       else obind (upd_block target_block (\<lambda>b. b\<lparr>state := BLK_USED\<rparr>) s) (\<lambda>s.
            obind (arr_get (blocks s) target_block) (\<lambda>b.
              if current_page_offset b < RESERVED_PG_CNT then
                write_hdr K (target_block * int (pages_per_block s) + current_page_offset b) NAND_DATA 0 s
              else Ret (target_block, s)))))"

definition invalid_pg :: "int \<Rightarrow> 'm lkp_kv \<Rightarrow> 'm lkp_kv outcome" where
  "invalid_pg hash_idx s =
     (if \<not> in_range hash_idx (hashtable s) then Fault
      else let h = nat hash_idx; s = s\<lparr>hashtable := release h (hashtable s)\<rparr> in
        obind (upd_block_of (index (hashtable s ! h)) (\<lambda>b. b\<lparr>nb_invalid := nb_invalid b + 1\<rparr>) s)
          (list_del h))"

section \<open>Format\<close>

definition format_callback :: "erase_state \<Rightarrow> 'm lkp_kv \<Rightarrow> 'm lkp_kv" where
  "format_callback st s =
     (if st \<noteq> MTD_ERASE_DONE then s\<lparr>format_done := - 1\<rparr> else s\<lparr>format_done := 1\<rparr>)"

definition meta_format_callback :: "erase_state \<Rightarrow> 'm lkp_kv \<Rightarrow> 'm lkp_kv" where
  "meta_format_callback st s =
     (if st \<noteq> MTD_ERASE_DONE then s\<lparr>meta_format_done := - 1\<rparr> else s\<lparr>meta_format_done := 1\<rparr>)"

text \<open>The erase and its polling loop, left once the callback has run.\<close>

definition erase_wait :: "'m heap_kernel \<Rightarrow> nat \<Rightarrow> nat \<Rightarrow> 'm lkp_kv \<Rightarrow> (bool \<times> 'm lkp_kv) outcome" where
  "erase_wait K addr len s =
     (let s = s\<lparr>format_done := 0\<rparr> in
      case k_erase K (flash s) addr len of (ret, cb, m) \<Rightarrow>
        let s = s\<lparr>flash := m\<rparr> in
        if ret \<noteq> 0 then Ret (False, s)
        else case cb of None \<Rightarrow> Hang | Some st \<Rightarrow> Ret (True, format_callback st s))"

definition meta_on_disk_format :: "'m heap_kernel \<Rightarrow> 'm lkp_kv \<Rightarrow> (int \<times> 'm lkp_kv) outcome" where
  "meta_on_disk_format K s =
     (let s = s\<lparr>meta_format_done := 0\<rparr> in
      case k_erase K (meta_flash s) 0 (meta_block_size s * meta_nb_blocks s) of (ret, cb, m) \<Rightarrow>
        let s = s\<lparr>meta_flash := m\<rparr> in
        if ret \<noteq> 0 then Ret (- 1, s)
        else case cb of None \<Rightarrow> Hang
         | Some st \<Rightarrow> let s = meta_format_callback st s in
             Ret (if meta_format_done s = - 1 then - 2 else 0, s))"

definition format_single :: "'m heap_kernel \<Rightarrow> int \<Rightarrow> 'm lkp_kv \<Rightarrow> (int \<times> 'm lkp_kv) outcome" where
  "format_single K idx s =
     (if idx < 0 then Ret (- 1, s)
      else obind (erase_wait K (page_addr idx (block_size s)) (block_size s) s) (\<lambda>(started, s).
        if \<not> started \<or> format_done s = - 1 then Ret (- 1, s)
        else obind (upd_block idx (\<lambda>b. b\<lparr>state := BLK_FREE, nb_invalid := 0, current_page_offset := 0,
                                        worn := worn b + 1\<rparr>) s) (\<lambda>s.
          obind (lock_list s) (\<lambda>s.
          obind (upd_block idx (\<lambda>b. b\<lparr>valid_list := []\<rparr>) s) (\<lambda>s.
            Ret (0, (unlock_list s)\<lparr>read_only := False, meta_read_only := False\<rparr>))))))"

definition format :: "'m heap_kernel \<Rightarrow> 'm lkp_kv \<Rightarrow> (int \<times> 'm lkp_kv) outcome" where
  "format K s =
     obind (lock_erase s) (\<lambda>s.
     obind (erase_wait K 0 (block_size s * nb_blocks s) s) (\<lambda>(started, s).
       if \<not> started \<or> format_done s = - 1 then Bug
       else let s = s\<lparr>read_only := False\<rparr> in
         obind (lock_list s) (\<lambda>s.
           let s = unlock_list (s\<lparr>blocks := map (\<lambda>b. b\<lparr>valid_list := [], state := BLK_FREE, worn := 0, nb_invalid := 0,
                              current_page_offset := 0\<rparr>) (blocks s)\<rparr>);
               s = s\<lparr>hashtable := map (\<lambda>b. b\<lparr>p_state := PG_FREE, dirty := False\<rparr>) (hashtable s), meta_read_only := False\<rparr>
           in Ret (0, unlock_erase s))))"

section \<open>Garbage collection\<close>

text \<open>\<open>atomic_cmpxchg(&v, 0, 1)\<close> returns the old value; both callers leave when it was 0.\<close>

definition cmpxchg01 :: "int \<Rightarrow> int \<times> int" where
  "cmpxchg01 v = (v, if v = 0 then 1 else v)"

definition find_target :: "int list \<Rightarrow> 'm lkp_kv \<Rightarrow> nat option" where
  "find_target mo s = List.find (\<lambda>i. int i \<notin> set mo \<and> INVALID_THRESHOLD \<le> nb_invalid (blocks s ! i)) [0..<nb_blocks s]"

text \<open>The least worn block the valid pages of the target could be merged into.\<close>

definition find_merge :: "int list \<Rightarrow> nat \<Rightarrow> 'm lkp_kv \<Rightarrow> int" where
  "find_merge mo target_blk1 s =
     (let valid_cnt = current_page_offset (blocks s ! target_blk1) - nb_invalid (blocks s ! target_blk1) - 1 in
      foldl (\<lambda>target_blk2 i.
          if i = target_blk1 \<or> int i \<in> set mo then target_blk2
          else if int (pages_per_block s) - current_page_offset (blocks s ! i) > valid_cnt then
            (if target_blk2 = - 1 then int i
             else if worn (blocks s ! i) < worn (blocks s ! nat target_blk2) then int i else target_blk2)
          else target_blk2) (- 1) [0..<nb_blocks s])"

definition find_free :: "'m lkp_kv \<Rightarrow> int" where
  "find_free s = foldl (\<lambda>victim_blk i.
       if current_page_offset (blocks s ! i) = 0 \<and> state (blocks s ! i) = BLK_FREE then
         (if victim_blk = - 1 then int i
          else if worn (blocks s ! i) < worn (blocks s ! nat victim_blk) then int i else victim_blk)
       else victim_blk) (- 1) [0..<nb_blocks s]"

definition find_victim :: "int list \<Rightarrow> nat \<Rightarrow> 'm lkp_kv \<Rightarrow> int" where
  "find_victim mo target_blk1 s =
     (if find_merge mo target_blk1 s \<noteq> - 1 then find_merge mo target_blk1 s
      else if find_free s \<noteq> - 1 then find_free s else int target_blk1)"

text \<open>The node after \<open>h\<close> on a list (\<open>None\<close>: the list head); \<open>h\<close> must be on it.\<close>

definition next_node :: "nat list \<Rightarrow> nat \<Rightarrow> nat option outcome" where
  "next_node xs h = (case dropWhile (\<lambda>x. x \<noteq> h) xs of [] \<Rightarrow> Fault | [_] \<Rightarrow> Ret None | _ # y # _ \<Rightarrow> Ret (Some y))"

text \<open>
  The walk over the valid pages of the target, with \<open>list_lock\<close> held: page \<open>i\<close> is read to
  offset \<open>i * pages_per_block\<close> of the buffer, its lengths go to the arrays (\<open>left\<close> elements of
  which are unused), its entry is invalidated.
\<close>

fun gc_collect :: "'m heap_kernel \<Rightarrow> nat \<Rightarrow> nat \<Rightarrow> nat option \<Rightarrow> (int \<times> int) list \<Rightarrow> byte list \<Rightarrow> 'm lkp_kv
    \<Rightarrow> ((int \<times> int) list \<times> byte list \<times> 'm lkp_kv) outcome" where
  "gc_collect K target_blk1 left None recs buffer s = Ret (recs, buffer, s)"
| "gc_collect K target_blk1 left (Some current_page) recs buffer s =
     obind (arr_get (blocks s) (int target_blk1)) (\<lambda>tb.
     obind (next_node (valid_list tb) current_page) (\<lambda>nxt.
     obind (arr_get (hashtable s) (int current_page)) (\<lambda>b.
       let off = int (length recs * pages_per_block s) in
       if c_div (index b) (pages_per_block s) \<noteq> int target_blk1 then Ret (recs, buffer, s)
       else obind (read_page K (index b) s) (\<lambda>(ret, page).
         obind (mem_store buffer off page) (\<lambda>buffer.
         if ret \<noteq> 0 then Bug
         else (case left of
           0 \<Rightarrow> Fault
         | Suc left \<Rightarrow>
             obind (mem_slice buffer off 4) (\<lambda>kl.
             obind (mem_slice buffer (off + 4) 4) (\<lambda>vl.
               let key_len = bytes_int kl; val_len = bytes_int vl in
               case k_kmalloc K (flash s) (nat (key_len + 1)) of
                 None \<Rightarrow> Bug
               | Some _ \<Rightarrow>
                   obind (mem_slice buffer (off + 8) key_len) (\<lambda>src.
                   obind (par_hash_search (HASH_SIZE s) (hashtable s) (takeWhile (\<lambda>c. c \<noteq> 0) src)) (\<lambda>hash_index.
                   obind (invalid_pg hash_index s) (\<lambda>s.
                     gc_collect K target_blk1 left nxt (recs @ [(key_len, val_len)]) buffer s)))))))))))"

text \<open>Writing couple \<open>i\<close> behind the pages of the victim.\<close>

definition gc_write :: "'m heap_kernel \<Rightarrow> int \<Rightarrow> nat \<times> (int \<times> int) \<Rightarrow> byte list \<times> 'm lkp_kv
    \<Rightarrow> (byte list \<times> 'm lkp_kv) outcome" where
  "gc_write K victim_blk r bs =
     (case (r, bs) of ((i, key_len, val_len), (buffer, s)) \<Rightarrow>
      let off = int (i * pages_per_block s) in
      obind (mem_store buffer off (int_bytes key_len)) (\<lambda>buffer.
      obind (mem_store buffer (off + 4) (int_bytes val_len)) (\<lambda>buffer.
      obind (mem_slice buffer (off + 8) key_len) (\<lambda>cur_key.
      obind (mem_store buffer (off + 8) (strncpy_bytes cur_key)) (\<lambda>buffer.
      obind (mem_slice buffer (off + 8 + key_len) val_len) (\<lambda>cur_val.
      obind (mem_store buffer (off + 8 + key_len) (strncpy_bytes cur_val)) (\<lambda>buffer.
      obind (arr_get (blocks s) victim_blk) (\<lambda>vb.
        let pg_index = victim_blk * int (pages_per_block s) + current_page_offset vb in
        case k_kmalloc K (flash s) (nat (key_len + 1)) of
          None \<Rightarrow> Bug
        | Some _ \<Rightarrow>
            obind (mem_slice buffer (off + 8) key_len) (\<lambda>src.
            obind (write_page K pg_index (drop (nat off) buffer) s) (\<lambda>(ret, s).
            obind (lock_list s) (\<lambda>s.
            obind (par_hash_add (pages_per_block s) (HASH_SIZE s) (hashtable s) (takeWhile (\<lambda>c. c \<noteq> 0) src) pg_index) (\<lambda>(ret2, ht).
              if ret < 0 \<or> ret2 < 0 then Bug
              else obind (list_add ret2 victim_blk (s\<lparr>hashtable := ht\<rparr>)) (\<lambda>s. Ret (buffer, unlock_list s))))))))))))))"

definition gc_move :: "'m heap_kernel \<Rightarrow> nat \<Rightarrow> int \<Rightarrow> 'm lkp_kv \<Rightarrow> 'm lkp_kv outcome" where
  "gc_move K target_blk1 victim_blk s =
     (case kzalloc K (page_size s * pages_per_block s) s of
        None \<Rightarrow> Bug
      | Some buffer \<Rightarrow>
          obind (lock_list s) (\<lambda>s.
          obind (arr_get (blocks s) (int target_blk1)) (\<lambda>tb.
          obind (gc_collect K target_blk1 (pages_per_block s) (case valid_list tb of [] \<Rightarrow> None | h # _ \<Rightarrow> Some h) [] buffer s)
            (\<lambda>(recs, buffer, s).
          obind (format_single K (int target_blk1) (unlock_list s)) (\<lambda>(_, s).
          obind (arr_get (blocks s) victim_blk) (\<lambda>vb.
            let pg_index = victim_blk * int (pages_per_block s) + current_page_offset vb in
          obind (if pg_index mod int (pages_per_block s) = 0
                 then obind (write_hdr K pg_index NAND_DATA 0 s) (\<lambda>(_, s). Ret s) else Ret s) (\<lambda>s.
          obind (ofold (gc_write K victim_blk) (enumerate 0 recs) (buffer, s)) (\<lambda>(buffer, s).
          obind (lock_list s) (\<lambda>s.
          obind (upd_block victim_blk (\<lambda>b. b\<lparr>state := BLK_USED\<rparr>) s) (\<lambda>s. Ret (unlock_list s)))))))))))"

text \<open>What runs between taking \<open>erase_lock\<close> and releasing it.\<close>

definition gc_body :: "'m heap_kernel \<Rightarrow> 'm lkp_kv \<Rightarrow> 'm lkp_kv outcome" where
  "gc_body K s =
     obind (victims (nb_meta 1 s) s) (\<lambda>mo.
       case find_target mo s of
         None \<Rightarrow> Ret s
       | Some target_blk1 \<Rightarrow>
           let victim_blk = find_victim mo target_blk1 s in
           obind (upd_block victim_blk (\<lambda>b. b\<lparr>state := BLK_USED\<rparr>) s) (gc_move K target_blk1 victim_blk))"

definition gc :: "'m heap_kernel \<Rightarrow> 'm lkp_kv \<Rightarrow> 'm lkp_kv outcome" where
  "gc K s =
     (if pages_per_block s < 64 then Ret s
      else case cmpxchg01 (is_gb s) of (old, new) \<Rightarrow>
        let s = s\<lparr>is_gb := new\<rparr> in
        if old = 0 then Ret s
        else if erase_lock s then Ret s
        else obind (gc_body K (s\<lparr>erase_lock := True\<rparr>)) (\<lambda>s. Ret ((unlock_erase s)\<lparr>is_gb := 0\<rparr>)))"

section \<open>Metadata\<close>

definition blk_state_int :: "blk_state \<Rightarrow> int" where
  "blk_state_int x = (case x of BLK_FREE \<Rightarrow> 0 | BLK_USED \<Rightarrow> 1 | BLK_VALUE i \<Rightarrow> i)"

definition int_blk_state :: "int \<Rightarrow> blk_state" where
  "int_blk_state i = (if i = 0 then BLK_FREE else if i = 1 then BLK_USED else BLK_VALUE i)"

definition page_state_int :: "page_state \<Rightarrow> int" where
  "page_state_int x = (case x of PG_FREE \<Rightarrow> 0 | PG_VALID \<Rightarrow> 1 | PG_VALUE i \<Rightarrow> i)"

definition int_page_state :: "int \<Rightarrow> page_state" where
  "int_page_state i = (if i = 0 then PG_FREE else if i = 1 then PG_VALID else PG_VALUE i)"

text \<open>
  The bytes of the two tables: pointers, padding and what follows the NUL of a key are
  arbitrary; both allocations end with zeros up to a whole number of pages.
\<close>

definition stale :: "'m heap_kernel \<Rightarrow> nat \<Rightarrow> nat \<Rightarrow> byte list" where
  "stale K off n = map (k_stale K) [off..<off + n]"

definition blk_info_bytes :: "'m heap_kernel \<Rightarrow> nat \<Rightarrow> blk_info \<Rightarrow> byte list" where
  "blk_info_bytes K off b = stale K off 8 @ int_bytes (blk_state_int (state b)) @ int_bytes (worn b)
     @ int_bytes (nb_invalid b) @ int_bytes (current_page_offset b)"

definition bucket_bytes :: "'m heap_kernel \<Rightarrow> nat \<Rightarrow> bucket \<Rightarrow> byte list" where
  "bucket_bytes K off b = stale K off 16 @ int_bytes (if dirty b then 1 else 0) @ int_bytes (index b)
     @ int_bytes (page_state_int (p_state b)) @ stale K (off + 28) 12
     @ take PAR_KEY_MAX (key b @ 0 # stale K (off + 41 + length (key b)) (PAR_KEY_MAX - 1))"

definition blocks_image :: "'m heap_kernel \<Rightarrow> 'm lkp_kv \<Rightarrow> byte list" where
  "blocks_image K s = concat (map (\<lambda>(i, b). blk_info_bytes K (i * SIZEOF_BLK_INFO) b) (enumerate 0 (blocks s)))
     @ replicate (block_info_size s - SIZEOF_BLK_INFO * length (blocks s)) 0"

definition hash_image :: "'m heap_kernel \<Rightarrow> 'm lkp_kv \<Rightarrow> byte list" where
  "hash_image K s = concat (map (\<lambda>(i, b). bucket_bytes K (block_info_size s + i * SIZEOF_BUCKET) b) (enumerate 0 (hashtable s)))
     @ replicate (hashtable_size s - SIZEOF_BUCKET * length (hashtable s)) 0"

definition bytes_blk_info :: "byte list \<Rightarrow> blk_info" where
  "bytes_blk_info bs = \<lparr>valid_list = [], state = int_blk_state (bytes_int (drop 8 bs)), worn = bytes_int (drop 12 bs),
     nb_invalid = bytes_int (drop 16 bs), current_page_offset = bytes_int (drop 20 bs)\<rparr>"

definition bytes_bucket :: "byte list \<Rightarrow> bucket" where
  "bytes_bucket bs = \<lparr>dirty = (bytes_int (drop 16 bs) \<noteq> 0), index = bytes_int (drop 20 bs),
     key = takeWhile (\<lambda>c. c \<noteq> 0) (take PAR_KEY_MAX (drop 40 bs)), p_state = int_page_state (bytes_int (drop 24 bs))\<rparr>"

text \<open>
  The loop that looks for blocks to hold the metadata.  \<open>pre\<close> are the blocks that hold it now,
  \<open>enough\<close> the number found; \<open>True\<close> stands for the \<open>break\<close>.
\<close>

definition usable :: "int list \<Rightarrow> int list \<Rightarrow> nat \<Rightarrow> 'm lkp_kv \<Rightarrow> bool" where
  "usable mo pre i s \<longleftrightarrow> int i \<notin> set mo \<and> int i \<notin> set pre
     \<and> current_page_offset (blocks s ! i) = 0 \<and> state (blocks s ! i) = BLK_FREE"

definition flush_winner :: "int list \<Rightarrow> int list \<Rightarrow> nat \<Rightarrow> 'm lkp_kv \<Rightarrow> nat" where
  "flush_winner mo pre i s =
     (case foldl (\<lambda>winner z.
          if \<not> usable mo pre z s then winner
          else (case winner of None \<Rightarrow> Some z
                 | Some w \<Rightarrow> if worn (blocks s ! z) < worn (blocks s ! w) then Some z else winner))
        None [Suc i..<nb_blocks s] of None \<Rightarrow> i | Some w \<Rightarrow> w)"

definition flush_choose :: "'m heap_kernel \<Rightarrow> nat \<Rightarrow> int list \<Rightarrow> nat \<Rightarrow> bool \<times> nat \<times> 'm lkp_kv
    \<Rightarrow> (bool \<times> nat \<times> 'm lkp_kv) outcome" where
  "flush_choose K n pre i st =
     (case st of (done, enough, s) \<Rightarrow>
      if done then Ret st
      else obind (victims n s) (\<lambda>mo.
        if \<not> usable mo pre i s then Ret st
        else let winner = flush_winner mo pre i s in
          obind (upd_block (int winner) (\<lambda>b. b\<lparr>state := BLK_USED\<rparr>) s) (\<lambda>s.
          obind (arr_get pre (int enough)) (\<lambda>old.
          obind (if old \<noteq> - 1 then obind (format_single K old s) (\<lambda>(_, s). Ret s) else Ret s) (\<lambda>s.
          obind (arr_upd (meta_blkordr s) (int enough) (\<lambda>_. int winner)) (\<lambda>mo.
            Ret (n \<le> Suc enough, Suc enough, s\<lparr>meta_blkordr := mo\<rparr>)))))))"

text \<open>Without enough free blocks the old ones are erased and used again, but not entered in the order.\<close>

definition flush_recycle :: "'m heap_kernel \<Rightarrow> int list \<Rightarrow> nat \<Rightarrow> 'm lkp_kv \<Rightarrow> 'm lkp_kv outcome" where
  "flush_recycle K pre enough s =
     obind (arr_get pre (int enough)) (\<lambda>old.
       if old \<noteq> - 1 then
         obind (format_single K old s) (\<lambda>(_, s). upd_block old (\<lambda>b. b\<lparr>state := BLK_USED\<rparr>) s)
       else Bug)"

definition flush_page :: "'m heap_kernel \<Rightarrow> nat \<Rightarrow> nat \<Rightarrow> int \<times> nat \<times> 'm lkp_kv \<Rightarrow> (int \<times> nat \<times> 'm lkp_kv) outcome" where
  "flush_page K blk_pgs i st =
     (case st of (ret, jack_ofs, s) \<Rightarrow>
      obind (if int i \<le> int blk_pgs - 1
             then mem_slice (blocks_image K s) (int (i * meta_page_size s)) (int (meta_page_size s))
             else mem_slice (hash_image K s) (int ((i - blk_pgs) * meta_page_size s)) (int (meta_page_size s))) (\<lambda>buffer.
      if pages_per_block s \<le> 1 then Fault
      else obind (if i mod (pages_per_block s - 1) = 0
             then obind (arr_get (meta_blkordr s) (int jack_ofs)) (\<lambda>blk.
                  obind (write_hdr K (blk * int (pages_per_block s)) NAND_META_DATA (int jack_ofs) s) (\<lambda>(ret, s).
                    Ret (ret, Suc jack_ofs, s)))
             else Ret (ret, jack_ofs, s)) (\<lambda>(ret, jack_ofs, s).
      obind (arr_get (meta_blkordr s) (int jack_ofs - 1)) (\<lambda>blk.
      obind (write_page K (blk * int (pages_per_block s) + int (i mod (pages_per_block s - 1)) + 1) buffer s) (\<lambda>(r, s).
        if r \<noteq> 0 then Bug else Ret (ret, jack_ofs, s))))))"

definition flush_body :: "'m heap_kernel \<Rightarrow> 'm lkp_kv \<Rightarrow> (int \<times> 'm lkp_kv) outcome" where
  "flush_body K s =
     (let nb_pages = metadata_size s div meta_page_size s; n = nb_meta 0 s; pre = meta_blkordr s in
      obind (victims n s) (\<lambda>_.
      let s = s\<lparr>meta_blkordr := replicate n (- 2) @ drop n pre\<rparr> in
      obind (ofold (flush_choose K n (take n pre)) [0..<nb_blocks s] (False, 0, s)) (\<lambda>(_, enough, s).
      obind (ofold (flush_recycle K pre) [enough..<n] s) (\<lambda>s.
      if kzalloc K (meta_page_size s) s = None then Bug
      else obind (lock_list s) (\<lambda>s.
      obind (ofold (\<lambda>i s. obind (arr_get (meta_blkordr s) (int i)) (\<lambda>blk. upd_block blk (\<lambda>b. b\<lparr>state := BLK_USED\<rparr>) s)) [0..<n] s) (\<lambda>s.
      let s = (unlock_list s)\<lparr>metadata_size := hashtable_size s + block_info_size s\<rparr>;
          blk_pgs = block_info_size s div meta_page_size s in
      obind (ofold (flush_page K blk_pgs) [0..<nb_pages] (0, 0, s)) (\<lambda>(ret, _, s). Ret (ret, s))))))))"

text \<open>
  A flush that is not forced leaves unless the flag was already set, and the way out resets it.
\<close>

definition flush_metadata :: "'m heap_kernel \<Rightarrow> bool \<Rightarrow> 'm lkp_kv \<Rightarrow> (int \<times> 'm lkp_kv) outcome" where
  "flush_metadata K force s =
     (let leave = (\<lambda>(ret, s). Ret (ret, s\<lparr>recent_update := 0, is_flush := 0\<rparr>));
          locked = (\<lambda>s. if erase_lock s then (if force then Hang else leave (0, s))
                        else obind (flush_body K (s\<lparr>erase_lock := True\<rparr>)) (\<lambda>(ret, s). leave (ret, unlock_erase s)))
      in if force then locked s
         else case cmpxchg01 (is_flush s) of (old, new) \<Rightarrow>
           let s = s\<lparr>is_flush := new\<rparr> in
           if old = 0 then leave (0, s)
           else if flush_cnt s < FLUSH_THRESHOLD then leave (0, s\<lparr>flush_cnt := Suc (flush_cnt s)\<rparr>)
           else locked (s\<lparr>flush_cnt := 0\<rparr>))"

definition gc_check :: "'m heap_kernel \<Rightarrow> 'm lkp_kv \<Rightarrow> 'm lkp_kv outcome" where
  "gc_check K s =
     obind (if list_ex (\<lambda>b. INVALID_THRESHOLD2 \<le> nb_invalid b) (blocks s) then gc K s else Ret s) (\<lambda>s.
       let c = write_cnt s; s = s\<lparr>write_cnt := Suc c\<rparr> in
       if FLUSH_THRESHOLD2 \<le> c
       then obind (flush_metadata K True (s\<lparr>write_cnt := 0\<rparr>)) (\<lambda>(_, s). Ret s) else Ret s)"

section \<open>The operations of the store\<close>

text \<open>
  Writing and indexing the couple in \<open>buffer\<close> behind the last page of the chosen block, up to the
  release of \<open>erase_lock\<close>; the code is returned after \<open>gc_check\<close>.
\<close>

definition set_store :: "'m heap_kernel \<Rightarrow> byte list \<Rightarrow> byte list \<Rightarrow> int \<Rightarrow> 'm lkp_kv \<Rightarrow> (int \<times> 'm lkp_kv) outcome" where
  "set_store K k buffer target_block s =
     obind (arr_get (blocks s) target_block) (\<lambda>tb.
       let idx = target_block * int (pages_per_block s) + current_page_offset tb in
       obind (write_page K idx buffer s) (\<lambda>(ret, s).
       obind (lock_list s) (\<lambda>s.
       obind (par_hash_add (pages_per_block s) (HASH_SIZE s) (hashtable s) k idx) (\<lambda>(ret2, ht).
       obind (list_add ret2 target_block (s\<lparr>hashtable := ht\<rparr>)) (\<lambda>s.
         Ret (if ret = - 1 then - 3 else if ret = - 2 then - 4 else if ret2 < 0 then - 5 else 0,
           (unlock_erase (unlock_list s))\<lparr>recent_update := 1\<rparr>))))))"

text \<open>
  \<open>set_keyval\<close> with \<open>erase_lock\<close> held: the code, and whether \<open>gc_check\<close> follows.  Two of the early
  returns keep the lock.
\<close>

definition set_body :: "'m heap_kernel \<Rightarrow> byte list \<Rightarrow> byte list \<Rightarrow> 'm lkp_kv \<Rightarrow> (int \<times> bool \<times> 'm lkp_kv) outcome" where
  "set_body K k val s =
     (if length k + length val + 8 > page_size s then Ret (- 1, False, s)
      else if read_only s then Ret (- 3, False, unlock_erase s)
      else if k_kmalloc K (flash s) (page_size s) = None then Bug
      else
        obind (lock_list s) (\<lambda>s.
        obind (par_hash_search (HASH_SIZE s) (hashtable s) k) (\<lambda>hash_idx.
        obind (if 0 \<le> hash_idx then invalid_pg hash_idx s else Ret s) (\<lambda>s.
        obind (fill_buffer (page_size s) k val) (\<lambda>buffer.
        obind (get_next_block_to_write K (unlock_list s)) (\<lambda>(target_block, s).
          if target_block = - 1 then Ret (- 3, False, s)
          else obind (set_store K k buffer target_block s) (\<lambda>(ret, s). Ret (ret, True, s))))))))"

definition set_keyval :: "'m heap_kernel \<Rightarrow> byte list \<Rightarrow> byte list \<Rightarrow> 'm lkp_kv \<Rightarrow> (int \<times> 'm lkp_kv) outcome" where
  "set_keyval K k val s =
     obind (lock_erase s) (\<lambda>s.
     obind (set_body K k val s) (\<lambda>(ret, written, s).
       if written then obind (gc_check K s) (\<lambda>s. Ret (ret, s)) else Ret (ret, s)))"

text \<open>The second component is what is copied to \<open>val\<close>, which has the size of a page.\<close>

definition get_keyval :: "'m heap_kernel \<Rightarrow> byte list \<Rightarrow> 'm lkp_kv \<Rightarrow> (int \<times> byte list option) outcome" where
  "get_keyval K k s =
     (if k_kmalloc K (flash s) (page_size s) = None then Bug
      else obind (lock_erase s) (\<lambda>s. obind (lock_list s) (\<lambda>s.
        obind (par_hash_search (HASH_SIZE s) (hashtable s) k) (\<lambda>hash_index.
        if hash_index < 0 then Ret (- 1, None)
        else obind (arr_get (hashtable s) hash_index) (\<lambda>e.
             obind (arr_get (blocks s) (c_div (index e) (pages_per_block s))) (\<lambda>b.
               if state b \<noteq> BLK_USED then Ret (- 3, None)
               else if p_state e = PG_FREE then Ret (- 1, None)
               else obind (read_page K (index e) s) (\<lambda>(ret, buffer).
                 if ret \<noteq> 0 then Bug
                 else
                   let key_len = bytes_int buffer; val_len = bytes_int (drop 4 buffer) in
                   obind (strncmp_eq (drop 8 buffer) (k @ [0]) (length k)) (\<lambda>eq.
                     if eq then
                       obind (mem_slice buffer (8 + key_len) val_len) (\<lambda>v.
                         if int (page_size s) \<le> val_len then Fault
                         else Ret (index e, Some v))
                     else Ret (- 3, None)))))))))"

definition del_key :: "byte list \<Rightarrow> 'm lkp_kv \<Rightarrow> (int \<times> 'm lkp_kv) outcome" where
  "del_key k s =
     obind (lock_erase s) (\<lambda>s. obind (lock_list s) (\<lambda>s.
     obind (par_hash_search (HASH_SIZE s) (hashtable s) k) (\<lambda>hash_index.
       let out = (\<lambda>(ret, s). Ret (ret, unlock_erase (unlock_list s))) in
       if hash_index < 0 then out (- 1, s)
       else obind (arr_get (hashtable s) hash_index) (\<lambda>e.
            obind (arr_get (blocks s) (c_div (index e) (pages_per_block s))) (\<lambda>b.
              if state b \<noteq> BLK_USED then out (- 1, s)
              else if p_state e = PG_FREE then out (- 1, s)
              else obind (invalid_pg hash_index s) (\<lambda>s. out (index e, s)))))))"

end
