(* ===== verification/ParallelLoad.thy ===== *)
theory ParallelLoad
  imports Parallel
begin

text \<open>
  Loading, unloading and timers of the third prototype (\<open>p6/prototype-parallel/kernel/core.c\<close>):
  \<open>init_config\<close>, the scan that reads the tables back from the metadata blocks, \<open>destroy_config\<close>,
  and the two timers with their callbacks.
\<close>

section \<open>Reading the tables back\<close>

text \<open>
  What the scan works on: whether \<open>construct_done\<close> was reached, \<open>total_ram_pg_cnt\<close>,
  \<open>jack_ofs\<close>, the page buffer, the bytes of the block table and of the hash table, and
  \<open>meta_blkordr\<close>.
\<close>

record scan =
  scan_done :: bool
  ram_pg_cnt :: nat
  jack_ofs :: nat
  scan_buf :: "byte list"
  blk_mem :: "byte list"
  hash_mem :: "byte list"
  scan_order :: "int list"

text \<open>\<open>simple_strtol\<close> on a buffer: it must meet a character that ends the number.\<close>

definition strtol_mem :: "byte list \<Rightarrow> int outcome" where
  "strtol_mem tmp = (if list_ex (\<lambda>c. \<not> is_digit (char_of (unat c))) (tl tmp)
     then Ret (s32 (simple_strtol (map (\<lambda>c. char_of (unat c)) tmp))) else Fault)"

definition scan_number :: "'m heap_kernel \<Rightarrow> 'm lkp_kv \<Rightarrow> byte list \<Rightarrow> int outcome" where
  "scan_number K s page =
     (case kzalloc K 100 s of
        None \<Rightarrow> Fault
      | Some tmp \<Rightarrow>
          obind (mem_string page) (\<lambda>str.
          obind (mem_store tmp 0 (drop (length META_HDR_BASE) str)) strtol_mem))"

text \<open>Page \<open>j\<close> of metadata block \<open>i\<close>, the block with number \<open>idx_num\<close>.\<close>

definition scan_page :: "'m heap_kernel \<Rightarrow> 'm lkp_kv \<Rightarrow> nat \<Rightarrow> int \<Rightarrow> nat \<Rightarrow> scan \<Rightarrow> scan outcome" where
  "scan_page K s i idx_num j st =
     (let blk_pgs = block_info_size s div meta_page_size s; hs_pgs = hashtable_size s div meta_page_size s in
      if scan_done st then Ret st
      else let st = st\<lparr>ram_pg_cnt := Suc (ram_pg_cnt st)\<rparr> in
        if hs_pgs + blk_pgs < ram_pg_cnt st then Ret (st\<lparr>scan_done := True\<rparr>)
        else obind (read_page K (int (i * pages_per_block s + j)) s) (\<lambda>(ret, page).
             if ret \<noteq> 0 then Bug
             else obind (mem_store (scan_buf st) 0 page) (\<lambda>b.
                  obind (mem_slice b 0 (int (meta_page_size s))) (\<lambda>page.
                  let st = st\<lparr>scan_buf := b\<rparr>; ofs = idx_num * int (pages_per_block s) + (int j - 1) in
                  if ofs < int blk_pgs
                  then obind (mem_store (blk_mem st) (ofs * int (meta_page_size s)) page) (\<lambda>m. Ret (st\<lparr>blk_mem := m\<rparr>))
                  else obind (mem_store (hash_mem st) (int (jack_ofs st * meta_page_size s)) page) (\<lambda>m.
                         Ret (st\<lparr>hash_mem := m, jack_ofs := Suc (jack_ofs st)\<rparr>))))))"

definition scan_block :: "'m heap_kernel \<Rightarrow> 'm lkp_kv \<Rightarrow> nat \<Rightarrow> scan \<Rightarrow> scan outcome" where
  "scan_block K s i st =
     (if scan_done st then Ret st
      else obind (read_page K (int (i * pages_per_block s)) s) (\<lambda>(ret, page).
        if ret \<noteq> 0 then Bug
        else obind (mem_store (scan_buf st) 0 page) (\<lambda>b.
             obind (mem_slice b 0 (int (length META_HDR_BASE))) (\<lambda>hdr.
             let st = st\<lparr>scan_buf := b\<rparr> in
             if hdr \<noteq> chars META_HDR_BASE then Ret st
             else obind (scan_number K s b) (\<lambda>idx_num.
                  obind (arr_upd (scan_order st) idx_num (\<lambda>_. int i)) (\<lambda>mo.
                    ofold (scan_page K s i idx_num) [1..<pages_per_block s] (st\<lparr>scan_order := mo\<rparr>)))))))"

text \<open>The block table after the scan: every block has a fresh list.\<close>

definition loaded_block :: "byte list \<Rightarrow> nat \<Rightarrow> blk_info" where
  "loaded_block mem i =
     (let b = bytes_blk_info (drop (i * SIZEOF_BLK_INFO) mem) in
      if state b = BLK_VALUE (- 1)
      then b\<lparr>state := BLK_FREE, worn := 0, nb_invalid := 0, current_page_offset := 0\<rparr> else b)"

definition link_valid :: "nat \<Rightarrow> 'm lkp_kv \<Rightarrow> 'm lkp_kv outcome" where
  "link_valid h s =
     obind (arr_get (hashtable s) (int h)) (\<lambda>e.
       if p_state e = PG_VALID then list_add (int h) (c_div (index e) (pages_per_block s)) s else Ret s)"

definition SIZEOF_LIST_HEAD :: nat where "SIZEOF_LIST_HEAD = 16"

text \<open>Whether the \<open>vmalloc\<close> of the list head of a block has failed is not checked.\<close>

definition init_scan :: "'m heap_kernel \<Rightarrow> 'm lkp_kv \<Rightarrow> (int \<times> 'm lkp_kv) outcome" where
  "init_scan K s =
     obind (lock_erase s) (\<lambda>s.
     case kzalloc K (meta_page_size s) s of
       None \<Rightarrow> Bug
     | Some b \<Rightarrow>
         let s = s\<lparr>metadata_size := hashtable_size s + block_info_size s\<rparr> in
         obind (ofold (scan_block K s) [0..<nb_blocks s]
             \<lparr>scan_done = False, ram_pg_cnt = 0, jack_ofs = 0, scan_buf = b, blk_mem = blocks_image K s, hash_mem = hash_image K s,
               scan_order = meta_blkordr s\<rparr>) (\<lambda>st.
         let s = s\<lparr>meta_blkordr := scan_order st, blocks := map (loaded_block (blk_mem st)) [0..<nb_blocks s],
                    hashtable := map (\<lambda>h. bytes_bucket (drop (h * SIZEOF_BUCKET) (hash_mem st))) [0..<HASH_SIZE s]\<rparr> in
         if 0 < nb_blocks s \<and> k_kmalloc K (flash s) SIZEOF_LIST_HEAD = None then Fault
         else obind (ofold link_valid [0..<HASH_SIZE s] s) (\<lambda>s.
           let s = (if is_read_only s then s\<lparr>read_only := True, meta_read_only := True\<rparr> else s)
           in Ret (0, unlock_erase s))))"

section \<open>Configuration\<close>

definition new_bucket :: bucket where
  "new_bucket = \<lparr>dirty = False, index = - 1, key = [], p_state = PG_FREE\<rparr>"

definition new_block :: blk_info where
  "new_block = \<lparr>valid_list = [], state = BLK_FREE, worn = 0, nb_invalid = 0, current_page_offset = 0\<rparr>"

definition round_up :: "nat \<Rightarrow> nat \<Rightarrow> nat" where
  "round_up n ps = (n div ps + 1) * ps"

definition set_geometry :: "mtd_info \<Rightarrow> mtd_info \<Rightarrow> 'm lkp_kv \<Rightarrow> 'm lkp_kv" where
  "set_geometry mt mm s =
     (let i32 = (\<lambda>n. nat (s32 (int n))) in
      s\<lparr>block_size := i32 (mtd_erasesize mt), page_size := i32 (mtd_writesize mt),
        pages_per_block := i32 (mtd_erasesize mt) div i32 (mtd_writesize mt),
        meta_block_size := i32 (mtd_erasesize mm), meta_page_size := i32 (mtd_writesize mm),
        meta_pages_per_block := i32 (mtd_erasesize mm) div i32 (mtd_writesize mm),
        nb_blocks := i32 (mtd_size mt div mtd_erasesize mt), meta_nb_blocks := i32 (mtd_size mm div mtd_erasesize mm),
        format_lock := 1, meta_format_lock := 1\<rparr>)"

definition init_config :: "'m heap_kernel \<Rightarrow> int \<Rightarrow> int \<Rightarrow> 'm lkp_kv \<Rightarrow> (int \<times> 'm lkp_kv) outcome" where
  "init_config K idx meta_idx s =
     (if idx = - 1 \<or> meta_idx = - 2 then Ret (- 1, s)
      else let s = s\<lparr>format_done := 0, read_only := False, mtd_index := idx,
                     meta_format_done := 0, meta_read_only := False, meta_mtd_index := meta_idx,
                     mtd := k_get_mtd_device K idx, meta_mtd := k_get_mtd_device K meta_idx\<rparr> in
      case (mtd s, meta_mtd s) of
        (None, _) \<Rightarrow> Ret (- 1, s)
      | (_, None) \<Rightarrow> Ret (- 2, s)
      | (Some mt, Some mm) \<Rightarrow>
          if 0 \<in> {mtd_writesize mt, mtd_erasesize mt, mtd_writesize mm, mtd_erasesize mm} then Fault
          else let s = set_geometry mt mm s;
                   blk_info_roundup = round_up (SIZEOF_BLK_INFO * nb_blocks s) (page_size s);
                   s = s\<lparr>blocks := replicate (nb_blocks s) new_block, HASH_SIZE := (pages_per_block s - 1) * nb_blocks s\<rparr>;
                   jack_size = round_up (SIZEOF_BUCKET * HASH_SIZE s) (page_size s)
               in if kzalloc K blk_info_roundup s = None \<or> kzalloc K jack_size s = None then Bug
                  else let s = s\<lparr>hashtable := replicate (HASH_SIZE s) new_bucket, hashtable_size := jack_size,
                                 block_info_size := blk_info_roundup, metadata_size := jack_size + blk_info_roundup\<rparr>
                       in obind (init_scan K s) (\<lambda>(r, s). Ret (if r \<noteq> 0 then - 1 else 0, s)))"

definition destroy_config :: "'m lkp_kv \<Rightarrow> 'm lkp_kv" where
  "destroy_config s = s\<lparr>blocks := [], hashtable := [], mtd := None, meta_mtd := None\<rparr>"

section \<open>Timers\<close>

text \<open>\<open>hrtimer_start\<close>: 1 when the timer was active; \<open>hrtimer_init\<close> has just made it inactive.\<close>

definition hrtimer_start :: "bool \<Rightarrow> int \<times> bool" where
  "hrtimer_start active = (if active then 1 else 0, True)"

definition init_flush_timer :: "'m lkp_kv \<Rightarrow> int \<times> 'm lkp_kv" where
  "init_flush_timer s = (let s = s\<lparr>f_timer := False\<rparr> in
     case hrtimer_start (f_timer s) of (ret, active) \<Rightarrow> (ret, s\<lparr>f_timer := active\<rparr>))"

definition clear_flush_timer :: "'m lkp_kv \<Rightarrow> 'm lkp_kv" where
  "clear_flush_timer s = s\<lparr>f_timer := False\<rparr>"

definition flush_timer_callback :: "'m heap_kernel \<Rightarrow> 'm lkp_kv \<Rightarrow> 'm lkp_kv outcome" where
  "flush_timer_callback K s =
     (if recent_update s \<noteq> 0 then obind (flush_metadata K False s) (\<lambda>(_, s). Ret s) else Ret s)"

definition init_wear_timer :: "'m lkp_kv \<Rightarrow> int \<times> 'm lkp_kv" where
  "init_wear_timer s = (let s = s\<lparr>w_timer := False\<rparr> in
     case hrtimer_start (w_timer s) of (ret, active) \<Rightarrow> (ret, s\<lparr>w_timer := active\<rparr>))"

definition clear_wear_timer :: "'m lkp_kv \<Rightarrow> 'm lkp_kv" where
  "clear_wear_timer s = s\<lparr>w_timer := False\<rparr>"

definition wear_timer_callback :: "'m heap_kernel \<Rightarrow> 'm lkp_kv \<Rightarrow> 'm lkp_kv outcome" where
  "wear_timer_callback = gc"

text \<open>The globals before the module is loaded: static storage, all zero.\<close>

definition config0 :: "'m \<Rightarrow> 'm \<Rightarrow> 'm lkp_kv" where
  "config0 m mm = \<lparr>mtd = None, mtd_index = 0, nb_blocks = 0, block_size = 0, page_size = 0, pages_per_block = 0,
     blocks = [], format_done = 0, read_only = False, format_lock = 0,
     meta_mtd = None, meta_mtd_index = 0, meta_nb_blocks = 0, meta_block_size = 0, meta_page_size = 0,
     meta_pages_per_block = 0, meta_format_done = 0, meta_read_only = False, meta_format_lock = 0,
     hashtable_size = 0, block_info_size = 0, metadata_size = 0, recent_update = 0,
     hashtable = [], HASH_SIZE = 0, meta_blkordr = replicate MAX_META_BLK 0,
     is_gb = 0, is_flush = 0, one_lock = False, list_lock = False, erase_lock = False,
     flush_cnt = 0, write_cnt = 0, f_timer = False, w_timer = False, flash = m, meta_flash = mm\<rparr>"

end
