(* ===== verification/StoreView.thy ===== *)
theory StoreView
  imports HashTable PageFormat
begin

text \<open>
  A log-structured store of couples, without the code: what a block table, an index and the
  pages of the flash say together.  Every step of the indexed store that touches a couple (invalidate
  an entry, open a block, append a couple, erase a block) is a step of this model, and keeps
  the invariant \<open>view_ok\<close> that ties the three to a map from keys to values.
\<close>

section \<open>The model\<close>

text \<open>A block is free, holds couples behind a header page, or belongs to the metadata.\<close>

datatype kind = Free | Data | Meta

record view =
  v_nb :: nat
  v_q :: nat
  v_ps :: nat
  v_kind :: "nat \<Rightarrow> kind"
  v_off :: "nat \<Rightarrow> int"
  v_inv :: "nat \<Rightarrow> int"
  v_list :: "nat \<Rightarrow> nat list"
  v_ent :: "nat \<Rightarrow> (byte list \<times> int) option"
  v_page :: "nat \<Rightarrow> byte list"

definition v_counts :: "view \<Rightarrow> nat \<Rightarrow> bool" where
  "v_counts v i \<longleftrightarrow> 0 \<le> v_off v i \<and> v_off v i \<le> int (v_q v) \<and> distinct (v_list v i)
     \<and> (case v_kind v i of
          Free \<Rightarrow> v_off v i = 0 \<and> v_inv v i = 0 \<and> v_list v i = []
        | Data \<Rightarrow> v_off v i = 1 + int (length (v_list v i)) + v_inv v i \<and> 0 \<le> v_inv v i
        | Meta \<Rightarrow> v_list v i = [])"

definition v_erased :: "view \<Rightarrow> nat \<Rightarrow> bool" where
  "v_erased v i \<longleftrightarrow> (\<forall>j < v_q v. v_off v i \<le> int j \<longrightarrow> v_page v (i * v_q v + j) = replicate (v_ps v) 255)"

text \<open>Bucket \<open>h\<close> with key \<open>k\<close> and page number \<open>x\<close>: the page holds the couple of \<open>k\<close>.\<close>

definition v_entry :: "nat \<Rightarrow> (byte list \<rightharpoonup> byte list) \<Rightarrow> view \<Rightarrow> nat \<Rightarrow> byte list \<Rightarrow> int \<Rightarrow> bool" where
  "v_entry cap M v h k x \<longleftrightarrow>
     (\<exists>i j val. x = int (i * v_q v + j) \<and> i < v_nb v \<and> 0 < j \<and> j < v_q v \<and> int j < v_off v i
        \<and> v_kind v i = Data \<and> h \<in> set (v_list v i) \<and> M k = Some val \<and> couple_ok (v_ps v) (k, val) \<and> length k < cap
        \<and> holds_couple (v_page v (i * v_q v + j)) (k, val))"

definition v_lists :: "view \<Rightarrow> bool" where
  "v_lists v \<longleftrightarrow> (\<forall>i < v_nb v. \<forall>h \<in> set (v_list v i). \<exists>k j. v_ent v h = Some (k, int (i * v_q v + j)) \<and> j < v_q v)"

definition view_ok :: "nat \<Rightarrow> (byte list \<rightharpoonup> byte list) \<Rightarrow> view \<Rightarrow> bool" where
  "view_ok cap M v \<longleftrightarrow> 1 < v_q v
     \<and> (\<forall>i < v_nb v. v_counts v i \<and> (v_kind v i \<noteq> Meta \<longrightarrow> v_erased v i))
     \<and> (\<forall>h k x. v_ent v h = Some (k, x) \<longrightarrow> v_entry cap M v h k x)
     \<and> (\<forall>k \<in> dom M. \<exists>h x. v_ent v h = Some (k, x))
     \<and> v_lists v"

text \<open>No key is in two buckets; the index guarantees it.\<close>

definition v_keys :: "view \<Rightarrow> bool" where
  "v_keys v \<longleftrightarrow> (\<forall>h h' k x x'. v_ent v h = Some (k, x) \<longrightarrow> v_ent v h' = Some (k, x') \<longrightarrow> h = h')"

lemma view_okD:
  assumes "view_ok cap M v"
  shows "1 < v_q v" "\<And>i. i < v_nb v \<Longrightarrow> v_counts v i" "\<And>i. i < v_nb v \<Longrightarrow> v_kind v i \<noteq> Meta \<Longrightarrow> v_erased v i"
    "\<And>h k x. v_ent v h = Some (k, x) \<Longrightarrow> v_entry cap M v h k x"
    "\<And>k. k \<in> dom M \<Longrightarrow> \<exists>h x. v_ent v h = Some (k, x)" "v_lists v"
  using assms unfolding view_ok_def by blast+

lemma v_lists_block:
  assumes "v_lists v" "h \<in> set (v_list v i')" "i' < v_nb v" "v_ent v h = Some (k, int (i * v_q v + j))" "j < v_q v"
  shows "i' = i"
  using assms unfolding v_lists_def by (metis of_nat_eq_iff option.inject page_inj prod.inject)

lemma v_lists_ent: "v_lists v \<Longrightarrow> i < v_nb v \<Longrightarrow> h \<in> set (v_list v i) \<Longrightarrow> v_ent v h \<noteq> None"
  unfolding v_lists_def by fastforce

section \<open>Invalidating an entry\<close>

definition v_drop :: "nat \<Rightarrow> nat \<Rightarrow> view \<Rightarrow> view" where
  "v_drop h i v = v\<lparr>v_ent := (v_ent v)(h := None), v_inv := (v_inv v)(i := v_inv v i + 1),
     v_list := (v_list v)(i := removeAll h (v_list v i))\<rparr>"

lemma v_drop_ok:
  assumes ok: "view_ok cap M v" and keys: "v_keys v"
    and e: "v_ent v h = Some (k, int (i * v_q v + j))" "j < v_q v" "i < v_nb v" "h \<in> set (v_list v i)" "v_kind v i = Data"
  shows "view_ok cap (M(k := None)) (v_drop h i v)"
proof -
  note D = view_okD [OF ok]
  let ?w = "v_drop h i v"
  have mem: "h' \<in> set (v_list v i') \<and> h' \<noteq> h" if "h' \<in> set (v_list ?w i')" "i' < v_nb v" for h' i'
    using that v_lists_block [OF D(6) _ that(2) e(1,2)] by (cases "i' = i") (auto simp: v_drop_def)
  show ?thesis
    unfolding view_ok_def
  proof (intro conjI allI impI ballI)
    show "1 < v_q ?w" using D(1) by (simp add: v_drop_def)
  next
    fix i' assume i': "i' < v_nb ?w"
    then have c: "v_counts v i'" "v_kind v i' \<noteq> Meta \<longrightarrow> v_erased v i'" using D(2,3) by (auto simp: v_drop_def)
    then show "v_counts ?w i'"
      using length_removeAll_distinct [OF _ e(4)] e(5)
      by (cases "i' = i") (auto simp: v_counts_def v_drop_def distinct_removeAll split: kind.splits)
    show "v_erased ?w i'" if "v_kind ?w i' \<noteq> Meta"
      using c(2) that by (auto simp: v_erased_def v_drop_def)
  next
    fix h' k' x assume "v_ent ?w h' = Some (k', x)"
    then have h': "h' \<noteq> h" "v_ent v h' = Some (k', x)" by (auto simp: v_drop_def split: if_splits)
    then have "k' \<noteq> k" using keys e(1) unfolding v_keys_def by blast
    with D(4) [OF h'(2)] h'(1) show "v_entry cap (M(k := None)) ?w h' k' x"
      unfolding v_entry_def v_drop_def by fastforce
  next
    fix k' assume "k' \<in> dom (M(k := None))"
    then have "k' \<in> dom M" "k' \<noteq> k" by (auto split: if_splits)
    with D(5) [of k'] e(1) show "\<exists>h x. v_ent ?w h = Some (k', x)"
      unfolding v_drop_def by (simp, metis option.inject prod.inject)
  next
    show "v_lists ?w"
      unfolding v_lists_def
    proof (intro allI impI ballI)
      fix i' h' assume a: "i' < v_nb ?w" "h' \<in> set (v_list ?w i')"
      then have "i' < v_nb v" by (simp add: v_drop_def)
      with mem [OF a(2)] D(6) show "\<exists>k j. v_ent ?w h' = Some (k, int (i' * v_q ?w + j)) \<and> j < v_q ?w"
        unfolding v_lists_def by (simp add: v_drop_def)
    qed
  qed
qed

section \<open>Opening a block\<close>

definition v_open :: "(nat \<Rightarrow> byte list) \<Rightarrow> nat \<Rightarrow> view \<Rightarrow> view" where
  "v_open pg i v = v\<lparr>v_kind := (v_kind v)(i := Data), v_off := (v_off v)(i := 1), v_page := pg\<rparr>"

lemma v_open_ok:
  assumes ok: "view_ok cap M v" and i: "i < v_nb v" "v_kind v i = Free"
    and pg: "\<And>p. p \<noteq> i * v_q v \<Longrightarrow> pg p = v_page v p"
  shows "view_ok cap M (v_open pg i v)"
proof -
  note D = view_okD [OF ok]
  let ?w = "v_open pg i v"
  have z: "v_off v i = 0" "v_inv v i = 0" "v_list v i = []" using D(2) [OF i(1)] i(2) by (auto simp: v_counts_def)
  have hdr: "i' * v_q v + j \<noteq> i * v_q v" if "0 < j \<or> i' \<noteq> i" "j < v_q v" for i' j
    using that page_inj [OF that(2), of 0 i' i] by auto
  show ?thesis
    unfolding view_ok_def
  proof (intro conjI allI impI ballI)
    show "1 < v_q ?w" using D(1) by (simp add: v_open_def)
  next
    fix i' assume i': "i' < v_nb ?w"
    then have c: "v_counts v i'" "v_kind v i' \<noteq> Meta \<longrightarrow> v_erased v i'" using D(2,3) by (auto simp: v_open_def)
    then show "v_counts ?w i'"
      using z D(1) by (cases "i' = i") (auto simp: v_counts_def v_open_def split: kind.splits)
    show "v_erased ?w i'" if "v_kind ?w i' \<noteq> Meta"
      unfolding v_erased_def
    proof (intro allI impI)
      fix j assume j: "j < v_q ?w" "v_off ?w i' \<le> int j"
      have nm: "v_kind v i' \<noteq> Meta" using that i(2) by (auto simp: v_open_def split: if_splits)
      have "0 < j \<or> i' \<noteq> i" using j(2) by (auto simp: v_open_def)
      with hdr [of j i'] j(1) pg have "v_page ?w (i' * v_q v + j) = v_page v (i' * v_q v + j)" by (simp add: v_open_def)
      with c(2) nm j z show "v_page ?w (i' * v_q ?w + j) = replicate (v_ps ?w) 255"
        by (auto simp: v_erased_def v_open_def split: if_splits)
    qed
  next
    fix h k x assume "v_ent ?w h = Some (k, x)"
    then have "v_entry cap M v h k x" using D(4) by (simp add: v_open_def)
    then obtain i' j val where o: "x = int (i' * v_q v + j)" "i' < v_nb v" "0 < j" "j < v_q v" "int j < v_off v i'"
        "v_kind v i' = Data" "h \<in> set (v_list v i')" "M k = Some val" "couple_ok (v_ps v) (k, val)" "length k < cap"
        "holds_couple (v_page v (i' * v_q v + j)) (k, val)"
      by (auto simp: v_entry_def)
    have "i' \<noteq> i" using o(6) i(2) by auto
    with o hdr [of j i'] pg show "v_entry cap M ?w h k x"
      unfolding v_entry_def v_open_def by (intro exI [of _ i'] exI [of _ j] exI [of _ val]) simp
  next
    fix k assume "k \<in> dom M"
    with D(5) [of k] show "\<exists>h x. v_ent ?w h = Some (k, x)" by (simp add: v_open_def)
  next
    show "v_lists ?w" using D(6) by (simp add: v_lists_def v_open_def)
  qed
qed

section \<open>Appending a couple\<close>

definition v_append :: "(nat \<Rightarrow> byte list) \<Rightarrow> nat \<Rightarrow> nat \<Rightarrow> byte list \<Rightarrow> nat \<Rightarrow> view \<Rightarrow> view" where
  "v_append pg i h k j v = v\<lparr>v_off := (v_off v)(i := v_off v i + 1), v_list := (v_list v)(i := h # v_list v i),
     v_ent := (v_ent v)(h \<mapsto> (k, int (i * v_q v + j))), v_page := pg\<rparr>"

lemma v_append_ok:
  assumes ok: "view_ok cap M v" and i: "i < v_nb v" "v_kind v i = Data"
    and j: "v_off v i = int j" "j < v_q v"
    and k: "M k = None" "couple_ok (v_ps v) (k, val)" "length k < cap" and h: "v_ent v h = None"
    and pg: "\<And>p. pg p = (if p = i * v_q v + j then buf else v_page v p)" and buf: "holds_couple buf (k, val)"
  shows "view_ok cap (M(k \<mapsto> val)) (v_append pg i h k j v)"
proof -
  note D = view_okD [OF ok]
  let ?w = "v_append pg i h k j v" and ?p = "i * v_q v + j"
  have j0: "0 < j" using D(2) [OF i(1)] i(2) j(1) by (auto simp: v_counts_def)
  have new: "h \<notin> set (v_list v i')" if "i' < v_nb v" for i' using that v_lists_ent [OF D(6)] h by blast
  have other: "i' * v_q v + j' \<noteq> ?p" if "j' < v_q v" "j' \<noteq> j \<or> i' \<noteq> i" for i' j'
    using page_inj [OF that(1) j(2), of i' i] that(2) by auto
  show ?thesis
    unfolding view_ok_def
  proof (intro conjI allI impI ballI)
    show "1 < v_q ?w" using D(1) by (simp add: v_append_def)
  next
    fix i' assume i': "i' < v_nb ?w"
    then have c: "v_counts v i'" "v_kind v i' \<noteq> Meta \<longrightarrow> v_erased v i'" using D(2,3) by (auto simp: v_append_def)
    then show "v_counts ?w i'"
      using j i new by (cases "i' = i") (auto simp: v_counts_def v_append_def split: kind.splits)
    show "v_erased ?w i'" if "v_kind ?w i' \<noteq> Meta"
      using that c(2) j other unfolding v_erased_def by (auto simp: v_append_def pg split: if_splits)
  next
    fix h' k' x assume e: "v_ent ?w h' = Some (k', x)"
    show "v_entry cap (M(k \<mapsto> val)) ?w h' k' x"
    proof (cases "h' = h")
      case True
      then have "k' = k" "x = int ?p" using e by (auto simp: v_append_def)
      with True i j j0 k pg buf show ?thesis
        unfolding v_entry_def by (intro exI [of _ i] exI [of _ j] exI [of _ val]) (simp add: v_append_def)
    next
      case False
      then have "v_entry cap M v h' k' x" using e D(4) by (simp add: v_append_def)
      then obtain i' j' val' where o: "x = int (i' * v_q v + j')" "i' < v_nb v" "0 < j'" "j' < v_q v" "int j' < v_off v i'"
          "v_kind v i' = Data" "h' \<in> set (v_list v i')" "M k' = Some val'" "couple_ok (v_ps v) (k', val')" "length k' < cap"
          "holds_couple (v_page v (i' * v_q v + j')) (k', val')"
        by (auto simp: v_entry_def)
      have "k' \<noteq> k" using o(8) k(1) by auto
      moreover have "i' * v_q v + j' \<noteq> ?p" by (rule other) (use o(4,5) j in auto)
      ultimately show ?thesis
        unfolding v_entry_def using o pg
        by (intro exI [of _ i'] exI [of _ j'] exI [of _ val']) (auto simp: v_append_def)
    qed
  next
    fix k' assume "k' \<in> dom (M(k \<mapsto> val))"
    then consider "k' = k" | h' x where "v_ent v h' = Some (k', x)" "h' \<noteq> h"
      using D(5) [of k'] h by (auto split: if_splits) fastforce
    then show "\<exists>h x. v_ent ?w h = Some (k', x)" by cases (auto simp: v_append_def)
  next
    show "v_lists ?w"
      unfolding v_lists_def
    proof (intro allI impI ballI)
      fix i' h' assume a: "i' < v_nb ?w" "h' \<in> set (v_list ?w i')"
      show "\<exists>k j. v_ent ?w h' = Some (k, int (i' * v_q ?w + j)) \<and> j < v_q ?w"
      proof (cases "h' = h")
        case True
        with a new [of i'] have "i' = i" by (auto simp: v_append_def split: if_splits)
        with True j(2) show ?thesis by (auto simp: v_append_def)
      next
        case False
        with a have "i' < v_nb v" "h' \<in> set (v_list v i')" by (auto simp: v_append_def split: if_splits)
        with D(6) False show ?thesis by (auto simp: v_lists_def v_append_def)
      qed
    qed
  qed
qed

section \<open>Erasing a block without couples\<close>

definition v_erase :: "(nat \<Rightarrow> byte list) \<Rightarrow> nat \<Rightarrow> view \<Rightarrow> view" where
  "v_erase pg i v = v\<lparr>v_kind := (v_kind v)(i := Free), v_off := (v_off v)(i := 0), v_inv := (v_inv v)(i := 0),
     v_list := (v_list v)(i := []), v_page := pg\<rparr>"

lemma v_erase_ok:
  assumes ok: "view_ok cap M v" and i: "i < v_nb v" "v_list v i = []"
    and pg: "\<And>p. pg p = (if i * v_q v \<le> p \<and> p < (i + 1) * v_q v then replicate (v_ps v) 255 else v_page v p)"
  shows "view_ok cap M (v_erase pg i v)"
proof -
  note D = view_okD [OF ok]
  let ?w = "v_erase pg i v"
  have same: "pg (i' * v_q v + j) = (if i' = i then replicate (v_ps v) 255 else v_page v (i' * v_q v + j))" if "j < v_q v" for i' j
  proof -
    have "(i * v_q v \<le> i' * v_q v + j \<and> i' * v_q v + j < (i + 1) * v_q v) \<longleftrightarrow> (i' * v_q v + j) div v_q v = i"
      using D(1) div_times_less_eq_dividend [of "i' * v_q v + j" "v_q v"] dividend_less_div_times [of "v_q v" "i' * v_q v + j"]
        div_nat_eqI [of "v_q v" i "i' * v_q v + j"] by (auto simp: mult.commute)
    then show ?thesis using pg [of "i' * v_q v + j"] div_mult_lt [OF that, of i'] by simp
  qed
  show ?thesis
    unfolding view_ok_def
  proof (intro conjI allI impI ballI)
    show "1 < v_q ?w" using D(1) by (simp add: v_erase_def)
  next
    fix i' assume i': "i' < v_nb ?w"
    then have c: "v_counts v i'" "v_kind v i' \<noteq> Meta \<longrightarrow> v_erased v i'" using D(2,3) by (auto simp: v_erase_def)
    then show "v_counts ?w i'" by (cases "i' = i") (auto simp: v_counts_def v_erase_def split: kind.splits)
    show "v_erased ?w i'" if "v_kind ?w i' \<noteq> Meta"
      using that c(2) same unfolding v_erased_def by (auto simp: v_erase_def split: if_splits)
  next
    fix h k x assume "v_ent ?w h = Some (k, x)"
    then have "v_entry cap M v h k x" using D(4) by (simp add: v_erase_def)
    then obtain i' j val where o: "x = int (i' * v_q v + j)" "i' < v_nb v" "0 < j" "j < v_q v" "int j < v_off v i'"
        "v_kind v i' = Data" "h \<in> set (v_list v i')" "M k = Some val" "couple_ok (v_ps v) (k, val)" "length k < cap"
        "holds_couple (v_page v (i' * v_q v + j)) (k, val)"
      by (auto simp: v_entry_def)
    have "i' \<noteq> i" using o(7) i(2) by auto
    with o same [OF o(4), of i'] show "v_entry cap M ?w h k x"
      unfolding v_entry_def v_erase_def by (intro exI [of _ i'] exI [of _ j] exI [of _ val]) simp
  next
    fix k assume "k \<in> dom M"
    with D(5) [of k] show "\<exists>h x. v_ent ?w h = Some (k, x)" by (simp add: v_erase_def)
  next
    show "v_lists ?w" using D(6) by (simp add: v_lists_def v_erase_def)
  qed
qed

section \<open>An empty store\<close>

lemma view_ok_empty:
  assumes "1 < v_q v" "\<And>i. i < v_nb v \<Longrightarrow> v_kind v i \<noteq> Data \<and> v_counts v i"
    and "\<And>i. i < v_nb v \<Longrightarrow> v_kind v i \<noteq> Meta \<Longrightarrow> v_erased v i" and "v_ent v = Map.empty"
  shows "view_ok cap Map.empty v"
proof -
  have "v_list v i = []" if "i < v_nb v" for i
    using assms(2) [OF that] by (cases "v_kind v i") (auto simp: v_counts_def)
  then show ?thesis using assms by (auto simp: view_ok_def v_lists_def)
qed

section \<open>Steps that leave the couples where they are\<close>

text \<open>
  A second view with the same index and, on the data blocks, the same counters, pages and (in
  any order) lists holds the same map, whatever happened to the free and the metadata blocks.
\<close>

definition v_similar :: "view \<Rightarrow> view \<Rightarrow> bool" where
  "v_similar v w \<longleftrightarrow> v_nb w = v_nb v \<and> v_q w = v_q v \<and> v_ps w = v_ps v \<and> v_ent w = v_ent v
     \<and> (\<forall>i < v_nb v.
         if v_kind v i = Data
         then v_kind w i = Data \<and> v_off w i = v_off v i \<and> v_inv w i = v_inv v i
            \<and> distinct (v_list w i) \<and> set (v_list w i) = set (v_list v i)
            \<and> (\<forall>j < v_q v. v_page w (i * v_q v + j) = v_page v (i * v_q v + j))
         else v_kind w i \<noteq> Data \<and> v_counts w i \<and> (v_kind w i = Free \<longrightarrow> v_erased w i))"

lemma v_similarD:
  assumes "v_similar v w"
  shows "v_nb w = v_nb v" "v_q w = v_q v" "v_ps w = v_ps v" "v_ent w = v_ent v"
    "\<And>i. i < v_nb v \<Longrightarrow> v_kind v i = Data \<Longrightarrow> v_kind w i = Data \<and> v_off w i = v_off v i \<and> v_inv w i = v_inv v i
        \<and> distinct (v_list w i) \<and> set (v_list w i) = set (v_list v i)
        \<and> (\<forall>j < v_q v. v_page w (i * v_q v + j) = v_page v (i * v_q v + j))"
    "\<And>i. i < v_nb v \<Longrightarrow> v_kind v i \<noteq> Data \<Longrightarrow> v_kind w i \<noteq> Data \<and> v_counts w i \<and> (v_kind w i = Free \<longrightarrow> v_erased w i)"
  using assms unfolding v_similar_def by (auto split: if_splits)

lemma v_similar_ok:
  assumes ok: "view_ok cap M v" and sim: "v_similar v w"
  shows "view_ok cap M w"
proof -
  note D = view_okD [OF ok] and S = v_similarD [OF sim]
  show ?thesis
    unfolding view_ok_def
  proof (intro conjI allI impI ballI)
    show "1 < v_q w" using D(1) S by simp
  next
    fix i assume "i < v_nb w"
    then have i: "i < v_nb v" using S by simp
    show "v_counts w i"
    proof (cases "v_kind v i = Data")
      case True
      with S(5) [OF i True] D(2) [OF i] distinct_card [of "v_list w i"] distinct_card [of "v_list v i"] S(2)
      show ?thesis by (auto simp: v_counts_def)
    qed (use S(6) [OF i] in blast)
    show "v_erased w i" if m: "v_kind w i \<noteq> Meta"
    proof (cases "v_kind v i = Data")
      case True
      with S(5) [OF i True] D(3) [OF i] S(2,3) show ?thesis by (auto simp: v_erased_def)
    next
      case False
      with S(6) [OF i] m show ?thesis by (cases "v_kind w i") auto
    qed
  next
    fix h k x assume "v_ent w h = Some (k, x)"
    then have "v_entry cap M v h k x" using D(4) S(4) by simp
    then obtain i j val where o: "x = int (i * v_q v + j)" "i < v_nb v" "0 < j" "j < v_q v" "int j < v_off v i"
        "v_kind v i = Data" "h \<in> set (v_list v i)" "M k = Some val" "couple_ok (v_ps v) (k, val)" "length k < cap"
        "holds_couple (v_page v (i * v_q v + j)) (k, val)"
      by (auto simp: v_entry_def)
    with S(5) [OF o(2,6)] S(1-3) show "v_entry cap M w h k x"
      unfolding v_entry_def by (intro exI [of _ i] exI [of _ j] exI [of _ val]) simp
  next
    fix k assume "k \<in> dom M"
    with D(5) [of k] S(4) show "\<exists>h x. v_ent w h = Some (k, x)" by simp
  next
    show "v_lists w"
      unfolding v_lists_def
    proof (intro allI impI ballI)
      fix i h assume a: "i < v_nb w" "h \<in> set (v_list w i)"
      then have i: "i < v_nb v" using S by simp
      have "v_kind v i = Data"
        using S(6) [OF i] a(2) by (cases "v_kind w i"; cases "v_list w i") (auto simp: v_counts_def)
      with S(5) [OF i] a(2) D(6) i show "\<exists>k j. v_ent w h = Some (k, int (i * v_q w + j)) \<and> j < v_q w"
        unfolding v_lists_def S(2,4) by auto
    qed
  qed
qed

end
