(* ===== verification/ParallelStore.thy ===== *)
theory ParallelStore
  imports ParallelLoad StoreView
begin

text \<open>
  What the third prototype stores.  \<open>view_of\<close> reads the block table, the hash table and the flash
  as a state of the log-structured store of \<open>StoreView\<close>; \<open>par_rep\<close> says that it holds a map.
  Each piece of the operations is shown to be a step of that store.  The proofs assume the
  locale \<open>reliable_flash\<close>.
\<close>

section \<open>Representation\<close>

definition is_meta :: "'m lkp_kv \<Rightarrow> nat \<Rightarrow> bool" where
  "is_meta s i \<longleftrightarrow> int i \<in> set (take (nb_meta 1 s) (meta_blkordr s))"

definition block_kind :: "'m lkp_kv \<Rightarrow> nat \<Rightarrow> kind" where
  "block_kind s i = (if is_meta s i then Meta else if state (blocks s ! i) = BLK_FREE then Free else Data)"

definition view_of :: "('m \<Rightarrow> nat \<Rightarrow> byte) \<Rightarrow> 'm lkp_kv \<Rightarrow> view" where
  "view_of byte_at s = \<lparr>v_nb = nb_blocks s, v_q = pages_per_block s, v_ps = page_size s, v_kind = block_kind s,
     v_off = (\<lambda>i. current_page_offset (blocks s ! i)), v_inv = (\<lambda>i. nb_invalid (blocks s ! i)),
     v_list = (\<lambda>i. valid_list (blocks s ! i)), v_ent = entry (hashtable s),
     v_page = flash_page byte_at (page_size s) (flash s)\<rparr>"

definition par_geometry :: "'m lkp_kv \<Rightarrow> nat \<Rightarrow> bool" where
  "par_geometry s fsize \<longleftrightarrow> 0 < nb_blocks s \<and> 1 < pages_per_block s \<and> 8 \<le> page_size s \<and> page_size s < 2147483648
     \<and> meta_page_size s = page_size s \<and> block_size s = pages_per_block s * page_size s
     \<and> HASH_SIZE s = (pages_per_block s - 1) * nb_blocks s
     \<and> fsize = nb_blocks s * pages_per_block s * page_size s \<and> fsize < 2 ^ 64
     \<and> nb_meta 1 s \<le> length (meta_blkordr s)"

text \<open>A block is free, used or holds metadata; wear counters have not reached their limit.\<close>

definition block_states :: "'m lkp_kv \<Rightarrow> bool" where
  "block_states s \<longleftrightarrow> (\<forall>b \<in> set (blocks s). (state b = BLK_FREE \<or> state b = BLK_USED) \<and> worn b < 2147483647)"

definition par_rep :: "('m \<Rightarrow> nat \<Rightarrow> byte) \<Rightarrow> ('m \<Rightarrow> bool) \<Rightarrow> nat \<Rightarrow> (byte list \<rightharpoonup> byte list) \<Rightarrow> 'm lkp_kv \<Rightarrow> bool" where
  "par_rep byte_at good fsize M s \<longleftrightarrow>
     par_geometry s fsize \<and> good (flash s) \<and> length (blocks s) = nb_blocks s \<and> block_states s
     \<and> index_ok (HASH_SIZE s) (hashtable s) \<and> view_ok PAR_KEY_MAX M (view_of byte_at s)
     \<and> (read_only s \<longleftrightarrow> is_read_only s) \<and> (meta_read_only s \<longrightarrow> read_only s)"

text \<open>No lock is held.\<close>

definition unlocked :: "'m lkp_kv \<Rightarrow> bool" where
  "unlocked s \<longleftrightarrow> \<not> erase_lock s \<and> \<not> list_lock s \<and> \<not> one_lock s"

definition par_inv :: "('m \<Rightarrow> nat \<Rightarrow> byte) \<Rightarrow> ('m \<Rightarrow> bool) \<Rightarrow> nat \<Rightarrow> (byte list \<rightharpoonup> byte list) \<Rightarrow> 'm lkp_kv \<Rightarrow> bool" where
  "par_inv byte_at good fsize M s \<longleftrightarrow> par_rep byte_at good fsize M s \<and> unlocked s"

text \<open>The fields the operations on couples leave alone.\<close>

definition par_same :: "'m lkp_kv \<Rightarrow> 'm lkp_kv \<Rightarrow> bool" where
  "par_same s t \<longleftrightarrow> nb_blocks t = nb_blocks s \<and> pages_per_block t = pages_per_block s \<and> page_size t = page_size s
     \<and> meta_page_size t = meta_page_size s \<and> block_size t = block_size s \<and> HASH_SIZE t = HASH_SIZE s
     \<and> metadata_size t = metadata_size s \<and> hashtable_size t = hashtable_size s \<and> block_info_size t = block_info_size s
     \<and> meta_blkordr t = meta_blkordr s \<and> meta_read_only t = meta_read_only s
     \<and> is_gb t = is_gb s \<and> is_flush t = is_flush s \<and> write_cnt t = write_cnt s \<and> flush_cnt t = flush_cnt s
     \<and> erase_lock t = erase_lock s \<and> list_lock t = list_lock s \<and> one_lock t = one_lock s"

lemma par_same_refl [simp]: "par_same s s" by (simp add: par_same_def)

lemma par_same_trans: "par_same s t \<Longrightarrow> par_same t u \<Longrightarrow> par_same s u" by (simp add: par_same_def)

section \<open>Locks\<close>

named_theorems lock_simps \<open>the locks do not take part in the representation\<close>

lemma nb_meta_locks [lock_simps]:
  "nb_meta x (s\<lparr>erase_lock := b\<rparr>) = nb_meta x s" "nb_meta x (s\<lparr>list_lock := b\<rparr>) = nb_meta x s"
  "nb_meta x (s\<lparr>one_lock := b\<rparr>) = nb_meta x s"
  by (simp_all add: nb_meta_def)

lemma is_read_only_locks [lock_simps]:
  "is_read_only (s\<lparr>erase_lock := b\<rparr>) = is_read_only s" "is_read_only (s\<lparr>list_lock := b\<rparr>) = is_read_only s"
  "is_read_only (s\<lparr>one_lock := b\<rparr>) = is_read_only s"
  by (simp_all add: is_read_only_def nb_meta_def)

lemma view_of_locks [lock_simps]:
  "view_of B (s\<lparr>erase_lock := b\<rparr>) = view_of B s" "view_of B (s\<lparr>list_lock := b\<rparr>) = view_of B s"
  "view_of B (s\<lparr>one_lock := b\<rparr>) = view_of B s"
  by (simp_all add: view_of_def fun_eq_iff block_kind_def is_meta_def nb_meta_def)

lemma par_geometry_locks [lock_simps]:
  "par_geometry (s\<lparr>erase_lock := b\<rparr>) fsize = par_geometry s fsize" "par_geometry (s\<lparr>list_lock := b\<rparr>) fsize = par_geometry s fsize"
  "par_geometry (s\<lparr>one_lock := b\<rparr>) fsize = par_geometry s fsize"
  by (simp_all add: par_geometry_def nb_meta_def)

lemma par_rep_locks [lock_simps]:
  "par_rep B G f M (s\<lparr>erase_lock := b\<rparr>) = par_rep B G f M s" "par_rep B G f M (s\<lparr>list_lock := b\<rparr>) = par_rep B G f M s"
  "par_rep B G f M (s\<lparr>one_lock := b\<rparr>) = par_rep B G f M s"
  by (simp_all add: par_rep_def lock_simps block_states_def)

text \<open>Counters and flags.\<close>

lemma view_of_flags:
  "view_of B (s\<lparr>recent_update := x\<rparr>) = view_of B s" "view_of B (s\<lparr>is_gb := x\<rparr>) = view_of B s"
  "view_of B (s\<lparr>write_cnt := n\<rparr>) = view_of B s" "view_of B (s\<lparr>is_flush := x\<rparr>) = view_of B s"
  "view_of B (s\<lparr>flush_cnt := n\<rparr>) = view_of B s"
  "view_of B (s\<lparr>f_timer := b\<rparr>) = view_of B s" "view_of B (s\<lparr>w_timer := b\<rparr>) = view_of B s"
  by (simp_all add: view_of_def fun_eq_iff block_kind_def is_meta_def nb_meta_def)

lemma par_rep_flags [lock_simps]:
  "par_rep B G f M (s\<lparr>recent_update := x\<rparr>) = par_rep B G f M s" "par_rep B G f M (s\<lparr>is_gb := x\<rparr>) = par_rep B G f M s"
  "par_rep B G f M (s\<lparr>write_cnt := n\<rparr>) = par_rep B G f M s" "par_rep B G f M (s\<lparr>is_flush := x\<rparr>) = par_rep B G f M s"
  "par_rep B G f M (s\<lparr>flush_cnt := n\<rparr>) = par_rep B G f M s"
  "par_rep B G f M (s\<lparr>f_timer := b\<rparr>) = par_rep B G f M s" "par_rep B G f M (s\<lparr>w_timer := b\<rparr>) = par_rep B G f M s"
  by (simp_all add: par_rep_def par_geometry_def nb_meta_def block_states_def is_read_only_def view_of_flags)

lemma list_lock_off: "\<not> list_lock s \<Longrightarrow> s\<lparr>list_lock := False\<rparr> = s" by (cases s) simp

lemma erase_lock_off: "\<not> erase_lock s \<Longrightarrow> s\<lparr>erase_lock := False\<rparr> = s" by (cases s) simp

lemma one_lock_off: "\<not> one_lock s \<Longrightarrow> s\<lparr>one_lock := False\<rparr> = s" by (cases s) simp

section \<open>Facts of the representation\<close>

lemma view_of_simps [simp]:
  "v_nb (view_of B s) = nb_blocks s" "v_q (view_of B s) = pages_per_block s" "v_ps (view_of B s) = page_size s"
  "v_kind (view_of B s) i = block_kind s i" "v_off (view_of B s) i = current_page_offset (blocks s ! i)"
  "v_inv (view_of B s) i = nb_invalid (blocks s ! i)" "v_list (view_of B s) i = valid_list (blocks s ! i)"
  "v_ent (view_of B s) = entry (hashtable s)" "v_page (view_of B s) p = flash_page B (page_size s) (flash s) p"
  by (simp_all add: view_of_def)

lemma par_repD:
  assumes "par_rep byte_at good fsize M s"
  shows "par_geometry s fsize" "good (flash s)" "length (blocks s) = nb_blocks s" "block_states s"
    "index_ok (HASH_SIZE s) (hashtable s)" "view_ok PAR_KEY_MAX M (view_of byte_at s)"
    "read_only s \<longleftrightarrow> is_read_only s" "meta_read_only s \<Longrightarrow> read_only s"
  using assms unfolding par_rep_def by blast+

lemma par_geometryD:
  assumes "par_geometry s fsize"
  shows "0 < nb_blocks s" "1 < pages_per_block s" "8 \<le> page_size s" "page_size s < 2147483648" "meta_page_size s = page_size s"
    "block_size s = pages_per_block s * page_size s" "HASH_SIZE s = (pages_per_block s - 1) * nb_blocks s"
    "fsize = nb_blocks s * pages_per_block s * page_size s" "nb_blocks s * pages_per_block s * page_size s < 2 ^ 64"
    "nb_meta 1 s \<le> length (meta_blkordr s)"
  using assms by (simp_all add: par_geometry_def)

lemma par_geometry_page:
  assumes g: "par_geometry s fsize" and p: "i < nb_blocks s" "j < pages_per_block s"
  shows "page_addr (int (i * pages_per_block s + j)) (page_size s) = (i * pages_per_block s + j) * page_size s"
    "(i * pages_per_block s + j) * page_size s + page_size s \<le> fsize"
proof -
  let ?p = "i * pages_per_block s + j"
  have "Suc ?p * page_size s \<le> nb_blocks s * pages_per_block s * page_size s"
    using page_lt [OF p] by (intro mult_le_mono1) simp
  then have le: "?p * page_size s + page_size s \<le> nb_blocks s * pages_per_block s * page_size s" by simp
  then show "?p * page_size s + page_size s \<le> fsize" by (simp add: par_geometryD(8) [OF g])
  show "page_addr (int ?p) (page_size s) = ?p * page_size s"
    by (rule page_addr_eq) (use le par_geometryD(3,9) [OF g] in linarith)
qed

lemma par_keys:
  assumes "par_rep byte_at good fsize M s"
  shows "v_keys (view_of byte_at s)"
  using ht.entry_unique [OF par_repD(5) [OF assms]] unfolding v_keys_def view_of_simps by blast

lemma par_search_map:
  assumes inv: "par_rep byte_at good fsize M s"
  shows "(case M k of
      Some v \<Rightarrow> \<exists>h x. par_hash_search (HASH_SIZE s) (hashtable s) k = Ret (int h) \<and> entry (hashtable s) h = Some (k, x)
    | None \<Rightarrow> (\<exists>r. par_hash_search (HASH_SIZE s) (hashtable s) k = Ret r \<and> r < 0)
              \<and> (\<forall>h x. entry (hashtable s) h \<noteq> Some (k, x)))"
proof (cases "M k")
  case None
  have "entry (hashtable s) h \<noteq> Some (k, x)" for h x
    using view_okD(4) [OF par_repD(6) [OF inv], of h k x] None by (auto simp: v_entry_def)
  with ht.search_absent [OF par_repD(5) [OF inv]] None show ?thesis by (auto simp: par_search_eq)
next
  case (Some v)
  with view_okD(5) [OF par_repD(6) [OF inv], of k] obtain h x where "entry (hashtable s) h = Some (k, x)" by auto
  with ht.search_present [OF par_repD(5) [OF inv]] Some show ?thesis by (auto simp: par_search_eq)
qed

text \<open>What an entry says of its block and page.\<close>

lemma par_entryD:
  assumes inv: "par_rep byte_at good fsize M s" and e: "entry (hashtable s) h = Some (k, x)"
  obtains i j v where "x = int (i * pages_per_block s + j)" "i < nb_blocks s" "0 < j" "j < pages_per_block s"
    "state (blocks s ! i) = BLK_USED" "block_kind s i = Data" "h \<in> set (valid_list (blocks s ! i))" "M k = Some v"
    "couple_ok (page_size s) (k, v)" "length k < PAR_KEY_MAX"
    "holds_couple (flash_page byte_at (page_size s) (flash s) (i * pages_per_block s + j)) (k, v)"
    "h < length (hashtable s)" "index (hashtable s ! h) = x" "p_state (hashtable s ! h) \<noteq> PG_FREE"
    "c_div x (pages_per_block s) = int i" "key (hashtable s ! h) = k"
proof -
  have "v_entry PAR_KEY_MAX M (view_of byte_at s) h k x"
    using view_okD(4) [OF par_repD(6) [OF inv]] e by simp
  then obtain i j v where o: "x = int (i * pages_per_block s + j)" "i < nb_blocks s" "0 < j" "j < pages_per_block s"
    "block_kind s i = Data" "h \<in> set (valid_list (blocks s ! i))" "M k = Some v"
    "couple_ok (page_size s) (k, v)" "length k < PAR_KEY_MAX"
    "holds_couple (flash_page byte_at (page_size s) (flash s) (i * pages_per_block s + j)) (k, v)"
    unfolding v_entry_def view_of_simps by blast
  have "blocks s ! i \<in> set (blocks s)" using o(2) par_repD(3) [OF inv] by simp
  then have "state (blocks s ! i) = BLK_USED"
    using o(5) par_repD(4) [OF inv] by (auto simp: block_kind_def block_states_def split: if_splits)
  moreover have "c_div x (pages_per_block s) = int i" using o(4) by (simp only: o(1) c_div_int div_mult_lt)
  moreover have "h < length (hashtable s)" "index (hashtable s ! h) = x" "p_state (hashtable s ! h) \<noteq> PG_FREE" "key (hashtable s ! h) = k"
    using e by (auto simp: entry_def split: if_splits)
  ultimately show ?thesis using that o by blast
qed

section \<open>Steps of the store\<close>

text \<open>Every step replaces one block, the hash table, the flash contents and the read-only flag.\<close>

definition par_upd :: "nat \<Rightarrow> blk_info \<Rightarrow> bucket list \<Rightarrow> 'm \<Rightarrow> bool \<Rightarrow> 'm lkp_kv \<Rightarrow> 'm lkp_kv" where
  "par_upd i b ht m ro s = s\<lparr>flash := m, blocks := (blocks s)[i := b], hashtable := ht, read_only := ro\<rparr>"

lemma par_upd_simps [simp]:
  "nb_blocks (par_upd i b ht m ro s) = nb_blocks s" "pages_per_block (par_upd i b ht m ro s) = pages_per_block s"
  "page_size (par_upd i b ht m ro s) = page_size s" "HASH_SIZE (par_upd i b ht m ro s) = HASH_SIZE s"
  "flash (par_upd i b ht m ro s) = m" "hashtable (par_upd i b ht m ro s) = ht" "read_only (par_upd i b ht m ro s) = ro"
  "blocks (par_upd i b ht m ro s) = (blocks s)[i := b]" "meta_blkordr (par_upd i b ht m ro s) = meta_blkordr s"
  "nb_meta x (par_upd i b ht m ro s) = nb_meta x s" "meta_read_only (par_upd i b ht m ro s) = meta_read_only s"
  "par_geometry (par_upd i b ht m ro s) fsize = par_geometry s fsize" "is_meta (par_upd i b ht m ro s) = is_meta s"
  "par_same s (par_upd i b ht m ro s)"
  "erase_lock (par_upd i b ht m ro s) = erase_lock s" "list_lock (par_upd i b ht m ro s) = list_lock s"
  "one_lock (par_upd i b ht m ro s) = one_lock s" "write_cnt (par_upd i b ht m ro s) = write_cnt s" "metadata_size (par_upd i b ht m ro s) = metadata_size s"
  "meta_page_size (par_upd i b ht m ro s) = meta_page_size s" "is_gb (par_upd i b ht m ro s) = is_gb s"
  by (simp_all add: par_upd_def nb_meta_def par_geometry_def is_meta_def [abs_def] par_same_def)

lemma view_of_upd:
  assumes "i < length (blocks s)"
  shows "view_of B (par_upd i b ht m ro s) = (view_of B s)
    \<lparr>v_kind := (block_kind s)(i := if is_meta s i then Meta else if state b = BLK_FREE then Free else Data),
      v_off := (v_off (view_of B s))(i := current_page_offset b), v_inv := (v_inv (view_of B s))(i := nb_invalid b),
      v_list := (v_list (view_of B s))(i := valid_list b), v_ent := entry ht, v_page := flash_page B (page_size s) m\<rparr>"
  using assms by (auto simp: view_of_def nth_update_fun block_kind_def fun_eq_iff nth_list_update)

lemma par_rep_upd:
  assumes inv: "par_rep B G f M s" and i: "i < nb_blocks s" and "G m" "state b = BLK_FREE \<or> state b = BLK_USED" "worn b < 2147483647"
    and "index_ok (HASH_SIZE s) ht" "view_ok PAR_KEY_MAX M' (view_of B (par_upd i b ht m ro s))"
    and "ro \<longleftrightarrow> is_read_only (par_upd i b ht m ro s)" "meta_read_only s \<longrightarrow> ro"
  shows "par_rep B G f M' (par_upd i b ht m ro s)"
proof -
  have "block_states (par_upd i b ht m ro s)"
    using par_repD(4) [OF inv] assms(4,5) set_update_subset_insert [of "blocks s" i b] by (auto simp: block_states_def)
  then show ?thesis using assms par_repD(1,3) [OF inv] by (simp add: par_rep_def)
qed

lemma is_read_only_upd:
  assumes "i < length (blocks s)"
    and "int (pages_per_block s) \<le> current_page_offset b \<longleftrightarrow> int (pages_per_block s) \<le> current_page_offset (blocks s ! i)"
  shows "is_read_only (par_upd i b ht m ro s) = is_read_only s"
  using assms by (simp add: is_read_only_def length_filter_upd_same)

text \<open>The number of full blocks decides when the store becomes read-only.\<close>

definition full_count :: "'m lkp_kv \<Rightarrow> nat" where
  "full_count s = length (filter (\<lambda>b. int (pages_per_block s) \<le> current_page_offset b) (blocks s))"

lemma is_read_only_count: "is_read_only s \<longleftrightarrow> int (nb_blocks s) - (int (nb_meta 0 s) - 1) \<le> int (full_count s)"
  by (simp add: is_read_only_def full_count_def)

lemma full_count_offsets:
  fixes s t :: "'m lkp_kv"
  assumes "map current_page_offset (blocks t) = map current_page_offset (blocks s)" "pages_per_block t = pages_per_block s"
  shows "full_count t = full_count s"
proof -
  have "full_count x = length (filter (\<lambda>y. int (pages_per_block x) \<le> y) (map current_page_offset (blocks x)))" for x :: "'m lkp_kv"
    by (simp add: full_count_def filter_map comp_def)
  from this [of t] this [of s] show ?thesis unfolding assms by simp
qed

lemma full_count_upd: "i < length (blocks s) \<Longrightarrow> full_count (par_upd i b ht m ro s) \<le> full_count s + 1"
  using length_filter_upd [of i "(blocks s)[i := b]" "\<lambda>b. int (pages_per_block s) \<le> current_page_offset b" "blocks s ! i"]
  by (simp add: full_count_def)

section \<open>Invalidating an entry\<close>

definition drop_blk :: "nat \<Rightarrow> blk_info \<Rightarrow> blk_info" where
  "drop_blk h b = b\<lparr>nb_invalid := nb_invalid b + 1, valid_list := removeAll h (valid_list b)\<rparr>"

lemma par_invalid_pg:
  assumes inv: "par_rep byte_at good fsize M s" and e: "entry (hashtable s) h = Some (k, x)"
  obtains i where "i < nb_blocks s"
    "invalid_pg (int h) s = Ret (par_upd i (drop_blk h (blocks s ! i)) (release h (hashtable s)) (flash s) (read_only s) s)"
    "par_rep byte_at good fsize (M(k := None)) (par_upd i (drop_blk h (blocks s ! i)) (release h (hashtable s)) (flash s) (read_only s) s)" "block_kind s i = Data"
proof -
  note D = par_repD [OF inv]
  obtain i j v where o: "x = int (i * pages_per_block s + j)" "i < nb_blocks s" "j < pages_per_block s" "state (blocks s ! i) = BLK_USED"
    "block_kind s i = Data" "h \<in> set (valid_list (blocks s ! i))" "h < length (hashtable s)" "index (hashtable s ! h) = x"
    "c_div x (pages_per_block s) = int i"
    by (rule par_entryD [OF inv e])
  let ?b = "blocks s ! i" and ?t = "par_upd i (drop_blk h (blocks s ! i)) (release h (hashtable s)) (flash s) (read_only s) s"
  have il: "i < length (blocks s)" using o(2) D(3) by simp
  have lists: "v_lists (view_of byte_at s)" using view_okD(6) [OF D(6)] .
  have rm: "map (\<lambda>b. b\<lparr>valid_list := removeAll h (valid_list b)\<rparr>) ((blocks s)[i := ?b\<lparr>nb_invalid := nb_invalid ?b + 1\<rparr>])
      = (blocks s)[i := drop_blk h ?b]"
  proof (rule nth_equalityI)
    fix i' assume "i' < length (map (\<lambda>b. b\<lparr>valid_list := removeAll h (valid_list b)\<rparr>) ((blocks s)[i := ?b\<lparr>nb_invalid := nb_invalid ?b + 1\<rparr>]))"
    then have i': "i' < nb_blocks s" using D(3) by simp
    have "removeAll h (valid_list (blocks s ! i')) = valid_list (blocks s ! i')" if "i' \<noteq> i"
      using that v_lists_block [OF lists, of h i' k i j] i' e o(1,3) by (auto intro: removeAll_id)
    then show "map (\<lambda>b. b\<lparr>valid_list := removeAll h (valid_list b)\<rparr>) ((blocks s)[i := ?b\<lparr>nb_invalid := nb_invalid ?b + 1\<rparr>]) ! i'
      = (blocks s)[i := drop_blk h ?b] ! i'"
      using i' D(3) by (cases "i' = i") (auto simp: drop_blk_def)
  qed simp
  have lk: "linked h (s\<lparr>hashtable := release h (hashtable s), blocks := (blocks s)[i := ?b\<lparr>nb_invalid := nb_invalid ?b + 1\<rparr>]\<rparr>)"
    using o(6) il by (auto simp: linked_def list_ex_iff set_update_memI intro!: bexI [of _ "?b\<lparr>nb_invalid := nb_invalid ?b + 1\<rparr>"])
  have ix: "index (release h (hashtable s) ! h) = x" using o(7,8) by (simp add: release_def)
  have q: "0 < pages_per_block s" using o(3) by simp
  have eq: "invalid_pg (int h) s = Ret ?t"
    using o(7,9) lk q il rm
    by (simp add: invalid_pg_def Let_def ix upd_block_of_def upd_block_def list_del_def par_upd_def)
  have vw: "view_of byte_at ?t = v_drop h i (view_of byte_at s)"
    using o(4,5) entry_release [OF o(7)]
    by (intro view.equality) (auto simp: view_of_upd [OF il] v_drop_def drop_blk_def block_kind_def fun_eq_iff)
  have "par_rep byte_at good fsize (M(k := None)) ?t"
  proof (rule par_rep_upd [OF inv o(2) D(2)])
    show "state (drop_blk h ?b) = BLK_FREE \<or> state (drop_blk h ?b) = BLK_USED" "worn (drop_blk h ?b) < 2147483647"
      using o(4) D(4) il by (auto simp: drop_blk_def block_states_def)
    show "index_ok (HASH_SIZE s) (release h (hashtable s))" by (rule index_ok_release [OF D(5) o(7)])
    show "view_ok PAR_KEY_MAX (M(k := None)) (view_of byte_at ?t)"
      unfolding vw using e o by (intro v_drop_ok [OF D(6) par_keys [OF inv]]) simp_all
    show "read_only s \<longleftrightarrow> is_read_only ?t" using D(7) il by (simp add: is_read_only_upd drop_blk_def)
    show "meta_read_only s \<longrightarrow> read_only s" using D(8) by blast
  qed
  with eq o(2,5) that show ?thesis by blast
qed

section \<open>Reading and deleting\<close>

lemma par_invD:
  assumes "par_inv byte_at good fsize M s"
  shows "par_rep byte_at good fsize M s" "\<not> erase_lock s" "\<not> list_lock s" "\<not> one_lock s"
  using assms by (simp_all add: par_inv_def unlocked_def)

lemma par_sameD:
  assumes "par_same s t"
  shows "nb_blocks t = nb_blocks s" "pages_per_block t = pages_per_block s" "page_size t = page_size s" "HASH_SIZE t = HASH_SIZE s"
    "erase_lock t = erase_lock s" "list_lock t = list_lock s" "one_lock t = one_lock s" "meta_read_only t = meta_read_only s"
    "nb_meta x t = nb_meta x s" "meta_blkordr t = meta_blkordr s" "is_meta t = is_meta s" "write_cnt t = write_cnt s" "is_gb t = is_gb s"
  using assms by (simp_all add: par_same_def nb_meta_def is_meta_def [abs_def])

context reliable_flash
begin

abbreviation par_kv :: "(byte list \<rightharpoonup> byte list) \<Rightarrow> 'm lkp_kv \<Rightarrow> bool" where
  "par_kv M s \<equiv> par_rep byte_at good fsize M s"

lemma par_read_page:
  assumes "par_geometry s fsize" "good (flash s)" "i < nb_blocks s" "j < pages_per_block s" "\<not> one_lock s"
  shows "read_page K (int (i * pages_per_block s + j)) s
    = Ret (0, flash_page byte_at (page_size s) (flash s) (i * pages_per_block s + j))"
proof -
  note a = par_geometry_page [OF assms(1,3,4)]
  from read_ok [OF assms(2) a(2)] obtain buf
    where "k_read K (flash s) ((i * pages_per_block s + j) * page_size s) (page_size s) = (0, buf)" by blast
  with page_read [OF this] a(1) assms(5) show ?thesis
    by (simp add: read_page_def lock_one_def del: of_nat_add of_nat_mult)
qed

lemma par_get_keyval:
  assumes inv: "par_inv byte_at good fsize M s" and k: "cstring k"
  shows "(case M k of None \<Rightarrow> get_keyval K k s = Ret (- 1, None)
          | Some v \<Rightarrow> \<exists>p < nb_blocks s * pages_per_block s. get_keyval K k s = Ret (int p, Some v))"
proof -
  note I = par_invD [OF inv]
  note D = par_repD [OF I(1)] and g = par_geometryD [OF par_repD(1) [OF I(1)]]
  let ?s = "s\<lparr>erase_lock := True, list_lock := True\<rparr>"
  obtain bf where bf: "k_kmalloc K (flash s) (page_size s) = Some bf" using kmalloc_ok [OF D(2)] by blast
  show ?thesis
  proof (cases "M k")
    case None
    with par_search_map [OF I(1), of k] bf I(2-4) show ?thesis
      by (auto simp: get_keyval_def lock_erase_def lock_list_def)
  next
    case (Some v)
    from par_search_map [OF I(1), of k] Some obtain h x
      where h: "par_hash_search (HASH_SIZE s) (hashtable s) k = Ret (int h)" "entry (hashtable s) h = Some (k, x)" by auto
    obtain i j v' where e: "x = int (i * pages_per_block s + j)" "i < nb_blocks s" "j < pages_per_block s"
      "state (blocks s ! i) = BLK_USED" "M k = Some v'" "couple_ok (page_size s) (k, v')"
      "holds_couple (flash_page byte_at (page_size s) (flash s) (i * pages_per_block s + j)) (k, v')"
      "h < length (hashtable s)" "index (hashtable s ! h) = x" "p_state (hashtable s ! h) \<noteq> PG_FREE" "c_div x (pages_per_block s) = int i"
      by (rule par_entryD [OF I(1) h(2)])
    let ?page = "flash_page byte_at (page_size s) (flash s) (i * pages_per_block s + j)"
    have v: "v' = v" using e(5) Some by simp
    have len: "length k + 8 \<le> page_size s" "length v < page_size s" using e(6) v by (auto simp: couple_ok_def)
    have lt: "length (fst (k, v)) < 2147483648" "length (snd (k, v)) < 2147483648" using len g(4) by auto
    note hc = e(7) [unfolded v]
    have im: "bytes_int ?page = int (length k)" "bytes_int (drop 4 ?page) = int (length v)"
      "mem_slice ?page (8 + int (length k)) (int (length v)) = Ret v" "strncmp_eq (drop 8 ?page) (k @ [0]) (length k) = Ret True"
      using holds_key_len [OF hc lt(1)] holds_val_len [OF hc lt(2)] holds_slice_val [OF hc] holds_match [OF hc] k by simp_all
    have rd: "read_page K x ?s = Ret (0, ?page)"
      using par_read_page [of ?s i j] D(1,2) e(2,3) I(4) by (simp add: lock_simps e(1) del: of_nat_add of_nat_mult)
    have "get_keyval K k s = Ret (x, Some v)"
      using h(1) e(2,4,8-11) len im bf D(3) rd I(2,3)
      unfolding get_keyval_def by (auto simp: lock_erase_def lock_list_def)
    with Some e(1) page_lt [OF e(2,3)] show ?thesis by auto
  qed
qed

end

lemma par_del_key:
  assumes inv: "par_inv byte_at good fsize M s"
  shows "(case M k of None \<Rightarrow> del_key k s = Ret (- 1, s)
     | Some v \<Rightarrow> \<exists>p < nb_blocks s * pages_per_block s. \<exists>t. del_key k s = Ret (int p, t) \<and> par_inv byte_at good fsize (M(k := None)) t
                 \<and> par_same s t \<and> flash t = flash s
                 \<and> (\<exists>h i x. entry (hashtable s) h = Some (k, x) \<and> i < nb_blocks s \<and> block_kind s i = Data
                      \<and> t = par_upd i (drop_blk h (blocks s ! i)) (release h (hashtable s)) (flash s) (read_only s) s))"
proof -
  note I = par_invD [OF inv]
  let ?s = "s\<lparr>erase_lock := True, list_lock := True\<rparr>"
  show ?thesis
  proof (cases "M k")
    case None
    moreover have "s\<lparr>erase_lock := False, list_lock := False\<rparr> = s" using I(2,3) by (cases s) simp
    ultimately show ?thesis using par_search_map [OF I(1), of k] I(2,3)
      by (auto simp: del_key_def lock_erase_def lock_list_def unlock_erase_def unlock_list_def)
  next
    case (Some v)
    with par_search_map [OF I(1), of k] obtain h x
      where h: "par_hash_search (HASH_SIZE s) (hashtable s) k = Ret (int h)" "entry (hashtable s) h = Some (k, x)" by auto
    obtain i j v' where e: "x = int (i * pages_per_block s + j)" "i < nb_blocks s" "j < pages_per_block s"
      "state (blocks s ! i) = BLK_USED" "h < length (hashtable s)" "index (hashtable s ! h) = x" "p_state (hashtable s ! h) \<noteq> PG_FREE"
      "c_div x (pages_per_block s) = int i"
      by (rule par_entryD [OF I(1) h(2)])
    have inv': "par_rep byte_at good fsize M ?s" using I(1) by (simp add: lock_simps)
    have h': "entry (hashtable ?s) h = Some (k, x)" using h(2) by simp
    obtain i' where i': "i' < nb_blocks ?s" "block_kind ?s i' = Data" and t: "invalid_pg (int h) ?s = Ret (par_upd i' (drop_blk h (blocks ?s ! i')) (release h (hashtable ?s)) (flash ?s) (read_only ?s) ?s)"
      "par_rep byte_at good fsize (M(k := None)) (par_upd i' (drop_blk h (blocks ?s ! i')) (release h (hashtable ?s)) (flash ?s) (read_only ?s) ?s)"
      by (rule par_invalid_pg [OF inv' h'])
    let ?t = "par_upd i' (drop_blk h (blocks s ! i')) (release h (hashtable s)) (flash s) (read_only s) s"
    have ut: "unlock_erase (unlock_list (par_upd i' (drop_blk h (blocks s ! i')) (release h (hashtable s)) (flash s) (read_only s) ?s)) = ?t"
      using I(2,3) by (cases s) (simp add: unlock_erase_def unlock_list_def par_upd_def)
    have "del_key k s = Ret (x, ?t)"
      using h(1) e(2,4-8) t(1) I(2,3) par_repD(3) [OF I(1)] by (simp add: del_key_def lock_erase_def lock_list_def ut)
    moreover have "par_inv byte_at good fsize (M(k := None)) ?t"
      using t(2) I(2-4) unfolding ut [symmetric] by (simp add: par_inv_def unlocked_def unlock_erase_def unlock_list_def lock_simps)
    moreover have "block_kind s i' = Data" using i'(2) by (simp add: block_kind_def is_meta_def nb_meta_def cong del: if_weak_cong)
    moreover have "par_same s ?t" "flash ?t = flash s" "i' < nb_blocks s" using i'(1) by simp_all
    ultimately have "\<exists>t. del_key k s = Ret (int (i * pages_per_block s + j), t) \<and> par_inv byte_at good fsize (M(k := None)) t
        \<and> par_same s t \<and> flash t = flash s
        \<and> (\<exists>h i x. entry (hashtable s) h = Some (k, x) \<and> i < nb_blocks s \<and> block_kind s i = Data
             \<and> t = par_upd i (drop_blk h (blocks s ! i)) (release h (hashtable s)) (flash s) (read_only s) s)"
      using h(2) e(1) by blast
    with page_lt [OF e(2,3)] show ?thesis unfolding Some option.case by blast
  qed
qed

end
