(* ===== verification/ParallelTables.thy ===== *)
theory ParallelTables
  imports ParallelLoad
begin

text \<open>
  The bytes of the two tables of the third prototype: what a metadata flush copies to flash is
  what a scan reads back, but for the lists, which are rebuilt.
\<close>

lemma drop_concat_nth:
  assumes "\<forall>x \<in> set xs. length x = c" "h < length xs"
  shows "\<exists>r. drop (h * c) (concat xs @ rest) = xs ! h @ r"
  using assms
proof (induction xs arbitrary: h)
  case (Cons x xs)
  show ?case
  proof (cases h)
    case (Suc h')
    with Cons obtain r where r: "drop (h' * c) (concat xs @ rest) = xs ! h' @ r" by auto
    have "drop (h * c) (concat (x # xs) @ rest) = drop (h' * c) (concat xs @ rest)"
      using Cons.prems(1) Suc by (simp add: drop_append)
    with r Suc show ?thesis by simp
  qed simp
qed simp

definition int32 :: "int \<Rightarrow> bool" where
  "int32 x \<longleftrightarrow> - 2147483648 \<le> x \<and> x < 2147483648"

lemma bytes_int32 [simp]: "int32 x \<Longrightarrow> bytes_int (int_bytes x @ r) = x"
  by (simp add: int32_def bytes_int_int_bytes)

text \<open>The values a table in memory has: integers of 32 bits, and one name for every enumerator.\<close>

definition block_fits :: "blk_info \<Rightarrow> bool" where
  "block_fits b \<longleftrightarrow> int32 (blk_state_int (state b)) \<and> state b \<notin> {BLK_VALUE 0, BLK_VALUE 1, BLK_VALUE (- 1)}
     \<and> int32 (worn b) \<and> int32 (nb_invalid b) \<and> int32 (current_page_offset b)"

definition bucket_fits :: "bucket \<Rightarrow> bool" where
  "bucket_fits b \<longleftrightarrow> int32 (index b) \<and> int32 (page_state_int (p_state b)) \<and> p_state b \<notin> {PG_VALUE 0, PG_VALUE 1}
     \<and> cstring (key b) \<and> length (key b) < PAR_KEY_MAX"

lemma length_stale [simp]: "length (stale K off n) = n" by (simp add: stale_def)

lemma length_block_bytes [simp]: "length (blk_info_bytes K off b) = SIZEOF_BLK_INFO"
  by (simp add: blk_info_bytes_def SIZEOF_BLK_INFO_def)

lemma length_entry_bytes [simp]: "length (bucket_bytes K off b) = SIZEOF_BUCKET"
  by (simp add: bucket_bytes_def SIZEOF_BUCKET_def PAR_KEY_MAX_def)

lemma bytes_blk_info_bytes:
  assumes "block_fits b"
  shows "bytes_blk_info (blk_info_bytes K off b @ r) = b\<lparr>valid_list := []\<rparr>"
proof -
  have "int_blk_state (blk_state_int (state b)) = state b"
    using assms by (cases "state b") (auto simp: block_fits_def int_blk_state_def blk_state_int_def)
  with assms show ?thesis
    by (simp add: bytes_blk_info_def blk_info_bytes_def drop_append block_fits_def)
qed

lemma bytes_bucket_bytes:
  assumes "bucket_fits b"
  shows "bytes_bucket (bucket_bytes K off b @ r) = b"
proof -
  have st: "int_page_state (page_state_int (p_state b)) = p_state b"
    using assms by (cases "p_state b") (auto simp: bucket_fits_def int_page_state_def page_state_int_def)
  have d: "int32 (if dirty b then 1 else 0)" by (simp add: int32_def)
  let ?k = "take PAR_KEY_MAX (key b @ 0 # stale K (off + 41 + length (key b)) (PAR_KEY_MAX - 1))"
  have len: "length ?k = PAR_KEY_MAX" by (simp add: PAR_KEY_MAX_def)
  have "takeWhile (\<lambda>c. c \<noteq> 0) ?k = key b"
  proof -
    have "?k = key b @ 0 # take (PAR_KEY_MAX - 1 - length (key b)) (stale K (off + 41 + length (key b)) (PAR_KEY_MAX - 1))"
      using assms by (simp add: bucket_fits_def take_Cons')
    with assms show ?thesis by (simp add: bucket_fits_def takeWhile_cstring)
  qed
  with assms st d len show ?thesis
    by (simp add: bytes_bucket_def bucket_bytes_def drop_append bucket_fits_def)
qed

lemma block_image_at:
  assumes "i < length (blocks s)"
  obtains r where "drop (i * SIZEOF_BLK_INFO) (blocks_image K s) = blk_info_bytes K (i * SIZEOF_BLK_INFO) (blocks s ! i) @ r"
proof -
  let ?xs = "map (\<lambda>(i, b). blk_info_bytes K (i * SIZEOF_BLK_INFO) b) (enumerate 0 (blocks s))"
  have "\<forall>x \<in> set ?xs. length x = SIZEOF_BLK_INFO" by auto
  then obtain r where "drop (i * SIZEOF_BLK_INFO) (blocks_image K s) = ?xs ! i @ r"
    unfolding blocks_image_def using drop_concat_nth [of ?xs SIZEOF_BLK_INFO i] assms by fastforce
  then show ?thesis using that assms by (simp add: nth_enumerate_eq)
qed

lemma block_image_nth:
  assumes "i < length (blocks s)" "block_fits (blocks s ! i)"
  shows "loaded_block (blocks_image K s) i = (blocks s ! i)\<lparr>valid_list := []\<rparr>"
proof -
  obtain r where "drop (i * SIZEOF_BLK_INFO) (blocks_image K s) = blk_info_bytes K (i * SIZEOF_BLK_INFO) (blocks s ! i) @ r"
    by (rule block_image_at [OF assms(1)])
  with assms(2) show ?thesis by (simp add: loaded_block_def bytes_blk_info_bytes) (simp add: block_fits_def)
qed

lemma bucket_image_nth:
  assumes "h < length (hashtable s)" "bucket_fits (hashtable s ! h)"
  shows "bytes_bucket (drop (h * SIZEOF_BUCKET) (hash_image K s)) = hashtable s ! h"
proof -
  let ?xs = "map (\<lambda>(i, b). bucket_bytes K (block_info_size s + i * SIZEOF_BUCKET) b) (enumerate 0 (hashtable s))"
  have "\<forall>x \<in> set ?xs. length x = SIZEOF_BUCKET" by auto
  then obtain r where "drop (h * SIZEOF_BUCKET) (hash_image K s) = ?xs ! h @ r"
    unfolding hash_image_def using drop_concat_nth [of ?xs SIZEOF_BUCKET h] assms(1) by fastforce
  then show ?thesis using assms by (simp add: nth_enumerate_eq bytes_bucket_bytes)
qed

end
