(* ===== verification/ParallelTyped.thy ===== *)
theory ParallelTyped
  imports ParallelStore ParallelTables
begin

text \<open>
  The C types of the third prototype's tables: every number in a block or bucket fits the \<open>int\<close> it is
  stored in, every enumeration holds one of its named values, every key fits its array, and no page of
  couples can be taken for a metadata header.  The steps of the store keep this, so the tables in
  memory and their bytes on flash carry the same information.
\<close>

definition bucket_typed :: "bucket \<Rightarrow> bool" where
  "bucket_typed e \<longleftrightarrow> bucket_fits e \<and> (p_state e = PG_FREE \<or> p_state e = PG_VALID)"

definition data_unmarked :: "('m \<Rightarrow> nat \<Rightarrow> byte) \<Rightarrow> 'm lkp_kv \<Rightarrow> bool" where
  "data_unmarked byte_at s \<longleftrightarrow> (\<forall>i < nb_blocks s. block_kind s i = Data
     \<longrightarrow> take (length META_HDR_BASE) (flash_page byte_at (page_size s) (flash s) (i * pages_per_block s)) \<noteq> chars META_HDR_BASE)"

definition par_typed :: "('m \<Rightarrow> nat \<Rightarrow> byte) \<Rightarrow> 'm lkp_kv \<Rightarrow> bool" where
  "par_typed byte_at s \<longleftrightarrow> nb_blocks s * pages_per_block s < 2147483648
     \<and> (\<forall>b \<in> set (blocks s). block_fits b) \<and> (\<forall>e \<in> set (hashtable s). bucket_typed e) \<and> data_unmarked byte_at s"

lemma par_typedD:
  assumes "par_typed byte_at s"
  shows "nb_blocks s * pages_per_block s < 2147483648" "\<And>i. i < length (blocks s) \<Longrightarrow> block_fits (blocks s ! i)"
    "\<And>e. e \<in> set (hashtable s) \<Longrightarrow> bucket_typed e"
    "\<And>i. i < nb_blocks s \<Longrightarrow> block_kind s i = Data
       \<Longrightarrow> take (length META_HDR_BASE) (flash_page byte_at (page_size s) (flash s) (i * pages_per_block s)) \<noteq> chars META_HDR_BASE"
  using assms by (auto simp: par_typed_def data_unmarked_def)

lemma typed_flags [lock_simps]:
  "par_typed B (s\<lparr>erase_lock := b\<rparr>) = par_typed B s" "par_typed B (s\<lparr>list_lock := b\<rparr>) = par_typed B s"
  "par_typed B (s\<lparr>one_lock := b\<rparr>) = par_typed B s" "par_typed B (s\<lparr>recent_update := x\<rparr>) = par_typed B s"
  "par_typed B (s\<lparr>is_gb := x\<rparr>) = par_typed B s" "par_typed B (s\<lparr>write_cnt := n\<rparr>) = par_typed B s"
  "par_typed B (s\<lparr>is_flush := x\<rparr>) = par_typed B s" "par_typed B (s\<lparr>f_timer := b\<rparr>) = par_typed B s"
  "par_typed B (s\<lparr>w_timer := b\<rparr>) = par_typed B s"
  by (simp_all add: par_typed_def data_unmarked_def block_kind_def is_meta_def nb_meta_def)

text \<open>A page that starts with anything but the letters of the header.\<close>

lemma unmarked_fill: "length META_HDR_BASE \<le> ps \<Longrightarrow> c \<noteq> of_char (hd META_HDR_BASE)
    \<Longrightarrow> take (length META_HDR_BASE) (replicate ps c) \<noteq> chars META_HDR_BASE"
proof -
  assume a: "length META_HDR_BASE \<le> ps" "c \<noteq> of_char (hd META_HDR_BASE)"
  then have "hd (take (length META_HDR_BASE) (replicate ps c)) = c" by (simp add: META_HDR_BASE_def)
  moreover have "hd (chars META_HDR_BASE) = of_char (hd META_HDR_BASE)" by (simp add: META_HDR_BASE_def chars_def)
  ultimately show ?thesis using a(2) by metis
qed

lemma unmarked_zero: "8 \<le> ps \<Longrightarrow> take (length META_HDR_BASE) (replicate ps (0 :: byte)) \<noteq> chars META_HDR_BASE"
  and unmarked_erased: "8 \<le> ps \<Longrightarrow> take (length META_HDR_BASE) (replicate ps (255 :: byte)) \<noteq> chars META_HDR_BASE"
  by (rule unmarked_fill; simp add: META_HDR_BASE_def)+

section \<open>One step\<close>

lemma block_kind_upd:
  assumes "i < length (blocks s)"
  shows "block_kind (par_upd i b ht m ro s) j
    = (if j = i then if is_meta s i then Meta else if state b = BLK_FREE then Free else Data else block_kind s j)"
  using assms by (cases "j = i") (simp_all add: block_kind_def cong del: if_weak_cong)

lemma typed_upd:
  assumes ty: "par_typed B s" and i: "i < length (blocks s)" and b: "block_fits b" and ht: "\<forall>e \<in> set ht. bucket_typed e"
    and pg: "\<And>i'. i' < nb_blocks s \<Longrightarrow> block_kind (par_upd i b ht m ro s) i' = Data
       \<Longrightarrow> take (length META_HDR_BASE) (flash_page B (page_size s) m (i' * pages_per_block s)) \<noteq> chars META_HDR_BASE"
  shows "par_typed B (par_upd i b ht m ro s)"
proof -
  have "\<forall>x \<in> set ((blocks s)[i := b]). block_fits x"
    using ty b set_update_subset_insert [of "blocks s" i b] by (auto simp: par_typed_def)
  then show ?thesis using ty ht pg by (simp add: par_typed_def data_unmarked_def)
qed

lemma typed_release:
  assumes "\<forall>e \<in> set ht. bucket_typed e" "h < length ht"
  shows "\<forall>e \<in> set (release h ht). bucket_typed e"
proof -
  have "bucket_typed ((ht ! h)\<lparr>p_state := PG_FREE\<rparr>)"
    using assms by (simp add: bucket_typed_def bucket_fits_def page_state_int_def int32_def)
  then show ?thesis using assms set_update_subset_insert [of ht h] by (auto simp: release_def)
qed

lemma add_probe_all:
  assumes "\<And>e. Q e \<Longrightarrow> Q (e\<lparr>dirty := True\<rparr>)"
  shows "add_probe n left h ht = Ret (r, ht') \<Longrightarrow> \<forall>e \<in> set ht. Q e \<Longrightarrow> (\<forall>e \<in> set ht'. Q e) \<and> (\<forall>x. r = Some x \<longrightarrow> x < length ht')"
proof (induction left arbitrary: h ht)
  case 0
  then show ?case using assms set_update_subset_insert [of ht h "(ht ! h)\<lparr>dirty := True\<rparr>"]
    by (subst (asm) add_probe.simps) (auto simp: arr_get_def split: if_splits)
next
  case (Suc l)
  let ?ht = "ht[h := (ht ! h)\<lparr>dirty := True\<rparr>]"
  show ?case
  proof (cases "h < length ht \<and> p_state (ht ! h) \<noteq> PG_FREE")
    case True
    then have "\<forall>e \<in> set ?ht. Q e" using Suc.prems(2) assms set_update_subset_insert [of ht h "(ht ! h)\<lparr>dirty := True\<rparr>"] by auto
    moreover have "add_probe n l ((h + 1) mod n) ?ht = Ret (r, ht')" using True Suc.prems(1) by (subst (asm) add_probe.simps) simp
    ultimately show ?thesis using Suc.IH by blast
  next
    case False
    then show ?thesis using Suc.prems by (subst (asm) add_probe.simps) (auto simp: arr_get_def split: if_splits)
  qed
qed

lemma typed_dirty: "bucket_typed e \<Longrightarrow> bucket_typed (e\<lparr>dirty := True\<rparr>)"
  by (simp add: bucket_typed_def bucket_fits_def)

lemma typed_add:
  assumes a: "par_hash_add q n ht k x = Ret (r, ht')" and r: "0 \<le> r" and ty: "\<forall>e \<in> set ht. bucket_typed e"
    and k: "cstring k" and x: "int32 x"
  shows "\<forall>e \<in> set ht'. bucket_typed e"
proof -
  obtain h ht1 where p: "add_probe n (n - 1) (par_hash n k) ht = Ret (Some h, ht1)" "fill_bucket PAR_KEY_MAX h k x ht1 = Ret (r, ht')"
  proof -
    have n: "n \<noteq> 0" using a by (cases "n = 0") (simp_all add: par_hash_add_probe)
    then have b: "obind (add_probe n (n - 1) (par_hash n k) ht) (\<lambda>(y, t). case y of None \<Rightarrow> Ret (- 1, t)
        | Some h \<Rightarrow> if q = 0 then Fault else fill_bucket PAR_KEY_MAX h k x t) = Ret (r, ht')"
      using a by (simp only: par_hash_add_probe if_False)
    then obtain y t where y: "add_probe n (n - 1) (par_hash n k) ht = Ret (y, t)"
      by (cases "add_probe n (n - 1) (par_hash n k) ht") (simp_all, metis surj_pair)
    then have c: "(case y of None \<Rightarrow> Ret (- 1, t) | Some h \<Rightarrow> if q = 0 then Fault else fill_bucket PAR_KEY_MAX h k x t) = Ret (r, ht')"
      using b by simp
    show ?thesis
    proof (cases y)
      case None
      then show ?thesis using c r by simp
    next
      case (Some h)
      then show ?thesis using c y that by (simp split: if_splits)
    qed
  qed
  have t1: "\<forall>e \<in> set ht1. bucket_typed e"
    using add_probe_all [of bucket_typed, OF typed_dirty p(1) ty] by blast
  have "length k < PAR_KEY_MAX" "ht' = ht1[h := (ht1 ! h)\<lparr>p_state := PG_VALID, key := k, index := x\<rparr>]"
    using p(2) by (auto simp: fill_bucket_def split: if_splits)
  moreover have "bucket_typed ((ht1 ! h)\<lparr>p_state := PG_VALID, key := k, index := x\<rparr>)" if "length k < PAR_KEY_MAX"
    using k x that by (simp add: bucket_typed_def bucket_fits_def page_state_int_def int32_def)
  ultimately show ?thesis using t1 set_update_subset_insert [of ht1 h] by auto
qed

text \<open>The counters of a block with couples are bounded by its pages.\<close>

lemma typed_counts:
  assumes rep: "par_rep byte_at good fsize M s" and i: "i < nb_blocks s" and k: "block_kind s i = Data"
    and q: "nb_blocks s * pages_per_block s < 2147483648"
  shows "int32 (nb_invalid (blocks s ! i))" "int32 (current_page_offset (blocks s ! i))"
proof -
  have "v_counts (view_of byte_at s) i" using view_okD(2) [OF par_repD(6) [OF rep], of i] i by simp
  then have c: "0 \<le> nb_invalid (blocks s ! i)" "nb_invalid (blocks s ! i) \<le> current_page_offset (blocks s ! i)"
    "current_page_offset (blocks s ! i) \<le> int (pages_per_block s)"
    using k by (simp_all add: v_counts_def)
  have "pages_per_block s \<le> nb_blocks s * pages_per_block s" using i by (cases "nb_blocks s") simp_all
  then have "int (pages_per_block s) < 2147483648" using q by linarith
  then show "int32 (nb_invalid (blocks s ! i))" "int32 (current_page_offset (blocks s ! i))" using c by (simp_all add: int32_def)
qed


lemma typed_drop:
  assumes rep: "par_rep byte_at good fsize M s" and e: "entry (hashtable s) h = Some (k, x)" and i: "i < nb_blocks s"
    and rp: "par_rep byte_at good fsize M' (par_upd i (drop_blk h (blocks s ! i)) (release h (hashtable s)) (flash s) (read_only s) s)"
    and ty: "par_typed byte_at s" and d: "block_kind s i = Data"
  shows "par_typed byte_at (par_upd i (drop_blk h (blocks s ! i)) (release h (hashtable s)) (flash s) (read_only s) s)"
proof -
  let ?t = "par_upd i (drop_blk h (blocks s ! i)) (release h (hashtable s)) (flash s) (read_only s) s"
  have il: "i < length (blocks s)" using i par_repD(3) [OF rep] by simp
  have hl: "h < length (hashtable s)" using e by (auto simp: entry_def split: if_splits)
  have k: "block_kind ?t j = block_kind s j" for j using il by (cases "j = i") (simp_all add: block_kind_def drop_blk_def)
  show ?thesis
  proof (rule typed_upd [OF ty il])
    have "int32 (nb_invalid (blocks ?t ! i))" by (rule typed_counts(1) [OF rp]) (use i d k par_typedD(1) [OF ty] in simp_all)
    then show "block_fits (drop_blk h (blocks s ! i))" using par_typedD(2) [OF ty il] il by (simp add: block_fits_def drop_blk_def)
    show "\<forall>e \<in> set (release h (hashtable s)). bucket_typed e" by (rule typed_release) (use par_typedD(3) [OF ty] hl in auto)
  qed (use k par_typedD(4) [OF ty] in simp)
qed


lemma typed_del:
  assumes inv: "par_inv byte_at good fsize M s" and ty: "par_typed byte_at s"
  shows "\<exists>r t. del_key k s = Ret (r, t) \<and> par_typed byte_at t \<and> par_inv byte_at good fsize (M(k := None)) t"
proof (cases "M k")
  case None
  then have "M(k := None) = M" by auto
  with None par_del_key [OF inv, of k] inv ty show ?thesis by auto
next
  case (Some v)
  with par_del_key [OF inv, of k] obtain p t h i x where t: "del_key k s = Ret (int p, t)" "par_inv byte_at good fsize (M(k := None)) t"
    "entry (hashtable s) h = Some (k, x)" "i < nb_blocks s" "block_kind s i = Data"
    "t = par_upd i (drop_blk h (blocks s ! i)) (release h (hashtable s)) (flash s) (read_only s) s" by auto
  have "par_typed byte_at t"
    using typed_drop [OF par_invD(1) [OF inv] t(3,4) _ ty t(5)] par_invD(1) [OF t(2)] unfolding t(6) by blast
  with t(1,2) show ?thesis by blast
qed

end
