(* ===== verification/ParallelWrite.thy ===== *)
theory ParallelWrite
  imports ParallelTyped
begin

text \<open>
  Writing to the third prototype: the page a couple goes to, the write, and \<open>set_keyval\<close> up to
  the calls that start a collection or a flush.
\<close>

section \<open>Writing a page\<close>

lemma is_read_only_par_upd: "is_read_only (par_upd i b ht m ro s) = is_read_only (s\<lparr>blocks := (blocks s)[i := b]\<rparr>)"
  by (simp add: is_read_only_def par_upd_def nb_meta_def)

definition next_blk :: "blk_info \<Rightarrow> blk_info" where
  "next_blk b = b\<lparr>current_page_offset := current_page_offset b + 1\<rparr>"

definition open_blk :: "blk_info \<Rightarrow> blk_info" where
  "open_blk b = b\<lparr>current_page_offset := current_page_offset b + 1, state := BLK_USED\<rparr>"

context reliable_flash
begin

text \<open>Whatever the page held, the write succeeds and counts.\<close>

lemma par_write_page_raw:
  assumes g: "par_geometry s fsize" and gd: "good (flash s)" and ro: "\<not> read_only s" and lk: "\<not> one_lock s" "\<not> list_lock s"
    and i: "i < nb_blocks s" "length (blocks s) = nb_blocks s" and j: "j < pages_per_block s"
    and buf: "page_size s \<le> length buf"
  obtains m ro where "k_write K (flash s) ((i * pages_per_block s + j) * page_size s) (take (page_size s) buf) = (0, m)" "good m"
    "ro \<longleftrightarrow> is_read_only (par_upd i (next_blk (blocks s ! i)) (hashtable s) m ro s)"
    "write_page K (int (i * pages_per_block s + j)) buf s
       = Ret (if ro then - 1 else 0, par_upd i (next_blk (blocks s ! i)) (hashtable s) m ro s)"
proof -
  let ?p = "i * pages_per_block s + j" and ?buf = "take (page_size s) buf"
  note a = par_geometry_page [OF g i(1) j]
  have len: "length ?buf = page_size s" using buf by simp
  have "?p * page_size s + length ?buf \<le> fsize" using a(2) len by simp
  from write_ok [OF gd this] obtain m where m: "k_write K (flash s) (?p * page_size s) ?buf = (0, m)" "good m" by blast
  have sl: "mem_slice buf 0 (int (page_size s)) = Ret ?buf"
    using mem_slice_int [of 0 "page_size s" buf] buf by simp
  define ro' where "ro' = is_read_only (s\<lparr>blocks := (blocks s)[i := next_blk (blocks s ! i)]\<rparr>)"
  have q: "0 < pages_per_block s" "c_div (int ?p) (pages_per_block s) = int i"
    using j by (simp_all only: c_div_int div_mult_lt)
  have r: "is_read_only (s\<lparr>one_lock := True, flash := m, blocks := (blocks s)[i := next_blk (blocks s ! i)], list_lock := False\<rparr>) = ro'"
    by (simp add: ro'_def is_read_only_def nb_meta_def)
  have "write_page K (int ?p) buf s = (let t = s\<lparr>one_lock := True, flash := m, blocks := (blocks s)[i := next_blk (blocks s ! i)], list_lock := False\<rparr>
    in if is_read_only t then Ret (- 1, unlock_one (t\<lparr>read_only := True\<rparr>)) else Ret (0, unlock_one t))"
    using ro lk m(1) a(1) i q sl unfolding Let_def
    by (simp del: of_nat_add of_nat_mult add: write_page_def lock_one_def lock_list_def unlock_list_def upd_block_of_def upd_block_def
        next_blk_def)
  then have "write_page K (int ?p) buf s = Ret (if ro' then - 1 else 0, par_upd i (next_blk (blocks s ! i)) (hashtable s) m ro' s)"
    unfolding Let_def r using lk ro by (cases s) (simp add: unlock_one_def par_upd_def)
  then show ?thesis using that [of m ro'] m by (simp add: is_read_only_par_upd ro'_def)
qed

lemma par_write_page:
  assumes s: "par_geometry s fsize" "good (flash s)" "\<not> read_only s" "\<not> one_lock s" "\<not> list_lock s"
      "i < nb_blocks s" "length (blocks s) = nb_blocks s" "j < pages_per_block s" "page_size s \<le> length buf"
    and er: "flash_page byte_at (page_size s) (flash s) (i * pages_per_block s + j) = replicate (page_size s) 255"
  obtains m ro where "good m"
    "\<And>p. flash_page byte_at (page_size s) m p
        = (if p = i * pages_per_block s + j then take (page_size s) buf else flash_page byte_at (page_size s) (flash s) p)"
    "ro \<longleftrightarrow> is_read_only (par_upd i (next_blk (blocks s ! i)) (hashtable s) m ro s)"
    "write_page K (int (i * pages_per_block s + j)) buf s
       = Ret (if ro then - 1 else 0, par_upd i (next_blk (blocks s ! i)) (hashtable s) m ro s)"
proof -
  obtain m ro where m: "k_write K (flash s) ((i * pages_per_block s + j) * page_size s) (take (page_size s) buf) = (0, m)" "good m"
    "ro \<longleftrightarrow> is_read_only (par_upd i (next_blk (blocks s ! i)) (hashtable s) m ro s)"
    "write_page K (int (i * pages_per_block s + j)) buf s
       = Ret (if ro then - 1 else 0, par_upd i (next_blk (blocks s ! i)) (hashtable s) m ro s)"
    by (rule par_write_page_raw [OF s])
  have len: "length (take (page_size s) buf) = page_size s" using s(9) by simp
  show ?thesis
    by (rule that [OF m(2) _ m(3,4)]) (use page_write_same [OF m(1) len er] page_write_other [OF m(1) len er] in auto)
qed

text \<open>The header of a data block: a page of zeros.\<close>

lemma par_write_hdr:
  assumes g: "par_geometry s fsize" and gd: "good (flash s)" and ro: "\<not> read_only s" "\<not> meta_read_only s"
    and lk: "\<not> one_lock s" "\<not> list_lock s"
    and i: "i < nb_blocks s" "length (blocks s) = nb_blocks s" and off: "current_page_offset (blocks s ! i) = 0"
    and er: "flash_page byte_at (page_size s) (flash s) (i * pages_per_block s) = replicate (page_size s) 255"
    and nro: "\<not> is_read_only s"
  obtains m where "good m"
    "\<And>p. p \<noteq> i * pages_per_block s \<Longrightarrow> flash_page byte_at (page_size s) m p = flash_page byte_at (page_size s) (flash s) p"
    "flash_page byte_at (page_size s) m (i * pages_per_block s) = replicate (page_size s) 0"
    "write_hdr K (int (i * pages_per_block s)) NAND_DATA 0 s = Ret (0, par_upd i (open_blk (blocks s ! i)) (hashtable s) m False s)"
proof -
  note G = par_geometryD [OF g]
  obtain bf where bf: "k_kmalloc K (flash s) (meta_page_size s) = Some bf" "meta_page_size s \<le> length bf" using kmalloc_ok [OF gd] by blast
  let ?buf = "replicate (meta_page_size s) 0 @ drop (meta_page_size s) bf"
  have j: "0 < pages_per_block s" using G(2) by simp
  have len: "page_size s \<le> length ?buf" using G(5) by simp
  have er': "flash_page byte_at (page_size s) (flash s) (i * pages_per_block s + 0) = replicate (page_size s) 255" using er by simp
  obtain m ro' where m: "good m"
    "\<And>p. flash_page byte_at (page_size s) m p
        = (if p = i * pages_per_block s + 0 then take (page_size s) ?buf else flash_page byte_at (page_size s) (flash s) p)"
    "ro' \<longleftrightarrow> is_read_only (par_upd i (next_blk (blocks s ! i)) (hashtable s) m ro' s)"
    "write_page K (int (i * pages_per_block s + 0)) ?buf s
       = Ret (if ro' then - 1 else 0, par_upd i (next_blk (blocks s ! i)) (hashtable s) m ro' s)"
    using par_write_page [OF g gd ro(1) lk i j len er'] by blast
  let ?t = "par_upd i (next_blk (blocks s ! i)) (hashtable s) m False s"
  have "\<not> is_read_only (par_upd i (next_blk (blocks s ! i)) (hashtable s) m ro' s)"
    using nro off G(2) i by (subst is_read_only_upd) (auto simp: next_blk_def)
  then have wr: "write_page K (int (i * pages_per_block s)) ?buf s = Ret (0, ?t)" using m(3,4) by simp
  have "upd_block_of (int (i * pages_per_block s)) (\<lambda>b. b\<lparr>state := BLK_USED\<rparr>) ?t = Ret (par_upd i (open_blk (blocks s ! i)) (hashtable s) m False s)"
  proof -
    have "c_div (int (i * pages_per_block s)) (pages_per_block s) = int i" using j by (simp only: c_div_int) simp
    then show ?thesis
      using j i by (cases s) (simp add: upd_block_of_def upd_block_def par_upd_def next_blk_def open_blk_def)
  qed
  then have "write_hdr K (int (i * pages_per_block s)) NAND_DATA 0 s = Ret (0, par_upd i (open_blk (blocks s ! i)) (hashtable s) m False s)"
    using wr bf(1) ro(2) by (simp add: write_hdr_def kzalloc_def)
  moreover have "take (page_size s) ?buf = replicate (page_size s) 0" using G(5) by simp
  ultimately show ?thesis using m(1,2) that by simp
qed

end

section \<open>Choosing the block\<close>

text \<open>The least worn block outside the metadata with a page left.\<close>

definition available :: "'m lkp_kv \<Rightarrow> nat \<Rightarrow> bool" where
  "available s i \<longleftrightarrow> \<not> is_meta s i \<and> current_page_offset (blocks s ! i) < int (pages_per_block s)"

lemma get_healthy_fold:
  assumes "nb_meta 1 s \<le> length (meta_blkordr s)"
  shows "get_healthy_block s = Ret (snd (foldl (\<lambda>(minimum, ret) i. if available s i \<and> worn (blocks s ! i) < minimum
     then (worn (blocks s ! i), int i) else (minimum, ret)) (2147483647, - 1) [0..<nb_blocks s]))"
proof -
  have "(\<lambda>(minimum, ret) i. if int i \<in> set (take (nb_meta 1 s) (meta_blkordr s)) then (minimum, ret)
           else if current_page_offset (blocks s ! i) < int (pages_per_block s) \<and> worn (blocks s ! i) < minimum
                then (worn (blocks s ! i), int i) else (minimum, ret))
     = (\<lambda>(minimum, ret) i. if available s i \<and> worn (blocks s ! i) < minimum then (worn (blocks s ! i), int i) else (minimum, ret))"
    by (auto simp: fun_eq_iff available_def is_meta_def)
  then show ?thesis using assms by (simp add: get_healthy_block_def victims_def)
qed

lemma get_healthy_spec:
  assumes "nb_meta 1 s \<le> length (meta_blkordr s)" "length (blocks s) = nb_blocks s" "block_states s"
  shows "if \<exists>i < nb_blocks s. available s i
     then \<exists>i < nb_blocks s. get_healthy_block s = Ret (int i) \<and> available s i
            \<and> (\<forall>j < nb_blocks s. available s j \<longrightarrow> worn (blocks s ! i) \<le> worn (blocks s ! j))
            \<and> (\<forall>j < i. available s j \<longrightarrow> worn (blocks s ! i) < worn (blocks s ! j))
     else get_healthy_block s = Ret (- 1)"
proof -
  have w: "\<forall>i < nb_blocks s. worn (blocks s ! i) < 2147483647" using assms(2,3) by (metis block_states_def nth_mem)
  from least_index_spec [OF w, of "available s"] show ?thesis
    unfolding get_healthy_fold [OF assms(1)] by (simp split: if_splits)
qed

text \<open>Invalidating an entry does not change the choice.\<close>

lemma get_healthy_cong:
  assumes "par_same s t" "map (\<lambda>b. (worn b, current_page_offset b)) (blocks t) = map (\<lambda>b. (worn b, current_page_offset b)) (blocks s)"
    and "length (blocks s) = nb_blocks s"
  shows "get_healthy_block t = get_healthy_block s"
proof -
  note S = par_sameD [OF assms(1)]
  have b: "worn (blocks t ! i) = worn (blocks s ! i) \<and> current_page_offset (blocks t ! i) = current_page_offset (blocks s ! i)"
    if "i < nb_blocks s" for i
  proof -
    have "length (blocks t) = length (blocks s)" using assms(2) map_eq_imp_length_eq by blast
    then have "map (\<lambda>b. (worn b, current_page_offset b)) (blocks t) ! i = (worn (blocks t ! i), current_page_offset (blocks t ! i))"
      using that assms(3) by simp
    then show ?thesis unfolding assms(2) using that assms(3) by simp
  qed
  have "foldl (\<lambda>(minimum, ret) i. if int i \<in> set mo then (minimum, ret)
           else if current_page_offset (blocks t ! i) < int q \<and> worn (blocks t ! i) < minimum
                then (worn (blocks t ! i), int i) else (minimum, ret)) x [0..<nb_blocks s]
      = foldl (\<lambda>(minimum, ret) i. if int i \<in> set mo then (minimum, ret)
           else if current_page_offset (blocks s ! i) < int q \<and> worn (blocks s ! i) < minimum
                then (worn (blocks s ! i), int i) else (minimum, ret)) x [0..<nb_blocks s]" for mo q and x :: "int \<times> int"
  proof (rule foldl_cong, goal_cases)
    case (3 a i)
    then show ?case by (cases a) (simp add: b)
  qed simp_all
  then show ?thesis unfolding get_healthy_block_def victims_def S by (simp only: )
qed

text \<open>Taking a block before anything is written to it.\<close>

definition mark :: "nat \<Rightarrow> 'm lkp_kv \<Rightarrow> 'm lkp_kv" where
  "mark i s = s\<lparr>blocks := (blocks s)[i := (blocks s ! i)\<lparr>state := BLK_USED\<rparr>]\<rparr>"

lemma mark_simps [simp]:
  "nb_blocks (mark i s) = nb_blocks s" "pages_per_block (mark i s) = pages_per_block s" "page_size (mark i s) = page_size s"
  "hashtable (mark i s) = hashtable s" "HASH_SIZE (mark i s) = HASH_SIZE s" "flash (mark i s) = flash s"
  "read_only (mark i s) = read_only s" "meta_read_only (mark i s) = meta_read_only s" "nb_meta x (mark i s) = nb_meta x s"
  "erase_lock (mark i s) = erase_lock s" "list_lock (mark i s) = list_lock s" "one_lock (mark i s) = one_lock s"
  "length (blocks (mark i s)) = length (blocks s)" "par_geometry (mark i s) fsize = par_geometry s fsize"
  "meta_blkordr (mark i s) = meta_blkordr s" "is_gb (mark i s) = is_gb s"
  by (simp_all add: mark_def nb_meta_def par_geometry_def)

lemma mark_taken: "i < length (blocks s) \<Longrightarrow> state (blocks s ! i) = BLK_USED \<Longrightarrow> mark i s = s"
  by (cases "blocks s ! i") (simp add: mark_def list_update_same_conv)

lemma mark_upd: "i < length (blocks s) \<Longrightarrow> par_upd i (open_blk (blocks (mark i s) ! i)) ht m ro (mark i s) = par_upd i (open_blk (blocks s ! i)) ht m ro s"
  by (cases s) (simp add: mark_def par_upd_def open_blk_def)

lemma mark_read_only: "i < length (blocks s) \<Longrightarrow> is_read_only (mark i s) = is_read_only s"
proof -
  assume "i < length (blocks s)"
  then have "is_read_only (par_upd i ((blocks s ! i)\<lparr>state := BLK_USED\<rparr>) (hashtable s) (flash s) (read_only s) s) = is_read_only s"
    by (subst is_read_only_upd) simp_all
  then show ?thesis by (simp add: is_read_only_par_upd mark_def)
qed

context reliable_flash
begin

text \<open>A fresh block is opened by writing its header, whether it has been taken or not.\<close>

lemma par_open:
  assumes inv: "par_kv M s" and ro: "\<not> read_only s" and lk: "\<not> list_lock s" "\<not> one_lock s"
    and h: "i < nb_blocks s" "\<not> is_meta s i" "current_page_offset (blocks s ! i) = 0" and w: "w = s \<or> w = mark i s"
  obtains t where "write_hdr K (int (i * pages_per_block s)) NAND_DATA 0 w = Ret (0, t)"
    "par_kv M t" "current_page_offset (blocks t ! i) = 1" "block_kind t i = Data" "par_same s t" "hashtable t = hashtable s" "\<not> read_only t"
    "flash_page byte_at (page_size s) (flash t) (i * pages_per_block s) = replicate (page_size s) 0"
    "blocks t = (blocks s)[i := open_blk (blocks s ! i)]" "full_count t = full_count s"
    "par_typed byte_at s \<longrightarrow> par_typed byte_at t"
proof -
  note D = par_repD [OF inv] and g = par_geometryD [OF par_repD(1) [OF inv]]
  let ?b = "blocks s ! i"
  have il: "i < length (blocks s)" using h(1) D(3) by simp
  have st: "state ?b = BLK_FREE \<or> state ?b = BLK_USED" "worn ?b < 2147483647" using D(4) il by (auto simp: block_states_def)
  have cnt: "v_counts (view_of byte_at s) i" and er: "v_erased (view_of byte_at s) i"
    using view_okD(2,3) [OF D(6), of i] h(1,2) by (auto simp: block_kind_def)
  have kind: "block_kind s i = Free"
    using cnt h(2,3) by (cases "block_kind s i") (auto simp: v_counts_def block_kind_def split: if_splits)
  then have z: "nb_invalid ?b = 0" "valid_list ?b = []" using cnt by (auto simp: v_counts_def)
  have er0: "flash_page byte_at (page_size s) (flash s) (i * pages_per_block s) = replicate (page_size s) 255"
    using er [unfolded v_erased_def, rule_format, of 0] g(2) h(3) by simp
  have sh: "page_size w = page_size s" "pages_per_block w = pages_per_block s" "flash w = flash s" "hashtable w = hashtable s"
    "nb_blocks w = nb_blocks s" "par_geometry w fsize = par_geometry s fsize" "length (blocks w) = length (blocks s)"
    "read_only w = read_only s" "meta_read_only w = meta_read_only s" "list_lock w = list_lock s" "one_lock w = one_lock s"
    "current_page_offset (blocks w ! i) = current_page_offset ?b"
    using w il by (auto simp: mark_def [of i s] par_geometry_def nb_meta_def)
  have u: "par_geometry w fsize" "good (flash w)" "\<not> read_only w" "\<not> meta_read_only w" "\<not> one_lock w" "\<not> list_lock w"
    "i < nb_blocks w" "length (blocks w) = nb_blocks w" "current_page_offset (blocks w ! i) = 0"
    "flash_page byte_at (page_size w) (flash w) (i * pages_per_block w) = replicate (page_size w) 255"
    using sh D ro lk h(1,3) er0 by auto
  have nro: "\<not> is_read_only w" using w D(7) ro mark_read_only [OF il] by auto
  obtain m where m: "good m"
    "\<And>p. p \<noteq> i * pages_per_block w \<Longrightarrow> flash_page byte_at (page_size w) m p = flash_page byte_at (page_size w) (flash w) p"
    "flash_page byte_at (page_size w) m (i * pages_per_block w) = replicate (page_size w) 0"
    "write_hdr K (int (i * pages_per_block w)) NAND_DATA 0 w = Ret (0, par_upd i (open_blk (blocks w ! i)) (hashtable w) m False w)"
    using par_write_hdr [OF u nro] by blast
  define t where "t = par_upd i (open_blk ?b) (hashtable s) m False s"
  have t: "par_upd i (open_blk (blocks w ! i)) (hashtable w) m False w = t"
    using w mark_upd [OF il] by (auto simp: t_def)
  have nx: "write_hdr K (int (i * pages_per_block s)) NAND_DATA 0 w = Ret (0, t)" using m(4) unfolding t unfolding sh .
  have vw: "view_of byte_at t = v_open (flash_page byte_at (page_size s) m) i (view_of byte_at s)"
    unfolding t_def using h z
    by (intro view.equality) (auto simp: view_of_upd [OF il] v_open_def open_blk_def fun_eq_iff)
  have "par_kv M t"
    unfolding t_def
  proof (rule par_rep_upd [OF inv h(1) m(1) _ _ D(5)])
    show "state (open_blk ?b) = BLK_FREE \<or> state (open_blk ?b) = BLK_USED" "worn (open_blk ?b) < 2147483647"
      using st by (simp_all add: open_blk_def)
    show "view_ok PAR_KEY_MAX M (view_of byte_at (par_upd i (open_blk ?b) (hashtable s) m False s))"
      unfolding t_def [symmetric] vw using h(1) kind m(2) sh by (intro v_open_ok [OF D(6)]) simp_all
    have "is_read_only (par_upd i (open_blk ?b) (hashtable s) m False s) = is_read_only s"
      using h(3) g(2) il by (subst is_read_only_upd) (auto simp: open_blk_def)
    then show "False \<longleftrightarrow> is_read_only (par_upd i (open_blk ?b) (hashtable s) m False s)" using D(7) ro by simp
  qed (use D(8) ro in blast)
  moreover have "current_page_offset (blocks t ! i) = 1" "block_kind t i = Data" "par_same s t" "hashtable t = hashtable s" "\<not> read_only t"
    "flash_page byte_at (page_size s) (flash t) (i * pages_per_block s) = replicate (page_size s) 0"
    "blocks t = (blocks s)[i := open_blk ?b]"
    using il h m(3) sh by (simp_all add: t_def open_blk_def block_kind_def)
  moreover have "full_count t = full_count s"
    using il h(3) g(2) by (simp add: full_count_def t_def open_blk_def length_filter_upd_same)
  moreover have "par_typed byte_at t" if ty: "par_typed byte_at s"
    unfolding t_def
  proof (rule typed_upd [OF ty il])
    show "block_fits (open_blk ?b)"
      using par_typedD(2) [OF ty il] h(3) by (simp add: open_blk_def block_fits_def int32_def blk_state_int_def)
    show "\<forall>e \<in> set (hashtable s). bucket_typed e" using par_typedD(3) [OF ty] by blast
    fix i' assume i': "i' < nb_blocks s" "block_kind (par_upd i (open_blk ?b) (hashtable s) m False s) i' = Data"
    show "take (length META_HDR_BASE) (flash_page byte_at (page_size s) m (i' * pages_per_block s)) \<noteq> chars META_HDR_BASE"
    proof (cases "i' = i")
      case True
      then show ?thesis using m(3) unmarked_zero [OF g(3)] sh by simp
    next
      case False
      then have "i' * pages_per_block s \<noteq> i * pages_per_block s" using g(2) by simp
      moreover have "block_kind s i' = Data" using i'(2) False il by (simp add: block_kind_upd)
      ultimately show ?thesis using m(2) par_typedD(4) [OF ty i'(1)] sh by simp
    qed
  qed
  ultimately show ?thesis using that [of t] nx by blast
qed

text \<open>\<open>get_next_block_to_write\<close> opens a fresh block, and then returns 0, whatever the block.\<close>

lemma par_next:
  assumes inv: "par_kv M s" and ro: "\<not> read_only s" and lk: "\<not> list_lock s" "\<not> one_lock s"
    and h: "get_healthy_block s = Ret (int i)" "i < nb_blocks s" "available s i"
  obtains t j where "get_next_block_to_write K s = Ret (if current_page_offset (blocks s ! i) = 0 then 0 else int i, t)"
    "par_kv M t" "current_page_offset (blocks t ! i) = int j" "j < pages_per_block s" "block_kind t i = Data" "par_same s t"
    "hashtable t = hashtable s" "\<not> read_only t" "current_page_offset (blocks s ! i) = 0 \<longrightarrow> j = 1 \<and> flash_page byte_at (page_size s) (flash t) (i * pages_per_block s) = replicate (page_size s) 0"
    "\<forall>i'. i' \<noteq> i \<longrightarrow> blocks t ! i' = blocks s ! i'"
    "\<forall>i'. nb_invalid (blocks t ! i') = nb_invalid (blocks s ! i')" "full_count t = full_count s"
    "par_typed byte_at s \<longrightarrow> par_typed byte_at t" "\<forall>i'. worn (blocks t ! i') = worn (blocks s ! i')"
proof -
  note D = par_repD [OF inv] and g = par_geometryD [OF par_repD(1) [OF inv]]
  have il: "i < length (blocks s)" using h(2) D(3) by simp
  let ?b = "blocks s ! i"
  have st: "state ?b = BLK_FREE \<or> state ?b = BLK_USED" using D(4) il by (auto simp: block_states_def)
  have nm: "\<not> is_meta s i" and q: "current_page_offset ?b < int (pages_per_block s)" using h(3) by (auto simp: available_def)
  have cnt: "v_counts (view_of byte_at s) i" using view_okD(2) [OF D(6), of i] h(2) by simp
  have start: "get_next_block_to_write K s = (if current_page_offset ?b < 1
      then write_hdr K (int i * int (pages_per_block s) + current_page_offset ?b) NAND_DATA 0 (mark i s) else Ret (int i, mark i s))"
  proof -
    have r1: "get_healthy_block (s\<lparr>list_lock := True\<rparr>) = get_healthy_block s"
      by (simp add: get_healthy_block_def victims_def lock_simps case_prod_unfold cong del: if_weak_cong)
    have off: "s\<lparr>list_lock := False, blocks := bs\<rparr> = s\<lparr>blocks := bs\<rparr>" for bs using lk(1) by (cases s) simp
    show ?thesis
      using lk(1) h(1) il by (simp add: get_next_block_to_write_def lock_list_def unlock_list_def r1 upd_block_def RESERVED_PG_CNT_def off mark_def)
  qed
  show ?thesis
  proof (cases "current_page_offset ?b = 0")
    case False
    then have "state ?b = BLK_USED" using cnt st nm by (auto simp: v_counts_def block_kind_def)
    then have u: "mark i s = s" by (rule mark_taken [OF il])
    have pos: "0 \<le> current_page_offset ?b" using cnt by (simp add: v_counts_def)
    have "get_next_block_to_write K s = Ret (int i, s)" using start False pos unfolding u by simp
    moreover obtain j where j: "current_page_offset ?b = int j" using pos by (metis nonneg_int_cases)
    moreover have "block_kind s i = Data" using \<open>state ?b = BLK_USED\<close> nm by (simp add: block_kind_def)
    ultimately show ?thesis using that [of s j] inv q ro False by simp
  next
    case True
    obtain t where t: "write_hdr K (int (i * pages_per_block s)) NAND_DATA 0 (mark i s) = Ret (0, t)"
      "par_kv M t" "current_page_offset (blocks t ! i) = 1" "block_kind t i = Data" "par_same s t" "hashtable t = hashtable s" "\<not> read_only t"
      "flash_page byte_at (page_size s) (flash t) (i * pages_per_block s) = replicate (page_size s) 0"
      "blocks t = (blocks s)[i := open_blk ?b]" "full_count t = full_count s" "par_typed byte_at s \<longrightarrow> par_typed byte_at t"
      using par_open [OF inv ro lk h(2) nm True, of "mark i s"] by blast
    have "get_next_block_to_write K s = Ret (0, t)" using start True t(1) by simp
    then show ?thesis
      using that [of t 1] t True g(2) il by (simp add: open_blk_def nth_list_update)
  qed
qed

end

section \<open>Writing a couple\<close>

definition add_blk :: "nat \<Rightarrow> blk_info \<Rightarrow> blk_info" where
  "add_blk h b = b\<lparr>current_page_offset := current_page_offset b + 1, valid_list := h # valid_list b\<rparr>"

lemma par_lists_free:
  assumes "par_rep byte_at good fsize M s" "entry (hashtable s) h = None" "i < nb_blocks s"
  shows "h \<notin> set (valid_list (blocks s ! i))"
  using v_lists_ent [OF view_okD(6) [OF par_repD(6) [OF assms(1)]], of i h] assms(2,3) by auto

context reliable_flash
begin

lemma par_write_couple:
  assumes inv: "par_kv M s" and i: "i < nb_blocks s" "block_kind s i = Data"
    and j: "current_page_offset (blocks s ! i) = int j" "j < pages_per_block s"
    and k: "M k = None" "couple_ok (page_size s) (k, v)" "length k < PAR_KEY_MAX"
    and buf: "length buf = page_size s" "holds_couple buf (k, v)"
    and ro: "\<not> read_only s" and lk: "\<not> list_lock s" "\<not> one_lock s" and room: "index_room (HASH_SIZE s) (hashtable s)"
  obtains u h ht t where
    "write_page K (int (i * pages_per_block s + j)) buf s = Ret (if read_only t then - 1 else 0, u)"
    "par_hash_add (pages_per_block u) (HASH_SIZE u) (hashtable u) k (int (i * pages_per_block s + j)) = Ret (int h, ht)"
    "list_add (int h) (int i) (u\<lparr>list_lock := True, hashtable := ht\<rparr>) = Ret (t\<lparr>list_lock := True\<rparr>)"
    "par_kv (M(k \<mapsto> v)) t" "par_same s u" "par_same s t"
    "\<exists>m ro. t = par_upd i (add_blk h (blocks s ! i)) ht m ro s" "par_typed byte_at s \<longrightarrow> par_typed byte_at t"
proof -
  note D = par_repD [OF inv] and g = par_geometryD [OF par_repD(1) [OF inv]]
  let ?b = "blocks s ! i" and ?p = "i * pages_per_block s + j"
  have il: "i < length (blocks s)" using i(1) D(3) by simp
  have st: "state ?b = BLK_USED" "worn ?b < 2147483647" using D(4) il i(2) by (auto simp: block_states_def block_kind_def split: if_splits)
  have nm: "\<not> is_meta s i" using i(2) by (auto simp: block_kind_def split: if_splits)
  have "v_erased (view_of byte_at s) i" using view_okD(3) [OF D(6), of i] i by simp
  then have er: "flash_page byte_at (page_size s) (flash s) ?p = replicate (page_size s) 255"
    using j by (simp add: v_erased_def)
  have le: "page_size s \<le> length buf" using buf by simp
  obtain m r where m: "good m"
    "\<And>p. flash_page byte_at (page_size s) m p = (if p = ?p then take (page_size s) buf else flash_page byte_at (page_size s) (flash s) p)"
    "r \<longleftrightarrow> is_read_only (par_upd i (next_blk ?b) (hashtable s) m r s)"
    "write_page K (int ?p) buf s = Ret (if r then - 1 else 0, par_upd i (next_blk ?b) (hashtable s) m r s)"
    using par_write_page [OF D(1,2) ro lk(2,1) i(1) D(3) j(2) le er] by blast
  let ?u = "par_upd i (next_blk ?b) (hashtable s) m r s"
  have none: "\<forall>h x. entry (hashtable s) h \<noteq> Some (k, x)"
    using view_okD(4) [OF D(6)] k(1) by (fastforce simp: v_entry_def)
  obtain q' where q': "pages_per_block s = Suc q'" using g(2) by (cases "pages_per_block s") auto
  have kl: "length k < KEY_MAX" using k(3) by (simp add: PAR_KEY_MAX_def KEY_MAX_def)
  obtain h ht where a: "par_hash_add (pages_per_block s) (HASH_SIZE s) (hashtable s) k (int ?p) = Ret (int h, ht)"
    "index_ok (HASH_SIZE s) ht" "entry (hashtable s) h = None" "entry ht = (entry (hashtable s))(h \<mapsto> (k, int ?p))"
    using ht.add_absent [OF D(5) room kl none] unfolding q' par_add_eq [OF k(3)] by blast
  let ?t = "par_upd i (add_blk h ?b) ht m r s"
  have h: "h < length ht" using a(4) by (metis entry_def fun_upd_same option.distinct(1))
  have nl: "\<not> linked h (?u\<lparr>list_lock := True, hashtable := ht\<rparr>)"
    using par_lists_free [OF inv a(3)] D(3) i(1) by (auto simp: linked_def list_ex_length nth_list_update next_blk_def)
  have la: "list_add (int h) (int i) (?u\<lparr>list_lock := True, hashtable := ht\<rparr>) = Ret (?t\<lparr>list_lock := True\<rparr>)"
    using h nl il by (cases s) (simp add: list_add_def upd_block_def par_upd_def next_blk_def add_blk_def)
  have vw: "view_of byte_at ?t = v_append (flash_page byte_at (page_size s) m) i h k j (view_of byte_at s)"
    using st nm a(4) j(1) by (intro view.equality) (auto simp: view_of_upd [OF il] v_append_def add_blk_def fun_eq_iff block_kind_def)
  have "par_kv (M(k \<mapsto> v)) ?t"
  proof (rule par_rep_upd [OF inv i(1) m(1) _ _ a(2)])
    show "state (add_blk h ?b) = BLK_FREE \<or> state (add_blk h ?b) = BLK_USED" "worn (add_blk h ?b) < 2147483647"
      using st by (simp_all add: add_blk_def)
    show "view_ok PAR_KEY_MAX (M(k \<mapsto> v)) (view_of byte_at ?t)"
      unfolding vw using i j k a(3) m(2) buf by (intro v_append_ok [OF D(6), where buf = buf]) simp_all
    have "is_read_only ?t = is_read_only ?u"
    proof -
      have "is_read_only (par_upd i (add_blk h ?b) ht m r ?u) = is_read_only ?u"
        using il by (subst is_read_only_upd) (simp_all add: add_blk_def next_blk_def)
      then show ?thesis by (simp add: is_read_only_def nb_meta_def)
    qed
    with m(3) show "r \<longleftrightarrow> is_read_only ?t" by simp
  qed (use D(8) ro in blast)
  moreover have "par_typed byte_at ?t" if ty: "par_typed byte_at s"
  proof (rule typed_upd [OF ty il])
    have cnt: "v_counts (view_of byte_at s) i" using view_okD(2) [OF D(6), of i] i(1) by simp
    have q: "pages_per_block s \<le> nb_blocks s * pages_per_block s" using i(1) by (cases "nb_blocks s") simp_all
    show "block_fits (add_blk h ?b)"
      using par_typedD(2) [OF ty il] less_le_trans [OF j(2) q] par_typedD(1) [OF ty] j(1) by (simp add: add_blk_def block_fits_def int32_def)
    have "i * pages_per_block s + j < nb_blocks s * pages_per_block s" by (rule page_lt [OF i(1) j(2)])
    then have "int32 (int ?p)" using par_typedD(1) [OF ty] by (simp add: int32_def flip: of_nat_add of_nat_mult)
    then show "\<forall>e \<in> set ht. bucket_typed e"
      using typed_add [OF a(1)] par_typedD(3) [OF ty] k(2) by (simp add: couple_ok_def)
    fix i' assume i': "i' < nb_blocks s" "block_kind ?t i' = Data"
    have "0 < j" using cnt i(2) j(1) by (simp add: v_counts_def)
    then have "i' * pages_per_block s + 0 \<noteq> ?p" using page_inj [of 0 "pages_per_block s" j i' i] j(2) g(2) by auto
    moreover have "block_kind s i' = Data" using i'(2) i(2) il by (cases "i' = i") (simp_all add: block_kind_upd)
    ultimately show "take (length META_HDR_BASE) (flash_page byte_at (page_size s) m (i' * pages_per_block s)) \<noteq> chars META_HDR_BASE"
      using par_typedD(4) [OF ty i'(1)] m(2) by simp
  qed
  ultimately show ?thesis using m(4) a(1) la that [of ?t ?u h ht] by auto
qed

end

section \<open>Setting a couple\<close>

text \<open>The block a couple goes to is open already, or it is block 0.\<close>

definition can_write :: "'m lkp_kv \<Rightarrow> bool" where
  "can_write s \<longleftrightarrow> (case get_healthy_block s of
     Ret b \<Rightarrow> 0 \<le> b \<and> (b = 0 \<or> current_page_offset (blocks s ! nat b) \<noteq> 0) | _ \<Rightarrow> False)"

text \<open>The next \<open>gc_check\<close> neither collects nor flushes.\<close>

definition quiet :: "'m lkp_kv \<Rightarrow> bool" where
  "quiet s \<longleftrightarrow> (is_gb s = 0 \<or> pages_per_block s < 64 \<or> (\<forall>b \<in> set (blocks s). nb_invalid b + 1 < INVALID_THRESHOLD2))
     \<and> write_cnt s < FLUSH_THRESHOLD2"

lemma gc_check_quiet:
  assumes "is_gb s = 0 \<or> pages_per_block s < 64 \<or> (\<forall>b \<in> set (blocks s). nb_invalid b < INVALID_THRESHOLD2)" "write_cnt s < FLUSH_THRESHOLD2"
  shows "\<exists>x. gc_check K s = Ret (s\<lparr>is_gb := x, write_cnt := Suc (write_cnt s)\<rparr>)"
proof -
  have "\<exists>x. (if list_ex (\<lambda>b. INVALID_THRESHOLD2 \<le> nb_invalid b) (blocks s) then gc K s else Ret s) = Ret (s\<lparr>is_gb := x\<rparr>)"
  proof (cases "list_ex (\<lambda>b. INVALID_THRESHOLD2 \<le> nb_invalid b) (blocks s)")
    case True
    then have "is_gb s = 0 \<or> pages_per_block s < 64" using assms(1) by (force simp: list_ex_iff)
    then have "gc K s = Ret (s\<lparr>is_gb := if pages_per_block s < 64 then is_gb s else 1\<rparr>)"
      by (elim disjE) (simp_all add: gc_def cmpxchg01_def Let_def)
    with True show ?thesis by (intro exI [of _ "if pages_per_block s < 64 then is_gb s else 1"]) simp
  next
    case False
    then show ?thesis by (intro exI [of _ "is_gb s"]) simp
  qed
  then obtain x where e: "(if list_ex (\<lambda>b. INVALID_THRESHOLD2 \<le> nb_invalid b) (blocks s) then gc K s else Ret s) = Ret (s\<lparr>is_gb := x\<rparr>)" ..
  have "gc_check K s = Ret (s\<lparr>is_gb := x, write_cnt := Suc (write_cnt s)\<rparr>)"
    unfolding gc_check_def e using assms(2) by (simp add: Let_def)
  then show ?thesis ..
qed

lemma gc_check_quiet_step:
  assumes qt: "quiet s" and same: "par_same s t" and len: "length (blocks s) = nb_blocks s" "length (blocks t) = nb_blocks s"
    and inv: "\<forall>i < nb_blocks s. nb_invalid (blocks t ! i) \<le> nb_invalid (blocks s ! i) + 1"
  obtains x where "gc_check K t = Ret (t\<lparr>is_gb := x, write_cnt := Suc (write_cnt t)\<rparr>)"
proof -
  have "\<forall>b \<in> set (blocks t). nb_invalid b < INVALID_THRESHOLD2" if *: "\<forall>b \<in> set (blocks s). nb_invalid b + 1 < INVALID_THRESHOLD2"
  proof
    fix b assume "b \<in> set (blocks t)"
    then obtain i where i: "i < nb_blocks s" "b = blocks t ! i" using len(2) by (auto simp: in_set_conv_nth)
    then have "nb_invalid (blocks s ! i) + 1 < INVALID_THRESHOLD2" using * len(1) by simp
    with inv i show "nb_invalid b < INVALID_THRESHOLD2" by force
  qed
  then have "is_gb t = 0 \<or> pages_per_block t < 64 \<or> (\<forall>b \<in> set (blocks t). nb_invalid b < INVALID_THRESHOLD2)" "write_cnt t < FLUSH_THRESHOLD2"
    using qt par_sameD(2,12,13) [OF same] unfolding quiet_def by auto
  from gc_check_quiet [OF this] that show ?thesis by blast
qed

lemma get_healthy_locks: "get_healthy_block (s\<lparr>erase_lock := x\<rparr>) = get_healthy_block s" "get_healthy_block (s\<lparr>list_lock := x\<rparr>) = get_healthy_block s"
  by (simp_all add: get_healthy_block_def victims_def lock_simps case_prod_unfold cong del: if_weak_cong)

lemma set_keyval_locked:
  "\<not> erase_lock s \<Longrightarrow> set_keyval K k v s = obind (set_body K k v (s\<lparr>erase_lock := True\<rparr>)) (\<lambda>(ret, written, s).
     if written then obind (gc_check K s) (\<lambda>s. Ret (ret, s)) else Ret (ret, s))"
  by (simp add: set_keyval_def lock_erase_def)

text \<open>What \<open>set_keyval\<close> does to the other blocks and to the wear: nothing.\<close>

definition one_touched :: "'m lkp_kv \<Rightarrow> 'm lkp_kv \<Rightarrow> bool" where
  "one_touched s t \<longleftrightarrow> (\<exists>i. \<not> is_meta s i \<and> (\<forall>i' < nb_blocks s. worn (blocks t ! i') = worn (blocks s ! i')
     \<and> (i' \<noteq> i \<longrightarrow> state (blocks t ! i') = state (blocks s ! i')
          \<and> current_page_offset (blocks t ! i') = current_page_offset (blocks s ! i'))))"

context reliable_flash
begin

text \<open>Invalidating the entry a key has, if it has one.\<close>

lemma par_drop_key:
  assumes inv: "par_kv M s" and room: "index_room (HASH_SIZE s) (hashtable s)"
  obtains r t where "par_hash_search (HASH_SIZE s) (hashtable s) k = Ret r" "(if 0 \<le> r then invalid_pg r s else Ret s) = Ret t"
    "par_kv (M(k := None)) t" "par_same s t" "read_only t = read_only s"
    "map (\<lambda>b. (worn b, current_page_offset b)) (blocks t) = map (\<lambda>b. (worn b, current_page_offset b)) (blocks s)"
    "\<forall>i. nb_invalid (blocks t ! i) \<le> nb_invalid (blocks s ! i) + 1"
    "index_room (HASH_SIZE t) (hashtable t)" "par_typed byte_at s \<longrightarrow> par_typed byte_at t"
    "map state (blocks t) = map state (blocks s)"
proof (cases "M k")
  case None
  then have "M(k := None) = M" by auto
  with None par_search_map [OF inv, of k] inv room that [of _ s] show ?thesis by force
next
  case (Some w)
  with par_search_map [OF inv, of k] obtain h x
    where h: "par_hash_search (HASH_SIZE s) (hashtable s) k = Ret (int h)" "entry (hashtable s) h = Some (k, x)" by auto
  obtain i where i: "i < nb_blocks s"
    "invalid_pg (int h) s = Ret (par_upd i (drop_blk h (blocks s ! i)) (release h (hashtable s)) (flash s) (read_only s) s)"
    "par_kv (M(k := None)) (par_upd i (drop_blk h (blocks s ! i)) (release h (hashtable s)) (flash s) (read_only s) s)"
    "block_kind s i = Data"
    by (rule par_invalid_pg [OF inv h(2)])
  have il: "i < length (blocks s)" using i(1) par_repD(3) [OF inv] by simp
  have ty: "par_typed byte_at (par_upd i (drop_blk h (blocks s ! i)) (release h (hashtable s)) (flash s) (read_only s) s)"
    if "par_typed byte_at s" by (rule typed_drop [OF inv h(2) i(1,3) that i(4)])
  show ?thesis
    by (rule that [OF h(1), of "par_upd i (drop_blk h (blocks s ! i)) (release h (hashtable s)) (flash s) (read_only s) s"])
      (use i il room ty in \<open>auto simp: map_upd_same drop_blk_def nth_list_update index_room_release\<close>)
qed

text \<open>\<open>set_keyval\<close> up to the choice of the block.\<close>

lemma par_set_prefix:
  assumes inv: "par_inv byte_at good fsize M s" and ro: "\<not> read_only s" and k: "couple_ok (page_size s) (k, v)"
    and room: "index_room (HASH_SIZE s) (hashtable s)"
  obtains u where "par_kv (M(k := None)) u" "\<not> read_only u" "\<not> list_lock u" "\<not> one_lock u" "erase_lock u"
    "par_same (s\<lparr>erase_lock := True\<rparr>) u" "get_healthy_block u = get_healthy_block s"
    "map current_page_offset (blocks u) = map current_page_offset (blocks s)"
    "\<forall>i. nb_invalid (blocks u ! i) \<le> nb_invalid (blocks s ! i) + 1" "index_room (HASH_SIZE u) (hashtable u)"
    "par_typed byte_at s \<longrightarrow> par_typed byte_at u" "map state (blocks u) = map state (blocks s)" "map worn (blocks u) = map worn (blocks s)"
    "set_body K k v (s\<lparr>erase_lock := True\<rparr>) = obind (get_next_block_to_write K u) (\<lambda>(target_block, s').
       if target_block = - 1 then Ret (- 3, False, s')
       else obind (set_store K k (couple_image (page_size s) (k, v)) target_block s') (\<lambda>(ret, s). Ret (ret, True, s)))"
proof -
  note I = par_invD [OF inv]
  note D = par_repD [OF I(1)]
  let ?s = "s\<lparr>erase_lock := True, list_lock := True\<rparr>"
  have kv0: "par_kv M ?s" using I(1) by (simp add: lock_simps)
  have room0: "index_room (HASH_SIZE ?s) (hashtable ?s)" using room by simp
  obtain r t1 where t1: "par_hash_search (HASH_SIZE ?s) (hashtable ?s) k = Ret r" "(if 0 \<le> r then invalid_pg r ?s else Ret ?s) = Ret t1"
    "par_kv (M(k := None)) t1" "par_same ?s t1" "read_only t1 = read_only ?s"
    "map (\<lambda>b. (worn b, current_page_offset b)) (blocks t1) = map (\<lambda>b. (worn b, current_page_offset b)) (blocks ?s)"
    "\<forall>i. nb_invalid (blocks t1 ! i) \<le> nb_invalid (blocks ?s ! i) + 1" "index_room (HASH_SIZE t1) (hashtable t1)" "par_typed byte_at ?s \<longrightarrow> par_typed byte_at t1"
    "map state (blocks t1) = map state (blocks ?s)"
    using par_drop_key [OF kv0 room0, of k] by blast
  define u where "u = unlock_list t1"
  note S1 = par_sameD [OF t1(4)]
  have u: "par_kv (M(k := None)) u" "\<not> read_only u" "\<not> list_lock u" "\<not> one_lock u" "blocks u = blocks t1" "hashtable u = hashtable t1"
    "erase_lock u" "page_size u = page_size s" "HASH_SIZE u = HASH_SIZE t1"
    using t1(3,5) ro I(4) S1 by (simp_all add: u_def unlock_list_def lock_simps)
  have same: "par_same (s\<lparr>erase_lock := True\<rparr>) u" using t1(4) I(3) by (simp add: par_same_def u_def unlock_list_def)
  have gh: "get_healthy_block u = get_healthy_block s"
    using get_healthy_cong [OF t1(4,6)] D(3) by (simp add: u_def unlock_list_def get_healthy_locks)
  have off: "map current_page_offset (blocks u) = map current_page_offset (blocks s)"
    using arg_cong [OF t1(6), of "map snd"] u(5) by (simp add: comp_def)
  have wo: "map worn (blocks u) = map worn (blocks s)"
    using arg_cong [OF t1(6), of "map fst"] u(5) by (simp add: comp_def)
  obtain bf where bf: "k_kmalloc K (flash s) (page_size s) = Some bf" using kmalloc_ok [OF D(2)] by blast
  have big: "\<not> length k + length v + 8 > page_size s" using k(1) by (simp add: couple_ok_def)
  note fb = fill_buffer_image [OF k(1)]
  have eq: "set_body K k v (s\<lparr>erase_lock := True\<rparr>) = obind (get_next_block_to_write K u) (\<lambda>(target_block, s').
       if target_block = - 1 then Ret (- 3, False, s')
       else obind (set_store K k (couple_image (page_size s) (k, v)) target_block s') (\<lambda>(ret, s). Ret (ret, True, s)))"
    using big ro bf I(2,3) t1(1,2) fb S1(3)
    by (simp add: set_body_def lock_list_def u_def [symmetric])
  show ?thesis
    by (rule that [OF u(1-4,7) same gh off _ _ _ _ wo eq]) (use t1(7-10) u in \<open>simp_all add: lock_simps u_def unlock_list_def\<close>)
qed

text \<open>The couple goes behind the pages of an open data block.\<close>

lemma par_set_store:
  assumes inv: "par_kv M s" and i: "i < nb_blocks s" "block_kind s i = Data"
    and j: "current_page_offset (blocks s ! i) = int j" "j < pages_per_block s"
    and k: "M k = None" "couple_ok (page_size s) (k, v)" "length k < PAR_KEY_MAX"
    and buf: "length buf = page_size s" "holds_couple buf (k, v)"
    and ro: "\<not> read_only s" and lk: "\<not> list_lock s" "\<not> one_lock s" and room: "index_room (HASH_SIZE s) (hashtable s)"
  obtains t where "par_inv byte_at good fsize (M(k \<mapsto> v)) t" "par_same s (t\<lparr>erase_lock := erase_lock s\<rparr>)"
    "map nb_invalid (blocks t) = map nb_invalid (blocks s)" "full_count t \<le> full_count s + 1"
    "par_typed byte_at s \<longrightarrow> par_typed byte_at t" "\<forall>i'. i' \<noteq> i \<longrightarrow> blocks t ! i' = blocks s ! i'"
    "\<forall>i'. worn (blocks t ! i') = worn (blocks s ! i')"
    "set_store K k buf (int i) s = Ret (if read_only t then - 3 else 0, t)"
proof -
  obtain u h ht t where t:
    "write_page K (int (i * pages_per_block s + j)) buf s = Ret (if read_only t then - 1 else 0, u)"
    "par_hash_add (pages_per_block u) (HASH_SIZE u) (hashtable u) k (int (i * pages_per_block s + j)) = Ret (int h, ht)"
    "list_add (int h) (int i) (u\<lparr>list_lock := True, hashtable := ht\<rparr>) = Ret (t\<lparr>list_lock := True\<rparr>)"
    "par_kv (M(k \<mapsto> v)) t" "par_same s u" "par_same s t" "\<exists>m ro. t = par_upd i (add_blk h (blocks s ! i)) ht m ro s"
    "par_typed byte_at s \<longrightarrow> par_typed byte_at t"
    by (rule par_write_couple [OF inv i j k buf ro lk room])
  have il: "i < length (blocks s)" using i(1) par_repD(3) [OF inv] by simp
  have idx: "int i * int (pages_per_block s) + current_page_offset (blocks s ! i) = int (i * pages_per_block s + j)" using j(1) by simp
  have lu: "\<not> list_lock u" using par_sameD(6) [OF t(5)] lk(1) by simp
  let ?t = "t\<lparr>list_lock := False, erase_lock := False, recent_update := 1\<rparr>"
  have "set_store K k buf (int i) s = Ret (if read_only ?t then - 3 else 0, ?t)"
    using il idx t(1-3) lu
    by (simp add: set_store_def lock_list_def unlock_list_def unlock_erase_def Let_def del: of_nat_add of_nat_mult)
  moreover have "par_inv byte_at good fsize (M(k \<mapsto> v)) ?t"
    using t(4) par_sameD(7) [OF t(6)] lk(2) by (simp add: par_inv_def unlocked_def lock_simps)
  moreover have "par_same s (?t\<lparr>erase_lock := erase_lock s\<rparr>)" using t(6) lk(1) by (simp add: par_same_def)
  moreover have "map nb_invalid (blocks ?t) = map nb_invalid (blocks s)" using t(7) by (auto simp: add_blk_def map_upd_same)
  moreover have "full_count ?t \<le> full_count s + 1"
    using t(7) full_count_upd [OF il, of "add_blk h (blocks s ! i)" ht] by (auto simp: full_count_def)
  moreover have "par_typed byte_at ?t" if "par_typed byte_at s" using t(8) that by (simp add: lock_simps)
  moreover have "\<forall>i'. i' \<noteq> i \<longrightarrow> blocks ?t ! i' = blocks s ! i'" "\<forall>i'. worn (blocks ?t ! i') = worn (blocks s ! i')"
    using t(7) il by (auto simp: add_blk_def nth_list_update)
  ultimately show ?thesis using that [of ?t] by blast
qed

text \<open>\<open>set_keyval\<close> up to \<open>gc_check\<close>.\<close>

lemma par_set_writes:
  assumes inv: "par_inv byte_at good fsize M s" and ro: "\<not> read_only s" and k: "couple_ok (page_size s) (k, v)" "length k < PAR_KEY_MAX"
    and cw: "can_write s" and room: "index_room (HASH_SIZE s) (hashtable s)"
  obtains t where "par_inv byte_at good fsize (M(k \<mapsto> v)) t" "par_same s t"
    "\<forall>i < nb_blocks s. nb_invalid (blocks t ! i) \<le> nb_invalid (blocks s ! i) + 1" "full_count t \<le> full_count s + 1"
    "par_typed byte_at s \<longrightarrow> par_typed byte_at t" "one_touched s t"
    "set_keyval K k v s = obind (gc_check K t) (\<lambda>u. Ret (if read_only t then - 3 else 0, u))"
    "set_body K k v (s\<lparr>erase_lock := True\<rparr>) = Ret (if read_only t then - 3 else 0, True, t)"
proof -
  obtain u where u: "par_kv (M(k := None)) u" "\<not> read_only u" "\<not> list_lock u" "\<not> one_lock u" "erase_lock u"
    "par_same (s\<lparr>erase_lock := True\<rparr>) u" "get_healthy_block u = get_healthy_block s"
    "map current_page_offset (blocks u) = map current_page_offset (blocks s)"
    "\<forall>i. nb_invalid (blocks u ! i) \<le> nb_invalid (blocks s ! i) + 1" "index_room (HASH_SIZE u) (hashtable u)"
    "par_typed byte_at s \<longrightarrow> par_typed byte_at u" "map state (blocks u) = map state (blocks s)" "map worn (blocks u) = map worn (blocks s)"
    "set_body K k v (s\<lparr>erase_lock := True\<rparr>) = obind (get_next_block_to_write K u) (\<lambda>(target_block, s').
       if target_block = - 1 then Ret (- 3, False, s')
       else obind (set_store K k (couple_image (page_size s) (k, v)) target_block s') (\<lambda>(ret, s). Ret (ret, True, s)))"
    by (rule par_set_prefix [OF inv ro k(1) room])
  note Du = par_repD [OF u(1)] and S1 = par_sameD [OF u(6), simplified]
  have len: "length (blocks s) = nb_blocks s" using par_repD(3) [OF par_invD(1) [OF inv]] .
  have "get_healthy_block u \<noteq> Ret (- 1)" unfolding u(7) using cw by (auto simp: can_write_def)
  with get_healthy_spec [OF par_geometryD(10) [OF Du(1)] Du(3,4)]
  obtain i where i: "get_healthy_block u = Ret (int i)" "i < nb_blocks u" "available u i"
    by (metis (full_types))
  obtain t2 j where t2: "get_next_block_to_write K u = Ret (if current_page_offset (blocks u ! i) = 0 then 0 else int i, t2)"
    "par_kv (M(k := None)) t2" "current_page_offset (blocks t2 ! i) = int j" "j < pages_per_block u" "block_kind t2 i = Data" "par_same u t2"
    "hashtable t2 = hashtable u" "\<not> read_only t2" "\<forall>i'. nb_invalid (blocks t2 ! i') = nb_invalid (blocks u ! i')"
    "full_count t2 = full_count u" "par_typed byte_at u \<longrightarrow> par_typed byte_at t2"
    "\<forall>i'. i' \<noteq> i \<longrightarrow> blocks t2 ! i' = blocks u ! i'" "\<forall>i'. worn (blocks t2 ! i') = worn (blocks u ! i')"
    by (rule par_next [OF u(1-4) i])
  note S2 = par_sameD [OF t2(6)]
  have "current_page_offset (blocks u ! i) = current_page_offset (blocks s ! i)"
    using u(8) i(2) S1(1) len Du(3) by (metis nth_map)
  then have nx: "get_next_block_to_write K u = Ret (int i, t2)"
    using t2(1) cw i(1) u(7) by (auto simp: can_write_def)
  have none: "(M(k := None)) k = None" by simp
  have i2: "i < nb_blocks t2" "j < pages_per_block t2" "\<not> list_lock t2" "\<not> one_lock t2" "couple_ok (page_size t2) (k, v)"
    "length (couple_image (page_size s) (k, v)) = page_size t2" "index_room (HASH_SIZE t2) (hashtable t2)"
    using i(2) t2(4,7) S2 u(3,4,10) k(1) S1 by simp_all
  obtain t where t: "par_inv byte_at good fsize ((M(k := None))(k \<mapsto> v)) t" "par_same t2 (t\<lparr>erase_lock := erase_lock t2\<rparr>)"
    "map nb_invalid (blocks t) = map nb_invalid (blocks t2)" "full_count t \<le> full_count t2 + 1"
    "par_typed byte_at t2 \<longrightarrow> par_typed byte_at t" "\<forall>i'. i' \<noteq> i \<longrightarrow> blocks t ! i' = blocks t2 ! i'"
    "\<forall>i'. worn (blocks t ! i') = worn (blocks t2 ! i')"
    "set_store K k (couple_image (page_size s) (k, v)) (int i) t2 = Ret (if read_only t then - 3 else 0, t)"
    by (rule par_set_store [OF t2(2) i2(1) t2(5,3) i2(2) none i2(5) k(2) i2(6) image_holds t2(8) i2(3,4,7)])
  note I = par_invD [OF inv] and J = par_invD [OF t(1)]
  have "par_same s t" using u(6) t2(6) t(2) I(2-4) J(2-4) by (simp add: par_same_def)
  moreover have "\<forall>i' < nb_blocks s. nb_invalid (blocks t ! i') \<le> nb_invalid (blocks s ! i') + 1"
  proof (intro allI impI)
    fix i' assume "i' < nb_blocks s"
    then have "nb_invalid (blocks t ! i') = nb_invalid (blocks t2 ! i')"
      using t(3) par_repD(3) [OF J(1)] par_repD(3) [OF t2(2)] \<open>par_same s t\<close> S1(1) S2(1) by (metis nth_map par_sameD(1))
    with t2(9) u(9) [rule_format, of i'] show "nb_invalid (blocks t ! i') \<le> nb_invalid (blocks s ! i') + 1" by simp
  qed
  moreover have b: "set_body K k v (s\<lparr>erase_lock := True\<rparr>) = Ret (if read_only t then - 3 else 0, True, t)"
    using u(14) nx t(8) by simp
  moreover have "set_keyval K k v s = obind (gc_check K t) (\<lambda>u. Ret (if read_only t then - 3 else 0, u))"
    unfolding set_keyval_locked [OF I(2)] b by simp
  moreover have "full_count t \<le> full_count s + 1" using t(4) t2(10) full_count_offsets [OF u(8) S1(2)] by simp
  moreover have "par_typed byte_at t" if "par_typed byte_at s" using that u(11) t2(11) t(5) by blast
  moreover have "one_touched s t"
    unfolding one_touched_def
  proof (rule exI [of _ i], rule conjI)
    show "\<not> is_meta s i" using i(3) par_sameD(11) [OF u(6)] by (simp add: available_def is_meta_def nb_meta_def)
    show "\<forall>i' < nb_blocks s. worn (blocks t ! i') = worn (blocks s ! i')
       \<and> (i' \<noteq> i \<longrightarrow> state (blocks t ! i') = state (blocks s ! i') \<and> current_page_offset (blocks t ! i') = current_page_offset (blocks s ! i'))"
    proof (intro allI impI)
      fix i' assume i': "i' < nb_blocks s"
      have l: "i' < length (blocks s)" "i' < length (blocks u)" using i' len Du(3) S1(1) by simp_all
      have "state (blocks u ! i') = state (blocks s ! i')" "worn (blocks u ! i') = worn (blocks s ! i')"
        "current_page_offset (blocks u ! i') = current_page_offset (blocks s ! i')"
        using l u(8,12,13) by (metis nth_map)+
      then show "worn (blocks t ! i') = worn (blocks s ! i') \<and> (i' \<noteq> i \<longrightarrow> state (blocks t ! i') = state (blocks s ! i')
          \<and> current_page_offset (blocks t ! i') = current_page_offset (blocks s ! i'))"
        using t(6,7) t2(12,13) by simp
    qed
  qed
  ultimately show ?thesis using that [of t] t(1) by simp
qed

end

end
