(* ===== verification/ParallelInit.thy ===== *)
theory ParallelInit
  imports ParallelWrite ParallelTables
begin

text \<open>
  Formatting the partition of the third prototype, and loading the module on an erased one: both
  establish the invariant for the empty map.
\<close>

lemma blank_view:
  assumes "1 < pages_per_block s" "length (blocks s) = nb_blocks s" "entry (hashtable s) = Map.empty"
    and "\<forall>b \<in> set (blocks s). valid_list b = [] \<and> state b = BLK_FREE \<and> nb_invalid b = 0 \<and> current_page_offset b = 0"
    and "\<forall>p < nb_blocks s * pages_per_block s. flash_page B (page_size s) (flash s) p = replicate (page_size s) 255"
  shows "view_ok PAR_KEY_MAX Map.empty (view_of B s)"
proof (rule view_ok_empty)
  fix i assume "i < v_nb (view_of B s)"
  then have i: "i < nb_blocks s" by simp
  then have b: "valid_list (blocks s ! i) = []" "state (blocks s ! i) = BLK_FREE" "nb_invalid (blocks s ! i) = 0"
    "current_page_offset (blocks s ! i) = 0"
    using assms(2,4) nth_mem [of i "blocks s"] by auto
  then show "v_kind (view_of B s) i \<noteq> Data \<and> v_counts (view_of B s) i"
    by (simp add: v_counts_def block_kind_def)
  show "v_erased (view_of B s) i"
    using assms(5) page_lt [OF i] by (simp add: v_erased_def)
qed (use assms(1,3) in simp_all)

lemma not_read_only_blank:
  assumes "\<forall>b \<in> set (blocks s). current_page_offset b = 0" "0 < pages_per_block s" "nb_meta 0 s \<le> nb_blocks s"
  shows "\<not> is_read_only s"
proof -
  have "filter (\<lambda>b. int (pages_per_block s) \<le> current_page_offset b) (blocks s) = []"
    using assms(1,2) by (auto simp: filter_empty_conv)
  moreover have "0 < nb_meta 0 s" by (simp add: nb_meta_def)
  ultimately show ?thesis using assms(3) by (simp add: is_read_only_def)
qed

context reliable_flash
begin

section \<open>Format\<close>

lemma par_format:
  assumes g: "par_geometry s fsize" and gd: "good (flash s)" and u: "unlocked s"
    and len: "length (blocks s) = nb_blocks s" "length (hashtable s) = HASH_SIZE s" and nm: "nb_meta 0 s \<le> nb_blocks s"
  obtains t where "format K s = Ret (0, t)" "par_inv byte_at good fsize Map.empty t" "\<not> read_only t"
    "nb_blocks t = nb_blocks s" "pages_per_block t = pages_per_block s" "page_size t = page_size s"
proof -
  note G = par_geometryD [OF g]
  have f0: "fsize = nb_blocks s * (pages_per_block s * page_size s)" using G(8) by (simp add: mult_ac)
  have sz: "block_size s * nb_blocks s = fsize" using G(6) f0 by (simp add: mult_ac)
  from erase_ok [OF gd, of 0 fsize] obtain m where m: "k_erase K (flash s) 0 fsize = (0, Some MTD_ERASE_DONE, m)" "good m"
    by auto
  let ?blk = "\<lambda>b. b\<lparr>valid_list := [], state := BLK_FREE, worn := 0, nb_invalid := 0, current_page_offset := 0\<rparr>"
  define t where "t = s\<lparr>format_done := 1, flash := m, read_only := False, blocks := map ?blk (blocks s),
         hashtable := map (\<lambda>b. b\<lparr>p_state := PG_FREE, dirty := False\<rparr>) (hashtable s), meta_read_only := False\<rparr>"
  have f: "format K s = Ret (0, t)"
    using m(1) sz u unfolding t_def
    by (cases s) (simp add: format_def lock_erase_def lock_list_def unlock_erase_def unlock_list_def erase_wait_def format_callback_def Let_def unlocked_def)
  have er: "flash_page byte_at (page_size s) m p = replicate (page_size s) 255" if "p < nb_blocks s * pages_per_block s" for p
  proof -
    have "k_erase K (flash s) (0 * (pages_per_block s * page_size s)) (nb_blocks s * (pages_per_block s * page_size s))
        = (0, Some MTD_ERASE_DONE, m)"
      using m(1) unfolding f0 by simp
    from page_erase [OF this, of p] that show ?thesis by simp
  qed
  have T: "nb_blocks t = nb_blocks s" "pages_per_block t = pages_per_block s" "page_size t = page_size s" "flash t = m"
    "length (blocks t) = length (blocks s)" "nb_meta x t = nb_meta x s" "HASH_SIZE t = HASH_SIZE s" "meta_blkordr t = meta_blkordr s" for x
    by (simp_all add: t_def nb_meta_def)
  have bl: "\<forall>b \<in> set (blocks t). valid_list b = [] \<and> state b = BLK_FREE \<and> nb_invalid b = 0 \<and> current_page_offset b = 0 \<and> worn b = 0"
    by (auto simp: t_def)
  have ent: "entry (hashtable t) = Map.empty" by (auto simp: entry_def t_def fun_eq_iff)
  have nro: "\<not> is_read_only t"
    by (rule not_read_only_blank) (use bl G(2) nm T in auto)
  have "par_rep byte_at good fsize Map.empty t"
    unfolding par_rep_def
  proof (intro conjI)
    show "par_geometry t fsize" using g by (auto simp: par_geometry_def t_def nb_meta_def)
    show "index_ok (HASH_SIZE t) (hashtable t)"
      unfolding index_ok_def ent using G(1,2,7) len by (simp add: t_def)
    show "view_ok PAR_KEY_MAX Map.empty (view_of byte_at t)"
      by (rule blank_view) (use bl T G(2) len ent er in auto)
    show "read_only t = is_read_only t" using nro by (simp add: t_def)
  qed (use m(2) len T bl in \<open>auto simp: block_states_def t_def\<close>)
  moreover have "unlocked t" using u by (simp add: unlocked_def t_def)
  ultimately show ?thesis using that [OF f] T by (simp add: par_inv_def t_def)
qed

section \<open>Loading an erased partition\<close>

lemma scan_blocks_blank:
  assumes g: "par_geometry s fsize" and gd: "good (flash s)" and lk: "\<not> one_lock s"
    and er: "\<forall>p < nb_blocks s * pages_per_block s. flash_page byte_at (page_size s) (flash s) p = replicate (page_size s) 255"
  shows "\<forall>i \<in> set is. i < nb_blocks s \<Longrightarrow> \<not> scan_done st \<Longrightarrow> page_size s \<le> length (scan_buf st) \<Longrightarrow>
    \<exists>b. ofold (scan_block K s) is st = Ret (st\<lparr>scan_buf := b\<rparr>)"
proof (induction "is" arbitrary: st)
  case Nil
  then show ?case by (intro exI [of _ "scan_buf st"]) simp
next
  case (Cons i "is")
  note G = par_geometryD [OF g]
  let ?b = "replicate (page_size s) 255 @ drop (page_size s) (scan_buf st)"
  have i: "i < nb_blocks s" "0 < pages_per_block s" using Cons.prems(1) G(2) by simp_all
  have rd: "read_page K (int (i * pages_per_block s)) s = Ret (0, replicate (page_size s) 255)"
    using par_read_page [OF g gd i lk] er page_lt [OF i] by simp
  have st: "mem_store (scan_buf st) 0 (replicate (page_size s) 255) = Ret ?b"
    using Cons.prems(3) by (simp add: mem_store_def)
  have sl: "mem_slice ?b 0 (int (length META_HDR_BASE)) = Ret (replicate (length META_HDR_BASE) 255)"
    using mem_slice_int [of 0 "length META_HDR_BASE" ?b] G(3) by (simp add: META_HDR_BASE_def numeral_eq_Suc Cons_replicate_eq)
  have ne: "replicate (length META_HDR_BASE) 255 \<noteq> chars META_HDR_BASE"
    by (simp add: META_HDR_BASE_def chars_def)
  have "scan_block K s i st = Ret (st\<lparr>scan_buf := ?b\<rparr>)"
    using rd st sl ne Cons.prems(2) by (simp add: scan_block_def Let_def del: of_nat_mult)
  moreover obtain b where "ofold (scan_block K s) is (st\<lparr>scan_buf := ?b\<rparr>) = Ret (st\<lparr>scan_buf := b\<rparr>)"
    using Cons.IH [of "st\<lparr>scan_buf := ?b\<rparr>"] Cons.prems by auto
  ultimately show ?case by auto
qed

end

lemma blank_tables:
  assumes "blocks s = replicate n new_block" "hashtable s = replicate m new_bucket"
  shows "map (loaded_block (blocks_image K s)) [0..<n] = replicate n new_block"
    "map (\<lambda>h. bytes_bucket (drop (h * SIZEOF_BUCKET) (hash_image K s))) [0..<m] = replicate m new_bucket"
proof -
  have "block_fits new_block" "bucket_fits new_bucket" "new_block\<lparr>valid_list := []\<rparr> = new_block"
    by (simp_all add: block_fits_def bucket_fits_def new_block_def new_bucket_def int32_def blk_state_int_def page_state_int_def
        cstring_def PAR_KEY_MAX_def)
  then show "map (loaded_block (blocks_image K s)) [0..<n] = replicate n new_block"
    "map (\<lambda>h. bytes_bucket (drop (h * SIZEOF_BUCKET) (hash_image K s))) [0..<m] = replicate m new_bucket"
    using block_image_nth [of _ s K] bucket_image_nth [of _ s K] assms by (auto intro!: nth_equalityI)
qed

lemma link_valid_free:
  assumes "\<forall>h \<in> set hs. h < length (hashtable s) \<and> p_state (hashtable s ! h) \<noteq> PG_VALID"
  shows "ofold link_valid hs s = Ret s"
  using assms by (induction hs) (simp_all add: link_valid_def)

context reliable_flash
begin

lemma par_init_scan_blank:
  assumes g: "par_geometry s fsize" and gd: "good (flash s)" and u: "unlocked s" and ro: "\<not> read_only s" "\<not> meta_read_only s"
    and tb: "blocks s = replicate (nb_blocks s) new_block" "hashtable s = replicate (HASH_SIZE s) new_bucket"
      "metadata_size s = hashtable_size s + block_info_size s"
    and nm: "nb_meta 0 s \<le> nb_blocks s"
    and er: "\<forall>p < nb_blocks s * pages_per_block s. flash_page byte_at (page_size s) (flash s) p = replicate (page_size s) 255"
  shows "init_scan K s = Ret (0, s)" "par_inv byte_at good fsize Map.empty s"
proof -
  note G = par_geometryD [OF g]
  let ?s = "s\<lparr>erase_lock := True\<rparr>"
  obtain bf where bf: "k_kmalloc K (flash s) (meta_page_size s) = Some bf" "meta_page_size s \<le> length bf" using kmalloc_ok [OF gd] by blast
  obtain lh where lh: "k_kmalloc K (flash s) SIZEOF_LIST_HEAD = Some lh" using kmalloc_ok [OF gd] by blast
  let ?b = "replicate (meta_page_size s) 0 @ drop (meta_page_size s) bf"
  have ent: "entry (hashtable s) = Map.empty" unfolding tb(2) by (auto simp: entry_def new_bucket_def fun_eq_iff)
  have bl: "\<forall>b \<in> set (blocks s). valid_list b = [] \<and> state b = BLK_FREE \<and> nb_invalid b = 0 \<and> current_page_offset b = 0 \<and> worn b = 0"
    unfolding tb(1) by (simp add: new_block_def)
  have nro: "\<not> is_read_only s"
    by (rule not_read_only_blank) (use bl G(2) nm in auto)
  have "par_rep byte_at good fsize Map.empty s"
    unfolding par_rep_def
  proof (intro conjI)
    show "length (blocks s) = nb_blocks s" using arg_cong [OF tb(1), of length] by simp
    show "index_ok (HASH_SIZE s) (hashtable s)"
      unfolding index_ok_def ent using G(1,2,7) arg_cong [OF tb(2), of length] by simp
    show "view_ok PAR_KEY_MAX Map.empty (view_of byte_at s)"
      by (rule blank_view) (use bl G(2) ent er arg_cong [OF tb(1), of length] in auto)
  qed (use g gd nro ro bl in \<open>auto simp: block_states_def\<close>)
  then show "par_inv byte_at good fsize Map.empty s" using u by (simp add: par_inv_def)
  have s1: "?s\<lparr>metadata_size := hashtable_size ?s + block_info_size ?s\<rparr> = ?s"
    using tb(3) by (cases s) simp
  define st where "st = \<lparr>scan_done = False, ram_pg_cnt = 0, jack_ofs = 0, scan_buf = ?b, blk_mem = blocks_image K ?s,
      hash_mem = hash_image K ?s, scan_order = meta_blkordr ?s\<rparr>"
  have one: "\<not> one_lock ?s" using u by (simp add: unlocked_def)
  have gs: "par_geometry ?s fsize" "good (flash ?s)" using g gd by (simp_all add: lock_simps)
  obtain b where b: "ofold (scan_block K ?s) [0..<nb_blocks s] st = Ret (st\<lparr>scan_buf := b\<rparr>)"
    using scan_blocks_blank [OF gs one, of "[0..<nb_blocks s]" st] er G(5) by (auto simp: st_def)
  have bt: "map (loaded_block (blocks_image K ?s)) [0..<nb_blocks s] = blocks s"
    "map (\<lambda>h. bytes_bucket (drop (h * SIZEOF_BUCKET) (hash_image K ?s))) [0..<HASH_SIZE s] = hashtable s"
    using blank_tables [of ?s "nb_blocks s" "HASH_SIZE s" K] tb(1,2) by simp_all
  have lv: "ofold link_valid [0..<HASH_SIZE s] ?s = Ret ?s"
    by (rule link_valid_free) (use tb(2) in \<open>auto simp: new_bucket_def\<close>)
  have s2: "?s\<lparr>meta_blkordr := meta_blkordr s, blocks := blocks s, hashtable := hashtable s\<rparr> = ?s" by (cases s) simp
  have off: "s\<lparr>erase_lock := False\<rparr> = s" using u erase_lock_off by (simp add: unlocked_def)
  have sm: "scan_order st = meta_blkordr s" "blk_mem st = blocks_image K ?s" "hash_mem st = hash_image K ?s" by (simp_all add: st_def)
  from nro u bf(1) show "init_scan K s = Ret (0, s)"
    unfolding init_scan_def s1
    by (simp add: lock_erase_def unlocked_def kzalloc_def s1 [simplified] st_def [symmetric, simplified] lock_simps unlock_erase_def
        s2 sm b bt lv off lh)
qed
end

text \<open>The pages of the two tables of a partition of \<open>nb\<close> blocks with \<open>q\<close> pages of \<open>ps\<close> bytes.\<close>

definition table_pages :: "nat \<Rightarrow> nat \<Rightarrow> nat \<Rightarrow> nat" where
  "table_pages nb q ps = (SIZEOF_BUCKET * ((q - 1) * nb) div ps + 1) + (SIZEOF_BLK_INFO * nb div ps + 1)"

context reliable_flash
begin

text \<open>\<open>init_config\<close> sets the geometry, allocates blank tables and leaves the rest to the scan.\<close>

lemma par_init_config_start:
  assumes dev: "idx \<noteq> - 1" "midx \<noteq> - 2"
      "k_get_mtd_device K idx = Some \<lparr>mtd_size = nb * (q * ps), mtd_erasesize = q * ps, mtd_writesize = ps\<rparr>"
      "k_get_mtd_device K midx = Some mm" "mtd_writesize mm = ps" "mtd_erasesize mm \<noteq> 0"
    and dim: "0 < nb" "nb < 2147483648" "1 < q" "8 \<le> ps" "q * ps < 2147483648" "fsize = nb * q * ps" "fsize < 2 ^ 64"
    and meta: "(table_pages nb q ps + 1) div q + 1 \<le> length (meta_blkordr s)"
    and gd: "good (flash s)" and u: "unlocked s"
  obtains t where "init_config K idx midx s = obind (init_scan K t) (\<lambda>(r, s). Ret (if r \<noteq> 0 then - 1 else 0, s))"
    "par_geometry t fsize" "unlocked t" "nb_blocks t = nb" "pages_per_block t = q" "page_size t = ps" "HASH_SIZE t = (q - 1) * nb"
    "hashtable t = replicate ((q - 1) * nb) new_bucket" "blocks t = replicate nb new_block" "flash t = flash s"
    "\<not> read_only t" "\<not> meta_read_only t" "meta_blkordr t = meta_blkordr s" "metadata_size t = table_pages nb q ps * ps" "meta_page_size t = ps"
    "hashtable_size t = round_up (SIZEOF_BUCKET * ((q - 1) * nb)) ps" "block_info_size t = round_up (SIZEOF_BLK_INFO * nb) ps"
    "metadata_size t = hashtable_size t + block_info_size t" "write_cnt t = write_cnt s" "is_gb t = is_gb s"
    "\<And>x. nb_meta x t = (table_pages nb q ps + x) div q + 1"
proof -
  have ps: "ps < 2147483648"
  proof -
    have "1 * ps \<le> q * ps" using dim(3) by (intro mult_le_mono1) simp
    with dim(5) show ?thesis by linarith
  qed
  have qps: "nat (s32 (int q * int ps)) = q * ps"
  proof -
    have "s32 (int (q * ps)) = int (q * ps)" using dim(5) by (intro s32_id) linarith+
    then show ?thesis by (simp only: of_nat_mult [symmetric] nat_int)
  qed
  let ?mt = "\<lparr>mtd_size = nb * (q * ps), mtd_erasesize = q * ps, mtd_writesize = ps\<rparr>"
  define s1 where "s1 = set_geometry ?mt mm (s\<lparr>format_done := 0, read_only := False, mtd_index := idx,
      meta_format_done := 0, meta_read_only := False, meta_mtd_index := midx, mtd := Some ?mt, meta_mtd := Some mm\<rparr>)"
  have f1: "nb_blocks s1 = nb" "pages_per_block s1 = q" "page_size s1 = ps" "meta_page_size s1 = ps" "block_size s1 = q * ps"
    "meta_blkordr s1 = meta_blkordr s" "flash s1 = flash s" "\<not> read_only s1" "\<not> meta_read_only s1" "unlocked s1"
    "write_cnt s1 = write_cnt s" "is_gb s1 = is_gb s"
    using dim ps qps u dev(5) by (simp_all add: s1_def set_geometry_def Let_def unlocked_def)
  define t where "t = s1\<lparr>blocks := replicate nb new_block, HASH_SIZE := (q - 1) * nb, hashtable := replicate ((q - 1) * nb) new_bucket,
      hashtable_size := round_up (SIZEOF_BUCKET * ((q - 1) * nb)) ps, block_info_size := round_up (SIZEOF_BLK_INFO * nb) ps,
      metadata_size := round_up (SIZEOF_BUCKET * ((q - 1) * nb)) ps + round_up (SIZEOF_BLK_INFO * nb) ps\<rparr>"
  have f: "nb_blocks t = nb" "pages_per_block t = q" "page_size t = ps" "meta_page_size t = ps" "block_size t = q * ps"
    "meta_blkordr t = meta_blkordr s" "flash t = flash s" "\<not> read_only t" "\<not> meta_read_only t" "unlocked t"
    "blocks t = replicate nb new_block" "HASH_SIZE t = (q - 1) * nb" "hashtable t = replicate ((q - 1) * nb) new_bucket"
    "metadata_size t = hashtable_size t + block_info_size t" "write_cnt t = write_cnt s" "is_gb t = is_gb s"
    "hashtable_size t = round_up (SIZEOF_BUCKET * ((q - 1) * nb)) ps" "block_info_size t = round_up (SIZEOF_BLK_INFO * nb) ps"
    using f1 by (simp_all add: t_def unlocked_def)
  have ms: "metadata_size t = table_pages nb q ps * ps"
    by (simp add: t_def round_up_def table_pages_def algebra_simps)
  have nm: "nb_meta x t = (table_pages nb q ps + x) div q + 1" for x
    using f(2,4) ms dim(4) by (simp add: nb_meta_def)
  have g: "par_geometry t fsize"
    unfolding par_geometry_def nm using f dim ps meta by simp
  obtain b1 b2 where al: "k_kmalloc K (flash s) (round_up (SIZEOF_BLK_INFO * nb) ps) = Some b1"
    "k_kmalloc K (flash s) (round_up (SIZEOF_BUCKET * ((q - 1) * nb)) ps) = Some b2"
    using kmalloc_ok [OF gd] by blast
  have nz: "0 \<notin> {mtd_writesize ?mt, mtd_erasesize ?mt, mtd_writesize mm, mtd_erasesize mm}"
    using dim(3,4) dev(5,6) by auto
  have "init_config K idx midx s = (let s = s1\<lparr>blocks := replicate nb new_block, HASH_SIZE := (q - 1) * nb\<rparr>;
        jack_size = round_up (SIZEOF_BUCKET * ((q - 1) * nb)) ps
    in if kzalloc K (round_up (SIZEOF_BLK_INFO * nb) ps) s = None \<or> kzalloc K jack_size s = None then Bug
       else obind (init_scan K (s\<lparr>hashtable := replicate ((q - 1) * nb) new_bucket, hashtable_size := jack_size,
           block_info_size := round_up (SIZEOF_BLK_INFO * nb) ps, metadata_size := jack_size + round_up (SIZEOF_BLK_INFO * nb) ps\<rparr>))
           (\<lambda>(r, s). Ret (if r \<noteq> 0 then - 1 else 0, s)))"
    using dev(1-4) nz f1 unfolding init_config_def
    by (simp add: s1_def [symmetric] Let_def del: insert_iff)
  also have "\<dots> = obind (init_scan K t) (\<lambda>(r, s). Ret (if r \<noteq> 0 then - 1 else 0, s))"
    using al f1(7) by (simp add: Let_def kzalloc_def t_def)
  finally show ?thesis using f ms nm g by (intro that [of t])
qed

lemma par_init_config_blank:
  assumes dev: "idx \<noteq> - 1" "midx \<noteq> - 2"
      "k_get_mtd_device K idx = Some \<lparr>mtd_size = nb * (q * ps), mtd_erasesize = q * ps, mtd_writesize = ps\<rparr>"
      "k_get_mtd_device K midx = Some mm" "mtd_writesize mm = ps" "mtd_erasesize mm \<noteq> 0"
    and dim: "0 < nb" "nb < 2147483648" "1 < q" "8 \<le> ps" "q * ps < 2147483648" "fsize = nb * q * ps" "fsize < 2 ^ 64"
    and meta: "(table_pages nb q ps + 1) div q + 1 \<le> length (meta_blkordr s)" "table_pages nb q ps div q + 1 \<le> nb"
    and gd: "good (flash s)" and u: "unlocked s"
    and er: "\<forall>p < nb * q. flash_page byte_at ps (flash s) p = replicate ps 255"
  obtains t where "init_config K idx midx s = Ret (0, t)" "par_inv byte_at good fsize Map.empty t" "nb_blocks t = nb" "pages_per_block t = q"
    "page_size t = ps" "HASH_SIZE t = (q - 1) * nb" "hashtable t = replicate ((q - 1) * nb) new_bucket" "blocks t = replicate nb new_block"
    "\<not> read_only t" "meta_blkordr t = meta_blkordr s" "metadata_size t = table_pages nb q ps * ps" "meta_page_size t = ps"
    "write_cnt t = write_cnt s" "is_gb t = is_gb s"
    "hashtable_size t = round_up (SIZEOF_BUCKET * ((q - 1) * nb)) ps" "block_info_size t = round_up (SIZEOF_BLK_INFO * nb) ps" "flash t = flash s"
proof -
  obtain t where t: "init_config K idx midx s = obind (init_scan K t) (\<lambda>(r, s). Ret (if r \<noteq> 0 then - 1 else 0, s))"
    "par_geometry t fsize" "unlocked t" "nb_blocks t = nb" "pages_per_block t = q" "page_size t = ps" "HASH_SIZE t = (q - 1) * nb"
    "hashtable t = replicate ((q - 1) * nb) new_bucket" "blocks t = replicate nb new_block" "flash t = flash s"
    "\<not> read_only t" "\<not> meta_read_only t" "meta_blkordr t = meta_blkordr s" "metadata_size t = table_pages nb q ps * ps" "meta_page_size t = ps"
    "hashtable_size t = round_up (SIZEOF_BUCKET * ((q - 1) * nb)) ps" "block_info_size t = round_up (SIZEOF_BLK_INFO * nb) ps"
    "metadata_size t = hashtable_size t + block_info_size t" "write_cnt t = write_cnt s" "is_gb t = is_gb s"
    "\<And>x. nb_meta x t = (table_pages nb q ps + x) div q + 1"
    using par_init_config_start [OF dev dim meta(1) gd u] by blast
  have "init_scan K t = Ret (0, t)" and inv: "par_inv byte_at good fsize Map.empty t"
    using par_init_scan_blank [OF t(2) _ t(3,11,12) _ _ t(18)] t gd meta(2) er by simp_all
  then show ?thesis using t by (intro that [of t]) simp_all
qed

end

section \<open>The erased partition of the examples\<close>

definition par_demo0 :: "byte list lkp_kv" where
  "par_demo0 = (config0 demo_flash [])\<lparr>meta_blkordr := replicate MAX_META_BLK (- 1)\<rparr>"

lemma par_demo_loaded:
  obtains t where "init_config demo_K 0 0 par_demo0 = Ret (0, t)" "par_inv nandsim_byte demo_good 61440 Map.empty t"
    "nb_blocks t = 5" "pages_per_block t = 12" "page_size t = 1024" "HASH_SIZE t = 55" "hashtable t = replicate 55 new_bucket"
    "blocks t = replicate 5 new_block" "\<not> read_only t" "meta_blkordr t = replicate MAX_META_BLK (- 1)" "metadata_size t = 8192"
    "meta_page_size t = 1024" "write_cnt t = 0" "is_gb t = 0" "hashtable_size t = 7168" "block_info_size t = 1024" "flash t = demo_flash"
proof -
  have d: "k_get_mtd_device demo_K 0 = Some \<lparr>mtd_size = 5 * (12 * 1024), mtd_erasesize = 12 * 1024, mtd_writesize = 1024\<rparr>"
    by (rule demo_mtd)
  have tp: "table_pages 5 12 1024 = 8" by (simp add: table_pages_def SIZEOF_BUCKET_def SIZEOF_BLK_INFO_def)
  have fl: "flash_page nandsim_byte 1024 (flash par_demo0) p = replicate 1024 255" if "p < 60" for p
    by (rule nth_equalityI) (use that in \<open>auto simp: flash_page_def nandsim_byte_def demo_flash_def par_demo0_def config0_def\<close>)
  have s: "length (flash par_demo0) = 61440" "unlocked par_demo0" "meta_blkordr par_demo0 = replicate MAX_META_BLK (- 1)"
    "write_cnt par_demo0 = 0" "is_gb par_demo0 = 0" "flash par_demo0 = demo_flash"
    by (simp_all add: par_demo0_def config0_def demo_flash_def unlocked_def)
  show ?thesis
    by (rule reliable_flash.par_init_config_blank [OF demo_reliable _ _ d d, of par_demo0])
      (use s fl tp that in \<open>simp_all add: MAX_META_BLK_def round_up_def SIZEOF_BUCKET_def SIZEOF_BLK_INFO_def\<close>)
qed

end
