(* ===== verification/ParallelFlush.thy ===== *)
theory ParallelFlush
  imports ParallelWrite ParallelTables
begin

text \<open>
  A forced flush of the third prototype: choosing the blocks for the metadata, erasing those
  that hold it, and writing the two tables page by page.  \<open>flush_plan\<close> says which blocks are
  chosen; when it finds enough of them, the flush succeeds and the store keeps its map.
\<close>

section \<open>Erasing one block\<close>

definition erased_blk :: "blk_info \<Rightarrow> blk_info" where
  "erased_blk b = b\<lparr>state := BLK_FREE, nb_invalid := 0, current_page_offset := 0, worn := worn b + 1, valid_list := []\<rparr>"

context reliable_flash
begin

lemma par_format_single:
  assumes g: "par_geometry s fsize" and gd: "good (flash s)" and lk: "\<not> list_lock s"
    and i: "i < nb_blocks s" "length (blocks s) = nb_blocks s"
  obtains m where "good m"
    "\<And>p. flash_page byte_at (page_size s) m p
        = (if i * pages_per_block s \<le> p \<and> p < (i + 1) * pages_per_block s then replicate (page_size s) 255
           else flash_page byte_at (page_size s) (flash s) p)"
    "format_single K (int i) s = Ret (0, s\<lparr>format_done := 1, flash := m, blocks := (blocks s)[i := erased_blk (blocks s ! i)],
        read_only := False, meta_read_only := False\<rparr>)"
proof -
  note G = par_geometryD [OF g]
  let ?bs = "pages_per_block s * page_size s"
  have le: "Suc i * ?bs \<le> nb_blocks s * ?bs" using i(1) by (intro mult_le_mono1) simp
  then have le': "i * ?bs + ?bs \<le> fsize" "i * ?bs < 2 ^ 64" using G(2,3,8,9) by (auto simp: algebra_simps)
  have addr: "page_addr (int i) (block_size s) = i * ?bs" using page_addr_eq [OF le'(2)] G(6) by simp
  obtain m where m: "k_erase K (flash s) (i * ?bs) ?bs = (0, Some MTD_ERASE_DONE, m)" "good m" using erase_ok [OF gd le'(1)] by blast
  have pg: "flash_page byte_at (page_size s) m p
        = (if i * pages_per_block s \<le> p \<and> p < (i + 1) * pages_per_block s then replicate (page_size s) 255
           else flash_page byte_at (page_size s) (flash s) p)" for p
    using page_erase [of "flash s" i "pages_per_block s" "page_size s" 1 m p] m(1) by simp
  have "format_single K (int i) s = Ret (0, s\<lparr>format_done := 1, flash := m, blocks := (blocks s)[i := erased_blk (blocks s ! i)],
        read_only := False, meta_read_only := False\<rparr>)"
    using m(1) lk i G(6) addr
    by (cases s) (simp add: format_single_def erase_wait_def Let_def format_callback_def upd_block_def lock_list_def unlock_list_def
        erased_blk_def)
  with m(2) pg that show ?thesis by blast
qed

end

section \<open>Choosing the blocks\<close>

definition flush_free :: "'m lkp_kv \<Rightarrow> int list \<Rightarrow> nat \<Rightarrow> bool" where
  "flush_free s pre i \<longleftrightarrow> int i \<notin> set pre \<and> current_page_offset (blocks s ! i) = 0 \<and> state (blocks s ! i) = BLK_FREE"

text \<open>The least worn free block behind \<open>i\<close> that is not chosen yet, or \<open>i\<close>.\<close>

definition flush_pick :: "'m lkp_kv \<Rightarrow> int list \<Rightarrow> nat list \<Rightarrow> nat \<Rightarrow> nat" where
  "flush_pick s pre ws i =
     (case foldl (\<lambda>winner z. if z \<in> set ws \<or> \<not> flush_free s pre z then winner
          else (case winner of None \<Rightarrow> Some z
                 | Some w \<Rightarrow> if worn (blocks s ! z) < worn (blocks s ! w) then Some z else winner))
        None [Suc i..<nb_blocks s] of None \<Rightarrow> i | Some w \<Rightarrow> w)"

definition plan_from :: "'m lkp_kv \<Rightarrow> int list \<Rightarrow> nat \<Rightarrow> nat list \<Rightarrow> nat list \<Rightarrow> nat list" where
  "plan_from s pre n = foldl (\<lambda>ws i. if n \<le> length ws \<or> i \<in> set ws \<or> \<not> flush_free s pre i then ws else ws @ [flush_pick s pre ws i])"

text \<open>The blocks a flush takes, in the order of their numbers.\<close>

definition flush_plan :: "'m lkp_kv \<Rightarrow> nat list" where
  "flush_plan s = plan_from s (take (nb_meta 0 s) (meta_blkordr s)) (nb_meta 0 s) [] [0..<nb_blocks s]"

definition plan_ok :: "'m lkp_kv \<Rightarrow> int list \<Rightarrow> nat list \<Rightarrow> bool" where
  "plan_ok s pre ws \<longleftrightarrow> distinct ws \<and> (\<forall>w \<in> set ws. w < nb_blocks s \<and> flush_free s pre w)"

lemma flush_pick_ok:
  assumes "i < nb_blocks s" "i \<notin> set ws" "flush_free s pre i"
  shows "flush_pick s pre ws i < nb_blocks s \<and> flush_pick s pre ws i \<notin> set ws \<and> flush_free s pre (flush_pick s pre ws i)"
proof -
  let ?f = "\<lambda>winner z. if z \<in> set ws \<or> \<not> flush_free s pre z then winner
          else (case winner of None \<Rightarrow> Some z | Some w \<Rightarrow> if worn (blocks s ! z) < worn (blocks s ! w) then Some z else winner)"
  have "\<forall>z \<in> set zs. z < nb_blocks s \<Longrightarrow> \<forall>w. r = Some w \<longrightarrow> w < nb_blocks s \<and> w \<notin> set ws \<and> flush_free s pre w
    \<Longrightarrow> \<forall>w. foldl ?f r zs = Some w \<longrightarrow> w < nb_blocks s \<and> w \<notin> set ws \<and> flush_free s pre w" for zs r
  proof (induction zs arbitrary: r)
    case (Cons z zs)
    have step: "\<forall>w. ?f r z = Some w \<longrightarrow> w < nb_blocks s \<and> w \<notin> set ws \<and> flush_free s pre w"
      using Cons.prems by (auto split: option.splits)
    have zs: "\<forall>z \<in> set zs. z < nb_blocks s" using Cons.prems(1) by simp
    show ?case unfolding foldl_Cons by (rule Cons.IH [OF zs step])
  qed simp
  note all = this
  obtain x where x: "foldl ?f None [Suc i..<nb_blocks s] = x" by blast
  have "\<forall>w. x = Some w \<longrightarrow> w < nb_blocks s \<and> w \<notin> set ws \<and> flush_free s pre w"
    unfolding x [symmetric] by (rule all) simp_all
  with assms show ?thesis by (cases x) (simp_all only: flush_pick_def x option.case option.inject simp_thms)
qed

lemma plan_from_ok:
  assumes "plan_ok s pre ws" "\<forall>i \<in> set is. i < nb_blocks s" "length ws \<le> n"
  shows "plan_ok s pre (plan_from s pre n ws is) \<and> length (plan_from s pre n ws is) \<le> n \<and> (\<exists>r. plan_from s pre n ws is = ws @ r)"
  using assms
proof (induction "is" arbitrary: ws)
  case (Cons i "is")
  show ?case
  proof (cases "n \<le> length ws \<or> i \<in> set ws \<or> \<not> flush_free s pre i")
    case False
    let ?ws = "ws @ [flush_pick s pre ws i]"
    have "plan_ok s pre ?ws" using flush_pick_ok [of i s ws pre] False Cons.prems by (auto simp: plan_ok_def)
    with Cons.IH [of ?ws] Cons.prems False have "plan_ok s pre (plan_from s pre n ?ws is) \<and> length (plan_from s pre n ?ws is) \<le> n
       \<and> (\<exists>r. plan_from s pre n ?ws is = ?ws @ r)" by simp
    moreover have "plan_from s pre n ws (i # is) = plan_from s pre n ?ws is" using False by (simp add: plan_from_def)
    ultimately show ?thesis by auto
  next
    case True
    then have "plan_from s pre n ws (i # is) = plan_from s pre n ws is" by (simp add: plan_from_def)
    with Cons.IH [of ws] Cons.prems show ?thesis by simp
  qed
qed (simp add: plan_from_def)

text \<open>
  The state when the blocks \<open>ws\<close> have been chosen and as many of the old ones, \<open>pre\<close>, erased.
\<close>

definition chosen_blk :: "'m lkp_kv \<Rightarrow> int list \<Rightarrow> nat list \<Rightarrow> nat \<Rightarrow> blk_info" where
  "chosen_blk s pre ws i =
     (if i \<in> set ws then (blocks s ! i)\<lparr>state := BLK_USED\<rparr>
      else if int i \<in> set (take (length ws) pre) then erased_blk (blocks s ! i) else blocks s ! i)"

definition chosen :: "'m lkp_kv \<Rightarrow> int list \<Rightarrow> nat \<Rightarrow> nat list \<Rightarrow> 'm \<Rightarrow> int \<Rightarrow> 'm lkp_kv" where
  "chosen s pre n ws m fd = s\<lparr>meta_blkordr := map int ws @ replicate (n - length ws) (- 2) @ drop n (meta_blkordr s),
     blocks := map (chosen_blk s pre ws) [0..<nb_blocks s], flash := m, format_done := fd\<rparr>"

lemma chosen_simps [simp]:
  "nb_blocks (chosen s pre n ws m fd) = nb_blocks s" "pages_per_block (chosen s pre n ws m fd) = pages_per_block s"
  "page_size (chosen s pre n ws m fd) = page_size s" "meta_page_size (chosen s pre n ws m fd) = meta_page_size s"
  "flash (chosen s pre n ws m fd) = m" "read_only (chosen s pre n ws m fd) = read_only s" "list_lock (chosen s pre n ws m fd) = list_lock s"
  "blocks (chosen s pre n ws m fd) = map (chosen_blk s pre ws) [0..<nb_blocks s]" "one_lock (chosen s pre n ws m fd) = one_lock s"
  "meta_blkordr (chosen s pre n ws m fd) = map int ws @ replicate (n - length ws) (- 2) @ drop n (meta_blkordr s)"
  "nb_meta x (chosen s pre n ws m fd) = nb_meta x s" "meta_read_only (chosen s pre n ws m fd) = meta_read_only s"
  "hashtable (chosen s pre n ws m fd) = hashtable s" "metadata_size (chosen s pre n ws m fd) = metadata_size s"
  by (simp_all add: chosen_def nb_meta_def)

definition erased_pages :: "('m \<Rightarrow> nat \<Rightarrow> byte) \<Rightarrow> 'm lkp_kv \<Rightarrow> int list \<Rightarrow> 'm \<Rightarrow> bool" where
  "erased_pages byte_at s es m \<longleftrightarrow>
     (\<forall>p. flash_page byte_at (page_size s) m p =
        (if \<exists>i. int i \<in> set es \<and> i * pages_per_block s \<le> p \<and> p < (i + 1) * pages_per_block s then replicate (page_size s) 255
         else flash_page byte_at (page_size s) (flash s) p))"

lemma chosen_free:
  "i \<notin> set ws \<Longrightarrow> flush_free s pre i \<Longrightarrow> chosen_blk s pre ws i = blocks s ! i"
  by (auto simp: chosen_blk_def flush_free_def dest: in_set_takeD)

lemma usable_chosen:
  assumes "i < nb_blocks s"
  shows "usable (map int ws @ replicate d (- 2)) pre i (chosen s pre n ws m fd) \<longleftrightarrow> i \<notin> set ws \<and> flush_free s pre i"
proof (cases "i \<in> set ws")
  case False
  then have "int i \<notin> set (map int ws @ replicate d (- 2))" by auto
  moreover have "chosen_blk s pre ws i = blocks s ! i" if "int i \<notin> set pre"
    using that False by (auto simp: chosen_blk_def dest: in_set_takeD)
  ultimately show ?thesis using assms False by (auto simp: usable_def flush_free_def)
qed (simp add: usable_def)

lemma winner_chosen:
  assumes "i < nb_blocks s"
  shows "flush_winner (map int ws @ replicate d (- 2)) pre i (chosen s pre n ws m fd) = flush_pick s pre ws i"
proof -
  let ?g = "\<lambda>winner z. if \<not> usable (map int ws @ replicate d (- 2)) pre z (chosen s pre n ws m fd) then winner
          else (case winner of None \<Rightarrow> Some z
                 | Some w \<Rightarrow> if worn (blocks (chosen s pre n ws m fd) ! z) < worn (blocks (chosen s pre n ws m fd) ! w) then Some z else winner)"
  let ?f = "\<lambda>winner z. if z \<in> set ws \<or> \<not> flush_free s pre z then winner
          else (case winner of None \<Rightarrow> Some z | Some w \<Rightarrow> if worn (blocks s ! z) < worn (blocks s ! w) then Some z else winner)"
  have all: "\<forall>z \<in> set zs. z < nb_blocks s \<Longrightarrow> \<forall>w. r = Some w \<longrightarrow> w < nb_blocks s \<and> w \<notin> set ws \<and> flush_free s pre w
    \<Longrightarrow> foldl ?g r zs = foldl ?f r zs" for zs r
  proof (induction zs arbitrary: r)
    case (Cons z zs)
    have eq: "?g r z = ?f r z"
      using Cons.prems usable_chosen [of z s ws d pre n m fd]
      by (cases r) (auto simp: chosen_free)
    have step: "\<forall>w. ?f r z = Some w \<longrightarrow> w < nb_blocks s \<and> w \<notin> set ws \<and> flush_free s pre w"
      using Cons.prems by (auto split: option.splits)
    have zs: "\<forall>z \<in> set zs. z < nb_blocks s" using Cons.prems(1) by simp
    show ?case unfolding foldl_Cons eq by (rule Cons.IH [OF zs step])
  qed simp
  have "foldl ?g None [Suc i..<nb_blocks s] = foldl ?f None [Suc i..<nb_blocks s]" by (rule all) simp_all
  then show ?thesis unfolding flush_winner_def flush_pick_def chosen_simps(1) by (simp only: )
qed

lemma par_geometry_chosen [simp]:
  "length ws \<le> n \<Longrightarrow> n \<le> length (meta_blkordr s) \<Longrightarrow> par_geometry (chosen s pre n ws m fd) fsize = par_geometry s fsize"
  "par_geometry (s\<lparr>blocks := bs\<rparr>) fsize = par_geometry s fsize" "par_geometry (s\<lparr>flash := m\<rparr>) fsize = par_geometry s fsize"
  by (auto simp: par_geometry_def nb_meta_def chosen_def)

text \<open>The order of the metadata blocks: of the first \<open>n\<close> entries those that are not -1 are different blocks.\<close>

definition order_ok :: "'m lkp_kv \<Rightarrow> nat \<Rightarrow> bool" where
  "order_ok s n \<longleftrightarrow> n < length (meta_blkordr s) \<and> (\<forall>x \<in> set (take n (meta_blkordr s)). x = - 1 \<or> 0 \<le> x \<and> x < int (nb_blocks s))
     \<and> distinct (filter (\<lambda>x. x \<noteq> - 1) (take n (meta_blkordr s))) \<and> (\<forall>x \<in> set (drop n (meta_blkordr s)). x = - 1)"

lemma filter_distinct_nth:
  assumes "distinct (filter P xs)" "l < length xs" "P (xs ! l)"
  shows "xs ! l \<notin> set (take l xs)"
proof -
  have "filter P xs = filter P (take l xs) @ filter P (xs ! l # drop (Suc l) xs)"
    using assms(2) by (metis filter_append id_take_nth_drop)
  with assms(1,3) show ?thesis by auto
qed

lemma update_replicate:
  assumes "length xs < n"
  shows "(xs @ replicate (n - length xs) a @ r)[length xs := b] = (xs @ [b]) @ replicate (n - Suc (length xs)) a @ r"
proof -
  obtain k where "n - length xs = Suc k" using assms by (cases "n - length xs") auto
  moreover then have "n - Suc (length xs) = k" by simp
  ultimately show ?thesis by (simp add: list_update_append)
qed

lemma chosen_blocks_none:
  assumes "plan_ok s pre ws" "w \<notin> set ws" "w < nb_blocks s" "flush_free s pre w" "length ws < length pre" "pre ! length ws = - 1"
  shows "(map (chosen_blk s pre ws) [0..<nb_blocks s])[w := (chosen_blk s pre ws w)\<lparr>state := BLK_USED\<rparr>]
    = map (chosen_blk s pre (ws @ [w])) [0..<nb_blocks s]"
  using assms chosen_free [OF assms(2,4)]
  by (intro nth_equalityI) (auto simp: nth_list_update chosen_blk_def take_Suc_conv_app_nth)

lemma chosen_blocks_old:
  assumes "plan_ok s pre ws" "w \<notin> set ws" "w < nb_blocks s" "flush_free s pre w" "length ws < length pre" "pre ! length ws = int i"
    and "distinct (filter (\<lambda>x. x \<noteq> - 1) pre)" "i < nb_blocks s"
  shows "(let bs = (map (chosen_blk s pre ws) [0..<nb_blocks s])[w := (chosen_blk s pre ws w)\<lparr>state := BLK_USED\<rparr>]
      in bs[i := erased_blk (bs ! i)]) = map (chosen_blk s pre (ws @ [w])) [0..<nb_blocks s]"
proof -
  have mem: "int i \<in> set pre" using assms(5,6) by (metis nth_mem)
  have ne: "i \<noteq> w" using mem assms(4) by (auto simp: flush_free_def)
  have nw: "i \<notin> set ws" using mem assms(1) by (auto simp: plan_ok_def flush_free_def)
  have nt: "int i \<notin> set (take (length ws) pre)" using filter_distinct_nth [OF assms(7,5)] assms(6) by simp
  have b: "chosen_blk s pre ws i = blocks s ! i" using nw nt by (simp add: chosen_blk_def)
  show ?thesis
    using assms ne nw nt b chosen_free [OF assms(2,4)]
    by (intro nth_equalityI) (auto simp: Let_def nth_list_update chosen_blk_def take_Suc_conv_app_nth)
qed

context reliable_flash
begin

lemma par_choose_step:
  assumes g: "par_geometry s fsize" and ro: "\<not> read_only s" "\<not> meta_read_only s" and lk: "\<not> list_lock s"
    and ord: "order_ok s n" and pre: "pre = take n (meta_blkordr s)"
    and plan: "plan_ok s pre ws" "length ws < n" and i: "i < nb_blocks s" "i \<notin> set ws" "flush_free s pre i"
    and gd: "good m" and er: "erased_pages byte_at s (take (length ws) pre) m"
  obtains m' fd' where "flush_choose K n pre i (False, length ws, chosen s pre n ws m fd)
      = Ret (n \<le> Suc (length ws), Suc (length ws), chosen s pre n (ws @ [flush_pick s pre ws i]) m' fd')"
    "good m'" "erased_pages byte_at s (take (Suc (length ws)) pre) m'"
proof -
  let ?st = "chosen s pre n ws m fd" and ?w = "flush_pick s pre ws i" and ?l = "length ws"
  have lens: "length pre = n" using pre ord by (simp add: order_ok_def)
  have l: "?l < length pre" using plan(2) lens by simp
  have w: "?w < nb_blocks s" "?w \<notin> set ws" "flush_free s pre ?w" using flush_pick_ok [OF i] by auto
  have vic: "victims n ?st = Ret (map int ws @ replicate (n - ?l) (- 2))" using plan(2) ord by (simp add: victims_def order_ok_def)
  define bs where "bs = (map (chosen_blk s pre ws) [0..<nb_blocks s])[?w := (chosen_blk s pre ws ?w)\<lparr>state := BLK_USED\<rparr>]"
  let ?st1 = "?st\<lparr>blocks := bs\<rparr>"
  have lb: "length bs = nb_blocks s" by (simp add: bs_def)
  have up: "upd_block (int ?w) (\<lambda>b. b\<lparr>state := BLK_USED\<rparr>) ?st = Ret ?st1" using w(1) by (simp add: upd_block_def bs_def)
  have mo: "arr_upd (map int ws @ replicate (n - ?l) (- 2) @ drop n (meta_blkordr s)) (int ?l) (\<lambda>_. int ?w)
      = Ret (map int (ws @ [?w]) @ replicate (n - length (ws @ [?w])) (- 2) @ drop n (meta_blkordr s))"
    using update_replicate [of "map int ws" n "- 2" "drop n (meta_blkordr s)" "int ?w"] plan(2) by simp
  have start: "flush_choose K n pre i (False, ?l, ?st) =
     obind (if pre ! ?l \<noteq> - 1 then obind (format_single K (pre ! ?l) ?st1) (\<lambda>(_, s). Ret s) else Ret ?st1) (\<lambda>s.
          obind (arr_upd (meta_blkordr s) (int ?l) (\<lambda>_. int ?w)) (\<lambda>mo. Ret (n \<le> Suc ?l, Suc ?l, s\<lparr>meta_blkordr := mo\<rparr>)))"
    using vic i winner_chosen [OF i(1), of ws "n - ?l" pre n m fd] up l
    by (simp add: flush_choose_def usable_chosen)
  have er': "erased_pages byte_at s (take (Suc ?l) pre) m'"
    if "\<And>p. flash_page byte_at (page_size s) m' p = (if \<exists>i. int i = pre ! ?l \<and> i * pages_per_block s \<le> p \<and> p < (i + 1) * pages_per_block s
        then replicate (page_size s) 255 else flash_page byte_at (page_size s) m p)" for m'
    unfolding erased_pages_def that take_Suc_conv_app_nth [OF l] using er by (auto simp: erased_pages_def)
  show ?thesis
  proof (cases "pre ! ?l = - 1")
    case True
    have "?st1\<lparr>meta_blkordr := map int (ws @ [?w]) @ replicate (n - length (ws @ [?w])) (- 2) @ drop n (meta_blkordr s)\<rparr>
        = chosen s pre n (ws @ [?w]) m fd"
      using chosen_blocks_none [OF plan(1) w(2,1,3) l True] by (simp add: chosen_def bs_def)
    then have "flush_choose K n pre i (False, ?l, ?st) = Ret (n \<le> Suc ?l, Suc ?l, chosen s pre n (ws @ [?w]) m fd)"
      using start mo True by simp
    then show ?thesis using that gd er' [of m] True by auto
  next
    case False
    have "pre ! ?l \<in> set pre" using l by simp
    then have r: "0 \<le> pre ! ?l" "pre ! ?l < int (nb_blocks s)" using False ord pre by (auto simp: order_ok_def)
    define o' where "o' = nat (pre ! ?l)"
    have o': "pre ! ?l = int o'" "o' < nb_blocks s" using r by (simp_all add: o'_def)
    have st1: "par_geometry ?st1 fsize" "good (flash ?st1)" "\<not> list_lock ?st1" "o' < nb_blocks ?st1" "length (blocks ?st1) = nb_blocks ?st1"
      using g gd lk o'(2) lb plan(2) ord by (simp_all add: order_ok_def)
    obtain m' where m': "good m'"
      "\<And>p. flash_page byte_at (page_size ?st1) m' p
        = (if o' * pages_per_block ?st1 \<le> p \<and> p < (o' + 1) * pages_per_block ?st1 then replicate (page_size ?st1) 255
           else flash_page byte_at (page_size ?st1) (flash ?st1) p)"
      "format_single K (int o') ?st1 = Ret (0, ?st1\<lparr>format_done := 1, flash := m', blocks := (blocks ?st1)[o' := erased_blk (blocks ?st1 ! o')],
          read_only := False, meta_read_only := False\<rparr>)"
      using par_format_single [OF st1] by blast
    have "distinct (filter (\<lambda>x. x \<noteq> - 1) pre)" using ord pre by (simp add: order_ok_def)
    from chosen_blocks_old [OF plan(1) w(2,1,3) l o'(1) this o'(2)]
    have "?st1\<lparr>format_done := 1, flash := m', blocks := (blocks ?st1)[o' := erased_blk (blocks ?st1 ! o')], read_only := False, meta_read_only := False,
        meta_blkordr := map int (ws @ [?w]) @ replicate (n - length (ws @ [?w])) (- 2) @ drop n (meta_blkordr s)\<rparr>
        = chosen s pre n (ws @ [?w]) m' 1"
      using ro by (cases s) (simp add: chosen_def bs_def Let_def)
    then have "flush_choose K n pre i (False, ?l, ?st) = Ret (n \<le> Suc ?l, Suc ?l, chosen s pre n (ws @ [?w]) m' 1)"
      using start m'(3) mo False o'(1) by simp
    moreover have "erased_pages byte_at s (take (Suc ?l) pre) m'"
      by (rule er') (use m'(2) o'(1) in auto)
    ultimately show ?thesis using that m'(1) by blast
  qed
qed

lemma par_choose_all:
  assumes g: "par_geometry s fsize" and ro: "\<not> read_only s" "\<not> meta_read_only s" and lk: "\<not> list_lock s"
    and ord: "order_ok s n" and pre: "pre = take n (meta_blkordr s)"
  shows "plan_ok s pre ws \<Longrightarrow> length ws \<le> n \<Longrightarrow> \<forall>i \<in> set is. i < nb_blocks s \<Longrightarrow> good m \<Longrightarrow> erased_pages byte_at s (take (length ws) pre) m
    \<Longrightarrow> \<exists>m' fd'. ofold (flush_choose K n pre) is (n \<le> length ws, length ws, chosen s pre n ws m fd)
         = Ret (n \<le> length (plan_from s pre n ws is), length (plan_from s pre n ws is), chosen s pre n (plan_from s pre n ws is) m' fd')
       \<and> good m' \<and> erased_pages byte_at s (take (length (plan_from s pre n ws is)) pre) m'"
proof (induction "is" arbitrary: ws m fd)
  case (Cons i "is")
  show ?case
  proof (cases "n \<le> length ws \<or> i \<in> set ws \<or> \<not> flush_free s pre i")
    case True
    have "victims n (chosen s pre n ws m fd) = Ret (map int ws @ replicate (n - length ws) (- 2))"
      using Cons.prems(2) ord by (simp add: victims_def order_ok_def)
    then have "flush_choose K n pre i (n \<le> length ws, length ws, chosen s pre n ws m fd) = Ret (n \<le> length ws, length ws, chosen s pre n ws m fd)"
      using True Cons.prems(3) usable_chosen [of i s ws "n - length ws" pre n m fd] by (auto simp: flush_choose_def)
    moreover have "plan_from s pre n ws (i # is) = plan_from s pre n ws is" using True by (simp add: plan_from_def)
    ultimately show ?thesis using Cons.IH [OF Cons.prems(1,2) _ Cons.prems(4,5)] Cons.prems(3) by simp
  next
    case False
    let ?ws = "ws @ [flush_pick s pre ws i]"
    have f: "length ws < n" "i < nb_blocks s" "i \<notin> set ws" "flush_free s pre i" using False Cons.prems(3) by auto
    obtain m' fd' where st: "flush_choose K n pre i (False, length ws, chosen s pre n ws m fd) = Ret (n \<le> Suc (length ws), Suc (length ws), chosen s pre n ?ws m' fd')"
      "good m'" "erased_pages byte_at s (take (Suc (length ws)) pre) m'"
      by (rule par_choose_step [OF g ro lk ord pre Cons.prems(1) f Cons.prems(4,5)])
    have "plan_ok s pre ?ws" using flush_pick_ok [OF f(2-4)] Cons.prems(1) by (auto simp: plan_ok_def)
    then have "\<exists>m'' fd''. ofold (flush_choose K n pre) is (n \<le> length ?ws, length ?ws, chosen s pre n ?ws m' fd')
         = Ret (n \<le> length (plan_from s pre n ?ws is), length (plan_from s pre n ?ws is), chosen s pre n (plan_from s pre n ?ws is) m'' fd'')
       \<and> good m'' \<and> erased_pages byte_at s (take (length (plan_from s pre n ?ws is)) pre) m''"
      by (rule Cons.IH) (use f(1) Cons.prems(3) st(2,3) in auto)
    moreover have "plan_from s pre n ws (i # is) = plan_from s pre n ?ws is" using False by (simp add: plan_from_def)
    ultimately show ?thesis using st(1) f(1) by simp
  qed
qed (auto simp: plan_from_def)

end

end
