(* ===== verification/ParallelGc.thy ===== *)
theory ParallelGc
  imports ParallelFlush GcBuffer
begin

text \<open>
  The garbage collector of the third prototype.  A collection reads the valid couples of the first
  block with enough invalid pages into a buffer, erases that block, and appends the couples to
  the least worn block with room for them, or to the erased block itself.  The block they go to
  is marked as used before anything is written to it; \<open>mark\<close> is that step, and the collection is
  shown to commute with it.  The steps are put together in \<open>ParallelCollect\<close>.
\<close>

section \<open>The block the couples go to\<close>

text \<open>The valid pages of a block and the room another one must have for them.\<close>

definition valid_count :: "'m lkp_kv \<Rightarrow> nat \<Rightarrow> int" where
  "valid_count s tg = current_page_offset (blocks s ! tg) - nb_invalid (blocks s ! tg) - 1"

definition can_take :: "int list \<Rightarrow> nat \<Rightarrow> 'm lkp_kv \<Rightarrow> nat \<Rightarrow> bool" where
  "can_take mo tg s i \<longleftrightarrow> i \<noteq> tg \<and> int i \<notin> set mo \<and> valid_count s tg < int (pages_per_block s) - current_page_offset (blocks s ! i)"

lemma fold_choice:
  fixes f :: "int \<Rightarrow> nat \<Rightarrow> int"
  assumes "\<And>r i. \<not> P i \<Longrightarrow> f r i = r" "\<And>r i. P i \<Longrightarrow> f r i = int i \<or> (f r i = r \<and> r \<noteq> - 1)"
    and "r = - 1 \<or> (\<exists>i. r = int i \<and> P i \<and> i < n)" "\<forall>i \<in> set xs. i < n"
  shows "(foldl f r xs = - 1 \<longrightarrow> (\<forall>i \<in> set xs. \<not> P i) \<and> r = - 1)
     \<and> (foldl f r xs = - 1 \<or> (\<exists>i. foldl f r xs = int i \<and> P i \<and> i < n))"
  using assms(3,4)
proof (induction xs arbitrary: r)
  case (Cons x xs)
  have x: "x < n" "\<forall>i \<in> set xs. i < n" using Cons.prems(2) by simp_all
  show ?case
  proof (cases "P x")
    case False
    then show ?thesis using Cons.IH [OF Cons.prems(1) x(2)] assms(1) [OF False] by simp
  next
    case True
    have st: "f r x = - 1 \<or> (\<exists>i. f r x = int i \<and> P i \<and> i < n)" "f r x \<noteq> - 1"
      using assms(2) [OF True, of r] True x(1) Cons.prems(1) by auto
    show ?thesis using Cons.IH [OF st(1) x(2)] st(2) unfolding foldl_Cons by blast
  qed
qed simp

lemma find_merge_spec:
  "(find_merge mo tg s = - 1 \<longrightarrow> (\<forall>i < nb_blocks s. \<not> can_take mo tg s i))
     \<and> (find_merge mo tg s = - 1 \<or> (\<exists>i. find_merge mo tg s = int i \<and> can_take mo tg s i \<and> i < nb_blocks s))"
proof -
  let ?f = "\<lambda>target_blk2 i. if i = tg \<or> int i \<in> set mo then target_blk2
          else if int (pages_per_block s) - current_page_offset (blocks s ! i) > valid_count s tg then
            (if target_blk2 = - 1 then int i
             else if worn (blocks s ! i) < worn (blocks s ! nat target_blk2) then int i else target_blk2)
          else target_blk2"
  have eq: "find_merge mo tg s = foldl ?f (- 1) [0..<nb_blocks s]" by (simp only: find_merge_def valid_count_def Let_def)
  have "(foldl ?f (- 1) [0..<nb_blocks s] = - 1 \<longrightarrow> (\<forall>i \<in> set [0..<nb_blocks s]. \<not> can_take mo tg s i) \<and> (- 1 :: int) = - 1)
     \<and> (foldl ?f (- 1) [0..<nb_blocks s] = - 1 \<or> (\<exists>i. foldl ?f (- 1) [0..<nb_blocks s] = int i \<and> can_take mo tg s i \<and> i < nb_blocks s))"
    by (rule fold_choice) (auto simp: can_take_def)
  then show ?thesis unfolding eq [symmetric] by auto
qed

lemma find_free_spec:
  "find_free s = - 1 \<or> (\<exists>i. find_free s = int i \<and> current_page_offset (blocks s ! i) = 0 \<and> state (blocks s ! i) = BLK_FREE \<and> i < nb_blocks s)"
proof -
  let ?f = "\<lambda>victim_blk i. if current_page_offset (blocks s ! i) = 0 \<and> state (blocks s ! i) = BLK_FREE then
         (if victim_blk = - 1 then int i
          else if worn (blocks s ! i) < worn (blocks s ! nat victim_blk) then int i else victim_blk)
       else victim_blk"
  let ?P = "\<lambda>i. current_page_offset (blocks s ! i) = 0 \<and> state (blocks s ! i) = BLK_FREE"
  have "find_free s = foldl ?f (- 1) [0..<nb_blocks s]" by (simp only: find_free_def)
  moreover have "foldl ?f (- 1) [0..<nb_blocks s] = - 1 \<or> (\<exists>i. foldl ?f (- 1) [0..<nb_blocks s] = int i \<and> ?P i \<and> i < nb_blocks s)"
    by (rule fold_choice [THEN conjunct2]) auto
  ultimately show ?thesis by auto
qed

text \<open>No metadata block looks like a free one; the search for a free block does not exclude them.\<close>

definition meta_taken :: "'m lkp_kv \<Rightarrow> bool" where
  "meta_taken s \<longleftrightarrow> (\<forall>i < nb_blocks s. is_meta s i \<longrightarrow> state (blocks s ! i) \<noteq> BLK_FREE \<or> current_page_offset (blocks s ! i) \<noteq> 0)"

text \<open>The block that is collected: what the counters of its blocks say.\<close>

lemma par_target:
  assumes inv: "par_rep byte_at good fsize M s" and tg: "find_target (take (nb_meta 1 s) (meta_blkordr s)) s = Some tg"
  shows "tg < nb_blocks s" "\<not> is_meta s tg" "block_kind s tg = Data" "valid_count s tg = int (length (valid_list (blocks s ! tg)))"
    "length (valid_list (blocks s ! tg)) + 21 \<le> pages_per_block s" "distinct (valid_list (blocks s ! tg))"
proof -
  show t: "tg < nb_blocks s" "\<not> is_meta s tg"
    using tg by (auto simp: find_target_def find_Some_iff is_meta_def)
  have i: "INVALID_THRESHOLD \<le> nb_invalid (blocks s ! tg)" using tg by (auto simp: find_target_def find_Some_iff)
  have c: "v_counts (view_of byte_at s) tg" using view_okD(2) [OF par_repD(6) [OF inv], of tg] t(1) by simp
  show k: "block_kind s tg = Data"
    using c i t(2) by (cases "block_kind s tg") (auto simp: v_counts_def INVALID_THRESHOLD_def block_kind_def split: if_splits)
  show "valid_count s tg = int (length (valid_list (blocks s ! tg)))"
    "length (valid_list (blocks s ! tg)) + 21 \<le> pages_per_block s" "distinct (valid_list (blocks s ! tg))"
    using c k i by (simp_all add: v_counts_def valid_count_def INVALID_THRESHOLD_def)
qed

lemma par_victim:
  assumes inv: "par_rep byte_at good fsize M s" and tg: "find_target (take (nb_meta 1 s) (meta_blkordr s)) s = Some tg" and mt: "meta_taken s"
  obtains v where "find_victim (take (nb_meta 1 s) (meta_blkordr s)) tg s = int v" "v < nb_blocks s" "\<not> is_meta s v"
    "v \<noteq> tg \<Longrightarrow> current_page_offset (blocks s ! v) + int (length (valid_list (blocks s ! tg))) < int (pages_per_block s)"
proof -
  let ?mo = "take (nb_meta 1 s) (meta_blkordr s)"
  note T = par_target [OF inv tg]
  show ?thesis
  proof (cases "find_merge ?mo tg s = - 1")
    case False
    with find_merge_spec [of ?mo tg s] obtain i where "find_merge ?mo tg s = int i" "can_take ?mo tg s i" "i < nb_blocks s" by blast
    then show ?thesis using that [of i] T(4) by (simp add: find_victim_def can_take_def is_meta_def)
  next
    case True
    have "find_free s = - 1"
    proof (rule ccontr)
      assume "find_free s \<noteq> - 1"
      with find_free_spec [of s] obtain i where i: "current_page_offset (blocks s ! i) = 0" "state (blocks s ! i) = BLK_FREE" "i < nb_blocks s" by blast
      then have "\<not> is_meta s i" using mt by (auto simp: meta_taken_def)
      moreover have "i \<noteq> tg" using i(2) T(3) by (auto simp: block_kind_def split: if_splits)
      ultimately have "can_take ?mo tg s i" using i(1) T(4,5) by (simp add: can_take_def is_meta_def)
      with True find_merge_spec [of ?mo tg s] i(3) show False by blast
    qed
    then show ?thesis using that [of tg] True T(1,2) by (simp add: find_victim_def)
  qed
qed

section \<open>Marking a block commutes with the collection\<close>

lemma mark_list [simp]: "valid_list (blocks (mark v s) ! i) = valid_list (blocks s ! i)"
  by (cases "v < length (blocks s)") (auto simp: mark_def nth_list_update list_update_beyond)

lemma linked_mark: "v < length (blocks s) \<Longrightarrow> linked h (mark v s) = linked h s"
  by (simp add: linked_def list_ex_length)

lemma mark_map:
  assumes "v < length (blocks s)" "\<And>b. g (b\<lparr>state := BLK_USED\<rparr>) = (g b)\<lparr>state := BLK_USED\<rparr>"
  shows "(mark v s)\<lparr>blocks := map g (blocks (mark v s))\<rparr> = mark v (s\<lparr>blocks := map g (blocks s)\<rparr>)"
  using assms by (simp add: mark_def map_update)

lemma list_del_mark:
  assumes "v < length (blocks s)"
  shows "list_del h (mark v s) = obind (list_del h s) (\<lambda>t. Ret (mark v t))"
  using mark_map [OF assms, of "\<lambda>b. b\<lparr>valid_list := removeAll h (valid_list b)\<rparr>"] assms
  by (simp add: list_del_def linked_mark)

lemma upd_block_mark:
  assumes "v < length (blocks s)" "\<And>b. g (b\<lparr>state := BLK_USED\<rparr>) = (g b)\<lparr>state := BLK_USED\<rparr>"
  shows "upd_block i g (mark v s) = obind (upd_block i g s) (\<lambda>t. Ret (mark v t))"
proof (cases "0 \<le> i \<and> nat i < length (blocks s)")
  case True
  then show ?thesis using assms
    by (cases "nat i = v") (simp_all add: upd_block_def arr_upd_def mark_def list_update_swap nth_list_update in_range_def)
next
  case False
  then show ?thesis by (auto simp: upd_block_def arr_upd_def in_range_def)
qed

lemma invalid_pg_mark:
  assumes "v < length (blocks s)" "invalid_pg h s = Ret t"
  shows "invalid_pg h (mark v s) = Ret (mark v t)"
proof -
  have swap: "(mark v s)\<lparr>hashtable := ht\<rparr> = mark v (s\<lparr>hashtable := ht\<rparr>)" for ht by (simp add: mark_def)
  let ?g = "\<lambda>b. b\<lparr>nb_invalid := nb_invalid b + 1\<rparr>" and ?s = "s\<lparr>hashtable := release (nat h) (hashtable s)\<rparr>"
  let ?x = "index (release (nat h) (hashtable s) ! nat h)"
  have r: "in_range h (hashtable s)" using assms(2) by (auto simp: invalid_pg_def split: if_splits)
  have q: "pages_per_block s \<noteq> 0" using assms(2) by (auto simp: invalid_pg_def upd_block_of_def Let_def split: if_splits)
  have e: "obind (upd_block (c_div ?x (pages_per_block s)) ?g ?s) (list_del (nat h)) = Ret t"
    using assms(2) r q by (simp add: invalid_pg_def upd_block_of_def Let_def)
  then obtain u where u: "upd_block (c_div ?x (pages_per_block s)) ?g ?s = Ret u" "list_del (nat h) u = Ret t"
    by (cases "upd_block (c_div ?x (pages_per_block s)) ?g ?s") simp_all
  have l: "length (blocks u) = length (blocks s)" using u(1) by (auto simp: upd_block_def arr_upd_def split: if_splits)
  have "upd_block (c_div ?x (pages_per_block s)) ?g (mark v ?s) = Ret (mark v u)"
    using upd_block_mark [of v ?s ?g] assms(1) u(1) by simp
  moreover have "list_del (nat h) (mark v u) = Ret (mark v t)" using list_del_mark [of v u] assms(1) l u(2) by simp
  ultimately show ?thesis using r q by (simp add: invalid_pg_def upd_block_of_def Let_def swap)
qed

section \<open>Entries and keys\<close>

text \<open>As many buckets are in use as the map has keys, and they fit the block lists.\<close>

lemma par_occupied:
  assumes "par_rep byte_at good fsize M s"
  shows "finite (dom M)" "card (occupied (hashtable s)) = card (dom M)"
proof -
  note D = par_repD [OF assms]
  let ?k = "\<lambda>h. fst (the (entry (hashtable s) h))"
  have inj: "inj_on ?k (dom (entry (hashtable s)))"
    using par_keys [OF assms] by (fastforce simp: inj_on_def v_keys_def)
  have im: "?k ` dom (entry (hashtable s)) = dom M"
  proof (intro set_eqI iffI)
    fix k assume "k \<in> ?k ` dom (entry (hashtable s))"
    then obtain h x where "entry (hashtable s) h = Some (k, x)" by auto
    with view_okD(4) [OF D(6), of h k x] show "k \<in> dom M" by (auto simp: v_entry_def)
  next
    fix k assume "k \<in> dom M"
    with view_okD(5) [OF D(6), of k] obtain h x where "entry (hashtable s) h = Some (k, x)" by auto
    then show "k \<in> ?k ` dom (entry (hashtable s))" by force
  qed
  have f: "finite (dom (entry (hashtable s)))" using finite_occupied [of "hashtable s"] by (simp add: occupied_dom)
  show "finite (dom M)" using f im by (metis finite_imageI)
  show "card (occupied (hashtable s)) = card (dom M)" using card_image [OF inj] im by (simp add: occupied_dom)
qed

lemma par_live_bound:
  assumes inv: "par_rep byte_at good fsize M s" and tg: "find_target (take (nb_meta 1 s) (meta_blkordr s)) s = Some tg"
  shows "card (dom M) + 20 \<le> HASH_SIZE s"
proof -
  note D = par_repD [OF inv] and g = par_geometryD [OF par_repD(1) [OF inv]] and T = par_target [OF inv tg]
  let ?l = "\<lambda>i. valid_list (blocks s ! i)"
  have sub: "occupied (hashtable s) \<subseteq> (\<Union>i<nb_blocks s. set (?l i))"
  proof
    fix h assume "h \<in> occupied (hashtable s)"
    then obtain k x where "entry (hashtable s) h = Some (k, x)" by (auto simp: occupied_dom)
    with view_okD(4) [OF D(6), of h k x] show "h \<in> (\<Union>i<nb_blocks s. set (?l i))" by (auto simp: v_entry_def)
  qed
  have len: "length (?l i) + (if i = tg then 20 else 0) \<le> pages_per_block s - 1" if "i < nb_blocks s" for i
  proof -
    have "v_counts (view_of byte_at s) i" using view_okD(2) [OF D(6), of i] that by simp
    then have "length (?l i) + 1 \<le> pages_per_block s" using g(2) by (auto simp: v_counts_def split: kind.splits)
    then show ?thesis using T(5) by auto
  qed
  have "card (dom M) \<le> card (\<Union>i<nb_blocks s. set (?l i))"
    using card_mono [OF _ sub] par_occupied(2) [OF inv] by simp
  also have "\<dots> \<le> (\<Sum>i<nb_blocks s. card (set (?l i)))" by (rule card_UN_le) simp
  also have "\<dots> \<le> (\<Sum>i<nb_blocks s. length (?l i))" by (rule sum_mono) (rule card_length)
  finally have "card (dom M) + 20 \<le> (\<Sum>i<nb_blocks s. length (?l i)) + (\<Sum>i<nb_blocks s. if i = tg then 20 else 0)"
    using T(1) by simp
  also have "\<dots> = (\<Sum>i<nb_blocks s. length (?l i) + (if i = tg then 20 else 0))" by (simp add: sum.distrib)
  also have "\<dots> \<le> (\<Sum>i<nb_blocks s. pages_per_block s - 1)" by (rule sum_mono) (use len in simp)
  finally show ?thesis using g(7) by (simp add: mult.commute)
qed

section \<open>Only one block changes\<close>

definition only_block :: "nat \<Rightarrow> 'm lkp_kv \<Rightarrow> 'm lkp_kv \<Rightarrow> bool" where
  "only_block tg s t \<longleftrightarrow> length (blocks t) = length (blocks s) \<and> (\<forall>i. i \<noteq> tg \<longrightarrow> blocks t ! i = blocks s ! i)"

lemma only_block_refl [simp]: "only_block tg s s" by (simp add: only_block_def)

lemma only_block_trans: "only_block tg s t \<Longrightarrow> only_block tg t u \<Longrightarrow> only_block tg s u" by (simp add: only_block_def)

lemma only_block_upd: "blocks t = (blocks s)[tg := b] \<Longrightarrow> only_block tg s t" by (simp add: only_block_def)

lemma only_block_update: "only_block tg s t \<Longrightarrow> (blocks t)[tg := x] = (blocks s)[tg := x]"
proof (rule nth_equalityI)
  fix i assume "only_block tg s t" "i < length ((blocks t)[tg := x])"
  then show "(blocks t)[tg := x] ! i = (blocks s)[tg := x] ! i" by (cases "i = tg") (simp_all add: only_block_def)
qed (simp add: only_block_def)

section \<open>Step 1: collecting the valid pages\<close>

text \<open>The state after the collection: the entries of the block are gone, the rest is as before.\<close>

definition par_collected :: "nat \<Rightarrow> 'm lkp_kv \<Rightarrow> 'm lkp_kv \<Rightarrow> bool" where
  "par_collected tg s t \<longleftrightarrow> par_same s t \<and> flash t = flash s \<and> read_only t = read_only s \<and> valid_list (blocks t ! tg) = []
     \<and> worn (blocks t ! tg) = worn (blocks s ! tg) \<and> state (blocks t ! tg) = state (blocks s ! tg)
     \<and> current_page_offset (blocks t ! tg) = current_page_offset (blocks s ! tg) \<and> only_block tg s t"

definition par_dropped :: "nat \<Rightarrow> nat \<Rightarrow> 'm lkp_kv \<Rightarrow> 'm lkp_kv" where
  "par_dropped h i s = par_upd i (drop_blk h (blocks s ! i)) (release h (hashtable s)) (flash s) (read_only s) s"

lemma par_next_node: "next_node (h # ys) h = Ret (case ys of [] \<Rightarrow> None | y # _ \<Rightarrow> Some y)"
  by (simp add: next_node_def split: list.splits)

text \<open>The entry's bucket is on the list of the block its page is in.\<close>

lemma par_invalid_pg_at:
  assumes inv: "par_rep byte_at good fsize M s" and e: "entry (hashtable s) h = Some (k, x)"
    and i: "i < nb_blocks s" "h \<in> set (valid_list (blocks s ! i))"
  shows "invalid_pg (int h) s = Ret (par_dropped h i s)" "par_rep byte_at good fsize (M(k := None)) (par_dropped h i s)" "block_kind s i = Data"
proof -
  obtain i' where i': "i' < nb_blocks s" "invalid_pg (int h) s = Ret (par_dropped h i' s)"
    "par_rep byte_at good fsize (M(k := None)) (par_dropped h i' s)" "block_kind s i' = Data"
    using par_invalid_pg [OF inv e] unfolding par_dropped_def by blast
  have "i' = i"
  proof (rule ccontr)
    assume "i' \<noteq> i"
    then have "h \<in> set (valid_list (blocks (par_dropped h i' s) ! i))" using i(2) by (simp add: par_dropped_def)
    moreover have "entry (hashtable (par_dropped h i' s)) h = None"
      using e by (auto simp: par_dropped_def entry_def release_def split: if_splits)
    ultimately show False using par_lists_free [OF i'(3), of h i] i(1) by (simp add: par_dropped_def)
  qed
  with i' show "invalid_pg (int h) s = Ret (par_dropped h i s)" "par_rep byte_at good fsize (M(k := None)) (par_dropped h i s)"
    "block_kind s i = Data" by simp_all
qed

context reliable_flash
begin

lemma par_collect_step:
  assumes inv: "par_kv M s" and v: "v < nb_blocks s" and tg: "tg < nb_blocks s" "valid_list (blocks s ! tg) = h # ys" and lk: "\<not> one_lock s"
    and buf: "length recs * pages_per_block s + page_size s \<le> length buffer"
  obtains c buffer1 where "couple_of PAR_KEY_MAX (page_size s) M c" "par_kv (M(fst c := None)) (par_dropped h tg s)"
    "length buffer1 = length buffer" "take (length recs * pages_per_block s) buffer1 = take (length recs * pages_per_block s) buffer"
    "holds_couple (drop (length recs * pages_per_block s) buffer1) c"
    "gc_collect K tg (Suc left) (Some h) recs buffer (mark v s)
       = gc_collect K tg left (case ys of [] \<Rightarrow> None | y # _ \<Rightarrow> Some y) (recs @ [lens c]) buffer1 (mark v (par_dropped h tg s))"
    "\<exists>q. entry (hashtable s) h = Some (fst c, q)" "block_kind s tg = Data"
proof -
  note D = par_repD [OF inv] and g = par_geometryD [OF par_repD(1) [OF inv]]
  have mem: "h \<in> set (valid_list (blocks s ! tg))" using tg(2) by simp
  have lists: "v_lists (view_of byte_at s)" using view_okD(6) [OF D(6)] .
  from lists tg(1) mem obtain k j where e: "entry (hashtable s) h = Some (k, int (tg * pages_per_block s + j))" "j < pages_per_block s"
    unfolding v_lists_def view_of_simps by blast
  let ?p = "tg * pages_per_block s + j"
  obtain i' j' w where o: "int ?p = int (i' * pages_per_block s + j')" "i' < nb_blocks s" "j' < pages_per_block s" "M k = Some w"
    "couple_ok (page_size s) (k, w)" "length k < PAR_KEY_MAX"
    "holds_couple (flash_page byte_at (page_size s) (flash s) (i' * pages_per_block s + j')) (k, w)"
    "h < length (hashtable s)" "index (hashtable s ! h) = int ?p" "c_div (int ?p) (pages_per_block s) = int i'"
    by (rule par_entryD [OF inv e(1)])
  have "c_div (int ?p) (pages_per_block s) = int tg" using e(2) by (simp only: c_div_int div_mult_lt)
  then have ij: "i' = tg" "j' = j" using o(1,10) by auto
  let ?page = "flash_page byte_at (page_size s) (flash s) ?p"
  note page = o(7) [unfolded ij] and cd = o(10) [unfolded ij]
  have rd: "read_page K (int ?p) (mark v s) = Ret (0, ?page)"
    using par_read_page [of "mark v s" tg j] D(1,2) tg(1) e(2) lk by (simp del: of_nat_add of_nat_mult)
  let ?off = "length recs * pages_per_block s"
  have "?off + length ?page \<le> length buffer" using buf by simp
  then obtain b1 where b1: "mem_store buffer (int ?off) ?page = Ret b1" "length b1 = length buffer"
    "take ?off b1 = take ?off buffer" "drop ?off b1 = ?page @ drop (?off + page_size s) buffer"
    by (rule mem_store_ok) auto
  have hb: "holds_couple (drop ?off b1) (k, w)" unfolding b1(4) by (rule holds_couple_append [OF page])
  have lo: "?off \<le> length b1" using buf b1(2) by simp
  have l8: "8 \<le> length (drop ?off b1)" using holds_length [OF hb] by simp
  have lt: "length (fst (k, w)) < 2147483648" "length (snd (k, w)) < 2147483648" using o(5) g(4) by (auto simp: couple_ok_def)
  have sl: "mem_slice b1 (int ?off) 4 = Ret (take 4 (drop ?off b1))" "mem_slice b1 (int ?off + 4) 4 = Ret (take 4 (drop 4 (drop ?off b1)))"
    "mem_slice b1 (int ?off + 8) (int (length k)) = Ret k"
    using mem_slice_drop [OF lo, of 0 4] mem_slice_drop [OF lo, of 4 4] mem_slice_drop [OF lo, of 8 "int (length k)"]
      mem_slice_int4 [of "drop ?off b1"] l8 holds_slice_key [OF hb] by simp_all
  have kl: "bytes_int (take 4 (drop ?off b1)) = int (length k)" "bytes_int (take 4 (drop 4 (drop ?off b1))) = int (length w)"
    using holds_key_len [OF hb lt(1)] holds_val_len [OF hb lt(2)] unfolding bytes_int_take4 by simp_all
  have ck: "cstring k" using o(5) by (simp add: couple_ok_def)
  have hs: "par_hash_search (HASH_SIZE s) (hashtable s) k = Ret (int h)"
    using ht.search_present [OF D(5) e(1)] by (simp add: par_search_eq)
  note ip = par_invalid_pg_at [OF inv e(1) tg(1) mem]
  have ipm: "invalid_pg (int h) (mark v s) = Ret (mark v (par_dropped h tg s))"
    by (rule invalid_pg_mark [OF _ ip(1)]) (use v D(3) in simp)
  obtain mm where al: "k_kmalloc K (flash s) (nat (int (length k) + 1)) = Some mm" using kmalloc_ok [OF D(2)] by blast
  have "gc_collect K tg (Suc left) (Some h) recs buffer (mark v s)
       = gc_collect K tg left (case ys of [] \<Rightarrow> None | y # _ \<Rightarrow> Some y) (recs @ [lens (k, w)]) b1 (mark v (par_dropped h tg s))"
    using tg D(3) o(8,9) cd rd b1(1) sl kl al hs ipm ck
    by (simp del: of_nat_add of_nat_mult bytes_int_take4 add: Let_def par_next_node lens_def)
  with that [of "(k, w)" b1] ip(2,3) o(4-6) e(1) b1 hb show ?thesis by (auto simp: couple_of_def)
qed

lemma par_collect_ok:
  assumes "par_kv M s" "v < nb_blocks s" "tg < nb_blocks s" "valid_list (blocks s ! tg) = xs" "length xs \<le> left" "\<not> one_lock s"
    and "\<forall>r < length recs + length xs. r * pages_per_block s + page_size s \<le> length buffer"
    and "pages_per_block s \<le> page_size s"
    and "\<forall>k v. M k = Some v \<longrightarrow> 8 + length k + length v \<le> pages_per_block s"
  shows "\<exists>cs buffer' t. gc_collect K tg left (case xs of [] \<Rightarrow> None | y # _ \<Rightarrow> Some y) recs buffer (mark v s)
        = Ret (recs @ map lens cs, buffer', mark v t)
     \<and> par_kv (M |` (- fst ` set cs)) t \<and> length cs = length xs \<and> distinct (map fst cs) \<and> list_all (couple_of PAR_KEY_MAX (page_size s) M) cs
     \<and> length buffer' = length buffer \<and> take (length recs * pages_per_block s) buffer' = take (length recs * pages_per_block s) buffer
     \<and> buffered (pages_per_block s) (length recs) buffer' cs \<and> par_collected tg s t \<and> (par_typed byte_at s \<longrightarrow> par_typed byte_at t)"
  using assms
proof (induction xs arbitrary: M s left recs buffer)
  case Nil
  have "M |` (- {}) = M" by (simp add: restrict_map_def)
  with Nil show ?case
    by (intro exI [of _ "[]"] exI [of _ buffer] exI [of _ s]) (simp add: buffered_def par_collected_def)
next
  case (Cons h ys)
  note D = par_repD [OF Cons.prems(1)]
  from Cons.prems(5) obtain l where l: "left = Suc l" "length ys \<le> l" by (cases left) auto
  have off: "length recs * pages_per_block s + page_size s \<le> length buffer" using Cons.prems(7) by simp
  obtain c b1 where c: "couple_of PAR_KEY_MAX (page_size s) M c" "par_kv (M(fst c := None)) (par_dropped h tg s)" "length b1 = length buffer"
    "take (length recs * pages_per_block s) b1 = take (length recs * pages_per_block s) buffer"
    "holds_couple (drop (length recs * pages_per_block s) b1) c"
    "gc_collect K tg (Suc l) (Some h) recs buffer (mark v s)
       = gc_collect K tg l (case ys of [] \<Rightarrow> None | y # _ \<Rightarrow> Some y) (recs @ [lens c]) b1 (mark v (par_dropped h tg s))"
    "\<exists>q. entry (hashtable s) h = Some (fst c, q)" "block_kind s tg = Data"
    by (rule par_collect_step [OF Cons.prems(1-4,6) off])
  let ?s = "par_dropped h tg s"
  have sh: "nb_blocks ?s = nb_blocks s" "pages_per_block ?s = pages_per_block s" "page_size ?s = page_size s" "one_lock ?s = one_lock s"
    by (simp_all add: par_dropped_def)
  have "v_counts (view_of byte_at s) tg" using view_okD(2) [OF D(6), of tg] Cons.prems(3) by simp
  then have ds: "distinct (h # ys)" using Cons.prems(4) by (simp add: v_counts_def)
  have il: "tg < length (blocks s)" using Cons.prems(3) D(3) by simp
  have vl: "valid_list (blocks ?s ! tg) = ys" using il Cons.prems(4) ds by (simp add: par_dropped_def drop_blk_def removeAll_id)
  have small: "\<forall>k v. (M(fst c := None)) k = Some v \<longrightarrow> 8 + length k + length v \<le> pages_per_block ?s"
    using Cons.prems(9) sh by (auto split: if_splits)
  have bound: "\<forall>r < length (recs @ [lens c]) + length ys. r * pages_per_block ?s + page_size ?s \<le> length b1"
    using Cons.prems(7) c(3) sh by simp
  have tyd: "par_typed byte_at ?s" if "par_typed byte_at s"
  proof -
    obtain q where "entry (hashtable s) h = Some (fst c, q)" using c(7) by blast
    from typed_drop [OF Cons.prems(1) this Cons.prems(3) _ that c(8)] c(2) show ?thesis unfolding par_dropped_def by blast
  qed
  have IH: "\<exists>cs b2 t. gc_collect K tg l (case ys of [] \<Rightarrow> None | y # _ \<Rightarrow> Some y) (recs @ [lens c]) b1 (mark v ?s)
        = Ret ((recs @ [lens c]) @ map lens cs, b2, mark v t) \<and> par_kv ((M(fst c := None)) |` (- fst ` set cs)) t \<and> length cs = length ys
     \<and> distinct (map fst cs) \<and> list_all (couple_of PAR_KEY_MAX (page_size ?s) (M(fst c := None))) cs
     \<and> length b2 = length b1 \<and> take (length (recs @ [lens c]) * pages_per_block ?s) b2 = take (length (recs @ [lens c]) * pages_per_block ?s) b1
     \<and> buffered (pages_per_block ?s) (length (recs @ [lens c])) b2 cs \<and> par_collected tg ?s t \<and> (par_typed byte_at ?s \<longrightarrow> par_typed byte_at t)"
    by (rule Cons.IH [OF c(2) _ _ vl l(2) _ bound _ small]) (use Cons.prems sh in simp_all)
  then obtain cs b2 t where r: "gc_collect K tg l (case ys of [] \<Rightarrow> None | y # _ \<Rightarrow> Some y) (recs @ [lens c]) b1 (mark v ?s)
        = Ret ((recs @ [lens c]) @ map lens cs, b2, mark v t)" "par_kv ((M(fst c := None)) |` (- fst ` set cs)) t" "length cs = length ys"
     "distinct (map fst cs)" "list_all (couple_of PAR_KEY_MAX (page_size s) (M(fst c := None))) cs" "length b2 = length b1"
     "take (Suc (length recs) * pages_per_block s) b2 = take (Suc (length recs) * pages_per_block s) b1"
     "buffered (pages_per_block s) (Suc (length recs)) b2 cs" "par_collected tg ?s t" "par_typed byte_at ?s \<longrightarrow> par_typed byte_at t"
    unfolding sh by auto
  have new: "fst c \<notin> fst ` set cs"
    using r(5) by (auto simp: list_all_iff couple_of_def split: if_splits)
  have "(M(fst c := None)) |` (- fst ` set cs) = M |` (- fst ` set (c # cs))"
    by (auto simp: restrict_map_def fun_eq_iff)
  then have kvt: "par_kv (M |` (- fst ` set (c # cs))) t" using r(2) by simp
  have ok: "list_all (couple_of PAR_KEY_MAX (page_size s) M) (c # cs)"
    using r(5) c(1) new by (auto simp: list_all_iff couple_of_def split: if_splits)
  have "8 + length (fst c) + length (snd c) \<le> pages_per_block s"
    using Cons.prems(9) c(1) by (simp add: couple_of_def)
  moreover have "Suc (length recs) * pages_per_block s \<le> length b1" using off c(3) Cons.prems(8) by simp
  ultimately have bf: "buffered (pages_per_block s) (length recs) b2 (c # cs)"
    using buffered_Cons [OF c(5) _ r(7,8)] by simp
  have tk: "take (length recs * pages_per_block s) b2 = take (length recs * pages_per_block s) buffer"
    using r(7) c(4) by (metis (no_types, lifting) le_add2 min.absorb1 mult_Suc take_take)
  have col: "par_collected tg s t"
    using r(9) il only_block_trans [OF only_block_upd [of ?s s tg]] par_same_trans [of s ?s t]
    by (auto simp: par_collected_def par_dropped_def drop_blk_def)
  show ?case
    using c(6) r(1,3,4,6,10) kvt ok bf tk col new l(1) c(3) tyd by (intro exI [of _ "c # cs"] exI [of _ b2] exI [of _ t]) auto
qed

end

section \<open>Step 2: erasing the block\<close>

lemma view_of_format_done: "view_of B (s\<lparr>format_done := x\<rparr>) = view_of B s"
  by (simp add: view_of_def fun_eq_iff block_kind_def is_meta_def nb_meta_def)

lemma par_rep_format_done [lock_simps]:
  "par_rep B G f M (s\<lparr>format_done := x\<rparr>) = par_rep B G f M s" "par_typed B (s\<lparr>format_done := x\<rparr>) = par_typed B s"
  by (simp_all add: par_rep_def par_geometry_def nb_meta_def block_states_def is_read_only_def view_of_format_done
      par_typed_def data_unmarked_def block_kind_def is_meta_def)

lemma full_count_erased:
  assumes "i < length (blocks s)" "current_page_offset b < int (pages_per_block s)"
  shows "full_count (par_upd i b ht m ro s) \<le> full_count s"
  using assms unfolding full_count_def length_filter_conv_card by (auto intro!: card_mono simp: nth_list_update split: if_splits)

context reliable_flash
begin

lemma par_erase:
  assumes inv: "par_kv M s" and i: "i < nb_blocks s" "valid_list (blocks s ! i) = []" "\<not> is_meta s i" "worn (blocks s ! i) < 2147483646"
    and lk: "\<not> list_lock s" and ro: "\<not> read_only s" and v: "v < nb_blocks s"
  obtains u where "format_single K (int i) (mark v s) = Ret (0, if v = i then u else mark v u)" "par_kv M u" "par_same s u"
    "hashtable u = hashtable s" "\<not> read_only u" "blocks u = (blocks s)[i := erased_blk (blocks s ! i)]" "block_kind u i = Free"
    "par_typed byte_at s \<longrightarrow> par_typed byte_at u"
proof -
  note D = par_repD [OF inv] and g = par_geometryD [OF par_repD(1) [OF inv]]
  have il: "i < length (blocks s)" "v < length (blocks s)" using i(1) v D(3) by simp_all
  let ?b = "erased_blk (blocks s ! i)"
  have pre: "par_geometry (mark v s) fsize" "good (flash (mark v s))" "\<not> list_lock (mark v s)" "i < nb_blocks (mark v s)"
    "length (blocks (mark v s)) = nb_blocks (mark v s)" using D lk i(1) by simp_all
  obtain m where m: "good m"
    "\<And>p. flash_page byte_at (page_size s) m p
        = (if i * pages_per_block s \<le> p \<and> p < (i + 1) * pages_per_block s then replicate (page_size s) 255
           else flash_page byte_at (page_size s) (flash s) p)"
    "format_single K (int i) (mark v s) = Ret (0, (mark v s)\<lparr>format_done := 1, flash := m,
        blocks := (blocks (mark v s))[i := erased_blk (blocks (mark v s) ! i)], read_only := False, meta_read_only := False\<rparr>)"
    using par_format_single [OF pre] unfolding mark_simps by blast
  let ?t = "par_upd i ?b (hashtable s) m False s" let ?u = "?t\<lparr>format_done := 1\<rparr>"
  have mro: "\<not> meta_read_only s" using D(8) ro by blast
  have fs: "format_single K (int i) (mark v s) = Ret (0, if v = i then ?u else mark v ?u)"
  proof (cases "v = i")
    case True
    then show ?thesis using m(3) il ro mro by (cases s) (simp add: mark_def par_upd_def erased_blk_def)
  next
    case False
    then show ?thesis using m(3) il ro mro by (cases s) (simp add: mark_def par_upd_def erased_blk_def list_update_swap)
  qed
  have vw: "view_of byte_at ?t = v_erase (flash_page byte_at (page_size s) m) i (view_of byte_at s)"
    using i(3) by (intro view.equality) (auto simp: view_of_upd [OF il(1)] v_erase_def erased_blk_def fun_eq_iff)
  have "par_kv M ?t"
  proof (rule par_rep_upd [OF inv i(1) m(1) _ _ D(5)])
    show "state ?b = BLK_FREE \<or> state ?b = BLK_USED" "worn ?b < 2147483647" using i(4) by (simp_all add: erased_blk_def)
    show "view_ok PAR_KEY_MAX M (view_of byte_at ?t)"
      unfolding vw using i(1,2) m(2) by (intro v_erase_ok [OF D(6)]) simp_all
    have "full_count ?t \<le> full_count s" by (rule full_count_erased [OF il(1)]) (use g(2) in \<open>simp add: erased_blk_def\<close>)
    moreover have "\<not> is_read_only s" using D(7) ro by simp
    ultimately show "False \<longleftrightarrow> is_read_only ?t" by (simp add: is_read_only_count)
  qed (use mro in simp)
  moreover have "par_typed byte_at ?t" if ty: "par_typed byte_at s"
  proof (rule typed_upd [OF ty il(1)])
    show "block_fits ?b"
      using par_typedD(2) [OF ty il(1)] i(4) by (simp add: erased_blk_def block_fits_def int32_def blk_state_int_def)
    show "\<forall>e \<in> set (hashtable s). bucket_typed e" using par_typedD(3) [OF ty] by blast
    fix i' assume i': "i' < nb_blocks s" "block_kind ?t i' = Data"
    then have ne: "i' \<noteq> i" "block_kind s i' = Data" using il(1) by (auto simp: block_kind_upd erased_blk_def split: if_splits)
    have "\<not> (i * pages_per_block s \<le> i' * pages_per_block s \<and> i' * pages_per_block s < (i + 1) * pages_per_block s)"
      using ne(1) by (metis Suc_eq_plus1 less_Suc_eq_le le_antisym mult_less_cancel2 mult_le_cancel2 g(2) zero_less_one order_less_trans)
    then have "flash_page byte_at (page_size s) m (i' * pages_per_block s) = flash_page byte_at (page_size s) (flash s) (i' * pages_per_block s)"
      unfolding m(2) by (rule if_not_P)
    then show "take (length META_HDR_BASE) (flash_page byte_at (page_size s) m (i' * pages_per_block s)) \<noteq> chars META_HDR_BASE"
      using par_typedD(4) [OF ty i'(1) ne(2)] by simp
  qed
  moreover have "par_same s ?u" by (simp add: par_same_def par_upd_def)
  moreover have "block_kind ?u i = Free" using il(1) i(3) by (simp add: block_kind_def erased_blk_def is_meta_def nb_meta_def par_upd_def)
  ultimately show ?thesis using that [OF fs] by (simp add: lock_simps)
qed

end

section \<open>Step 3: writing the couples\<close>

context reliable_flash
begin

lemma write_page_take: "page_size s \<le> length buf \<Longrightarrow> write_page K p buf s = write_page K p (take (page_size s) buf) s"
  using mem_slice_int [of 0 "page_size s" buf] mem_slice_int [of 0 "page_size s" "take (page_size s) buf"]
  by (simp add: write_page_def lock_one_def)

lemma par_gc_write:
  assumes inv: "par_kv M s" and v: "v < nb_blocks s" "block_kind s v = Data" and ro: "\<not> read_only s" and lk: "\<not> list_lock s" "\<not> one_lock s"
    and j: "current_page_offset (blocks s ! v) = int j" "Suc j < pages_per_block s" and room: "card (dom M) + 2 \<le> HASH_SIZE s"
    and c: "M (fst c) = None" "couple_ok (page_size s) c" "length (fst c) < PAR_KEY_MAX"
    and buf: "holds_couple (drop (i * pages_per_block s) buffer) c" "i * pages_per_block s + page_size s \<le> length buffer"
  obtains t b where "gc_write K (int v) (i, lens c) (buffer, s) = Ret (buffer, t)" "par_kv (M(fst c \<mapsto> snd c)) t"
    "blocks t = (blocks s)[v := b]" "state b = BLK_USED" "current_page_offset b = int (Suc j)" "nb_invalid b = nb_invalid (blocks s ! v)"
    "worn b = worn (blocks s ! v)" "par_same s t" "\<not> read_only t" "par_typed byte_at s \<longrightarrow> par_typed byte_at t"
proof -
  note D = par_repD [OF inv]
  let ?off = "i * pages_per_block s" and ?p = "v * pages_per_block s + j"
  have vl: "v < length (blocks s)" using v(1) D(3) by simp
  have lo: "?off \<le> length buffer" using buf(2) by simp
  define page where "page = take (page_size s) (drop ?off buffer)"
  note pg = buffer_page [OF buf(1) c(2) buf(2), folded page_def]
  note rc = buffer_record [OF buf(1) lo]
  have cs: "cstring (fst c)" "cstring (snd c)" using c(2) by (simp_all add: couple_ok_def)
  have jq: "j < pages_per_block s" using j(2) by simp
  have c': "couple_ok (page_size s) (fst c, snd c)" "holds_couple page (fst c, snd c)" using c(2) pg(2) by simp_all
  have rm: "index_room (HASH_SIZE s) (hashtable s)" using par_occupied(2) [OF inv] room by (simp add: index_room_def)
  obtain u h ht t where t: "write_page K (int ?p) page s = Ret (if read_only t then - 1 else 0, u)"
    "par_hash_add (pages_per_block u) (HASH_SIZE u) (hashtable u) (fst c) (int ?p) = Ret (int h, ht)"
    "list_add (int h) (int v) (u\<lparr>list_lock := True, hashtable := ht\<rparr>) = Ret (t\<lparr>list_lock := True\<rparr>)"
    "par_kv (M(fst c \<mapsto> snd c)) t" "par_same s u" "par_same s t"
    "\<exists>m ro. t = par_upd v (add_blk h (blocks s ! v)) ht m ro s" "par_typed byte_at s \<longrightarrow> par_typed byte_at t"
    by (rule par_write_couple [OF inv v j(1) jq c(1) c'(1) c(3) pg(1) c'(2) ro lk rm])
  obtain m r where tr: "t = par_upd v (add_blk h (blocks s ! v)) ht m r s" using t(7) by blast
  have "is_read_only t = is_read_only s"
    unfolding tr by (rule is_read_only_upd [OF vl]) (use j in \<open>simp add: add_blk_def\<close>)
  then have rt: "\<not> read_only t" using par_repD(7) [OF t(4)] D(7) ro by simp
  have wp: "write_page K (int ?p) (drop ?off buffer) s = Ret (0, u)"
    using write_page_take [of s "drop ?off buffer" "int ?p"] t(1) rt buf(2) by (simp add: page_def)
  have lu: "\<not> list_lock u" "\<not> list_lock t" using par_sameD(6) [OF t(5)] par_sameD(6) [OF t(6)] lk(1) by simp_all
  have su: "unlock_list (t\<lparr>list_lock := True\<rparr>) = t" using lu(2) by (cases t) (simp add: unlock_list_def)
  obtain mm where al: "k_kmalloc K (flash s) (nat (int (length (fst c)) + 1)) = Some mm" using kmalloc_ok [OF D(2)] by blast
  have px: "int v * int (pages_per_block s) + current_page_offset (blocks s ! v) = int ?p" using j(1) by simp
  have "gc_write K (int v) (i, lens c) (buffer, s) = Ret (buffer, t)"
    unfolding gc_write_def lens_def prod.case Let_def
    using rc cs vl al wp t(2,3) lu(1) su
    by (simp add: px lock_list_def del: of_nat_add of_nat_mult)
  moreover have "state (blocks s ! v) = BLK_USED"
    using v(2) D(4) vl by (auto simp: block_kind_def block_states_def split: if_splits)
  ultimately show ?thesis
    using that [of t "add_blk h (blocks s ! v)"] t(4,6,8) rt j(1) by (simp add: tr add_blk_def)
qed

lemma par_gc_write_all:
  assumes "par_kv M s" "v < nb_blocks s" "block_kind s v = Data" "\<not> read_only s" "\<not> list_lock s" "\<not> one_lock s"
    and "current_page_offset (blocks s ! v) = int j" "j + length cs < pages_per_block s" "card (dom M) + length cs + 2 \<le> HASH_SIZE s"
    and "distinct (map fst cs)"
    and "\<forall>c \<in> set cs. M (fst c) = None \<and> couple_ok (page_size s) c \<and> length (fst c) < PAR_KEY_MAX"
    and "buffered (pages_per_block s) n buffer cs" "\<forall>i < length cs. (n + i) * pages_per_block s + page_size s \<le> length buffer"
  shows "\<exists>t. ofold (gc_write K (int v)) (enumerate n (map lens cs)) (buffer, s) = Ret (buffer, t) \<and> par_kv (M ++ map_of cs) t
     \<and> current_page_offset (blocks t ! v) = int (j + length cs) \<and> par_same s t \<and> only_block v s t \<and> \<not> read_only t
     \<and> state (blocks t ! v) = BLK_USED
     \<and> nb_invalid (blocks t ! v) = nb_invalid (blocks s ! v) \<and> worn (blocks t ! v) = worn (blocks s ! v)
     \<and> (par_typed byte_at s \<longrightarrow> par_typed byte_at t)"
  using assms
proof (induction cs arbitrary: M s j n)
  case Nil
  have "state (blocks s ! v) = BLK_USED"
    using Nil.prems(2,3) par_repD(3,4) [OF Nil.prems(1)] by (auto simp: block_kind_def block_states_def split: if_splits)
  then show ?case using Nil by simp
next
  case (Cons c cs)
  have vl: "v < length (blocks s)" using Cons.prems(2) par_repD(3) [OF Cons.prems(1)] by simp
  have b: "holds_couple (drop (n * pages_per_block s) buffer) c" "n * pages_per_block s + page_size s \<le> length buffer"
    using Cons.prems(12) Cons.prems(13) [rule_format, of 0] unfolding buffered_def by (auto dest: spec [of _ 0])
  have jj: "Suc j < pages_per_block s" "card (dom M) + 2 \<le> HASH_SIZE s" using Cons.prems(8,9) by simp_all
  have c: "M (fst c) = None" "couple_ok (page_size s) c" "length (fst c) < PAR_KEY_MAX" using Cons.prems(11) by simp_all
  obtain t bb where t: "gc_write K (int v) (n, lens c) (buffer, s) = Ret (buffer, t)" "par_kv (M(fst c \<mapsto> snd c)) t"
    "blocks t = (blocks s)[v := bb]" "state bb = BLK_USED" "current_page_offset bb = int (Suc j)" "nb_invalid bb = nb_invalid (blocks s ! v)"
    "worn bb = worn (blocks s ! v)" "par_same s t" "\<not> read_only t" "par_typed byte_at s \<longrightarrow> par_typed byte_at t"
    by (rule par_gc_write [OF Cons.prems(1-7) jj c b])
  note S = par_sameD [OF t(8)]
  have dt: "block_kind t v = Data" using t(3,4) vl Cons.prems(3) S(11) by (auto simp: block_kind_def split: if_splits)
  have none: "\<forall>c' \<in> set cs. (M(fst c \<mapsto> snd c)) (fst c') = None \<and> couple_ok (page_size t) c' \<and> length (fst c') < PAR_KEY_MAX"
  proof
    fix c' assume a: "c' \<in> set cs"
    then have "fst c' \<noteq> fst c" using Cons.prems(10) by (metis distinct.simps(2) image_eqI list.set_map list.simps(9))
    with a Cons.prems(11) S show "(M(fst c \<mapsto> snd c)) (fst c') = None \<and> couple_ok (page_size t) c' \<and> length (fst c') < PAR_KEY_MAX"
      by simp
  qed
  have bf: "buffered (pages_per_block t) (Suc n) buffer cs"
    unfolding buffered_def
  proof (intro allI impI)
    fix i assume "i < length cs"
    then show "holds_couple (drop ((Suc n + i) * pages_per_block t) buffer) (cs ! i)"
      using Cons.prems(12) [unfolded buffered_def, rule_format, of "Suc i"] S(2) by simp
  qed
  have bd: "\<forall>i < length cs. (Suc n + i) * pages_per_block t + page_size t \<le> length buffer"
  proof (intro allI impI)
    fix i assume "i < length cs"
    then show "(Suc n + i) * pages_per_block t + page_size t \<le> length buffer"
      using Cons.prems(13) [rule_format, of "Suc i"] S(2,3) by simp
  qed
  have cd: "card (dom (M(fst c \<mapsto> snd c))) = Suc (card (dom M))" using c(1) par_occupied(1) [OF Cons.prems(1)] by (simp add: card_insert_if domIff)
  have rm: "card (dom (M(fst c \<mapsto> snd c))) + length cs + 2 \<le> HASH_SIZE t" unfolding cd S(4) using Cons.prems(9) by simp
  have IH: "\<exists>u. ofold (gc_write K (int v)) (enumerate (Suc n) (map lens cs)) (buffer, t) = Ret (buffer, u)
     \<and> par_kv (M(fst c \<mapsto> snd c) ++ map_of cs) u
     \<and> current_page_offset (blocks u ! v) = int (Suc j + length cs) \<and> par_same t u \<and> only_block v t u \<and> \<not> read_only u
     \<and> state (blocks u ! v) = BLK_USED
     \<and> nb_invalid (blocks u ! v) = nb_invalid (blocks t ! v) \<and> worn (blocks u ! v) = worn (blocks t ! v)
     \<and> (par_typed byte_at t \<longrightarrow> par_typed byte_at u)"
    by (rule Cons.IH [OF t(2) _ dt t(9) _ _ _ _ rm _ none bf bd]) (use Cons.prems S t(3,5) vl in simp_all)
  have Mc: "M(fst c \<mapsto> snd c) ++ map_of cs = M ++ map_of (c # cs)" by (rule couples_upd) (use Cons.prems(10) in simp)
  from IH obtain u where u: "ofold (gc_write K (int v)) (enumerate (Suc n) (map lens cs)) (buffer, t) = Ret (buffer, u)"
    "par_kv (M ++ map_of (c # cs)) u" "current_page_offset (blocks u ! v) = int (Suc j + length cs)" "par_same t u"
    "only_block v t u" "\<not> read_only u" "state (blocks u ! v) = BLK_USED" "nb_invalid (blocks u ! v) = nb_invalid (blocks t ! v)"
    "worn (blocks u ! v) = worn (blocks t ! v)" "par_typed byte_at t \<longrightarrow> par_typed byte_at u"
    unfolding Mc by blast
  have "ofold (gc_write K (int v)) (enumerate n (map lens (c # cs))) (buffer, s) = Ret (buffer, u)"
    using t(1) u(1) by simp
  then show ?case
    using u(2,3,6-10) par_same_trans [OF t(8) u(4)] only_block_trans [OF only_block_upd [OF t(3)] u(5)] t(3,6,7,10) vl
    by (intro exI [of _ u] conjI) (assumption | simp)+
qed

end

end
