(* ===== verification/ParallelCollect.thy ===== *)
theory ParallelCollect
  imports ParallelGc
begin

text \<open>
  The collection of the third prototype as a whole: \<open>gc\<close> keeps the map on every path, and a set that
  starts a collection updates the map like any other.  \<open>gc_ready\<close> says what a collection needs.
\<close>

section \<open>The whole collection\<close>

context reliable_flash
begin

text \<open>A fresh block gets its header first.\<close>

lemma par_gc_open:
  assumes inv: "par_kv M s" and ro: "\<not> read_only s" and lk: "\<not> list_lock s" "\<not> one_lock s"
    and v: "v < nb_blocks s" "\<not> is_meta s v" "current_page_offset (blocks s ! v) < int (pages_per_block s)" and w: "w = s \<or> w = mark v s"
  obtains z j b where "(if (int v * int (pages_per_block s) + current_page_offset (blocks s ! v)) mod int (pages_per_block s) = 0
      then obind (write_hdr K (int v * int (pages_per_block s) + current_page_offset (blocks s ! v)) NAND_DATA 0 w) (\<lambda>(_, s). Ret s)
      else Ret w) = Ret z"
    "par_kv M z" "block_kind z v = Data" "par_same s z" "\<not> read_only z" "blocks z = (blocks s)[v := b]"
    "current_page_offset b = int j" "int j = (if current_page_offset (blocks s ! v) = 0 then 1 else current_page_offset (blocks s ! v))"
    "nb_invalid b = nb_invalid (blocks s ! v)" "worn b = worn (blocks s ! v)" "par_typed byte_at s \<longrightarrow> par_typed byte_at z"
proof -
  note D = par_repD [OF inv]
  have vl: "v < length (blocks s)" using v(1) D(3) by simp
  have cnt: "v_counts (view_of byte_at s) v" using view_okD(2) [OF D(6), of v] v(1) by simp
  then have pos: "0 \<le> current_page_offset (blocks s ! v)" by (simp add: v_counts_def)
  have md: "(int v * int (pages_per_block s) + current_page_offset (blocks s ! v)) mod int (pages_per_block s) = current_page_offset (blocks s ! v)"
    using pos v(3) by simp
  show ?thesis
  proof (cases "current_page_offset (blocks s ! v) = 0")
    case True
    obtain z where z: "write_hdr K (int (v * pages_per_block s)) NAND_DATA 0 w = Ret (0, z)"
      "par_kv M z" "block_kind z v = Data" "par_same s z" "\<not> read_only z"
      "blocks z = (blocks s)[v := open_blk (blocks s ! v)]" "par_typed byte_at s \<longrightarrow> par_typed byte_at z"
      using par_open [OF inv ro lk v(1,2) True w] by blast
    show ?thesis
      by (rule that [of z, OF _ z(2-6), of 1]) (use z(1,7) True md in \<open>simp_all add: open_blk_def\<close>)
  next
    case False
    then have k: "block_kind s v = Data"
      using cnt v(2) by (cases "block_kind s v") (auto simp: v_counts_def block_kind_def split: if_splits)
    then have "state (blocks s ! v) = BLK_USED"
      using D(4) vl by (auto simp: block_kind_def block_states_def split: if_splits)
    then have ws: "w = s" using w mark_taken [OF vl] by auto
    obtain j where j: "current_page_offset (blocks s ! v) = int j" using pos by (metis nonneg_int_cases)
    show ?thesis
      by (rule that [of s "blocks s ! v", OF _ inv k _ ro]) (use md ws False j in simp_all)
  qed
qed

text \<open>
  Between the two locks: \<open>s\<close> is the store before, with \<open>erase_lock\<close> held.  The couples of the target
  come back, in the victim, and nothing else has changed.
\<close>

lemma par_gc_move:
  assumes inv: "par_kv M s" and ro: "\<not> read_only s" and lk: "\<not> list_lock s" "\<not> one_lock s" and q: "pages_per_block s \<le> page_size s"
    and tg: "find_target (take (nb_meta 1 s) (meta_blkordr s)) s = Some tg" and w: "worn (blocks s ! tg) < 2147483646"
    and v: "v < nb_blocks s" "\<not> is_meta s v"
      "v \<noteq> tg \<Longrightarrow> current_page_offset (blocks s ! v) + int (length (valid_list (blocks s ! tg))) < int (pages_per_block s)"
    and small: "\<forall>k v. M k = Some v \<longrightarrow> 8 + length k + length v \<le> pages_per_block s"
  obtains t b where "gc_move K tg (int v) (mark v s) = Ret t" "par_kv M t" "par_same s t" "\<not> read_only t"
    "blocks t = ((blocks s)[tg := erased_blk (blocks s ! tg)])[v := b]" "state b = BLK_USED"
    "nb_invalid b = (if v = tg then 0 else nb_invalid (blocks s ! v))" "worn b = (if v = tg then worn (blocks s ! tg) + 1 else worn (blocks s ! v))"
    "current_page_offset b = (if v = tg \<or> current_page_offset (blocks s ! v) = 0 then 1 else current_page_offset (blocks s ! v))
        + int (length (valid_list (blocks s ! tg)))"
    "par_typed byte_at s \<longrightarrow> par_typed byte_at t"
proof -
  note D = par_repD [OF inv] and g = par_geometryD [OF par_repD(1) [OF inv]] and T = par_target [OF inv tg]
  let ?xs = "valid_list (blocks s ! tg)" and ?size = "page_size s * pages_per_block s" and ?s = "s\<lparr>list_lock := True\<rparr>"
  obtain mem where mem: "k_kmalloc K (flash s) ?size = Some mem" "?size \<le> length mem" using kmalloc_ok [OF D(2)] by blast
  define buffer where "buffer = replicate ?size 0 @ drop ?size mem"
  have fit: "r * pages_per_block s + page_size s \<le> length buffer" if "r < length ?xs" for r
    by (rule buffer_fits [OF q]) (use that T(5) in \<open>simp_all add: buffer_def\<close>)
  have inv1: "par_kv M ?s" using inv by (simp add: lock_simps)
  obtain cs b2 t where c: "gc_collect K tg (pages_per_block s) (case ?xs of [] \<Rightarrow> None | y # _ \<Rightarrow> Some y) [] buffer (mark v ?s) = Ret (map lens cs, b2, mark v t)"
    "par_kv (M |` (- fst ` set cs)) t" "length cs = length ?xs" "distinct (map fst cs)" "list_all (couple_of PAR_KEY_MAX (page_size s) M) cs"
    "length b2 = length buffer" "buffered (pages_per_block s) 0 b2 cs" "par_collected tg ?s t" "par_typed byte_at s \<longrightarrow> par_typed byte_at t"
    using par_collect_ok [OF inv1, of v tg ?xs "pages_per_block s" "[]" buffer] v(1) T(1,5) lk(2) fit q small by (auto simp: lock_simps)
  define t1 where "t1 = unlock_list t"
  have t1: "par_kv (M |` (- fst ` set cs)) t1" "par_same s t1" "read_only t1 = read_only s" "valid_list (blocks t1 ! tg) = []"
    "worn (blocks t1 ! tg) = worn (blocks s ! tg)" "only_block tg s t1" "\<not> list_lock t1" "unlock_list (mark v t) = mark v t1"
    "erased_blk (blocks t1 ! tg) = erased_blk (blocks s ! tg)" "par_typed byte_at s \<longrightarrow> par_typed byte_at t1"
    using c(2,8,9) lk(1)
    by (simp_all add: t1_def unlock_list_def lock_simps par_collected_def par_same_def only_block_def mark_def erased_blk_def)
  note S1 = par_sameD [OF t1(2)]
  obtain u where u: "format_single K (int tg) (mark v t1) = Ret (0, if v = tg then u else mark v u)" "par_kv (M |` (- fst ` set cs)) u" "par_same t1 u"
    "hashtable u = hashtable t1" "\<not> read_only u" "blocks u = (blocks t1)[tg := erased_blk (blocks t1 ! tg)]" "block_kind u tg = Free"
    "par_typed byte_at t1 \<longrightarrow> par_typed byte_at u"
    by (rule par_erase [OF t1(1), of tg v]) (use T(1,2) t1 S1 w ro v(1) in simp_all)
  have su: "par_same s u" by (rule par_same_trans [OF t1(2) u(3)])
  note S2 = par_sameD [OF su]
  have bt1: "(blocks t1)[tg := x] = (blocks s)[tg := x]" for x
    by (rule only_block_update [OF t1(6)])
  have bu: "blocks u = (blocks s)[tg := erased_blk (blocks s ! tg)]" unfolding u(6) t1(9) bt1 ..
  have il: "tg < length (blocks s)" "v < length (blocks s)" using T(1) v(1) D(3) by simp_all
  have uv: "blocks u ! v = (if v = tg then erased_blk (blocks s ! tg) else blocks s ! v)" using il bu by auto
  let ?w = "if v = tg then u else mark v u"
  have ov: "current_page_offset (blocks u ! v) < int (pages_per_block u)" using v(3) g(2) S2(2) by (auto simp: uv erased_blk_def)
  obtain z j b where z: "(if (int v * int (pages_per_block u) + current_page_offset (blocks u ! v)) mod int (pages_per_block u) = 0
      then obind (write_hdr K (int v * int (pages_per_block u) + current_page_offset (blocks u ! v)) NAND_DATA 0 ?w) (\<lambda>(_, s). Ret s)
      else Ret ?w) = Ret z"
    "par_kv (M |` (- fst ` set cs)) z" "block_kind z v = Data" "par_same u z" "\<not> read_only z" "blocks z = (blocks u)[v := b]"
    "current_page_offset b = int j" "int j = (if current_page_offset (blocks u ! v) = 0 then 1 else current_page_offset (blocks u ! v))"
    "nb_invalid b = nb_invalid (blocks u ! v)" "worn b = worn (blocks u ! v)" "par_typed byte_at u \<longrightarrow> par_typed byte_at z"
    by (rule par_gc_open [OF u(2,5), of v ?w]) (use S2 v(1,2) lk ov in auto)
  note S3 = par_sameD [OF par_same_trans [OF su z(4)]]
  have vz: "v < nb_blocks z" "blocks z ! v = b" using v(1) S3(1) z(6) il(2) bu by simp_all
  have jl: "j + length cs < pages_per_block s"
    using z(8) [unfolded uv] v(3) T(5) c(3) by (cases "v = tg") (auto simp: erased_blk_def split: if_splits)
  note cd = couples_card [OF c(5,4) par_occupied(1) [OF inv]]
  have rm: "card (dom (M |` (- fst ` set cs))) + length cs + 2 \<le> HASH_SIZE z"
    using par_live_bound [OF inv tg] unfolding cd S3(4) by simp
  note none = couples_absent [OF c(5) [folded S3(3)]]
  have "\<exists>x. ofold (gc_write K (int v)) (enumerate 0 (map lens cs)) (b2, z) = Ret (b2, x) \<and> par_kv (M |` (- fst ` set cs) ++ map_of cs) x
     \<and> current_page_offset (blocks x ! v) = int (j + length cs) \<and> par_same z x \<and> only_block v z x \<and> \<not> read_only x
     \<and> state (blocks x ! v) = BLK_USED
     \<and> nb_invalid (blocks x ! v) = nb_invalid (blocks z ! v) \<and> worn (blocks x ! v) = worn (blocks z ! v)
     \<and> (par_typed byte_at z \<longrightarrow> par_typed byte_at x)"
    by (rule par_gc_write_all [OF z(2) vz(1) z(3,5) _ _ _ _ rm c(4) none]) (use S3 lk vz z(7) jl c(3,6,7) fit in simp_all)
  then obtain x where x: "ofold (gc_write K (int v)) (enumerate 0 (map lens cs)) (b2, z) = Ret (b2, x)" "par_kv (M |` (- fst ` set cs) ++ map_of cs) x"
    "current_page_offset (blocks x ! v) = int (j + length cs)" "par_same z x" "only_block v z x" "\<not> read_only x"
    "state (blocks x ! v) = BLK_USED" "nb_invalid (blocks x ! v) = nb_invalid b" "worn (blocks x ! v) = worn b"
    "par_typed byte_at z \<longrightarrow> par_typed byte_at x"
    unfolding vz(2) by blast
  note M = couples_restored [OF c(5)]
  have sx: "par_same s x" by (rule par_same_trans [OF par_same_trans [OF su z(4)] x(4)])
  have lx: "length (blocks x) = length (blocks s)" using x(5) z(6) bu by (simp add: only_block_def)
  have fin: "upd_block (int v) (\<lambda>b. b\<lparr>state := BLK_USED\<rparr>) y = Ret y" if "y = x\<lparr>list_lock := True\<rparr>" for y
    using that il(2) x(7) lx by (cases "blocks x ! v") (simp add: upd_block_def list_update_same_conv)
  have lkx: "\<not> list_lock x" "unlock_list (x\<lparr>list_lock := True\<rparr>) = x"
    using par_sameD(6) [OF sx] lk(1) by (cases x; simp add: unlock_list_def)+
  have lm: "(mark v s)\<lparr>list_lock := True\<rparr> = mark v ?s" by (simp add: mark_def)
  have wv: "current_page_offset (blocks ?w ! v) = current_page_offset (blocks u ! v)" "pages_per_block ?w = pages_per_block u"
    "v < length (blocks ?w)" using il bu by (auto simp: mark_def)
  have kz: "kzalloc K (page_size (mark v s) * pages_per_block (mark v s)) (mark v s) = Some buffer"
    using mem(1) by (simp add: kzalloc_def buffer_def)
  have "gc_move K tg (int v) (mark v s) = Ret x"
    using kz lk(1) il(1) c(1) t1(8) u(1) wv z(1) x(1) lkx fin
    by (simp add: gc_move_def lock_list_def lm Let_def cong del: if_weak_cong)
  moreover have "blocks x = ((blocks s)[tg := erased_blk (blocks s ! tg)])[v := blocks x ! v]"
    using only_block_update [OF only_block_trans [OF only_block_upd [OF z(6)] x(5)], of "blocks x ! v"] by (simp add: bu)
  ultimately show ?thesis
    using that [of x "blocks x ! v"] x M sx z(8-11) [unfolded uv] c(3) t1(10) u(8) by (auto simp: erased_blk_def)
qed

end

section \<open>The function, on every path\<close>

text \<open>What a collection needs, should it start.\<close>

definition gc_ready :: "(byte list \<rightharpoonup> byte list) \<Rightarrow> 'm lkp_kv \<Rightarrow> bool" where
  "gc_ready M s \<longleftrightarrow> \<not> read_only s \<and> pages_per_block s \<le> page_size s \<and> meta_taken s \<and> (\<forall>b \<in> set (blocks s). worn b < 2147483646)
     \<and> (\<forall>k v. M k = Some v \<longrightarrow> 8 + length k + length v \<le> pages_per_block s)"

abbreviation meta_order :: "'m lkp_kv \<Rightarrow> int list" where
  "meta_order s \<equiv> take (nb_meta 1 s) (meta_blkordr s)"

lemma find_same:
  assumes "nb_blocks t = nb_blocks s" "blocks t = blocks s" "pages_per_block t = pages_per_block s"
  shows "find_target mo t = find_target mo s" "find_victim mo tg t = find_victim mo tg s"
proof -
  show "find_target mo t = find_target mo s" unfolding find_target_def assms ..
  have "find_merge mo tg t = find_merge mo tg s" "find_free t = find_free s"
    unfolding find_merge_def find_free_def assms by (rule refl)+
  then show "find_victim mo tg t = find_victim mo tg s" by (simp add: find_victim_def)
qed

lemma gc_skip:
  assumes "pages_per_block s < 64 \<or> is_gb s = 0"
  shows "gc K s = Ret (s\<lparr>is_gb := if pages_per_block s < 64 then is_gb s else 1\<rparr>)"
  using assms by (auto simp: gc_def cmpxchg01_def Let_def)

lemma gc_body_start:
  assumes "nb_meta 1 s \<le> length (meta_blkordr s)"
  shows "gc_body K s = (case find_target (meta_order s) s of None \<Rightarrow> Ret s
      | Some tg \<Rightarrow> obind (upd_block (find_victim (meta_order s) tg s) (\<lambda>b. b\<lparr>state := BLK_USED\<rparr>) s)
          (gc_move K tg (find_victim (meta_order s) tg s)))"
  using assms by (simp add: gc_body_def victims_def Let_def split: option.split)

lemma gc_start:
  assumes "64 \<le> pages_per_block s" "is_gb s \<noteq> 0" "\<not> erase_lock s"
  shows "gc K s = obind (gc_body K (s\<lparr>erase_lock := True\<rparr>)) (\<lambda>s. Ret ((unlock_erase s)\<lparr>is_gb := 0\<rparr>))"
proof -
  have s: "s\<lparr>is_gb := is_gb s, erase_lock := True\<rparr> = s\<lparr>erase_lock := True\<rparr>" "s\<lparr>is_gb := is_gb s\<rparr> = s" by (cases s; simp)+
  show ?thesis using assms unfolding gc_def cmpxchg01_def by (simp add: Let_def s)
qed

context reliable_flash
begin

lemma par_gc_body_collects:
  assumes inv: "par_kv M s" and lk: "\<not> list_lock s" "\<not> one_lock s" and rd: "gc_ready M s" and tg: "find_target (meta_order s) s = Some tg"
  obtains t v b where "gc_body K s = Ret t" "par_kv M t" "find_victim (meta_order s) tg s = int v" "v < nb_blocks s"
    "par_same s t" "\<not> read_only t"
    "blocks t = ((blocks s)[tg := erased_blk (blocks s ! tg)])[v := b]" "state b = BLK_USED"
    "nb_invalid b = (if v = tg then 0 else nb_invalid (blocks s ! v))" "worn b = (if v = tg then worn (blocks s ! tg) + 1 else worn (blocks s ! v))"
    "current_page_offset b = (if v = tg \<or> current_page_offset (blocks s ! v) = 0 then 1 else current_page_offset (blocks s ! v))
        + int (length (valid_list (blocks s ! tg)))"
    "par_typed byte_at s \<longrightarrow> par_typed byte_at t"
proof -
  note D = par_repD [OF inv] and g = par_geometryD [OF par_repD(1) [OF inv]]
  have R: "\<not> read_only s" "pages_per_block s \<le> page_size s" "meta_taken s" "\<And>i. i < nb_blocks s \<Longrightarrow> worn (blocks s ! i) < 2147483646"
    "\<forall>k v. M k = Some v \<longrightarrow> 8 + length k + length v \<le> pages_per_block s"
    using rd D(3) by (auto simp: gc_ready_def)
  obtain v where v: "find_victim (meta_order s) tg s = int v" "v < nb_blocks s" "\<not> is_meta s v"
    "v \<noteq> tg \<Longrightarrow> current_page_offset (blocks s ! v) + int (length (valid_list (blocks s ! tg))) < int (pages_per_block s)"
    by (rule par_victim [OF inv tg R(3)]) blast
  have tl: "tg < nb_blocks s" by (rule par_target(1) [OF inv tg])
  have up: "upd_block (int v) (\<lambda>b. b\<lparr>state := BLK_USED\<rparr>) s = Ret (mark v s)"
    using v(2) D(3) by (simp add: upd_block_def mark_def)
  obtain t b where t: "gc_move K tg (int v) (mark v s) = Ret t" "par_kv M t" "par_same s t" "\<not> read_only t"
    "blocks t = ((blocks s)[tg := erased_blk (blocks s ! tg)])[v := b]" "state b = BLK_USED"
    "nb_invalid b = (if v = tg then 0 else nb_invalid (blocks s ! v))" "worn b = (if v = tg then worn (blocks s ! tg) + 1 else worn (blocks s ! v))"
    "current_page_offset b = (if v = tg \<or> current_page_offset (blocks s ! v) = 0 then 1 else current_page_offset (blocks s ! v))
        + int (length (valid_list (blocks s ! tg)))"
    "par_typed byte_at s \<longrightarrow> par_typed byte_at t"
    by (rule par_gc_move [OF inv R(1) lk R(2) tg R(4) [OF tl] v(2,3) _ R(5)]) (use v(4) in simp_all)
  have "gc_body K s = Ret t" using gc_body_start [OF g(10)] tg v(1) up t(1) by simp
  then show ?thesis by (rule that [OF _ t(2) v(1,2) t(3-10)])
qed

text \<open>With \<open>erase_lock\<close> held, whether a block is due or not.\<close>

lemma par_gc_body:
  assumes inv: "par_kv M s" and lk: "\<not> list_lock s" "\<not> one_lock s" and rd: "gc_ready M s"
  obtains t where "gc_body K s = Ret t" "par_kv M t" "par_same s t" "\<not> read_only t" "par_typed byte_at s \<longrightarrow> par_typed byte_at t"
proof (cases "find_target (meta_order s) s")
  case None
  then have "gc_body K s = Ret s" using gc_body_start [OF par_geometryD(10) [OF par_repD(1) [OF inv]]] by simp
  then show ?thesis using that [of s] inv rd by (simp add: gc_ready_def)
next
  case (Some tg)
  obtain t where "gc_body K s = Ret t" "par_kv M t" "par_same s t" "\<not> read_only t" "par_typed byte_at s \<longrightarrow> par_typed byte_at t"
    by (rule par_gc_body_collects [OF inv lk rd Some])
  then show ?thesis by (rule that)
qed

lemma gc_ready_lock: "gc_ready M (s\<lparr>erase_lock := b\<rparr>) = gc_ready M s"
  by (simp add: gc_ready_def meta_taken_def is_meta_def nb_meta_def)

lemma find_lock:
  "find_target mo (s\<lparr>erase_lock := b\<rparr>) = find_target mo s" "find_victim mo tg (s\<lparr>erase_lock := b\<rparr>) = find_victim mo tg s"
  by (rule find_same; simp)+

lemma par_gc_collects:
  assumes inv: "par_inv byte_at good fsize M s" and rd: "gc_ready M s" and gb: "is_gb s \<noteq> 0" and q: "64 \<le> pages_per_block s"
    and tg: "find_target (meta_order s) s = Some tg"
  obtains t v b where "gc K s = Ret t" "par_inv byte_at good fsize M t" "find_victim (meta_order s) tg s = int v" "v < nb_blocks s"
    "par_same (s\<lparr>is_gb := 0\<rparr>) t"
    "blocks t = ((blocks s)[tg := erased_blk (blocks s ! tg)])[v := b]"
    "nb_invalid b = (if v = tg then 0 else nb_invalid (blocks s ! v))" "worn b = (if v = tg then worn (blocks s ! tg) + 1 else worn (blocks s ! v))"
    "current_page_offset b = (if v = tg \<or> current_page_offset (blocks s ! v) = 0 then 1 else current_page_offset (blocks s ! v))
        + int (length (valid_list (blocks s ! tg)))"
proof -
  note I = par_invD [OF inv]
  let ?s = "s\<lparr>erase_lock := True\<rparr>"
  have p: "par_kv M ?s" "\<not> list_lock ?s" "\<not> one_lock ?s" "gc_ready M ?s" "find_target (meta_order ?s) ?s = Some tg"
    using I rd tg by (simp_all add: lock_simps gc_ready_lock find_lock)
  obtain t v b where t: "gc_body K ?s = Ret t" "par_kv M t" "find_victim (meta_order ?s) tg ?s = int v" "v < nb_blocks ?s"
    "par_same ?s t" "\<not> read_only t"
    "blocks t = ((blocks ?s)[tg := erased_blk (blocks ?s ! tg)])[v := b]" "state b = BLK_USED"
    "nb_invalid b = (if v = tg then 0 else nb_invalid (blocks ?s ! v))" "worn b = (if v = tg then worn (blocks ?s ! tg) + 1 else worn (blocks ?s ! v))"
    "current_page_offset b = (if v = tg \<or> current_page_offset (blocks ?s ! v) = 0 then 1 else current_page_offset (blocks ?s ! v))
        + int (length (valid_list (blocks ?s ! tg)))"
    by (rule par_gc_body_collects [OF p])
  let ?t = "(unlock_erase t)\<lparr>is_gb := 0\<rparr>"
  note S = par_sameD [OF t(5)]
  have "gc K s = Ret ?t" using gc_start [OF q gb I(2)] t(1) by simp
  moreover have "par_inv byte_at good fsize M ?t"
    using t(2) S(6,7) I(3,4) by (simp add: par_inv_def unlocked_def lock_simps unlock_erase_def)
  moreover have "find_victim (meta_order s) tg s = int v" "v < nb_blocks s" using t(3,4) by (simp_all add: lock_simps find_lock)
  moreover have "par_same (s\<lparr>is_gb := 0\<rparr>) ?t" using t(5) I(2) by (simp add: par_same_def unlock_erase_def)
  ultimately show ?thesis
    by (rule that [of ?t v b]) (use t(7-11) in \<open>simp_all add: unlock_erase_def\<close>)
qed

text \<open>Whatever path \<open>gc\<close> takes, the store holds the same map.\<close>

lemma par_gc:
  assumes inv: "par_inv byte_at good fsize M s"
    and rd: "is_gb s = 0 \<or> pages_per_block s < 64 \<or> gc_ready M s" and ro: "\<not> read_only s"
  obtains t where "gc K s = Ret t" "par_inv byte_at good fsize M t" "par_same s (t\<lparr>is_gb := is_gb s\<rparr>)" "\<not> read_only t"
    "par_typed byte_at s \<longrightarrow> par_typed byte_at t"
proof (cases "is_gb s = 0 \<or> pages_per_block s < 64")
  case True
  then have e: "gc K s = Ret (s\<lparr>is_gb := if pages_per_block s < 64 then is_gb s else 1\<rparr>)" by (intro gc_skip) auto
  show ?thesis
    by (rule that [OF e]) (use inv ro in \<open>auto simp: par_inv_def unlocked_def lock_simps par_same_def\<close>)
next
  case False
  note I = par_invD [OF inv]
  have r: "gc_ready M s" "is_gb s \<noteq> 0" "64 \<le> pages_per_block s" using False rd by auto
  let ?s = "s\<lparr>erase_lock := True\<rparr>"
  have p: "par_kv M ?s" "\<not> list_lock ?s" "\<not> one_lock ?s" "gc_ready M ?s" using I r(1) by (simp_all add: lock_simps gc_ready_lock)
  obtain t where t: "gc_body K ?s = Ret t" "par_kv M t" "par_same ?s t" "\<not> read_only t" "par_typed byte_at ?s \<longrightarrow> par_typed byte_at t"
    by (rule par_gc_body [OF p])
  have e: "gc K s = Ret ((unlock_erase t)\<lparr>is_gb := 0\<rparr>)" using gc_start [OF r(3,2) I(2)] t(1) by simp
  show ?thesis
    by (rule that [OF e]) (use t par_sameD(6,7) [OF t(3)] I in
      \<open>simp_all add: par_inv_def unlocked_def lock_simps unlock_erase_def par_same_def\<close>)
qed

text \<open>\<open>gc_check\<close> when no flush is due.\<close>

lemma par_gc_check:
  assumes inv: "par_inv byte_at good fsize M s" and w: "write_cnt s < FLUSH_THRESHOLD2"
    and rd: "is_gb s = 0 \<or> pages_per_block s < 64 \<or> gc_ready M s" and ro: "\<not> read_only s"
  obtains t where "gc_check K s = Ret t" "par_inv byte_at good fsize M t"
    "par_same s (t\<lparr>is_gb := is_gb s, write_cnt := write_cnt s\<rparr>)" "\<not> read_only t" "par_typed byte_at s \<longrightarrow> par_typed byte_at t"
proof -
  obtain t where t: "gc K s = Ret t" "par_inv byte_at good fsize M t" "par_same s (t\<lparr>is_gb := is_gb s\<rparr>)" "\<not> read_only t"
    "par_typed byte_at s \<longrightarrow> par_typed byte_at t"
    by (rule par_gc [OF inv rd ro])
  define u where "u = (if list_ex (\<lambda>b. INVALID_THRESHOLD2 \<le> nb_invalid b) (blocks s) then t else s)"
  have u: "par_inv byte_at good fsize M u" "par_same s (u\<lparr>is_gb := is_gb s\<rparr>)" "\<not> read_only u" "par_typed byte_at s \<longrightarrow> par_typed byte_at u"
    using t inv ro by (auto simp: u_def)
  have e: "(if list_ex (\<lambda>b. INVALID_THRESHOLD2 \<le> nb_invalid b) (blocks s) then gc K s else Ret s) = Ret u"
    by (simp add: u_def t(1))
  have "write_cnt u = write_cnt s" using u(2) by (simp add: par_same_def)
  then have "gc_check K s = Ret (u\<lparr>write_cnt := Suc (write_cnt u)\<rparr>)"
    using w unfolding gc_check_def e by (simp add: Let_def)
  then show ?thesis
    by (rule that) (use u in \<open>simp_all add: par_inv_def unlocked_def lock_simps par_same_def\<close>)
qed

end

section \<open>A set that may start a collection\<close>

text \<open>No flush is due, and a collection, if one is, can do its work.\<close>

definition calm :: "(byte list \<rightharpoonup> byte list) \<Rightarrow> 'm lkp_kv \<Rightarrow> bool" where
  "calm M s \<longleftrightarrow> quiet s \<or> write_cnt s < FLUSH_THRESHOLD2 \<and> gc_ready M s
     \<and> int (full_count s) + 1 < int (nb_blocks s) - (int (nb_meta 0 s) - 1)"

lemma gc_ready_touched:
  assumes "gc_ready M s" "par_same s t" "one_touched s t" "\<not> read_only t" "length (blocks s) = nb_blocks s" "length (blocks t) = nb_blocks s"
  shows "gc_ready M t"
proof -
  note S = par_sameD [OF assms(2)]
  obtain i where i: "\<not> is_meta s i" "\<And>i'. i' < nb_blocks s \<Longrightarrow> worn (blocks t ! i') = worn (blocks s ! i')"
    "\<And>i'. i' < nb_blocks s \<Longrightarrow> i' \<noteq> i \<Longrightarrow> state (blocks t ! i') = state (blocks s ! i')
        \<and> current_page_offset (blocks t ! i') = current_page_offset (blocks s ! i')"
    using assms(3) by (auto simp: one_touched_def)
  have "\<forall>b \<in> set (blocks t). worn b < 2147483646"
    using assms(1,5,6) i(2) by (simp add: gc_ready_def all_set_conv_all_nth)
  moreover have "meta_taken t"
    unfolding meta_taken_def
  proof (intro allI impI)
    fix i' assume a: "i' < nb_blocks t" "is_meta t i'"
    then have m: "i' < nb_blocks s" "is_meta s i'" using S by simp_all
    then have "i' \<noteq> i" using i(1) by auto
    with i(3) [OF m(1)] m assms(1) show "state (blocks t ! i') \<noteq> BLK_FREE \<or> current_page_offset (blocks t ! i') \<noteq> 0"
      by (simp add: gc_ready_def meta_taken_def)
  qed
  ultimately show ?thesis using assms(1,4) S by (simp add: gc_ready_def)
qed

context reliable_flash
begin

lemma par_set_calm:
  assumes inv: "par_inv byte_at good fsize M s" and ro: "\<not> read_only s" and k: "couple_ok (page_size s) (k, v)" "length k < PAR_KEY_MAX"
    and cw: "can_write s" and room: "index_room (HASH_SIZE s) (hashtable s)" and cl: "calm (M(k \<mapsto> v)) s"
  obtains t where "set_keyval K k v s = Ret (if read_only t then - 3 else 0, t)" "par_inv byte_at good fsize (M(k \<mapsto> v)) t"
    "par_same s (t\<lparr>is_gb := is_gb s, write_cnt := write_cnt s\<rparr>)" "par_typed byte_at s \<longrightarrow> par_typed byte_at t"
proof -
  obtain t where t: "par_inv byte_at good fsize (M(k \<mapsto> v)) t" "par_same s t"
    "\<forall>i < nb_blocks s. nb_invalid (blocks t ! i) \<le> nb_invalid (blocks s ! i) + 1"
    "full_count t \<le> full_count s + 1" "par_typed byte_at s \<longrightarrow> par_typed byte_at t" "one_touched s t"
    "set_keyval K k v s = obind (gc_check K t) (\<lambda>u. Ret (if read_only t then - 3 else 0, u))"
    by (rule par_set_writes [OF inv ro k cw room])
  note S = par_sameD [OF t(2)]
  have len: "length (blocks s) = nb_blocks s" "length (blocks t) = nb_blocks s"
    using par_repD(3) [OF par_invD(1) [OF inv]] par_repD(3) [OF par_invD(1) [OF t(1)]] S(1) by simp_all
  show ?thesis
  proof (cases "quiet s")
    case True
    obtain x where x: "gc_check K t = Ret (t\<lparr>is_gb := x, write_cnt := Suc (write_cnt t)\<rparr>)"
      by (rule gc_check_quiet_step [OF True t(2) len t(3)])
    show ?thesis
      by (rule that [of "t\<lparr>is_gb := x, write_cnt := Suc (write_cnt t)\<rparr>"])
        (use x t in \<open>simp_all add: par_inv_def lock_simps unlocked_def par_same_def\<close>)
  next
    case False
    then have c: "write_cnt s < FLUSH_THRESHOLD2" "gc_ready (M(k \<mapsto> v)) s"
      "int (full_count s) + 1 < int (nb_blocks s) - (int (nb_meta 0 s) - 1)" using cl by (simp_all add: calm_def)
    have rt: "\<not> read_only t"
      using par_repD(7) [OF par_invD(1) [OF t(1)]] t(4) c(3) S(1,9) by (simp add: is_read_only_count)
    have w: "write_cnt t < FLUSH_THRESHOLD2" using c(1) S(12) by simp
    obtain u where u: "gc_check K t = Ret u" "par_inv byte_at good fsize (M(k \<mapsto> v)) u"
      "par_same t (u\<lparr>is_gb := is_gb t, write_cnt := write_cnt t\<rparr>)" "\<not> read_only u" "par_typed byte_at t \<longrightarrow> par_typed byte_at u"
      by (rule par_gc_check [OF t(1) w _ rt]) (use gc_ready_touched [OF c(2) t(2,6) rt len] in auto)
    show ?thesis
      by (rule that [of u]) (use t(2,5,7) u rt in \<open>simp_all add: par_same_def\<close>)
  qed
qed

end

end
