(* ===== verification/ParallelProps.thy ===== *)
theory ParallelProps
  imports ParallelInit ParallelCollect
begin

text \<open>
  The properties of the third prototype's operations: the map they implement, what the guards
  that were inverted or forgotten do instead.
\<close>

section \<open>The store implements a map\<close>

lemma par_set_map:
  assumes "reliable_flash K byte_at good fsize" and "par_inv byte_at good fsize M s" and "\<not> read_only s"
    and "couple_ok (page_size s) (k, v)" and "length k < PAR_KEY_MAX" and "can_write s"
    and "index_room (HASH_SIZE s) (hashtable s)" and "quiet s"
  shows "\<exists>t. set_keyval K k v s = Ret (if read_only t then - 3 else 0, t) \<and> par_inv byte_at good fsize (M(k \<mapsto> v)) t
    \<and> full_count t \<le> full_count s + 1 \<and> nb_blocks t = nb_blocks s \<and> nb_meta 0 t = nb_meta 0 s
    \<and> (par_typed byte_at s \<longrightarrow> par_typed byte_at t) \<and> one_touched s t \<and> par_same s (t\<lparr>is_gb := is_gb s, write_cnt := write_cnt s\<rparr>)"
proof -
  obtain t where t: "par_inv byte_at good fsize (M(k \<mapsto> v)) t" "par_same s t"
    "\<forall>i < nb_blocks s. nb_invalid (blocks t ! i) \<le> nb_invalid (blocks s ! i) + 1"
    "full_count t \<le> full_count s + 1" "par_typed byte_at s \<longrightarrow> par_typed byte_at t" "one_touched s t"
    "set_keyval K k v s = obind (gc_check K t) (\<lambda>u. Ret (if read_only t then - 3 else 0, u))"
    by (rule reliable_flash.par_set_writes [OF assms(1-7)])
  have len: "length (blocks s) = nb_blocks s" "length (blocks t) = nb_blocks s"
    using par_repD(3) [OF par_invD(1) [OF assms(2)]] par_repD(3) [OF par_invD(1) [OF t(1)]] par_sameD(1) [OF t(2)] by simp_all
  obtain x where "gc_check K t = Ret (t\<lparr>is_gb := x, write_cnt := Suc (write_cnt t)\<rparr>)"
    by (rule gc_check_quiet_step [OF assms(8) t(2) len t(3)])
  moreover have "par_inv byte_at good fsize (M(k \<mapsto> v)) (t\<lparr>is_gb := x, write_cnt := Suc (write_cnt t)\<rparr>)"
    using t(1) by (simp add: par_inv_def lock_simps unlocked_def)
  ultimately show ?thesis
    using t(2,4-7) par_sameD(1) [OF t(2)] par_sameD(9) [OF t(2), of 0]
    by (auto simp: full_count_def nb_meta_def lock_simps one_touched_def par_same_def)
qed

lemma par_demo_can_write:
  assumes "nb_blocks t = 5" "pages_per_block t = 12" "blocks t = replicate 5 new_block" "meta_blkordr t = replicate MAX_META_BLK (- 1)"
    "metadata_size t = 8192" "meta_page_size t = 1024"
  shows "get_healthy_block t = Ret 0" "can_write t"
proof -
  have bl: "blocks t ! i = new_block" if "i < 5" for i using assms(3) that by simp
  have "get_healthy_block t = Ret 0"
    using assms bl by (simp add: get_healthy_block_def victims_def nb_meta_def MAX_META_BLK_def new_block_def upt_rec)
  then show "get_healthy_block t = Ret 0" "can_write t" by (simp_all add: can_write_def)
qed

lemma par_demo_room: "index_room 55 (replicate 55 new_bucket)"
proof -
  have "occupied (replicate 55 new_bucket) = {}" by (auto simp: occupied_def new_bucket_def)
  then show ?thesis by (simp add: index_room_def)
qed

lemma par_demo_ready:
  obtains s where "init_config demo_K 0 0 par_demo0 = Ret (0, s)" "par_inv nandsim_byte demo_good 61440 Map.empty s" "\<not> read_only s"
    "page_size s = 1024" "can_write s" "index_room (HASH_SIZE s) (hashtable s)" "quiet s"
    "couple_ok (page_size s) ([107], [118])" "length [107 :: byte] < PAR_KEY_MAX"
proof -
  obtain s where s: "init_config demo_K 0 0 par_demo0 = Ret (0, s)" "par_inv nandsim_byte demo_good 61440 Map.empty s"
    "nb_blocks s = 5" "pages_per_block s = 12" "page_size s = 1024" "HASH_SIZE s = 55" "hashtable s = replicate 55 new_bucket"
    "blocks s = replicate 5 new_block" "\<not> read_only s" "meta_blkordr s = replicate MAX_META_BLK (- 1)" "metadata_size s = 8192"
    "meta_page_size s = 1024" "write_cnt s = 0" "is_gb s = 0"
    by (rule par_demo_loaded)
  show ?thesis
    by (rule that [OF s(1,2,9,5) par_demo_can_write(2)])
      (use s par_demo_room in \<open>simp_all add: couple_ok_def cstring_def PAR_KEY_MAX_def quiet_def FLUSH_THRESHOLD2_def\<close>)
qed

text \<open>
  C6.  Parallel store: \<open>set_keyval\<close> adds the couple to the map, keeps every invariant and
  releases every lock, through the collection it may start, under these conditions: the store is writable,
  the key is shorter than 88 bytes and the couple fits a page, two hash buckets are free, the block the
  couple goes to is already open or is block 0 (\<open>can_write\<close>; for the other case see
  \<open>parallel_new_block_loses_couple\<close>), no flush is due, and either no collection is due or one
  can do its work (\<open>gc_ready\<close>, in particular no couple with its 8 bytes of lengths longer than
  a block has pages, and the store is not about to become read-only). The return code is 0, or -3 although
  the couple was stored when the store becomes read-only with it.
\<close>

theorem parallel_set_refines:
  assumes "reliable_flash K byte_at good fsize" and "par_inv byte_at good fsize M s" and "\<not> read_only s"
    and "couple_ok (page_size s) (k, v)" and "length k < PAR_KEY_MAX" and "can_write s"
    and "index_room (HASH_SIZE s) (hashtable s)" and "calm (M(k \<mapsto> v)) s"
  shows "\<exists>t. set_keyval K k v s = Ret (if read_only t then - 3 else 0, t) \<and> par_inv byte_at good fsize (M(k \<mapsto> v)) t"
  by (rule reliable_flash.par_set_calm [OF assms]) blast

theorem parallel_set_refines_witness:
  "\<exists>s t. init_config demo_K 0 0 par_demo0 = Ret (0, s) \<and> set_keyval demo_K [107] [118] s = Ret (if read_only t then - 3 else 0, t)
     \<and> par_inv nandsim_byte demo_good 61440 [[107] \<mapsto> [118]] t"
proof -
  obtain s where s: "init_config demo_K 0 0 par_demo0 = Ret (0, s)" "par_inv nandsim_byte demo_good 61440 Map.empty s" "\<not> read_only s"
    "page_size s = 1024" "can_write s" "index_room (HASH_SIZE s) (hashtable s)" "quiet s"
    "couple_ok (page_size s) ([107], [118])" "length [107 :: byte] < PAR_KEY_MAX" by (rule par_demo_ready)
  then have "calm [[107] \<mapsto> [118]] s" by (simp add: calm_def)
  from parallel_set_refines [OF demo_reliable s(2,3,8,9,5,6) this] s(1) show ?thesis by blast
qed

text \<open>
  C7.  Parallel store: \<open>get_keyval\<close> and \<open>del_key\<close> answer what the map says.  A key that is present is
  read back with its value and the number of its page, and deleting it removes it alone; an absent
  key gives -1 and changes nothing.
\<close>

theorem parallel_get_del:
  assumes "reliable_flash K byte_at good fsize" and "par_inv byte_at good fsize M s" and "cstring k"
  shows "case M k of
      None \<Rightarrow> get_keyval K k s = Ret (- 1, None) \<and> del_key k s = Ret (- 1, s)
    | Some v \<Rightarrow> (\<exists>p < nb_blocks s * pages_per_block s. get_keyval K k s = Ret (int p, Some v))
        \<and> (\<exists>p t. del_key k s = Ret (int p, t) \<and> par_inv byte_at good fsize (M(k := None)) t \<and> flash t = flash s)"
  using reliable_flash.par_get_keyval [OF assms] par_del_key [OF assms(2), of k]
  by (cases "M k") auto

theorem parallel_get_del_witness:
  "\<exists>s t p. init_config demo_K 0 0 par_demo0 = Ret (0, s) \<and> get_keyval demo_K [107] s = Ret (- 1, None)
     \<and> set_keyval demo_K [107] [118] s = Ret (if read_only t then - 3 else 0, t) \<and> get_keyval demo_K [107] t = Ret (int p, Some [118])"
proof -
  obtain s where s: "init_config demo_K 0 0 par_demo0 = Ret (0, s)" "par_inv nandsim_byte demo_good 61440 Map.empty s" "\<not> read_only s"
    "page_size s = 1024" "can_write s" "index_room (HASH_SIZE s) (hashtable s)" "quiet s"
    "couple_ok (page_size s) ([107], [118])" "length [107 :: byte] < PAR_KEY_MAX" by (rule par_demo_ready)
  obtain t where t: "set_keyval demo_K [107] [118] s = Ret (if read_only t then - 3 else 0, t)" "par_inv nandsim_byte demo_good 61440 [[107] \<mapsto> [118]] t"
    using par_set_map [OF demo_reliable s(2,3,8,9,5-7)] by blast
  have c: "cstring [107 :: byte]" by (simp add: cstring_def)
  from parallel_get_del [OF demo_reliable t(2) c] parallel_get_del [OF demo_reliable s(2) c] t(1) s(1)
  show ?thesis by auto
qed

section \<open>Garbage collection\<close>

text \<open>The partition of the examples in two blocks: one due for collection, one free.\<close>

definition par_gc_K :: "byte list heap_kernel" where "par_gc_K = heapsim 2 4096 64"

definition par_gc_state :: "nat \<Rightarrow> bucket list \<Rightarrow> byte list lkp_kv" where
  "par_gc_state h ht = (config0 (gc_flash @ replicate 4096 255) [])\<lparr>nb_blocks := 2, block_size := 4096, page_size := 64, pages_per_block := 64,
     meta_page_size := 64, HASH_SIZE := 126, hashtable := ht, meta_blkordr := replicate MAX_META_BLK (- 1), is_gb := 1,
     blocks := [\<lparr>valid_list = [h], state = BLK_USED, worn = 3, nb_invalid = 48, current_page_offset = 50\<rparr>, new_block]\<rparr>"

abbreviation par_gc_good :: "byte list \<Rightarrow> bool" where "par_gc_good m \<equiv> length m = 8192"

lemma par_gc_reliable: "reliable_flash par_gc_K nandsim_byte par_gc_good 8192"
  using rs.reliable_flash_axioms [of 2 4096 64] by (simp add: par_gc_K_def)

lemma par_gc_erased:
  assumes "j < 64" "i = 0 \<and> 50 \<le> j \<or> i = 1"
  shows "flash_page nandsim_byte 64 (gc_flash @ replicate 4096 255) (i * 64 + j) = replicate 64 255"
proof (cases "i = 0")
  case True
  then show ?thesis using assms gc_pages(2) by auto
next
  case False
  then show ?thesis using assms length_gc_flash by (simp add: nandsim_page)
qed

lemma par_gc_state_ok:
  obtains h ht where "par_inv nandsim_byte par_gc_good 8192 [[107] \<mapsto> [118]] (par_gc_state h ht)"
    "find_target (meta_order (par_gc_state h ht)) (par_gc_state h ht) = Some 0"
    "find_victim (meta_order (par_gc_state h ht)) 0 (par_gc_state h ht) = 1" "gc_ready [[107] \<mapsto> [118]] (par_gc_state h ht)"
proof -
  let ?e = "replicate 126 \<lparr>dirty = False, index = 0, key = [], p_state = PG_FREE\<rparr>"
  have e: "entry ?e h = None" for h by (simp add: entry_def)
  have ok: "index_ok 126 ?e" by (simp add: index_ok_def e)
  have "occupied ?e = {}" by (simp add: occupied_dom dom_def e)
  then have "index_room 126 ?e" by (simp add: index_room_def)
  from ht.add_absent [OF ok this, of "[107]" 1] obtain h ht
    where h: "index_ok 126 ht" "entry ht = (entry ?e)(h \<mapsto> ([107], 1))" by (auto simp: KEY_MAX_def e)
  have en: "entry ht h' = Some (k, q) \<longleftrightarrow> h' = h \<and> k = [107] \<and> q = 1" for h' k q using h(2) e by auto
  let ?s = "par_gc_state h ht"
  have mo: "meta_order ?s = [- 1]" by (simp add: par_gc_state_def config0_def nb_meta_def MAX_META_BLK_def)
  have sh: "nb_blocks ?s = 2" "pages_per_block ?s = 64" "page_size ?s = 64" "hashtable ?s = ht" "nb_meta 0 ?s = 1"
    "flash ?s = gc_flash @ replicate 4096 255"
    "blocks ?s ! 0 = \<lparr>valid_list = [h], state = BLK_USED, worn = 3, nb_invalid = 48, current_page_offset = 50\<rparr>" "blocks ?s ! 1 = new_block"
    by (simp_all add: par_gc_state_def config0_def nb_meta_def)
  have k: "block_kind ?s 0 = Data" "block_kind ?s 1 = Free"
    using mo by (simp_all add: block_kind_def is_meta_def sh new_block_def del: One_nat_def)
  have two: "i = 0 \<or> i = 1" if "i < 2" for i :: nat using that by auto
  have "view_ok PAR_KEY_MAX [[107] \<mapsto> [118]] (view_of nandsim_byte ?s)"
    unfolding view_ok_def view_of_simps
  proof (intro conjI allI impI ballI)
    fix i assume "i < nb_blocks ?s"
    then have i: "i = 0 \<or> i = 1" using two sh(1) by simp
    show "v_counts (view_of nandsim_byte ?s) i" using i by (elim disjE) (simp_all only: v_counts_def view_of_simps sh k, simp_all add: new_block_def)
    show "v_erased (view_of nandsim_byte ?s) i"
      unfolding v_erased_def view_of_simps sh
    proof (intro allI impI)
      fix j assume "j < 64" "current_page_offset (blocks ?s ! i) \<le> int j"
      then show "flash_page nandsim_byte 64 (gc_flash @ replicate 4096 255) (i * 64 + j) = replicate 64 255"
        using i sh(7) by (intro par_gc_erased) auto
    qed
  next
    fix h' k' x assume "entry (hashtable ?s) h' = Some (k', x)"
    then have x: "h' = h" "k' = [107]" "x = 1" using en sh(4) by auto
    show "v_entry PAR_KEY_MAX [[107] \<mapsto> [118]] (view_of nandsim_byte ?s) h' k' x"
      unfolding v_entry_def x
      by (rule exI [of _ 0], rule exI [of _ 1], rule exI [of _ "[118]"])
        (use gc_pages(1) gc_couple_ok k sh in \<open>simp add: gc_couple_def PAR_KEY_MAX_def\<close>)
  next
    show "v_lists (view_of nandsim_byte ?s)"
      unfolding v_lists_def view_of_simps sh
    proof (intro allI impI ballI)
      fix i h' assume a: "i < 2" "h' \<in> set (valid_list (blocks ?s ! i))"
      then have "i = 0" "h' = h" using two [of i] sh(7,8) by (auto simp: new_block_def)
      then show "\<exists>k j. entry ht h' = Some (k, int (i * 64 + j)) \<and> j < 64" using en by (intro exI [of _ "[107]"] exI [of _ 1]) simp
    qed
  qed (use sh en in auto)
  moreover have "\<not> is_read_only ?s" using sh(5) by (simp add: is_read_only_def par_gc_state_def new_block_def)
  moreover have "par_geometry ?s 8192" "par_gc_good (flash ?s)" "block_states ?s" "unlocked ?s" "length (blocks ?s) = nb_blocks ?s"
    "index_ok (HASH_SIZE ?s) (hashtable ?s)" "\<not> read_only ?s" "\<not> meta_read_only ?s"
    using h(1) length_gc_flash
    by (simp_all add: par_geometry_def par_gc_state_def config0_def nb_meta_def MAX_META_BLK_def block_states_def new_block_def unlocked_def)
  ultimately have "par_inv nandsim_byte par_gc_good 8192 [[107] \<mapsto> [118]] ?s" by (simp add: par_inv_def par_rep_def)
  moreover have "find_target (meta_order ?s) ?s = Some 0"
    unfolding mo by (simp add: find_target_def par_gc_state_def INVALID_THRESHOLD_def upt_rec)
  moreover have "find_victim (meta_order ?s) 0 ?s = 1"
    unfolding mo by (simp add: find_victim_def find_merge_def par_gc_state_def new_block_def upt_rec)
  moreover have "gc_ready [[107] \<mapsto> [118]] ?s"
    using mo by (auto simp: gc_ready_def meta_taken_def is_meta_def par_gc_state_def config0_def new_block_def)
  ultimately show ?thesis using that by blast
qed

text \<open>
  C8.  Parallel store: on blocks of at least 64 pages, when the flag \<open>is_gb\<close> lets it run and a
  block has at least 20 invalid pages, a collection keeps the map, if no couple with its 8 bytes of lengths
  is longer than a block has pages, a block has no more pages than a page has bytes, the store is writable,
  no metadata block looks free and no erase counter overflows (\<open>gc_ready\<close>). Its target is
  erased once; the couples go, in the block \<open>find_victim\<close> chooses, behind the pages that block
  has or behind a header of its own; no other block changes.
\<close>

theorem parallel_gc_preserves:
  assumes "reliable_flash K byte_at good fsize" and "par_inv byte_at good fsize M s" and "gc_ready M s"
    and "is_gb s \<noteq> 0" and "64 \<le> pages_per_block s" and "find_target (meta_order s) s = Some tg"
  shows "\<exists>t v. gc K s = Ret t \<and> par_inv byte_at good fsize M t \<and> is_gb t = 0 \<and> find_victim (meta_order s) tg s = int v
     \<and> worn (blocks t ! tg) = worn (blocks s ! tg) + 1 \<and> nb_invalid (blocks t ! tg) = 0
     \<and> current_page_offset (blocks t ! v) = (if v = tg \<or> current_page_offset (blocks s ! v) = 0 then 1 else current_page_offset (blocks s ! v))
          + int (length (valid_list (blocks s ! tg)))
     \<and> (v \<noteq> tg \<longrightarrow> state (blocks t ! tg) = BLK_FREE)
     \<and> (\<forall>i < nb_blocks s. i \<noteq> tg \<and> i \<noteq> v \<longrightarrow> blocks t ! i = blocks s ! i)"
proof -
  obtain t v b where t: "gc K s = Ret t" "par_inv byte_at good fsize M t" "find_victim (meta_order s) tg s = int v" "v < nb_blocks s"
    "par_same (s\<lparr>is_gb := 0\<rparr>) t" "blocks t = ((blocks s)[tg := erased_blk (blocks s ! tg)])[v := b]"
    "nb_invalid b = (if v = tg then 0 else nb_invalid (blocks s ! v))" "worn b = (if v = tg then worn (blocks s ! tg) + 1 else worn (blocks s ! v))"
    "current_page_offset b = (if v = tg \<or> current_page_offset (blocks s ! v) = 0 then 1 else current_page_offset (blocks s ! v))
        + int (length (valid_list (blocks s ! tg)))"
    by (rule reliable_flash.par_gc_collects [OF assms])
  have l: "tg < length (blocks s)" "v < length (blocks s)"
    using par_target(1) [OF par_invD(1) [OF assms(2)] assms(6)] t(4) par_repD(3) [OF par_invD(1) [OF assms(2)]] by simp_all
  have "is_gb t = 0" using t(5) by (simp add: par_same_def)
  then show ?thesis
    using t(1-3,6-9) l by (intro exI [of _ t] exI [of _ v]) (cases "v = tg"; simp add: erased_blk_def)
qed

theorem parallel_gc_preserves_witness:
  "\<exists>h ht t. gc par_gc_K (par_gc_state h ht) = Ret t \<and> par_inv nandsim_byte par_gc_good 8192 [[107] \<mapsto> [118]] t
     \<and> worn (blocks t ! 0) = 4 \<and> state (blocks t ! 0) = BLK_FREE \<and> current_page_offset (blocks t ! 1) = 2"
proof -
  obtain h ht where s: "par_inv nandsim_byte par_gc_good 8192 [[107] \<mapsto> [118]] (par_gc_state h ht)"
    "find_target (meta_order (par_gc_state h ht)) (par_gc_state h ht) = Some 0"
    "find_victim (meta_order (par_gc_state h ht)) 0 (par_gc_state h ht) = 1" "gc_ready [[107] \<mapsto> [118]] (par_gc_state h ht)"
    by (rule par_gc_state_ok)
  have "is_gb (par_gc_state h ht) \<noteq> 0" "64 \<le> pages_per_block (par_gc_state h ht)" by (simp_all add: par_gc_state_def)
  from parallel_gc_preserves [OF par_gc_reliable s(1,4) this s(2)] obtain t v
    where t: "gc par_gc_K (par_gc_state h ht) = Ret t" "par_inv nandsim_byte par_gc_good 8192 [[107] \<mapsto> [118]] t"
      "find_victim (meta_order (par_gc_state h ht)) 0 (par_gc_state h ht) = int v" "worn (blocks t ! 0) = worn (blocks (par_gc_state h ht) ! 0) + 1"
      "current_page_offset (blocks t ! v) = (if v = 0 \<or> current_page_offset (blocks (par_gc_state h ht) ! v) = 0 then 1
          else current_page_offset (blocks (par_gc_state h ht) ! v)) + int (length (valid_list (blocks (par_gc_state h ht) ! 0)))"
      "v \<noteq> 0 \<longrightarrow> state (blocks t ! 0) = BLK_FREE" by blast
  have "v = 1" using t(3) s(3) by simp
  with t have "worn (blocks t ! 0) = 4" "state (blocks t ! 0) = BLK_FREE" "current_page_offset (blocks t ! 1) = 2"
    by (simp_all add: par_gc_state_def new_block_def)
  with t(1,2) show ?thesis by blast
qed

end
