(* ===== verification/ParallelFaults.thy ===== *)
theory ParallelFaults
  imports ParallelProps
begin

text \<open>
  What the third prototype does where a guard is missing or inverted: the couple that opens a
  block, the calls after an early return that kept \<open>erase_lock\<close>, the collection that runs every
  second time and the timer that never flushes.
\<close>

section \<open>The couple that opens a block\<close>

lemma strncmp_eq_differs:
  assumes "cstring k" "k \<noteq> []" "length k \<le> n"
  shows "strncmp_eq (replicate n 0) (k @ [0]) (length k) = Ret False"
proof -
  have "take (length k) (replicate n 0) \<noteq> k"
    using assms by (cases k; cases n) (auto simp: cstring_def)
  then show ?thesis using strncmp_eq_prefix [OF assms(1), of "replicate n 0"] assms(3) by simp
qed

context nand_bits
begin

lemma par_store_on_header:
  assumes inv: "par_kv M s" and b: "1 < nb_blocks s" "block_kind s 1 = Data" "current_page_offset (blocks s ! 1) = 1"
    and full: "current_page_offset (blocks s ! 0) = int (pages_per_block s)"
    and z: "flash_page byte_at (page_size s) (flash s) (1 * pages_per_block s) = replicate (page_size s) 0"
    and k: "M k = None" "length k < PAR_KEY_MAX" and buf: "length buf = page_size s"
    and ro: "\<not> read_only s" and lk: "\<not> list_lock s" "\<not> one_lock s" and room: "index_room (HASH_SIZE s) (hashtable s)"
  obtains t h where
    "set_store K k buf 0 s = Ret (if read_only t then - 3 else 0, t)"
    "unlocked t" "par_same s (t\<lparr>erase_lock := erase_lock s\<rparr>)" "map nb_invalid (blocks t) = map nb_invalid (blocks s)"
    "par_geometry t fsize" "good (flash t)" "flash_page byte_at (page_size s) (flash t) (1 * pages_per_block s) = replicate (page_size s) 0"
    "index_ok (HASH_SIZE s) (hashtable t)" "entry (hashtable t) h = Some (k, int (pages_per_block s))"
    "state (blocks t ! 1) = BLK_USED" "1 < length (blocks t)"
proof -
  note D = par_repD [OF inv] and g = par_geometryD [OF par_repD(1) [OF inv]]
  let ?p = "1 * pages_per_block s + 0" and ?b = "blocks s ! 1"
  have il: "1 < length (blocks s)" "0 < length (blocks s)" using b(1) D(3) by simp_all
  have le: "page_size s \<le> length buf" and q: "0 < pages_per_block s" using buf g(2) by simp_all
  obtain m ro' where m: "k_write K (flash s) (?p * page_size s) (take (page_size s) buf) = (0, m)" "good m"
    "write_page K (int ?p) buf s = Ret (if ro' then - 1 else 0, par_upd 1 (next_blk ?b) (hashtable s) m ro' s)"
    by (rule par_write_page_raw [OF D(1,2) ro lk(2,1) b(1) D(3) q le])
  have z': "flash_page byte_at (page_size s) m ?p = replicate (page_size s) 0"
    by (rule page_write_zero [OF m(1)]) (use buf z in simp_all)
  have none: "\<forall>h x. entry (hashtable s) h \<noteq> Some (k, x)"
    using view_okD(4) [OF D(6)] k(1) by (fastforce simp: v_entry_def)
  obtain q' where q': "pages_per_block s = Suc q'" using g(2) by (cases "pages_per_block s") auto
  have kl: "length k < KEY_MAX" using k(2) by (simp add: PAR_KEY_MAX_def KEY_MAX_def)
  obtain h ht where a: "par_hash_add (pages_per_block s) (HASH_SIZE s) (hashtable s) k (int ?p) = Ret (int h, ht)"
    "index_ok (HASH_SIZE s) ht" "entry (hashtable s) h = None" "entry ht = (entry (hashtable s))(h \<mapsto> (k, int ?p))"
    using ht.add_absent [OF D(5) room kl none] unfolding q' par_add_eq [OF k(2)] by blast
  let ?u = "par_upd 1 (next_blk ?b) (hashtable s) m ro' s"
  have h: "h < length ht" using a(4) by (metis entry_def fun_upd_same option.distinct(1))
  have nl: "\<not> linked h (?u\<lparr>list_lock := True, hashtable := ht\<rparr>)"
    using par_lists_free [OF inv a(3)] D(3) b(1) by (auto simp: linked_def list_ex_length nth_list_update next_blk_def split: if_splits)
  let ?t = "?u\<lparr>hashtable := ht, blocks := (blocks ?u)[0 := (blocks s ! 0)\<lparr>valid_list := h # valid_list (blocks s ! 0)\<rparr>],
      list_lock := False, erase_lock := False, recent_update := 1\<rparr>"
  have la: "list_add (int h) 0 (?u\<lparr>list_lock := True, hashtable := ht\<rparr>)
      = Ret (?u\<lparr>list_lock := True, hashtable := ht, blocks := (blocks ?u)[0 := (blocks s ! 0)\<lparr>valid_list := h # valid_list (blocks s ! 0)\<rparr>]\<rparr>)"
    using h nl il arr_upd_int [of 0 "blocks ?u"] by (simp add: list_add_def upd_block_def)
  have st: "state ?b = BLK_USED"
    using D(4) il(1) b(2) by (auto simp: block_states_def block_kind_def split: if_splits)
  have "set_store K k buf 0 s = Ret (if read_only ?t then - 3 else 0, ?t)"
    using il(2) full m(3) a(1) la lk(1) arr_get_int [of 0 "blocks s"]
    by (simp add: set_store_def lock_list_def unlock_list_def unlock_erase_def Let_def del: of_nat_add of_nat_mult arr_get_int)
  moreover have "unlocked ?t" "par_same s (?t\<lparr>erase_lock := erase_lock s\<rparr>)"
    using lk by (simp_all add: unlocked_def par_same_def par_upd_def)
  moreover have "map nb_invalid (blocks ?t) = map nb_invalid (blocks s)"
    by (simp add: map_update next_blk_def) (metis list_update_id map_update next_blk_def)
  moreover have "par_geometry ?t fsize" using D(1) by (auto simp: par_geometry_def nb_meta_def par_upd_def)
  moreover have "entry (hashtable ?t) h = Some (k, int (pages_per_block s))" using a(4) by simp
  moreover have "state (blocks ?t ! 1) = BLK_USED" "1 < length (blocks ?t)"
    using il st by (simp_all add: next_blk_def)
  ultimately show ?thesis using that [of ?t h] m(2) z' a(2) by simp
qed

end

lemma par_get_zero_page:
  assumes K: "reliable_flash K byte_at good fsize" and u: "unlocked s" and g: "par_geometry s fsize" "good (flash s)"
    and z: "flash_page byte_at (page_size s) (flash s) (1 * pages_per_block s) = replicate (page_size s) 0"
    and ix: "index_ok (HASH_SIZE s) (hashtable s)" "entry (hashtable s) h = Some (k, int (pages_per_block s))"
    and st: "state (blocks s ! 1) = BLK_USED" "1 < length (blocks s)" "1 < nb_blocks s"
    and k: "cstring k" "k \<noteq> []" "length k + 8 \<le> page_size s"
  shows "get_keyval K k s = Ret (- 3, None)"
proof -
  note G = par_geometryD [OF g(1)]
  obtain bf where bf: "k_kmalloc K (flash s) (page_size s) = Some bf" using reliable_flash.kmalloc_ok [OF K g(2)] by blast
  have sr: "par_hash_search (HASH_SIZE s) (hashtable s) k = Ret (int h)" using ht.search_present [OF ix] by (simp add: par_search_eq)
  have e: "h < length (hashtable s)" "index (hashtable s ! h) = int (pages_per_block s)" "p_state (hashtable s ! h) \<noteq> PG_FREE"
    using ix(2) by (auto simp: entry_def split: if_splits)
  have q: "0 < pages_per_block s" using G(2) by simp
  have c: "c_div (int (pages_per_block s)) (pages_per_block s) = 1" using q by (simp only: c_div_int) simp
  let ?s = "s\<lparr>erase_lock := True, list_lock := True\<rparr>"
  have "read_page K (int (1 * pages_per_block s + 0)) ?s
      = Ret (0, flash_page byte_at (page_size s) (flash s) (1 * pages_per_block s + 0))"
    using reliable_flash.par_read_page [OF K, of ?s 1 0] g st(3) q u by (simp add: lock_simps unlocked_def)
  then have rd: "read_page K (int (pages_per_block s)) ?s = Ret (0, replicate (page_size s) 0)" using z by simp
  have ne: "strncmp_eq (drop 8 (replicate (page_size s) 0)) (k @ [0]) (length k) = Ret False"
    using strncmp_eq_differs [OF k(1,2), of "page_size s - 8"] k(3) by simp
  have b1: "arr_get (blocks s) 1 = Ret (blocks s ! 1)" using arr_get_int [OF st(2)] by simp
  show ?thesis
    using bf sr e c rd ne st(1) b1 u by (simp add: get_keyval_def lock_erase_def lock_list_def unlocked_def Let_def)
qed

lemma par_new_block:
  assumes K: "nand_bits K byte_at good fsize" and inv: "par_inv byte_at good fsize M s" and ro: "\<not> read_only s"
    and k: "couple_ok (page_size s) (k, v)" "length k < PAR_KEY_MAX" "k \<noteq> []"
    and room: "index_room (HASH_SIZE s) (hashtable s)" and qt: "quiet s"
    and c: "get_healthy_block s = Ret 1" "current_page_offset (blocks s ! 1) = 0" "current_page_offset (blocks s ! 0) = int (pages_per_block s)"
  shows "\<exists>t h. set_keyval K k v s = Ret (if read_only t then - 3 else 0, t) \<and> unlocked t \<and> get_keyval K k t = Ret (- 3, None)
     \<and> entry (hashtable t) h = Some (k, int (pages_per_block s))
     \<and> flash_page byte_at (page_size s) (flash t) (pages_per_block s) = replicate (page_size s) 0"
proof -
  have K': "reliable_flash K byte_at good fsize" using K unfolding nand_bits_def by blast
  obtain u where u: "par_rep byte_at good fsize (M(k := None)) u" "\<not> read_only u" "\<not> list_lock u" "\<not> one_lock u" "erase_lock u"
    "par_same (s\<lparr>erase_lock := True\<rparr>) u" "get_healthy_block u = get_healthy_block s"
    "map current_page_offset (blocks u) = map current_page_offset (blocks s)"
    "\<forall>i. nb_invalid (blocks u ! i) \<le> nb_invalid (blocks s ! i) + 1" "index_room (HASH_SIZE u) (hashtable u)"
    "set_body K k v (s\<lparr>erase_lock := True\<rparr>) = obind (get_next_block_to_write K u) (\<lambda>(target_block, s').
       if target_block = - 1 then Ret (- 3, False, s')
       else obind (set_store K k (couple_image (page_size s) (k, v)) target_block s') (\<lambda>(ret, s). Ret (ret, True, s)))"
    by (rule reliable_flash.par_set_prefix [OF K' inv ro k(1) room])
  note Du = par_repD [OF u(1)] and S1 = par_sameD [OF u(6), simplified]
  have len: "length (blocks s) = nb_blocks s" using par_repD(3) [OF par_invD(1) [OF inv]] .
  from get_healthy_spec [OF par_geometryD(10) [OF Du(1)] Du(3,4)] u(7) c(1)
  have i: "get_healthy_block u = Ret (int 1)" "1 < nb_blocks u" "available u 1" by (auto split: if_splits)
  have off: "current_page_offset (blocks u ! 0) = int (pages_per_block s)" "current_page_offset (blocks u ! 1) = 0"
    using u(8) i(2) S1(1) len Du(3) c(2,3) by (metis nth_map order_less_trans zero_less_one)+
  obtain t2 j where t2: "get_next_block_to_write K u = Ret (if current_page_offset (blocks u ! 1) = 0 then 0 else int 1, t2)"
    "par_rep byte_at good fsize (M(k := None)) t2" "current_page_offset (blocks t2 ! 1) = int j" "block_kind t2 1 = Data" "par_same u t2"
    "hashtable t2 = hashtable u" "\<not> read_only t2"
    "current_page_offset (blocks u ! 1) = 0 \<longrightarrow> j = 1 \<and> flash_page byte_at (page_size u) (flash t2) (1 * pages_per_block u) = replicate (page_size u) 0"
    "\<forall>i'. i' \<noteq> 1 \<longrightarrow> blocks t2 ! i' = blocks u ! i'"
    "\<forall>i'. nb_invalid (blocks t2 ! i') = nb_invalid (blocks u ! i')"
    by (rule reliable_flash.par_next [OF K' u(1-4) i])
  note S2 = par_sameD [OF t2(5)]
  have b: "1 < nb_blocks t2" "current_page_offset (blocks t2 ! 1) = 1" "current_page_offset (blocks t2 ! 0) = int (pages_per_block t2)"
    "flash_page byte_at (page_size t2) (flash t2) (1 * pages_per_block t2) = replicate (page_size t2) 0"
    "length (couple_image (page_size s) (k, v)) = page_size t2" "\<not> list_lock t2" "\<not> one_lock t2" "index_room (HASH_SIZE t2) (hashtable t2)"
    using i(2) t2(3,6,8,9) off S1 S2 k(1) u(3,4,10) by simp_all
  have none: "(M(k := None)) k = None" by simp
  obtain t h where t: "set_store K k (couple_image (page_size s) (k, v)) 0 t2 = Ret (if read_only t then - 3 else 0, t)"
    "unlocked t" "par_same t2 (t\<lparr>erase_lock := erase_lock t2\<rparr>)" "map nb_invalid (blocks t) = map nb_invalid (blocks t2)"
    "par_geometry t fsize" "good (flash t)" "flash_page byte_at (page_size t2) (flash t) (1 * pages_per_block t2) = replicate (page_size t2) 0"
    "index_ok (HASH_SIZE t2) (hashtable t)" "entry (hashtable t) h = Some (k, int (pages_per_block t2))"
    "state (blocks t ! 1) = BLK_USED" "1 < length (blocks t)"
    by (rule nand_bits.par_store_on_header [OF K t2(2) b(1) t2(4) b(2-4) none k(2) b(5) t2(7) b(6-8)])
  have same: "par_same s t" using u(6) t2(5) t(2,3) par_invD [OF inv] by (simp add: par_same_def unlocked_def)
  note S = par_sameD [OF same]
  have lt: "length (blocks t) = nb_blocks s" using t(4) par_repD(3) [OF t2(2)] S1(1) S2(1) by (metis length_map)
  have "\<forall>i < nb_blocks s. nb_invalid (blocks t ! i) \<le> nb_invalid (blocks s ! i) + 1"
  proof (intro allI impI)
    fix i assume "i < nb_blocks s"
    then have "nb_invalid (blocks t ! i) = nb_invalid (blocks t2 ! i)" using lt t(4) by (metis length_map nth_map)
    with t2(10) u(9) show "nb_invalid (blocks t ! i) \<le> nb_invalid (blocks s ! i) + 1" by simp
  qed
  then obtain x where x: "gc_check K t = Ret (t\<lparr>is_gb := x, write_cnt := Suc (write_cnt t)\<rparr>)"
    by (rule gc_check_quiet_step [OF qt same len lt])
  let ?t = "t\<lparr>is_gb := x, write_cnt := Suc (write_cnt t)\<rparr>"
  have "get_keyval K k ?t = Ret (- 3, None)"
  proof (rule par_get_zero_page [OF K'])
    show "par_geometry ?t fsize" using t(5) by (auto simp: par_geometry_def nb_meta_def)
    show "cstring k" "length k + 8 \<le> page_size ?t" using k(1) S(3) by (simp_all add: couple_ok_def)
  qed (use t S S1 S2 b k(3) in \<open>simp_all add: unlocked_def\<close>)
  moreover have "set_keyval K k v s = Ret (if read_only ?t then - 3 else 0, ?t)"
    using u(11) t2(1) off(2) t(1) x set_keyval_locked [OF par_invD(2) [OF inv]] by simp
  ultimately show ?thesis using t(2,7,9) S2 S1 by (intro exI [of _ ?t] exI [of _ h]) (simp add: unlocked_def)
qed

text \<open>The partition of the examples with block 0 full of couples that were deleted.\<close>

definition full_blk :: blk_info where
  "full_blk = \<lparr>valid_list = [], state = BLK_USED, worn = 0, nb_invalid = 11, current_page_offset = 12\<rparr>"

abbreviation fill_first :: "'m lkp_kv \<Rightarrow> 'm lkp_kv" where
  "fill_first s \<equiv> par_upd 0 full_blk (hashtable s) (flash s) False s"

lemma par_demo_full:
  obtains s where "init_config demo_K 0 0 par_demo0 = Ret (0, s)" "par_inv nandsim_byte demo_good 61440 Map.empty (fill_first s)"
    "index_room (HASH_SIZE (fill_first s)) (hashtable (fill_first s))" "quiet (fill_first s)"
    "couple_ok (page_size (fill_first s)) ([107], [118])" "get_healthy_block (fill_first s) = Ret 1"
    "current_page_offset (blocks (fill_first s) ! 1) = 0" "current_page_offset (blocks (fill_first s) ! 0) = int (pages_per_block (fill_first s))"
proof -
  obtain s where s: "init_config demo_K 0 0 par_demo0 = Ret (0, s)" "par_inv nandsim_byte demo_good 61440 Map.empty s"
    "nb_blocks s = 5" "pages_per_block s = 12" "page_size s = 1024" "HASH_SIZE s = 55" "hashtable s = replicate 55 new_bucket"
    "blocks s = replicate 5 new_block" "\<not> read_only s" "meta_blkordr s = replicate MAX_META_BLK (- 1)" "metadata_size s = 8192"
    "meta_page_size s = 1024" "write_cnt s = 0" "is_gb s = 0"
    by (rule par_demo_loaded)
  let ?t = "fill_first s"
  note I = par_invD [OF s(2)]
  note D = par_repD [OF I(1)]
  have bl: "blocks ?t = [full_blk, new_block, new_block, new_block, new_block]" by (simp add: s(8) numeral_eq_Suc)
  have nm: "\<not> is_meta s i" for i using s(4,10-12) by (simp add: is_meta_def nb_meta_def MAX_META_BLK_def)
  have ent: "entry (hashtable s) = Map.empty" by (auto simp: s(7) entry_def new_bucket_def fun_eq_iff)
  have l0: "0 < length (blocks s)" using s(8) by simp
  have "par_rep nandsim_byte demo_good 61440 Map.empty ?t"
  proof (rule par_rep_upd [OF I(1) _ D(2) _ _ D(5)])
    have c: "v_counts (view_of nandsim_byte ?t) i" "v_kind (view_of nandsim_byte ?t) i \<noteq> Meta \<longrightarrow> v_erased (view_of nandsim_byte ?t) i" if i: "i < 5" for i
    proof -
      have o: "v_counts (view_of nandsim_byte s) i" "v_erased (view_of nandsim_byte s) i"
        using view_okD(2,3) [OF D(6), of i] i nm s(3) by (simp_all add: block_kind_def)
      show "v_counts (view_of nandsim_byte ?t) i"
        using o(1) s(4) nm by (cases "i = 0") (auto simp: v_counts_def view_of_upd [OF l0] full_blk_def split: kind.splits)
      show "v_kind (view_of nandsim_byte ?t) i \<noteq> Meta \<longrightarrow> v_erased (view_of nandsim_byte ?t) i"
        using o(2) s(4) by (cases "i = 0") (auto simp: v_erased_def view_of_upd [OF l0] full_blk_def)
    qed
    have "v_list (view_of nandsim_byte ?t) i = []" if "i < 5" for i
      using that bl by (auto simp: full_blk_def new_block_def less_Suc_eq numeral_eq_Suc)
    then show "view_ok PAR_KEY_MAX Map.empty (view_of nandsim_byte ?t)"
      using c s(3,4) ent by (auto simp: view_ok_def v_lists_def)
    show "False = is_read_only ?t"
      unfolding is_read_only_def bl using s(3,4,11,12) by (simp add: full_blk_def new_block_def nb_meta_def)
    show "meta_read_only s \<longrightarrow> False" using D(8) s(9) by blast
  qed (use s(3) in \<open>simp_all add: full_blk_def\<close>)
  then have inv: "par_inv nandsim_byte demo_good 61440 Map.empty ?t" using I(2-4) by (simp add: par_inv_def unlocked_def)
  have gh: "get_healthy_block ?t = Ret 1"
    using s(3,4,10-12) bl by (simp add: get_healthy_block_def victims_def nb_meta_def MAX_META_BLK_def new_block_def full_blk_def upt_rec)
  show ?thesis
    by (rule that [OF s(1) inv _ _ _ gh])
      (use s bl par_demo_room in \<open>simp_all add: quiet_def FLUSH_THRESHOLD2_def couple_ok_def cstring_def full_blk_def new_block_def\<close>)
qed

text \<open>
  C16.  A couple for which a new block is opened is lost, when block 0 is full and the least worn
  block is the unused block 1 (as after the first block has been filled): \<open>get_next_block_to_write\<close>
  returns the 0 of \<open>write_hdr\<close> instead of the block, so the page of the couple is numbered from
  block 0 and is the header page of block 1.  The index then names this page for the key, but the
  page keeps the zeros of the header; \<open>set_keyval\<close> reports success (or -3 when this write was the last
  the store had room for), and reading the key gives -3.
\<close>

theorem parallel_new_block_loses_couple:
  assumes "nand_bits K byte_at good fsize" and "par_inv byte_at good fsize M s" and "\<not> read_only s"
    and "couple_ok (page_size s) (k, v)" and "length k < PAR_KEY_MAX" and "k \<noteq> []"
    and "index_room (HASH_SIZE s) (hashtable s)" and "quiet s" and "get_healthy_block s = Ret 1"
    and "current_page_offset (blocks s ! 1) = 0" and "current_page_offset (blocks s ! 0) = int (pages_per_block s)"
  shows "\<exists>t h. set_keyval K k v s = Ret (if read_only t then - 3 else 0, t) \<and> get_keyval K k t = Ret (- 3, None)
     \<and> entry (hashtable t) h = Some (k, int (pages_per_block s))
     \<and> flash_page byte_at (page_size s) (flash t) (pages_per_block s) = replicate (page_size s) 0"
  using par_new_block [OF assms] by blast

theorem parallel_new_block_loses_couple_witness:
  "\<exists>s t. init_config demo_K 0 0 par_demo0 = Ret (0, s)
     \<and> set_keyval demo_K [107] [118] (fill_first s) = Ret (if read_only t then - 3 else 0, t) \<and> get_keyval demo_K [107] t = Ret (- 3, None)"
proof -
  obtain s where s: "init_config demo_K 0 0 par_demo0 = Ret (0, s)" "par_inv nandsim_byte demo_good 61440 Map.empty (fill_first s)"
    "index_room (HASH_SIZE (fill_first s)) (hashtable (fill_first s))" "quiet (fill_first s)"
    "couple_ok (page_size (fill_first s)) ([107], [118])" "get_healthy_block (fill_first s) = Ret 1"
    "current_page_offset (blocks (fill_first s) ! 1) = 0" "current_page_offset (blocks (fill_first s) ! 0) = int (pages_per_block (fill_first s))"
    by (rule par_demo_full)
  have k: "length [107 :: byte] < PAR_KEY_MAX" "[107 :: byte] \<noteq> []" "\<not> read_only (fill_first s)" by (simp_all add: PAR_KEY_MAX_def)
  from parallel_new_block_loses_couple [OF demo_bits s(2) k(3) s(5) k(1,2) s(3,4,6-8)] s(1) show ?thesis by blast
qed

section \<open>Errors that keep the lock\<close>

lemma locked_stuck:
  assumes "erase_lock s"
  shows "set_keyval K k v s = Hang" "del_key k s = Hang" "format K s = Hang" "flush_metadata K True s = Hang"
    "get_keyval K k s \<noteq> Ret x"
  using assms by (simp_all add: set_keyval_def del_key_def get_keyval_def format_def flush_metadata_def lock_erase_def Let_def)

text \<open>
  C38.  An error of \<open>set_keyval\<close> stops the module.  A couple that does not fit a page is refused
  with -1, but the return keeps \<open>erase_lock\<close>: from then on every set, delete, format and forced
  flush waits for ever, and no get returns.
\<close>

theorem parallel_error_keeps_lock:
  assumes "\<not> erase_lock s" and "page_size s < length k + length v + 8"
  shows "\<exists>t. set_keyval K k v s = Ret (- 1, t)
     \<and> (\<forall>k v. set_keyval K k v t = Hang \<and> del_key k t = Hang \<and> (\<forall>x. get_keyval K k t \<noteq> Ret x))
     \<and> format K t = Hang \<and> flush_metadata K True t = Hang"
proof -
  have "set_keyval K k v s = Ret (- 1, s\<lparr>erase_lock := True\<rparr>)"
    using assms by (simp add: set_keyval_def set_body_def lock_erase_def)
  then show ?thesis using locked_stuck [of "s\<lparr>erase_lock := True\<rparr>"] by auto
qed

theorem parallel_error_keeps_lock_witness:
  "\<exists>s t. init_config demo_K 0 0 par_demo0 = Ret (0, s) \<and> set_keyval demo_K [107] (replicate 2000 1) s = Ret (- 1, t)
     \<and> set_keyval demo_K [107] [118] t = Hang"
proof -
  obtain s where s: "init_config demo_K 0 0 par_demo0 = Ret (0, s)" "par_inv nandsim_byte demo_good 61440 Map.empty s" "\<not> read_only s"
    "page_size s = 1024" by (rule par_demo_ready)
  have "\<not> erase_lock s" "page_size s < length [107 :: byte] + length (replicate 2000 (1 :: byte)) + 8"
    using par_invD(2) [OF s(2)] s(4) by simp_all
  from parallel_error_keeps_lock [OF this] s(1) show ?thesis by blast
qed

text \<open>
  C39.  A store whose data blocks are full loses the old value as well: the entry is
  invalidated before a block is looked for, and -3 is returned with \<open>erase_lock\<close> held.
\<close>

theorem parallel_full_loses_old_value:
  assumes "reliable_flash K byte_at good fsize" and "par_inv byte_at good fsize M s" and "\<not> read_only s"
    and "couple_ok (page_size s) (k, v)" and "index_room (HASH_SIZE s) (hashtable s)"
    and "get_healthy_block s = Ret (- 1)"
  shows "\<exists>t. set_keyval K k v s = Ret (- 3, t) \<and> par_rep byte_at good fsize (M(k := None)) t \<and> erase_lock t"
proof -
  obtain u where u: "par_rep byte_at good fsize (M(k := None)) u" "\<not> list_lock u" "erase_lock u"
    "get_healthy_block u = get_healthy_block s"
    "set_body K k v (s\<lparr>erase_lock := True\<rparr>) = obind (get_next_block_to_write K u) (\<lambda>(target_block, s').
       if target_block = - 1 then Ret (- 3, False, s')
       else obind (set_store K k (couple_image (page_size s) (k, v)) target_block s') (\<lambda>(ret, s). Ret (ret, True, s)))"
    by (rule reliable_flash.par_set_prefix [OF assms(1-5)])
  have "get_next_block_to_write K u = Ret (- 1, u)"
    using u(2,4) assms(6) list_lock_off [OF u(2)]
    by (simp add: get_next_block_to_write_def lock_list_def get_healthy_locks unlock_list_def)
  with u show ?thesis using set_keyval_locked [OF par_invD(2) [OF assms(2)]] by auto
qed

text \<open>The partition of the examples with four full blocks and the metadata in block 4.\<close>

definition meta_blk :: blk_info where
  "meta_blk = \<lparr>valid_list = [], state = BLK_USED, worn = 0, nb_invalid = 0, current_page_offset = 9\<rparr>"

abbreviation fill_all :: "'m lkp_kv \<Rightarrow> 'm lkp_kv" where
  "fill_all s \<equiv> s\<lparr>blocks := replicate 4 full_blk @ [meta_blk], meta_blkordr := 4 # replicate 99 (- 1)\<rparr>"

lemma par_demo_all_full:
  obtains s where "init_config demo_K 0 0 par_demo0 = Ret (0, s)" "par_inv nandsim_byte demo_good 61440 Map.empty (fill_all s)"
    "\<not> read_only (fill_all s)" "index_room (HASH_SIZE (fill_all s)) (hashtable (fill_all s))"
    "couple_ok (page_size (fill_all s)) ([107], [118])" "get_healthy_block (fill_all s) = Ret (- 1)"
proof -
  obtain s where s: "init_config demo_K 0 0 par_demo0 = Ret (0, s)" "par_inv nandsim_byte demo_good 61440 Map.empty s"
    "nb_blocks s = 5" "pages_per_block s = 12" "page_size s = 1024" "HASH_SIZE s = 55" "hashtable s = replicate 55 new_bucket"
    "blocks s = replicate 5 new_block" "\<not> read_only s" "meta_blkordr s = replicate MAX_META_BLK (- 1)" "metadata_size s = 8192"
    "meta_page_size s = 1024"
    by (rule par_demo_loaded)
  let ?t = "fill_all s"
  note I = par_invD [OF s(2)]
  note D = par_repD [OF I(1)]
  have bl: "blocks ?t = [full_blk, full_blk, full_blk, full_blk, meta_blk]" by (simp add: numeral_eq_Suc)
  have nm: "is_meta ?t i \<longleftrightarrow> i = 4" for i using s(4,10-12) by (simp add: is_meta_def nb_meta_def)
  have ent: "entry (hashtable s) = Map.empty" by (auto simp: s(7) entry_def new_bucket_def fun_eq_iff)
  have c: "v_counts (view_of nandsim_byte ?t) i \<and> (v_kind (view_of nandsim_byte ?t) i \<noteq> Meta \<longrightarrow> v_erased (view_of nandsim_byte ?t) i)
      \<and> v_list (view_of nandsim_byte ?t) i = []" if i: "i < 5" for i
  proof (cases "i = 4")
    case True
    then have "blocks ?t ! i = meta_blk" "block_kind ?t i = Meta" using bl nm by (simp_all add: block_kind_def)
    then show ?thesis using s(4) by (simp add: v_counts_def meta_blk_def)
  next
    case False
    then have b: "blocks ?t ! i = full_blk" "block_kind ?t i = Data"
      using i nm by (auto simp: block_kind_def nth_append full_blk_def)
    then show ?thesis using s(4) by (simp add: v_counts_def v_erased_def full_blk_def)
  qed
  have ro: "\<not> is_read_only ?t"
    unfolding is_read_only_def bl using s(3,4,11,12) by (simp add: full_blk_def meta_blk_def nb_meta_def)
  have "par_rep nandsim_byte demo_good 61440 Map.empty ?t"
    unfolding par_rep_def
  proof (intro conjI)
    show "par_geometry ?t 61440" using D(1) s(3-5,11,12) by (simp add: par_geometry_def nb_meta_def)
    show "view_ok PAR_KEY_MAX Map.empty (view_of nandsim_byte ?t)"
      using c s(3,4) ent by (auto simp: view_ok_def v_lists_def)
  qed (use D s(3,9) ro in \<open>auto simp: block_states_def full_blk_def meta_blk_def\<close>)
  then have inv: "par_inv nandsim_byte demo_good 61440 Map.empty ?t" using I(2-4) by (simp add: par_inv_def unlocked_def)
  have "\<not> available ?t i" if "i < 5" for i
    using that nm s(4) by (auto simp: available_def nth_append full_blk_def)
  then have gh: "get_healthy_block ?t = Ret (- 1)"
    using get_healthy_spec [OF par_geometryD(10) [OF par_repD(1)] par_repD(3,4), OF par_invD(1) [OF inv] par_invD(1) [OF inv] par_invD(1) [OF inv]]
      s(3) by simp
  show ?thesis
    by (rule that [OF s(1) inv _ _ _ gh]) (use s par_demo_room in \<open>simp_all add: couple_ok_def cstring_def\<close>)
qed

theorem parallel_full_loses_old_value_witness:
  "\<exists>s t. init_config demo_K 0 0 par_demo0 = Ret (0, s) \<and> set_keyval demo_K [107] [118] (fill_all s) = Ret (- 3, t) \<and> erase_lock t"
proof -
  obtain s where s: "init_config demo_K 0 0 par_demo0 = Ret (0, s)" "par_inv nandsim_byte demo_good 61440 Map.empty (fill_all s)"
    "\<not> read_only (fill_all s)" "index_room (HASH_SIZE (fill_all s)) (hashtable (fill_all s))"
    "couple_ok (page_size (fill_all s)) ([107], [118])" "get_healthy_block (fill_all s) = Ret (- 1)"
    by (rule par_demo_all_full)
  from parallel_full_loses_old_value [OF demo_reliable s(2,3,5,4,6)] s(1) show ?thesis by blast
qed

section \<open>The flags\<close>

text \<open>
  C40.  The flush timer never flushes.  Every call of \<open>flush_metadata\<close> leaves \<open>is_flush\<close> at 0, and with
  0 the inverted test of \<open>atomic_cmpxchg\<close> leaves at once, so however often the timer fires its
  only effect is that the flag which says that there is something to flush is cleared.
\<close>

theorem parallel_timer_never_flushes:
  assumes "is_flush s = 0"
  shows "ofold (\<lambda>_. flush_timer_callback K) [0..<Suc n] s = Ret (s\<lparr>recent_update := 0\<rparr>)"
proof -
  have step: "flush_timer_callback K u = Ret (u\<lparr>recent_update := 0\<rparr>)" if "is_flush u = 0" for u
    using that by (cases u) (simp add: flush_timer_callback_def flush_metadata_def cmpxchg01_def Let_def)
  have "ofold (\<lambda>_. flush_timer_callback K) is u = Ret (u\<lparr>recent_update := 0\<rparr>)"
    if "is_flush u = 0" "recent_update u = 0" for u and "is" :: "nat list"
    using that
  proof (induction "is")
    case Nil
    then show ?case by (cases u) simp
  next
    case (Cons i "is")
    have "u\<lparr>recent_update := 0\<rparr> = u" using Cons.prems(2) by (cases u) simp
    with Cons step [OF Cons.prems(1)] show ?case by simp
  qed
  from this [of "s\<lparr>recent_update := 0\<rparr>" "[1..<Suc n]"] assms step [OF assms] show ?thesis
    by (simp add: upt_conv_Cons del: upt_Suc)
qed

theorem parallel_timer_never_flushes_witness:
  "\<exists>s. init_config demo_K 0 0 par_demo0 = Ret (0, s)
     \<and> ofold (\<lambda>_. flush_timer_callback demo_K) [0..<Suc 2] (s\<lparr>recent_update := 1, is_flush := 0\<rparr>)
         = Ret (s\<lparr>recent_update := 1, is_flush := 0, recent_update := 0\<rparr>)"
proof -
  obtain s where s: "init_config demo_K 0 0 par_demo0 = Ret (0, s)" by (rule par_demo_ready)
  have "is_flush (s\<lparr>recent_update := 1, is_flush := 0\<rparr>) = 0" by simp
  from parallel_timer_never_flushes [OF this, of demo_K 2] s show ?thesis by blast
qed

end
