(* ===== verification/ParallelDevice.thy ===== *)
theory ParallelDevice
  imports ParallelProps UserSpace
begin

text \<open>
  The third prototype behind its device file (\<open>p6/prototype-parallel/kernel/device.c\<close>), loading
  and unloading of the module (\<open>core.c\<close>), and its library (\<open>user/kvlib.c\<close>).  The contract of the
  library is interpreted on the store for every reliable flash.
\<close>

definition parallel_ioctl :: "'m heap_kernel \<Rightarrow> 'm lkp_kv ioctl" where
  "parallel_ioctl K req d =
     (case req of
        IOCTL_FORMAT arg \<Rightarrow>
          obind (format K (core d)) (\<lambda>(ret, s). Ret (0, IOCTL_FORMAT (map_option (\<lambda>_. ret) arg), d\<lparr>core := s\<rparr>))
      | IOCTL_SET kv \<Rightarrow>
          obind (ioctl_set (\<lambda>n. k_kmalloc K (flash (core d)) n \<noteq> None) (set_keyval K) kv (core d))
            (\<lambda>(kv, s). Ret (0, IOCTL_SET kv, d\<lparr>core := s\<rparr>))
      | IOCTL_GET kv \<Rightarrow>
          obind (ioctl_get (\<lambda>n. k_kmalloc K (flash (core d)) n \<noteq> None) (page_size (core d)) (get_keyval K) kv (core d))
            (\<lambda>kv. Ret (0, IOCTL_GET kv, d))
      | IOCTL_DEL kv \<Rightarrow>
          obind (ioctl_del (\<lambda>n. k_kmalloc K (flash (core d)) n \<noteq> None) del_key kv (core d))
            (\<lambda>(kv, s). Ret (0, IOCTL_DEL kv, d\<lparr>core := s\<rparr>))
      | IOCTL_GC \<Rightarrow> obind (gc K (core d)) (\<lambda>s. Ret (0, IOCTL_GC, d\<lparr>core := s\<rparr>))
      | IOCTL_PRINT \<Rightarrow> Ret (0, IOCTL_PRINT, d)
      | IOCTL_OTHER \<Rightarrow> Ret (- 8, IOCTL_OTHER, d))"

definition parallel_device_init :: "'m heap_kernel \<Rightarrow> 'm lkp_kv device \<Rightarrow> int \<times> 'm lkp_kv device" where
  "parallel_device_init K d =
     (let d = d\<lparr>file_is_open := False\<rparr> in
      if k_register_chrdev K (flash (core d)) < 0 then (- 1, d) else (0, d))"

definition parallel_lkp_kv_init :: "'m heap_kernel \<Rightarrow> int \<Rightarrow> int \<Rightarrow> 'm lkp_kv device \<Rightarrow> (int \<times> 'm lkp_kv device) outcome" where
  "parallel_lkp_kv_init K MTD_INDEX META_INDEX d =
     (let s = (core d)\<lparr>one_lock := False, list_lock := False, erase_lock := False, meta_blkordr := replicate MAX_META_BLK (- 1)\<rparr> in
      obind (init_config K MTD_INDEX META_INDEX s) (\<lambda>(r, s).
        let d = d\<lparr>core := s\<rparr> in
        if r \<noteq> 0 then Ret (- 1, d)
        else case parallel_device_init K d of (r, d) \<Rightarrow>
          if r \<noteq> 0 then Ret (- 2, d)
          else let s = (core d)\<lparr>is_gb := 0, is_flush := 0, recent_update := 0\<rparr> in
            case init_flush_timer s of (r, s) \<Rightarrow>
              if r \<noteq> 0 then Ret (- 3, d\<lparr>core := s\<rparr>)
              else case init_wear_timer s of (r, s) \<Rightarrow> Ret (if r \<noteq> 0 then - 4 else 0, d\<lparr>core := s\<rparr>)))"

definition parallel_lkp_kv_exit :: "'m heap_kernel \<Rightarrow> 'm lkp_kv device \<Rightarrow> 'm lkp_kv device outcome" where
  "parallel_lkp_kv_exit K d =
     (let s = clear_wear_timer (clear_flush_timer (core d)) in
      obind (flush_metadata K True s) (\<lambda>(_, s). Ret (d\<lparr>core := destroy_config s\<rparr>)))"

definition parallel_kvlib_format :: "'m heap_kernel \<Rightarrow> int \<Rightarrow> 'm lkp_kv device \<Rightarrow> (int \<times> 'm lkp_kv device) outcome" where
  "parallel_kvlib_format K = kvlib_format (parallel_ioctl K)"

definition parallel_kvlib_set :: "'m heap_kernel \<Rightarrow> byte list \<Rightarrow> byte list \<Rightarrow> 'm lkp_kv device \<Rightarrow> (int \<times> 'm lkp_kv device) outcome" where
  "parallel_kvlib_set K = kvlib_set (parallel_ioctl K)"

text \<open>The answer is received in an object of 2049 bytes.\<close>

definition parallel_kvlib_get :: "'m heap_kernel \<Rightarrow> (nat \<Rightarrow> byte list) \<Rightarrow> byte list \<Rightarrow> byte list \<Rightarrow> 'm lkp_kv device
    \<Rightarrow> (int \<times> byte list \<times> 'm lkp_kv device) outcome" where
  "parallel_kvlib_get K heap = kvlib_get (parallel_ioctl K) heap (\<lambda>_. Ret 2049)"

definition parallel_kvlib_del :: "'m heap_kernel \<Rightarrow> byte list \<Rightarrow> 'm lkp_kv device \<Rightarrow> (int \<times> 'm lkp_kv device) outcome" where
  "parallel_kvlib_del K = kvlib_del (parallel_ioctl K)"

definition parallel_kvlib_gc :: "'m heap_kernel \<Rightarrow> 'm lkp_kv device \<Rightarrow> 'm lkp_kv device outcome" where
  "parallel_kvlib_gc K = kvlib_gc (parallel_ioctl K)"

definition parallel_kvlib_print :: "'m heap_kernel \<Rightarrow> 'm lkp_kv device \<Rightarrow> (int \<times> 'm lkp_kv device) outcome" where
  "parallel_kvlib_print K = kvlib_print (parallel_ioctl K)"

section \<open>The store keeps the contract of the library\<close>

text \<open>The couple fits, its block is open, and the store does not become read-only with it.\<close>

definition par_fits :: "byte list \<Rightarrow> byte list \<Rightarrow> 'm lkp_kv \<Rightarrow> bool" where
  "par_fits k v s \<longleftrightarrow> \<not> read_only s \<and> couple_ok (page_size s) (k, v) \<and> length k < PAR_KEY_MAX \<and> can_write s
     \<and> index_room (HASH_SIZE s) (hashtable s) \<and> quiet s
     \<and> int (full_count s) + 1 < int (nb_blocks s) - (int (nb_meta 0 s) - 1)"

lemma par_strings: "par_inv byte_at good fsize M s \<Longrightarrow> M k = Some v \<Longrightarrow> cstring v"
proof -
  assume inv: "par_inv byte_at good fsize M s" and k: "M k = Some v"
  note I = par_invD(1) [OF inv]
  obtain h x where e: "entry (hashtable s) h = Some (k, x)"
    using view_okD(5) [OF par_repD(6) [OF I], of k] k by auto
  obtain v' where "M k = Some v'" "couple_ok (page_size s) (k, v')" by (rule par_entryD [OF I e])
  with k show "cstring v" by (simp add: couple_ok_def)
qed

lemma par_set_fits:
  assumes "reliable_flash K byte_at good fsize" "par_inv byte_at good fsize M s" "par_fits k v s"
  shows "\<exists>t. set_keyval K k v s = Ret (0, t) \<and> par_inv byte_at good fsize (M(k \<mapsto> v)) t"
proof -
  from assms(3) have f: "\<not> read_only s" "couple_ok (page_size s) (k, v)" "length k < PAR_KEY_MAX" "can_write s"
    "index_room (HASH_SIZE s) (hashtable s)" "quiet s" "int (full_count s) + 1 < int (nb_blocks s) - (int (nb_meta 0 s) - 1)"
    by (simp_all add: par_fits_def)
  obtain t where t: "set_keyval K k v s = Ret (if read_only t then - 3 else 0, t)" "par_inv byte_at good fsize (M(k \<mapsto> v)) t"
    "full_count t \<le> full_count s + 1" "nb_blocks t = nb_blocks s" "nb_meta 0 t = nb_meta 0 s"
    using par_set_map [OF assms(1,2) f(1-6)] by blast
  have "\<not> is_read_only t" using t(3-5) f(7) by (simp add: is_read_only_count)
  then have "\<not> read_only t" using par_repD(7) [OF par_invD(1) [OF t(2)]] by simp
  with t show ?thesis by auto
qed

sublocale reliable_flash \<subseteq> pm: kv_module "parallel_ioctl K" "set_keyval K" "get_keyval K" del_key
  "par_inv byte_at good fsize" par_fits "\<lambda>s n. k_kmalloc K (flash s) n \<noteq> None" page_size "- 1"
proof (unfold_locales, goal_cases)
  case (4 M s n)
  then have "good (flash s)" using par_repD(2) [OF par_invD(1)] by blast
  from kmalloc_ok [OF this, of n] show ?case by auto
next
  case (5 M s k v)
  then show ?case by (rule par_strings)
next
  case (6 M s k v)
  with par_set_fits [OF reliable_flash_axioms 6] show ?case by (simp add: par_fits_def couple_ok_def)
next
  case (7 M s k)
  from par_get_keyval [OF 7] show ?case by (auto split: option.splits)
next
  case (8 M s k)
  from par_del_key [OF 8(1), of k] show ?case by (auto split: option.splits)
qed (simp_all add: parallel_ioctl_def)

context reliable_flash
begin

lemma parallel_kv_module: "kv_module (parallel_ioctl K) (set_keyval K) (get_keyval K) del_key
    (par_inv byte_at good fsize) par_fits (\<lambda>s n. k_kmalloc K (flash s) n \<noteq> None) page_size (- 1)"
  by (rule pm.kv_module_axioms)

end

lemmas par_library_set = kv_module.kvlib_set_ok [OF reliable_flash.parallel_kv_module]
  and par_library_get = kv_module.kvlib_get_present [OF reliable_flash.parallel_kv_module]
  and par_library_get_absent = kv_module.kvlib_get_absent [OF reliable_flash.parallel_kv_module]
  and par_library_del = kv_module.kvlib_del_ok [OF reliable_flash.parallel_kv_module]

section \<open>Properties\<close>

lemma par_load_erased:
  assumes K: "reliable_flash K byte_at good fsize"
    and dev: "idx \<noteq> - 1" "midx \<noteq> - 2"
      "k_get_mtd_device K idx = Some \<lparr>mtd_size = nb * (q * ps), mtd_erasesize = q * ps, mtd_writesize = ps\<rparr>"
      "k_get_mtd_device K midx = Some mm" "mtd_writesize mm = ps" "mtd_erasesize mm \<noteq> 0"
    and dim: "0 < nb" "nb < 2147483648" "1 < q" "8 \<le> ps" "q * ps < 2147483648" "fsize = nb * q * ps" "fsize < 2 ^ 64"
    and meta: "(table_pages nb q ps + 1) div q + 1 \<le> MAX_META_BLK" "table_pages nb q ps div q + 1 \<le> nb"
    and gd: "good (flash (core d))" and reg: "\<forall>m. 0 \<le> k_register_chrdev K m"
    and er: "\<forall>p < nb * q. flash_page byte_at ps (flash (core d)) p = replicate ps 255"
  obtains e where "parallel_lkp_kv_init K idx midx d = Ret (0, e)" "par_inv byte_at good fsize Map.empty (core e)" "\<not> file_is_open e"
    "nb_blocks (core e) = nb" "pages_per_block (core e) = q" "page_size (core e) = ps" "f_timer (core e)" "w_timer (core e)"
    "HASH_SIZE (core e) = (q - 1) * nb" "hashtable (core e) = replicate ((q - 1) * nb) new_bucket" "blocks (core e) = replicate nb new_block"
    "\<not> read_only (core e)" "meta_blkordr (core e) = replicate MAX_META_BLK (- 1)" "metadata_size (core e) = table_pages nb q ps * ps"
    "meta_page_size (core e) = ps" "write_cnt (core e) = write_cnt (core d)" "is_gb (core e) = 0"
proof -
  let ?s = "(core d)\<lparr>one_lock := False, list_lock := False, erase_lock := False, meta_blkordr := replicate MAX_META_BLK (- 1)\<rparr>"
  have pre: "good (flash ?s)" "unlocked ?s" "(table_pages nb q ps + 1) div q + 1 \<le> length (meta_blkordr ?s)"
    "\<forall>p < nb * q. flash_page byte_at ps (flash ?s) p = replicate ps 255"
    using gd er meta(1) by (simp_all add: unlocked_def)
  obtain t where t: "init_config K idx midx ?s = Ret (0, t)" "par_inv byte_at good fsize Map.empty t" "nb_blocks t = nb" "pages_per_block t = q"
    "page_size t = ps" "HASH_SIZE t = (q - 1) * nb" "hashtable t = replicate ((q - 1) * nb) new_bucket" "blocks t = replicate nb new_block"
    "\<not> read_only t" "meta_blkordr t = meta_blkordr ?s" "metadata_size t = table_pages nb q ps * ps" "meta_page_size t = ps"
    "write_cnt t = write_cnt ?s"
    by (rule reliable_flash.par_init_config_blank [OF K dev dim pre(3) meta(2) pre(1,2,4)])
  let ?e = "d\<lparr>core := t\<lparr>is_gb := 0, is_flush := 0, recent_update := 0, f_timer := True, w_timer := True\<rparr>, file_is_open := False\<rparr>"
  have "parallel_lkp_kv_init K idx midx d = Ret (0, ?e)"
    using t(1) reg by (simp add: parallel_lkp_kv_init_def Let_def parallel_device_init_def init_flush_timer_def init_wear_timer_def
        hrtimer_start_def linorder_not_less)
  moreover have "par_inv byte_at good fsize Map.empty (core ?e)" using t(2) by (simp add: par_inv_def lock_simps unlocked_def)
  ultimately show ?thesis by (rule that) (use t in simp_all)
qed

lemma par_demo_device:
  obtains e where "parallel_lkp_kv_init demo_K 0 0 \<lparr>file_is_open = False, core = config0 demo_flash []\<rparr> = Ret (0, e)"
    "par_inv nandsim_byte demo_good 61440 Map.empty (core e)" "\<not> file_is_open e" "par_fits [107] [118] (core e)"
proof -
  let ?d = "\<lparr>file_is_open = False, core = config0 demo_flash []\<rparr>"
  have m: "k_get_mtd_device demo_K 0 = Some \<lparr>mtd_size = 5 * (12 * 1024), mtd_erasesize = 12 * 1024, mtd_writesize = 1024\<rparr>"
    by (rule demo_mtd)
  have tp: "table_pages 5 12 1024 = 8" by (simp add: table_pages_def SIZEOF_BUCKET_def SIZEOF_BLK_INFO_def)
  have fl: "flash_page nandsim_byte 1024 (flash (core ?d)) p = replicate 1024 255" if "p < 60" for p
    by (rule nth_equalityI) (use that in \<open>auto simp: flash_page_def nandsim_byte_def demo_flash_def config0_def\<close>)
  have reg: "\<forall>m. 0 \<le> k_register_chrdev demo_K m" by (simp add: demo_K_def heapsim_def)
  obtain e where e: "parallel_lkp_kv_init demo_K 0 0 ?d = Ret (0, e)" "par_inv nandsim_byte demo_good 61440 Map.empty (core e)" "\<not> file_is_open e"
    "nb_blocks (core e) = 5" "pages_per_block (core e) = 12" "page_size (core e) = 1024"
    "HASH_SIZE (core e) = (12 - 1) * 5" "hashtable (core e) = replicate ((12 - 1) * 5) new_bucket" "blocks (core e) = replicate 5 new_block"
    "\<not> read_only (core e)" "meta_blkordr (core e) = replicate MAX_META_BLK (- 1)" "metadata_size (core e) = table_pages 5 12 1024 * 1024"
    "meta_page_size (core e) = 1024" "write_cnt (core e) = write_cnt (core ?d)" "is_gb (core e) = 0"
    by (rule par_load_erased [OF demo_reliable _ _ m m, where d = ?d])
      (use fl tp reg in \<open>simp_all add: MAX_META_BLK_def config0_def demo_flash_def\<close>)
  have "can_write (core e)" by (rule par_demo_can_write) (use e tp in simp_all)
  then have "par_fits [107] [118] (core e)"
    using e tp par_demo_room
    by (simp add: par_fits_def couple_ok_def cstring_def PAR_KEY_MAX_def quiet_def FLUSH_THRESHOLD2_def config0_def full_count_def
        new_block_def nb_meta_def)
  with e(1-3) that show ?thesis by blast
qed

text \<open>
  Loading the module on an erased pair of partitions succeeds: the store is empty and keeps
  its invariant, no lock is held, both timers run and the device is closed.
\<close>

theorem parallel_load_empty:
  assumes "reliable_flash K byte_at good fsize"
    and "idx \<noteq> - 1" and "midx \<noteq> - 2"
    and "k_get_mtd_device K idx = Some \<lparr>mtd_size = nb * (q * ps), mtd_erasesize = q * ps, mtd_writesize = ps\<rparr>"
    and "k_get_mtd_device K midx = Some mm" and "mtd_writesize mm = ps" and "mtd_erasesize mm \<noteq> 0"
    and "0 < nb" and "nb < 2147483648" and "1 < q" and "8 \<le> ps" and "q * ps < 2147483648" and "fsize = nb * q * ps" and "fsize < 2 ^ 64"
    and "(table_pages nb q ps + 1) div q + 1 \<le> MAX_META_BLK" and "table_pages nb q ps div q + 1 \<le> nb"
    and "good (flash (core d))" and "\<forall>m. 0 \<le> k_register_chrdev K m"
    and "\<forall>p < nb * q. flash_page byte_at ps (flash (core d)) p = replicate ps 255"
  shows "\<exists>e. parallel_lkp_kv_init K idx midx d = Ret (0, e) \<and> par_inv byte_at good fsize Map.empty (core e)
    \<and> \<not> file_is_open e \<and> f_timer (core e) \<and> w_timer (core e)"
  by (rule par_load_erased [OF assms]) blast

theorem parallel_load_empty_witness:
  "\<exists>e. parallel_lkp_kv_init demo_K 0 0 \<lparr>file_is_open = False, core = config0 demo_flash []\<rparr> = Ret (0, e) \<and> f_timer (core e)"
proof -
  let ?d = "\<lparr>file_is_open = False, core = config0 demo_flash []\<rparr>"
  have m: "k_get_mtd_device demo_K 0 = Some \<lparr>mtd_size = 5 * (12 * 1024), mtd_erasesize = 12 * 1024, mtd_writesize = 1024\<rparr>"
    by (rule demo_mtd)
  have tp: "table_pages 5 12 1024 = 8" by (simp add: table_pages_def SIZEOF_BUCKET_def SIZEOF_BLK_INFO_def)
  have fl: "flash_page nandsim_byte 1024 demo_flash p = replicate 1024 255" if "p < 60" for p
    by (rule nth_equalityI) (use that in \<open>auto simp: flash_page_def nandsim_byte_def demo_flash_def\<close>)
  have "\<exists>e. parallel_lkp_kv_init demo_K 0 0 ?d = Ret (0, e) \<and> par_inv nandsim_byte demo_good 61440 Map.empty (core e)
    \<and> \<not> file_is_open e \<and> f_timer (core e) \<and> w_timer (core e)"
    by (rule parallel_load_empty [OF demo_reliable _ _ m m])
      (use fl tp in \<open>simp_all add: MAX_META_BLK_def config0_def demo_flash_def demo_K_def heapsim_def\<close>)
  then show ?thesis by blast
qed

text \<open>
  C15.  Parallel prototype, through library, device and store, when the set fits (\<open>par_fits\<close>:
  store writable and not about to become read-only, key shorter than 88 bytes, couple within a page, two
  buckets free, the couple's block already open or block 0, neither collection nor flush due) and the
  buffers of caller and library are longer than the value, the caller's also longer than the string the
  library's fresh buffer happens to hold: \<open>kvlib_set\<close> returns 0, \<open>kvlib_get\<close>
  writes the value to the caller's buffer and returns 0, \<open>kvlib_del\<close> returns 0, and reading or
  deleting the key then gives -3.
\<close>

theorem parallel_library_roundtrip:
  assumes "reliable_flash K byte_at good fsize" and "\<not> file_is_open d" and "par_inv byte_at good fsize M (core d)"
    and "par_fits k v (core d)" and "length v < length val" "length v < length (heap 2049)" and "mem_string (heap 2049) = Ret x" "length x < length val"
  shows "\<exists>e f val'. parallel_kvlib_set K k v d = Ret (0, e)
     \<and> parallel_kvlib_get K heap k val e = Ret (0, v @ 0 # drop (Suc (length v)) val, e)
     \<and> parallel_kvlib_del K k e = Ret (0, f) \<and> parallel_kvlib_get K heap k val f = Ret (- 3, val', f)
     \<and> parallel_kvlib_del K k f = Ret (- 3, f) \<and> par_inv byte_at good fsize (M(k := None)) (core f)"
proof -
  note K = assms(1)
  have ck: "cstring k" using assms(4) by (simp add: par_fits_def couple_ok_def)
  obtain t where t: "kvlib_set (parallel_ioctl K) k v d = Ret (0, d\<lparr>core := t\<rparr>)" "par_inv byte_at good fsize (M(k \<mapsto> v)) t"
    using par_library_set [OF K assms(2-4)] by blast
  let ?e = "d\<lparr>core := t\<rparr>"
  have e: "\<not> file_is_open ?e" "par_inv byte_at good fsize (M(k \<mapsto> v)) (core ?e)" using assms(2) t(2) by simp_all
  have g: "kvlib_get (parallel_ioctl K) heap (\<lambda>_. Ret 2049) k val ?e = Ret (0, v @ 0 # drop (Suc (length v)) val, ?e)"
    by (rule par_library_get [OF K e ck]) (use assms(5,6) in simp_all)
  obtain u where u: "kvlib_del (parallel_ioctl K) k ?e = Ret (0, ?e\<lparr>core := u\<rparr>)" "par_inv byte_at good fsize (M(k := None)) u"
    using par_library_del [OF K e ck] by auto
  let ?f = "?e\<lparr>core := u\<rparr>"
  have f: "\<not> file_is_open ?f" "par_inv byte_at good fsize (M(k := None)) (core ?f)" using assms(2) u(2) by simp_all
  have df: "kvlib_del (parallel_ioctl K) k ?f = Ret (- 3, ?f)"
    using par_library_del [OF K f ck] by (simp add: get_code_def)
  obtain val' where "kvlib_get (parallel_ioctl K) heap (\<lambda>_. Ret 2049) k val ?f = Ret (- 3, val', ?f)"
    using par_library_get_absent [OF K f ck, of "\<lambda>_. Ret 2049" val 2049 heap x] assms(7,8) by auto
  with t(1) g u(1) df f show ?thesis
    unfolding parallel_kvlib_set_def parallel_kvlib_get_def parallel_kvlib_del_def by blast
qed

theorem parallel_library_roundtrip_witness:
  "\<exists>d e f. parallel_lkp_kv_init demo_K 0 0 \<lparr>file_is_open = False, core = config0 demo_flash []\<rparr> = Ret (0, d)
     \<and> parallel_kvlib_set demo_K [107] [118] d = Ret (0, e)
     \<and> parallel_kvlib_get demo_K (\<lambda>n. replicate n 0) [107] (replicate 8 1) e = Ret (0, [118, 0, 1, 1, 1, 1, 1, 1], e)
     \<and> parallel_kvlib_del demo_K [107] e = Ret (0, f) \<and> parallel_kvlib_del demo_K [107] f = Ret (- 3, f)"
proof -
  obtain d where d: "parallel_lkp_kv_init demo_K 0 0 \<lparr>file_is_open = False, core = config0 demo_flash []\<rparr> = Ret (0, d)"
    "par_inv nandsim_byte demo_good 61440 Map.empty (core d)" "\<not> file_is_open d" "par_fits [107] [118] (core d)"
    by (rule par_demo_device)
  have h: "mem_string (replicate 2049 (0 :: byte)) = Ret []" by (simp add: mem_string_def)
  have v: "[118] @ 0 # drop (Suc (length [118 :: byte])) (replicate 8 1) = ([118, 0, 1, 1, 1, 1, 1, 1] :: byte list)"
    by (simp add: numeral_eq_Suc)
  from parallel_library_roundtrip [OF demo_reliable d(3,2,4), of "replicate 8 1" "\<lambda>n. replicate n 0" "[]"] d(1) h v
  show ?thesis by auto
qed

end
