(* ===== verification/ParallelImage.thy ===== *)
theory ParallelImage
  imports ParallelFlush
begin

text \<open>
  Writing the metadata of the third prototype: the header page of a metadata block, and the pages
  of the two tables, \<open>pages_per_block - 1\<close> of them behind each header.
\<close>

section \<open>The header of a metadata block\<close>

definition meta_header :: "nat \<Rightarrow> nat \<Rightarrow> byte list" where
  "meta_header ps r = chars (META_HDR_BASE @ fmt_d (int r)) @ replicate (ps - (7 + length (fmt_d (int r)))) 0"

lemma length_chars [simp]: "length (chars cs) = length cs" by (simp add: chars_def)

lemma chars_append: "chars (a @ b) = chars a @ chars b" by (simp add: chars_def)

lemma length_base [simp]: "length META_HDR_BASE = 7" by (simp add: META_HDR_BASE_def)

lemma length_rank: "r < 100 \<Longrightarrow> length (fmt_d (int r)) \<le> 2 \<and> 0 < length (fmt_d (int r))"
  using length_dec_digits [of r 2] by (simp add: fmt_d_def)

lemma length_meta_header [simp]: "r < 100 \<Longrightarrow> 9 \<le> ps \<Longrightarrow> length (meta_header ps r) = ps"
  using length_rank [of r] by (simp add: meta_header_def)

definition used_blk :: "blk_info \<Rightarrow> blk_info" where
  "used_blk b = b\<lparr>current_page_offset := current_page_offset b + 1, state := BLK_USED\<rparr>"

lemma header_buffer:
  assumes r: "r < 100" and ps: "16 \<le> ps" and bf: "ps \<le> length bf"
  obtains buf where "obind (mem_store (replicate ps 0 @ drop ps bf) 0 (chars META_HDR_BASE)) (\<lambda>buf.
      mem_store buf 7 (chars (take 9 (fmt_d (int r))) @ [0])) = Ret buf" "take ps buf = meta_header ps r" "ps \<le> length buf"
proof -
  let ?d = "fmt_d (int r)" and ?t = "drop ps bf"
  have l: "length ?d \<le> 2" using length_rank [OF r] by simp
  have t9: "take 9 ?d = ?d" using l by simp
  have s1: "mem_store (replicate ps 0 @ ?t) 0 (chars META_HDR_BASE) = Ret (chars META_HDR_BASE @ replicate (ps - 7) 0 @ ?t)"
    using ps by (simp add: mem_store_def)
  have s2: "mem_store (chars META_HDR_BASE @ replicate (ps - 7) 0 @ ?t) 7 (chars ?d @ [0])
      = Ret (chars META_HDR_BASE @ chars ?d @ 0 # replicate (ps - (8 + length ?d)) 0 @ ?t)"
    using ps l by (simp add: mem_store_def)
  have z: "0 # replicate (ps - (8 + length ?d)) (0 :: byte) = replicate (ps - (7 + length ?d)) 0"
    using ps l by (simp add: Suc_diff_Suc flip: replicate_Suc)
  have "take ps (chars META_HDR_BASE @ chars ?d @ 0 # replicate (ps - (8 + length ?d)) 0 @ ?t)
     = take ps (meta_header ps r @ ?t)"
    unfolding meta_header_def z [symmetric] by (simp add: chars_append)
  also have "\<dots> = meta_header ps r" using r ps by simp
  finally show ?thesis
    using that [of "chars META_HDR_BASE @ chars ?d @ 0 # replicate (ps - (8 + length ?d)) 0 @ ?t"] s1 s2 t9 ps l by simp
qed

context reliable_flash
begin

lemma par_write_meta_hdr:
  assumes g: "par_geometry s fsize" and gd: "good (flash s)" and ro: "\<not> read_only s" "\<not> meta_read_only s"
    and lk: "\<not> one_lock s" "\<not> list_lock s"
    and i: "i < nb_blocks s" "length (blocks s) = nb_blocks s" and r: "r < 100" and ps: "16 \<le> page_size s"
    and er: "flash_page byte_at (page_size s) (flash s) (i * pages_per_block s) = replicate (page_size s) 255"
    and nro: "\<not> is_read_only (s\<lparr>blocks := (blocks s)[i := next_blk (blocks s ! i)]\<rparr>)"
  obtains m where "good m"
    "\<And>p. flash_page byte_at (page_size s) m p
      = (if p = i * pages_per_block s then meta_header (page_size s) r else flash_page byte_at (page_size s) (flash s) p)"
    "write_hdr K (int (i * pages_per_block s)) NAND_META_DATA (int r) s = Ret (0, par_upd i (used_blk (blocks s ! i)) (hashtable s) m False s)"
proof -
  note G = par_geometryD [OF g]
  obtain bf where bf: "k_kmalloc K (flash s) (meta_page_size s) = Some bf" "meta_page_size s \<le> length bf" using kmalloc_ok [OF gd] by blast
  obtain buf where buf: "obind (mem_store (replicate (page_size s) 0 @ drop (page_size s) bf) 0 (chars META_HDR_BASE)) (\<lambda>buf.
      mem_store buf 7 (chars (take 9 (fmt_d (int r))) @ [0])) = Ret buf" "take (page_size s) buf = meta_header (page_size s) r" "page_size s \<le> length buf"
    using header_buffer [OF r ps] bf(2) G(5) by metis
  have j: "0 < pages_per_block s" using G(2) by simp
  have er': "flash_page byte_at (page_size s) (flash s) (i * pages_per_block s + 0) = replicate (page_size s) 255" using er by simp
  obtain m ro' where m: "good m"
    "\<And>p. flash_page byte_at (page_size s) m p
        = (if p = i * pages_per_block s + 0 then take (page_size s) buf else flash_page byte_at (page_size s) (flash s) p)"
    "ro' \<longleftrightarrow> is_read_only (par_upd i (next_blk (blocks s ! i)) (hashtable s) m ro' s)"
    "write_page K (int (i * pages_per_block s + 0)) buf s
       = Ret (if ro' then - 1 else 0, par_upd i (next_blk (blocks s ! i)) (hashtable s) m ro' s)"
    using par_write_page [OF g gd ro(1) lk i j buf(3) er'] by blast
  let ?t = "par_upd i (next_blk (blocks s ! i)) (hashtable s) m False s"
  have wr: "write_page K (int (i * pages_per_block s)) buf s = Ret (0, ?t)" using m(3,4) nro by (simp add: is_read_only_par_upd)
  have up: "upd_block_of (int (i * pages_per_block s)) (\<lambda>b. b\<lparr>state := BLK_USED\<rparr>) ?t = Ret (par_upd i (used_blk (blocks s ! i)) (hashtable s) m False s)"
  proof -
    have "c_div (int (i * pages_per_block s)) (pages_per_block s) = int i" using j by (simp only: c_div_int) simp
    then show ?thesis
      using j i by (cases s) (simp add: upd_block_of_def upd_block_def par_upd_def next_blk_def used_blk_def)
  qed
  have st: "obind (mem_store (replicate (page_size s) 0 @ drop (page_size s) bf) 0 (chars META_HDR_BASE)) (\<lambda>buf.
      obind (mem_store buf 7 (chars (take 9 (fmt_d (int r))) @ [0])) f) = f buf" for f :: "byte list \<Rightarrow> (int \<times> 'm lkp_kv) outcome"
    using arg_cong [OF buf(1), of "\<lambda>x. obind x f"] by (simp add: obind_assoc)
  have "write_hdr K (int (i * pages_per_block s)) NAND_META_DATA (int r) s = Ret (0, par_upd i (used_blk (blocks s ! i)) (hashtable s) m False s)"
    using wr up bf(1) ro(2) G(5) st by (simp add: write_hdr_def kzalloc_def NAND_DATA_def NAND_META_DATA_def)
  with m(1,2) buf(2) that show ?thesis by simp
qed

end

section \<open>The blocks while they are filled\<close>

text \<open>Behind its header block number \<open>r\<close> takes the pages from \<open>r * (q - 1)\<close> on.\<close>

definition meta_off :: "nat \<Rightarrow> nat \<Rightarrow> nat \<Rightarrow> nat" where
  "meta_off q g r = (if g \<le> r * (q - 1) then 0 else min q (1 + (g - r * (q - 1))))"

definition rank :: "nat list \<Rightarrow> nat \<Rightarrow> nat" where
  "rank ws i = length (takeWhile (\<lambda>x. x \<noteq> i) ws)"

lemma rank_nth [simp]: "distinct ws \<Longrightarrow> r < length ws \<Longrightarrow> rank ws (ws ! r) = r"
  unfolding rank_def by (subst takeWhile_eq_take_P_nth [of r]) (auto simp: nth_eq_iff_index_eq)

definition filled :: "'m lkp_kv \<Rightarrow> nat list \<Rightarrow> nat \<Rightarrow> blk_info list" where
  "filled s ws g = map (\<lambda>i. if i \<in> set ws then (blocks s ! i)\<lparr>current_page_offset := int (meta_off (pages_per_block s) g (rank ws i))\<rparr>
     else blocks s ! i) [0..<nb_blocks s]"

lemma length_filled [simp]: "length (filled s ws g) = nb_blocks s" by (simp add: filled_def)

lemma meta_off_next:
  assumes "1 < q" and g: "g = r * (q - 1) + j" "j < q - 1"
  shows "meta_off q (Suc g) r = j + 2" "meta_off q g r = (if j = 0 then 0 else j + 1)"
    "r' \<noteq> r \<Longrightarrow> meta_off q (Suc g) r' = meta_off q g r'"
proof -
  show "meta_off q (Suc g) r = j + 2" "meta_off q g r = (if j = 0 then 0 else j + 1)" using assms by (auto simp: meta_off_def)
  assume ne: "r' \<noteq> r"
  consider "Suc r' \<le> r" | "Suc r \<le> r'" using ne by linarith
  then show "meta_off q (Suc g) r' = meta_off q g r'"
  proof cases
    case 1
    then have "Suc r' * (q - 1) \<le> r * (q - 1)" by (rule mult_le_mono1)
    then have "r' * (q - 1) + (q - 1) \<le> g" using g(1) by simp
    with assms(1) show ?thesis by (auto simp: meta_off_def)
  next
    case 2
    then have "Suc r * (q - 1) \<le> r' * (q - 1)" by (rule mult_le_mono1)
    then have "g < r' * (q - 1)" using g by simp
    then show ?thesis by (simp add: meta_off_def)
  qed
qed

lemma filled_next:
  assumes q: "1 < pages_per_block s" and ws: "distinct ws" "r < length ws" and w: "ws ! r < nb_blocks s"
    and g: "g = r * (pages_per_block s - 1) + j" "j < pages_per_block s - 1"
  shows "filled s ws (Suc g) = (filled s ws g)[ws ! r := (filled s ws g ! (ws ! r))\<lparr>current_page_offset := int (j + 2)\<rparr>]"
    "current_page_offset (filled s ws g ! (ws ! r)) = (if j = 0 then 0 else int j + 1)"
    "state (filled s ws g ! (ws ! r)) = state (blocks s ! (ws ! r))"
proof -
  note o' = meta_off_next [OF q g]
  show "filled s ws (Suc g) = (filled s ws g)[ws ! r := (filled s ws g ! (ws ! r))\<lparr>current_page_offset := int (j + 2)\<rparr>]"
  proof (rule nth_equalityI)
    fix i assume i: "i < length (filled s ws (Suc g))"
    show "filled s ws (Suc g) ! i = (filled s ws g)[ws ! r := (filled s ws g ! (ws ! r))\<lparr>current_page_offset := int (j + 2)\<rparr>] ! i"
    proof (cases "i = ws ! r")
      case True
      with i w ws o'(1) show ?thesis by (simp add: filled_def)
    next
      case False
      have "rank ws i \<noteq> r" if m: "i \<in> set ws"
      proof -
        obtain r' where "i = ws ! r'" "r' < length ws" using m by (metis in_set_conv_nth)
        with False ws show ?thesis by auto
      qed
      with False i w o'(3) show ?thesis by (simp add: filled_def)
    qed
  qed simp
  show "current_page_offset (filled s ws g ! (ws ! r)) = (if j = 0 then 0 else int j + 1)"
    "state (filled s ws g ! (ws ! r)) = state (blocks s ! (ws ! r))"
    using w ws o'(2) by (simp_all add: filled_def)
qed

section \<open>The pages\<close>

text \<open>
  Page \<open>g\<close> of the tables as it is when it is written: the offsets of the metadata blocks in the
  block table count the pages written so far.
\<close>

definition table_page :: "'m heap_kernel \<Rightarrow> 'm lkp_kv \<Rightarrow> nat list \<Rightarrow> nat \<Rightarrow> byte list" where
  "table_page K s ws g =
     (let ps = page_size s; blk_pgs = block_info_size s div ps in
      if g < blk_pgs then take ps (drop (g * ps) (blocks_image K (s\<lparr>blocks := filled s ws g\<rparr>)))
      else take ps (drop ((g - blk_pgs) * ps) (hash_image K s)))"

text \<open>Page \<open>j\<close> of metadata block \<open>r\<close> when \<open>g\<close> pages of the tables are written.\<close>

definition meta_page_at :: "'m heap_kernel \<Rightarrow> 'm lkp_kv \<Rightarrow> nat list \<Rightarrow> nat \<Rightarrow> nat \<Rightarrow> nat \<Rightarrow> byte list" where
  "meta_page_at K s ws g r j =
     (let q' = pages_per_block s - 1; ps = page_size s in
      if g \<le> r * q' then replicate ps 255 else if j = 0 then meta_header ps r
      else if r * q' + (j - 1) < g then table_page K s ws (r * q' + (j - 1)) else replicate ps 255)"

definition meta_pages :: "('m \<Rightarrow> nat \<Rightarrow> byte) \<Rightarrow> 'm heap_kernel \<Rightarrow> 'm lkp_kv \<Rightarrow> nat list \<Rightarrow> nat \<Rightarrow> 'm \<Rightarrow> bool" where
  "meta_pages byte_at K s ws g m \<longleftrightarrow>
     (\<forall>r < length ws. \<forall>j < pages_per_block s. flash_page byte_at (page_size s) m (ws ! r * pages_per_block s + j) = meta_page_at K s ws g r j)
     \<and> (\<forall>i j. i \<notin> set ws \<longrightarrow> j < pages_per_block s \<longrightarrow>
          flash_page byte_at (page_size s) m (i * pages_per_block s + j) = flash_page byte_at (page_size s) (flash s) (i * pages_per_block s + j))"

lemma other_block_le:
  assumes "r' \<noteq> (r::nat)" "j < d"
  shows "r * d + j < r' * d \<or> Suc (r' * d + d) \<le> Suc (r * d + j)"
proof -
  consider "Suc r' \<le> r" | "Suc r \<le> r'" using assms(1) by linarith
  then show ?thesis
  proof cases
    case 1
    then have "Suc r' * d \<le> r * d" by (rule mult_le_mono1)
    then show ?thesis by simp
  next
    case 2
    then have "Suc r * d \<le> r' * d" by (rule mult_le_mono1)
    then show ?thesis using assms(2) by simp
  qed
qed

lemma meta_page_next:
  assumes "1 < pages_per_block s" and g: "g = r * (pages_per_block s - 1) + j" "j < pages_per_block s - 1" and j': "j' < pages_per_block s"
  shows "meta_page_at K s ws (Suc g) r' j' =
     (if r' = r \<and> j' = 0 then meta_header (page_size s) r else if r' = r \<and> j' = Suc j then table_page K s ws g else meta_page_at K s ws g r' j')"
proof (cases "r' = r")
  case True
  have "meta_page_at K s ws (Suc g) r j' = (if j' = 0 then meta_header (page_size s) r
     else if j' \<le> Suc j then table_page K s ws (r * (pages_per_block s - 1) + (j' - 1)) else replicate (page_size s) 255)"
    using g by (auto simp: meta_page_at_def Let_def)
  moreover have "meta_page_at K s ws g r j' = (if j = 0 then replicate (page_size s) 255 else if j' = 0 then meta_header (page_size s) r
     else if j' \<le> j then table_page K s ws (r * (pages_per_block s - 1) + (j' - 1)) else replicate (page_size s) 255)"
    using g by (auto simp: meta_page_at_def Let_def)
  ultimately show ?thesis using True g by auto
next
  case False
  then have "g < r' * (pages_per_block s - 1) \<or> r' * (pages_per_block s - 1) + (pages_per_block s - 1) \<le> g"
    using other_block_le [OF False g(2)] g(1) by auto
  with False j' assms(1) show ?thesis by (auto simp: meta_page_at_def Let_def)
qed

lemma meta_page_now:
  assumes "g = r * (pages_per_block s - 1) + j" "j < pages_per_block s - 1"
  shows "meta_page_at K s ws g r (Suc j) = replicate (page_size s) 255"
    "meta_page_at K s ws g r 0 = (if j = 0 then replicate (page_size s) 255 else meta_header (page_size s) r)"
  using assms by (auto simp: meta_page_at_def Let_def)

text \<open>What the loop over the pages needs: the blocks \<open>ws\<close> are marked and blank, and the store stays writable.\<close>

definition flush_setup :: "'m lkp_kv \<Rightarrow> nat \<Rightarrow> nat list \<Rightarrow> bool" where
  "flush_setup s fsize ws \<longleftrightarrow> par_geometry s fsize \<and> length (blocks s) = nb_blocks s \<and> \<not> read_only s \<and> \<not> meta_read_only s
     \<and> \<not> one_lock s \<and> \<not> list_lock s \<and> 16 \<le> page_size s
     \<and> distinct ws \<and> length ws \<le> 100 \<and> take (length ws) (meta_blkordr s) = map int ws
     \<and> (\<forall>w \<in> set ws. w < nb_blocks s \<and> state (blocks s ! w) = BLK_USED \<and> current_page_offset (blocks s ! w) = 0)
     \<and> block_info_size s mod page_size s = 0 \<and> hashtable_size s mod page_size s = 0
     \<and> SIZEOF_BLK_INFO * nb_blocks s \<le> block_info_size s \<and> SIZEOF_BUCKET * length (hashtable s) \<le> hashtable_size s
     \<and> block_info_size s div page_size s + hashtable_size s div page_size s \<le> length ws * (pages_per_block s - 1)
     \<and> int (full_count s) + int (length ws) < int (nb_blocks s) - (int (nb_meta 0 s) - 1)"

lemma full_count_bound:
  assumes "length bs = length (blocks s)" "\<forall>i < length bs. i \<notin> set ws \<longrightarrow> current_page_offset (bs ! i) = current_page_offset (blocks s ! i)"
  shows "full_count (s\<lparr>blocks := bs\<rparr>) \<le> full_count s + length ws"
proof -
  let ?P = "\<lambda>b. int (pages_per_block s) \<le> current_page_offset b"
  have "{i. i < length bs \<and> ?P (bs ! i)} \<subseteq> {i. i < length (blocks s) \<and> ?P (blocks s ! i)} \<union> set ws"
    using assms by auto
  then have "card {i. i < length bs \<and> ?P (bs ! i)} \<le> card ({i. i < length (blocks s) \<and> ?P (blocks s ! i)} \<union> set ws)"
    by (intro card_mono) auto
  also have "\<dots> \<le> card {i. i < length (blocks s) \<and> ?P (blocks s ! i)} + length ws"
    using card_Un_le [of "{i. i < length (blocks s) \<and> ?P (blocks s ! i)}" "set ws"] card_length [of ws] by linarith
  finally show ?thesis by (simp add: full_count_def length_filter_conv_card)
qed

lemma flush_setup_writable:
  assumes "flush_setup s fsize ws" "length bs = nb_blocks s"
    and "\<forall>i < length bs. i \<notin> set ws \<longrightarrow> current_page_offset (bs ! i) = current_page_offset (blocks s ! i)"
  shows "\<not> is_read_only (s\<lparr>blocks := bs\<rparr>)"
proof -
  have "full_count (s\<lparr>blocks := bs\<rparr>) \<le> full_count s + length ws" using assms by (intro full_count_bound) (simp_all add: flush_setup_def)
  then show ?thesis using assms(1) by (simp add: is_read_only_count flush_setup_def nb_meta_def)
qed

definition flushing :: "'m lkp_kv \<Rightarrow> nat list \<Rightarrow> nat \<Rightarrow> 'm \<Rightarrow> 'm lkp_kv" where
  "flushing s ws g m = s\<lparr>blocks := filled s ws g, flash := m\<rparr>"

text \<open>The number of headers written, \<open>jack_ofs\<close> in the code.\<close>

definition headers :: "nat \<Rightarrow> nat \<Rightarrow> nat" where
  "headers q g = (if g = 0 then 0 else (g - 1) div (q - 1) + 1)"

lemma headers_at:
  assumes "1 < q" "g = r * (q - 1) + j" "j < q - 1"
  shows "headers q g = (if j = 0 then r else r + 1)" "headers q (Suc g) = r + 1" "g div (q - 1) = r" "g mod (q - 1) = j"
proof -
  show d: "g div (q - 1) = r" "g mod (q - 1) = j" using assms by simp_all
  then show "headers q (Suc g) = r + 1" by (simp add: headers_def)
  show "headers q g = (if j = 0 then r else r + 1)"
  proof (cases "j = 0")
    case True
    show ?thesis
    proof (cases r)
      case (Suc r')
      then have "g - 1 = r' * (q - 1) + (q - 2)" "q - 2 < q - 1" using assms True by auto
      then have "(g - 1) div (q - 1) = r'" using div_mult_lt [of "q - 2" "q - 1" r'] by simp
      then show ?thesis using True Suc assms by (simp add: headers_def)
    qed (use assms True in \<open>simp add: headers_def\<close>)
  next
    case False
    then have "g - 1 = r * (q - 1) + (j - 1)" "j - 1 < q - 1" using assms by auto
    then have "(g - 1) div (q - 1) = r" using div_mult_lt [of "j - 1" "q - 1" r] by simp
    then show ?thesis using False assms by (simp add: headers_def)
  qed
qed

lemma length_blocks_image:
  "SIZEOF_BLK_INFO * length (blocks s) \<le> block_info_size s \<Longrightarrow> length (blocks_image K s) = block_info_size s"
  by (simp add: blocks_image_def length_concat comp_def case_prod_unfold sum_list_triv)

lemma length_hash_image:
  "SIZEOF_BUCKET * length (hashtable s) \<le> hashtable_size s \<Longrightarrow> length (hash_image K s) = hashtable_size s"
  by (simp add: hash_image_def length_concat comp_def case_prod_unfold sum_list_triv)

lemma image_fields [simp]:
  "blocks_image K (flushing s ws g m) = blocks_image K (s\<lparr>blocks := filled s ws g\<rparr>)" "hash_image K (flushing s ws g m) = hash_image K s"
  by (simp_all add: flushing_def blocks_image_def hash_image_def)

lemma page_slice:
  assumes "length mem = n * ps" "g < n"
  shows "mem_slice mem (int (g * ps)) (int ps) = Ret (take ps (drop (g * ps) mem))" "length (take ps (drop (g * ps) mem)) = ps"
proof -
  have "Suc g * ps \<le> n * ps" using assms(2) by (intro mult_le_mono1) simp
  then have le: "g * ps + ps \<le> length mem" using assms(1) by simp
  then show "mem_slice mem (int (g * ps)) (int ps) = Ret (take ps (drop (g * ps) mem))" by (rule mem_slice_int)
  show "length (take ps (drop (g * ps) mem)) = ps" using le by simp
qed

lemma flush_buffer:
  assumes st: "flush_setup s fsize ws" and g: "g < block_info_size s div page_size s + hashtable_size s div page_size s"
  shows "(if int g \<le> int (block_info_size s div page_size s) - 1
       then mem_slice (blocks_image K (flushing s ws g m)) (int (g * page_size s)) (int (page_size s))
       else mem_slice (hash_image K (flushing s ws g m)) (int ((g - block_info_size s div page_size s) * page_size s)) (int (page_size s)))
     = Ret (table_page K s ws g)" "length (table_page K s ws g) = page_size s"
proof -
  let ?b = "block_info_size s div page_size s"
  have b: "length (blocks_image K (s\<lparr>blocks := filled s ws g\<rparr>)) = ?b * page_size s"
    using st by (subst length_blocks_image) (auto simp: flush_setup_def)
  have h: "length (hash_image K s) = hashtable_size s div page_size s * page_size s"
    using st by (subst length_hash_image) (auto simp: flush_setup_def)
  note pb = page_slice [OF b, of g] and ph = page_slice [OF h, of "g - ?b"]
  show "(if int g \<le> int ?b - 1
       then mem_slice (blocks_image K (flushing s ws g m)) (int (g * page_size s)) (int (page_size s))
       else mem_slice (hash_image K (flushing s ws g m)) (int ((g - ?b) * page_size s)) (int (page_size s)))
     = Ret (table_page K s ws g)" "length (table_page K s ws g) = page_size s"
    using pb ph g by (auto simp: table_page_def Let_def simp del: of_nat_mult)
qed

lemma flush_setupD:
  assumes "flush_setup s fsize ws"
  shows "par_geometry s fsize" "length (blocks s) = nb_blocks s" "\<not> read_only s" "\<not> meta_read_only s" "\<not> one_lock s" "\<not> list_lock s"
    "16 \<le> page_size s" "distinct ws" "length ws \<le> 100" "take (length ws) (meta_blkordr s) = map int ws"
    "\<And>w. w \<in> set ws \<Longrightarrow> w < nb_blocks s" "\<And>w. w \<in> set ws \<Longrightarrow> state (blocks s ! w) = BLK_USED"
    "\<And>w. w \<in> set ws \<Longrightarrow> current_page_offset (blocks s ! w) = 0"
    "block_info_size s div page_size s + hashtable_size s div page_size s \<le> length ws * (pages_per_block s - 1)"
  using assms by (auto simp: flush_setup_def)

lemma order_nth:
  assumes "flush_setup s fsize ws" "r < length ws"
  shows "arr_get (meta_blkordr s) (int r) = Ret (int (ws ! r))"
proof -
  have "length (take (length ws) (meta_blkordr s)) = length ws" using flush_setupD(10) [OF assms(1)] by simp
  then have "length ws \<le> length (meta_blkordr s)" by simp
  moreover have "meta_blkordr s ! r = int (ws ! r)" using flush_setupD(10) [OF assms(1)] assms(2) by (metis nth_map nth_take)
  ultimately show ?thesis using assms(2) by simp
qed

lemma filled_upd_writable:
  assumes "flush_setup s fsize ws" "w \<in> set ws"
  shows "\<not> is_read_only (s\<lparr>blocks := (filled s ws g)[w := b]\<rparr>)"
proof (rule flush_setup_writable [OF assms(1)])
  show "\<forall>i < length ((filled s ws g)[w := b]). i \<notin> set ws \<longrightarrow> current_page_offset ((filled s ws g)[w := b] ! i) = current_page_offset (blocks s ! i)"
  proof (intro allI impI)
    fix i assume i: "i < length ((filled s ws g)[w := b])" "i \<notin> set ws"
    then have "w \<noteq> i" using assms(2) by auto
    with i show "current_page_offset ((filled s ws g)[w := b] ! i) = current_page_offset (blocks s ! i)" by (simp add: filled_def)
  qed
qed simp

text \<open>The header, when page \<open>g\<close> is the first of its block.\<close>

context reliable_flash
begin

lemma flush_header:
  assumes st: "flush_setup s fsize ws" and gd: "good m" and pg: "meta_pages byte_at K s ws g m"
    and g: "g = r * (pages_per_block s - 1) + j" "j < pages_per_block s - 1" "r < length ws"
  obtains m' b where
    "(if j = 0 then obind (write_hdr K (int (ws ! r) * int (pages_per_block s)) NAND_META_DATA (int r) (flushing s ws g m)) (\<lambda>(ret, s). Ret (ret, Suc r, s))
      else Ret (0, Suc r, flushing s ws g m)) = Ret (0, Suc r, s\<lparr>blocks := (filled s ws g)[ws ! r := b], flash := m'\<rparr>)"
    "b = (filled s ws g ! (ws ! r))\<lparr>current_page_offset := int (Suc j)\<rparr>" "good m'"
    "\<And>p. flash_page byte_at (page_size s) m' p
       = (if p = ws ! r * pages_per_block s then meta_header (page_size s) r else flash_page byte_at (page_size s) m p)"
proof -
  note S = flush_setupD [OF st] and G = par_geometryD [OF flush_setupD(1) [OF st]]
  let ?w = "ws ! r" and ?u = "flushing s ws g m"
  have w: "?w \<in> set ws" "?w < nb_blocks s" using g(3) S(11) [of ?w] by simp_all
  note f = filled_next [OF G(2) S(8) g(3) w(2) g(1,2)]
  have p0: "flash_page byte_at (page_size s) m (?w * pages_per_block s) = meta_page_at K s ws g r 0"
    using pg [unfolded meta_pages_def, THEN conjunct1, rule_format, OF g(3), of 0] G(2) by simp
  show ?thesis
  proof (cases "j = 0")
    case True
    have u: "par_geometry ?u fsize" "good (flash ?u)" "\<not> read_only ?u" "\<not> meta_read_only ?u" "\<not> one_lock ?u" "\<not> list_lock ?u"
      "?w < nb_blocks ?u" "length (blocks ?u) = nb_blocks ?u" "r < 100" "16 \<le> page_size ?u"
      using S gd w g(3) by (simp_all add: flushing_def)
    have er: "flash_page byte_at (page_size ?u) (flash ?u) (?w * pages_per_block ?u) = replicate (page_size ?u) 255"
      using p0 meta_page_now(2) [OF g(1,2)] True by (simp add: flushing_def)
    have "\<not> is_read_only (s\<lparr>blocks := (filled s ws g)[?w := next_blk (filled s ws g ! ?w)]\<rparr>)" by (rule filled_upd_writable [OF st w(1)])
    then have nro: "\<not> is_read_only (?u\<lparr>blocks := (blocks ?u)[?w := next_blk (blocks ?u ! ?w)]\<rparr>)"
      by (simp add: is_read_only_def nb_meta_def flushing_def)
    obtain m' where m': "good m'"
      "\<And>p. flash_page byte_at (page_size ?u) m' p
      = (if p = ?w * pages_per_block ?u then meta_header (page_size ?u) r else flash_page byte_at (page_size ?u) (flash ?u) p)"
      "write_hdr K (int (?w * pages_per_block ?u)) NAND_META_DATA (int r) ?u = Ret (0, par_upd ?w (used_blk (blocks ?u ! ?w)) (hashtable ?u) m' False ?u)"
      using par_write_meta_hdr [OF u er nro] by blast
    let ?b = "(filled s ws g ! ?w)\<lparr>current_page_offset := int (Suc j)\<rparr>"
    have "used_blk (filled s ws g ! ?w) = ?b"
      using f(2,3) S(12) [OF w(1)] True by (cases "filled s ws g ! ?w") (simp add: used_blk_def)
    then have "par_upd ?w (used_blk (blocks ?u ! ?w)) (hashtable ?u) m' False ?u = s\<lparr>blocks := (filled s ws g)[?w := ?b], flash := m'\<rparr>"
      using S(3) by (cases s) (simp add: par_upd_def flushing_def)
    with m' True that [of m' ?b] show ?thesis by (simp add: flushing_def)
  next
    case False
    let ?b = "(filled s ws g ! ?w)\<lparr>current_page_offset := int (Suc j)\<rparr>"
    have "?b = filled s ws g ! ?w" using f(2) False by (cases "filled s ws g ! ?w") simp
    then have "(filled s ws g)[?w := ?b] = filled s ws g" by simp
    then have "?u = s\<lparr>blocks := (filled s ws g)[?w := ?b], flash := m\<rparr>" by (simp add: flushing_def)
    with that [of m ?b] False gd p0 meta_page_now(2) [OF g(1,2)] show ?thesis by auto
  qed
qed

lemma flush_page_step:
  assumes st: "flush_setup s fsize ws" and gd: "good m" and pg: "meta_pages byte_at K s ws g m"
    and g: "g < block_info_size s div page_size s + hashtable_size s div page_size s"
  obtains m' where "flush_page K (block_info_size s div page_size s) g (0, headers (pages_per_block s) g, flushing s ws g m)
     = Ret (0, headers (pages_per_block s) (Suc g), flushing s ws (Suc g) m')" "good m'" "meta_pages byte_at K s ws (Suc g) m'"
proof -
  note S = flush_setupD [OF st] and G = par_geometryD [OF flush_setupD(1) [OF st]]
  define q where "q = pages_per_block s"
  define r where "r = g div (q - 1)"
  define j where "j = g mod (q - 1)"
  have q: "1 < q" using G(2) q_def by simp
  have gr: "g = r * (q - 1) + j" "j < q - 1"
    using q div_mult_mod_eq [of g "q - 1", symmetric] by (simp_all only: r_def j_def) simp_all
  have rl: "r < length ws"
  proof -
    have "r * (q - 1) \<le> g" unfolding gr(1) by (rule le_add1)
    also have "g < length ws * (q - 1)" unfolding q_def by (rule less_le_trans [OF g S(14)])
    finally show ?thesis by simp
  qed
  note H = headers_at [OF q gr] and gr' = gr [unfolded q_def]
  let ?w = "ws ! r" and ?u = "flushing s ws g m"
  have w: "?w \<in> set ws" "?w < nb_blocks s" using rl S(11) [of ?w] by simp_all
  note f = filled_next [OF G(2) S(8) rl w(2) gr']
  obtain m1 b where h: "(if j = 0 then obind (write_hdr K (int ?w * int (pages_per_block s)) NAND_META_DATA (int r) ?u) (\<lambda>(ret, s). Ret (ret, Suc r, s))
      else Ret (0, Suc r, ?u)) = Ret (0, Suc r, s\<lparr>blocks := (filled s ws g)[?w := b], flash := m1\<rparr>)"
    "b = (filled s ws g ! ?w)\<lparr>current_page_offset := int (Suc j)\<rparr>" "good m1"
    "\<And>p. flash_page byte_at (page_size s) m1 p = (if p = ?w * pages_per_block s then meta_header (page_size s) r else flash_page byte_at (page_size s) m p)"
    using flush_header [OF st gd pg gr' rl] by blast
  let ?v = "s\<lparr>blocks := (filled s ws g)[?w := b], flash := m1\<rparr>"
  have jl: "Suc j < pages_per_block s" using gr'(2) by simp
  have er: "flash_page byte_at (page_size s) m1 (?w * pages_per_block s + Suc j) = replicate (page_size s) 255"
    using h(4) [of "?w * pages_per_block s + Suc j"] pg [unfolded meta_pages_def, THEN conjunct1, rule_format, OF rl jl] meta_page_now(1) [OF gr'] by simp
  note tp = flush_buffer(1) [OF st g, where m = m and K = K] flush_buffer(2) [OF st g, where K = K]
  have v: "par_geometry ?v fsize" "good (flash ?v)" "\<not> read_only ?v" "\<not> one_lock ?v" "\<not> list_lock ?v" "?w < nb_blocks ?v"
    "length (blocks ?v) = nb_blocks ?v" "Suc j < pages_per_block ?v" "page_size ?v \<le> length (table_page K s ws g)"
    "flash_page byte_at (page_size ?v) (flash ?v) (?w * pages_per_block ?v + Suc j) = replicate (page_size ?v) 255"
    using S h(3) w jl er tp(2) by simp_all
  obtain m2 ro where m2: "good m2"
    "\<And>p. flash_page byte_at (page_size ?v) m2 p = (if p = ?w * pages_per_block ?v + Suc j then take (page_size ?v) (table_page K s ws g)
        else flash_page byte_at (page_size ?v) (flash ?v) p)"
    "ro \<longleftrightarrow> is_read_only (par_upd ?w (next_blk (blocks ?v ! ?w)) (hashtable ?v) m2 ro ?v)"
    "write_page K (int (?w * pages_per_block ?v + Suc j)) (table_page K s ws g) ?v
       = Ret (if ro then - 1 else 0, par_upd ?w (next_blk (blocks ?v ! ?w)) (hashtable ?v) m2 ro ?v)"
    using par_write_page [OF v] by blast
  have nx: "next_blk (blocks ?v ! ?w) = (filled s ws g ! ?w)\<lparr>current_page_offset := int (j + 2)\<rparr>" using w(2) h(2) by (simp add: next_blk_def)
  have "\<not> is_read_only (s\<lparr>blocks := (filled s ws g)[?w := next_blk (blocks ?v ! ?w)]\<rparr>)" by (rule filled_upd_writable [OF st w(1)])
  then have ro: "\<not> ro" using m2(3) by (simp add: is_read_only_par_upd is_read_only_def nb_meta_def)
  have fin: "par_upd ?w (next_blk (blocks ?v ! ?w)) (hashtable ?v) m2 False ?v = flushing s ws (Suc g) m2"
    unfolding nx using S(3) f(1) by (cases s) (simp add: par_upd_def flushing_def)
  have ix: "int ?w * int (pages_per_block s) + int j + 1 = int (?w * pages_per_block s + Suc j)" by simp
  have "flush_page K (block_info_size s div page_size s) g (0, headers (pages_per_block s) g, ?u)
     = Ret (0, headers (pages_per_block s) (Suc g), flushing s ws (Suc g) m2)"
  proof -
    have c: "meta_page_size ?u = page_size s" "pages_per_block ?u = pages_per_block s" "meta_blkordr ?u = meta_blkordr s" "\<not> pages_per_block s \<le> 1"
      using G(2,5) by (simp_all add: flushing_def)
    have hd: "(if j = 0 then obind (arr_get (meta_blkordr s) (int (headers (pages_per_block s) g))) (\<lambda>blk.
          obind (write_hdr K (blk * int (pages_per_block s)) NAND_META_DATA (int (headers (pages_per_block s) g)) ?u) (\<lambda>(ret, u).
            Ret (ret, Suc (headers (pages_per_block s) g), u)))
        else Ret (0, headers (pages_per_block s) g, ?u)) = Ret (0, Suc r, ?v)"
      using h(1) H(1) order_nth [OF st rl] by (auto simp: q_def split: if_splits)
    have wp: "write_page K (int ?w * int (pages_per_block s) + int j + 1) (table_page K s ws g) ?v = Ret (0, flushing s ws (Suc g) m2)"
      unfolding ix using m2(4) ro fin by simp
    have mj: "g mod (pages_per_block s - Suc 0) = j" using H(4) by (simp add: q_def)
    show ?thesis
      unfolding flush_page_def prod.case c tp(1) H(4) [unfolded q_def]
      using hd wp order_nth [OF st rl] H(2) c(4) by (simp add: mj q_def)
  qed
  moreover have "meta_pages byte_at K s ws (Suc g) m2"
    unfolding meta_pages_def
  proof (intro conjI allI impI)
    fix r' j' assume a: "r' < length ws" "j' < pages_per_block s"
    have "ws ! r' = ?w \<longleftrightarrow> r' = r" using S(8) a(1) rl by (simp add: nth_eq_iff_index_eq)
    with a page_inj [OF a(2) jl, of "ws ! r'" ?w] page_inj [OF a(2), of 0 "ws ! r'" ?w] q
      pg [unfolded meta_pages_def, THEN conjunct1, rule_format, OF a]
    show "flash_page byte_at (page_size s) m2 (ws ! r' * pages_per_block s + j') = meta_page_at K s ws (Suc g) r' j'"
      using m2(2) h(4) tp(2) by (simp add: meta_page_next [OF G(2) gr' a(2)] q_def)
  next
    fix i j' assume a: "i \<notin> set ws" "j' < pages_per_block s"
    then have "i \<noteq> ?w" using w(1) by auto
    with a page_inj [OF a(2) jl, of i ?w] page_inj [OF a(2), of 0 i ?w] q pg
    show "flash_page byte_at (page_size s) m2 (i * pages_per_block s + j') = flash_page byte_at (page_size s) (flash s) (i * pages_per_block s + j')"
      using m2(2) h(4) by (auto simp: meta_pages_def q_def)
  qed
  ultimately show ?thesis using that m2(1) by blast
qed

end

end
