(* ===== verification/ParallelPersist.thy ===== *)
theory ParallelPersist
  imports ParallelImage
begin

text \<open>
  A forced flush as a whole: it returns 0, leaves the two tables in the chosen blocks, and the store
  keeps its map.
\<close>

section \<open>The loop over the pages\<close>

context reliable_flash
begin

lemma flush_pages:
  assumes st: "flush_setup s fsize ws"
  shows "good m \<Longrightarrow> meta_pages byte_at K s ws g m \<Longrightarrow> g \<le> block_info_size s div page_size s + hashtable_size s div page_size s
    \<Longrightarrow> \<exists>m'. ofold (flush_page K (block_info_size s div page_size s)) [g..<block_info_size s div page_size s + hashtable_size s div page_size s]
          (0, headers (pages_per_block s) g, flushing s ws g m)
        = Ret (0, headers (pages_per_block s) (block_info_size s div page_size s + hashtable_size s div page_size s),
            flushing s ws (block_info_size s div page_size s + hashtable_size s div page_size s) m')
      \<and> good m' \<and> meta_pages byte_at K s ws (block_info_size s div page_size s + hashtable_size s div page_size s) m'"
proof (induction "block_info_size s div page_size s + hashtable_size s div page_size s - g" arbitrary: g m)
  case 0
  then show ?case by auto
next
  case (Suc d)
  let ?P = "block_info_size s div page_size s + hashtable_size s div page_size s"
  have g: "g < ?P" using Suc.hyps(2) by linarith
  obtain m' where m': "flush_page K (block_info_size s div page_size s) g (0, headers (pages_per_block s) g, flushing s ws g m)
     = Ret (0, headers (pages_per_block s) (Suc g), flushing s ws (Suc g) m')" "good m'" "meta_pages byte_at K s ws (Suc g) m'"
    by (rule flush_page_step [OF st Suc.prems(1,2) g])
  have "d = ?P - Suc g" using Suc.hyps(2) by linarith
  from Suc.hyps(1) [OF this m'(2,3)] g m'(1) show ?case by (simp add: upt_conv_Cons)
qed

end

section \<open>When a flush can do its work\<close>

text \<open>The sizes of the tables \<open>init_config\<close> has set.\<close>

definition table_sizes :: "'m lkp_kv \<Rightarrow> bool" where
  "table_sizes s \<longleftrightarrow> block_info_size s mod page_size s = 0 \<and> hashtable_size s mod page_size s = 0
     \<and> SIZEOF_BLK_INFO * nb_blocks s \<le> block_info_size s \<and> SIZEOF_BUCKET * HASH_SIZE s \<le> hashtable_size s
     \<and> metadata_size s = hashtable_size s + block_info_size s"

text \<open>
  Enough free blocks are found, the pages of the tables fit behind the headers, and the blocks the
  metadata fills do not make the store read-only.
\<close>

definition flushable :: "'m lkp_kv \<Rightarrow> bool" where
  "flushable s \<longleftrightarrow> \<not> read_only s \<and> 16 \<le> page_size s \<and> table_sizes s \<and> order_ok s (nb_meta 0 s) \<and> nb_meta 0 s \<le> 100
     \<and> length (flush_plan s) = nb_meta 0 s
     \<and> metadata_size s div page_size s \<le> nb_meta 0 s * (pages_per_block s - 1)
     \<and> int (full_count s) + int (nb_meta 0 s) < int (nb_blocks s) - (int (nb_meta 0 s) - 1)
     \<and> (\<forall>b \<in> set (blocks s). worn b < 2147483646)"

lemma nb_meta_pos: "0 < nb_meta x s" by (simp add: nb_meta_def)

lemma nb_meta_01:
  assumes "0 < pages_per_block s"
  shows "nb_meta 0 s \<le> nb_meta 1 s" "nb_meta 1 s \<le> Suc (nb_meta 0 s)"
proof -
  let ?x = "metadata_size s div meta_page_size s"
  show "nb_meta 0 s \<le> nb_meta 1 s" by (simp add: nb_meta_def div_le_mono)
  have "(?x + 1) div pages_per_block s \<le> (?x + pages_per_block s) div pages_per_block s" using assms by (intro div_le_mono) simp
  also have "\<dots> = ?x div pages_per_block s + 1" using assms by (intro div_add_self2) simp
  finally show "nb_meta 1 s \<le> Suc (nb_meta 0 s)" by (simp add: nb_meta_def)
qed

lemma table_pages_sum:
  assumes "table_sizes s" "0 < page_size s"
  shows "metadata_size s div page_size s = block_info_size s div page_size s + hashtable_size s div page_size s"
proof -
  obtain b h where "block_info_size s = page_size s * b" "hashtable_size s = page_size s * h"
    using assms by (auto simp: table_sizes_def mod_0_imp_dvd elim!: dvdE)
  then show ?thesis using assms by (simp add: table_sizes_def flip: distrib_left)
qed

lemma flush_plan_ok:
  assumes "order_ok s (nb_meta 0 s)"
  shows "plan_ok s (take (nb_meta 0 s) (meta_blkordr s)) (flush_plan s)"
proof -
  have "plan_ok s (take (nb_meta 0 s) (meta_blkordr s)) []" by (simp add: plan_ok_def)
  from plan_from_ok [OF this, of "[0..<nb_blocks s]" "nb_meta 0 s"] show ?thesis by (simp add: flush_plan_def)
qed

text \<open>The state with the blocks chosen, ready for the pages.\<close>

lemma chosen_setup:
  assumes g: "par_geometry s fsize" and len: "length (blocks s) = nb_blocks s" "length (hashtable s) = HASH_SIZE s"
    and f: "flushable s" and ro: "\<not> meta_read_only s" and lk: "\<not> one_lock s" "\<not> list_lock s"
    and pre: "pre = take (nb_meta 0 s) (meta_blkordr s)"
  shows "flush_setup (chosen s pre (nb_meta 0 s) (flush_plan s) m fd) fsize (flush_plan s)"
proof -
  let ?n = "nb_meta 0 s" and ?ws = "flush_plan s"
  let ?t = "chosen s pre ?n ?ws m fd"
  have ord: "order_ok s ?n" using f by (simp add: flushable_def)
  note P = flush_plan_ok [OF ord]
  have l: "length ?ws = ?n" using f by (simp add: flushable_def)
  have n: "?n \<le> length (meta_blkordr s)" using ord by (simp add: order_ok_def)
  have b: "state (blocks ?t ! w) = BLK_USED \<and> current_page_offset (blocks ?t ! w) = 0" "w < nb_blocks s" if "w \<in> set ?ws" for w
    using P that by (auto simp: plan_ok_def flush_free_def chosen_blk_def)
  have "card {i. i < nb_blocks s \<and> int (pages_per_block s) \<le> current_page_offset (chosen_blk s pre ?ws i)}
     \<le> card {i. i < nb_blocks s \<and> int (pages_per_block s) \<le> current_page_offset (blocks s ! i)}"
    using par_geometryD(2) [OF g] by (intro card_mono) (auto simp: chosen_blk_def erased_blk_def split: if_splits)
  moreover have "{i. i < nb_blocks s \<and> int (pages_per_block s) \<le> current_page_offset (map (chosen_blk s pre ?ws) [0..<nb_blocks s] ! i)}
     = {i. i < nb_blocks s \<and> int (pages_per_block s) \<le> current_page_offset (chosen_blk s pre ?ws i)}" by auto
  ultimately have full: "full_count ?t \<le> full_count s"
    using len by (simp only: full_count_def length_filter_conv_card chosen_simps length_map length_upt diff_zero)
  have sz: "block_info_size ?t = block_info_size s" "hashtable_size ?t = hashtable_size s" by (simp_all add: chosen_def)
  have ps: "0 < page_size s" using par_geometryD(3) [OF g] by simp
  have ts: "table_sizes s" "metadata_size s div page_size s \<le> ?n * (pages_per_block s - 1)" using f by (simp_all add: flushable_def)
  then have pages: "block_info_size s div page_size s + hashtable_size s div page_size s \<le> length ?ws * (pages_per_block s - 1)"
    using table_pages_sum [OF ts(1) ps] l by simp
  have room: "int (full_count ?t) + int (length ?ws) < int (nb_blocks s) - (int ?n - 1)" using f full l by (simp add: flushable_def)
  show ?thesis
    unfolding flush_setup_def chosen_simps(1-9) chosen_simps(10-14) sz
    using f ro lk g len P b l n ts pages room
    by (simp add: flushable_def table_sizes_def plan_ok_def)
qed

lemma filled_start:
  assumes "flush_setup s fsize ws"
  shows "flushing s ws 0 (flash s) = s"
proof -
  have "filled s ws 0 = blocks s"
  proof (rule nth_equalityI)
    fix i assume i: "i < length (filled s ws 0)"
    show "filled s ws 0 ! i = blocks s ! i"
    proof (cases "i \<in> set ws")
      case True
      then have "current_page_offset (blocks s ! i) = 0" by (rule flush_setupD(13) [OF assms])
      then have "(blocks s ! i)\<lparr>current_page_offset := 0\<rparr> = blocks s ! i" by (cases "blocks s ! i") simp
      with True i show ?thesis by (simp add: filled_def meta_off_def)
    qed (use i in \<open>simp add: filled_def\<close>)
  qed (use flush_setupD(2) [OF assms] in simp)
  then show ?thesis by (cases s) (simp add: flushing_def)
qed

lemma mark_used:
  assumes "flush_setup s fsize ws" "n = length ws"
  shows "ofold (\<lambda>i s. obind (arr_get (meta_blkordr s) (int i)) (\<lambda>blk. upd_block blk (\<lambda>b. b\<lparr>state := BLK_USED\<rparr>) s)) [0..<n]
     (s\<lparr>list_lock := True\<rparr>) = Ret (s\<lparr>list_lock := True\<rparr>)"
proof -
  have step: "obind (arr_get (meta_blkordr (s\<lparr>list_lock := True\<rparr>)) (int i)) (\<lambda>blk. upd_block blk (\<lambda>b. b\<lparr>state := BLK_USED\<rparr>) (s\<lparr>list_lock := True\<rparr>))
      = Ret (s\<lparr>list_lock := True\<rparr>)" if "i < n" for i
  proof -
    have w: "ws ! i \<in> set ws" using that assms(2) by simp
    have il: "ws ! i < length (blocks s)" using flush_setupD(2,11) [OF assms(1)] w by simp
    have "(blocks s ! (ws ! i))\<lparr>state := BLK_USED\<rparr> = blocks s ! (ws ! i)" using flush_setupD(12) [OF assms(1) w] by (cases "blocks s ! (ws ! i)") simp
    then have "(blocks s)[ws ! i := (blocks s ! (ws ! i))\<lparr>state := BLK_USED\<rparr>] = blocks s" by simp
    then show ?thesis using order_nth [OF assms(1)] that assms(2) il by (cases s) (simp add: upd_block_def)
  qed
  have "\<forall>i \<in> set is. i < n \<Longrightarrow> ofold (\<lambda>i s. obind (arr_get (meta_blkordr s) (int i)) (\<lambda>blk. upd_block blk (\<lambda>b. b\<lparr>state := BLK_USED\<rparr>) s)) is
     (s\<lparr>list_lock := True\<rparr>) = Ret (s\<lparr>list_lock := True\<rparr>)" for "is"
    using step by (induction "is") simp_all
  then show ?thesis by simp
qed

lemma is_meta_order:
  assumes "order_ok s (nb_meta 0 s)" "0 < pages_per_block s"
  shows "is_meta s i \<longleftrightarrow> int i \<in> set (take (nb_meta 0 s) (meta_blkordr s))"
proof -
  let ?n = "nb_meta 0 s"
  obtain d where d: "nb_meta 1 s = ?n + d" using nb_meta_01(1) [OF assms(2)] le_iff_add by blast
  have "int i \<notin> set (drop ?n (meta_blkordr s))" using assms(1) by (auto simp: order_ok_def)
  then have "int i \<notin> set (take d (drop ?n (meta_blkordr s)))" by (meson in_set_takeD)
  then show ?thesis unfolding is_meta_def d take_add by simp
qed

section \<open>The flush\<close>

text \<open>The state a flush leaves: \<open>m\<close> is the flash with the old metadata erased, \<open>m'\<close> with the new one written.\<close>

definition planned :: "'m lkp_kv \<Rightarrow> 'm \<Rightarrow> int \<Rightarrow> 'm lkp_kv" where
  "planned s m fd = chosen s (take (nb_meta 0 s) (meta_blkordr s)) (nb_meta 0 s) (flush_plan s) m fd"

definition flushed :: "'m lkp_kv \<Rightarrow> 'm \<Rightarrow> int \<Rightarrow> 'm \<Rightarrow> 'm lkp_kv" where
  "flushed s m fd m' = flushing (planned s m fd) (flush_plan s) (metadata_size s div page_size s) m'"

lemma plan_blank:
  assumes inv: "par_rep byte_at good fsize M s" and f: "flushable s" and er: "erased_pages byte_at s (take (nb_meta 0 s) (meta_blkordr s)) m"
    and w: "w \<in> set (flush_plan s)" and j: "j < pages_per_block s"
  shows "block_kind s w = Free" "w < nb_blocks s" "flash_page byte_at (page_size s) m (w * pages_per_block s + j) = replicate (page_size s) 255"
proof -
  have ord: "order_ok s (nb_meta 0 s)" using f by (simp add: flushable_def)
  then have fr: "flush_free s (take (nb_meta 0 s) (meta_blkordr s)) w" "w < nb_blocks s" using flush_plan_ok [OF ord] w by (auto simp: plan_ok_def)
  then show free: "block_kind s w = Free" and "w < nb_blocks s"
    using is_meta_order [OF ord] j by (auto simp: block_kind_def flush_free_def)
  have "v_erased (view_of byte_at s) w" using view_okD(3) [OF par_repD(6) [OF inv], of w] free fr(2) by simp
  then show "flash_page byte_at (page_size s) m (w * pages_per_block s + j) = replicate (page_size s) 255"
    using er fr(1) j by (simp add: v_erased_def flush_free_def erased_pages_def)
qed

context reliable_flash
begin

lemma par_flush_body:
  assumes inv: "par_kv M s" and f: "flushable s" and lk: "\<not> one_lock s" "\<not> list_lock s"
  obtains m fd m' where "flush_body K s = Ret (0, flushed s m fd m')" "good m" "good m'"
    "erased_pages byte_at s (take (nb_meta 0 s) (meta_blkordr s)) m" "flush_setup (planned s m fd) fsize (flush_plan s)"
    "meta_pages byte_at K (planned s m fd) (flush_plan s) (metadata_size s div page_size s) m'"
proof -
  let ?n = "nb_meta 0 s" and ?ws = "flush_plan s"
  let ?pre = "take ?n (meta_blkordr s)"
  note D = par_repD [OF inv]
  note g = D(1) and G = par_geometryD [OF D(1)]
  have ord: "order_ok s ?n" and nro: "\<not> read_only s" and ts: "table_sizes s" and l: "length ?ws = ?n" using f by (simp_all add: flushable_def)
  have ro: "\<not> meta_read_only s" using D(8) nro by blast
  have lh: "length (hashtable s) = HASH_SIZE s" using D(5) by (simp add: index_ok_size)
  have ps: "0 < page_size s" using G(3) by simp
  have nl: "?n \<le> length (meta_blkordr s)" using ord by (simp add: order_ok_def)
  have init: "s\<lparr>meta_blkordr := replicate ?n (- 2) @ drop ?n (meta_blkordr s)\<rparr> = chosen s ?pre ?n [] (flash s) (format_done s)"
  proof -
    have "map (chosen_blk s ?pre []) [0..<nb_blocks s] = blocks s"
      using D(3) by (intro nth_equalityI) (simp_all add: chosen_blk_def)
    then show ?thesis by (cases s) (simp add: chosen_def)
  qed
  have p0: "plan_ok s ?pre []" "length ([] :: nat list) \<le> ?n" "\<forall>i \<in> set [0..<nb_blocks s]. i < nb_blocks s"
    "erased_pages byte_at s (take (length ([] :: nat list)) ?pre) (flash s)"
    by (simp_all add: plan_ok_def erased_pages_def)
  obtain m fd where ch: "ofold (flush_choose K ?n ?pre) [0..<nb_blocks s] (False, 0, chosen s ?pre ?n [] (flash s) (format_done s))
      = Ret (True, ?n, planned s m fd)" "good m" "erased_pages byte_at s ?pre m"
    using par_choose_all [OF g nro ro lk(2) ord refl p0(1-3) D(2) p0(4), of "format_done s"] l nb_meta_pos [of 0 s]
    unfolding flush_plan_def [symmetric] planned_def by auto
  let ?s1 = "planned s m fd"
  have st: "flush_setup ?s1 fsize ?ws" unfolding planned_def by (rule chosen_setup [OF g D(3) lh f ro lk refl])
  have sz: "block_info_size ?s1 = block_info_size s" "hashtable_size ?s1 = hashtable_size s" "metadata_size ?s1 = metadata_size s"
    "page_size ?s1 = page_size s" "pages_per_block ?s1 = pages_per_block s" "flash ?s1 = m" "\<not> list_lock ?s1" "meta_page_size ?s1 = page_size s"
    using lk(2) G(5) by (simp_all add: planned_def) (simp_all add: chosen_def)
  have P: "metadata_size s div page_size s = block_info_size s div page_size s + hashtable_size s div page_size s"
    by (rule table_pages_sum [OF ts ps])
  have blank: "meta_pages byte_at K ?s1 ?ws 0 m"
    using plan_blank(3) [OF inv f ch(3)] unfolding meta_pages_def sz by (simp add: meta_page_at_def Let_def sz)
  obtain m' where pg: "ofold (flush_page K (block_info_size s div page_size s)) [0..<metadata_size s div page_size s] (0, 0, ?s1)
      = Ret (0, headers (pages_per_block ?s1) (metadata_size s div page_size s), flushed s m fd m')"
    "good m'" "meta_pages byte_at K ?s1 ?ws (metadata_size s div page_size s) m'"
    using flush_pages [OF st ch(2) blank, unfolded sz, folded P] filled_start [OF st, unfolded sz]
    by (auto simp: headers_def [of _ 0] flushed_def sz)
  obtain bf where bf: "k_kmalloc K m (page_size s) = Some bf" using kmalloc_ok [OF ch(2)] by blast
  have off: "unlock_list (?s1\<lparr>list_lock := True\<rparr>) = ?s1" using sz(7) by (cases ?s1) (simp add: unlock_list_def)
  have ms: "?s1\<lparr>metadata_size := hashtable_size s + block_info_size s\<rparr> = ?s1"
    using ts sz(1-3) by (cases ?s1) (simp add: table_sizes_def)
  have "flush_body K s = Ret (0, flushed s m fd m')"
    using pg(1) ch(1) init mark_used [OF st l [symmetric]] bf sz G(5) nl
    by (simp add: flush_body_def Let_def victims_def kzalloc_def lock_list_def off ms)
  then show ?thesis using that ch(2,3) pg(2,3) st by blast
qed

end

section \<open>The store after the flush\<close>

lemma flushed_simps [simp]:
  "nb_blocks (flushed s m fd m') = nb_blocks s" "pages_per_block (flushed s m fd m') = pages_per_block s" "page_size (flushed s m fd m') = page_size s"
  "flash (flushed s m fd m') = m'" "hashtable (flushed s m fd m') = hashtable s" "HASH_SIZE (flushed s m fd m') = HASH_SIZE s"
  "read_only (flushed s m fd m') = read_only s" "meta_read_only (flushed s m fd m') = meta_read_only s"
  "meta_blkordr (flushed s m fd m') = map int (flush_plan s) @ replicate (nb_meta 0 s - length (flush_plan s)) (- 2) @ drop (nb_meta 0 s) (meta_blkordr s)"
  "nb_meta x (flushed s m fd m') = nb_meta x s" "blocks (flushed s m fd m') = filled (planned s m fd) (flush_plan s) (metadata_size s div page_size s)"
  "list_lock (flushed s m fd m') = list_lock s" "one_lock (flushed s m fd m') = one_lock s" "erase_lock (flushed s m fd m') = erase_lock s"
  "block_info_size (flushed s m fd m') = block_info_size s" "hashtable_size (flushed s m fd m') = hashtable_size s"
  "metadata_size (flushed s m fd m') = metadata_size s" "meta_page_size (flushed s m fd m') = meta_page_size s" "block_size (flushed s m fd m') = block_size s"
  by (simp_all add: flushed_def flushing_def planned_def nb_meta_def) (simp_all add: chosen_def nb_meta_def)

lemma flushed_block:
  assumes "i < nb_blocks s"
  shows "blocks (flushed s m fd m') ! i =
    (if i \<in> set (flush_plan s)
     then (blocks s ! i)\<lparr>state := BLK_USED, current_page_offset := int (meta_off (pages_per_block s) (metadata_size s div page_size s) (rank (flush_plan s) i))\<rparr>
     else if int i \<in> set (take (length (flush_plan s)) (take (nb_meta 0 s) (meta_blkordr s))) then erased_blk (blocks s ! i) else blocks s ! i)"
  using assms by (simp add: filled_def planned_def chosen_blk_def)

text \<open>The blocks of the couples are not touched.\<close>

lemma flushed_similar:
  assumes inv: "par_rep byte_at good fsize M s" and f: "flushable s"
    and er: "erased_pages byte_at s (take (nb_meta 0 s) (meta_blkordr s)) m"
    and pg: "meta_pages byte_at K (planned s m fd) (flush_plan s) (metadata_size s div page_size s) m'"
  shows "v_similar (view_of byte_at s) (view_of byte_at (flushed s m fd m'))"
    "\<And>i. i < nb_blocks s \<Longrightarrow> is_meta (flushed s m fd m') i \<longleftrightarrow> i \<in> set (flush_plan s)"
proof -
  let ?n = "nb_meta 0 s" and ?ws = "flush_plan s" and ?t = "flushed s m fd m'"
  let ?pre = "take ?n (meta_blkordr s)"
  note D = par_repD [OF inv]
  note G = par_geometryD [OF D(1)]
  have ord: "order_ok s ?n" and l: "length ?ws = ?n" using f by (simp_all add: flushable_def)
  have q0: "0 < pages_per_block s" using G(2) by simp
  have nl: "?n < length (meta_blkordr s)" using ord by (simp add: order_ok_def)
  have wb: "w < nb_blocks s" if "w \<in> set ?ws" for w using flush_plan_ok [OF ord] that by (auto simp: plan_ok_def)
  have ordt: "order_ok ?t ?n"
    using ord l nl wb flush_plan_ok [OF ord] by (auto simp: order_ok_def plan_ok_def filter_map comp_def distinct_map)
  have mt: "is_meta ?t i \<longleftrightarrow> i \<in> set ?ws" for i
    using is_meta_order [of ?t i] ordt q0 l by auto
  then show "\<And>i. i < nb_blocks s \<Longrightarrow> is_meta ?t i \<longleftrightarrow> i \<in> set ?ws" by blast
  have ms: "is_meta s i \<longleftrightarrow> int i \<in> set ?pre" for i by (rule is_meta_order [OF ord q0])
  have blk: "blocks ?t ! i = (if i \<in> set ?ws
     then (blocks s ! i)\<lparr>state := BLK_USED, current_page_offset := int (meta_off (pages_per_block s) (metadata_size s div page_size s) (rank ?ws i))\<rparr>
     else if is_meta s i then erased_blk (blocks s ! i) else blocks s ! i)" if "i < nb_blocks s" for i
    using flushed_block [OF that] l ms by simp
  have page: "flash_page byte_at (page_size s) m' (i * pages_per_block s + j)
     = (if is_meta s i then replicate (page_size s) 255 else flash_page byte_at (page_size s) (flash s) (i * pages_per_block s + j))"
    if "i \<notin> set ?ws" "j < pages_per_block s" for i j
  proof -
    have "flash_page byte_at (page_size s) m' (i * pages_per_block s + j) = flash_page byte_at (page_size s) m (i * pages_per_block s + j)"
      using pg that by (auto simp: meta_pages_def planned_def)
    moreover have "(\<exists>e. int e \<in> set ?pre \<and> e * pages_per_block s \<le> i * pages_per_block s + j \<and> i * pages_per_block s + j < (e + 1) * pages_per_block s)
        \<longleftrightarrow> int i \<in> set ?pre"
    proof
      assume "\<exists>e. int e \<in> set ?pre \<and> e * pages_per_block s \<le> i * pages_per_block s + j \<and> i * pages_per_block s + j < (e + 1) * pages_per_block s"
      then obtain e where e: "int e \<in> set ?pre" "e * pages_per_block s \<le> i * pages_per_block s + j" "i * pages_per_block s + j < (e + 1) * pages_per_block s" by blast
      have "(i * pages_per_block s + j) div pages_per_block s = e" by (rule div_nat_eqI) (use e in \<open>simp_all add: mult.commute\<close>)
      then show "int i \<in> set ?pre" using e(1) div_mult_lt [OF that(2), of i] by simp
    qed (use that in \<open>auto intro!: exI [of _ i]\<close>)
    ultimately show ?thesis using er ms by (simp add: erased_pages_def)
  qed
  show "v_similar (view_of byte_at s) (view_of byte_at ?t)"
    unfolding v_similar_def
  proof (intro conjI allI impI)
    fix i assume "i < v_nb (view_of byte_at s)"
    then have i: "i < nb_blocks s" by simp
    have cnt: "v_counts (view_of byte_at s) i" using view_okD(2) [OF D(6)] i by simp
    have free: "block_kind s i = Free" if "i \<in> set ?ws" using plan_blank(1) [OF inv f er that q0] .
    have ero: "block_kind s i = Free \<Longrightarrow> v_erased (view_of byte_at s) i" using view_okD(3) [OF D(6), of i] i by simp
    consider (data) "block_kind s i = Data" | (free) "block_kind s i = Free" "i \<notin> set ?ws" | (chosen) "i \<in> set ?ws" | (old) "block_kind s i = Meta" "i \<notin> set ?ws"
      using free by (cases "block_kind s i") auto
    then show "if v_kind (view_of byte_at s) i = Data
       then v_kind (view_of byte_at ?t) i = Data \<and> v_off (view_of byte_at ?t) i = v_off (view_of byte_at s) i \<and> v_inv (view_of byte_at ?t) i = v_inv (view_of byte_at s) i
            \<and> distinct (v_list (view_of byte_at ?t) i) \<and> set (v_list (view_of byte_at ?t) i) = set (v_list (view_of byte_at s) i)
            \<and> (\<forall>j < v_q (view_of byte_at s). v_page (view_of byte_at ?t) (i * v_q (view_of byte_at s) + j) = v_page (view_of byte_at s) (i * v_q (view_of byte_at s) + j))
       else v_kind (view_of byte_at ?t) i \<noteq> Data \<and> v_counts (view_of byte_at ?t) i \<and> (v_kind (view_of byte_at ?t) i = Free \<longrightarrow> v_erased (view_of byte_at ?t) i)"
    proof cases
      case data
      then have n: "i \<notin> set ?ws" "\<not> is_meta s i" using free by (auto simp: block_kind_def split: if_splits)
      then show ?thesis using data cnt mt blk [OF i] page [OF n(1)] by (simp add: block_kind_def v_counts_def)
    next
      case free
      then have n: "\<not> is_meta s i" by (auto simp: block_kind_def split: if_splits)
      have k: "block_kind ?t i = Free" using free n mt blk [OF i] by (simp add: block_kind_def)
      have c: "v_counts (view_of byte_at ?t) i" using cnt free n k blk [OF i] by (simp add: v_counts_def del: flushed_simps(11))
      have "v_erased (view_of byte_at ?t) i"
        using ero [OF free(1)] free(2) n blk [OF i] page [OF free(2)] by (simp add: v_erased_def del: flushed_simps(11))
      then show ?thesis using free(1) k c by simp
    next
      case chosen
      have k: "block_kind ?t i = Meta" using chosen mt by (simp add: block_kind_def)
      have "valid_list (blocks s ! i) = []" using cnt free [OF chosen] by (simp add: v_counts_def)
      moreover have "meta_off (pages_per_block s) (metadata_size s div page_size s) (rank ?ws i) \<le> pages_per_block s" by (simp add: meta_off_def)
      ultimately have "v_counts (view_of byte_at ?t) i" using k blk [OF i] chosen by (simp add: v_counts_def del: flushed_simps(11))
      then show ?thesis using k free [OF chosen] by simp
    next
      case old
      then have o': "is_meta s i" by (auto simp: block_kind_def split: if_splits)
      have b: "blocks ?t ! i = erased_blk (blocks s ! i)" using blk [OF i] old o' by simp
      have k: "block_kind ?t i = Free" using old mt b by (simp add: block_kind_def erased_blk_def del: flushed_simps(11))
      have "v_counts (view_of byte_at ?t) i" "v_erased (view_of byte_at ?t) i"
        using k b page [OF old(2)] o' q0 by (simp_all add: v_counts_def v_erased_def erased_blk_def del: flushed_simps(11))
      then show ?thesis using k old by simp
    qed
  qed simp_all
qed

lemma flushed_rep:
  assumes inv: "par_rep byte_at good fsize M s" and f: "flushable s" and gd: "good m'"
    and er: "erased_pages byte_at s (take (nb_meta 0 s) (meta_blkordr s)) m"
    and st: "flush_setup (planned s m fd) fsize (flush_plan s)"
    and pg: "meta_pages byte_at K (planned s m fd) (flush_plan s) (metadata_size s div page_size s) m'"
  shows "par_rep byte_at good fsize M (flushed s m fd m')"
proof -
  let ?t = "flushed s m fd m'" and ?P = "metadata_size s div page_size s"
  note D = par_repD [OF inv]
  have "\<not> is_read_only ((planned s m fd)\<lparr>blocks := filled (planned s m fd) (flush_plan s) ?P\<rparr>)"
    by (rule flush_setup_writable [OF st]) (auto simp: filled_def)
  then have nro: "\<not> is_read_only ?t" by (simp add: flushed_def flushing_def is_read_only_def nb_meta_def)
  have bs: "block_states ?t"
    unfolding block_states_def
  proof
    fix b assume "b \<in> set (blocks ?t)"
    then obtain i where i: "i < nb_blocks s" "b = blocks ?t ! i" by (auto simp: in_set_conv_nth planned_def)
    have "blocks s ! i \<in> set (blocks s)" using i(1) D(3) by simp
    then have "(state (blocks s ! i) = BLK_FREE \<or> state (blocks s ! i) = BLK_USED) \<and> worn (blocks s ! i) < 2147483646"
      using D(4) f by (auto simp: block_states_def flushable_def)
    then show "(state b = BLK_FREE \<or> state b = BLK_USED) \<and> worn b < 2147483647"
      unfolding i(2) flushed_block [OF i(1)] by (auto simp: erased_blk_def)
  qed
  have "length (meta_blkordr ?t) = length (meta_blkordr s)" using f by (simp add: flushable_def order_ok_def)
  then have g: "par_geometry ?t fsize" using par_geometryD [OF D(1)] by (simp add: par_geometry_def)
  have "\<not> meta_read_only s" using D(8) f by (auto simp: flushable_def)
  then show ?thesis
    unfolding par_rep_def using g gd bs D(3,5,7) nro f v_similar_ok [OF D(6) flushed_similar(1) [OF inv f er pg]]
    by (simp add: flushable_def planned_def)
qed

text \<open>The flush does not look at \<open>erase_lock\<close> once it holds it.\<close>

lemma plan_lock [lock_simps]:
  "flush_plan (s\<lparr>erase_lock := b\<rparr>) = flush_plan s" "planned (s\<lparr>erase_lock := b\<rparr>) m fd = (planned s m fd)\<lparr>erase_lock := b\<rparr>"
  "filled (s\<lparr>erase_lock := b\<rparr>) ws g = filled s ws g" "flushed (s\<lparr>erase_lock := b\<rparr>) m fd m' = (flushed s m fd m')\<lparr>erase_lock := b\<rparr>"
  "full_count (s\<lparr>erase_lock := b\<rparr>) = full_count s" "flushable (s\<lparr>erase_lock := b\<rparr>) = flushable s"
proof -
  have free: "flush_free (s\<lparr>erase_lock := b\<rparr>) = flush_free s" by (simp add: flush_free_def fun_eq_iff)
  have pick: "flush_pick (s\<lparr>erase_lock := b\<rparr>) = flush_pick s"
  proof (intro ext)
    fix pre ws i
    have "blocks (s\<lparr>erase_lock := b\<rparr>) = blocks s" "nb_blocks (s\<lparr>erase_lock := b\<rparr>) = nb_blocks s" by simp_all
    then show "flush_pick (s\<lparr>erase_lock := b\<rparr>) pre ws i = flush_pick s pre ws i" unfolding flush_pick_def free by (simp only: )
  qed
  show plan: "flush_plan (s\<lparr>erase_lock := b\<rparr>) = flush_plan s" unfolding flush_plan_def plan_from_def free pick by (simp add: lock_simps cong del: if_weak_cong)
  show pl: "planned (s\<lparr>erase_lock := b\<rparr>) m fd = (planned s m fd)\<lparr>erase_lock := b\<rparr>" for m fd
    by (simp add: planned_def chosen_def plan lock_simps chosen_blk_def [abs_def])
  show fl: "filled (s\<lparr>erase_lock := b\<rparr>) ws g = filled s ws g" for ws g and s :: "'a lkp_kv" by (simp add: filled_def)
  show "flushed (s\<lparr>erase_lock := b\<rparr>) m fd m' = (flushed s m fd m')\<lparr>erase_lock := b\<rparr>"
    by (simp add: flushed_def flushing_def pl plan fl)
  show fc: "full_count (s\<lparr>erase_lock := b\<rparr>) = full_count s" by (simp add: full_count_def)
  show "flushable (s\<lparr>erase_lock := b\<rparr>) = flushable s"
    by (simp add: flushable_def table_sizes_def order_ok_def plan fc lock_simps)
qed

text \<open>What a flush leaves, as a state and on flash.\<close>

context reliable_flash
begin

lemma par_flush:
  assumes inv: "par_inv byte_at good fsize M s" and f: "flushable s"
  obtains m fd m' where "flush_metadata K True s = Ret (0, (flushed s m fd m')\<lparr>recent_update := 0, is_flush := 0\<rparr>)"
    "par_inv byte_at good fsize M ((flushed s m fd m')\<lparr>recent_update := 0, is_flush := 0\<rparr>)" "good m'"
    "erased_pages byte_at s (take (nb_meta 0 s) (meta_blkordr s)) m" "flush_setup (planned s m fd) fsize (flush_plan s)"
    "meta_pages byte_at K (planned s m fd) (flush_plan s) (metadata_size s div page_size s) m'"
proof -
  note I = par_invD [OF inv]
  let ?s = "s\<lparr>erase_lock := True\<rparr>"
  have i: "par_kv M ?s" "flushable ?s" "\<not> one_lock ?s" "\<not> list_lock ?s" using I f by (simp_all add: lock_simps)
  obtain m fd m' where b: "flush_body K ?s = Ret (0, flushed ?s m fd m')" "good m" "good m'"
    "erased_pages byte_at ?s (take (nb_meta 0 ?s) (meta_blkordr ?s)) m" "flush_setup (planned ?s m fd) fsize (flush_plan ?s)"
    "meta_pages byte_at K (planned ?s m fd) (flush_plan ?s) (metadata_size ?s div page_size ?s) m'"
    by (rule par_flush_body [OF i])
  have rp: "par_kv M (flushed ?s m fd m')" by (rule flushed_rep [OF i(1,2) b(3-6)])
  have tp: "table_page K (u\<lparr>erase_lock := c\<rparr>) ws g = table_page K u ws g" for u :: "'m lkp_kv" and c ws g
    by (simp add: table_page_def Let_def lock_simps blocks_image_def hash_image_def)
  have "flush_metadata K True s = Ret (0, (flushed s m fd m')\<lparr>recent_update := 0, is_flush := 0\<rparr>)"
    using b(1) I(2) by (simp add: flush_metadata_def Let_def unlock_erase_def lock_simps)
  moreover have "par_inv byte_at good fsize M ((flushed s m fd m')\<lparr>recent_update := 0, is_flush := 0\<rparr>)"
    using rp I by (simp add: par_inv_def lock_simps unlocked_def)
  moreover have "erased_pages byte_at s (take (nb_meta 0 s) (meta_blkordr s)) m"
    using b(4) by (simp add: erased_pages_def lock_simps cong del: if_weak_cong)
  moreover have "flush_setup (planned s m fd) fsize (flush_plan s)"
    using b(5) by (simp add: flush_setup_def lock_simps)
  moreover have "meta_pages byte_at K (planned s m fd) (flush_plan s) (metadata_size s div page_size s) m'"
    using b(6) by (simp add: meta_pages_def lock_simps meta_page_at_def tp cong del: if_weak_cong)
  ultimately show ?thesis using that b(3) by blast
qed

end

end
