(* ===== verification/ParallelScan.thy ===== *)
theory ParallelScan
  imports ParallelPersist
begin

text \<open>
  The scan of a load of the third prototype: it finds the metadata blocks by their headers and copies
  their pages back into the bytes of the two tables.
\<close>

section \<open>The header is read back\<close>

lemma unat_of_char: "unat (of_char c :: byte) = (of_char c :: nat)"
proof -
  have lt: "(of_char c :: nat) < 256" using nat_of_char_less_256 by simp
  have "(of_char c :: byte) = of_nat (of_char c)" by (simp add: of_nat_of_char)
  then have "unat (of_char c :: byte) = (of_char c :: nat) mod 2 ^ LENGTH(8)" by (simp only: unat_of_nat)
  also have "\<dots> = of_char c" using lt by (intro mod_less) simp
  finally show ?thesis .
qed

lemma char_byte [simp]: "char_of (unat (of_char c :: byte)) = c"
  by (simp only: unat_of_char char_of_char)

lemma chars_back [simp]: "map (\<lambda>b. char_of (unat b)) (chars cs) = cs"
  by (simp add: chars_def comp_def)

lemma chars_nonzero: "CHR 0x00 \<notin> set cs \<Longrightarrow> (0 :: byte) \<notin> set (chars cs)"
proof
  assume a: "CHR 0x00 \<notin> set cs" "(0 :: byte) \<in> set (chars cs)"
  then obtain c where c: "c \<in> set cs" "(of_char c :: byte) = 0" by (auto simp: chars_def)
  then have "char_of (unat (of_char c :: byte)) = (char_of (0 :: nat) :: char)" by simp
  then have "c = char_of (0 :: nat)" by (simp only: char_byte)
  then show False using c(1) a(1) by (simp add: char_of_def)
qed

lemma rank_no_nul: "CHR 0x00 \<notin> set (fmt_d (int r))"
  using fmt_d_no_nul [of "CHR 0x00" "int r"] by auto

lemma header_string:
  assumes r: "r < 100" and ps: "16 \<le> ps"
  shows "mem_string (meta_header ps r @ x) = Ret (chars (META_HDR_BASE @ fmt_d (int r)))"
    "take 7 (meta_header ps r) = chars META_HDR_BASE"
proof -
  let ?c = "META_HDR_BASE @ fmt_d (int r)"
  obtain k where k: "ps - (7 + length (fmt_d (int r))) = Suc k"
    using ps length_rank [OF r] by (cases "ps - (7 + length (fmt_d (int r)))") auto
  have nz: "(0 :: byte) \<notin> set (chars ?c)" by (rule chars_nonzero) (use rank_no_nul in \<open>auto simp: META_HDR_BASE_def\<close>)
  have "meta_header ps r @ x = chars ?c @ 0 # (replicate k 0 @ x)" by (simp add: meta_header_def k)
  then show "mem_string (meta_header ps r @ x) = Ret (chars ?c)"
    using takeWhile_cstring [of "chars ?c"] nz by (simp add: mem_string_def cstring_def)
  show "take 7 (meta_header ps r) = chars META_HDR_BASE" by (simp add: meta_header_def chars_append)
qed

context reliable_flash
begin

lemma scan_rank:
  assumes gd: "good (flash s)" and r: "r < 100" and ps: "16 \<le> ps"
  shows "scan_number K s (meta_header ps r @ x) = Ret (int r)"
proof -
  let ?d = "fmt_d (int r)"
  obtain bf where bf: "k_kmalloc K (flash s) 100 = Some bf" "100 \<le> length bf" using kmalloc_ok [OF gd] by blast
  have l: "length ?d \<le> 2" "0 < length ?d" using length_rank [OF r] by auto
  obtain k where k: "100 - length ?d = Suc k" using l by (cases "100 - length ?d") auto
  let ?t = "replicate 100 0 @ drop 100 bf"
  have st: "mem_store ?t 0 (chars ?d) = Ret (chars ?d @ 0 # replicate k 0 @ drop 100 bf)"
    using l k by (simp add: mem_store_def)
  have dr: "drop (length META_HDR_BASE) (chars (META_HDR_BASE @ ?d)) = chars ?d" by (simp add: chars_append)
  have z: "(char_of (unat (0 :: byte)) :: char) = CHR 0x00" by (simp add: char_of_def)
  have "list_ex (\<lambda>c. \<not> is_digit (char_of (unat c))) (tl (chars ?d @ 0 # replicate k 0 @ drop 100 bf))"
  proof -
    obtain a as where "chars ?d = a # as" using l(2) by (cases "chars ?d") (auto simp: chars_def)
    then show ?thesis using z by simp
  qed
  moreover have "simple_strtol (map (\<lambda>c. char_of (unat c)) (chars ?d @ 0 # replicate k 0 @ drop 100 bf)) = int r"
    using strtol_fmt_d [of "map (\<lambda>c. char_of (unat c)) (0 # replicate k 0 @ drop 100 bf)" "int r"] z by simp
  ultimately have "strtol_mem (chars ?d @ 0 # replicate k 0 @ drop 100 bf) = Ret (int r)" using r by (simp add: strtol_mem_def)
  then show ?thesis using bf(1) header_string(1) [OF r ps] st dr by (simp add: scan_number_def kzalloc_def)
qed

end

section \<open>Copying the pages\<close>

text \<open>A table in memory after \<open>n\<close> pages, from page \<open>a\<close> on, are copied into it.\<close>

definition copied :: "(nat \<Rightarrow> byte list) \<Rightarrow> nat \<Rightarrow> nat \<Rightarrow> nat \<Rightarrow> byte list \<Rightarrow> byte list" where
  "copied pg ps a n mem = concat (map pg [a..<a + n]) @ drop (n * ps) mem"

lemma length_pages: "\<forall>p \<in> set ps'. length (pg p) = ps \<Longrightarrow> length (concat (map pg ps')) = length ps' * ps"
  by (induction ps') simp_all

lemma copied_0 [simp]: "copied pg ps a 0 mem = mem" by (simp add: copied_def)

lemma copied_step:
  assumes "\<forall>p < a + Suc n. length (pg p) = ps" "Suc n * ps \<le> length mem"
  shows "mem_store (copied pg ps a n mem) (int (n * ps)) (pg (a + n)) = Ret (copied pg ps a (Suc n) mem)"
proof -
  have l: "length (concat (map pg [a..<a + n])) = n * ps" using length_pages [of "[a..<a + n]" pg ps] assms(1) by simp
  have "length (pg (a + n)) = ps" using assms(1) by simp
  then show ?thesis
    using l assms(2) by (simp add: mem_store_def copied_def nat_mult_distrib add.commute flip: of_nat_mult of_nat_add)
qed

text \<open>The scan after it met \<open>c\<close> pages behind headers; the tables have \<open>B\<close> pages and \<open>P\<close> pages in all.\<close>

definition scanned :: "(nat \<Rightarrow> byte list) \<Rightarrow> nat \<Rightarrow> nat \<Rightarrow> nat \<Rightarrow> byte list \<Rightarrow> byte list \<Rightarrow> nat \<Rightarrow> scan \<Rightarrow> bool" where
  "scanned pg ps B P bm hm c st \<longleftrightarrow> ps \<le> length (scan_buf st) \<and> (scan_done st \<longleftrightarrow> P < c) \<and> (\<not> scan_done st \<longrightarrow> ram_pg_cnt st = c)
     \<and> blk_mem st = copied pg ps 0 (min c B) bm \<and> hash_mem st = copied pg ps B (min c P - B) hm \<and> jack_ofs st = min c P - B"

text \<open>What the scan finds on flash: the pages \<open>pg\<close> behind the headers of the blocks \<open>ws\<close>.\<close>

definition meta_layout :: "('m \<Rightarrow> nat \<Rightarrow> byte) \<Rightarrow> (nat \<Rightarrow> byte list) \<Rightarrow> nat \<Rightarrow> nat list \<Rightarrow> 'm lkp_kv \<Rightarrow> bool" where
  "meta_layout byte_at pg P ws s \<longleftrightarrow>
     (\<forall>r < length ws. flash_page byte_at (page_size s) (flash s) (ws ! r * pages_per_block s) = meta_header (page_size s) r
        \<and> (\<forall>j. 0 < j \<longrightarrow> j < pages_per_block s \<longrightarrow> r * (pages_per_block s - 1) + (j - 1) < P
             \<longrightarrow> flash_page byte_at (page_size s) (flash s) (ws ! r * pages_per_block s + j) = pg (r * (pages_per_block s - 1) + (j - 1))))
     \<and> (\<forall>i < nb_blocks s. i \<notin> set ws
          \<longrightarrow> take (length META_HDR_BASE) (flash_page byte_at (page_size s) (flash s) (i * pages_per_block s)) \<noteq> chars META_HDR_BASE)"

text \<open>The sizes: the block table fits behind one header, and all pages behind the headers of \<open>ws\<close>.\<close>

definition scan_sizes :: "nat \<Rightarrow> nat \<Rightarrow> byte list \<Rightarrow> byte list \<Rightarrow> nat list \<Rightarrow> 'm lkp_kv \<Rightarrow> bool" where
  "scan_sizes B P bm hm ws s \<longleftrightarrow> B = block_info_size s div page_size s \<and> P = B + hashtable_size s div page_size s
     \<and> length bm = B * page_size s \<and> length hm = (P - B) * page_size s \<and> B \<le> pages_per_block s - 1
     \<and> (\<forall>r < length ws. r * (pages_per_block s - 1) \<le> P) \<and> length ws \<le> 100 \<and> 16 \<le> page_size s
     \<and> (\<forall>w \<in> set ws. w < nb_blocks s)"

context reliable_flash
begin

lemma scan_page_step:
  assumes g: "par_geometry s fsize" and gd: "good (flash s)" and lk: "\<not> one_lock s"
    and sz: "scan_sizes B P bm hm ws s" and ly: "meta_layout byte_at pg P ws s" and pg: "\<forall>p < P. length (pg p) = page_size s"
    and r: "r < length ws" and j: "0 < j" "j < pages_per_block s"
    and c: "c = r * (pages_per_block s - 1) + (j - 1)" and st: "scanned pg (page_size s) B P bm hm c st"
  obtains st' where "scan_page K s (ws ! r) (int r) j st = Ret st'" "scanned pg (page_size s) B P bm hm (Suc c) st'"
    "scan_order st' = scan_order st"
proof -
  note G = par_geometryD [OF g]
  have S: "B = block_info_size s div meta_page_size s" "P - B = hashtable_size s div meta_page_size s" "B \<le> P"
    "length bm = B * page_size s" "length hm = (P - B) * page_size s" "B \<le> pages_per_block s - 1" "ws ! r < nb_blocks s"
    using sz G(5) r by (simp_all add: scan_sizes_def)
  have T: "page_size s \<le> length (scan_buf st)" "scan_done st \<longleftrightarrow> P < c" "\<not> scan_done st \<Longrightarrow> ram_pg_cnt st = c"
    "blk_mem st = copied pg (page_size s) 0 (min c B) bm" "hash_mem st = copied pg (page_size s) B (min c P - B) hm"
    "jack_ofs st = min c P - B" using st by (simp_all add: scanned_def)
  have sum: "P - B + B = P" using S(3) by simp
  have U: "scan_page K s (ws ! r) (int r) j u = (let ofs = int r * int (pages_per_block s) + (int j - 1) in
      if scan_done u then Ret u
      else let u = u\<lparr>ram_pg_cnt := Suc (ram_pg_cnt u)\<rparr> in
        if P < ram_pg_cnt u then Ret (u\<lparr>scan_done := True\<rparr>)
        else obind (read_page K (int (ws ! r * pages_per_block s + j)) s) (\<lambda>(ret, page).
             if ret \<noteq> 0 then Bug
             else obind (mem_store (scan_buf u) 0 page) (\<lambda>b.
                  obind (mem_slice b 0 (int (meta_page_size s))) (\<lambda>page.
                  if ofs < int B
                  then obind (mem_store (blk_mem u) (ofs * int (meta_page_size s)) page) (\<lambda>m. Ret (u\<lparr>scan_buf := b, blk_mem := m\<rparr>))
                  else obind (mem_store (hash_mem u) (int (jack_ofs u * meta_page_size s)) page) (\<lambda>m.
                         Ret (u\<lparr>scan_buf := b, hash_mem := m, jack_ofs := Suc (jack_ofs u)\<rparr>))))))" for u
    unfolding scan_page_def Let_def S(1,2) [symmetric] sum by (simp cong del: if_weak_cong)
  consider (past) "P < c" | (last) "P = c" | (copy) "c < P" by linarith
  then show ?thesis
  proof cases
    case past
    then show ?thesis
      using T(2) that [of st] st S(3) by (simp add: U Let_def scanned_def min_def)
  next
    case last
    then show ?thesis
      using T S(3) that [of "st\<lparr>ram_pg_cnt := Suc c, scan_done := True\<rparr>"]
      by (simp add: U Let_def scanned_def min_def)
  next
    case copy
    let ?b = "pg c @ drop (page_size s) (scan_buf st)"
    have lp: "length (pg c) = page_size s" using pg copy by simp
    have rd: "read_page K (int (ws ! r * pages_per_block s + j)) s = Ret (0, pg c)"
      using par_read_page [OF g gd S(7) j(2) lk] ly r j c copy by (simp add: meta_layout_def)
    have b: "mem_store (scan_buf st) 0 (pg c) = Ret ?b" "mem_slice ?b 0 (int (meta_page_size s)) = Ret (pg c)"
      using lp T(1) mem_slice_int [of 0 "page_size s" ?b] G(5) by (simp_all add: mem_store_def)
    have ofs: "int r * int (pages_per_block s) + (int j - 1) < int B \<longleftrightarrow> c < B"
      "c < B \<Longrightarrow> (int r * int (pages_per_block s) + (int j - 1)) * int (meta_page_size s) = int (c * page_size s)"
    proof -
      have z: "r = 0 \<Longrightarrow> c = j - 1" using c by simp
      have big: "B \<le> c \<and> B \<le> r * pages_per_block s + (j - 1)" if "r \<noteq> 0"
      proof -
        have "1 * (pages_per_block s - 1) \<le> r * (pages_per_block s - 1)" "1 * pages_per_block s \<le> r * pages_per_block s"
          using that by (simp_all add: mult_le_mono1)
        then show ?thesis using S(6) c by linarith
      qed
      have e: "int r * int (pages_per_block s) + (int j - 1) = int (r * pages_per_block s + (j - 1))" using j(1) by simp
      show "int r * int (pages_per_block s) + (int j - 1) < int B \<longleftrightarrow> c < B"
        unfolding e of_nat_less_iff using z big by (cases "r = 0") auto
      show "(int r * int (pages_per_block s) + (int j - 1)) * int (meta_page_size s) = int (c * page_size s)" if "c < B"
        unfolding e unfolding G(5) of_nat_mult [symmetric] using z big that by (cases "r = 0") auto
    qed
    show ?thesis
    proof (cases "c < B")
      case True
      have sto: "mem_store (blk_mem st) (int (c * page_size s)) (pg c) = Ret (copied pg (page_size s) 0 (Suc c) bm)"
        using copied_step [of 0 c pg "page_size s" bm] True pg S(3,4) T(4) mult_le_mono1 [of "Suc c" B "page_size s"] by simp
      show ?thesis
        using copy T S(3) rd b ofs True sto lp
          that [of "st\<lparr>ram_pg_cnt := Suc c, scan_buf := ?b, blk_mem := copied pg (page_size s) 0 (Suc c) bm\<rparr>"]
        by (simp add: U Let_def scanned_def min_def)
    next
      case False
      have sto: "mem_store (hash_mem st) (int (jack_ofs st * meta_page_size s)) (pg c) = Ret (copied pg (page_size s) B (Suc (c - B)) hm)"
        using copied_step [of B "c - B" pg "page_size s" hm] False copy pg S(5) T(5,6) G(5) mult_le_mono1 [of "Suc (c - B)" "P - B" "page_size s"] by simp
      show ?thesis
        using copy T S(3) rd b ofs False sto lp
          that [of "st\<lparr>ram_pg_cnt := Suc c, scan_buf := ?b, hash_mem := copied pg (page_size s) B (Suc (c - B)) hm, jack_ofs := Suc (c - B)\<rparr>"]
        by (simp add: U Let_def scanned_def min_def Suc_diff_le)
    qed
  qed
qed

lemma scan_pages:
  assumes g: "par_geometry s fsize" and gd: "good (flash s)" and lk: "\<not> one_lock s"
    and sz: "scan_sizes B P bm hm ws s" and ly: "meta_layout byte_at pg P ws s" and pg: "\<forall>p < P. length (pg p) = page_size s"
    and r: "r < length ws"
  shows "0 < j \<Longrightarrow> j \<le> pages_per_block s \<Longrightarrow> scanned pg (page_size s) B P bm hm (r * (pages_per_block s - 1) + (j - 1)) st
    \<Longrightarrow> \<exists>st'. ofold (scan_page K s (ws ! r) (int r)) [j..<pages_per_block s] st = Ret st'
      \<and> scanned pg (page_size s) B P bm hm (Suc r * (pages_per_block s - 1)) st' \<and> scan_order st' = scan_order st"
proof (induction "pages_per_block s - j" arbitrary: j st)
  case 0
  then have "j = pages_per_block s" by simp
  with 0 show ?case by (simp add: add.commute)
next
  case (Suc d)
  then have j: "j < pages_per_block s" by linarith
  obtain st' where st': "scan_page K s (ws ! r) (int r) j st = Ret st'" "scanned pg (page_size s) B P bm hm (Suc (r * (pages_per_block s - 1) + (j - 1))) st'"
    "scan_order st' = scan_order st"
    by (rule scan_page_step [OF g gd lk sz ly pg r Suc.prems(1) j refl Suc.prems(3)])
  have "Suc (r * (pages_per_block s - 1) + (j - 1)) = r * (pages_per_block s - 1) + (Suc j - 1)" using Suc.prems(1) by simp
  with st'(2) have "scanned pg (page_size s) B P bm hm (r * (pages_per_block s - 1) + (Suc j - 1)) st'" by metis
  from Suc.hyps(1) [OF _ _ _ this] Suc.hyps(2) j st'(1,3) show ?case by (auto simp: upt_conv_Cons)
qed

lemma scan_meta_block:
  assumes g: "par_geometry s fsize" and gd: "good (flash s)" and lk: "\<not> one_lock s"
    and sz: "scan_sizes B P bm hm ws s" and ly: "meta_layout byte_at pg P ws s" and pg: "\<forall>p < P. length (pg p) = page_size s"
    and r: "r < length ws" "r < length (scan_order st)" and st: "scanned pg (page_size s) B P bm hm (r * (pages_per_block s - 1)) st"
  obtains st' where "scan_block K s (ws ! r) st = Ret st'" "scanned pg (page_size s) B P bm hm (Suc r * (pages_per_block s - 1)) st'"
    "scan_order st' = (scan_order st)[r := int (ws ! r)]"
proof -
  note G = par_geometryD [OF g]
  let ?h = "meta_header (page_size s) r"
  let ?b = "?h @ drop (page_size s) (scan_buf st)"
  have S: "ws ! r < nb_blocks s" "r < 100" "16 \<le> page_size s" "r * (pages_per_block s - 1) \<le> P" using sz r by (auto simp: scan_sizes_def)
  have T: "page_size s \<le> length (scan_buf st)" "\<not> scan_done st" using st S(4) by (simp_all add: scanned_def)
  have lh: "length ?h = page_size s" using S by simp
  have rd: "read_page K (int (ws ! r * pages_per_block s)) s = Ret (0, ?h)"
    using par_read_page [OF g gd S(1), of 0] lk G(2) ly r by (simp add: meta_layout_def)
  have b: "mem_store (scan_buf st) 0 ?h = Ret ?b" "mem_slice ?b 0 (int (length META_HDR_BASE)) = Ret (chars META_HDR_BASE)"
    using T(1) lh S(3) mem_slice_int [of 0 7 ?b] header_string(2) [OF S(2,3)] by (simp_all add: mem_store_def)
  have nr: "scan_number K s ?b = Ret (int r)" by (rule scan_rank [OF gd S(2,3)])
  let ?st = "st\<lparr>scan_buf := ?b, scan_order := (scan_order st)[r := int (ws ! r)]\<rparr>"
  have "scanned pg (page_size s) B P bm hm (r * (pages_per_block s - 1) + (1 - 1)) ?st" using st lh T(1) by (simp add: scanned_def)
  then obtain st' where st': "ofold (scan_page K s (ws ! r) (int r)) [1..<pages_per_block s] ?st = Ret st'"
    "scanned pg (page_size s) B P bm hm (Suc r * (pages_per_block s - 1)) st'" "scan_order st' = scan_order ?st"
    using scan_pages [OF g gd lk sz ly pg r(1), of 1 ?st] G(2) by auto
  have "scan_block K s (ws ! r) st = Ret st'"
    using rd b nr T(2) r(2) st'(1) by (simp add: scan_block_def Let_def arr_upd_def del: of_nat_mult cong del: if_weak_cong)
  then show ?thesis using that st'(2,3) by simp
qed

lemma scan_other_block:
  assumes g: "par_geometry s fsize" and gd: "good (flash s)" and lk: "\<not> one_lock s"
    and ly: "meta_layout byte_at pg P ws s" and i: "i < nb_blocks s" "i \<notin> set ws"
    and st: "scanned pg (page_size s) B P bm hm c st"
  obtains st' where "scan_block K s i st = Ret st'" "scanned pg (page_size s) B P bm hm c st'" "scan_order st' = scan_order st"
proof (cases "scan_done st")
  case True
  then show ?thesis using that [of st] st by (simp add: scan_block_def)
next
  case False
  note G = par_geometryD [OF g]
  let ?p = "flash_page byte_at (page_size s) (flash s) (i * pages_per_block s)"
  let ?b = "?p @ drop (page_size s) (scan_buf st)"
  have T: "page_size s \<le> length (scan_buf st)" using st by (simp add: scanned_def)
  have rd: "read_page K (int (i * pages_per_block s)) s = Ret (0, ?p)"
    using par_read_page [OF g gd i(1), of 0] lk G(2) by simp
  have lp: "length ?p = page_size s" by simp
  have b: "mem_store (scan_buf st) 0 ?p = Ret ?b" "mem_slice ?b 0 (int (length META_HDR_BASE)) = Ret (take (length META_HDR_BASE) ?p)"
    using T lp G(3) mem_slice_int [of 0 7 ?b] by (simp_all add: mem_store_def)
  have "take (length META_HDR_BASE) ?p \<noteq> chars META_HDR_BASE" using ly i by (simp add: meta_layout_def)
  then have "scan_block K s i st = Ret (st\<lparr>scan_buf := ?b\<rparr>)"
    using rd b False by (simp add: scan_block_def Let_def del: of_nat_mult cong del: if_weak_cong)
  moreover have "scanned pg (page_size s) B P bm hm c (st\<lparr>scan_buf := ?b\<rparr>)" using st lp T by (simp add: scanned_def)
  ultimately show ?thesis using that by simp
qed

end

text \<open>The blocks are met in the order of their numbers; if they carry the ranks in that order, every page lands where it belongs.\<close>

definition below :: "nat list \<Rightarrow> nat \<Rightarrow> nat" where
  "below ws i = length (takeWhile (\<lambda>w. w < i) ws)"

lemma below_0 [simp]: "below ws 0 = 0" by (simp add: below_def takeWhile_eq_Nil_iff)

lemma below_le [simp]: "below ws i \<le> length ws" unfolding below_def by (rule length_takeWhile_le)

lemma below_all: "\<forall>w \<in> set ws. w < i \<Longrightarrow> below ws i = length ws" by (simp add: below_def takeWhile_eq_all_conv [THEN iffD2])

lemma below_none: "\<forall>x \<in> set ws. i < x \<Longrightarrow> takeWhile (\<lambda>w. w < Suc i) ws = []"
  by (cases ws) auto

lemma below_next:
  assumes "sorted_wrt (<) ws"
  shows "i \<in> set ws \<Longrightarrow> below ws i < length ws \<and> ws ! below ws i = i \<and> below ws (Suc i) = Suc (below ws i)"
    "i \<notin> set ws \<Longrightarrow> below ws (Suc i) = below ws i"
  using assms by (induction ws) (auto simp: below_def below_none)

context reliable_flash
begin

lemma scan_blocks:
  assumes g: "par_geometry s fsize" and gd: "good (flash s)" and lk: "\<not> one_lock s"
    and sz: "scan_sizes B P bm hm ws s" and ly: "meta_layout byte_at pg P ws s" and pg: "\<forall>p < P. length (pg p) = page_size s"
    and ws: "sorted_wrt (<) ws" "length ws \<le> length ord"
  shows "i \<le> nb_blocks s \<Longrightarrow> scanned pg (page_size s) B P bm hm (below ws i * (pages_per_block s - 1)) st
    \<Longrightarrow> scan_order st = map int (take (below ws i) ws) @ drop (below ws i) ord
    \<Longrightarrow> \<exists>st'. ofold (scan_block K s) [i..<nb_blocks s] st = Ret st'
      \<and> scanned pg (page_size s) B P bm hm (length ws * (pages_per_block s - 1)) st' \<and> scan_order st' = map int ws @ drop (length ws) ord"
proof (induction "nb_blocks s - i" arbitrary: i st)
  case 0
  then have "below ws i = length ws" using sz by (intro below_all) (simp add: scan_sizes_def)
  with 0 show ?case by simp
next
  case (Suc d)
  then have i: "i < nb_blocks s" by linarith
  have up: "[i..<nb_blocks s] = i # [Suc i..<nb_blocks s]" using i by (rule upt_conv_Cons)
  show ?case
  proof (cases "i \<in> set ws")
    case True
    note b = below_next(1) [OF ws(1) True]
    have lo: "below ws i < length (scan_order st)" using b ws(2) Suc.prems(3) by simp
    obtain st' where st': "scan_block K s (ws ! below ws i) st = Ret st'" "scanned pg (page_size s) B P bm hm (Suc (below ws i) * (pages_per_block s - 1)) st'"
      "scan_order st' = (scan_order st)[below ws i := int (ws ! below ws i)]"
      using scan_meta_block [OF g gd lk sz ly pg _ lo Suc.prems(2)] b by blast
    have "scan_order st' = map int (take (Suc (below ws i)) ws) @ drop (Suc (below ws i)) ord"
      using b ws(2) by (simp add: st'(3) Suc.prems(3) take_Suc_conv_app_nth list_update_append Cons_nth_drop_Suc [symmetric])
    with Suc.hyps(1) [of "Suc i" st'] Suc.hyps(2) i st'(1,2) b show ?thesis by (simp add: up)
  next
    case False
    obtain st' where st': "scan_block K s i st = Ret st'" "scanned pg (page_size s) B P bm hm (below ws i * (pages_per_block s - 1)) st'"
      "scan_order st' = scan_order st"
      by (rule scan_other_block [OF g gd lk ly i False Suc.prems(2)])
    with Suc.hyps(1) [of "Suc i" st'] Suc.hyps(2) i below_next(2) [OF ws(1) False] Suc.prems(3) show ?thesis by (simp add: up)
  qed
qed

end

end
