(* ===== verification/ParallelReload.thy ===== *)
theory ParallelReload
  imports ParallelScan
begin

text \<open>
  Loading the third prototype after a flush: the bytes the scan has copied are decoded and the lists
  are rebuilt, which gives a store with the couples that were flushed.
\<close>

section \<open>Tables from their pages\<close>

lemma concat_table_pages:
  "n * ps \<le> length mem \<Longrightarrow> concat (map (\<lambda>g. take ps (drop (g * ps) mem)) [0..<n]) = take (n * ps) mem"
  by (induction n) (simp_all add: add.commute [of ps] take_add)

lemma nth_pages:
  assumes "\<forall>g < n. length (f g) = ps" "a < n * ps"
  shows "concat (map f [0..<n]) ! a = f (a div ps) ! (a mod ps)"
  using assms
proof (induction n)
  case (Suc n)
  have l: "length (concat (map f [0..<n])) = n * ps" using length_pages [of "[0..<n]" f ps] Suc.prems(1) by simp
  show ?case
  proof (cases "a < n * ps")
    case True
    then show ?thesis using Suc l by (simp add: nth_append)
  next
    case False
    then have "a div ps = n" by (intro div_nat_eqI) (use Suc.prems(2) in \<open>simp_all add: mult.commute\<close>)
    then show ?thesis using False l minus_div_mult_eq_mod [of a ps] by (simp add: nth_append)
  qed
qed simp

lemma copied_all:
  assumes "length mem = n * ps"
  shows "copied pg ps a n mem = concat (map pg [a..<a + n])"
  using assms by (simp add: copied_def)

lemma copied_image:
  assumes "length mem = n * ps" "length img = n * ps" "\<forall>g < n. pg (a + g) = take ps (drop (g * ps) img)"
  shows "copied pg ps a n mem = img"
proof -
  have "map pg [a..<a + n] = map (\<lambda>g. pg (a + g)) [0..<n]" by (intro nth_equalityI) simp_all
  also have "\<dots> = map (\<lambda>g. take ps (drop (g * ps) img)) [0..<n]" using assms(3) by simp
  finally show ?thesis using concat_table_pages [of n ps img] assms(2) by (simp add: copied_all [OF assms(1)])
qed

section \<open>The block table\<close>

text \<open>
  The pages of the block table were written one after the other, each with the offsets of the metadata
  blocks at that time; the offset of a block is the one of the page it lies in.
\<close>

lemma block_bytes_offset:
  "u < 20 \<Longrightarrow> blk_info_bytes K a (b\<lparr>current_page_offset := x\<rparr>) ! u = blk_info_bytes K a b ! u"
  by (simp add: blk_info_bytes_def nth_append)

lemma offset_page:
  assumes "4 dvd ps" "20 \<le> u" "u < 24"
  shows "(i * 24 + u) div ps = (i * 24 + 20) div (ps :: nat)"
proof -
  obtain y where y: "ps = 4 * y" using assms(1) by (rule dvdE)
  have "(i * 24 + u) div 4 = 6 * i + 5" using assms(2,3) by (intro div_nat_eqI) simp_all
  moreover have "(i * 24 + 20) div 4 = 6 * i + 5" by (intro div_nat_eqI) simp_all
  ultimately show ?thesis unfolding y by (simp only: div_mult2_eq)
qed

lemma image_mix:
  assumes ps: "4 dvd ps" "0 < ps" and B: "n * SIZEOF_BLK_INFO \<le> B * ps" and i: "i < n"
    and pg: "\<forall>g < B. length (pg g) = ps \<and> pg g = take ps (drop (g * ps) (img g))"
    and img: "\<forall>g < B. length (img g) = B * ps \<and> (\<exists>r. drop (i * SIZEOF_BLK_INFO) (img g) = blk_info_bytes K (i * SIZEOF_BLK_INFO) (b g) @ r)"
    and b: "\<forall>g. \<exists>x. b g = b0\<lparr>current_page_offset := x\<rparr>"
  shows "\<exists>r. drop (i * SIZEOF_BLK_INFO) (concat (map pg [0..<B])) = blk_info_bytes K (i * SIZEOF_BLK_INFO) (b ((i * SIZEOF_BLK_INFO + 20) div ps)) @ r"
proof -
  let ?m = "concat (map pg [0..<B])" and ?a = "i * SIZEOF_BLK_INFO" and ?bb = "\<lambda>g. blk_info_bytes K (i * SIZEOF_BLK_INFO) (b g)"
  have S: "SIZEOF_BLK_INFO = 24" by (simp add: SIZEOF_BLK_INFO_def)
  have lp: "\<forall>p \<in> set [0..<B]. length (pg p) = ps" using pg by (metis atLeastLessThan_iff set_upt)
  have lm: "length ?m = B * ps" using length_pages [OF lp] by simp
  have le: "?a + 24 \<le> B * ps" using B i mult_le_mono1 [of "Suc i" n 24] unfolding S by simp
  have nth: "?m ! (?a + u) = ?bb ((?a + 20) div ps) ! u" if u: "u < 24" for u
  proof -
    let ?g = "(?a + u) div ps"
    have g: "?g < B" using le u ps(2) by (simp add: less_mult_imp_div_less)
    have gm: "?g * ps + (?a + u) mod ps = ?a + u" by simp
    have "?m ! (?a + u) = pg ?g ! ((?a + u) mod ps)" by (rule nth_pages) (use lp le u in simp_all)
    also have "\<dots> = img ?g ! (?a + u)"
      using pg img g ps(2) gm mult_le_mono1 [of "Suc ?g" B ps] by (simp add: nth_drop)
    also have "\<dots> = drop ?a (img ?g) ! u" using img g le u by (simp add: nth_drop)
    also have "\<dots> = ?bb ?g ! u" using img g u length_block_bytes [of K ?a "b ?g"] S by (fastforce simp: nth_append)
    also have "\<dots> = ?bb ((?a + 20) div ps) ! u"
    proof (cases "u < 20")
      case True
      obtain x y where "b ?g = b0\<lparr>current_page_offset := x\<rparr>" "b ((?a + 20) div ps) = b0\<lparr>current_page_offset := y\<rparr>" using b by blast
      then show ?thesis using True by (simp add: block_bytes_offset)
    next
      case False
      then show ?thesis using offset_page [OF ps(1), of u i] u unfolding S by simp
    qed
    finally show ?thesis .
  qed
  have "take 24 (drop ?a ?m) = ?bb ((?a + 20) div ps)"
  proof (rule nth_equalityI)
    show "length (take 24 (drop ?a ?m)) = length (?bb ((?a + 20) div ps))" using lm le S by simp
    show "take 24 (drop ?a ?m) ! u = ?bb ((?a + 20) div ps) ! u" if "u < length (take 24 (drop ?a ?m))" for u
      using that nth lm le by simp
  qed
  then show ?thesis by (intro exI [of _ "drop 24 (drop ?a ?m)"]) (metis append_take_drop_id)
qed


lemma flush_setup_sizes:
  assumes "flush_setup s fsize ws"
  shows "block_info_size s mod page_size s = 0" "hashtable_size s mod page_size s = 0"
    "SIZEOF_BLK_INFO * nb_blocks s \<le> block_info_size s" "SIZEOF_BUCKET * length (hashtable s) \<le> hashtable_size s"
  using assms by (auto simp: flush_setup_def)

text \<open>The offsets of the metadata blocks a load finds.\<close>

definition seen_blk :: "'m lkp_kv \<Rightarrow> nat list \<Rightarrow> nat \<Rightarrow> blk_info" where
  "seen_blk s ws i = (filled s ws ((i * SIZEOF_BLK_INFO + 20) div page_size s) ! i)\<lparr>valid_list := []\<rparr>"

lemma filled_offset:
  assumes "i < nb_blocks s"
  shows "\<exists>x. filled s ws g ! i = (blocks s ! i)\<lparr>current_page_offset := x\<rparr>"
proof -
  have "\<exists>x. b = b\<lparr>current_page_offset := x\<rparr>" for b by (intro exI [of _ "current_page_offset b"]) simp
  then show ?thesis using assms by (cases "i \<in> set ws") (auto simp: filled_def)
qed

lemma reload_block:
  assumes st: "flush_setup s fsize ws" and i: "i < nb_blocks s" and ps: "4 dvd page_size s"
    and f: "\<And>g. block_fits (filled s ws g ! i)" and B: "B = block_info_size s div page_size s" and bm: "length bm = B * page_size s"
  shows "loaded_block (copied (table_page K s ws) (page_size s) 0 B bm) i = seen_blk s ws i"
proof -
  let ?pg = "table_page K s ws" and ?img = "\<lambda>g. blocks_image K (s\<lparr>blocks := filled s ws g\<rparr>)"
  have p0: "0 < page_size s" using flush_setupD(1) [OF st] par_geometryD(3) by fastforce
  have sz: "block_info_size s = B * page_size s" using flush_setup_sizes(1) [OF st] B by (auto simp: mod_0_imp_dvd)
  have li: "length (?img g) = B * page_size s" for g
    using length_blocks_image [of "s\<lparr>blocks := filled s ws g\<rparr>" K] flush_setup_sizes(3) [OF st] sz by simp
  have pg: "\<forall>g < B. length (?pg g) = page_size s \<and> ?pg g = take (page_size s) (drop (g * page_size s) (?img g))"
    using page_slice(2) [OF li] B by (simp add: table_page_def Let_def)
  have im: "\<exists>r. drop (i * SIZEOF_BLK_INFO) (?img g) = blk_info_bytes K (i * SIZEOF_BLK_INFO) (filled s ws g ! i) @ r" for g
    by (rule block_image_at [of i "s\<lparr>blocks := filled s ws g\<rparr>" K]) (use i in auto)
  have n: "nb_blocks s * SIZEOF_BLK_INFO \<le> B * page_size s" using flush_setup_sizes(3) [OF st] sz by (simp add: mult.commute)
  obtain r where r: "drop (i * SIZEOF_BLK_INFO) (concat (map ?pg [0..<B]))
      = blk_info_bytes K (i * SIZEOF_BLK_INFO) (filled s ws ((i * SIZEOF_BLK_INFO + 20) div page_size s) ! i) @ r"
    using image_mix [OF ps p0 n i pg, of K "\<lambda>g. filled s ws g ! i" "blocks s ! i"] li im filled_offset [OF i] by auto
  show ?thesis
    using f [of "(i * SIZEOF_BLK_INFO + 20) div page_size s"] r
    by (simp add: copied_all [OF bm] loaded_block_def bytes_blk_info_bytes seen_blk_def) (simp add: block_fits_def)
qed

lemma reload_bucket:
  assumes st: "flush_setup s fsize ws" and h: "h < length (hashtable s)" "bucket_fits (hashtable s ! h)"
    and B: "B = block_info_size s div page_size s" and H: "H = hashtable_size s div page_size s" and hm: "length hm = H * page_size s"
  shows "bytes_bucket (drop (h * SIZEOF_BUCKET) (copied (table_page K s ws) (page_size s) B H hm)) = hashtable s ! h"
proof -
  have sz: "hashtable_size s = H * page_size s" using flush_setup_sizes(2) [OF st] H by (auto simp: mod_0_imp_dvd)
  have l: "length (hash_image K s) = H * page_size s" using length_hash_image [of s K] flush_setup_sizes(4) [OF st] sz by simp
  have "copied (table_page K s ws) (page_size s) B H hm = hash_image K s"
    by (rule copied_image [OF hm l]) (simp add: table_page_def Let_def flip: B)
  then show ?thesis using bucket_image_nth [OF h] by simp
qed

section \<open>The lists\<close>

definition owned :: "'m lkp_kv \<Rightarrow> nat \<Rightarrow> nat \<Rightarrow> bool" where
  "owned s i h \<longleftrightarrow> p_state (hashtable s ! h) = PG_VALID \<and> c_div (index (hashtable s ! h)) (pages_per_block s) = int i"

definition linked_blk :: "'m lkp_kv \<Rightarrow> nat \<Rightarrow> nat \<Rightarrow> blk_info" where
  "linked_blk s n i = (blocks s ! i)\<lparr>valid_list := rev (filter (owned s i) [0..<n])\<rparr>"

lemma link_step:
  assumes "n < length (hashtable s)" and nb: "length (blocks s) = nb" and pv: "p_state (hashtable s ! n) = PG_VALID \<Longrightarrow> \<exists>i < nb. owned s i n"
  shows "link_valid n (s\<lparr>blocks := map (linked_blk s n) [0..<nb]\<rparr>) = Ret (s\<lparr>blocks := map (linked_blk s (Suc n)) [0..<nb]\<rparr>)"
proof (cases "p_state (hashtable s ! n) = PG_VALID")
  case False
  then have "linked_blk s (Suc n) = linked_blk s n" by (simp add: linked_blk_def fun_eq_iff owned_def)
  then show ?thesis using False assms(1) by (simp add: link_valid_def)
next
  case True
  then obtain i where i: "i < nb" "owned s i n" using pv by blast
  then have d: "c_div (index (hashtable s ! n)) (pages_per_block s) = int i" by (simp add: owned_def)
  have nl: "\<not> linked n (s\<lparr>blocks := map (linked_blk s n) [0..<nb]\<rparr>)" by (auto simp: linked_def list_ex_iff linked_blk_def)
  have up: "(map (linked_blk s n) [0..<nb])[i := (linked_blk s n i)\<lparr>valid_list := n # valid_list (linked_blk s n i)\<rparr>] = map (linked_blk s (Suc n)) [0..<nb]"
  proof (rule nth_equalityI)
    fix i' assume "i' < length ((map (linked_blk s n) [0..<nb])[i := (linked_blk s n i)\<lparr>valid_list := n # valid_list (linked_blk s n i)\<rparr>])"
    then show "(map (linked_blk s n) [0..<nb])[i := (linked_blk s n i)\<lparr>valid_list := n # valid_list (linked_blk s n i)\<rparr>] ! i' = map (linked_blk s (Suc n)) [0..<nb] ! i'"
      using i d by (cases "i' = i") (auto simp: linked_blk_def owned_def)
  qed simp
  show ?thesis
    using True assms(1) i(1) nl up by (simp add: link_valid_def d list_add_def upd_block_def)
qed

lemma link_all:
  assumes "length (blocks s) = nb" and pv: "\<And>h. h < length (hashtable s) \<Longrightarrow> p_state (hashtable s ! h) = PG_VALID \<Longrightarrow> \<exists>i < nb. owned s i h"
    and vl: "\<forall>b \<in> set (blocks s). valid_list b = []"
  shows "n \<le> length (hashtable s) \<Longrightarrow> ofold link_valid [0..<n] s = Ret (s\<lparr>blocks := map (linked_blk s n) [0..<nb]\<rparr>)"
proof (induction n)
  case 0
  have "map (linked_blk s 0) [0..<nb] = blocks s"
  proof (rule nth_equalityI)
    fix i assume "i < length (map (linked_blk s 0) [0..<nb])"
    then have i: "i < nb" by simp
    then have "valid_list (blocks s ! i) = []" using vl assms(1) by simp
    then have "(blocks s ! i)\<lparr>valid_list := []\<rparr> = blocks s ! i" by (cases "blocks s ! i") simp
    then show "map (linked_blk s 0) [0..<nb] ! i = blocks s ! i" using i by (simp add: linked_blk_def)
  qed (use assms(1) in simp)
  then show ?case by simp
next
  case (Suc n)
  then show ?case using link_step [OF _ assms(1), of n] pv by (simp add: ofold_append)
qed


section \<open>The scan as a whole\<close>

definition reload_blk :: "'m lkp_kv \<Rightarrow> nat list \<Rightarrow> nat \<Rightarrow> blk_info" where
  "reload_blk s ws i = (seen_blk s ws i)\<lparr>valid_list := rev (filter (owned s i) [0..<HASH_SIZE s])\<rparr>"

definition reloaded :: "'m lkp_kv \<Rightarrow> nat list \<Rightarrow> 'm lkp_kv \<Rightarrow> 'm lkp_kv" where
  "reloaded s ws t = t\<lparr>meta_blkordr := map int ws @ drop (length ws) (meta_blkordr t),
     blocks := map (reload_blk s ws) [0..<nb_blocks s], hashtable := hashtable s\<rparr>"

text \<open>A module that has just set its geometry: blank tables of the same sizes, over the flash \<open>m\<close>.\<close>

definition fresh_like :: "'m lkp_kv \<Rightarrow> nat \<Rightarrow> 'm \<Rightarrow> 'm lkp_kv \<Rightarrow> bool" where
  "fresh_like s fsize m t \<longleftrightarrow> par_geometry t fsize \<and> unlocked t \<and> flash t = m \<and> \<not> read_only t \<and> \<not> meta_read_only t
     \<and> nb_blocks t = nb_blocks s \<and> pages_per_block t = pages_per_block s \<and> page_size t = page_size s \<and> HASH_SIZE t = HASH_SIZE s
     \<and> block_info_size t = block_info_size s \<and> hashtable_size t = hashtable_size s \<and> metadata_size t = hashtable_size t + block_info_size t
     \<and> length (blocks t) = nb_blocks t \<and> length (hashtable t) = HASH_SIZE t"

text \<open>The tables were written by a flush, in the order in which the scan meets the blocks.\<close>

definition written :: "('m \<Rightarrow> nat \<Rightarrow> byte) \<Rightarrow> 'm heap_kernel \<Rightarrow> nat \<Rightarrow> 'm lkp_kv \<Rightarrow> nat list \<Rightarrow> 'm \<Rightarrow> bool" where
  "written byte_at K fsize s ws m \<longleftrightarrow> flush_setup s fsize ws \<and> sorted_wrt (<) ws \<and> 4 dvd page_size s
     \<and> (\<exists>B P. B = block_info_size s div page_size s \<and> P = B + hashtable_size s div page_size s \<and> B \<le> pages_per_block s - 1
          \<and> (\<forall>r < length ws. r * (pages_per_block s - 1) < P) \<and> P \<le> length ws * (pages_per_block s - 1) \<and> meta_pages byte_at K s ws P m)
     \<and> (\<forall>i < nb_blocks s. i \<notin> set ws
          \<longrightarrow> take (length META_HDR_BASE) (flash_page byte_at (page_size s) (flash s) (i * pages_per_block s)) \<noteq> chars META_HDR_BASE)
     \<and> length (hashtable s) = HASH_SIZE s \<and> (\<forall>i < nb_blocks s. \<forall>g. block_fits (filled s ws g ! i))
     \<and> (\<forall>h < length (hashtable s). bucket_fits (hashtable s ! h) \<and> (p_state (hashtable s ! h) = PG_VALID \<longrightarrow> (\<exists>i < nb_blocks s. owned s i h)))"

lemma written_layout:
  assumes pg: "meta_pages byte_at K s ws P m" and q: "1 < pages_per_block s" and n: "\<forall>r < length ws. r * (pages_per_block s - 1) < P"
    and o': "\<forall>i < nb_blocks s. i \<notin> set ws
          \<longrightarrow> take (length META_HDR_BASE) (flash_page byte_at (page_size s) (flash s) (i * pages_per_block s)) \<noteq> chars META_HDR_BASE"
    and t: "nb_blocks t = nb_blocks s" "pages_per_block t = pages_per_block s" "page_size t = page_size s" "flash t = m"
  shows "meta_layout byte_at (table_page K s ws) P ws t"
proof -
  have p: "flash_page byte_at (page_size s) m (ws ! r * pages_per_block s + j) = meta_page_at K s ws P r j" if "r < length ws" "j < pages_per_block s" for r j
    using pg that by (simp add: meta_pages_def)
  have o2: "flash_page byte_at (page_size s) m (i * pages_per_block s + 0) = flash_page byte_at (page_size s) (flash s) (i * pages_per_block s + 0)" if "i \<notin> set ws" for i
    using pg that q by (simp add: meta_pages_def del: add_0_right Nat.add_0_right)
  have "flash_page byte_at (page_size s) m (ws ! r * pages_per_block s) = meta_header (page_size s) r" if "r < length ws" for r
    using p [OF that, of 0] q n that by (auto simp: meta_page_at_def Let_def not_le)
  moreover have "flash_page byte_at (page_size s) m (ws ! r * pages_per_block s + j) = table_page K s ws (r * (pages_per_block s - 1) + (j - 1))"
    if "r < length ws" "0 < j" "j < pages_per_block s" "r * (pages_per_block s - 1) + (j - 1) < P" for r j
    using p [OF that(1,3)] n that by (auto simp: meta_page_at_def Let_def not_le)
  ultimately show ?thesis using o' o2 by (simp add: meta_layout_def t)
qed

lemma length_table_page:
  assumes st: "flush_setup s fsize ws" and g: "g < block_info_size s div page_size s + hashtable_size s div page_size s"
  shows "length (table_page K s ws g) = page_size s"
proof -
  have l: "length (blocks_image K (s\<lparr>blocks := filled s ws g\<rparr>)) = block_info_size s div page_size s * page_size s"
    using length_blocks_image [of "s\<lparr>blocks := filled s ws g\<rparr>" K] flush_setup_sizes [OF st] by (auto simp: mod_0_imp_dvd)
  have l2: "length (hash_image K s) = hashtable_size s div page_size s * page_size s"
    using length_hash_image [of s K] flush_setup_sizes [OF st] by (auto simp: mod_0_imp_dvd)
  show ?thesis using page_slice(2) [OF l] page_slice(2) [OF l2] g by (simp add: table_page_def Let_def)
qed

lemma reloaded_writable:
  assumes st: "flush_setup s fsize ws" and fr: "fresh_like s fsize m t" and ms: "metadata_size s = hashtable_size s + block_info_size s"
  shows "\<not> is_read_only (reloaded s ws t)"
proof -
  have "\<not> is_read_only (s\<lparr>blocks := map (reload_blk s ws) [0..<nb_blocks s]\<rparr>)"
    by (rule flush_setup_writable [OF st]) (auto simp: reload_blk_def seen_blk_def filled_def)
  moreover have "meta_page_size t = meta_page_size s" using fr par_geometryD(5) [of t] par_geometryD(5) [OF flush_setupD(1) [OF st]] by (auto simp: fresh_like_def)
  ultimately show ?thesis using fr ms by (simp add: is_read_only_def reloaded_def fresh_like_def nb_meta_def)
qed

context reliable_flash
begin

lemma reload_scan:
  assumes w: "written byte_at K fsize s ws m" and gd: "good m" and fr: "fresh_like s fsize m t"
    and ms: "metadata_size s = hashtable_size s + block_info_size s" and len: "length ws \<le> length (meta_blkordr t)"
  shows "init_scan K t = Ret (0, reloaded s ws t)"
proof -
  let ?u = "t\<lparr>erase_lock := True\<rparr>" and ?pg = "table_page K s ws"
  obtain B P where W: "flush_setup s fsize ws" "sorted_wrt (<) ws" "4 dvd page_size s" "B = block_info_size s div page_size s"
    "P = B + hashtable_size s div page_size s" "B \<le> pages_per_block s - 1" "\<forall>r < length ws. r * (pages_per_block s - 1) < P"
    "P \<le> length ws * (pages_per_block s - 1)" "meta_pages byte_at K s ws P m"
    "\<forall>i < nb_blocks s. i \<notin> set ws
          \<longrightarrow> take (length META_HDR_BASE) (flash_page byte_at (page_size s) (flash s) (i * pages_per_block s)) \<noteq> chars META_HDR_BASE"
    "length (hashtable s) = HASH_SIZE s" "\<And>i g. i < nb_blocks s \<Longrightarrow> block_fits (filled s ws g ! i)"
    "\<And>h. h < length (hashtable s) \<Longrightarrow> bucket_fits (hashtable s ! h)"
    "\<And>h. h < length (hashtable s) \<Longrightarrow> p_state (hashtable s ! h) = PG_VALID \<Longrightarrow> \<exists>i < nb_blocks s. owned s i h"
    using w unfolding written_def by blast
  note st = W(1)
  have F: "par_geometry t fsize" "unlocked t" "flash t = m" "\<not> read_only t" "\<not> meta_read_only t" "nb_blocks t = nb_blocks s"
    "pages_per_block t = pages_per_block s" "page_size t = page_size s" "HASH_SIZE t = HASH_SIZE s" "block_info_size t = block_info_size s"
    "hashtable_size t = hashtable_size s" "metadata_size t = hashtable_size t + block_info_size t" "length (blocks t) = nb_blocks s"
    "length (hashtable t) = HASH_SIZE s" using fr by (simp_all add: fresh_like_def)
  have g: "par_geometry ?u fsize" "good (flash ?u)" "\<not> one_lock ?u" using F gd by (simp_all add: lock_simps unlocked_def)
  note G = par_geometryD [OF F(1)]
  have sz: "block_info_size s = B * page_size s" "hashtable_size s = (P - B) * page_size s"
    using flush_setup_sizes(1,2) [OF st] W(4,5) by (auto simp: mod_0_imp_dvd)
  let ?bm = "blocks_image K ?u" and ?hm = "hash_image K ?u"
  have lb: "length ?bm = B * page_size s" using length_blocks_image [of ?u K] flush_setup_sizes(3) [OF st] F sz by simp
  have lh: "length ?hm = (P - B) * page_size s" using length_hash_image [of ?u K] flush_setup_sizes(4) [OF st] F sz W(11) by simp
  have ss: "scan_sizes B P ?bm ?hm ws ?u"
    using W(4-7) lb lh F flush_setupD(7,9,11) [OF st] by (auto simp: scan_sizes_def less_imp_le)
  have ly: "meta_layout byte_at ?pg P ws ?u"
    by (rule written_layout [OF W(9) _ W(7) W(10)]) (use F G(2) in simp_all)
  have pl: "\<forall>p < P. length (?pg p) = page_size ?u" using length_table_page [OF st] W(4,5) F(8) by simp
  obtain bf where bf: "k_kmalloc K m (meta_page_size t) = Some bf" "meta_page_size t \<le> length bf" using kmalloc_ok [OF gd] by blast
  obtain hd where hd: "k_kmalloc K m SIZEOF_LIST_HEAD = Some hd" using kmalloc_ok [OF gd] by blast
  define st0 where "st0 = \<lparr>scan_done = False, ram_pg_cnt = 0, jack_ofs = 0, scan_buf = replicate (meta_page_size t) 0 @ drop (meta_page_size t) bf,
      blk_mem = ?bm, hash_mem = ?hm, scan_order = meta_blkordr t\<rparr>"
  have s0: "scanned ?pg (page_size ?u) B P ?bm ?hm (below ws 0 * (pages_per_block ?u - 1)) st0"
    "scan_order st0 = map int (take (below ws 0) ws) @ drop (below ws 0) (meta_blkordr t)"
    using G(5) bf(2) by (simp_all add: scanned_def st0_def)
  obtain st1 where s1: "ofold (scan_block K ?u) [0..<nb_blocks ?u] st0 = Ret st1"
    "scanned ?pg (page_size s) B P ?bm ?hm (length ws * (pages_per_block s - 1)) st1" "scan_order st1 = map int ws @ drop (length ws) (meta_blkordr t)"
    using scan_blocks [OF g ss ly pl W(2) len, of 0 st0] s0 F by auto
  have BP: "B \<le> P" using W(5) by simp
  have tab: "blk_mem st1 = copied ?pg (page_size s) 0 B ?bm" "hash_mem st1 = copied ?pg (page_size s) B (P - B) ?hm"
    using s1(2) min_absorb2 [OF W(8)] min_absorb2 [OF le_trans [OF BP W(8)]] by (simp_all add: scanned_def)
  define bs where "bs = map (seen_blk s ws) [0..<nb_blocks s]"
  have bl: "map (loaded_block (blk_mem st1)) [0..<nb_blocks s] = bs"
    unfolding tab bs_def using reload_block [OF st _ W(3) W(12) W(4) lb] by (auto intro!: map_cong)
  have ht: "map (\<lambda>h. bytes_bucket (drop (h * SIZEOF_BUCKET) (hash_mem st1))) [0..<HASH_SIZE s] = hashtable s"
    unfolding tab using reload_bucket [OF st _ W(13) W(4) _ lh] W(5,11) by (intro nth_equalityI) simp_all
  let ?v = "?u\<lparr>meta_blkordr := map int ws @ drop (length ws) (meta_blkordr t), blocks := bs, hashtable := hashtable s\<rparr>"
  have own: "owned ?v = owned s" using F(7) by (simp add: owned_def fun_eq_iff)
  have lnk: "ofold link_valid [0..<HASH_SIZE s] ?v = Ret (?v\<lparr>blocks := map (reload_blk s ws) [0..<nb_blocks s]\<rparr>)"
  proof -
    have "ofold link_valid [0..<HASH_SIZE s] ?v = Ret (?v\<lparr>blocks := map (linked_blk ?v (HASH_SIZE s)) [0..<nb_blocks s]\<rparr>)"
      by (rule link_all) (use W(11,14) own in \<open>auto simp: bs_def seen_blk_def\<close>)
    moreover have "map (linked_blk ?v (HASH_SIZE s)) [0..<nb_blocks s] = map (reload_blk s ws) [0..<nb_blocks s]"
      unfolding linked_blk_def own by (simp add: reload_blk_def bs_def)
    ultimately show ?thesis by simp
  qed
  have m1: "?u\<lparr>metadata_size := hashtable_size ?u + block_info_size ?u\<rparr> = ?u" using F(12) by (cases t) simp
  have rl: "?v\<lparr>blocks := map (reload_blk s ws) [0..<nb_blocks s]\<rparr> = (reloaded s ws t)\<lparr>erase_lock := True\<rparr>" by (simp add: reloaded_def)
  have nro: "\<not> is_read_only (reloaded s ws t)" by (rule reloaded_writable [OF st fr ms])
  have off: "(reloaded s ws t)\<lparr>erase_lock := False\<rparr> = reloaded s ws t" using F(2) by (cases t) (simp add: reloaded_def unlocked_def)
  have "init_scan K t = obind (ofold (scan_block K ?u) [0..<nb_blocks ?u] st0) (\<lambda>st.
         let s = ?u\<lparr>meta_blkordr := scan_order st, blocks := map (loaded_block (blk_mem st)) [0..<nb_blocks ?u],
                    hashtable := map (\<lambda>h. bytes_bucket (drop (h * SIZEOF_BUCKET) (hash_mem st))) [0..<HASH_SIZE ?u]\<rparr> in
         obind (ofold link_valid [0..<HASH_SIZE s] s) (\<lambda>s.
           let s = (if is_read_only s then s\<lparr>read_only := True, meta_read_only := True\<rparr> else s)
           in Ret (0, unlock_erase s)))"
    using F(2,3) bf(1) hd by (simp add: init_scan_def lock_erase_def unlocked_def kzalloc_def m1 [simplified] st0_def Let_def del: ofold.simps)
  also have "\<dots> = Ret (0, reloaded s ws t)"
    using s1(1,3) bl ht lnk rl nro off F(6,9) by (simp add: Let_def lock_simps unlock_erase_def)
  finally show ?thesis .
qed

end


section \<open>The couples are the same\<close>

text \<open>The lists hold what the entries say, in another order.\<close>

lemma relinked:
  assumes rep: "par_rep byte_at good fsize M s" and v: "\<forall>h < length (hashtable s). p_state (hashtable s ! h) \<noteq> PG_FREE \<longrightarrow> p_state (hashtable s ! h) = PG_VALID"
    and i: "i < nb_blocks s"
  shows "set (filter (owned s i) [0..<HASH_SIZE s]) = set (valid_list (blocks s ! i))"
    "block_kind s i \<noteq> Data \<Longrightarrow> filter (owned s i) [0..<HASH_SIZE s] = []"
proof -
  note D = par_repD [OF rep]
  have lh: "length (hashtable s) = HASH_SIZE s" using D(5) by (simp add: index_ok_size)
  have own: "h \<in> set (valid_list (blocks s ! i)) \<and> block_kind s i = Data" if h: "h < HASH_SIZE s" "owned s i h" for h
  proof -
    have e: "entry (hashtable s) h = Some (key (hashtable s ! h), index (hashtable s ! h))" using h lh by (simp add: entry_def owned_def)
    obtain i' where "h \<in> set (valid_list (blocks s ! i'))" "block_kind s i' = Data" "c_div (index (hashtable s ! h)) (pages_per_block s) = int i'"
      by (rule par_entryD [OF rep e]) blast
    then show ?thesis using h(2) by (simp add: owned_def)
  qed
  have "h < HASH_SIZE s \<and> owned s i h" if h: "h \<in> set (valid_list (blocks s ! i))" for h
  proof -
    obtain k j where "entry (hashtable s) h = Some (k, int (i * pages_per_block s + j))" "j < pages_per_block s"
      using view_okD(6) [OF D(6)] h i unfolding v_lists_def view_of_simps by blast
    then have e: "h < length (hashtable s)" "p_state (hashtable s ! h) \<noteq> PG_FREE" "index (hashtable s ! h) = int (i * pages_per_block s + j)" "j < pages_per_block s"
      by (auto simp: entry_def split: if_splits)
    then have "c_div (index (hashtable s ! h)) (pages_per_block s) = int i" by (simp only: c_div_int div_mult_lt)
    then show ?thesis using e v lh by (simp add: owned_def)
  qed
  with own show "set (filter (owned s i) [0..<HASH_SIZE s]) = set (valid_list (blocks s ! i))" by auto
  show "filter (owned s i) [0..<HASH_SIZE s] = []" if "block_kind s i \<noteq> Data"
    using own that by (auto simp: filter_empty_conv)
qed

lemma reload_similar:
  assumes rep: "par_rep byte_at good fsize M s" and v: "\<forall>h < length (hashtable s). p_state (hashtable s ! h) \<noteq> PG_FREE \<longrightarrow> p_state (hashtable s ! h) = PG_VALID"
    and t: "nb_blocks t = nb_blocks s" "pages_per_block t = pages_per_block s" "page_size t = page_size s" "flash t = flash s" "hashtable t = hashtable s"
    and mt: "\<And>i. i < nb_blocks s \<Longrightarrow> is_meta t i \<longleftrightarrow> is_meta s i"
    and bl: "\<And>i. i < nb_blocks s \<Longrightarrow> \<exists>x. blocks t ! i = (blocks s ! i)\<lparr>current_page_offset := x, valid_list := rev (filter (owned s i) [0..<HASH_SIZE s])\<rparr>
      \<and> 0 \<le> x \<and> x \<le> int (pages_per_block s) \<and> (\<not> is_meta s i \<longrightarrow> x = current_page_offset (blocks s ! i))"
  shows "v_similar (view_of byte_at s) (view_of byte_at t)"
  unfolding v_similar_def
proof (intro conjI allI impI)
  fix i assume "i < v_nb (view_of byte_at s)"
  then have i: "i < nb_blocks s" by simp
  note D = par_repD [OF rep] and R = relinked [OF rep v i]
  obtain x where x: "blocks t ! i = (blocks s ! i)\<lparr>current_page_offset := x, valid_list := rev (filter (owned s i) [0..<HASH_SIZE s])\<rparr>"
    "0 \<le> x" "x \<le> int (pages_per_block s)" "\<not> is_meta s i \<Longrightarrow> x = current_page_offset (blocks s ! i)" using bl [OF i] by blast
  have k: "block_kind t i = block_kind s i" using mt [OF i] x(1) by (simp add: block_kind_def)
  have nm: "\<not> is_meta s i" if "block_kind s i \<noteq> Meta" using that by (auto simp: block_kind_def split: if_splits)
  have c: "v_counts (view_of byte_at s) i" using view_okD(2) [OF D(6)] i by simp
  show "if v_kind (view_of byte_at s) i = Data
     then v_kind (view_of byte_at t) i = Data \<and> v_off (view_of byte_at t) i = v_off (view_of byte_at s) i \<and> v_inv (view_of byte_at t) i = v_inv (view_of byte_at s) i
          \<and> distinct (v_list (view_of byte_at t) i) \<and> set (v_list (view_of byte_at t) i) = set (v_list (view_of byte_at s) i)
          \<and> (\<forall>j < v_q (view_of byte_at s). v_page (view_of byte_at t) (i * v_q (view_of byte_at s) + j) = v_page (view_of byte_at s) (i * v_q (view_of byte_at s) + j))
     else v_kind (view_of byte_at t) i \<noteq> Data \<and> v_counts (view_of byte_at t) i \<and> (v_kind (view_of byte_at t) i = Free \<longrightarrow> v_erased (view_of byte_at t) i)"
  proof (cases "block_kind s i = Data")
    case True
    then show ?thesis using k nm x(1,4) R(1) t by simp
  next
    case False
    then have l: "valid_list (blocks t ! i) = []" using R(2) x(1) by simp
    have "v_counts (view_of byte_at t) i"
      using False k c l x(1-3) x(4) [OF nm] t by (cases "block_kind s i") (simp_all add: v_counts_def)
    moreover have "v_erased (view_of byte_at t) i" if "block_kind s i = Free"
      using view_okD(3) [OF D(6), of i] i that x(1) x(4) [OF nm] t by (simp add: v_erased_def)
    ultimately show ?thesis using False k by simp
  qed
qed (use t in simp_all)

text \<open>
  What a reload needs beyond \<open>flushable\<close>: the tables are well typed, the blocks chosen are met in the
  order of their ranks, and the block table fits behind one header.
\<close>

definition reloadable :: "('m \<Rightarrow> nat \<Rightarrow> byte) \<Rightarrow> 'm lkp_kv \<Rightarrow> bool" where
  "reloadable byte_at s \<longleftrightarrow> flushable s \<and> par_typed byte_at s \<and> sorted_wrt (<) (flush_plan s) \<and> 4 dvd page_size s
     \<and> block_info_size s div page_size s \<le> pages_per_block s - 1"

lemma typed_pages: "par_typed byte_at s \<Longrightarrow> 0 < nb_blocks s \<Longrightarrow> pages_per_block s < 2147483648"
  by (cases "nb_blocks s") (auto simp: par_typed_def)

lemma erased_fits: "block_fits b \<Longrightarrow> worn b < 2147483646 \<Longrightarrow> block_fits (erased_blk b)"
  by (simp add: block_fits_def erased_blk_def int32_def blk_state_int_def)

lemma planned_fits:
  assumes f: "flushable s" and fits: "\<forall>b \<in> set (blocks s). block_fits b" and q: "pages_per_block s < 2147483648" and len: "length (blocks s) = nb_blocks s"
    and i: "i < nb_blocks s"
  shows "block_fits (filled (planned s m fd) ws g ! i)"
proof -
  have b: "block_fits (blocks s ! i)" "worn (blocks s ! i) < 2147483646" using fits f i len by (simp_all add: flushable_def)
  then have c: "block_fits (chosen_blk s pre ws' i)" for pre ws'
    using erased_fits [OF b] by (auto simp: chosen_blk_def block_fits_def blk_state_int_def int32_def)
  have "meta_off (pages_per_block s) g r \<le> pages_per_block s" for r by (simp add: meta_off_def)
  then have "int32 (int (meta_off (pages_per_block s) g r))" for r using le_less_trans [OF _ q] by (simp add: int32_def)
  then show ?thesis using c i by (auto simp: filled_def planned_def block_fits_def)
qed


section \<open>After a flush\<close>

lemma planned_simps [simp]:
  "nb_blocks (planned s m fd) = nb_blocks s" "pages_per_block (planned s m fd) = pages_per_block s" "page_size (planned s m fd) = page_size s"
  "hashtable (planned s m fd) = hashtable s" "HASH_SIZE (planned s m fd) = HASH_SIZE s" "block_info_size (planned s m fd) = block_info_size s"
  "hashtable_size (planned s m fd) = hashtable_size s" "metadata_size (planned s m fd) = metadata_size s" "flash (planned s m fd) = m"
  "owned (planned s m fd) = owned s" "fresh_like (planned s m fd) = fresh_like s"
  by (simp_all add: planned_def chosen_def owned_def [abs_def] fresh_like_def [abs_def])

lemma rank_below:
  assumes f: "flushable s" and q: "1 < pages_per_block s" and ps: "0 < page_size s" "meta_page_size s = page_size s" and nb: "0 < nb_blocks s"
    and r: "r < length (flush_plan s)"
  shows "r * (pages_per_block s - 1) < metadata_size s div page_size s"
proof -
  let ?P = "metadata_size s div page_size s"
  have "r \<le> ?P div pages_per_block s" using r f ps(2) by (simp add: flushable_def nb_meta_def)
  then have le: "r * pages_per_block s \<le> ?P" using q by (simp add: less_eq_div_iff_mult_less_eq)
  have "page_size s \<le> metadata_size s"
  proof -
    have "0 < block_info_size s" "block_info_size s mod page_size s = 0" "block_info_size s \<le> metadata_size s"
      using f nb by (auto simp: flushable_def table_sizes_def SIZEOF_BLK_INFO_def)
    then show ?thesis by (metis dvd_imp_le le_trans mod_0_imp_dvd)
  qed
  then have "0 < ?P" using ps(1) by (simp add: div_greater_zero_iff)
  moreover have "r * (pages_per_block s - 1) < r * pages_per_block s" if "0 < r" using that q by simp
  ultimately show ?thesis using less_le_trans [OF _ le] by (cases "r = 0") auto
qed

lemma flush_written:
  assumes rep: "par_rep byte_at good fsize M s" and rl: "reloadable byte_at s"
    and er: "erased_pages byte_at s (take (nb_meta 0 s) (meta_blkordr s)) m" and st: "flush_setup (planned s m fd) fsize (flush_plan s)"
    and pg: "meta_pages byte_at K (planned s m fd) (flush_plan s) (metadata_size s div page_size s) m'"
  shows "written byte_at K fsize (planned s m fd) (flush_plan s) m'"
proof -
  let ?ws = "flush_plan s" and ?P = "metadata_size s div page_size s"
  note D = par_repD [OF rep]
  note G = par_geometryD [OF D(1)]
  have R: "flushable s" "par_typed byte_at s" "sorted_wrt (<) ?ws" "4 dvd page_size s" "block_info_size s div page_size s \<le> pages_per_block s - 1"
    using rl unfolding reloadable_def by blast+
  note T = par_typedD [OF R(2)]
  have qq: "pages_per_block s < 2147483648" by (rule typed_pages [OF R(2) G(1)])
  have ts: "table_sizes s" "?P \<le> length ?ws * (pages_per_block s - 1)" "order_ok s (nb_meta 0 s)" using R(1) by (simp_all add: flushable_def)
  have lh: "length (hashtable s) = HASH_SIZE s" using D(5) by (simp add: index_ok_size)
  have P: "?P = block_info_size s div page_size s + hashtable_size s div page_size s" using table_pages_sum [OF ts(1)] G(3) by simp
  note blank = unmarked_erased [OF G(3)]
  have first: "take (length META_HDR_BASE) (flash_page byte_at (page_size s) m (i * pages_per_block s)) \<noteq> chars META_HDR_BASE" if i: "i < nb_blocks s" for i
  proof -
    have "flash_page byte_at (page_size s) m (i * pages_per_block s)
        = (if is_meta s i then replicate (page_size s) 255 else flash_page byte_at (page_size s) (flash s) (i * pages_per_block s))"
    proof -
      have "(\<exists>e. int e \<in> set (take (nb_meta 0 s) (meta_blkordr s)) \<and> e * pages_per_block s \<le> i * pages_per_block s
          \<and> i * pages_per_block s < (e + 1) * pages_per_block s) \<longleftrightarrow> is_meta s i"
      proof -
        have "e * pages_per_block s \<le> i * pages_per_block s \<and> i * pages_per_block s < (e + 1) * pages_per_block s \<longleftrightarrow> e = i" for e
          using G(2) unfolding mult_le_cancel2 mult_less_cancel2 by auto
        then show ?thesis using is_meta_order [OF ts(3), of i] G(2) by simp
      qed
      then show ?thesis using er by (simp add: erased_pages_def)
    qed
    moreover have "flash_page byte_at (page_size s) (flash s) (i * pages_per_block s + 0) = replicate (page_size s) 255" if "block_kind s i = Free"
    proof -
      have "v_erased (view_of byte_at s) i" "v_counts (view_of byte_at s) i" using view_okD(2,3) [OF D(6), of i] that i by simp_all
      then show ?thesis using that G(2) unfolding v_erased_def v_counts_def by fastforce
    qed
    ultimately show ?thesis using T(4) [OF i] blank by (cases "block_kind s i") (auto simp: block_kind_def split: if_splits)
  qed
  have bk: "bucket_fits (hashtable s ! h) \<and> (p_state (hashtable s ! h) = PG_VALID \<longrightarrow> (\<exists>i < nb_blocks s. owned s i h))" if h: "h < HASH_SIZE s" for h
  proof -
    have "\<exists>i < nb_blocks s. owned s i h" if p: "p_state (hashtable s ! h) = PG_VALID"
    proof -
      have "entry (hashtable s) h = Some (key (hashtable s ! h), index (hashtable s ! h))" using h p lh by (simp add: entry_def)
      then obtain i where "i < nb_blocks s" "c_div (index (hashtable s ! h)) (pages_per_block s) = int i" by (rule par_entryD [OF rep]) blast
      then show ?thesis using p by (auto simp: owned_def)
    qed
    moreover have "bucket_fits (hashtable s ! h)" using T(3) [of "hashtable s ! h"] h lh by (simp add: bucket_typed_def)
    ultimately show ?thesis by blast
  qed
  show ?thesis
    unfolding written_def planned_simps
  proof (intro conjI exI)
    show "\<forall>i < nb_blocks s. \<forall>g. block_fits (filled (planned s m fd) ?ws g ! i)"
      using planned_fits [OF R(1) _ qq D(3)] R(2) by (simp add: par_typed_def)
    show "\<forall>r < length ?ws. r * (pages_per_block s - 1) < ?P" using rank_below [OF R(1) G(2) _ G(5,1)] G(3) by simp
  qed (use st R(3-5) P ts pg first bk lh in auto)
qed

lemma reload_rep:
  assumes rep: "par_rep byte_at good fsize M (flushed s m fd m')" and f: "flushable s" and sv: "par_typed byte_at s"
    and mt: "\<And>i. i < nb_blocks s \<Longrightarrow> is_meta (flushed s m fd m') i \<longleftrightarrow> i \<in> set (flush_plan s)"
    and st: "flush_setup (planned s m fd) fsize (flush_plan s)"
    and fr: "fresh_like s fsize m' t" and ord: "\<forall>x \<in> set (meta_blkordr t). x = - 1"
  shows "par_inv byte_at good fsize M (reloaded (planned s m fd) (flush_plan s) t)"
proof -
  let ?p = "planned s m fd" and ?ws = "flush_plan s" and ?f = "flushed s m fd m'"
  let ?t = "reloaded ?p ?ws t"
  note D = par_repD [OF rep]
  note G = par_geometryD [OF D(1)]
  have F: "par_geometry t fsize" "unlocked t" "flash t = m'" "\<not> read_only t" "\<not> meta_read_only t" "nb_blocks t = nb_blocks s"
    "pages_per_block t = pages_per_block s" "page_size t = page_size s" "HASH_SIZE t = HASH_SIZE s" "block_info_size t = block_info_size s"
    "hashtable_size t = hashtable_size s" "metadata_size t = hashtable_size t + block_info_size t" using fr by (simp_all add: fresh_like_def)
  have ts: "table_sizes s" "length ?ws = nb_meta 0 s" using f by (simp_all add: flushable_def)
  have ms: "metadata_size t = metadata_size s" "meta_page_size t = meta_page_size s"
    using F ts(1) G(5) par_geometryD(5) [OF F(1)] by (simp_all add: table_sizes_def)
  have nb: "nb_meta x t = nb_meta x s" for x using F(7) ms by (simp add: nb_meta_def)
  have lw: "length ?ws \<le> length (meta_blkordr t)" "length ?ws \<le> nb_meta 1 s"
    using par_geometryD(10) [OF F(1)] nb_meta_01(1) [of s] G(2) ts(2) nb by auto
  have T: "nb_blocks ?t = nb_blocks s" "pages_per_block ?t = pages_per_block s" "page_size ?t = page_size s" "flash ?t = m'" "hashtable ?t = hashtable s"
    "HASH_SIZE ?t = HASH_SIZE s" "length (blocks ?t) = nb_blocks s" "\<not> read_only ?t" "\<not> meta_read_only ?t" "unlocked ?t"
    using F by (simp_all add: reloaded_def unlocked_def)
  have len: "length (meta_blkordr ?t) = length (meta_blkordr t)" using lw(1) by (simp add: reloaded_def)
  have mto: "is_meta ?t i \<longleftrightarrow> i \<in> set ?ws" for i
  proof -
    have "nb_meta 1 ?t = nb_meta 1 s" using nb [of 1] by (simp add: nb_meta_def reloaded_def)
    moreover have "take (nb_meta 1 s) (map int ?ws @ drop (length ?ws) (meta_blkordr t)) = map int ?ws @ take (nb_meta 1 s - length ?ws) (drop (length ?ws) (meta_blkordr t))"
      using lw(2) by simp
    moreover have "int i \<notin> set (take n (drop k (meta_blkordr t)))" for n k
      using ord by (auto dest!: in_set_takeD in_set_dropD)
    ultimately show ?thesis by (auto simp: is_meta_def reloaded_def)
  qed
  have blk: "\<exists>x. blocks ?t ! i = (blocks ?f ! i)\<lparr>current_page_offset := x, valid_list := rev (filter (owned ?f i) [0..<HASH_SIZE ?f])\<rparr>
      \<and> 0 \<le> x \<and> x \<le> int (pages_per_block ?f) \<and> (\<not> is_meta ?f i \<longrightarrow> x = current_page_offset (blocks ?f ! i))" if i: "i < nb_blocks ?f" for i
  proof -
    have o': "owned ?f = owned s" by (simp add: owned_def fun_eq_iff)
    have i': "i < nb_blocks s" using i by simp
    have b: "blocks ?t ! i = (filled ?p ?ws ((i * SIZEOF_BLK_INFO + 20) div page_size s) ! i)\<lparr>valid_list := rev (filter (owned s i) [0..<HASH_SIZE s])\<rparr>"
      using i' by (simp add: reloaded_def reload_blk_def seen_blk_def)
    have c: "0 \<le> current_page_offset (blocks ?f ! i) \<and> current_page_offset (blocks ?f ! i) \<le> int (pages_per_block s)"
      using view_okD(2) [OF D(6), of i] i' by (simp add: v_counts_def)
    have mo: "meta_off q g r \<le> q" for q g r by (simp add: meta_off_def)
    show ?thesis
    proof (cases "i \<in> set ?ws")
      case True
      then show ?thesis using b i' mt mo [of "pages_per_block s"] by (auto simp: filled_def o')
    next
      case False
      then have "blocks ?t ! i = (blocks ?f ! i)\<lparr>valid_list := rev (filter (owned s i) [0..<HASH_SIZE s])\<rparr>" using b i' by (simp add: filled_def)
      then show ?thesis using c by (intro exI [of _ "current_page_offset (blocks ?f ! i)"]) (simp add: o')
    qed
  qed
  have "view_ok PAR_KEY_MAX M (view_of byte_at ?t)"
  proof (rule v_similar_ok [OF D(6)], rule reload_similar [OF rep _ _ _ _ _ _ _ blk])
    show "\<forall>h < length (hashtable ?f). p_state (hashtable ?f ! h) \<noteq> PG_FREE \<longrightarrow> p_state (hashtable ?f ! h) = PG_VALID"
      using par_typedD(3) [OF sv] nth_mem unfolding bucket_typed_def flushed_simps by blast
  qed (use T mt mto in simp_all)
  moreover have "block_states ?t"
    unfolding block_states_def
  proof
    fix b assume "b \<in> set (blocks ?t)"
    then obtain i where i: "i < nb_blocks ?f" "b = blocks ?t ! i" using T(7) by (auto simp: in_set_conv_nth)
    have "blocks ?f ! i \<in> set (blocks ?f)" using i(1) D(3) by simp
    then have "(state (blocks ?f ! i) = BLK_FREE \<or> state (blocks ?f ! i) = BLK_USED) \<and> worn (blocks ?f ! i) < 2147483647"
      using D(4) by (simp add: block_states_def)
    moreover obtain x where "b = (blocks ?f ! i)\<lparr>current_page_offset := x, valid_list := rev (filter (owned ?f i) [0..<HASH_SIZE ?f])\<rparr>"
      using blk [OF i(1)] i(2) by blast
    ultimately show "(state b = BLK_FREE \<or> state b = BLK_USED) \<and> worn b < 2147483647" by simp
  qed
  moreover have "\<not> is_read_only ?t" by (rule reloaded_writable [OF st]) (use fr ts(1) in \<open>simp_all add: table_sizes_def\<close>)
  moreover have "par_geometry ?t fsize" using F(1) len by (auto simp: par_geometry_def reloaded_def nb_meta_def)
  ultimately show ?thesis using T D(2,5) by (simp add: par_inv_def par_rep_def)
qed

context reliable_flash
begin

text \<open>A flush, then the scan of a module that has just been loaded.\<close>

lemma par_flush_reload:
  assumes inv: "par_inv byte_at good fsize M s" and rl: "reloadable byte_at s"
  obtains u where "flush_metadata K True s = Ret (0, u)" "par_inv byte_at good fsize M u" "good (flash u)"
    "\<And>t. fresh_like s fsize (flash u) t \<Longrightarrow> \<forall>x \<in> set (meta_blkordr t). x = - 1
       \<Longrightarrow> \<exists>v. init_scan K t = Ret (0, v) \<and> par_inv byte_at good fsize M v"
proof -
  have f: "flushable s" "par_typed byte_at s" using rl by (simp_all add: reloadable_def)
  have rep: "par_rep byte_at good fsize M s" by (rule par_invD(1) [OF inv])
  obtain m fd m' where r: "flush_metadata K True s = Ret (0, (flushed s m fd m')\<lparr>recent_update := 0, is_flush := 0\<rparr>)"
    "par_inv byte_at good fsize M ((flushed s m fd m')\<lparr>recent_update := 0, is_flush := 0\<rparr>)" "good m'"
    "erased_pages byte_at s (take (nb_meta 0 s) (meta_blkordr s)) m" "flush_setup (planned s m fd) fsize (flush_plan s)"
    "meta_pages byte_at K (planned s m fd) (flush_plan s) (metadata_size s div page_size s) m'"
    by (rule par_flush [OF inv f(1)])
  have w: "written byte_at K fsize (planned s m fd) (flush_plan s) m'" by (rule flush_written [OF rep rl r(4-6)])
  have fr: "par_rep byte_at good fsize M (flushed s m fd m')" by (rule flushed_rep [OF rep f(1) r(3-6)])
  have mt: "\<And>i. i < nb_blocks s \<Longrightarrow> is_meta (flushed s m fd m') i \<longleftrightarrow> i \<in> set (flush_plan s)"
    by (rule flushed_similar(2) [OF rep f(1) r(4,6)])
  have "\<exists>v. init_scan K t = Ret (0, v) \<and> par_inv byte_at good fsize M v"
    if t: "fresh_like s fsize m' t" "\<forall>x \<in> set (meta_blkordr t). x = - 1" for t
  proof (intro exI conjI)
    have "par_geometry t fsize" "nb_meta 0 t = nb_meta 0 s"
    proof -
      show g: "par_geometry t fsize" using t(1) by (simp add: fresh_like_def)
      show "nb_meta 0 t = nb_meta 0 s"
        using t(1) f(1) par_geometryD(5) [OF g] par_geometryD(5) [OF par_repD(1) [OF rep]]
        by (simp add: nb_meta_def fresh_like_def flushable_def table_sizes_def)
    qed
    then have len: "length (flush_plan s) \<le> length (meta_blkordr t)"
      using par_geometryD(2,10) nb_meta_01(1) [of t] f(1) by (fastforce simp: flushable_def)
    show "init_scan K t = Ret (0, reloaded (planned s m fd) (flush_plan s) t)"
      by (rule reload_scan [OF w r(3)]) (use t(1) f(1) len in \<open>simp_all add: flushable_def table_sizes_def\<close>)
    show "par_inv byte_at good fsize M (reloaded (planned s m fd) (flush_plan s) t)" by (rule reload_rep [OF fr f mt r(5) t])
  qed
  then show ?thesis using r(1-3) by (intro that [of "(flushed s m fd m')\<lparr>recent_update := 0, is_flush := 0\<rparr>"]) simp_all
qed

end

end
