(* ===== verification/ParallelLaws.thy ===== *)
theory ParallelLaws
  imports ParallelReload ParallelDevice
begin

text \<open>
  What the third prototype guarantees of its tables: their C types are kept, a flush keeps the couples, and
  unloading and loading the module gives the same store.
\<close>

section \<open>Flush\<close>

text \<open>
  C12.  A metadata flush of the third prototype, forced on a store with enough free blocks
  (\<open>flushable\<close>), returns 0 and keeps the couples, the invariant and the locks; exactly the blocks
  of its plan hold metadata afterwards, and the old ones are erased.
\<close>

theorem parallel_flush_preserves:
  assumes "reliable_flash K byte_at good fsize" and "par_inv byte_at good fsize M s" and "flushable s"
  shows "\<exists>t. flush_metadata K True s = Ret (0, t) \<and> par_inv byte_at good fsize M t
     \<and> (\<forall>i < nb_blocks s. is_meta t i \<longleftrightarrow> i \<in> set (flush_plan s))
     \<and> (\<forall>i < nb_blocks s. is_meta s i \<longrightarrow> state (blocks t ! i) = BLK_FREE \<and> worn (blocks t ! i) = worn (blocks s ! i) + 1)
     \<and> recent_update t = 0 \<and> is_flush t = 0"
proof -
  have rep: "par_rep byte_at good fsize M s" by (rule par_invD(1) [OF assms(2)])
  have ord: "order_ok s (nb_meta 0 s)" and l: "length (flush_plan s) = nb_meta 0 s" using assms(3) by (simp_all add: flushable_def)
  have q0: "0 < pages_per_block s" using par_geometryD(2) [OF par_repD(1) [OF rep]] by simp
  obtain m fd m' where f: "flush_metadata K True s = Ret (0, (flushed s m fd m')\<lparr>recent_update := 0, is_flush := 0\<rparr>)"
    "par_inv byte_at good fsize M ((flushed s m fd m')\<lparr>recent_update := 0, is_flush := 0\<rparr>)"
    "erased_pages byte_at s (take (nb_meta 0 s) (meta_blkordr s)) m"
    "meta_pages byte_at K (planned s m fd) (flush_plan s) (metadata_size s div page_size s) m'"
    by (rule reliable_flash.par_flush [OF assms]) blast
  have "\<not> i \<in> set (flush_plan s) \<and> int i \<in> set (take (nb_meta 0 s) (meta_blkordr s))" if "is_meta s i" for i
    using that is_meta_order [OF ord q0] flush_plan_ok [OF ord] by (auto simp: plan_ok_def flush_free_def)
  then have "\<forall>i < nb_blocks s. is_meta s i \<longrightarrow> state (blocks (flushed s m fd m') ! i) = BLK_FREE
      \<and> worn (blocks (flushed s m fd m') ! i) = worn (blocks s ! i) + 1"
    using l by (auto simp: flushed_block erased_blk_def simp del: flushed_simps(11))
  with f flushed_similar(2) [OF rep assms(3) f(3,4)] show ?thesis by (auto simp: lock_simps is_meta_def nb_meta_def)
qed

section \<open>Types\<close>

context reliable_flash
begin

lemma typed_flush:
  assumes inv: "par_inv byte_at good fsize M s" and f: "flushable s" and ty: "par_typed byte_at s"
  obtains t where "flush_metadata K True s = Ret (0, t)" "par_inv byte_at good fsize M t" "par_typed byte_at t"
proof -
  have rep: "par_rep byte_at good fsize M s" by (rule par_invD(1) [OF inv])
  note D = par_repD [OF rep]
  note G = par_geometryD [OF D(1)]
  obtain m fd m' where r: "flush_metadata K True s = Ret (0, (flushed s m fd m')\<lparr>recent_update := 0, is_flush := 0\<rparr>)"
    "par_inv byte_at good fsize M ((flushed s m fd m')\<lparr>recent_update := 0, is_flush := 0\<rparr>)" "good m'"
    "erased_pages byte_at s (take (nb_meta 0 s) (meta_blkordr s)) m"
    "meta_pages byte_at K (planned s m fd) (flush_plan s) (metadata_size s div page_size s) m'"
    by (rule par_flush [OF inv f]) blast
  note S = v_similarD [OF flushed_similar(1) [OF rep f r(4,5)]]
  have "par_typed byte_at (flushed s m fd m')"
    unfolding par_typed_def data_unmarked_def
  proof (intro conjI allI impI ballI)
    show "nb_blocks (flushed s m fd m') * pages_per_block (flushed s m fd m') < 2147483648" using par_typedD(1) [OF ty] by simp
    show "bucket_typed e" if "e \<in> set (hashtable (flushed s m fd m'))" for e using that par_typedD(3) [OF ty] by simp
    show "block_fits b" if "b \<in> set (blocks (flushed s m fd m'))" for b
      using that planned_fits [OF f _ typed_pages [OF ty G(1)] D(3)] ty by (auto simp: in_set_conv_nth par_typed_def)
    fix i assume i: "i < nb_blocks (flushed s m fd m')" "block_kind (flushed s m fd m') i = Data"
    have d: "block_kind s i = Data" using S(6) [of i] i by auto
    have "\<forall>j < pages_per_block s. flash_page byte_at (page_size s) m' (i * pages_per_block s + j)
        = flash_page byte_at (page_size s) (flash s) (i * pages_per_block s + j)"
      using S(5) [of i] i d by simp
    from this [rule_format, of 0] G(2)
    have "flash_page byte_at (page_size s) m' (i * pages_per_block s) = flash_page byte_at (page_size s) (flash s) (i * pages_per_block s)" by simp
    with par_typedD(4) [OF ty _ d] i(1)
    show "take (length META_HDR_BASE) (flash_page byte_at (page_size (flushed s m fd m')) (flash (flushed s m fd m'))
        (i * pages_per_block (flushed s m fd m'))) \<noteq> chars META_HDR_BASE" by simp
  qed
  then show ?thesis using r(1,2) that by (simp add: lock_simps)
qed

end

text \<open>
  C13.  Parallel store: the C types of the tables are an invariant. A set under the conditions of
  \<open>parallel_set_refines\<close> (block open, buckets free, no flush due, a collection that can do its
  work), a delete, a collection under \<open>gc_ready\<close> and a flush under \<open>flushable\<close>
  return and keep every number of a block or bucket within its \<open>int\<close>, every state one of the
  enumerators, every key within its array of 88 bytes, and no data block starting like a metadata block.
\<close>

theorem parallel_tables_typed:
  assumes "reliable_flash K byte_at good fsize" and "par_inv byte_at good fsize M s" and "par_typed byte_at s"
  shows "(\<not> read_only s \<and> couple_ok (page_size s) (k, v) \<and> length k < PAR_KEY_MAX \<and> can_write s
       \<and> index_room (HASH_SIZE s) (hashtable s) \<and> calm (M(k \<mapsto> v)) s
       \<longrightarrow> (\<exists>r t. set_keyval K k v s = Ret (r, t) \<and> par_inv byte_at good fsize (M(k \<mapsto> v)) t \<and> par_typed byte_at t))
     \<and> (\<exists>r t. del_key k s = Ret (r, t) \<and> par_inv byte_at good fsize (M(k := None)) t \<and> par_typed byte_at t)
     \<and> (gc_ready M s \<longrightarrow> (\<exists>t. gc K s = Ret t \<and> par_inv byte_at good fsize M t \<and> par_typed byte_at t))
     \<and> (flushable s \<longrightarrow> (\<exists>t. flush_metadata K True s = Ret (0, t) \<and> par_inv byte_at good fsize M t \<and> par_typed byte_at t))"
proof (intro conjI impI)
  assume "\<not> read_only s \<and> couple_ok (page_size s) (k, v) \<and> length k < PAR_KEY_MAX \<and> can_write s
       \<and> index_room (HASH_SIZE s) (hashtable s) \<and> calm (M(k \<mapsto> v)) s"
  then have a: "\<not> read_only s" "couple_ok (page_size s) (k, v)" "length k < PAR_KEY_MAX" "can_write s"
    "index_room (HASH_SIZE s) (hashtable s)" "calm (M(k \<mapsto> v)) s" by blast+
  obtain t where "set_keyval K k v s = Ret (if read_only t then - 3 else 0, t)" "par_inv byte_at good fsize (M(k \<mapsto> v)) t"
    "par_typed byte_at s \<longrightarrow> par_typed byte_at t"
    by (rule reliable_flash.par_set_calm [OF assms(1,2) a])
  then show "\<exists>r t. set_keyval K k v s = Ret (r, t) \<and> par_inv byte_at good fsize (M(k \<mapsto> v)) t \<and> par_typed byte_at t"
    using assms(3) by blast
next
  show "\<exists>r t. del_key k s = Ret (r, t) \<and> par_inv byte_at good fsize (M(k := None)) t \<and> par_typed byte_at t"
    using typed_del [OF assms(2,3)] by blast
next
  assume "gc_ready M s"
  then have "\<not> read_only s" "is_gb s = 0 \<or> pages_per_block s < 64 \<or> gc_ready M s" by (simp_all add: gc_ready_def)
  then show "\<exists>t. gc K s = Ret t \<and> par_inv byte_at good fsize M t \<and> par_typed byte_at t"
    using reliable_flash.par_gc [OF assms(1,2)] assms(3) by metis
next
  assume "flushable s"
  then show "\<exists>t. flush_metadata K True s = Ret (0, t) \<and> par_inv byte_at good fsize M t \<and> par_typed byte_at t"
    by (rule reliable_flash.typed_flush [OF assms(1,2) _ assms(3)]) blast
qed

section \<open>Unloading and loading\<close>

lemma flush_plan_cong:
  assumes "par_same s t" "blocks t = blocks s" "hashtable t = hashtable s" "read_only t = read_only s"
  shows "flush_plan t = flush_plan s" "flushable t = flushable s"
proof -
  note S = par_sameD [OF assms(1)]
  have e: "nb_blocks t = nb_blocks s" "pages_per_block t = pages_per_block s" "page_size t = page_size s" "meta_blkordr t = meta_blkordr s"
    "block_info_size t = block_info_size s" "hashtable_size t = hashtable_size s" "metadata_size t = metadata_size s" "HASH_SIZE t = HASH_SIZE s"
    "meta_page_size t = meta_page_size s"
    using assms(1) by (simp_all add: par_same_def)
  have nb: "nb_meta x t = nb_meta x s" for x by (simp add: nb_meta_def e)
  have fr: "flush_free t = flush_free s" by (simp add: flush_free_def [abs_def] assms(2))
  have pk: "flush_pick t = flush_pick s" unfolding flush_pick_def [abs_def] fr assms(2) e by (rule refl)
  show pl: "flush_plan t = flush_plan s" unfolding flush_plan_def plan_from_def fr pk e nb by (rule refl)
  have fc: "full_count t = full_count s" unfolding full_count_def assms(2) e by (rule refl)
  show "flushable t = flushable s" unfolding flushable_def table_sizes_def order_ok_def assms(2,4) e nb pl fc by (rule refl)
qed

text \<open>The store lies on the partition the module is loaded with, and its tables have the sizes \<open>init_config\<close> gives them.\<close>

definition on_partition :: "'m heap_kernel \<Rightarrow> int \<Rightarrow> int \<Rightarrow> 'm lkp_kv \<Rightarrow> bool" where
  "on_partition K idx midx s \<longleftrightarrow> idx \<noteq> - 1 \<and> midx \<noteq> - 2
     \<and> k_get_mtd_device K idx = Some \<lparr>mtd_size = nb_blocks s * (pages_per_block s * page_size s),
          mtd_erasesize = pages_per_block s * page_size s, mtd_writesize = page_size s\<rparr>
     \<and> (\<exists>mm. k_get_mtd_device K midx = Some mm \<and> mtd_writesize mm = page_size s \<and> mtd_erasesize mm \<noteq> 0)
     \<and> nb_blocks s < 2147483648 \<and> pages_per_block s * page_size s < 2147483648
     \<and> block_info_size s = round_up (SIZEOF_BLK_INFO * nb_blocks s) (page_size s)
     \<and> hashtable_size s = round_up (SIZEOF_BUCKET * ((pages_per_block s - 1) * nb_blocks s)) (page_size s)
     \<and> (table_pages (nb_blocks s) (pages_per_block s) (page_size s) + 1) div pages_per_block s + 1 \<le> MAX_META_BLK"

lemma par_load:
  assumes K: "reliable_flash K byte_at good fsize" and g: "par_geometry s fsize" and p: "on_partition K idx midx s"
    and gd: "good (flash (core d))" and reg: "\<forall>m. 0 \<le> k_register_chrdev K m"
    and sc: "\<And>t. fresh_like s fsize (flash (core d)) t \<Longrightarrow> \<forall>x \<in> set (meta_blkordr t). x = - 1
       \<Longrightarrow> \<exists>v. init_scan K t = Ret (0, v) \<and> par_inv byte_at good fsize M v"
  obtains e where "parallel_lkp_kv_init K idx midx d = Ret (0, e)" "par_inv byte_at good fsize M (core e)" "\<not> file_is_open e"
    "f_timer (core e)" "w_timer (core e)"
proof -
  note G = par_geometryD [OF g]
  let ?s = "(core d)\<lparr>one_lock := False, list_lock := False, erase_lock := False, meta_blkordr := replicate MAX_META_BLK (- 1)\<rparr>"
  obtain mm where P: "idx \<noteq> - 1" "midx \<noteq> - 2"
    "k_get_mtd_device K idx = Some \<lparr>mtd_size = nb_blocks s * (pages_per_block s * page_size s),
          mtd_erasesize = pages_per_block s * page_size s, mtd_writesize = page_size s\<rparr>"
    "k_get_mtd_device K midx = Some mm" "mtd_writesize mm = page_size s" "mtd_erasesize mm \<noteq> 0"
    "nb_blocks s < 2147483648" "pages_per_block s * page_size s < 2147483648"
    "block_info_size s = round_up (SIZEOF_BLK_INFO * nb_blocks s) (page_size s)"
    "hashtable_size s = round_up (SIZEOF_BUCKET * ((pages_per_block s - 1) * nb_blocks s)) (page_size s)"
    "(table_pages (nb_blocks s) (pages_per_block s) (page_size s) + 1) div pages_per_block s + 1 \<le> length (meta_blkordr ?s)"
    using p unfolding on_partition_def by auto
  have pre: "good (flash ?s)" "unlocked ?s" "fsize < 2 ^ 64" using gd G(8,9) by (simp_all add: unlocked_def)
  obtain t where t: "init_config K idx midx ?s = obind (init_scan K t) (\<lambda>(r, s). Ret (if r \<noteq> 0 then - 1 else 0, s))"
    "par_geometry t fsize" "unlocked t" "nb_blocks t = nb_blocks s" "pages_per_block t = pages_per_block s" "page_size t = page_size s"
    "HASH_SIZE t = (pages_per_block s - 1) * nb_blocks s" "hashtable t = replicate ((pages_per_block s - 1) * nb_blocks s) new_bucket"
    "blocks t = replicate (nb_blocks s) new_block" "flash t = flash ?s" "\<not> read_only t" "\<not> meta_read_only t" "meta_blkordr t = meta_blkordr ?s"
    "hashtable_size t = round_up (SIZEOF_BUCKET * ((pages_per_block s - 1) * nb_blocks s)) (page_size s)"
    "block_info_size t = round_up (SIZEOF_BLK_INFO * nb_blocks s) (page_size s)" "metadata_size t = hashtable_size t + block_info_size t"
    using reliable_flash.par_init_config_start [OF K P(1-6) G(1) P(7) G(2,3) P(8) G(8) pre(3) P(11) pre(1,2)] by blast
  have fr: "fresh_like s fsize (flash (core d)) t" using t P(9,10) G(7) by (simp add: fresh_like_def)
  obtain v where v: "init_scan K t = Ret (0, v)" "par_inv byte_at good fsize M v" using sc [OF fr] t(13) by auto
  let ?e = "d\<lparr>core := v\<lparr>is_gb := 0, is_flush := 0, recent_update := 0, f_timer := True, w_timer := True\<rparr>, file_is_open := False\<rparr>"
  have "parallel_lkp_kv_init K idx midx d = Ret (0, ?e)"
    using t(1) v(1) reg by (simp add: parallel_lkp_kv_init_def Let_def parallel_device_init_def init_flush_timer_def init_wear_timer_def
        hrtimer_start_def linorder_not_less)
  moreover have "par_inv byte_at good fsize M (core ?e)" using v(2) by (simp add: par_inv_def lock_simps unlocked_def)
  ultimately show ?thesis by (rule that) simp_all
qed

text \<open>
  C11.  Parallel prototype: unloading the module and loading it again on the same partition keeps every
  couple, when the store is \<open>reloadable\<close>: the flush at the unload has enough free blocks, the
  blocks it chooses are met in the order of their ranks, the block table fits behind one header, the page
  size is a multiple of 4, and the tables are well typed. \<open>lkp_kv_exit\<close> flushes the tables, and
  \<open>lkp_kv_init\<close>, which knows nothing but the flash, rebuilds a store that holds the same map,
  with both timers running.
\<close>

theorem parallel_reload_roundtrip:
  assumes "reliable_flash K byte_at good fsize" and "par_inv byte_at good fsize M (core d)" and "reloadable byte_at (core d)"
    and "on_partition K idx midx (core d)" and "\<forall>m. 0 \<le> k_register_chrdev K m"
  shows "\<exists>e f. parallel_lkp_kv_exit K d = Ret e
     \<and> parallel_lkp_kv_init K idx midx \<lparr>file_is_open = False, core = config0 (flash (core e)) x\<rparr> = Ret (0, f)
     \<and> par_inv byte_at good fsize M (core f) \<and> \<not> file_is_open f \<and> f_timer (core f) \<and> w_timer (core f)"
proof -
  let ?s = "clear_wear_timer (clear_flush_timer (core d))"
  have inv: "par_inv byte_at good fsize M ?s" using assms(2)
    by (simp add: clear_wear_timer_def clear_flush_timer_def par_inv_def lock_simps unlocked_def)
  have same: "par_same (core d) ?s" "blocks ?s = blocks (core d)" "hashtable ?s = hashtable (core d)" "read_only ?s = read_only (core d)"
    by (simp_all add: clear_wear_timer_def clear_flush_timer_def par_same_def)
  have rl: "reloadable byte_at ?s"
    using assms(3) flush_plan_cong [OF same]
    by (simp add: reloadable_def) (simp add: clear_wear_timer_def clear_flush_timer_def lock_simps)
  obtain u where u: "flush_metadata K True ?s = Ret (0, u)" "good (flash u)"
    "\<And>t. fresh_like ?s fsize (flash u) t \<Longrightarrow> \<forall>x \<in> set (meta_blkordr t). x = - 1
       \<Longrightarrow> \<exists>v. init_scan K t = Ret (0, v) \<and> par_inv byte_at good fsize M v"
    using reliable_flash.par_flush_reload [OF assms(1) inv rl] by blast
  let ?e = "d\<lparr>core := destroy_config u\<rparr>" and ?d = "\<lparr>file_is_open = False, core = config0 (flash u) x\<rparr>"
  have ex: "parallel_lkp_kv_exit K d = Ret ?e" "flash (core ?e) = flash u"
    using u(1) by (simp_all add: parallel_lkp_kv_exit_def Let_def destroy_config_def)
  have g: "par_geometry ?s fsize" by (rule par_repD(1) [OF par_invD(1) [OF inv]])
  have p: "on_partition K idx midx ?s" using assms(4) by (simp add: on_partition_def clear_wear_timer_def clear_flush_timer_def)
  have fl: "flash (core ?d) = flash u" by (simp add: config0_def)
  obtain f where "parallel_lkp_kv_init K idx midx ?d = Ret (0, f)" "par_inv byte_at good fsize M (core f)" "\<not> file_is_open f"
    "f_timer (core f)" "w_timer (core f)"
    by (rule par_load [OF assms(1) g p _ assms(5)]) (use u(2,3) fl in auto)
  with ex show ?thesis by auto
qed


section \<open>The store of the examples\<close>

lemma plan_from_one:
  assumes "\<exists>j \<in> set is. flush_free s pre j"
  shows "\<exists>w. plan_from s pre 1 [] is = [w]"
proof -
  have stay: "plan_from s pre 1 [w] js = [w]" for w js by (induction js) (simp_all add: plan_from_def)
  show ?thesis
    using assms
  proof (induction "is")
    case (Cons i "is")
    show ?case
    proof (cases "flush_free s pre i")
      case True
      then have "plan_from s pre 1 [] (i # is) = plan_from s pre 1 [flush_pick s pre [] i] is" by (simp add: plan_from_def)
      then show ?thesis using stay by simp
    next
      case False
      then have "plan_from s pre 1 [] (i # is) = plan_from s pre 1 [] is" by (simp add: plan_from_def)
      then show ?thesis using Cons False by auto
    qed
  qed simp
qed

lemma par_demo_stored:
  obtains s t where "init_config demo_K 0 0 par_demo0 = Ret (0, s)" "par_inv nandsim_byte demo_good 61440 Map.empty s" "par_typed nandsim_byte s"
    "set_keyval demo_K [107] [118] s = Ret (0, t)" "par_inv nandsim_byte demo_good 61440 [[107] \<mapsto> [118]] t"
    "reloadable nandsim_byte t" "on_partition demo_K 0 0 t"
proof -
  obtain s where s: "init_config demo_K 0 0 par_demo0 = Ret (0, s)" "par_inv nandsim_byte demo_good 61440 Map.empty s"
    "nb_blocks s = 5" "pages_per_block s = 12" "page_size s = 1024" "HASH_SIZE s = 55" "hashtable s = replicate 55 new_bucket"
    "blocks s = replicate 5 new_block" "\<not> read_only s" "meta_blkordr s = replicate MAX_META_BLK (- 1)" "metadata_size s = 8192"
    "meta_page_size s = 1024" "write_cnt s = 0" "is_gb s = 0" "hashtable_size s = 7168" "block_info_size s = 1024"
    by (rule par_demo_loaded)
  have new: "blocks s ! i = new_block" if "i < 5" for i using s(8) that by simp
  have ty: "par_typed nandsim_byte s"
    using s(3,4,7,8) new
    by (simp add: par_typed_def data_unmarked_def bucket_typed_def block_fits_def bucket_fits_def new_block_def new_bucket_def int32_def
        blk_state_int_def page_state_int_def cstring_def PAR_KEY_MAX_def block_kind_def)
  have pre: "can_write s" "couple_ok (page_size s) ([107], [118])" "length [107 :: byte] < PAR_KEY_MAX" "index_room (HASH_SIZE s) (hashtable s)" "quiet s"
    using par_demo_can_write(2) par_demo_room s
    by (simp_all add: couple_ok_def cstring_def PAR_KEY_MAX_def quiet_def FLUSH_THRESHOLD2_def)
  obtain t where t: "set_keyval demo_K [107] [118] s = Ret (if read_only t then - 3 else 0, t)" "par_inv nandsim_byte demo_good 61440 [[107] \<mapsto> [118]] t"
    "full_count t \<le> full_count s + 1" "par_typed nandsim_byte t" "one_touched s t" "par_same s (t\<lparr>is_gb := is_gb s, write_cnt := write_cnt s\<rparr>)"
    using par_set_map [OF demo_reliable s(2,9) pre(2,3,1,4,5)] ty by blast
  note T = par_repD [OF par_invD(1) [OF t(2)]]
  have S: "nb_blocks t = 5" "pages_per_block t = 12" "page_size t = 1024" "HASH_SIZE t = 55" "meta_blkordr t = replicate MAX_META_BLK (- 1)"
    "metadata_size t = 8192" "meta_page_size t = 1024" "hashtable_size t = 7168" "block_info_size t = 1024"
    using t(6) s by (simp_all add: par_same_def)
  have n: "nb_meta 0 t = 1" using S by (simp add: nb_meta_def)
  have o': "take 1 (meta_blkordr t) = [- 1]" "\<forall>x \<in> set (drop 1 (meta_blkordr t)). x = - 1" "1 < length (meta_blkordr t)"
    using S(5) by (simp_all add: MAX_META_BLK_def)
  have fc: "full_count t \<le> 1" using t(3) s(4,8) by (simp add: full_count_def new_block_def)
  have ro: "\<not> read_only t" using T(7) fc S(1) n by (simp add: is_read_only_count)
  obtain i where i: "\<And>i'. i' < 5 \<Longrightarrow> worn (blocks t ! i') = 0"
    "\<And>i'. i' < 5 \<Longrightarrow> i' \<noteq> i \<Longrightarrow> state (blocks t ! i') = BLK_FREE \<and> current_page_offset (blocks t ! i') = 0"
    using t(5) s(3) new by (auto simp: one_touched_def new_block_def)
  define j :: nat where "j = (if i = 0 then 1 else 0)"
  have j: "j < 5" "j \<noteq> i" by (simp_all add: j_def)
  then have "flush_free t [- 1] j" using i(2) by (simp add: flush_free_def)
  then have "\<exists>j \<in> set [0..<5]. flush_free t [- 1] j" using j(1) by auto
  then obtain w where "plan_from t [- 1] 1 [] [0..<5] = [w]" using plan_from_one by blast
  then have w: "flush_plan t = [w]" unfolding flush_plan_def n o'(1) S(1) .
  have "\<forall>b \<in> set (blocks t). worn b < 2147483646" using i(1) T(3) S(1) by (auto simp: in_set_conv_nth)
  moreover have "table_sizes t" using S by (simp add: table_sizes_def SIZEOF_BLK_INFO_def SIZEOF_BUCKET_def)
  moreover have "order_ok t 1" using o' by (simp add: order_ok_def)
  ultimately have "flushable t" using S(1-3,6) ro fc unfolding flushable_def n w by simp
  then have rl: "reloadable nandsim_byte t" using t(4) S(2,3,9) w by (simp add: reloadable_def)
  have p: "on_partition demo_K 0 0 t"
    using demo_mtd S by (auto simp: on_partition_def round_up_def SIZEOF_BLK_INFO_def SIZEOF_BUCKET_def table_pages_def MAX_META_BLK_def)
  show ?thesis using that [OF s(1,2) ty _ t(2) rl p] t(1) ro by simp
qed

theorem parallel_flush_preserves_witness:
  "\<exists>s t u. init_config demo_K 0 0 par_demo0 = Ret (0, s) \<and> set_keyval demo_K [107] [118] s = Ret (0, t) \<and> flushable t
     \<and> flush_metadata demo_K True t = Ret (0, u) \<and> par_inv nandsim_byte demo_good 61440 [[107] \<mapsto> [118]] u"
proof -
  obtain s t where st: "init_config demo_K 0 0 par_demo0 = Ret (0, s)" "set_keyval demo_K [107] [118] s = Ret (0, t)"
    "par_inv nandsim_byte demo_good 61440 [[107] \<mapsto> [118]] t" "reloadable nandsim_byte t"
    by (rule par_demo_stored)
  then have f: "flushable t" by (simp add: reloadable_def)
  from parallel_flush_preserves [OF demo_reliable st(3) f] f st(1,2) show ?thesis by blast
qed

theorem parallel_tables_typed_witness:
  "\<exists>s t u. init_config demo_K 0 0 par_demo0 = Ret (0, s) \<and> set_keyval demo_K [107] [118] s = Ret (0, t) \<and> par_typed nandsim_byte t
     \<and> flush_metadata demo_K True t = Ret (0, u) \<and> par_typed nandsim_byte u"
proof -
  obtain s t where st: "init_config demo_K 0 0 par_demo0 = Ret (0, s)" "set_keyval demo_K [107] [118] s = Ret (0, t)"
    "par_inv nandsim_byte demo_good 61440 [[107] \<mapsto> [118]] t" "reloadable nandsim_byte t"
    by (rule par_demo_stored)
  then have f: "flushable t" "par_typed nandsim_byte t" by (simp_all add: reloadable_def)
  from parallel_tables_typed [OF demo_reliable st(3) f(2)] f st(1,2) show ?thesis by blast
qed

theorem parallel_reload_roundtrip_witness:
  "\<exists>s t e f. init_config demo_K 0 0 par_demo0 = Ret (0, s) \<and> set_keyval demo_K [107] [118] s = Ret (0, t)
     \<and> parallel_lkp_kv_exit demo_K \<lparr>file_is_open = False, core = t\<rparr> = Ret e
     \<and> parallel_lkp_kv_init demo_K 0 0 \<lparr>file_is_open = False, core = config0 (flash (core e)) []\<rparr> = Ret (0, f)
     \<and> (\<exists>p. get_keyval demo_K [107] (core f) = Ret (p, Some [118]))"
proof -
  obtain s t where st: "init_config demo_K 0 0 par_demo0 = Ret (0, s)" "set_keyval demo_K [107] [118] s = Ret (0, t)"
    "par_inv nandsim_byte demo_good 61440 [[107] \<mapsto> [118]] t" "reloadable nandsim_byte t" "on_partition demo_K 0 0 t"
    by (rule par_demo_stored)
  let ?d = "\<lparr>file_is_open = False, core = t\<rparr>"
  have reg: "\<forall>m. 0 \<le> k_register_chrdev demo_K m" by (simp add: demo_K_def heapsim_def)
  obtain e f where ef: "parallel_lkp_kv_exit demo_K ?d = Ret e"
    "parallel_lkp_kv_init demo_K 0 0 \<lparr>file_is_open = False, core = config0 (flash (core e)) []\<rparr> = Ret (0, f)"
    "par_inv nandsim_byte demo_good 61440 [[107] \<mapsto> [118]] (core f)"
    using parallel_reload_roundtrip [OF demo_reliable, of "[[107] \<mapsto> [118]]" ?d 0 0 "[]"] st(3-5) reg by auto
  have "cstring [107 :: byte]" by (simp add: cstring_def)
  from reliable_flash.par_get_keyval [OF demo_reliable ef(3) this] st(1,2) ef(1,2) show ?thesis by auto
qed

end
