(* ===== verification/ParallelThreads.thy ===== *)
theory ParallelThreads
  imports ParallelProps ParallelPersist
begin

text \<open>
  The threads of the third prototype: user processes in the operations of the store, and the two
  timers.  A thread takes one step at a time; every access made without \<open>erase_lock\<close> is a step of
  its own, and so are taking the lock and what is done with it, at the end of which it is released.
  What a section does in between is only visible through \<open>nb_invalid\<close>, which \<open>gc_check\<close> reads
  without the lock, one block per step.  The counter of \<open>gc_check\<close> is advanced in one step.
\<close>

section \<open>One thread\<close>

text \<open>In \<open>gc\<close>: before the flag, before the lock, in the section, before the flag is reset.\<close>

datatype gc_pc = Gc_Flag | Gc_Try | Gc_In | Gc_Out

fun gc_step :: "'m heap_kernel \<Rightarrow> gc_pc \<Rightarrow> 'm lkp_kv \<Rightarrow> (gc_pc option \<times> 'm lkp_kv) outcome" where
  "gc_step K Gc_Flag s =
     (if pages_per_block s < 64 then Ret (None, s)
      else case cmpxchg01 (is_gb s) of (old, new) \<Rightarrow>
        Ret (if old = 0 then None else Some Gc_Try, s\<lparr>is_gb := new\<rparr>))"
| "gc_step K Gc_Try s = (if erase_lock s then Ret (None, s) else Ret (Some Gc_In, s\<lparr>erase_lock := True\<rparr>))"
| "gc_step K Gc_In s = obind (gc_body K s) (\<lambda>s. Ret (Some Gc_Out, unlock_erase s))"
| "gc_step K Gc_Out s = Ret (None, s\<lparr>is_gb := 0\<rparr>)"

text \<open>In \<open>flush_metadata\<close>; the attempt to lock is repeated when the flush is forced.\<close>

datatype flush_pc = Fl_Flag | Fl_Count | Fl_Try bool | Fl_In | Fl_Out

fun flush_step :: "'m heap_kernel \<Rightarrow> flush_pc \<Rightarrow> 'm lkp_kv \<Rightarrow> (flush_pc option \<times> 'm lkp_kv) outcome" where
  "flush_step K Fl_Flag s = (case cmpxchg01 (is_flush s) of (old, new) \<Rightarrow>
     Ret (Some (if old = 0 then Fl_Out else Fl_Count), s\<lparr>is_flush := new\<rparr>))"
| "flush_step K Fl_Count s =
     (if flush_cnt s < FLUSH_THRESHOLD then Ret (Some Fl_Out, s\<lparr>flush_cnt := Suc (flush_cnt s)\<rparr>)
      else Ret (Some (Fl_Try False), s\<lparr>flush_cnt := 0\<rparr>))"
| "flush_step K (Fl_Try force) s =
     (if erase_lock s then Ret (Some (if force then Fl_Try True else Fl_Out), s) else Ret (Some Fl_In, s\<lparr>erase_lock := True\<rparr>))"
| "flush_step K Fl_In s = obind (flush_body K s) (\<lambda>(_, s). Ret (Some Fl_Out, unlock_erase s))"
| "flush_step K Fl_Out s = Ret (None, s\<lparr>recent_update := 0, is_flush := 0\<rparr>)"

text \<open>
  A thread is idle, waits for \<open>erase_lock\<close> in an operation, holds it, is in \<open>gc_check\<close> after a set (the
  scan, a collection, the counter, a flush), or runs \<open>gc\<close> or the callback of the flush timer.
\<close>

datatype thread =
    Idle
  | Set_Wait "byte list" "byte list" | Set_In "byte list" "byte list"
  | Check_Scan nat | Check_Gc gc_pc | Check_Count | Check_Flush flush_pc
  | Get_Wait "byte list" | Get_In "byte list"
  | Del_Wait "byte list" | Del_In "byte list"
  | Wear gc_pc
  | Timer | Flush flush_pc

text \<open>What the processes see, in the order in which the sections run.\<close>

datatype event = Set_Ev "byte list" "byte list" int | Get_Ev "byte list" "byte list option" | Del_Ev "byte list" int

fun thread_step :: "'m heap_kernel \<Rightarrow> thread \<Rightarrow> 'm lkp_kv \<Rightarrow> (thread \<times> event list \<times> 'm lkp_kv) outcome" where
  "thread_step K Idle s = Ret (Idle, [], s)"
| "thread_step K (Set_Wait k v) s = Ret (if erase_lock s then Set_Wait k v else Set_In k v, [], s\<lparr>erase_lock := True\<rparr>)"
| "thread_step K (Set_In k v) s = obind (set_body K k v s) (\<lambda>(r, written, s).
     Ret (if written then Check_Scan 0 else Idle, [Set_Ev k v r], s))"
| "thread_step K (Check_Scan i) s =
     (if nb_blocks s \<le> i then Ret (Check_Count, [], s)
      else obind (arr_get (blocks s) (int i)) (\<lambda>b.
        Ret (if INVALID_THRESHOLD2 \<le> nb_invalid b then Check_Gc Gc_Flag else Check_Scan (Suc i), [], s)))"
| "thread_step K (Check_Gc p) s = obind (gc_step K p s) (\<lambda>(p', s).
     Ret (case p' of None \<Rightarrow> Check_Count | Some p \<Rightarrow> Check_Gc p, [], s))"
| "thread_step K Check_Count s =
     (if FLUSH_THRESHOLD2 \<le> write_cnt s then Ret (Check_Flush (Fl_Try True), [], s\<lparr>write_cnt := 0\<rparr>)
      else Ret (Idle, [], s\<lparr>write_cnt := Suc (write_cnt s)\<rparr>))"
| "thread_step K (Check_Flush p) s = obind (flush_step K p s) (\<lambda>(p', s).
     Ret (case p' of None \<Rightarrow> Idle | Some p \<Rightarrow> Check_Flush p, [], s))"
| "thread_step K (Get_Wait k) s = Ret (if erase_lock s then Get_Wait k else Get_In k, [], s\<lparr>erase_lock := True\<rparr>)"
| "thread_step K (Get_In k) s = obind (get_keyval K k (unlock_erase s)) (\<lambda>(_, v). Ret (Idle, [Get_Ev k v], unlock_erase s))"
| "thread_step K (Del_Wait k) s = Ret (if erase_lock s then Del_Wait k else Del_In k, [], s\<lparr>erase_lock := True\<rparr>)"
| "thread_step K (Del_In k) s = obind (del_key k (unlock_erase s)) (\<lambda>(r, s). Ret (Idle, [Del_Ev k r], s))"
| "thread_step K (Wear p) s = obind (gc_step K p s) (\<lambda>(p', s).
     Ret (case p' of None \<Rightarrow> Idle | Some p \<Rightarrow> Wear p, [], s))"
| "thread_step K Timer s = Ret (if recent_update s \<noteq> 0 then Flush Fl_Flag else Idle, [], s)"
| "thread_step K (Flush p) s = obind (flush_step K p s) (\<lambda>(p', s).
     Ret (case p' of None \<Rightarrow> Idle | Some p \<Rightarrow> Flush p, [], s))"

section \<open>All threads\<close>

record 'm world =
  threads :: "thread list"
  store :: "'m lkp_kv"
  history :: "event list"

text \<open>What a thread is started with: an operation, the collection, or the timer.\<close>

fun started :: "thread \<Rightarrow> bool" where
  "started (Set_Wait k v) = True"
| "started (Get_Wait k) = True"
| "started (Del_Wait k) = True"
| "started (Wear p) = (p = Gc_Flag)"
| "started Timer = True"
| "started _ = False"

definition advance :: "nat \<Rightarrow> thread \<Rightarrow> event list \<Rightarrow> 'm lkp_kv \<Rightarrow> 'm world \<Rightarrow> 'm world" where
  "advance i th ev s w = w\<lparr>threads := (threads w)[i := th], store := s, history := history w @ ev\<rparr>"

text \<open>The worlds that runs reach, when every step of a thread is taken where \<open>P\<close> allows it.\<close>

inductive reaches :: "'m heap_kernel \<Rightarrow> (thread \<Rightarrow> 'm lkp_kv \<Rightarrow> bool) \<Rightarrow> 'm world \<Rightarrow> 'm world \<Rightarrow> bool"
  for K :: "'m heap_kernel" and P :: "thread \<Rightarrow> 'm lkp_kv \<Rightarrow> bool" and w0 :: "'m world" where
  reaches_start: "reaches K P w0 w0"
| reaches_call: "reaches K P w0 w \<Longrightarrow> i < length (threads w) \<Longrightarrow> threads w ! i = Idle \<Longrightarrow> started th
    \<Longrightarrow> reaches K P w0 (advance i th [] (store w) w)"
| reaches_step: "reaches K P w0 w \<Longrightarrow> i < length (threads w) \<Longrightarrow> P (threads w ! i) (store w)
    \<Longrightarrow> thread_step K (threads w ! i) (store w) = Ret (th, ev, s)
    \<Longrightarrow> reaches K P w0 (advance i th ev s w)"

fun in_section :: "thread \<Rightarrow> bool" where
  "in_section (Set_In k v) = True"
| "in_section (Get_In k) = True"
| "in_section (Del_In k) = True"
| "in_section (Check_Gc p) = (p = Gc_In)"
| "in_section (Wear p) = (p = Gc_In)"
| "in_section (Check_Flush p) = (p = Fl_In)"
| "in_section (Flush p) = (p = Fl_In)"
| "in_section _ = False"

lemma started_outside: "started th \<Longrightarrow> \<not> in_section th" by (cases th) simp_all

section \<open>What a history says\<close>

text \<open>A sequential map that gives the same answers; \<open>None\<close> when an answer is wrong.\<close>

fun replay :: "(byte list \<rightharpoonup> byte list) \<Rightarrow> event list \<Rightarrow> (byte list \<rightharpoonup> byte list) option" where
  "replay M [] = Some M"
| "replay M (Set_Ev k v r # es) = (if r = 0 \<or> r = - 3 then replay (M(k \<mapsto> v)) es else None)"
| "replay M (Get_Ev k r # es) = (if r = M k then replay M es else None)"
| "replay M (Del_Ev k r # es) = (if (0 \<le> r) = (k \<in> dom M) then replay (M(k := None)) es else None)"

lemma replay_append: "replay M (es @ fs) = Option.bind (replay M es) (\<lambda>M. replay M fs)"
  by (induction M es rule: replay.induct) (simp_all del: fun_upd_apply)

section \<open>What a section needs\<close>

definition small :: "(byte list \<rightharpoonup> byte list) \<Rightarrow> nat \<Rightarrow> bool" where
  "small M q \<longleftrightarrow> (64 \<le> q \<longrightarrow> (\<forall>k v. M k = Some v \<longrightarrow> 8 + length k + length v \<le> q))"

definition gc_fit :: "'m lkp_kv \<Rightarrow> bool" where
  "gc_fit s \<longleftrightarrow> \<not> read_only s \<and> 64 \<le> pages_per_block s \<and> pages_per_block s \<le> page_size s \<and> meta_taken s \<and> (\<forall>b \<in> set (blocks s). worn b < 2147483646)"

fun section_fits :: "thread \<Rightarrow> 'm lkp_kv \<Rightarrow> bool" where
  "section_fits (Set_In k v) s \<longleftrightarrow> \<not> read_only s \<and> couple_ok (page_size s) (k, v) \<and> length k < PAR_KEY_MAX \<and> can_write s
     \<and> index_room (HASH_SIZE s) (hashtable s) \<and> (64 \<le> pages_per_block s \<longrightarrow> 8 + length k + length v \<le> pages_per_block s)"
| "section_fits (Get_In k) s \<longleftrightarrow> cstring k"
| "section_fits (Check_Gc p) s \<longleftrightarrow> (p = Gc_In \<longrightarrow> gc_fit s)"
| "section_fits (Wear p) s \<longleftrightarrow> (p = Gc_In \<longrightarrow> gc_fit s)"
| "section_fits (Check_Flush p) s \<longleftrightarrow> (p = Fl_In \<longrightarrow> flushable s)"
| "section_fits (Flush p) s \<longleftrightarrow> (p = Fl_In \<longrightarrow> flushable s)"
| "section_fits _ s \<longleftrightarrow> True"

lemma gc_fit_ready: "gc_fit s \<Longrightarrow> small M (pages_per_block s) \<Longrightarrow> gc_ready M s"
  by (simp add: gc_fit_def small_def gc_ready_def)

text \<open>The state between two steps, apart from \<open>erase_lock\<close>.\<close>

definition at_rest :: "('m \<Rightarrow> nat \<Rightarrow> byte) \<Rightarrow> ('m \<Rightarrow> bool) \<Rightarrow> nat \<Rightarrow> (byte list \<rightharpoonup> byte list) \<Rightarrow> 'm lkp_kv \<Rightarrow> bool" where
  "at_rest byte_at good fsize M s \<longleftrightarrow> par_rep byte_at good fsize M s \<and> \<not> list_lock s \<and> \<not> one_lock s \<and> small M (pages_per_block s)"

lemma at_rest_locks [lock_simps]:
  "at_rest B G f M (s\<lparr>erase_lock := b\<rparr>) = at_rest B G f M s" "at_rest B G f M (s\<lparr>is_gb := x\<rparr>) = at_rest B G f M s"
  "at_rest B G f M (s\<lparr>is_flush := x\<rparr>) = at_rest B G f M s" "at_rest B G f M (s\<lparr>flush_cnt := n\<rparr>) = at_rest B G f M s"
  "at_rest B G f M (s\<lparr>write_cnt := n\<rparr>) = at_rest B G f M s" "at_rest B G f M (s\<lparr>recent_update := x\<rparr>) = at_rest B G f M s"
  by (simp_all add: at_rest_def lock_simps)

lemma at_rest_inv: "at_rest byte_at good fsize M s \<Longrightarrow> par_inv byte_at good fsize M (unlock_erase s)"
  by (simp add: at_rest_def par_inv_def unlocked_def unlock_erase_def lock_simps)

lemma inv_at_rest: "par_inv byte_at good fsize M s \<Longrightarrow> small M (pages_per_block s) \<Longrightarrow> at_rest byte_at good fsize M s"
  by (simp add: at_rest_def par_inv_def unlocked_def)

section \<open>Every section runs to its end\<close>

lemma relock: "erase_lock s \<Longrightarrow> (unlock_erase s)\<lparr>erase_lock := True\<rparr> = s" by (cases s) (simp add: unlock_erase_def)

context reliable_flash
begin

abbreviation resting :: "(byte list \<rightharpoonup> byte list) \<Rightarrow> 'm lkp_kv \<Rightarrow> bool" where
  "resting M s \<equiv> at_rest byte_at good fsize M s"

lemma set_section:
  assumes r: "resting M s" and l: "erase_lock s" and f: "section_fits (Set_In k v) s"
  shows "\<exists>r t. set_body K k v s = Ret (r, True, t) \<and> (r = 0 \<or> r = - 3) \<and> resting (M(k \<mapsto> v)) t \<and> \<not> erase_lock t
    \<and> nb_blocks t = nb_blocks s"
proof -
  let ?u = "unlock_erase s"
  have inv: "par_inv byte_at good fsize M ?u" by (rule at_rest_inv [OF r])
  have p: "\<not> read_only ?u" "couple_ok (page_size ?u) (k, v)" "length k < PAR_KEY_MAX" "can_write ?u" "index_room (HASH_SIZE ?u) (hashtable ?u)"
    using f by (simp_all add: unlock_erase_def can_write_def get_healthy_locks cong: outcome.case_cong)
  obtain t where t: "par_inv byte_at good fsize (M(k \<mapsto> v)) t" "par_same ?u t"
    "set_body K k v (?u\<lparr>erase_lock := True\<rparr>) = Ret (if read_only t then - 3 else 0, True, t)"
    by (rule par_set_writes [OF inv p])
  have pp: "pages_per_block t = pages_per_block s" "nb_blocks t = nb_blocks s"
    using par_sameD(1,2) [OF t(2)] by (simp_all add: unlock_erase_def)
  then have "resting (M(k \<mapsto> v)) t"
    using t(1) r f by (intro inv_at_rest) (auto simp: at_rest_def small_def)
  with pp(2) show ?thesis using t(3) par_invD(2) [OF t(1)] unfolding relock [OF l] by auto
qed

lemma get_section:
  assumes r: "resting M s" and k: "cstring k"
  shows "\<exists>r. get_keyval K k (unlock_erase s) = Ret (r, M k)"
  using par_get_keyval [OF at_rest_inv [OF r] k] by (cases "M k") auto

lemma del_section:
  assumes r: "resting M s"
  shows "\<exists>r t. del_key k (unlock_erase s) = Ret (r, t) \<and> (0 \<le> r) = (k \<in> dom M) \<and> resting (M(k := None)) t \<and> \<not> erase_lock t
    \<and> nb_blocks t = nb_blocks s"
proof -
  have inv: "par_inv byte_at good fsize M (unlock_erase s)" by (rule at_rest_inv [OF r])
  have sm: "small M (pages_per_block s)" using r by (simp add: at_rest_def)
  show ?thesis
  proof (cases "M k")
    case None
    then have "M(k := None) = M" by auto
    with None par_del_key [OF inv, of k] r show ?thesis by (auto simp: unlock_erase_def lock_simps)
  next
    case (Some v)
    with par_del_key [OF inv, of k] obtain p t where t: "del_key k (unlock_erase s) = Ret (int p, t)"
      "par_inv byte_at good fsize (M(k := None)) t" "par_same (unlock_erase s) t" by auto
    have pp: "pages_per_block t = pages_per_block s" "nb_blocks t = nb_blocks s"
      using par_sameD(1,2) [OF t(3)] by (simp_all add: unlock_erase_def)
    then have "resting (M(k := None)) t" using t(2) sm by (intro inv_at_rest) (auto simp: small_def)
    with pp(2) t(1) Some par_invD(2) [OF t(2)] show ?thesis by auto
  qed
qed

lemma gc_section:
  assumes r: "resting M s" and f: "gc_fit s"
  shows "\<exists>t. gc_body K s = Ret t \<and> resting M (unlock_erase t) \<and> nb_blocks t = nb_blocks s"
proof -
  have p: "par_kv M s" "\<not> list_lock s" "\<not> one_lock s" "gc_ready M s" using r f by (auto simp: at_rest_def intro: gc_fit_ready)
  obtain t where t: "gc_body K s = Ret t" "par_kv M t" "par_same s t"
    by (rule par_gc_body [OF p])
  have "resting M (unlock_erase t)"
    using r t(2) par_sameD(2,6,7) [OF t(3)] by (simp add: at_rest_def unlock_erase_def lock_simps)
  with t(1) par_sameD(1) [OF t(3)] show ?thesis by blast
qed

lemma flush_section:
  assumes r: "resting M s" and f: "flushable s"
  shows "\<exists>t. flush_body K s = Ret (0, t) \<and> resting M (unlock_erase t) \<and> nb_blocks t = nb_blocks s"
proof -
  have p: "par_kv M s" "flushable s" "\<not> one_lock s" "\<not> list_lock s" using r f by (simp_all add: at_rest_def)
  obtain m fd m' where b: "flush_body K s = Ret (0, flushed s m fd m')" "good m" "good m'"
    "erased_pages byte_at s (take (nb_meta 0 s) (meta_blkordr s)) m" "flush_setup (planned s m fd) fsize (flush_plan s)"
    "meta_pages byte_at K (planned s m fd) (flush_plan s) (metadata_size s div page_size s) m'"
    by (rule par_flush_body [OF p])
  have "par_kv M (flushed s m fd m')" by (rule flushed_rep [OF p(1,2) b(3-6)])
  then have "resting M (unlock_erase (flushed s m fd m'))"
    using r by (simp add: at_rest_def unlock_erase_def lock_simps)
  with b(1) show ?thesis by auto
qed

end

end
