(* ===== verification/ParallelRuns.thy ===== *)
theory ParallelRuns
  imports ParallelThreads
begin

text \<open>
  The runs of the threads: what one step does, what holds of every world that is reached, and that
  the threads do not block one another for ever.
\<close>

section \<open>One step\<close>

text \<open>How many more steps an activity takes, waiting for \<open>erase_lock\<close> apart.\<close>

fun gc_left :: "gc_pc option \<Rightarrow> nat" where
  "gc_left None = 0" | "gc_left (Some Gc_Out) = 1" | "gc_left (Some Gc_In) = 2" | "gc_left (Some Gc_Try) = 3" | "gc_left (Some Gc_Flag) = 4"

fun flush_left :: "flush_pc option \<Rightarrow> nat" where
  "flush_left None = 0" | "flush_left (Some Fl_Out) = 1" | "flush_left (Some Fl_In) = 2" | "flush_left (Some (Fl_Try f)) = 3"
| "flush_left (Some Fl_Count) = 4" | "flush_left (Some Fl_Flag) = 5"

fun steps_left :: "nat \<Rightarrow> thread \<Rightarrow> nat" where
  "steps_left n Idle = 0"
| "steps_left n (Set_Wait k v) = n + 13" | "steps_left n (Set_In k v) = n + 12"
| "steps_left n (Check_Scan i) = n - i + 11" | "steps_left n (Check_Gc p) = gc_left (Some p) + 6"
| "steps_left n Check_Count = 6" | "steps_left n (Check_Flush p) = flush_left (Some p)"
| "steps_left n (Get_Wait k) = 2" | "steps_left n (Get_In k) = 1"
| "steps_left n (Del_Wait k) = 2" | "steps_left n (Del_In k) = 1"
| "steps_left n (Wear p) = gc_left (Some p)"
| "steps_left n Timer = 6" | "steps_left n (Flush p) = flush_left (Some p)"

fun waits :: "thread \<Rightarrow> bool" where
  "waits (Set_Wait k v) = True" | "waits (Get_Wait k) = True" | "waits (Del_Wait k) = True"
| "waits (Check_Flush p) = (p = Fl_Try True)" | "waits (Flush p) = (p = Fl_Try True)"
| "waits _ = False"

text \<open>The lock goes to who enters a section, is free when he leaves it, and else stays as it is.\<close>

definition handed :: "bool \<Rightarrow> bool \<Rightarrow> 'm lkp_kv \<Rightarrow> 'm lkp_kv \<Rightarrow> bool" where
  "handed before after s t \<longleftrightarrow> erase_lock t = (after \<or> erase_lock s \<and> \<not> before) \<and> (after \<longrightarrow> \<not> erase_lock s) \<and> nb_blocks t = nb_blocks s"

context reliable_flash
begin

lemma gc_step_ok:
  assumes r: "resting M s" and l: "p = Gc_In \<Longrightarrow> erase_lock s \<and> gc_fit s"
  shows "\<exists>p' t. gc_step K p s = Ret (p', t) \<and> resting M t \<and> handed (p = Gc_In) (p' = Some Gc_In) s t \<and> gc_left p' < gc_left (Some p)"
proof (cases p)
  case Gc_Flag
  then show ?thesis using r by (simp add: handed_def cmpxchg01_def lock_simps)
next
  case Gc_In
  with gc_section [OF r] l obtain t where "gc_body K s = Ret t" "resting M (unlock_erase t)" "nb_blocks t = nb_blocks s" by blast
  then show ?thesis using Gc_In l by (simp add: handed_def unlock_erase_def)
qed (use r in \<open>simp_all add: handed_def lock_simps\<close>)

lemma flush_step_ok:
  assumes r: "resting M s" and l: "p = Fl_In \<Longrightarrow> erase_lock s \<and> flushable s"
  shows "\<exists>p' t. flush_step K p s = Ret (p', t) \<and> resting M t \<and> handed (p = Fl_In) (p' = Some Fl_In) s t
    \<and> (flush_left p' < flush_left (Some p) \<or> p = Fl_Try True \<and> erase_lock s \<and> p' = Some p)"
proof (cases p)
  case Fl_Flag
  then show ?thesis using r by (simp add: handed_def cmpxchg01_def lock_simps)
next
  case Fl_In
  with flush_section [OF r] l obtain t where "flush_body K s = Ret (0, t)" "resting M (unlock_erase t)" "nb_blocks t = nb_blocks s" by blast
  then show ?thesis using Fl_In l by (simp add: handed_def unlock_erase_def)
qed (use r in \<open>auto simp: handed_def lock_simps\<close>)

lemma thread_step_ok:
  assumes r: "resting M s" and l: "in_section th \<Longrightarrow> erase_lock s" and f: "section_fits th s"
  shows "\<exists>th' ev t M'. thread_step K th s = Ret (th', ev, t) \<and> replay M ev = Some M' \<and> resting M' t
    \<and> handed (in_section th) (in_section th') s t
    \<and> (steps_left (nb_blocks s) th' < steps_left (nb_blocks s) th \<or> th' = th \<and> (th = Idle \<or> waits th \<and> erase_lock s))"
proof (cases th)
  case (Set_In k v)
  with set_section [OF r, of k v] l f obtain x t where "set_body K k v s = Ret (x, True, t)" "x = 0 \<or> x = - 3"
    "resting (M(k \<mapsto> v)) t" "\<not> erase_lock t" "nb_blocks t = nb_blocks s" by auto
  then show ?thesis using Set_In l by (simp add: handed_def del: fun_upd_apply)
next
  case (Check_Scan i)
  have "length (blocks s) = nb_blocks s" using r by (simp add: at_rest_def par_rep_def)
  then show ?thesis using Check_Scan r by (auto simp: handed_def arr_get_def)
next
  case (Check_Gc p)
  with gc_step_ok [OF r, of p] l f obtain p' t where "gc_step K p s = Ret (p', t)" "resting M t"
    "handed (p = Gc_In) (p' = Some Gc_In) s t" "gc_left p' < gc_left (Some p)" by auto
  then show ?thesis using Check_Gc by (cases p') auto
next
  case (Check_Flush p)
  with flush_step_ok [OF r, of p] l f obtain p' t where "flush_step K p s = Ret (p', t)" "resting M t"
    "handed (p = Fl_In) (p' = Some Fl_In) s t"
    "flush_left p' < flush_left (Some p) \<or> p = Fl_Try True \<and> erase_lock s \<and> p' = Some p" by auto
  then show ?thesis using Check_Flush by (cases p') auto
next
  case (Get_In k)
  with get_section [OF r, of k] f obtain x where "get_keyval K k (unlock_erase s) = Ret (x, M k)" by auto
  then show ?thesis using Get_In r l by (simp add: handed_def unlock_erase_def lock_simps)
next
  case (Del_In k)
  with del_section [OF r, of k] obtain x t where "del_key k (unlock_erase s) = Ret (x, t)" "(0 \<le> x) = (k \<in> dom M)"
    "resting (M(k := None)) t" "\<not> erase_lock t" "nb_blocks t = nb_blocks s" by auto
  then show ?thesis using Del_In l by (simp add: handed_def del: fun_upd_apply)
next
  case (Wear p)
  with gc_step_ok [OF r, of p] l f obtain p' t where "gc_step K p s = Ret (p', t)" "resting M t"
    "handed (p = Gc_In) (p' = Some Gc_In) s t" "gc_left p' < gc_left (Some p)" by auto
  then show ?thesis using Wear by (cases p') auto
next
  case (Flush p)
  with flush_step_ok [OF r, of p] l f obtain p' t where "flush_step K p s = Ret (p', t)" "resting M t"
    "handed (p = Fl_In) (p' = Some Fl_In) s t"
    "flush_left p' < flush_left (Some p) \<or> p = Fl_Try True \<and> erase_lock s \<and> p' = Some p" by auto
  then show ?thesis using Flush by (cases p') auto
qed (use r in \<open>auto simp: handed_def lock_simps\<close>)

end

section \<open>One thread alone\<close>

text \<open>\<open>n\<close> steps of a thread while the others stand still.\<close>

fun run_alone :: "'m heap_kernel \<Rightarrow> nat \<Rightarrow> thread \<Rightarrow> 'm lkp_kv \<Rightarrow> (thread \<times> event list \<times> 'm lkp_kv) outcome" where
  "run_alone K 0 th s = Ret (th, [], s)"
| "run_alone K (Suc n) th s = obind (thread_step K th s) (\<lambda>(th, ev, s).
     obind (run_alone K n th s) (\<lambda>(th, ev', s). Ret (th, ev @ ev', s)))"

definition alone :: "'m heap_kernel \<Rightarrow> thread \<Rightarrow> 'm lkp_kv \<Rightarrow> event list \<Rightarrow> thread \<Rightarrow> 'm lkp_kv \<Rightarrow> bool" where
  "alone K th s ev th' t \<longleftrightarrow> (\<exists>n. run_alone K n th s = Ret (th', ev, t))"

lemma alone_stop [intro]: "alone K th s [] th s"
  unfolding alone_def by (rule exI [of _ 0]) simp

lemma alone_step:
  assumes "thread_step K th s = Ret (th1, ev, s1)" "alone K th1 s1 ev' th' t"
  shows "alone K th s (ev @ ev') th' t"
proof -
  obtain n where "run_alone K n th1 s1 = Ret (th', ev', t)" using assms(2) by (auto simp: alone_def)
  then have "run_alone K (Suc n) th s = Ret (th', ev @ ev', t)" using assms(1) by simp
  then show ?thesis unfolding alone_def by blast
qed

lemmas alone_quiet = alone_step [where ev = "[]", simplified]

lemma alone_scan:
  assumes "length (blocks s) = nb_blocks s"
    and "alone K (if list_ex (\<lambda>b. INVALID_THRESHOLD2 \<le> nb_invalid b) (drop i (blocks s)) then Check_Gc Gc_Flag else Check_Count) s ev th t"
  shows "alone K (Check_Scan i) s ev th t"
  using assms(2)
proof (induction "nb_blocks s - i" arbitrary: i)
  case 0
  then have "alone K Check_Count s ev th t" using assms(1) by simp
  with 0 show ?case by (intro alone_quiet [of K "Check_Scan i" s Check_Count s]) simp_all
next
  case (Suc n)
  then have i: "i < length (blocks s)" using assms(1) by simp
  then have d: "drop i (blocks s) = blocks s ! i # drop (Suc i) (blocks s)" by (rule Cons_nth_drop_Suc [symmetric])
  show ?case
  proof (cases "INVALID_THRESHOLD2 \<le> nb_invalid (blocks s ! i)")
    case True
    with Suc.prems i assms(1) d show ?thesis by (intro alone_quiet [of K "Check_Scan i" s "Check_Gc Gc_Flag" s]) (simp_all add: arr_get_def)
  next
    case False
    have "alone K (Check_Scan (Suc i)) s ev th t" by (rule Suc.hyps(1)) (use Suc.hyps(2) Suc.prems False d in simp_all)
    with False i assms(1) show ?thesis by (intro alone_quiet [of K "Check_Scan i" s "Check_Scan (Suc i)" s]) (simp_all add: arr_get_def)
  qed
qed

text \<open>What runs \<open>gc\<close> or \<open>flush_metadata\<close> is a thread whose steps are theirs.\<close>

definition drives :: "'m heap_kernel \<Rightarrow> ('p \<Rightarrow> 'm lkp_kv \<Rightarrow> ('p option \<times> 'm lkp_kv) outcome) \<Rightarrow> ('p \<Rightarrow> thread) \<Rightarrow> thread \<Rightarrow> bool" where
  "drives K f at after \<longleftrightarrow> (\<forall>p s. thread_step K (at p) s =
     obind (f p s) (\<lambda>(p', s). Ret (case p' of None \<Rightarrow> after | Some p \<Rightarrow> at p, [], s)))"

lemma drives_step:
  "drives K f at after \<Longrightarrow> f p s = Ret (p', s1) \<Longrightarrow> alone K (case p' of None \<Rightarrow> after | Some p \<Rightarrow> at p) s1 ev th t
    \<Longrightarrow> alone K (at p) s ev th t"
  by (rule alone_quiet [of K "at p" s "case p' of None \<Rightarrow> after | Some p \<Rightarrow> at p" s1]) (simp_all add: drives_def)

lemma drives_threads:
  "drives K (gc_step K) Check_Gc Check_Count" "drives K (gc_step K) Wear Idle"
  "drives K (flush_step K) Check_Flush Idle" "drives K (flush_step K) Flush Idle"
  by (simp_all add: drives_def)

lemma alone_gc:
  assumes r: "drives K (gc_step K) at after" and g: "gc K s = Ret s1" and a: "alone K after s1 ev th t"
  shows "alone K (at Gc_Flag) s ev th t"
proof -
  note step = drives_step [OF r]
  obtain old new where c: "cmpxchg01 (is_gb s) = (old, new)" by (cases "cmpxchg01 (is_gb s)") simp
  let ?u = "s\<lparr>is_gb := new\<rparr>"
  let ?v = "?u\<lparr>erase_lock := True\<rparr>"
  have flag: "alone K (at Gc_Try) ?u ev th t \<Longrightarrow> ?thesis" if "64 \<le> pages_per_block s" "old \<noteq> 0"
    using that c by (intro step [of Gc_Flag s "Some Gc_Try" ?u]) simp_all
  consider "pages_per_block s < 64" | "64 \<le> pages_per_block s" "old = 0" | "64 \<le> pages_per_block s" "old \<noteq> 0" "erase_lock s"
    | "64 \<le> pages_per_block s" "old \<noteq> 0" "\<not> erase_lock s" by linarith
  then show ?thesis
  proof cases
    case 1 with a g show ?thesis by (intro step [of Gc_Flag s None s]) (simp_all add: gc_def)
  next
    case 2 with a g c show ?thesis by (intro step [of Gc_Flag s None ?u]) (simp_all add: gc_def)
  next
    case 3 with a g c show ?thesis by (intro flag step [of Gc_Try ?u None ?u]) (auto simp: gc_def)
  next
    case 4
    with g c obtain u where u: "gc_body K ?v = Ret u" "s1 = (unlock_erase u)\<lparr>is_gb := 0\<rparr>"
      by (auto simp: gc_def obind_eq_Ret)
    from u a have "alone K (at Gc_Out) (unlock_erase u) ev th t" by (intro step [of Gc_Out "unlock_erase u" None s1]) simp_all
    with u have "alone K (at Gc_In) ?v ev th t" by (intro step [of Gc_In ?v "Some Gc_Out" "unlock_erase u"]) simp_all
    with 4 have "alone K (at Gc_Try) ?u ev th t" by (intro step [of Gc_Try ?u "Some Gc_In" ?v]) simp_all
    with 4 show ?thesis by (intro flag)
  qed
qed

lemma alone_flush_locked:
  assumes r: "drives K (flush_step K) at after" and n: "\<not> erase_lock s" and b: "flush_body K (s\<lparr>erase_lock := True\<rparr>) = Ret (x, u)"
    and a: "alone K after ((unlock_erase u)\<lparr>recent_update := 0, is_flush := 0\<rparr>) ev th t"
  shows "alone K (at (Fl_Try force)) s ev th t"
proof -
  note step = drives_step [OF r]
  from a have "alone K (at Fl_Out) (unlock_erase u) ev th t"
    by (intro step [of Fl_Out "unlock_erase u" None "(unlock_erase u)\<lparr>recent_update := 0, is_flush := 0\<rparr>"]) simp_all
  with b have "alone K (at Fl_In) (s\<lparr>erase_lock := True\<rparr>) ev th t"
    by (intro step [of Fl_In "s\<lparr>erase_lock := True\<rparr>" "Some Fl_Out" "unlock_erase u"]) simp_all
  with n show ?thesis by (intro step [of "Fl_Try force" s "Some Fl_In" "s\<lparr>erase_lock := True\<rparr>"]) simp_all
qed

lemma alone_flush_forced:
  assumes r: "drives K (flush_step K) at after" and g: "flush_metadata K True s = Ret (x, s1)" and a: "alone K after s1 ev th t"
  shows "alone K (at (Fl_Try True)) s ev th t"
proof -
  from g obtain u where "\<not> erase_lock s" "flush_body K (s\<lparr>erase_lock := True\<rparr>) = Ret (x, u)"
    "s1 = (unlock_erase u)\<lparr>recent_update := 0, is_flush := 0\<rparr>"
    by (auto simp: flush_metadata_def Let_def obind_eq_Ret split: if_splits)
  with a show ?thesis by (auto intro: alone_flush_locked [OF r])
qed

lemma alone_flush:
  assumes r: "drives K (flush_step K) at after" and g: "flush_metadata K False s = Ret (x, s1)" and a: "alone K after s1 ev th t"
  shows "alone K (at Fl_Flag) s ev th t"
proof -
  note step = drives_step [OF r]
  let ?left = "\<lambda>s. s\<lparr>recent_update := 0, is_flush := 0\<rparr>"
  have out: "alone K (at Fl_Out) z ev th t" if "s1 = ?left z" for z
    using a that by (intro step [of Fl_Out z None s1]) simp_all
  obtain old new where c: "cmpxchg01 (is_flush s) = (old, new)" by (cases "cmpxchg01 (is_flush s)") simp
  let ?u = "s\<lparr>is_flush := new\<rparr>"
  show ?thesis
  proof (cases "old = 0")
    case True
    with g c have "s1 = ?left ?u" by (simp add: flush_metadata_def)
    with out [of ?u] True c show ?thesis by (intro step [of Fl_Flag s "Some Fl_Out" ?u]) simp_all
  next
    case False
    have "alone K (at Fl_Count) ?u ev th t"
    proof (cases "flush_cnt s < FLUSH_THRESHOLD")
      case True
      let ?v = "?u\<lparr>flush_cnt := Suc (flush_cnt s)\<rparr>"
      from g c False True have "s1 = ?left ?v" by (simp add: flush_metadata_def)
      with out [of ?v] True show ?thesis by (intro step [of Fl_Count ?u "Some Fl_Out" ?v]) simp_all
    next
      case full: False
      let ?v = "?u\<lparr>flush_cnt := 0\<rparr>"
      have "alone K (at (Fl_Try False)) ?v ev th t"
      proof (cases "erase_lock s")
        case True
        with g c False full have "s1 = ?left ?v" by (simp add: flush_metadata_def)
        with out [of ?v] True show ?thesis by (intro step [of "Fl_Try False" ?v "Some Fl_Out" ?v]) simp_all
      next
        case unlocked: False
        with g c False full obtain u where "flush_body K (?v\<lparr>erase_lock := True\<rparr>) = Ret (x, u)" "s1 = ?left (unlock_erase u)"
          by (auto simp: flush_metadata_def Let_def obind_eq_Ret)
        with unlocked a show ?thesis by (intro alone_flush_locked [OF r, of ?v x u]) simp_all
      qed
      with full show ?thesis by (intro step [of Fl_Count ?u "Some (Fl_Try False)" ?v]) simp_all
    qed
    with False c show ?thesis by (intro step [of Fl_Flag s "Some Fl_Count" ?u]) simp_all
  qed
qed

lemma alone_count:
  assumes g: "(let c = write_cnt s; s = s\<lparr>write_cnt := Suc c\<rparr> in
       if FLUSH_THRESHOLD2 \<le> c
       then obind (flush_metadata K True (s\<lparr>write_cnt := 0\<rparr>)) (\<lambda>(_, s). Ret s) else Ret s) = Ret t"
  shows "alone K Check_Count s [] Idle t"
proof (cases "FLUSH_THRESHOLD2 \<le> write_cnt s")
  case True
  with g obtain x where "flush_metadata K True (s\<lparr>write_cnt := 0\<rparr>) = Ret (x, t)" by (auto simp: obind_eq_Ret)
  then have "alone K (Check_Flush (Fl_Try True)) (s\<lparr>write_cnt := 0\<rparr>) [] Idle t"
    by (rule alone_flush_forced [OF drives_threads(3) _ alone_stop])
  with True show ?thesis by (intro alone_quiet [of K Check_Count s "Check_Flush (Fl_Try True)" "s\<lparr>write_cnt := 0\<rparr>"]) simp_all
next
  case False
  with g have "alone K Idle (s\<lparr>write_cnt := Suc (write_cnt s)\<rparr>) [] Idle t" by (auto intro: alone_stop)
  with False show ?thesis by (intro alone_quiet [of K Check_Count s Idle "s\<lparr>write_cnt := Suc (write_cnt s)\<rparr>"]) simp_all
qed

lemma alone_check:
  assumes l: "length (blocks s) = nb_blocks s" and g: "gc_check K s = Ret t"
  shows "alone K (Check_Scan 0) s [] Idle t"
proof (rule alone_scan [OF l])
  let ?due = "list_ex (\<lambda>b. INVALID_THRESHOLD2 \<le> nb_invalid b) (blocks s)"
  from g obtain u where u: "(if ?due then gc K s else Ret s) = Ret u" "(let c = write_cnt u; s = u\<lparr>write_cnt := Suc c\<rparr> in
       if FLUSH_THRESHOLD2 \<le> c
       then obind (flush_metadata K True (s\<lparr>write_cnt := 0\<rparr>)) (\<lambda>(_, s). Ret s) else Ret s) = Ret t"
    unfolding gc_check_def obind_eq_Ret by blast
  note u(1) moreover have "alone K Check_Count u [] Idle t" by (rule alone_count [OF u(2)])
  ultimately show "alone K (if list_ex (\<lambda>b. INVALID_THRESHOLD2 \<le> nb_invalid b) (drop 0 (blocks s)) then Check_Gc Gc_Flag else Check_Count) s [] Idle t"
    using alone_gc [OF drives_threads(1), where ?s = s and ?s1.0 = u] by (simp split: if_splits)
qed

section \<open>All runs\<close>

text \<open>\<open>erase_lock\<close> is held exactly while a thread is in a section, and then by this thread alone.\<close>

definition exclusive :: "'m world \<Rightarrow> bool" where
  "exclusive w \<longleftrightarrow> erase_lock (store w) = (\<exists>i < length (threads w). in_section (threads w ! i))
     \<and> (\<forall>i < length (threads w). \<forall>j < length (threads w). in_section (threads w ! i) \<and> in_section (threads w ! j) \<longrightarrow> i = j)"

lemma exclusiveD:
  "exclusive w \<Longrightarrow> i < length (threads w) \<Longrightarrow> in_section (threads w ! i) \<Longrightarrow> erase_lock (store w)"
  by (auto simp: exclusive_def)

lemma handed_over:
  assumes L: "L = (\<exists>k < n. P k)" and u: "\<forall>k < n. \<forall>j < n. P k \<and> P j \<longrightarrow> k = j" and i: "i < n" and a: "a \<longrightarrow> \<not> L"
  shows "(a \<or> L \<and> \<not> P i) = (\<exists>k < n. (P(i := a)) k)"
    and "\<forall>k < n. \<forall>j < n. (P(i := a)) k \<and> (P(i := a)) j \<longrightarrow> k = j"
proof -
  show "(a \<or> L \<and> \<not> P i) = (\<exists>k < n. (P(i := a)) k)"
  proof (cases a)
    case True
    then show ?thesis using i by (auto intro: exI [of _ i])
  next
    case False
    then have "(\<exists>k < n. (P(i := a)) k) \<longleftrightarrow> (\<exists>k < n. k \<noteq> i \<and> P k)" by auto
    also have "\<dots> \<longleftrightarrow> L \<and> \<not> P i" unfolding L using u i by blast
    finally show ?thesis using False by simp
  qed
  show "\<forall>k < n. \<forall>j < n. (P(i := a)) k \<and> (P(i := a)) j \<longrightarrow> k = j"
  proof (cases a)
    case True
    with a L have "\<forall>k < n. \<not> P k" by blast
    then show ?thesis by (auto split: if_splits)
  next
    case False
    then show ?thesis using u by (auto split: if_splits)
  qed
qed

lemma advance_exclusive:
  assumes e: "exclusive w" and i: "i < length (threads w)" and h: "handed (in_section (threads w ! i)) (in_section th) (store w) t"
  shows "exclusive (advance i th ev t w)"
proof -
  let ?P = "\<lambda>k. in_section (threads w ! k)"
  have t: "erase_lock t = (in_section th \<or> erase_lock (store w) \<and> \<not> ?P i)" and n: "in_section th \<longrightarrow> \<not> erase_lock (store w)"
    using h by (simp_all add: handed_def)
  have P: "in_section ((threads w)[i := th] ! k) = (?P(i := in_section th)) k" if "k < length (threads w)" for k
    using that by (simp add: nth_list_update)
  from e have "erase_lock (store w) = (\<exists>k < length (threads w). ?P k)"
    "\<forall>k < length (threads w). \<forall>j < length (threads w). ?P k \<and> ?P j \<longrightarrow> k = j" by (simp_all add: exclusive_def)
  from handed_over [OF this i n] show ?thesis
    by (simp add: exclusive_def advance_def t P del: fun_upd_apply cong: conj_cong)
qed

lemma reaches_exclusive_start:
  "list_all (\<lambda>th. th = Idle) (threads w) \<Longrightarrow> \<not> erase_lock (store w) \<Longrightarrow> exclusive w"
  by (auto simp: exclusive_def list_all_length)

context reliable_flash
begin

lemma reaches_inv:
  assumes "reaches K section_fits w0 w" and "list_all (\<lambda>th. th = Idle) (threads w0)" and "history w0 = []"
    and "resting M0 (store w0)" and "\<not> erase_lock (store w0)"
  shows "\<exists>M. replay M0 (history w) = Some M \<and> resting M (store w) \<and> exclusive w"
  using assms(1)
proof induction
  case reaches_start
  then show ?case using assms(2-5) by (auto intro: reaches_exclusive_start)
next
  case (reaches_call w i th)
  then have "handed (in_section (threads w ! i)) (in_section th) (store w) (store w)" by (simp add: handed_def started_outside)
  with reaches_call have "exclusive (advance i th [] (store w) w)" by (blast intro: advance_exclusive)
  moreover from reaches_call.IH obtain M where "replay M0 (history w) = Some M" "resting M (store w)" by blast
  ultimately show ?case by (intro exI [of _ M]) (simp add: advance_def)
next
  case (reaches_step w i th ev t)
  then obtain M where M: "replay M0 (history w) = Some M" "resting M (store w)" "exclusive w" by blast
  from thread_step_ok [OF M(2) exclusiveD [OF M(3) reaches_step.hyps(2)] reaches_step.hyps(3)] reaches_step.hyps(4)
  obtain M' where "replay M ev = Some M'" "resting M' t" "handed (in_section (threads w ! i)) (in_section th) (store w) t" by auto
  with M reaches_step.hyps(2) show ?case
    by (auto simp: replay_append advance_def intro: advance_exclusive [unfolded advance_def])
qed

lemma progress:
  assumes r: "resting M (store w)" and e: "exclusive w" and f: "list_all (\<lambda>th. section_fits th (store w)) (threads w)"
    and n: "\<exists>th \<in> set (threads w). th \<noteq> Idle"
  shows "\<exists>i < length (threads w). \<exists>th ev t. thread_step K (threads w ! i) (store w) = Ret (th, ev, t)
    \<and> steps_left (nb_blocks (store w)) th < steps_left (nb_blocks (store w)) (threads w ! i)"
proof -
  let ?left = "steps_left (nb_blocks (store w))"
  have "\<exists>i < length (threads w). threads w ! i \<noteq> Idle \<and> (erase_lock (store w) \<longrightarrow> in_section (threads w ! i))"
  proof (cases "erase_lock (store w)")
    case True
    with e obtain i where "i < length (threads w)" "in_section (threads w ! i)" by (auto simp: exclusive_def)
    then show ?thesis by (cases "threads w ! i") auto
  next
    case False
    with n show ?thesis by (auto simp: in_set_conv_nth)
  qed
  then obtain i where i: "i < length (threads w)" "threads w ! i \<noteq> Idle" "erase_lock (store w) \<longrightarrow> in_section (threads w ! i)" by blast
  have "section_fits (threads w ! i) (store w)" using f i(1) by (simp add: list_all_length)
  from thread_step_ok [OF r exclusiveD [OF e i(1)] this] obtain th ev t where
    "thread_step K (threads w ! i) (store w) = Ret (th, ev, t)"
    "?left th < ?left (threads w ! i) \<or> th = threads w ! i \<and> (threads w ! i = Idle \<or> waits (threads w ! i) \<and> erase_lock (store w))"
    by blast
  moreover have "\<not> waits th" if "in_section th" for th using that by (cases th) auto
  ultimately show ?thesis using i by blast
qed

end

lemma flush_timer_alone:
  assumes "flush_timer_callback K s = Ret t"
  shows "alone K Timer s [] Idle t"
proof (cases "recent_update s = 0")
  case True
  with assms have "alone K Idle s [] Idle t" by (auto simp: flush_timer_callback_def)
  with True show ?thesis by (intro alone_quiet [of K Timer s Idle s]) simp_all
next
  case False
  with assms obtain x where "flush_metadata K False s = Ret (x, t)" by (auto simp: flush_timer_callback_def obind_eq_Ret)
  then have "alone K (Flush Fl_Flag) s [] Idle t" by (rule alone_flush [OF drives_threads(4) _ alone_stop])
  with False show ?thesis by (intro alone_quiet [of K Timer s "Flush Fl_Flag" s]) simp_all
qed

context reliable_flash
begin

lemma set_alone:
  assumes inv: "par_inv byte_at good fsize M s" and sm: "small M (pages_per_block s)" and f: "section_fits (Set_In k v) s"
    and g: "set_keyval K k v s = Ret (r, t)"
  shows "alone K (Set_Wait k v) s [Set_Ev k v r] Idle t"
proof -
  let ?s = "s\<lparr>erase_lock := True\<rparr>"
  have free: "\<not> erase_lock s" by (rule par_invD(2) [OF inv])
  have "resting M ?s" using inv_at_rest [OF inv sm] by (simp add: lock_simps)
  moreover have "section_fits (Set_In k v) ?s" using f by (simp add: can_write_def get_healthy_locks cong: outcome.case_cong)
  ultimately obtain r' u where u: "set_body K k v ?s = Ret (r', True, u)" "resting (M(k \<mapsto> v)) u"
    using set_section [of M ?s k v] by auto
  have l: "length (blocks u) = nb_blocks u" using u(2) by (simp add: at_rest_def par_rep_def)
  have c: "gc_check K u = Ret t" "r' = r" using g u(1) free by (auto simp: set_keyval_def lock_erase_def obind_eq_Ret)
  have "alone K (Check_Scan 0) u [] Idle t" by (rule alone_check [OF l c(1)])
  from alone_step [OF _ this, of "Set_In k v" ?s "[Set_Ev k v r]"] u(1) c(2) have "alone K (Set_In k v) ?s [Set_Ev k v r] Idle t" by simp
  with free show ?thesis by (intro alone_quiet [of K "Set_Wait k v" s "Set_In k v" ?s]) simp_all
qed

end

section \<open>The properties\<close>

text \<open>A world before any operation: every thread is idle and the store is as \<open>par_inv\<close> says.\<close>

definition world_starts :: "('m \<Rightarrow> nat \<Rightarrow> byte) \<Rightarrow> ('m \<Rightarrow> bool) \<Rightarrow> nat \<Rightarrow> (byte list \<rightharpoonup> byte list) \<Rightarrow> 'm world \<Rightarrow> bool" where
  "world_starts byte_at good fsize M w \<longleftrightarrow> list_all (\<lambda>th. th = Idle) (threads w) \<and> history w = []
     \<and> par_inv byte_at good fsize M (store w) \<and> small M (pages_per_block (store w))"

lemma starts_inv:
  assumes "reliable_flash K byte_at good fsize" and "world_starts byte_at good fsize M0 w0" and "reaches K section_fits w0 w"
  shows "\<exists>M. replay M0 (history w) = Some M \<and> at_rest byte_at good fsize M (store w) \<and> exclusive w"
  using assms(2) reliable_flash.reaches_inv [OF assms(1,3)] inv_at_rest par_invD(2)
  unfolding world_starts_def by blast

text \<open>The examples: two threads on the erased partition after loading.\<close>

lemma demo_world:
  obtains s where "init_config demo_K 0 0 par_demo0 = Ret (0, s)"
    "world_starts nandsim_byte demo_good 61440 Map.empty \<lparr>threads = [Idle, Idle], store = s, history = []\<rparr>"
    "section_fits (Set_In [107] [118]) s" "par_inv nandsim_byte demo_good 61440 Map.empty s" "quiet s"
    "small Map.empty (pages_per_block s)" "small [[107] \<mapsto> [118]] (pages_per_block s)"
proof -
  obtain s where s: "init_config demo_K 0 0 par_demo0 = Ret (0, s)" "par_inv nandsim_byte demo_good 61440 Map.empty s" "\<not> read_only s"
    "page_size s = 1024" "can_write s" "index_room (HASH_SIZE s) (hashtable s)" "quiet s"
    "couple_ok (page_size s) ([107], [118])" "length [107 :: byte] < PAR_KEY_MAX" by (rule par_demo_ready)
  then show ?thesis using that [OF s(1)] by (simp add: world_starts_def small_def)
qed

text \<open>The first thread sets a key while the second one waits, then the second one reads it.\<close>

lemma demo_run:
  assumes s: "par_inv nandsim_byte demo_good 61440 Map.empty s" "section_fits (Set_In [107] [118]) s" "small Map.empty (pages_per_block s)"
  shows "\<exists>w r x. reaches demo_K section_fits \<lparr>threads = [Idle, Idle], store = s, history = []\<rparr> w
    \<and> threads w = [Check_Scan 0, Idle] \<and> history w = [Set_Ev [107] [118] r, Get_Ev [107] x]"
proof -
  let ?w = "\<lambda>a b s h. \<lparr>threads = [a, b], store = s, history = h\<rparr>" and ?S = "[107] :: byte list" and ?V = "[118] :: byte list"
  let ?R = "reaches demo_K section_fits (?w Idle Idle s [])"
  let ?s1 = "s\<lparr>erase_lock := True\<rparr>"
  note run = reliable_flash.set_section [OF demo_reliable] reliable_flash.get_section [OF demo_reliable]
  have call0: "?R (?w th b u h)" if "?R (?w Idle b u h)" "started th" for th b u h
    using reaches_call [OF that(1), of 0 th] that(2) by (simp add: advance_def)
  have call1: "?R (?w a th u h)" if "?R (?w a Idle u h)" "started th" for th a u h
    using reaches_call [OF that(1), of 1 th] that(2) by (simp add: advance_def)
  have step0: "?R (?w th b t (h @ ev))" if "?R (?w a b u h)" "section_fits a u" "thread_step demo_K a u = Ret (th, ev, t)" for a b u h th ev t
    using reaches_step [OF that(1), of 0 th ev t] that(2,3) by (simp add: advance_def)
  have step1: "?R (?w a th t (h @ ev))" if "?R (?w a b u h)" "section_fits b u" "thread_step demo_K b u = Ret (th, ev, t)" for a b u h th ev t
    using reaches_step [OF that(1), of 1 th ev t] that(2,3) by (simp add: advance_def)
  have free: "\<not> erase_lock s" by (rule par_invD(2) [OF s(1)])
  have r1: "at_rest nandsim_byte demo_good 61440 Map.empty ?s1" using inv_at_rest [OF s(1,3)] by (simp add: lock_simps)
  have l1: "erase_lock ?s1" by simp
  have f1: "section_fits (Set_In ?S ?V) ?s1" using s(2) by (simp add: can_write_def get_healthy_locks cong: outcome.case_cong)
  obtain r t where t: "set_body demo_K ?S ?V ?s1 = Ret (r, True, t)" "at_rest nandsim_byte demo_good 61440 [?S \<mapsto> ?V] t" "\<not> erase_lock t"
    using run(1) [OF r1 l1 f1] by blast
  let ?t1 = "t\<lparr>erase_lock := True\<rparr>"
  obtain x where x: "get_keyval demo_K ?S (unlock_erase ?t1) = Ret (x, Some ?V)"
    using run(2) [of "[?S \<mapsto> ?V]" ?t1 ?S] t(2) by (auto simp: lock_simps cstring_def)
  have "?R (?w (Set_Wait ?S ?V) Idle s [])" by (rule call0 [OF reaches_start]) simp
  from step0 [OF this, of "Set_In ?S ?V" "[]" ?s1] free have "?R (?w (Set_In ?S ?V) Idle ?s1 [])" by simp
  from call1 [OF this, of "Get_Wait ?S"] have "?R (?w (Set_In ?S ?V) (Get_Wait ?S) ?s1 [])" by simp
  from step1 [OF this, of "Get_Wait ?S" "[]" ?s1] have "?R (?w (Set_In ?S ?V) (Get_Wait ?S) ?s1 [])" by simp
  from step0 [OF this f1, of "Check_Scan 0" "[Set_Ev ?S ?V r]" t] t(1) have "?R (?w (Check_Scan 0) (Get_Wait ?S) t [Set_Ev ?S ?V r])" by simp
  from step1 [OF this, of "Get_In ?S" "[]" ?t1] t(3) have "?R (?w (Check_Scan 0) (Get_In ?S) ?t1 [Set_Ev ?S ?V r])" by simp
  from step1 [OF this, of Idle "[Get_Ev ?S (Some ?V)]" "unlock_erase ?t1"] x
  have "?R (?w (Check_Scan 0) Idle (unlock_erase ?t1) [Set_Ev ?S ?V r, Get_Ev ?S (Some ?V)])" by (simp add: cstring_def)
  then show ?thesis by (intro exI [of _ "?w (Check_Scan 0) Idle (unlock_erase ?t1) [Set_Ev ?S ?V r, Get_Ev ?S (Some ?V)]"]) auto
qed

text \<open>
  C9.  Parallel store, all threads and both timers: in every world reached from a store at rest with idle
  threads, whatever the interleaving, \<open>erase_lock\<close> is held exactly while some thread is in a
  section and no two threads are in one at a time; the answers the processes got are those of a sequential
  map, in the order of the sections, and the store represents this map. The hypothesis on a step is that its
  section fits (\<open>section_fits\<close>): for a set what \<open>parallel_set_refines\<close> needs of
  the couple, the block and the index, for a collection \<open>gc_fit\<close>, for a flush
  \<open>flushable\<close>.
\<close>

theorem parallel_threads_linearize:
  assumes "reliable_flash K byte_at good fsize" and "world_starts byte_at good fsize M0 w0" and "reaches K section_fits w0 w"
  shows "(\<exists>M. replay M0 (history w) = Some M \<and> par_inv byte_at good fsize M (unlock_erase (store w)))
     \<and> erase_lock (store w) = (\<exists>i < length (threads w). in_section (threads w ! i))
     \<and> (\<forall>i < length (threads w). \<forall>j < length (threads w). in_section (threads w ! i) \<and> in_section (threads w ! j) \<longrightarrow> i = j)"
  using starts_inv [OF assms] at_rest_inv unfolding exclusive_def by blast

theorem parallel_threads_linearize_witness:
  "\<exists>s w r. init_config demo_K 0 0 par_demo0 = Ret (0, s)
     \<and> reaches demo_K section_fits \<lparr>threads = [Idle, Idle], store = s, history = []\<rparr> w
     \<and> history w = [Set_Ev [107] [118] r, Get_Ev [107] (Some [118])] \<and> par_inv nandsim_byte demo_good 61440 [[107] \<mapsto> [118]] (unlock_erase (store w))"
proof -
  obtain s where s: "init_config demo_K 0 0 par_demo0 = Ret (0, s)"
    "world_starts nandsim_byte demo_good 61440 Map.empty \<lparr>threads = [Idle, Idle], store = s, history = []\<rparr>"
    "section_fits (Set_In [107] [118]) s" "par_inv nandsim_byte demo_good 61440 Map.empty s" "quiet s"
    "small Map.empty (pages_per_block s)" "small [[107] \<mapsto> [118]] (pages_per_block s)" by (rule demo_world)
  obtain w r x where w: "reaches demo_K section_fits \<lparr>threads = [Idle, Idle], store = s, history = []\<rparr> w"
    "history w = [Set_Ev [107] [118] r, Get_Ev [107] x]"
    using demo_run [OF s(4,3,6)] by blast
  from parallel_threads_linearize [OF demo_reliable s(2) w(1)] obtain M where
    "replay Map.empty (history w) = Some M" "par_inv nandsim_byte demo_good 61440 M (unlock_erase (store w))" by blast
  then have "x = Some [118] \<and> par_inv nandsim_byte demo_good 61440 [[107] \<mapsto> [118]] (unlock_erase (store w))"
    unfolding w(2) by (simp split: if_splits)
  with s(1) w show ?thesis by blast
qed

text \<open>
  C10.  Parallel store: the threads do not block one another for ever. In every world that is reached and
  where some thread is busy, and as long as the sections fit, some thread can take a step that returns,
  leads to a reachable world and leaves that thread fewer steps to its end.
\<close>

theorem parallel_threads_progress:
  assumes "reliable_flash K byte_at good fsize" and "world_starts byte_at good fsize M0 w0" and "reaches K section_fits w0 w"
    and "list_all (\<lambda>th. section_fits th (store w)) (threads w)" and "\<exists>th \<in> set (threads w). th \<noteq> Idle"
  shows "\<exists>i < length (threads w). \<exists>th ev t. thread_step K (threads w ! i) (store w) = Ret (th, ev, t)
     \<and> steps_left (nb_blocks (store w)) th < steps_left (nb_blocks (store w)) (threads w ! i)
     \<and> reaches K section_fits w0 (advance i th ev t w)"
proof -
  obtain M where M: "at_rest byte_at good fsize M (store w)" "exclusive w" using starts_inv [OF assms(1-3)] by blast
  obtain i th ev t where i: "i < length (threads w)" "thread_step K (threads w ! i) (store w) = Ret (th, ev, t)"
    "steps_left (nb_blocks (store w)) th < steps_left (nb_blocks (store w)) (threads w ! i)"
    using reliable_flash.progress [OF assms(1) M assms(4,5)] by blast
  have "section_fits (threads w ! i) (store w)" using assms(4) i(1) by (simp add: list_all_length)
  from reaches_step [OF assms(3) i(1) this i(2)] i show ?thesis by blast
qed

theorem parallel_threads_progress_witness:
  "\<exists>s i th ev t. init_config demo_K 0 0 par_demo0 = Ret (0, s)
     \<and> thread_step demo_K ([Set_Wait [107] [118], Idle] ! i) s = Ret (th, ev, t) \<and> th \<noteq> [Set_Wait [107] [118], Idle] ! i"
proof -
  obtain s where s: "init_config demo_K 0 0 par_demo0 = Ret (0, s)"
    "world_starts nandsim_byte demo_good 61440 Map.empty \<lparr>threads = [Idle, Idle], store = s, history = []\<rparr>"
    "section_fits (Set_In [107] [118]) s" "par_inv nandsim_byte demo_good 61440 Map.empty s" "quiet s"
    "small Map.empty (pages_per_block s)" "small [[107] \<mapsto> [118]] (pages_per_block s)" by (rule demo_world)
  let ?w0 = "\<lparr>threads = [Idle, Idle], store = s, history = []\<rparr>" and ?th = "Set_Wait [107] [118]"
  have r: "reaches demo_K section_fits ?w0 \<lparr>threads = [?th, Idle], store = s, history = []\<rparr>"
    using reaches_call [OF reaches_start, of 0 ?w0 ?th demo_K section_fits] by (simp add: advance_def)
  from parallel_threads_progress [OF demo_reliable s(2) r] obtain i th ev t where
    "thread_step demo_K ([?th, Idle] ! i) s = Ret (th, ev, t)" "steps_left (nb_blocks s) th < steps_left (nb_blocks s) ([?th, Idle] ! i)"
    by auto
  with s(1) show ?thesis by (intro exI [of _ s] exI [of _ i] exI [of _ th] exI [of _ ev] exI [of _ t]) auto
qed

text \<open>
  Parallel store: cut into steps, the functions compute what they compute in one piece.  A thread
  that runs alone from the call of \<open>set_keyval\<close> ends with its answer and its state, and so do the
  callbacks of the two timers.
\<close>

theorem parallel_thread_alone:
  assumes "reliable_flash K byte_at good fsize" and "par_inv byte_at good fsize M s" and "small M (pages_per_block s)"
    and "section_fits (Set_In k v) s"
  shows "(\<forall>r t. set_keyval K k v s = Ret (r, t) \<longrightarrow> alone K (Set_Wait k v) s [Set_Ev k v r] Idle t)
     \<and> (\<forall>t. wear_timer_callback K s = Ret t \<longrightarrow> alone K (Wear Gc_Flag) s [] Idle t)
     \<and> (\<forall>t. flush_timer_callback K s = Ret t \<longrightarrow> alone K Timer s [] Idle t)"
  using reliable_flash.set_alone [OF assms] alone_gc [OF drives_threads(2) _ alone_stop] flush_timer_alone
  by (auto simp: wear_timer_callback_def)

theorem parallel_thread_alone_witness:
  "\<exists>s r t. init_config demo_K 0 0 par_demo0 = Ret (0, s) \<and> set_keyval demo_K [107] [118] s = Ret (r, t)
     \<and> alone demo_K (Set_Wait [107] [118]) s [Set_Ev [107] [118] r] Idle t"
proof -
  obtain s where s: "init_config demo_K 0 0 par_demo0 = Ret (0, s)"
    "world_starts nandsim_byte demo_good 61440 Map.empty \<lparr>threads = [Idle, Idle], store = s, history = []\<rparr>"
    "section_fits (Set_In [107] [118]) s" "par_inv nandsim_byte demo_good 61440 Map.empty s" "quiet s"
    "small Map.empty (pages_per_block s)" "small [[107] \<mapsto> [118]] (pages_per_block s)" by (rule demo_world)
  obtain t where t: "set_keyval demo_K [107] [118] s = Ret (if read_only t then - 3 else 0, t)"
    using par_set_map [OF demo_reliable s(4), of "[107]" "[118]"] s(3,5) by auto
  from parallel_thread_alone [OF demo_reliable s(4,6,3)] t
  have "alone demo_K (Set_Wait [107] [118]) s [Set_Ev [107] [118] (if read_only t then - 3 else 0)] Idle t" by blast
  with s(1) t show ?thesis by blast
qed

end
