(* ===== verification/Spec2Isabelle.thy ===== *)
theory Spec2Isabelle
  imports VanillaDevice SerialLaws SerialDevice LotteryProps DriverProps LfsTree LfsProps Workload Probes
    ParallelFaults ParallelDevice ParallelLaws ParallelRuns
begin

text \<open>
  Verification of the kernel-programming projects under \<open>src/\<close>: the key-value store for raw
  flash in its prototypes (\<open>p6\<close>), the lottery scheduling class (\<open>p3\<close>), the data-structure
  module (\<open>p2\<close>), the process file system and its test program (\<open>p4\<close>) and the latency probes
  (\<open>p5\<close>).

  \<^bold>\<open>The programs.\<close>  A key-value module stores couples of C strings on an MTD flash partition, one
  couple per page (key length, value length, key, value).  A user process calls \<open>user/kvlib.c\<close>,
  which opens a device file and sends an \<open>ioctl\<close> (\<open>kernel/device.c\<close>), whose handler calls the
  store (\<open>kernel/core.c\<close>), which calls the MTD driver.  The first prototype (\<open>prototype-vanilla\<close>)
  appends couples and finds them by scanning; the second (\<open>prototype-serial\<close>) has an in-memory
  hash index (\<open>kernel/hash.c\<close>), updates and deletes by invalidating pages, chooses blocks by wear,
  collects garbage, and flushes its tables to metadata blocks from which a later load restores
  them; the third (\<open>prototype-parallel\<close>) keeps the tables in blocks of the same partition, guards
  them with three spinlocks, and starts collections and flushes from two timers.  The lottery
  class queues tasks in a list or in an augmented red-black tree and draws the next task among the
  tickets.  The data-structure module fills and empties a list, a kfifo, an
  idr and a red-black tree while it loads.  The process file system of \<open>p4\<close> shows the process tree as
  directories, with a status file to read and a signal file to write per process.  The module of \<open>p5\<close>
  plants probes on scheduler functions and prints when the measuring thread of \<^verbatim>\<open>cyclictest\<close> passes them.

  \<^bold>\<open>Theories.\<close>
  \<^item> \<open>Prelude\<close>: outcomes of C code (a value, \<open>BUG()\<close>, an undefined access, no return), arrays
    by \<open>int\<close> index, bytes and little-endian \<open>int\<close>s, buffers, C strings.
  \<^item> \<open>KernelEnv\<close>: the MTD layer and the allocator as a record of functions, a parameter of every
    definition that calls them; the locale \<open>nand_flash\<close> is the documented contract of a driver,
    proved for the simulators \<open>nandsim\<close> and \<open>heapsim\<close> the examples run on.
  \<^item> \<open>PageFormat\<close>: the couple in a page.  \<open>EraseWait\<close>: the polling loop of \<open>format\<close> and its callback
    as interleaved steps.
  \<^item> \<open>Vanilla\<close>, \<open>VanillaStore\<close>, \<open>VanillaProps\<close>, \<open>VanillaDevice\<close>: the first prototype, one definition
    per function; its invariant and the log of couples it represents; its properties; its device and
    library.
  \<^item> \<open>HashTable\<close>: \<open>hash.c\<close> of the serial and of the parallel prototype, the loops of each as they
    are written and a proof that they do the same; the locale \<open>key_index\<close>
    is the interface the store relies on, interpreted on both.
  \<^item> \<open>Serial\<close>: the second prototype, one definition per function of \<open>core.c\<close>, its loops as separate
    definitions.  \<open>SerialStore\<close>: the invariant \<open>kv_inv M s\<close> (the store \<open>s\<close> holds the map \<open>M\<close>),
    set, get, delete, format and load over the locale \<open>reliable_flash\<close> of \<open>KernelEnv\<close> (a flash without
    errors, interpreted on \<open>heapsim\<close>; its extension \<open>nand_bits\<close> says what programming a programmed
    page does).  \<open>SerialGc\<close>, \<open>SerialFlush\<close>: garbage collection and metadata flush keep the map.
    \<open>SerialProps\<close>, \<open>SerialLaws\<close>: the properties.
  \<^item> \<open>UserSpace\<close>: the \<open>ioctl\<close> structure, the handlers of the commands over the functions of a
    core, the library calls over an \<open>ioctl\<close>; the locale \<open>kv_module\<close> is what the library relies on.
    \<open>SerialDevice\<close> has the device and library of the second prototype and makes every
    \<open>reliable_flash\<close> a \<open>kv_module\<close>.
  \<^item> \<open>Parallel\<close>, \<open>ParallelLoad\<close>: the third prototype, one definition per function of \<open>core.c\<close>, as one
    thread runs it; the locks are flags, and taking one that is held yields \<open>Hang\<close>.  \<open>StoreView\<close>: the
    abstract store both views of blocks and entries agree on, with its steps (drop an entry, open
    a block, append a page, erase a block), each kept valid by a lemma.  \<open>ParallelStore\<close>: the view of a
    state, the invariant \<open>par_inv M s\<close>, get and delete; \<open>ParallelTyped\<close>: the C types of what the
    tables hold (\<open>par_typed\<close>) and the operations that keep them; \<open>ParallelWrite\<close>: writing a page and
    a set; \<open>ParallelTables\<close>: the bytes of the two tables and the way back; \<open>ParallelInit\<close>: format and
    loading an empty partition.
  \<^item> \<open>ParallelGc\<close>, \<open>ParallelCollect\<close>: the garbage collector, step by step and as a whole, over the
    buffer lemmas it shares with the second prototype (\<open>GcBuffer\<close>); \<open>gc_ready\<close> is what a collection
    needs, \<open>calm\<close> what a set needs of the collection or flush it may start.
  \<^item> \<open>ParallelFlush\<close>, \<open>ParallelImage\<close>, \<open>ParallelPersist\<close>: the forced flush.  \<open>flush_plan\<close> is the
    abstract choice of the blocks that take the tables, \<open>flushable\<close> says when the blocks suffice; then
    the bytes that end in the flash, and the map kept.  \<open>ParallelScan\<close>, \<open>ParallelReload\<close>: the scan of a
    load and the tables it reads back.  \<open>reloadable\<close> bounds where that works: the scan meets the chosen
    blocks in the order of their ranks and the block table lies behind one header; a finding says what
    the code does outside of it.
  \<^item> \<open>ParallelProps\<close>, \<open>ParallelLaws\<close>, \<open>ParallelFaults\<close>, \<open>ParallelDevice\<close>: the properties of the third
    prototype, its defects, its device and library, which is the same \<open>kv_module\<close> interface.
  \<^item> \<open>ParallelThreads\<close>, \<open>ParallelRuns\<close>: the threads of the third prototype.  \<open>thread_step\<close> is one step of
    a process in set, get or delete, of the collection or of a timer: one access made without
    \<open>erase_lock\<close>, taking the lock, or what is done under it (\<open>set_body\<close>, \<open>gc_body\<close>, \<open>flush_body\<close> of
    \<open>Parallel\<close>).  \<open>reaches\<close> are the worlds the interleavings lead to; \<open>replay\<close> is the sequential map
    their answers are compared with; \<open>alone\<close> ties the steps back to the functions in one piece.
  \<^item> \<open>Lottery\<close>: \<open>sched_lottery.c\<close> and its callers in \<open>sched.c\<close>; \<open>LotteryQueue\<close>: the draw, the locale
    \<open>lottery_policy\<close> of a queue, interpreted on the list and on the tree for every red-black library
    that keeps the order of nodes; \<open>LotterySched\<close>: the invariant of the run queues;
    \<open>LotteryProps\<close>: the properties, over the runs of an inductive step relation.
  \<^item> \<open>Driver\<close>, \<open>DriverProps\<close>: \<open>p2/driver.c\<close> and its properties.
  \<^item> \<open>Format\<close>: the conversions of \<open>snprintf\<close> and \<open>simple_strtol\<close>.  \<open>Lfs\<close>: the files, directories, mounting
    and signal files of \<open>p4/.../example.c\<close>; \<open>LfsTree\<close>: the tree the table of dentries shows, built up
    by a small algebra of growing tables, and the mirror of the process tree.  \<open>LfsStatus\<close>, \<open>LfsProps\<close>:
    the report of a status file, section by section, and its buffer.  \<open>Workload\<close>: the handlers of
    \<open>p4/.../p4.c\<close> with their invariant.
  \<^item> \<open>Probes\<close>: \<open>p5/.../jprobe_p5final.c\<close>, its probes as data and the calls of the kernel as events.

  \<^bold>\<open>What is shown.\<close>  Serial store: with enough free blocks, couples no longer
  than a block has pages (the size of the collector's buffer) and a buffer object that covers what
  the flush reads (\<open>slack_ok\<close>), a set returns 0 and represents the updated map through
  any collection and flush it starts; get answers the map; set, get and delete round trip, also
  through the library and the device; collection and flush keep the map, each under its part of
  these conditions; blocks are chosen by wear; the index is a map, and the loops of the two
  prototypes agree. Parallel store: a set into a block that is open (or block 0) updates the map
  through any collection it starts and releases the locks, when no flush is due; get and delete
  answer the map; a collection (\<open>gc_ready\<close>) and a forced flush
  (\<open>flushable\<close>) keep it; these operations keep the C types of the tables; the round
  trip through library and device; unloading and loading a \<open>reloadable\<close> store gives the
  same map back; in every interleaving of the threads and timers the lock excludes, the answers are
  those of a sequential map and some thread can go on; and what goes wrong: the couple lost when a
  block is opened, locks kept by error returns, the old value lost when the store is full, the timer
  that never flushes. Vanilla store: runs after a format refine the couple log, return codes
  included; loading recovers the couples; the erase handshake excludes and ends. Lottery: every run
  keeps the queues, sums, totals and the event log, and the operations return; a pick is a draw;
  every task wins for as many numbers as it has tickets; tree and list agree; a tick marks the
  winner, never the running task. Module of \<open>p2\<close>: fifo order, search tree as a set,
  draining. Process file system: mounting mirrors the process tree, a number written is the signal
  sent, what a read gives and when it overruns its buffer; the handlers of its test program release
  all they took. Probes: which are planted, and that the trace is exactly the calls about the
  measuring thread. Theorems about defects of the code: lookups by prefix, couples lost after a
  reload or without a format, the stored couple reported as an error, the bucket a search never
  reaches, keys that overflow a bucket, the library's buffers and codes, the race in opening the
  device, tickets counted twice, the module that never finishes loading, the status report over old
  kernel memory, blocks freed twice, probes left behind by a failed load.

  \<^bold>\<open>Conventions.\<close>  C \<open>int\<close>s are \<open>int\<close> where the code keeps them in range and \<open>32 word\<close> or \<open>64 word\<close>
  where it relies on the width (hash values, tickets, addresses, the clock).  Bounded loops are
  recursion over the list of indices or folds; the retry loop of \<open>p2\<close> is a \<open>partial_function\<close> in
  \<open>option\<close>, and a loop that polls or steps by 0 yields \<open>Hang\<close>.  Only the recursion over the process
  tree has a bound on its levels, which the theorem about it takes as large as the tree is deep.
  Readings of the clock and random numbers are arguments or functions of a counter.  Sizes and page
  numbers of a partition are natural numbers: the models are of partitions whose page numbers and
  tables fit the \<open>int\<close>s of the code.

  \<^bold>\<open>Not modelled.\<close>  The older copy of the core of the parallel prototype, which
  its Makefile does not build; in the interleavings of its threads, formatting and loading, the
  effects of a section that another thread sees before the section ends (only
  \<open>nb_invalid\<close> is read without the lock), and the race on the two counters, each of
  which is advanced in one step; the test and benchmark programs, registration of the file system of
  \<open>p4\<close>, the limit of nested return probes and missed probes in \<open>p5\<close>, fork
  in the lottery class, \<open>printk\<close> output other than the event log and the traces, and
  the scheduler of Linux outside of the code added for the lottery class.
\<close>

end
